(* ===== verification/Prelude.thy ===== *)
theory Prelude
  imports Main "HOL-Library.Word" "HOL-Library.Multiset"
begin

unbundle bit_operations_syntax

text \<open>
  The shared base of the development: the machine integers of the Rust sources, the
  state-and-error actions that the handlers are written in, the checked and saturating
  arithmetic of the Rust standard library, and the lemmas on lists and words that
  several components use.
\<close>

section \<open>Machine integers\<close>

type_synonym u8 = "8 word"
type_synonym u16 = "16 word"
type_synonym u32 = "32 word"
type_synonym u64 = "64 word"
type_synonym i32 = "32 word"
type_synonym i64 = "64 word"

text \<open>
  A signed Rust integer and the unsigned one of its width are the same word: the signed
  reading is \<open>sint\<close>, the unsigned one \<open>unat\<close>, and an \<open>as\<close> cast between
  them is the identity. \<open>f32\<close> and \<open>f64\<close> values are their IEEE 754 bit patterns.
\<close>

type_synonym f32 = "32 word"
type_synonym f64 = "64 word"

definition checked_add :: "'a::len word \<Rightarrow> 'a word \<Rightarrow> 'a word option" where
  "checked_add a b = (if unat a + unat b < 2 ^ LENGTH('a) then Some (a + b) else None)"

definition checked_mul :: "'a::len word \<Rightarrow> 'a word \<Rightarrow> 'a word option" where
  "checked_mul a b = (if unat a * unat b < 2 ^ LENGTH('a) then Some (a * b) else None)"

definition saturating_inc16 :: "u16 \<Rightarrow> u16" where
  "saturating_inc16 a = (if a = -1 then a else a + 1)"

lemma checked_add_Some:
  "checked_add a b = Some c \<Longrightarrow> unat c = unat a + unat b"
  by (auto simp: checked_add_def unat_word_ariths split: if_splits)

lemma checked_mul_Some:
  "checked_mul a b = Some c \<Longrightarrow> unat c = unat a * unat b"
  by (auto simp: checked_mul_def unat_word_ariths split: if_splits)

lemma checked_add_None:
  "checked_add (a :: 'a::len word) b = None \<longleftrightarrow> 2 ^ LENGTH('a) \<le> unat a + unat b"
  by (auto simp: checked_add_def)

lemma checked_mul_None:
  "checked_mul (a :: 'a::len word) b = None \<longleftrightarrow> 2 ^ LENGTH('a) \<le> unat a * unat b"
  by (auto simp: checked_mul_def)

section \<open>Actions: a state that survives an error\<close>

text \<open>
  A Rust method on \<open>&mut\<close> state that returns a \<open>Result\<close>: the state it leaves is
  there whether it succeeded or not, because an early return keeps every mutation made
  before it.
\<close>

type_synonym ('s, 'e, 'a) action = "'s \<Rightarrow> ('e + 'a) \<times> 's"

definition ret :: "'a \<Rightarrow> ('s, 'e, 'a) action" where
  "ret x = (\<lambda>s. (Inr x, s))"

definition throw :: "'e \<Rightarrow> ('s, 'e, 'a) action" where
  "throw e = (\<lambda>s. (Inl e, s))"

definition andThen :: "('s, 'e, 'a) action \<Rightarrow> ('a \<Rightarrow> ('s, 'e, 'b) action) \<Rightarrow> ('s, 'e, 'b) action"
  where
  "andThen m k = (\<lambda>s. case m s of (Inl e, t) \<Rightarrow> (Inl e, t) | (Inr x, t) \<Rightarrow> k x t)"

text \<open>Reading and writing the state, and turning an \<open>Option\<close> into an error.\<close>

definition gets :: "('s \<Rightarrow> 'a) \<Rightarrow> ('s, 'e, 'a) action" where
  "gets f = (\<lambda>s. (Inr (f s), s))"

definition modifies :: "('s \<Rightarrow> 's) \<Rightarrow> ('s, 'e, unit) action" where
  "modifies f = (\<lambda>s. (Inr (), f s))"

definition ok_or :: "'e \<Rightarrow> 'a option \<Rightarrow> ('s, 'e, 'a) action" where
  "ok_or e r = (case r of None \<Rightarrow> throw e | Some x \<Rightarrow> ret x)"

named_theorems action_simps "running actions"

lemma ret_run [action_simps]: "ret x s = (Inr x, s)"
  by (simp add: ret_def)

lemma throw_run [action_simps]: "throw e s = (Inl e, s)"
  by (simp add: throw_def)

lemma gets_run [action_simps]: "gets f s = (Inr (f s), s)"
  by (simp add: gets_def)

lemma modifies_run [action_simps]: "modifies f s = (Inr (), f s)"
  by (simp add: modifies_def)

lemma ok_or_run [action_simps]:
  "ok_or e None s = (Inl e, s)" "ok_or e (Some x) s = (Inr x, s)"
  by (simp_all add: ok_or_def throw_def ret_def)

lemma andThen_run [action_simps]:
  "andThen m k s = (case m s of (Inl e, t) \<Rightarrow> (Inl e, t) | (Inr x, t) \<Rightarrow> k x t)"
  by (simp add: andThen_def)

lemma andThen_ret [simp]: "andThen (ret x) k = k x"
  by (simp add: andThen_def ret_def)

lemma andThen_throw [simp]: "andThen (throw e) k = throw e"
  by (simp add: andThen_def throw_def)

lemma andThen_assoc: "andThen (andThen m k) l = andThen m (\<lambda>x. andThen (k x) l)"
  by (auto simp: andThen_def fun_eq_iff split: prod.splits sum.splits)

section \<open>Vectors that grow fallibly\<close>

text \<open>
  \<open>Vec::try_reserve\<close> of the standard library: the new capacity, or \<open>None\<close> when
  the allocator refuses it. \<open>mem n\<close> is the allocator's answer for \<open>n\<close> elements.
\<close>

definition vec_reserve :: "(nat \<Rightarrow> bool) \<Rightarrow> nat \<Rightarrow> nat \<Rightarrow> nat \<Rightarrow> nat option" where
  "vec_reserve mem cap len extra =
     (if extra \<le> cap - len then Some cap
      else let new = max 4 (max (2 * cap) (len + extra))
           in if mem new then Some new else None)"

definition vec_reserve_exact :: "(nat \<Rightarrow> bool) \<Rightarrow> nat \<Rightarrow> nat \<Rightarrow> nat \<Rightarrow> nat option" where
  "vec_reserve_exact mem cap len extra =
     (if extra \<le> cap - len then Some cap
      else if mem (len + extra) then Some (len + extra) else None)"

lemma vec_reserve_room:
  "vec_reserve mem cap len extra = Some c \<Longrightarrow> len \<le> cap \<Longrightarrow> len + extra \<le> c \<and> cap \<le> c"
  by (auto simp: vec_reserve_def Let_def split: if_splits)

lemma vec_reserve_exact_room:
  "vec_reserve_exact mem cap len extra = Some c \<Longrightarrow> len \<le> cap \<Longrightarrow> len + extra \<le> c \<and> cap \<le> c"
  by (auto simp: vec_reserve_exact_def split: if_splits)

text \<open>\<open>Vec::swap_remove\<close>: the last element takes the place of the removed one.\<close>

definition swap_remove :: "'a list \<Rightarrow> nat \<Rightarrow> 'a \<times> 'a list" where
  "swap_remove xs i = (xs ! i, butlast (xs[i := last xs]))"

lemma mset_swap_remove:
  assumes "i < length xs"
  shows "mset xs = add_mset (fst (swap_remove xs i)) (mset (snd (swap_remove xs i)))"
proof -
  obtain ys z where xs: "xs = ys @ [z]" using assms by (cases xs rule: rev_cases) auto
  show ?thesis
  proof (cases "i < length ys")
    case True
    with xs show ?thesis
      by (simp add: swap_remove_def nth_append list_update_append mset_update)
  next
    case False
    with assms xs have "i = length ys" by simp
    with xs show ?thesis by (simp add: swap_remove_def)
  qed
qed

text \<open>\<open>iter().position(..)\<close>: the first index that satisfies the predicate.\<close>

fun position :: "('a \<Rightarrow> bool) \<Rightarrow> 'a list \<Rightarrow> nat option" where
  "position p [] = None"
| "position p (x # xs) = (if p x then Some 0 else map_option Suc (position p xs))"

text \<open>\<open>Vec::resize\<close> with \<open>Null\<close>, both directions.\<close>

definition resize :: "'a list \<Rightarrow> nat \<Rightarrow> 'a \<Rightarrow> 'a list" where
  "resize xs n fill = take n xs @ replicate (n - length xs) fill"

lemma position_Some:
  "position p xs = Some i \<Longrightarrow> i < length xs \<and> p (xs ! i) \<and> (\<forall>j<i. \<not> p (xs ! j))"
  by (induction xs arbitrary: i) (auto simp: nth_Cons less_Suc_eq_0_disj split: if_splits nat.splits)

lemma position_None: "position p xs = None \<longleftrightarrow> (\<forall>x\<in>set xs. \<not> p x)"
  by (induction xs) auto

lemma set_swap_remove:
  "i < length xs \<Longrightarrow> set (snd (swap_remove xs i)) \<subseteq> set xs"
  using mset_swap_remove [of i xs] by (metis set_mset_add_mset_insert set_mset_mset subset_insertI)

lemma length_swap_remove [simp]: "length (snd (swap_remove xs i)) = length xs - 1"
  by (simp add: swap_remove_def)

lemma resize_grow: "length xs \<le> n \<Longrightarrow> resize xs n fill = xs @ replicate (n - length xs) fill"
  by (simp add: resize_def)

lemma length_resize [simp]: "length (resize xs n fill) = n"
  by (simp add: resize_def)

lemma nth_resize: "i < n \<Longrightarrow> resize xs n fill ! i = (if i < length xs then xs ! i else fill)"
  by (auto simp: resize_def nth_append)


section \<open>The global allocator\<close>

text \<open>
  The allocator behind every fallible reservation is not part of the model: it is an
  argument \<open>al\<close>, and \<open>al k n\<close> says whether it grants a buffer of \<open>n\<close> elements of
  kind \<open>k\<close> (for \<open>ChunkBuf\<close>, the \<open>n\<close>th chunk of a slot store).
\<close>

datatype buf_kind =
    ChunkBuf | I32Buf | U8Buf | U64Buf | SlotBuf | NameBuf | ValueBuf | TableBuf

type_synonym allocator = "buf_kind \<Rightarrow> nat \<Rightarrow> bool"

section \<open>Equal-sized chunks\<close>

lemma length_concat_equal: "\<forall>c\<in>set cs. length c = k \<Longrightarrow> length (concat cs) = length cs * k"
  by (induction cs) auto

lemma nth_concat_equal:
  "\<forall>c\<in>set cs. length c = k \<Longrightarrow> i < length cs * k \<Longrightarrow> concat cs ! i = cs ! (i div k) ! (i mod k)"
proof (induction cs arbitrary: i)
  case Nil
  then show ?case by simp
next
  case (Cons c cs)
  show ?case
  proof (cases "i < k")
    case True
    with Cons.prems show ?thesis by (simp add: nth_append)
  next
    case False
    with Cons.prems have "0 < k" "i - k < length cs * k" by (auto intro: gr0I)
    with False Cons show ?thesis
      by (simp add: nth_append le_div_geq le_mod_geq)
  qed
qed

lemma concat_update_equal:
  "\<forall>c\<in>set cs. length c = k \<Longrightarrow> i < length cs * k \<Longrightarrow>
     concat (cs[i div k := (cs ! (i div k))[i mod k := v]]) = (concat cs)[i := v]"
proof (induction cs arbitrary: i)
  case Nil
  then show ?case by simp
next
  case (Cons c cs)
  show ?case
  proof (cases "i < k")
    case True
    with Cons.prems show ?thesis by (simp add: list_update_append)
  next
    case False
    with Cons.prems have "0 < k" "i - k < length cs * k" by (auto intro: gr0I)
    with False Cons show ?thesis
      by (simp add: list_update_append le_div_geq le_mod_geq)
  qed
qed

end
