(* ===== verification/JvmTypes.thy ===== *)
theory JvmTypes
  imports Prelude
begin

text \<open>
  The values of the interpreter, \<open>crates/jvm/src/types.rs\<close>: the 16-byte
  \<open>Value\<close> of the operand stack, the 8-byte \<open>Slot\<close> that fields, collection
  buffers and lambda captures store, the conversions between the two, the default value of
  a field descriptor and the error type every opcode handler returns.
\<close>

section \<open>Data\<close>

datatype monitor_key = KObject u16 | KArray u16 | KString u16

datatype jvm_value =
    VInt i32
  | VLong i64
  | VFloat f32
  | VDouble f64
  | VReference u16
  | VObjectRef u16
  | VArrayRef u16
  | VNull

datatype slot =
    SInt i32
  | SFloat f32
  | SLongLo u32
  | SLongHi u32
  | SDoubleLo u32
  | SDoubleHi u32
  | SReference u16
  | SObjectRef u16
  | SArrayRef u16
  | SNull

record stack_trace_entry =
  ste_class_name :: string
  ste_method_name :: string
  ste_pc :: nat

datatype jvm_error =
    ClassNotFound
  | MethodNotFound
  | NoSuchMethod
  | InvalidBytecode
  | ClassHashCollision
  | StackOverflow
  | StackUnderflow
  | InvalidReference
  | UnsupportedOpcode u8
  | ArrayIndexOutOfBounds
  | NegativeArraySize
  | AbstractMethodError
  | UnsupportedInvokeDynamic string
  | Exception u16
  | UncaughtException string "string option" "stack_trace_entry list"
  | IllegalMonitorState
  | Interrupted

text \<open>
  What can end a handler early: a \<open>JvmError\<close> value, or a Rust panic (an index past
  the end of a slice, an arithmetic overflow in a checked build).
\<close>

datatype fault = Err jvm_error | Panic

section \<open>Values as slots\<close>

definition slot_width :: "jvm_value \<Rightarrow> nat" where
  "slot_width v = (case v of VLong _ \<Rightarrow> 2 | VDouble _ \<Rightarrow> 2 | _ \<Rightarrow> 1)"

text \<open>A descriptor is its bytes; \<open>J\<close> is 74 and \<open>D\<close> is 68.\<close>

definition descriptor_slot_width :: "u8 list \<Rightarrow> nat" where
  "descriptor_slot_width desc =
     (case desc of [] \<Rightarrow> 1 | c # _ \<Rightarrow> if c = 74 \<or> c = 68 then 2 else 1)"

definition lo32 :: "u64 \<Rightarrow> u32" where
  "lo32 bits = ucast bits"

definition hi32 :: "u64 \<Rightarrow> u32" where
  "hi32 bits = ucast (drop_bit 32 bits)"

definition join32 :: "u32 \<Rightarrow> u32 \<Rightarrow> u64" where
  "join32 hi lo = push_bit 32 (ucast hi) OR ucast lo"

fun to_slots :: "jvm_value \<Rightarrow> slot \<times> slot option" where
  "to_slots (VInt i) = (SInt i, None)"
| "to_slots (VFloat f) = (SFloat f, None)"
| "to_slots (VLong l) = (SLongLo (lo32 l), Some (SLongHi (hi32 l)))"
| "to_slots (VDouble d) = (SDoubleLo (lo32 d), Some (SDoubleHi (hi32 d)))"
| "to_slots (VReference i) = (SReference i, None)"
| "to_slots (VObjectRef i) = (SObjectRef i, None)"
| "to_slots (VArrayRef i) = (SArrayRef i, None)"
| "to_slots VNull = (SNull, None)"

definition push_slots :: "jvm_value \<Rightarrow> slot list \<Rightarrow> slot list" where
  "push_slots v out =
     (case to_slots v of
        (lo, None) \<Rightarrow> out @ [lo]
      | (lo, Some hi) \<Rightarrow> out @ [lo, hi])"

definition slots_len :: "jvm_value list \<Rightarrow> nat" where
  "slots_len vs = sum_list (map slot_width vs)"

text \<open>
  \<open>mem n\<close> is the allocator's answer to a reservation that leaves a buffer with room
  for \<open>n\<close> elements.
\<close>

definition to_slot_vec :: "(nat \<Rightarrow> bool) \<Rightarrow> jvm_value list \<Rightarrow> jvm_error + slot list" where
  "to_slot_vec mem vs =
     (if mem (slots_len vs) then Inr (foldl (\<lambda>out v. push_slots v out) [] vs)
      else Inl StackOverflow)"

definition is_hi :: "slot \<Rightarrow> bool" where
  "is_hi s = (case s of SLongHi _ \<Rightarrow> True | SDoubleHi _ \<Rightarrow> True | _ \<Rightarrow> False)"

definition is_lo :: "slot \<Rightarrow> bool" where
  "is_lo s = (case s of SLongLo _ \<Rightarrow> True | SDoubleLo _ \<Rightarrow> True | _ \<Rightarrow> False)"

fun to_value :: "slot \<Rightarrow> jvm_value option" where
  "to_value (SInt i) = Some (VInt i)"
| "to_value (SFloat f) = Some (VFloat f)"
| "to_value (SReference i) = Some (VReference i)"
| "to_value (SObjectRef i) = Some (VObjectRef i)"
| "to_value (SArrayRef i) = Some (VArrayRef i)"
| "to_value SNull = Some VNull"
| "to_value (SLongLo _) = None"
| "to_value (SLongHi _) = None"
| "to_value (SDoubleLo _) = None"
| "to_value (SDoubleHi _) = None"

definition from_narrow :: "jvm_value \<Rightarrow> slot option" where
  "from_narrow v = (case to_slots v of (s, None) \<Rightarrow> Some s | _ \<Rightarrow> None)"

fun assemble :: "slot \<Rightarrow> slot \<Rightarrow> jvm_value option" where
  "assemble (SLongLo l) (SLongHi h) = Some (VLong (join32 h l))"
| "assemble (SDoubleLo l) (SDoubleHi h) = Some (VDouble (join32 h l))"
| "assemble _ _ = None"

fun read_value :: "slot list \<Rightarrow> (jvm_value \<times> nat) option" where
  "read_value [] = None"
| "read_value (s # rest) =
     (case to_value s of
        Some v \<Rightarrow> Some (v, 1)
      | None \<Rightarrow>
          (case rest of
             [] \<Rightarrow> None
           | h # _ \<Rightarrow> (case assemble s h of None \<Rightarrow> None | Some v \<Rightarrow> Some (v, 2))))"

text \<open>
  The decoding loop: the cursor is the part of the slice still to read. A read consumes one
  cell or two, so what follows a read of width \<open>w\<close> is \<open>drop (w - 1) rest\<close>.
\<close>

fun decode_slots :: "slot list \<Rightarrow> jvm_value list \<Rightarrow> jvm_error + jvm_value list" where
  "decode_slots [] out = Inr out"
| "decode_slots (s # rest) out =
     (case read_value (s # rest) of
        None \<Rightarrow> Inl InvalidBytecode
      | Some (v, w) \<Rightarrow> decode_slots (drop (w - 1) rest) (out @ [v]))"

definition to_values :: "(nat \<Rightarrow> bool) \<Rightarrow> slot list \<Rightarrow> jvm_value list \<Rightarrow> jvm_error + jvm_value list" where
  "to_values mem slots out =
     (if mem (length out + length slots) then decode_slots slots out else Inl StackOverflow)"

text \<open>\<open>I S B C Z\<close> are 73, 83, 66, 67, 90; \<open>J\<close> 74, \<open>F\<close> 70, \<open>D\<close> 68.\<close>

definition default_for_descriptor :: "u8 list \<Rightarrow> jvm_value" where
  "default_for_descriptor desc =
     (case desc of
        [] \<Rightarrow> VNull
      | c # _ \<Rightarrow>
          if c = 73 \<or> c = 83 \<or> c = 66 \<or> c = 67 \<or> c = 90 then VInt 0
          else if c = 74 then VLong 0
          else if c = 70 then VFloat 0
          else if c = 68 then VDouble 0
          else VNull)"

section \<open>Lemmas\<close>

declare decode_slots.simps(2) [simp del]

lemma join32_split [simp]: "join32 (hi32 w) (lo32 w) = w"
  unfolding join32_def hi32_def lo32_def
  by (rule bit_eqI) (auto simp: bit_simps)

lemma lo32_join [simp]: "lo32 (join32 h l) = l"
  unfolding join32_def lo32_def
  by (rule bit_eqI) (auto simp: bit_simps)

lemma hi32_join [simp]: "hi32 (join32 h l) = h"
  unfolding join32_def hi32_def
  by (rule bit_eqI) (auto simp: bit_simps dest: bit_imp_le_length)

definition slots_of :: "jvm_value \<Rightarrow> slot list" where
  "slots_of v = (case to_slots v of (lo, None) \<Rightarrow> [lo] | (lo, Some hi) \<Rightarrow> [lo, hi])"

lemma push_slots_eq: "push_slots v out = out @ slots_of v"
  by (cases v) (simp_all add: push_slots_def slots_of_def)

lemma length_slots_of [simp]: "length (slots_of v) = slot_width v"
  by (cases v) (simp_all add: slots_of_def slot_width_def)

lemma read_value_slots_of [simp]: "read_value (slots_of v @ rest) = Some (v, slot_width v)"
  by (cases v) (simp_all add: slots_of_def slot_width_def)

lemma slot_width_pos [simp]: "0 < slot_width v" "slot_width v \<noteq> 0" "slot_width v \<noteq> Suc 0 \<Longrightarrow> slot_width v = 2"
  by (cases v; simp add: slot_width_def)+

lemma slots_of_nonempty [simp]: "slots_of v \<noteq> []"
  by (cases v) (simp_all add: slots_of_def)

lemma foldl_push_slots: "foldl (\<lambda>out v. push_slots v out) out vs = out @ concat (map slots_of vs)"
  by (induction vs arbitrary: out) (simp_all add: push_slots_eq)

lemma length_concat_slots_of [simp]: "length (concat (map slots_of vs)) = slots_len vs"
  by (induction vs) (simp_all add: slots_len_def)

lemma to_slot_vec_eq:
  "to_slot_vec mem vs =
     (if mem (slots_len vs) then Inr (concat (map slots_of vs)) else Inl StackOverflow)"
  by (simp add: to_slot_vec_def foldl_push_slots)

lemma decode_slots_slots_of [simp]:
  "decode_slots (slots_of v @ rest) out = decode_slots rest (out @ [v])"
proof -
  obtain s tl where e: "slots_of v = s # tl" by (cases "slots_of v") auto
  then have "slot_width v = Suc (length tl)" by (simp flip: length_slots_of)
  moreover have "read_value (s # tl @ rest) = Some (v, slot_width v)"
    using read_value_slots_of [of v rest] by (simp add: e)
  ultimately show ?thesis by (simp add: e decode_slots.simps)
qed

lemma decode_slots_concat: "decode_slots (concat (map slots_of vs)) out = Inr (out @ vs)"
  by (induction vs arbitrary: out) simp_all

lemma to_value_slots_of: "to_value s = Some v \<Longrightarrow> slots_of v = [s]"
  by (cases s) (auto simp: slots_of_def)

lemma assemble_slots_of: "assemble lo hi = Some v \<Longrightarrow> slots_of v = [lo, hi]"
  by (cases "(lo, hi)" rule: assemble.cases) (auto simp: slots_of_def)

lemma read_value_Some:
  "read_value slots = Some (v, w) \<Longrightarrow> take w slots = slots_of v \<and> w = slot_width v"
  by (cases slots)
    (auto split: option.splits list.splits dest: to_value_slots_of assemble_slots_of
       simp flip: length_slots_of)

lemma read_value_width:
  assumes "read_value (s # rest) = Some (v, w)"
  shows "s # rest = slots_of v @ drop (w - 1) rest"
proof -
  from read_value_Some [OF assms] have t: "take w (s # rest) = slots_of v" and "w \<noteq> 0"
    by auto
  then have "drop w (s # rest) = drop (w - 1) rest" by (simp add: drop_Cons')
  with t show ?thesis by (metis append_take_drop_id)
qed

lemma decode_slots_sound:
  "decode_slots slots out = Inr vs \<Longrightarrow> \<exists>ws. vs = out @ ws \<and> slots = concat (map slots_of ws)"
proof (induction slots out rule: decode_slots.induct)
  case (1 out)
  then show ?case by (intro exI [of _ "[]"]) simp
next
  case (2 s rest out)
  then obtain v w where rv: "read_value (s # rest) = Some (v, w)"
    and rec: "decode_slots (drop (w - 1) rest) (out @ [v]) = Inr vs"
    by (auto simp: decode_slots.simps split: option.splits)
  from "2.IH" [OF rv refl rec] obtain ws
    where "vs = (out @ [v]) @ ws" and "drop (w - 1) rest = concat (map slots_of ws)" by blast
  with read_value_width [OF rv] show ?case by (intro exI [of _ "v # ws"]) simp
qed

lemma decode_slots_error: "decode_slots slots out = Inl e \<Longrightarrow> e = InvalidBytecode"
  by (induction slots out rule: decode_slots.induct)
    (auto simp: decode_slots.simps split: option.splits)

section \<open>Properties\<close>

text \<open>
  C38: expanding a list of values into storage slots and decoding the slots gives the same
  values back, whatever mixture of one-slot and two-slot values it is; the result is
  appended to what the caller already had.
\<close>

theorem to_values_to_slot_vec:
  assumes "to_slot_vec mem vs = Inr slots" and "mem' (length out + length slots)"
  shows "to_values mem' slots out = Inr (out @ vs)"
  using assms by (auto simp: to_slot_vec_eq to_values_def decode_slots_concat split: if_splits)

theorem to_values_to_slot_vec_witness:
  "to_values (\<lambda>_. True) [SInt 1, SLongLo 4294967294, SLongHi 4294967295, SNull] [VInt 7] =
     Inr [VInt 7, VInt 1, VLong (- 2), VNull]"
  using to_values_to_slot_vec [of "\<lambda>_. True" "[VInt 1, VLong (- 2), VNull]"
      "[SInt 1, SLongLo 4294967294, SLongHi 4294967295, SNull]" "\<lambda>_. True" "[VInt 7]"]
  by (simp add: to_slot_vec_def push_slots_def lo32_def hi32_def)

text \<open>
  The decoder accepts exactly the images of the encoder: a slot sequence that decodes
  is the expansion of the values it decodes to, so a lone half, a crossed pair of halves or
  a truncated tail is always refused as \<open>InvalidBytecode\<close>.
\<close>

theorem to_values_accepts:
  "case to_values (\<lambda>_. True) slots [] of
     Inr vs \<Rightarrow> slots = concat (map slots_of vs)
   | Inl e \<Rightarrow> e = InvalidBytecode \<and> (\<nexists>vs. slots = concat (map slots_of vs))"
  using decode_slots_sound [of slots "[]"] decode_slots_error [of slots "[]"]
  by (auto simp: to_values_def decode_slots_concat split: sum.splits)

end
