(* ===== verification/JvmFrame.thy ===== *)
theory JvmFrame
  imports JvmTypes
begin

text \<open>
  Call frames, \<open>crates/jvm/src/frame.rs\<close>: the operand stack and the locals of one
  activation, the fallible growth of both, and the pool that hands the buffers of returned
  frames to the next call. A stack is kept as the Rust \<open>Vec\<close> keeps it, the top last.
\<close>

section \<open>Frames\<close>

record frame =
  class_idx :: nat
  method_idx :: nat
  pc :: nat
  inst_pc :: nat
  locals :: "jvm_value list"
  stack :: "jvm_value list"
  locals_cap :: nat
  stack_cap :: nat
  box_return :: u8
  monitor :: "monitor_key option"

text \<open>A pooled buffer is empty: its capacity is all that is left of it.\<close>

record frame_pool =
  bufs :: "nat list"
  bufs_cap :: nat

definition KEEP :: nat where
  "KEEP = 16"

definition pool_new :: frame_pool where
  "pool_new = \<lparr>bufs = [], bufs_cap = 0\<rparr>"

definition pool_take :: "(nat \<Rightarrow> bool) \<Rightarrow> nat \<Rightarrow> frame_pool \<Rightarrow> nat option \<times> frame_pool" where
  "pool_take mem cap p =
     (case position (\<lambda>c. cap \<le> c) (bufs p) of
        Some i \<Rightarrow> (let (c, rest) = swap_remove (bufs p) i in (Some c, p\<lparr>bufs := rest\<rparr>))
      | None \<Rightarrow> (vec_reserve mem 0 0 cap, p))"

definition pool_give :: "(nat \<Rightarrow> bool) \<Rightarrow> nat \<Rightarrow> frame_pool \<Rightarrow> frame_pool" where
  "pool_give mem c p =
     (if c = 0 \<or> KEEP \<le> length (bufs p) then p
      else case vec_reserve mem (bufs_cap p) (length (bufs p)) 1 of
             None \<Rightarrow> p
           | Some pc' \<Rightarrow> p\<lparr>bufs := bufs p @ [c], bufs_cap := pc'\<rparr>)"

definition is_cat2 :: "jvm_value \<Rightarrow> bool" where
  "is_cat2 v = (case v of VLong _ \<Rightarrow> True | VDouble _ \<Rightarrow> True | _ \<Rightarrow> False)"

text \<open>The arguments as locals: a category-2 argument takes its own slot and a filler.\<close>

fun expand_args :: "jvm_value list \<Rightarrow> jvm_value list" where
  "expand_args [] = []"
| "expand_args (v # vs) = (if is_cat2 v then v # VNull # expand_args vs else v # expand_args vs)"

definition args_to_locals :: "jvm_value list \<Rightarrow> u16 \<Rightarrow> jvm_value list" where
  "args_to_locals args max_locals =
     (let ls = expand_args args in resize ls (max (unat max_locals) (length ls)) VNull)"

definition make_frame :: "nat \<Rightarrow> nat \<Rightarrow> jvm_value list \<Rightarrow> nat \<Rightarrow> nat \<Rightarrow> frame" where
  "make_frame ci mi ls lcap scap =
     \<lparr>class_idx = ci, method_idx = mi, pc = 0, inst_pc = 0, locals = ls, stack = [],
      locals_cap = lcap, stack_cap = scap, box_return = 0, monitor = None\<rparr>"

definition frame_new_in ::
  "(nat \<Rightarrow> bool) \<Rightarrow> frame_pool \<Rightarrow> nat \<Rightarrow> nat \<Rightarrow> jvm_value list \<Rightarrow> u16 \<Rightarrow> u16
     \<Rightarrow> (jvm_error + frame) \<times> frame_pool" where
  "frame_new_in mem pool ci mi args max_locals max_stack =
     (let cap = max (unat max_locals) (length args * 2) in
      case pool_take mem cap pool of
        (None, p1) \<Rightarrow> (Inl StackOverflow, p1)
      | (Some lcap, p1) \<Rightarrow>
          (case pool_take mem (unat max_stack) p1 of
             (None, p2) \<Rightarrow> (Inl StackOverflow, pool_give mem lcap p2)
           | (Some scap, p2) \<Rightarrow>
               (Inr (make_frame ci mi (args_to_locals args max_locals) lcap scap), p2)))"

definition recycle :: "(nat \<Rightarrow> bool) \<Rightarrow> frame \<Rightarrow> frame_pool \<Rightarrow> frame_pool" where
  "recycle mem f pool = pool_give mem (stack_cap f) (pool_give mem (locals_cap f) pool)"

definition frame_new ::
  "(nat \<Rightarrow> bool) \<Rightarrow> nat \<Rightarrow> nat \<Rightarrow> jvm_value list \<Rightarrow> u16 \<Rightarrow> u16 \<Rightarrow> jvm_error + frame" where
  "frame_new mem ci mi args max_locals max_stack =
     (case vec_reserve mem 0 0 (max (unat max_locals) (length args * 2)) of
        None \<Rightarrow> Inl StackOverflow
      | Some lcap \<Rightarrow>
          (case vec_reserve mem 0 0 (unat max_stack) of
             None \<Rightarrow> Inl StackOverflow
           | Some scap \<Rightarrow>
               Inr (make_frame ci mi (args_to_locals args max_locals) lcap scap)))"

section \<open>Operations on a frame\<close>

definition grow_and_push :: "(nat \<Rightarrow> bool) \<Rightarrow> jvm_value \<Rightarrow> (frame, fault, unit) action" where
  "grow_and_push mem v f =
     (case vec_reserve mem (stack_cap f) (length (stack f)) 1 of
        None \<Rightarrow> (Inl (Err StackOverflow), f)
      | Some c \<Rightarrow> (Inr (), f\<lparr>stack := stack f @ [v], stack_cap := c\<rparr>))"

definition push :: "(nat \<Rightarrow> bool) \<Rightarrow> jvm_value \<Rightarrow> (frame, fault, unit) action" where
  "push mem v f =
     (if length (stack f) = stack_cap f then grow_and_push mem v f
      else (Inr (), f\<lparr>stack := stack f @ [v]\<rparr>))"

definition pop :: "(frame, fault, jvm_value) action" where
  "pop f =
     (if stack f = [] then (Inl (Err StackUnderflow), f)
      else (Inr (last (stack f)), f\<lparr>stack := butlast (stack f)\<rparr>))"

definition load_local :: "u16 \<Rightarrow> (frame, fault, jvm_value) action" where
  "load_local idx f =
     (if unat idx < length (locals f) then (Inr (locals f ! unat idx), f)
      else (Inl (Err InvalidBytecode), f))"

definition store_local :: "(nat \<Rightarrow> bool) \<Rightarrow> u16 \<Rightarrow> jvm_value \<Rightarrow> (frame, fault, unit) action" where
  "store_local mem idx v f =
     (let i = unat idx in
      if i < length (locals f) then (Inr (), f\<lparr>locals := (locals f)[i := v]\<rparr>)
      else case vec_reserve_exact mem (locals_cap f) (length (locals f)) (i + 1 - length (locals f)) of
             None \<Rightarrow> (Inl (Err StackOverflow), f)
           | Some c \<Rightarrow>
               (Inr (), f\<lparr>locals := (resize (locals f) (i + 1) VNull)[i := v], locals_cap := c\<rparr>))"

section \<open>Invariants and lemmas\<close>

text \<open>What the \<open>Vec\<close>s guarantee: a buffer is never longer than its capacity.\<close>

definition frame_ok :: "frame \<Rightarrow> bool" where
  "frame_ok f \<longleftrightarrow> length (stack f) \<le> stack_cap f \<and> length (locals f) \<le> locals_cap f"

definition pool_ok :: "frame_pool \<Rightarrow> bool" where
  "pool_ok p \<longleftrightarrow> length (bufs p) \<le> KEEP \<and> length (bufs p) \<le> bufs_cap p \<and> 0 \<notin> set (bufs p)"

lemma pool_take_cap:
  "pool_take mem cap p = (Some c, p') \<Longrightarrow> cap \<le> c"
  by (auto simp: pool_take_def Let_def swap_remove_def vec_reserve_def dest: position_Some
      split: option.splits if_splits)

lemma pool_take_ok:
  assumes "pool_ok p" shows "pool_ok (snd (pool_take mem cap p))"
proof (cases "position (\<lambda>c. cap \<le> c) (bufs p)")
  case None
  with assms show ?thesis by (simp add: pool_take_def)
next
  case (Some i)
  then have "i < length (bufs p)" by (simp add: position_Some)
  with Some assms set_swap_remove [of i "bufs p"] show ?thesis
    by (auto simp: pool_take_def pool_ok_def Let_def split: prod.splits)
      (metis length_swap_remove diff_le_self le_trans snd_conv)+
qed

lemma pool_give_ok: "pool_ok p \<Longrightarrow> pool_ok (pool_give mem c p)"
  by (auto simp: pool_give_def pool_ok_def dest: vec_reserve_room split: option.splits)

lemma expand_args_append: "expand_args (xs @ ys) = expand_args xs @ expand_args ys"
  by (induction xs) auto

lemma length_expand_args: "length (expand_args vs) = slots_len vs"
  by (induction vs) (auto simp: slots_len_def slot_width_def is_cat2_def split: jvm_value.splits)

lemma slots_len_le: "slots_len vs \<le> length vs * 2"
  by (induction vs) (auto simp: slots_len_def slot_width_def split: jvm_value.splits)

lemma expand_args_nth:
  "k < length args \<Longrightarrow> expand_args args ! slots_len (take k args) = args ! k"
proof (induction args arbitrary: k)
  case Nil
  then show ?case by simp
next
  case (Cons v vs)
  then show ?case
    by (cases k) (auto simp: slots_len_def slot_width_def is_cat2_def split: jvm_value.splits)
qed

lemma slots_len_take_less: "k < length args \<Longrightarrow> slots_len (take k args) < slots_len args"
proof (induction args arbitrary: k)
  case Nil
  then show ?case by simp
next
  case (Cons v vs)
  then show ?case by (cases k) (auto simp: slots_len_def)
qed

lemma length_args_to_locals: "length (args_to_locals args ml) = max (unat ml) (slots_len args)"
  by (simp add: args_to_locals_def Let_def length_expand_args)

lemma args_to_locals_nth:
  "k < length args \<Longrightarrow> args_to_locals args ml ! slots_len (take k args) = args ! k"
  using slots_len_take_less [of k args]
  by (simp add: args_to_locals_def Let_def nth_resize length_expand_args expand_args_nth)

lemma push_ok: "frame_ok f \<Longrightarrow> frame_ok (snd (push mem v f))"
  by (auto simp: frame_ok_def push_def grow_and_push_def dest: vec_reserve_room split: option.splits)

lemma pop_ok: "frame_ok f \<Longrightarrow> frame_ok (snd (pop f))"
  by (auto simp: frame_ok_def pop_def)

lemma store_local_ok: "frame_ok f \<Longrightarrow> frame_ok (snd (store_local mem i v f))"
  by (auto simp: frame_ok_def store_local_def Let_def dest: vec_reserve_exact_room split: option.splits)

lemma frame_new_ok: "frame_new mem ci mi args ml ms = Inr f \<Longrightarrow> frame_ok f"
  using slots_len_le [of args]
  by (auto simp: frame_new_def frame_ok_def make_frame_def length_args_to_locals
      dest!: vec_reserve_room split: option.splits)

section \<open>Properties\<close>

text \<open>
  A new frame puts every argument where the class file's numbering looks for it: argument
  \<open>k\<close> is read back from the local whose index is the number of slots the arguments
  before it take, a \<open>long\<close> or \<open>double\<close> counting twice.
\<close>

theorem frame_new_arg_slot:
  assumes "frame_new mem ci mi args max_locals max_stack = Inr f"
    and "k < length args" and "slots_len (take k args) < 65536"
  shows "load_local (of_nat (slots_len (take k args))) f = (Inr (args ! k), f)"
proof -
  from assms(1) have "locals f = args_to_locals args max_locals"
    by (auto simp: frame_new_def make_frame_def split: option.splits)
  with assms(2,3) slots_len_take_less [OF assms(2)] show ?thesis
    by (simp add: load_local_def length_args_to_locals args_to_locals_nth unat_of_nat)
qed

theorem frame_new_arg_slot_witness:
  "\<exists>f. frame_new (\<lambda>_. True) 0 0 [VLong 10, VInt 7, VLong 20] 6 4 = Inr f \<and>
       load_local 3 f = (Inr (VLong 20), f)"
proof -
  obtain f where f: "frame_new (\<lambda>_. True) 0 0 [VLong 10, VInt 7, VLong 20] 6 4 = Inr f"
    by (simp add: frame_new_def vec_reserve_def Let_def)
  with frame_new_arg_slot [OF f, of 2] show ?thesis
    by (simp add: slots_len_def slot_width_def)
qed

text \<open>
  building a frame from recycled buffers is building it afresh: whatever the pool holds,
  when both succeed the two frames differ in buffer capacity at most, and the pooled frame's
  buffers have the room the method declares.
\<close>

theorem frame_new_in_like_new:
  assumes "frame_new_in mem pool ci mi args max_locals max_stack = (Inr f, pool')"
    and "frame_new mem ci mi args max_locals max_stack = Inr g"
  shows "f\<lparr>locals_cap := 0, stack_cap := 0\<rparr> = g\<lparr>locals_cap := 0, stack_cap := 0\<rparr>
    \<and> frame_ok f \<and> unat max_locals \<le> locals_cap f \<and> unat max_stack \<le> stack_cap f"
  using assms slots_len_le [of args]
  by (auto simp: frame_new_in_def frame_new_def Let_def make_frame_def frame_ok_def
      length_args_to_locals dest!: pool_take_cap split: option.splits prod.splits)

theorem frame_new_in_like_new_witness:
  "\<exists>f pool'. frame_new_in (\<lambda>n. n \<le> 8) \<lparr>bufs = [2, 9], bufs_cap = 4\<rparr> 0 0 [VInt 7] 3 2 = (Inr f, pool')
      \<and> frame_ok f \<and> stack_cap f = 2 \<and> bufs pool' = []"
proof -
  let ?pool = "\<lparr>bufs = [2, 9], bufs_cap = 4\<rparr>"
  obtain f pool' where f: "frame_new_in (\<lambda>n. n \<le> 8) ?pool 0 0 [VInt 7] 3 2 = (Inr f, pool')"
      "stack_cap f = 2" "bufs pool' = []"
    by (simp add: frame_new_in_def pool_take_def swap_remove_def Let_def make_frame_def)
  obtain g where "frame_new (\<lambda>n. n \<le> 8) 0 0 [VInt 7] 3 2 = Inr g"
    by (simp add: frame_new_def vec_reserve_def Let_def)
  from frame_new_in_like_new [OF f(1) this] f show ?thesis by auto
qed

end
