(* ===== verification/ChunkedSlots.thy ===== *)
theory ChunkedSlots
  imports Prelude
begin

text \<open>
  The slot store shared by the object heap, the array heap and the string table,
  \<open>crates/jvm/src/chunked_slots.rs\<close>: a growing \<open>Vec<Option<T>>\<close> cut into chunks
  of \<open>2 ^ CHUNK_SHIFT\<close> slots. \<open>CHUNK_SHIFT\<close> is a constant of the generated tunables
  file; the model carries it in the store.
\<close>

section \<open>The store and its operations\<close>

record 'a chunked =
  chunk_shift :: nat
  chunks :: "'a option list list"
  cs_len :: nat

definition chunk_size :: "'a chunked \<Rightarrow> nat" where
  "chunk_size cs = 2 ^ chunk_shift cs"

definition cs_new :: "nat \<Rightarrow> 'a chunked" where
  "cs_new sh = \<lparr>chunk_shift = sh, chunks = [], cs_len = 0\<rparr>"

text \<open>\<open>(idx >> CHUNK_SHIFT, idx & CHUNK_MASK)\<close>.\<close>

definition split_index :: "'a chunked \<Rightarrow> nat \<Rightarrow> nat \<times> nat" where
  "split_index cs idx = (idx div chunk_size cs, idx mod chunk_size cs)"

definition cs_get :: "'a chunked \<Rightarrow> nat \<Rightarrow> 'a option option" where
  "cs_get cs idx =
     (if cs_len cs \<le> idx then None
      else let (c, i) = split_index cs idx
           in if c < length (chunks cs) then Some (chunks cs ! c ! i) else None)"

text \<open>
  A write through \<open>get_mut\<close> or \<open>IndexMut\<close>: \<open>None\<close> where the code finds no slot
  (\<open>get_mut\<close>) or panics (the index form).
\<close>

definition cs_update :: "'a chunked \<Rightarrow> nat \<Rightarrow> 'a option \<Rightarrow> 'a chunked option" where
  "cs_update cs idx v =
     (if cs_len cs \<le> idx then None
      else let (c, i) = split_index cs idx
           in if c < length (chunks cs)
              then Some (cs\<lparr>chunks := (chunks cs)[c := (chunks cs ! c)[i := v]]\<rparr>)
              else None)"

definition cs_try_push :: "(nat \<Rightarrow> bool) \<Rightarrow> 'a option \<Rightarrow> 'a chunked \<Rightarrow> nat option \<times> 'a chunked"
  where
  "cs_try_push grant v cs =
     (let idx = cs_len cs; (c, i) = split_index cs idx
      in if length (chunks cs) \<le> c \<and> \<not> grant (length (chunks cs)) then (None, cs)
         else let grown = (if length (chunks cs) \<le> c
                           then chunks cs @ [replicate (chunk_size cs) None] else chunks cs)
              in (Some idx,
                  cs\<lparr>chunks := grown[c := (grown ! c)[i := v]], cs_len := cs_len cs + 1\<rparr>))"

function cs_reserve_chunks :: "(nat \<Rightarrow> bool) \<Rightarrow> nat \<Rightarrow> 'a chunked \<Rightarrow> 'a chunked" where
  "cs_reserve_chunks grant want cs =
     (if length (chunks cs) < want \<and> grant (length (chunks cs))
      then cs_reserve_chunks grant want
             (cs\<lparr>chunks := chunks cs @ [replicate (chunk_size cs) None]\<rparr>)
      else cs)"
  by pat_completeness auto
termination
  by (relation "measure (\<lambda>(grant, want, cs). want - length (chunks cs))") auto

declare cs_reserve_chunks.simps [simp del]

text \<open>\<open>iter()\<close>: the slots below \<open>len\<close>, in index order.\<close>

definition cs_iter :: "'a chunked \<Rightarrow> 'a option list" where
  "cs_iter cs = take (cs_len cs) (concat (chunks cs))"

text \<open>The structural invariant of the diagnostic sweep.\<close>

definition cs_invariant_holds :: "'a chunked \<Rightarrow> bool" where
  "cs_invariant_holds cs =
     (let required = (if cs_len cs = 0 then 0 else (cs_len cs - 1) div chunk_size cs + 1)
      in required \<le> length (chunks cs) \<and> cs_len cs \<le> length (chunks cs) * chunk_size cs)"

section \<open>The interface\<close>

text \<open>
  What the heaps rely on: a store of optional values that behaves as a list, with a lookup,
  an in-place write and an append that may be refused.
\<close>

locale slot_store =
  fixes invar :: "'s \<Rightarrow> bool"
    and slots :: "'s \<Rightarrow> 'a option list"
    and get :: "'s \<Rightarrow> nat \<Rightarrow> 'a option option"
    and update :: "'s \<Rightarrow> nat \<Rightarrow> 'a option \<Rightarrow> 's option"
    and append :: "(nat \<Rightarrow> bool) \<Rightarrow> 'a option \<Rightarrow> 's \<Rightarrow> nat option \<times> 's"
  assumes get_slots: "invar s \<Longrightarrow> get s i = (if i < length (slots s) then Some (slots s ! i) else None)"
    and update_slots: "invar s \<Longrightarrow> i < length (slots s) \<Longrightarrow>
      \<exists>t. update s i v = Some t \<and> invar t \<and> slots t = (slots s)[i := v]"
    and update_none: "invar s \<Longrightarrow> length (slots s) \<le> i \<Longrightarrow> update s i v = None"
    and append_slots: "invar s \<Longrightarrow> append grant v s = (Some i, t) \<Longrightarrow>
      invar t \<and> i = length (slots s) \<and> slots t = slots s @ [v]"
    and append_refused: "invar s \<Longrightarrow> append grant v s = (None, t) \<Longrightarrow> t = s"
begin

lemma update_Some:
  assumes "invar s" and "update s i v = Some t"
  shows "invar t \<and> i < length (slots s) \<and> slots t = (slots s)[i := v]"
proof -
  have "i < length (slots s)"
    using assms update_none [of s i v] by (cases "i < length (slots s)") auto
  with assms update_slots [of s i v] show ?thesis by force
qed

lemma get_update:
  assumes "invar s" and "update s i v = Some t"
  shows "get t j = (if j = i then Some v else get s j)"
  using update_Some [OF assms] assms(1) get_slots [of t j] get_slots [of s j] by simp

lemma get_append:
  assumes "invar s" and "append grant v s = (Some i, t)"
  shows "get t j = (if j = i then Some v else get s j)"
  using append_slots [OF assms] assms(1) get_slots [of t j] get_slots [of s j]
  by (simp add: nth_append)

lemma append_fresh:
  assumes "invar s" and "append grant v s = (Some i, t)"
  shows "get s i = None"
  using append_slots [OF assms] get_slots [OF assms(1), of i] by simp

end

section \<open>The chunked store provides it\<close>

definition cs_ok :: "'a chunked \<Rightarrow> bool" where
  "cs_ok cs \<longleftrightarrow> (\<forall>c\<in>set (chunks cs). length c = chunk_size cs) \<and>
     cs_len cs \<le> length (chunks cs) * chunk_size cs"

lemma chunk_size_pos [simp]: "0 < chunk_size cs" "chunk_size cs \<noteq> 0"
  by (simp_all add: chunk_size_def)

lemma chunk_size_cong [simp]:
  "chunk_size (cs\<lparr>chunks := x\<rparr>) = chunk_size cs" "chunk_size (cs\<lparr>cs_len := n\<rparr>) = chunk_size cs"
  by (simp_all add: chunk_size_def)

lemma cs_concat_length:
  "cs_ok cs \<Longrightarrow> length (concat (chunks cs)) = length (chunks cs) * chunk_size cs"
  by (simp add: cs_ok_def length_concat_equal [of "chunks cs" "chunk_size cs"])

lemma cs_len_iter: "cs_ok cs \<Longrightarrow> length (cs_iter cs) = cs_len cs"
  using cs_concat_length [of cs] by (simp add: cs_iter_def cs_ok_def)

lemma cs_write_chunks:
  "\<forall>c\<in>set xs. length c = k \<Longrightarrow> a < length xs \<Longrightarrow> \<forall>c\<in>set (xs[a := (xs ! a)[i := v]]). length c = k"
  by (metis length_list_update list_update_beyond nth_mem set_update_subset_insert subsetD insertE)

lemma cs_chunk_in_range:
  "cs_ok cs \<Longrightarrow> i < cs_len cs \<Longrightarrow> i div chunk_size cs < length (chunks cs)"
  by (simp add: cs_ok_def less_mult_imp_div_less)

lemma cs_get_iter:
  "cs_ok cs \<Longrightarrow> cs_get cs i = (if i < cs_len cs then Some (cs_iter cs ! i) else None)"
  using cs_chunk_in_range [of cs i] nth_concat_equal [of "chunks cs" "chunk_size cs" i]
  by (auto simp: cs_get_def cs_iter_def split_index_def cs_ok_def)

lemma cs_update_iter:
  assumes "cs_ok cs" "i < cs_len cs"
  shows "\<exists>t. cs_update cs i v = Some t \<and> cs_ok t \<and> cs_iter t = (cs_iter cs)[i := v]"
  using assms cs_chunk_in_range [of cs i] concat_update_equal [of "chunks cs" "chunk_size cs" i v]
    cs_write_chunks [of "chunks cs" "chunk_size cs" "i div chunk_size cs" "i mod chunk_size cs" v]
  by (simp add: cs_update_def split_index_def cs_ok_def cs_iter_def take_update_swap)

definition cs_grow :: "'a chunked \<Rightarrow> 'a chunked" where
  "cs_grow cs = cs\<lparr>chunks := chunks cs @ [replicate (chunk_size cs) None]\<rparr>"

lemma cs_grow_ok: "cs_ok cs \<Longrightarrow> cs_ok (cs_grow cs) \<and> cs_iter (cs_grow cs) = cs_iter cs"
  using cs_concat_length [of cs] by (auto simp: cs_grow_def cs_ok_def cs_iter_def)

lemma cs_push_room:
  assumes "cs_ok cs" and "cs_len cs < length (chunks cs) * chunk_size cs"
    and "(c, i) = split_index cs (cs_len cs)"
    and "cs' = cs\<lparr>chunks := (chunks cs)[c := (chunks cs ! c)[i := v]], cs_len := cs_len cs + 1\<rparr>"
  shows "cs_ok cs' \<and> cs_iter cs' = cs_iter cs @ [v]"
proof -
  have c: "c < length (chunks cs)"
    using assms(2,3) by (simp add: split_index_def less_mult_imp_div_less)
  have "cs_ok cs'"
    using assms c cs_write_chunks [of "chunks cs" "chunk_size cs" c i v] by (simp add: cs_ok_def)
  moreover have "concat (chunks cs') = (concat (chunks cs))[cs_len cs := v]"
    using assms concat_update_equal [of "chunks cs" "chunk_size cs" "cs_len cs" v]
    by (auto simp: split_index_def cs_ok_def)
  moreover have "length (concat (chunks cs)) = length (chunks cs) * chunk_size cs"
    by (rule cs_concat_length [OF assms(1)])
  ultimately show ?thesis
    using assms(2,4) by (simp add: cs_iter_def take_Suc_conv_app_nth)
qed

lemma split_index_grow [simp]: "split_index (cs_grow cs) i = split_index cs i"
  by (simp add: split_index_def cs_grow_def)

lemma cs_try_push_Some:
  assumes "cs_ok cs" and push: "cs_try_push grant v cs = (Some n, cs')"
  shows "cs_ok cs' \<and> n = cs_len cs \<and> cs_iter cs' = cs_iter cs @ [v]"
proof -
  obtain c i where ci: "(c, i) = split_index cs (cs_len cs)" by (metis surj_pair)
  let ?g = "if length (chunks cs) \<le> c then cs_grow cs else cs"
  have c: "c = cs_len cs div chunk_size cs" using ci by (simp add: split_index_def)
  have ok: "cs_ok ?g" and it: "cs_iter ?g = cs_iter cs"
    using assms(1) cs_grow_ok [of cs] by auto
  have len: "cs_len ?g = cs_len cs" and sp: "(c, i) = split_index ?g (cs_len ?g)"
    using ci by (auto simp: cs_grow_def split_index_def)
  have room: "cs_len ?g < length (chunks ?g) * chunk_size ?g"
  proof (cases "length (chunks cs) \<le> c")
    case True
    with assms(1) show ?thesis
      by (simp add: cs_grow_def cs_ok_def add_strict_increasing le_less_trans)
  next
    case False
    with c have "cs_len cs div chunk_size cs < length (chunks cs)" by simp
    with False c show ?thesis by (simp add: div_less_iff_less_mult cs_grow_def)
  qed
  have "cs' = ?g\<lparr>chunks := (chunks ?g)[c := (chunks ?g ! c)[i := v]], cs_len := cs_len ?g + 1\<rparr>"
    and "n = cs_len cs"
    using push ci [symmetric] by (auto simp: cs_try_push_def Let_def cs_grow_def split: if_splits)
  with cs_push_room [OF ok room sp] it show ?thesis by simp
qed

lemma cs_try_push_None: "cs_try_push grant v cs = (None, cs') \<Longrightarrow> cs' = cs"
  by (auto simp: cs_try_push_def Let_def split: prod.splits if_splits)

lemma cs_reserve_chunks_ok:
  "cs_ok cs \<Longrightarrow> cs_ok (cs_reserve_chunks grant want cs) \<and>
     cs_iter (cs_reserve_chunks grant want cs) = cs_iter cs \<and>
     cs_len (cs_reserve_chunks grant want cs) = cs_len cs"
proof (induction grant want cs rule: cs_reserve_chunks.induct)
  case (1 grant want cs)
  then show ?case
    using cs_grow_ok [of cs]
    by (subst (1 2 3) cs_reserve_chunks.simps) (auto simp: cs_grow_def)
qed

lemma cs_new_ok: "cs_ok (cs_new sh) \<and> cs_iter (cs_new sh) = []"
  by (simp add: cs_new_def cs_ok_def cs_iter_def)

lemma cs_update_None: "cs_len cs \<le> i \<Longrightarrow> cs_update cs i v = None"
  by (simp add: cs_update_def)

interpretation cs: slot_store cs_ok cs_iter cs_get cs_update cs_try_push
proof unfold_locales
  fix s :: "'a chunked" and i v
  assume "cs_ok s" and "i < length (cs_iter s)"
  then show "\<exists>t. cs_update s i v = Some t \<and> cs_ok t \<and> cs_iter t = (cs_iter s)[i := v]"
    by (simp add: cs_len_iter cs_update_iter)
next
  fix s :: "'a chunked" and grant v i t
  assume "cs_ok s" and "cs_try_push grant v s = (Some i, t)"
  then show "cs_ok t \<and> i = length (cs_iter s) \<and> cs_iter t = cs_iter s @ [v]"
    by (simp add: cs_len_iter cs_try_push_Some)
qed (auto simp: cs_get_iter cs_len_iter cs_update_None dest: cs_try_push_None)

lemma cs_ok_invariant: "cs_ok cs \<Longrightarrow> cs_invariant_holds cs"
  using cs_chunk_in_range [of cs "cs_len cs - 1"]
  by (auto simp: cs_invariant_holds_def cs_ok_def Let_def Suc_le_eq)

section \<open>Properties\<close>

text \<open>
  A slot store is the list of its slots. An append that the allocator grants lands at the
  index one past the last, disturbs no other slot and is the only change a reader can see;
  one it refuses changes nothing. The structural invariant of the diagnostic sweep holds
  throughout.
\<close>

theorem cs_try_push_reads:
  assumes "cs_ok cs"
  shows "case cs_try_push grant v cs of
      (Some n, cs') \<Rightarrow> n = cs_len cs \<and> cs_ok cs' \<and> cs_invariant_holds cs' \<and>
         (\<forall>j. cs_get cs' j = (if j = n then Some v else cs_get cs j))
    | (None, cs') \<Rightarrow> cs' = cs"
proof -
  obtain r cs' where push: "cs_try_push grant v cs = (r, cs')" by fastforce
  show ?thesis
  proof (cases r)
    case None
    with push show ?thesis using cs_try_push_None [of grant v cs cs'] by simp
  next
    case (Some n)
    with push have push: "cs_try_push grant v cs = (Some n, cs')" by simp
    then show ?thesis
      using cs_try_push_Some [OF assms push] cs.get_append [OF assms push] cs_ok_invariant [of cs'] by simp
  qed
qed

theorem cs_try_push_reads_witness:
  "cs_try_push (\<lambda>_. True) (Some 9) (cs_new 1 :: nat chunked) =
     (Some 0, \<lparr>chunk_shift = 1, chunks = [[Some 9, None]], cs_len = 1\<rparr>)
   \<and> cs_invariant_holds \<lparr>chunk_shift = 1, chunks = [[Some (9::nat), None]], cs_len = 1\<rparr>"
proof -
  have push: "cs_try_push (\<lambda>_. True) (Some 9) (cs_new 1 :: nat chunked) =
     (Some 0, \<lparr>chunk_shift = 1, chunks = [[Some 9, None]], cs_len = 1\<rparr>)"
    by (simp add: cs_try_push_def cs_new_def split_index_def chunk_size_def numeral_2_eq_2)
  have "cs_ok (cs_new 1 :: nat chunked)" using cs_new_ok by blast
  from cs_try_push_reads [OF this, of "Some 9" "\<lambda>_. True"] push show ?thesis by simp
qed

end
