(* ===== verification/SortKeys.thy ===== *)
theory SortKeys
  imports Prelude
begin

text \<open>
  The JVM's one sort, \<open>crates/jvm/src/sort.rs\<close>: a hand-written introsort on \<open>u64\<close>
  keys and the order-preserving key transforms of the primitive element types. A buffer is a
  list; an index outside it, which is a panic in the code, makes the routine return
  \<open>None\<close>, so that never panicking is part of what is proved.
\<close>

section \<open>The routines\<close>

definition INSERTION_THRESHOLD :: nat where
  "INSERTION_THRESHOLD = 16"

text \<open>\<open>buf.swap(i, j)\<close>.\<close>

definition exchange :: "u64 list \<Rightarrow> nat \<Rightarrow> nat \<Rightarrow> u64 list" where
  "exchange buf a b = (let x = buf ! a; y = buf ! b in buf[a := y, b := x])"

text \<open>The inner loop of the insertion sort, with the final store of \<open>key\<close>.\<close>

primrec ins_shift :: "u64 list \<Rightarrow> u64 \<Rightarrow> nat \<Rightarrow> u64 list" where
  "ins_shift buf key 0 = buf[0 := key]"
| "ins_shift buf key (Suc j) =
     (if key < buf ! j then ins_shift (buf[Suc j := buf ! j]) key j else buf[Suc j := key])"

definition insertion_sort :: "u64 list \<Rightarrow> u64 list" where
  "insertion_sort buf = fold (\<lambda>i b. ins_shift b (b ! i) i) [1..<length buf] buf"

definition median_of_three :: "u64 list \<Rightarrow> u64" where
  "median_of_three buf =
     (let a = buf ! 0; b = buf ! (length buf div 2); c = buf ! (length buf - 1)
      in if a < b then (if b < c then b else if a < c then c else a)
         else if a < c then a else if b < c then c else b)"

text \<open>The two scans of the Hoare partition; running off either end is \<open>None\<close>.\<close>

function scan_up :: "u64 list \<Rightarrow> u64 \<Rightarrow> nat \<Rightarrow> nat option" where
  "scan_up buf pivot i =
     (if length buf \<le> i then None
      else if buf ! i < pivot then scan_up buf pivot (i + 1) else Some i)"
  by pat_completeness auto
termination by (relation "measure (\<lambda>(buf, pivot, i). length buf - i)") auto

fun scan_down :: "u64 list \<Rightarrow> u64 \<Rightarrow> nat \<Rightarrow> nat option" where
  "scan_down buf pivot j =
     (if length buf \<le> j then None
      else if pivot < buf ! j
           then (case j of 0 \<Rightarrow> None | Suc j' \<Rightarrow> scan_down buf pivot j')
           else Some j)"

declare scan_up.simps [simp del] scan_down.simps [simp del]

lemma scan_up_ge: "scan_up buf pivot i = Some k \<Longrightarrow> i \<le> k"
  by (induction buf pivot i rule: scan_up.induct) (force simp: scan_up.simps split: if_splits)

lemma scan_down_le: "scan_down buf pivot j = Some k \<Longrightarrow> k \<le> j"
  by (induction j) (auto simp: scan_down.simps split: if_splits)

function hoare_loop :: "u64 list \<Rightarrow> u64 \<Rightarrow> nat \<Rightarrow> nat \<Rightarrow> (u64 list \<times> nat) option" where
  "hoare_loop buf pivot i j =
     (case scan_up buf pivot i of
        None \<Rightarrow> None
      | Some i' \<Rightarrow> (case scan_down buf pivot j of
            None \<Rightarrow> None
          | Some j' \<Rightarrow>
              if j' \<le> i' then Some (buf, j')
              else if j' = 0 then None
              else hoare_loop (exchange buf i' j') pivot (i' + 1) (j' - 1)))"
  by pat_completeness auto
termination
  by (relation "measure (\<lambda>(buf, pivot, i, j). j - i)")
    (auto dest!: scan_up_ge scan_down_le)

declare hoare_loop.simps [simp del]

definition hoare_partition :: "u64 list \<Rightarrow> u64 \<Rightarrow> (u64 list \<times> nat) option" where
  "hoare_partition buf pivot =
     (if length buf = 0 then None else hoare_loop buf pivot 0 (length buf - 1))"

definition bigger_child :: "u64 list \<Rightarrow> nat \<Rightarrow> nat \<Rightarrow> nat" where
  "bigger_child buf child len =
     (if child + 1 < len \<and> buf ! child < buf ! (child + 1) then child + 1 else child)"

function sift_down :: "u64 list \<Rightarrow> nat \<Rightarrow> nat \<Rightarrow> u64 list" where
  "sift_down buf root len =
     (if len \<le> 2 * root + 1 then buf
      else let child = bigger_child buf (2 * root + 1) len
           in if buf ! child \<le> buf ! root then buf
              else sift_down (exchange buf root child) child len)"
  by pat_completeness auto
termination
  by (relation "measure (\<lambda>(buf, root, len). len - root)") (auto simp: bigger_child_def)

declare sift_down.simps [simp del]

definition heapsort :: "u64 list \<Rightarrow> u64 list" where
  "heapsort buf =
     (let len = length buf;
          heap = fold (\<lambda>root b. sift_down b root len) (rev [0..<len div 2]) buf
      in fold (\<lambda>end b. sift_down (exchange b 0 end) 0 end) (rev [1..<len]) heap)"

text \<open>
  The sort proper: the recursion on the smaller side and the loop on the larger one are the
  same function on the two slices, each with the depth budget of this round.
\<close>

fun introsort :: "nat \<Rightarrow> u64 list \<Rightarrow> u64 list option" where
  "introsort depth buf =
     (if length buf < INSERTION_THRESHOLD then Some (insertion_sort buf)
      else case depth of
        0 \<Rightarrow> Some (heapsort buf)
      | Suc d \<Rightarrow>
          (case hoare_partition buf (median_of_three buf) of
             None \<Rightarrow> None
           | Some (buf', mid) \<Rightarrow>
               if length buf' < mid + 1 then None
               else let left = take (mid + 1) buf'; right = drop (mid + 1) buf'
                    in if length left < length right
                       then (case introsort d left of
                               None \<Rightarrow> None
                             | Some l \<Rightarrow> map_option (\<lambda>r. l @ r) (introsort d right))
                       else (case introsort d right of
                               None \<Rightarrow> None
                             | Some r \<Rightarrow> map_option (\<lambda>l. l @ r) (introsort d left))))"

declare introsort.simps [simp del]

text \<open>\<open>usize::BITS - n.leading_zeros()\<close>.\<close>

fun bit_length :: "nat \<Rightarrow> nat" where
  "bit_length n = (if n = 0 then 0 else Suc (bit_length (n div 2)))"

declare bit_length.simps [simp del]

definition sort_keys :: "u64 list \<Rightarrow> u64 list option" where
  "sort_keys buf = introsort (2 * bit_length (length buf)) buf"

section \<open>Exchanges\<close>

lemma exchange_nth:
  assumes "a < length buf" "b < length buf"
  shows "exchange buf a b ! k = (if k = a then buf ! b else if k = b then buf ! a else buf ! k)"
  using assms unfolding exchange_def Let_def by (cases "k = b"; cases "k = a") auto

lemma exchange_mset [simp]:
  "\<lbrakk>a < length buf; b < length buf\<rbrakk> \<Longrightarrow> mset (exchange buf a b) = mset buf"
  unfolding exchange_def Let_def by (rule Multiset.mset_swap)

lemma exchange_length [simp]: "length (exchange buf a b) = length buf"
  unfolding exchange_def Let_def by simp

section \<open>Insertion sort\<close>

lemma ins_shift_append:
  "length xs = n \<Longrightarrow> \<exists>P Q. xs = P @ Q \<and> ins_shift (xs @ h # ys) key n = P @ key # Q @ ys \<and>
     (\<forall>q\<in>set Q. key < q) \<and> (P \<noteq> [] \<longrightarrow> last P \<le> key)"
proof (induction n arbitrary: xs h ys)
  case 0
  then show ?case by simp
next
  case (Suc n)
  then obtain zs y where xs: "xs = zs @ [y]" and n: "length zs = n"
    by (metis length_Suc_conv_rev)
  have y: "(xs @ h # ys) ! n = y" "(xs @ h # ys)[Suc n := y] = zs @ y # y # ys"
    "(xs @ h # ys)[Suc n := key] = xs @ key # ys"
    by (simp_all add: xs list_update_append flip: n)
  show ?case
  proof (cases "key < y")
    case True
    obtain P Q where "zs = P @ Q" "ins_shift (zs @ y # y # ys) key n = P @ key # Q @ y # ys"
      "\<forall>q\<in>set Q. key < q" "P \<noteq> [] \<longrightarrow> last P \<le> key"
      using Suc.IH [OF n, of y "y # ys"] by blast
    with True xs y show ?thesis
      by (intro exI [of _ P] exI [of _ "Q @ [y]"]) simp
  next
    case False
    with xs y show ?thesis
      by (intro exI [of _ xs] exI [of _ "[]"]) simp
  qed
qed

lemma sorted_last_le: "sorted xs \<Longrightarrow> x \<in> set xs \<Longrightarrow> x \<le> last xs"
  by (cases xs rule: rev_cases) (auto simp: sorted_append)

lemma ins_shift_sorts:
  assumes "i < length b" and "sorted (take i b)"
  defines "b' \<equiv> ins_shift b (b ! i) i"
  shows "length b' = length b \<and> mset b' = mset b \<and> sorted (take (Suc i) b')"
proof -
  let ?xs = "take i b" and ?ys = "drop (Suc i) b"
  have b: "b = ?xs @ b ! i # ?ys" using assms(1) by (simp add: id_take_nth_drop)
  obtain P Q where PQ: "?xs = P @ Q" "b' = P @ b ! i # Q @ ?ys"
    "\<forall>q\<in>set Q. b ! i < q" "P \<noteq> [] \<longrightarrow> last P \<le> b ! i"
    using ins_shift_append [of ?xs i "b ! i" ?ys "b ! i"] assms(1) b by (auto simp: b'_def)
  have "sorted P" "sorted Q" "\<forall>p\<in>set P. \<forall>q\<in>set Q. p \<le> q"
    using assms(2) PQ(1) by (auto simp: sorted_append)
  moreover have "\<forall>p\<in>set P. p \<le> b ! i"
    using PQ(4) sorted_last_le [OF \<open>sorted P\<close>] by fastforce
  ultimately have "sorted (P @ b ! i # Q)"
    using PQ(3) by (fastforce simp: sorted_append)
  moreover have "take (Suc i) b' = P @ b ! i # Q"
  proof -
    have "length (P @ b ! i # Q) = Suc i"
      using arg_cong [OF PQ(1), of length] assms(1) by simp
    then show ?thesis by (subst PQ(2)) (metis append.assoc append_Cons append_eq_conv_conj)
  qed
  moreover have "mset b' = mset b"
    using PQ(1,2) by (subst b) simp
  ultimately show ?thesis by (metis size_mset)
qed

lemma insertion_sort_prefix:
  "n \<le> length buf \<Longrightarrow>
   (let b = fold (\<lambda>i b. ins_shift b (b ! i) i) [1..<n] buf
    in length b = length buf \<and> mset b = mset buf \<and> sorted (take n b))"
proof (induction n)
  case 0
  then show ?case by simp
next
  case (Suc n)
  show ?case
  proof (cases "n = 0")
    case True
    then show ?thesis by (cases buf) (auto simp: take_Suc)
  next
    case False
    with Suc show ?thesis
      using ins_shift_sorts [of n "fold (\<lambda>i b. ins_shift b (b ! i) i) [1..<n] buf"]
      by (simp add: Let_def)
  qed
qed

lemma insertion_sort_sorts: "insertion_sort buf = sort buf"
proof -
  let ?b = "insertion_sort buf"
  have "length ?b = length buf" "mset ?b = mset buf" "sorted (take (length buf) ?b)"
    using insertion_sort_prefix [of "length buf" buf] unfolding insertion_sort_def Let_def by auto
  then show ?thesis by (metis order_refl properties_for_sort take_all)
qed

section \<open>Heapsort\<close>

text \<open>The heap order on the first \<open>len\<close> slots, for the parents from \<open>lo\<close> on.\<close>

definition parent :: "nat \<Rightarrow> nat" where
  "parent c = (c - 1) div 2"

definition heap_from :: "u64 list \<Rightarrow> nat \<Rightarrow> nat \<Rightarrow> bool" where
  "heap_from b lo len \<longleftrightarrow> (\<forall>c. 0 < c \<and> c < len \<and> lo \<le> parent c \<longrightarrow> b ! c \<le> b ! parent c)"

lemma parent_child: "0 < c \<Longrightarrow> parent c = p \<longleftrightarrow> c = 2 * p + 1 \<or> c = 2 * p + 2"
  by (auto simp: parent_def)

lemma parent_less: "0 < c \<Longrightarrow> parent c < c"
  by (auto simp: parent_def)

lemma parent_children [simp]: "parent (Suc (2 * p)) = p" "parent (Suc (Suc (2 * p))) = p"
  by (simp_all add: parent_def)

text \<open>
  One step of the descent: below a root that may be too small, the heap order holds at
  every other parent, and the children of the root are below the root's own parent.
\<close>

definition sift_pre :: "u64 list \<Rightarrow> nat \<Rightarrow> nat \<Rightarrow> nat \<Rightarrow> bool" where
  "sift_pre b root lo len \<longleftrightarrow>
     (\<forall>c. 0 < c \<and> c < len \<and> lo \<le> parent c \<and> parent c \<noteq> root \<longrightarrow> b ! c \<le> b ! parent c) \<and>
     (\<forall>c. 0 < c \<and> c < len \<and> parent c = root \<and> 0 < root \<and> lo \<le> parent root \<longrightarrow>
        b ! c \<le> b ! parent root)"

lemma sift_pre_step:
  assumes pre: "sift_pre b root lo len" and "len \<le> length b" and "lo \<le> root"
    and "c' = bigger_child b (2 * root + 1) len"
    and "2 * root + 1 < len" and "b ! root < b ! c'"
  shows "sift_pre (exchange b root c') c' lo len"
proof -
  have c': "c' < len" "parent c' = root" "0 < c'" "root < c'"
    using assms(4,5) by (auto simp: parent_def bigger_child_def)
  have sib: "b ! c \<le> b ! c'" if "0 < c" "c < len" "parent c = root" for c
    using that assms(4) by (auto simp: parent_child bigger_child_def)
  have n: "exchange b root c' ! k = (if k = root then b ! c' else if k = c' then b ! root else b ! k)" for k
    using c' assms(2) by (simp add: exchange_nth)
  have "exchange b root c' ! c \<le> exchange b root c' ! parent c"
    if c: "0 < c" "c < len" "lo \<le> parent c" "parent c \<noteq> c'" for c
  proof -
    have "parent c < c" using c(1) by (rule parent_less)
    then show ?thesis
      using pre c c' sib [of c] assms(6) unfolding sift_pre_def n by (auto simp: less_imp_le)
  qed
  moreover have "exchange b root c' ! c \<le> exchange b root c' ! parent c'"
    if c: "0 < c" "c < len" "parent c = c'" for c
  proof -
    have "c \<noteq> root" "c \<noteq> c'" using parent_less [OF c(1)] c(3) c'(4) by auto
    then show ?thesis using pre c c' assms(3) unfolding sift_pre_def n by auto
  qed
  ultimately show ?thesis by (simp add: sift_pre_def)
qed

lemma heap_from_sift_pre:
  assumes "sift_pre b root lo len"
    and "\<And>c. 0 < c \<Longrightarrow> c < len \<Longrightarrow> parent c = root \<Longrightarrow> b ! c \<le> b ! root"
  shows "heap_from b lo len"
  unfolding heap_from_def
proof (intro allI impI)
  fix c assume "0 < c \<and> c < len \<and> lo \<le> parent c"
  then show "b ! c \<le> b ! parent c"
    using assms by (cases "parent c = root") (auto simp: sift_pre_def)
qed

lemma sift_down_heap:
  "sift_pre b root lo len \<Longrightarrow> len \<le> length b \<Longrightarrow> lo \<le> root \<Longrightarrow>
   heap_from (sift_down b root len) lo len"
proof (induction b root len rule: sift_down.induct)
  case (1 b root len)
  let ?c = "bigger_child b (2 * root + 1) len"
  show ?case
  proof (cases "len \<le> 2 * root + 1 \<or> b ! ?c \<le> b ! root")
    case True
    have "b ! c \<le> b ! root" if "0 < c" "c < len" "parent c = root" for c
      using that True by (auto simp: parent_child bigger_child_def split: if_splits)
    then have "heap_from b lo len" by (rule heap_from_sift_pre [OF 1(2)])
    with True show ?thesis by (subst sift_down.simps) (auto simp: Let_def)
  next
    case False
    then have "sift_pre (exchange b root ?c) ?c lo len" and "lo \<le> ?c"
      using sift_pre_step [OF 1(2-4), of ?c] 1(4) by (auto simp: bigger_child_def)
    then have "heap_from (sift_down (exchange b root ?c) ?c len) lo len"
      using 1(1) [OF _ refl] False 1(3) by simp
    with False show ?thesis by (subst sift_down.simps) (simp add: Let_def)
  qed
qed

lemma sift_down_frame:
  "len \<le> length b \<Longrightarrow> length (sift_down b root len) = length b \<and>
     mset (sift_down b root len) = mset b \<and> drop len (sift_down b root len) = drop len b"
proof (induction b root len rule: sift_down.induct)
  case (1 b root len)
  let ?c = "bigger_child b (2 * root + 1) len"
  show ?case
  proof (cases "len \<le> 2 * root + 1 \<or> b ! ?c \<le> b ! root")
    case True
    then have "sift_down b root len = b" by (subst sift_down.simps) (auto simp: Let_def)
    then show ?thesis by simp
  next
    case False
    then have eq: "sift_down b root len = sift_down (exchange b root ?c) ?c len"
      by (subst sift_down.simps) (simp add: Let_def)
    have "?c < len" using False by (auto simp: bigger_child_def)
    then have "drop len (exchange b root ?c) = drop len b" and "mset (exchange b root ?c) = mset b"
      using False 1(2) by (simp_all add: exchange_def Let_def Multiset.mset_swap)
    then show ?thesis unfolding eq using 1(1) [OF _ refl] False 1(2) by simp
  qed
qed

lemma sift_down_take:
  assumes "len \<le> length b"
  shows "mset (take len (sift_down b root len)) = mset (take len b)"
proof -
  have "mset (take len b) + mset (drop len b) = mset b" for b :: "u64 list"
    by (metis append_take_drop_id mset_append)
  then show ?thesis using sift_down_frame [OF assms, of root] by (metis add_right_cancel)
qed

lemma heap_root_max: "heap_from b 0 len \<Longrightarrow> k < len \<Longrightarrow> b ! k \<le> b ! 0"
proof (induction k rule: less_induct)
  case (less k)
  show ?case
  proof (cases "k = 0")
    case False
    then have "parent k < k" "b ! k \<le> b ! parent k"
      using less.prems parent_less [of k] by (auto simp: heap_from_def)
    with less show ?thesis by fastforce
  qed simp
qed

lemma heapify_prefix:
  "n \<le> length buf div 2 \<Longrightarrow>
   (let b = fold (\<lambda>root b. sift_down b root (length buf)) (rev [n..<length buf div 2]) buf
    in length b = length buf \<and> mset b = mset buf \<and> heap_from b n (length buf))"
proof (induction n rule: inc_induct)
  case base
  then show ?case by (auto simp: heap_from_def parent_def)
next
  case (step n)
  let ?b = "fold (\<lambda>root b. sift_down b root (length buf)) (rev [Suc n..<length buf div 2]) buf"
  have len: "length ?b = length buf" and ms: "mset ?b = mset buf"
    and h: "heap_from ?b (Suc n) (length buf)"
    using step by (simp_all add: Let_def)
  have "n \<le> parent c \<Longrightarrow> parent c \<noteq> n \<Longrightarrow> Suc n \<le> parent c" for c by simp
  moreover have "\<not> (0 < n \<and> n \<le> parent n)" using parent_less [of n] by auto
  ultimately have "sift_pre ?b n n (length buf)"
    using h by (auto simp: sift_pre_def heap_from_def)
  with sift_down_heap [of ?b n n "length buf"] sift_down_frame [of "length buf" ?b n] len ms step(2)
  show ?case by (simp add: Let_def upt_conv_Cons)
qed

text \<open>What the second loop keeps: a heap before \<open>n\<close>, sorted and larger from \<open>n\<close> on.\<close>

definition extract_inv :: "u64 list \<Rightarrow> nat \<Rightarrow> bool" where
  "extract_inv b n \<longleftrightarrow> heap_from b 0 n \<and> sorted (drop n b) \<and>
     (\<forall>x\<in>set (take n b). \<forall>y\<in>set (drop n b). x \<le> y)"

lemma extract_step:
  assumes inv: "extract_inv b (Suc n)" and "n < length b" and "0 < n"
  shows "extract_inv (sift_down (exchange b 0 n) 0 n) n"
proof -
  let ?s = "exchange b 0 n" and ?r = "sift_down (exchange b 0 n) 0 n"
  have nth: "?s ! k = (if k = 0 then b ! n else if k = n then b ! 0 else b ! k)" for k
    using assms(2) by (subst exchange_nth) auto
  have "sift_pre ?s 0 0 n"
  proof -
    have "?s ! c \<le> ?s ! parent c" if c: "0 < c" "c < n" "parent c \<noteq> 0" for c
      using c parent_less [OF c(1)] inv by (simp add: nth extract_inv_def heap_from_def)
    then show ?thesis by (simp add: sift_pre_def)
  qed
  then have "heap_from ?r 0 n" using assms(2) by (intro sift_down_heap) auto
  moreover have d: "drop n ?r = b ! 0 # drop (Suc n) b"
  proof -
    have "drop n ?r = drop n ?s" using sift_down_frame [of n ?s 0] assms(2) by simp
    also have "\<dots> = ?s ! n # drop (Suc n) ?s" using assms(2) by (simp add: Cons_nth_drop_Suc)
    also have "\<dots> = b ! 0 # drop (Suc n) b" using assms(3) nth [of n] by (simp add: exchange_def Let_def)
    finally show ?thesis .
  qed
  moreover have top: "x \<le> b ! 0" if "x \<in> set (take (Suc n) b)" for x
    using that heap_root_max [of b "Suc n"] inv assms(2)
    by (auto simp: extract_inv_def in_set_conv_nth)
  moreover have "b ! 0 \<in> set (take (Suc n) b)"
    using assms(2) by (simp add: in_set_conv_nth) (metis nth_take zero_less_Suc)
  moreover have sub: "set (take n ?r) \<subseteq> set (take (Suc n) b)"
  proof -
    have "set (take n ?r) = set (take n ?s)"
      using sift_down_take [of n ?s 0] assms(2) by (metis exchange_length less_imp_le set_mset_mset)
    also have "\<dots> \<subseteq> set (take (Suc n) b)"
    proof
      fix x assume "x \<in> set (take n ?s)"
      then obtain k where "k < n" "x = ?s ! k" using assms(2) by (auto simp: in_set_conv_nth)
      then show "x \<in> set (take (Suc n) b)"
        using assms(2,3) nth [of k]
        by (auto simp: in_set_conv_nth intro: exI [of _ n] exI [of _ k])
    qed
    finally show ?thesis .
  qed
  ultimately show ?thesis
    using inv unfolding extract_inv_def d by (auto simp: subset_iff)
qed

lemma heapsort_loop:
  assumes "heap_from h 0 (length h)"
  shows "1 \<le> n \<Longrightarrow> n \<le> length h \<Longrightarrow>
    (let b = fold (\<lambda>end b. sift_down (exchange b 0 end) 0 end) (rev [n..<length h]) h
     in length b = length h \<and> mset b = mset h \<and> extract_inv b n)"
proof (rotate_tac, induction n rule: inc_induct)
  case base
  then show ?case using assms by (simp add: extract_inv_def)
next
  case (step n)
  let ?b = "fold (\<lambda>end b. sift_down (exchange b 0 end) 0 end) (rev [Suc n..<length h]) h"
  have "length ?b = length h" "mset ?b = mset h" "extract_inv ?b (Suc n)"
    using step by (simp_all add: Let_def)
  moreover have "mset (exchange ?b 0 n) = mset ?b"
    by (rule exchange_mset) (use step(2,4) calculation in auto)
  ultimately show ?case
    using extract_step [of ?b n] sift_down_frame [of n "exchange ?b 0 n" 0] step(2,4)
    by (simp add: Let_def upt_conv_Cons)
qed

lemma extract_inv_sorted: "extract_inv b 1 \<Longrightarrow> sorted b"
  by (cases b) (auto simp: extract_inv_def)

lemma heapsort_sorts: "heapsort buf = sort buf"
proof (cases "length buf < 1")
  case True
  then show ?thesis by (simp add: heapsort_def)
next
  case False
  let ?h = "fold (\<lambda>root b. sift_down b root (length buf)) (rev [0..<length buf div 2]) buf"
  have h: "length ?h = length buf" "mset ?h = mset buf" "heap_from ?h 0 (length ?h)"
    using heapify_prefix [of 0 buf] by (simp_all add: Let_def)
  have "mset (heapsort buf) = mset buf \<and> extract_inv (heapsort buf) 1"
    using heapsort_loop [OF h(3), of 1] h(1,2) False by (simp add: heapsort_def Let_def)
  then show ?thesis by (metis extract_inv_sorted properties_for_sort)
qed

section \<open>The partition\<close>

lemma scan_up_finds:
  "\<exists>k. i \<le> k \<and> k < length buf \<and> pivot \<le> buf ! k \<Longrightarrow>
   \<exists>k. scan_up buf pivot i = Some k \<and> k < length buf \<and> pivot \<le> buf ! k \<and>
     (\<forall>m. i \<le> m \<and> m < k \<longrightarrow> buf ! m < pivot)"
proof (induction buf pivot i rule: scan_up.induct)
  case (1 buf pivot i)
  show ?case
  proof (cases "i < length buf \<and> buf ! i < pivot")
    case True
    with 1(2) have "\<exists>k. i + 1 \<le> k \<and> k < length buf \<and> pivot \<le> buf ! k"
      by (metis Suc_eq_plus1 leD le_neq_implies_less less_eq_Suc_le)
    with 1(1) True show ?thesis
      by (subst scan_up.simps) (auto simp: not_le, metis Suc_leI le_neq_implies_less)
  next
    case False
    with 1(2) show ?thesis by (subst scan_up.simps) auto
  qed
qed

lemma scan_down_finds:
  "j < length buf \<Longrightarrow> \<exists>k\<le>j. buf ! k \<le> pivot \<Longrightarrow>
   \<exists>k. scan_down buf pivot j = Some k \<and> buf ! k \<le> pivot \<and>
     (\<forall>m. k < m \<and> m \<le> j \<longrightarrow> pivot < buf ! m)"
proof (induction j)
  case 0
  then show ?case by (subst scan_down.simps) auto
next
  case (Suc j)
  show ?case
  proof (cases "pivot < buf ! Suc j")
    case True
    with Suc.prems have "\<exists>k\<le>j. buf ! k \<le> pivot" by (metis leD le_Suc_eq)
    with Suc True show ?thesis
      by (subst scan_down.simps) (auto simp: le_Suc_eq)
  next
    case False
    with Suc.prems show ?thesis by (subst scan_down.simps) auto
  qed
qed

text \<open>
  What holds at the head of the loop: the two outer parts are on their sides of the pivot,
  and each scan has an element in front of it to stop on.
\<close>

definition hoare_inv :: "u64 list \<Rightarrow> u64 \<Rightarrow> nat \<Rightarrow> nat \<Rightarrow> bool" where
  "hoare_inv buf pivot i j \<longleftrightarrow> j < length buf \<and>
     (\<forall>k<i. buf ! k \<le> pivot) \<and> (\<forall>k<length buf. j < k \<longrightarrow> pivot \<le> buf ! k) \<and>
     (\<exists>k\<ge>i. k < length buf \<and> pivot \<le> buf ! k) \<and> (\<exists>k\<le>j. buf ! k \<le> pivot)"

lemma hoare_loop_ok:
  "hoare_inv buf pivot i j \<Longrightarrow>
   \<exists>b m. hoare_loop buf pivot i j = Some (b, m) \<and> mset b = mset buf \<and> m < length b \<and>
     (\<forall>k\<le>m. b ! k \<le> pivot) \<and> (\<forall>k<length b. m < k \<longrightarrow> pivot \<le> b ! k)"
proof (induction buf pivot i j rule: hoare_loop.induct)
  case (1 buf pivot i j)
  obtain i' where i': "scan_up buf pivot i = Some i'" "i' < length buf" "pivot \<le> buf ! i'"
    "\<forall>m. i \<le> m \<and> m < i' \<longrightarrow> buf ! m < pivot"
    using scan_up_finds [of i buf pivot] 1(2) by (auto simp: hoare_inv_def)
  obtain j' where j': "scan_down buf pivot j = Some j'" "buf ! j' \<le> pivot"
    "\<forall>m. j' < m \<and> m \<le> j \<longrightarrow> pivot < buf ! m" "j' \<le> j"
    using scan_down_finds [of j buf pivot] scan_down_le [of buf pivot j] 1(2)
    by (auto simp: hoare_inv_def)
  have low: "buf ! k \<le> pivot" if "k < i'" for k
    using that i'(4) 1(2) by (cases "k < i") (auto simp: hoare_inv_def less_imp_le)
  have high: "pivot \<le> buf ! k" if "k < length buf" "j' < k" for k
    using that j'(3) 1(2) by (cases "j < k") (auto simp: hoare_inv_def less_imp_le)
  show ?case
  proof (cases "j' \<le> i'")
    case True
    have "\<forall>k\<le>j'. buf ! k \<le> pivot"
      using True low j'(2) by (metis le_neq_implies_less less_le_trans)
    with True i'(1) j'(1,4) high 1(2) show ?thesis
      by (subst hoare_loop.simps) (auto simp: hoare_inv_def)
  next
    case False
    let ?s = "exchange buf i' j'"
    have j: "j' < length buf" using j'(4) 1(2) by (simp add: hoare_inv_def)
    have nth: "?s ! k = (if k = i' then buf ! j' else if k = j' then buf ! i' else buf ! k)" for k
      using i'(2) j by (simp add: exchange_nth)
    have "?s ! j' = buf ! i'" "?s ! i' = buf ! j'" "i' \<le> j' - 1" "i' + 1 \<le> j'"
      using False nth by auto
    then have "\<exists>k\<ge>i' + 1. k < length ?s \<and> pivot \<le> ?s ! k" "\<exists>k\<le>j' - 1. ?s ! k \<le> pivot"
      using i'(3) j'(2) j by (auto intro: exI [of _ j'] exI [of _ i'])
    moreover have "\<forall>k<i' + 1. ?s ! k \<le> pivot"
      unfolding nth using False j'(2) low by (auto simp: less_Suc_eq)
    moreover have "\<forall>k<length ?s. j' - 1 < k \<longrightarrow> pivot \<le> ?s ! k"
      unfolding nth using False i'(3) high by auto
    ultimately have "hoare_inv ?s pivot (i' + 1) (j' - 1)"
      using j by (simp add: hoare_inv_def)
    with 1(1) [OF i'(1) j'(1) False] False i'(1,2) j'(1) j show ?thesis
      by (subst hoare_loop.simps) auto
  qed
qed

lemma median_in: "buf \<noteq> [] \<Longrightarrow> median_of_three buf \<in> set buf"
  by (auto simp: median_of_three_def Let_def)

lemma hoare_partition_ok:
  assumes "buf \<noteq> []"
  shows "\<exists>b m. hoare_partition buf (median_of_three buf) = Some (b, m) \<and>
    mset b = mset buf \<and> m < length b \<and>
    (\<forall>x\<in>set (take (m + 1) b). \<forall>y\<in>set (drop (m + 1) b). x \<le> y)"
proof -
  let ?p = "median_of_three buf"
  obtain k where "k < length buf" "buf ! k = ?p"
    using median_in [OF assms] by (auto simp: in_set_conv_nth)
  then have "hoare_inv buf ?p 0 (length buf - 1)"
    using assms by (auto simp: hoare_inv_def intro!: exI [of _ k])
  from hoare_loop_ok [OF this] obtain b m where
    r: "hoare_partition buf ?p = Some (b, m)" "mset b = mset buf" "m < length b"
      "\<forall>k\<le>m. b ! k \<le> ?p" "\<forall>k<length b. m < k \<longrightarrow> ?p \<le> b ! k"
    using assms by (auto simp: hoare_partition_def)
  have "x \<le> ?p" if "x \<in> set (take (m + 1) b)" for x
    using that r(3,4) by (auto simp: in_set_conv_nth)
  moreover have "?p \<le> y" if "y \<in> set (drop (m + 1) b)" for y
    using that r(5) by (auto simp: in_set_conv_nth)
  ultimately have "\<forall>x\<in>set (take (m + 1) b). \<forall>y\<in>set (drop (m + 1) b). x \<le> y"
    using order_trans by blast
  with r(1-3) show ?thesis by blast
qed

section \<open>The sort\<close>

lemma sort_two_sides:
  "\<forall>x\<in>set xs. \<forall>y\<in>set ys. x \<le> y \<Longrightarrow> sort xs @ sort ys = sort (xs @ (ys :: u64 list))"
  by (rule properties_for_sort [symmetric]) (auto simp: sorted_append)

lemma introsort_sorts: "introsort depth buf = Some (sort buf)"
proof (induction depth arbitrary: buf)
  case 0
  then show ?case by (subst introsort.simps) (simp add: insertion_sort_sorts heapsort_sorts)
next
  case (Suc d)
  show ?case
  proof (cases "length buf < INSERTION_THRESHOLD")
    case True
    then show ?thesis by (subst introsort.simps) (simp add: insertion_sort_sorts)
  next
    case False
    then have "buf \<noteq> []" by (auto simp: INSERTION_THRESHOLD_def)
    from hoare_partition_ok [OF this] obtain b m where
      p: "hoare_partition buf (median_of_three buf) = Some (b, m)" "mset b = mset buf"
        "m < length b" "\<forall>x\<in>set (take (m + 1) b). \<forall>y\<in>set (drop (m + 1) b). x \<le> y"
      by blast
    have "sort (take (m + 1) b) @ sort (drop (m + 1) b) = sort b"
      using sort_two_sides [OF p(4)] by simp
    also have "\<dots> = sort buf" using p(2) by (metis mset_sort properties_for_sort sorted_sort)
    finally show ?thesis
      using False p(1,3) by (subst introsort.simps) (simp add: Let_def Suc.IH)
  qed
qed

section \<open>The order of the top bit\<close>

text \<open>Flipping the sign bit turns the signed order into the unsigned one.\<close>

definition top_bit :: "'a::len word" where
  "top_bit = push_bit (LENGTH('a) - 1) 1"

lemma bit_top_bit: "bit (top_bit :: 'a::len word) n \<longleftrightarrow> n = LENGTH('a) - 1"
  by (auto simp: top_bit_def bit_push_bit_iff bit_1_iff bit_exp_iff possible_bit_word)

lemma twice_top_bit: "top_bit + top_bit = (0 :: 'a::len word)"
proof -
  have "top_bit + top_bit = (2::'a word) * 2 ^ (LENGTH('a) - 1)"
    by (simp add: top_bit_def push_bit_eq_mult)
  also have "\<dots> = 2 ^ Suc (LENGTH('a) - 1)" by (rule power_Suc [symmetric])
  also have "Suc (LENGTH('a) - 1) = LENGTH('a)" using len_gt_0 by simp
  also have "(2::'a word) ^ LENGTH('a) = 0" by (rule word_pow_0)
  finally show ?thesis .
qed

lemma xor_top_bit: "(v :: 'a::len word) XOR top_bit = v + top_bit"
proof (cases "bit v (LENGTH('a) - 1)")
  case False
  then have d: "v AND top_bit = 0" by (intro bit_word_eqI) (auto simp: bit_and_iff bit_top_bit)
  have "v XOR top_bit = v OR top_bit"
    using False by (intro bit_word_eqI) (auto simp: bit_xor_iff bit_or_iff bit_top_bit)
  with d show ?thesis by (simp add: disjunctive_add_eq_or)
next
  case True
  let ?w = "v XOR top_bit"
  have d: "?w AND top_bit = 0"
    using True by (intro bit_word_eqI) (auto simp: bit_and_iff bit_xor_iff bit_top_bit)
  have "?w OR top_bit = v"
    using True by (intro bit_word_eqI) (auto simp: bit_or_iff bit_xor_iff bit_top_bit)
  then have "?w + top_bit = v" using disjunctive_add_eq_or [OF d] by simp
  then have "v + top_bit = (?w + top_bit) + top_bit" by (simp only:)
  also have "\<dots> = ?w + (top_bit + top_bit)" by (simp only: add.assoc)
  also have "\<dots> = ?w" by (simp add: twice_top_bit)
  finally show ?thesis by simp
qed

lemma uint_top_bit: "uint (top_bit :: 'a::len word) = 2 ^ (LENGTH('a) - 1)"
  by (intro bit_eqI) (auto simp: bit_uint_iff bit_top_bit bit_exp_iff)

lemma uint_plus_top_bit: "uint (v + top_bit) = sint v + 2 ^ (LENGTH('a) - 1)" for v :: "'a::len word"
  by (simp add: uint_word_ariths uint_top_bit sint_uint signed_take_bit_eq_take_bit_shift take_bit_eq_mod)

lemma xor_top_bit_le: "v XOR top_bit \<le> w XOR top_bit \<longleftrightarrow> v \<le>s (w :: 'a::len word)"
  by (simp add: xor_top_bit word_le_def uint_plus_top_bit word_sle_eq)

section \<open>Keys\<close>

definition key_from_i64 :: "i64 \<Rightarrow> u64" where
  "key_from_i64 v = v XOR push_bit 63 1"

definition i64_from_key :: "u64 \<Rightarrow> i64" where
  "i64_from_key k = k XOR push_bit 63 1"

definition key_from_f64_bits :: "u64 \<Rightarrow> u64" where
  "key_from_f64_bits b =
     (if b AND push_bit 63 1 \<noteq> 0 then NOT b else b OR push_bit 63 1)"

definition f64_bits_from_key :: "u64 \<Rightarrow> u64" where
  "f64_bits_from_key k =
     (if k AND push_bit 63 1 \<noteq> 0 then k AND NOT (push_bit 63 1) else NOT k)"

definition key_from_f32_bits :: "u32 \<Rightarrow> u64" where
  "key_from_f32_bits b =
     (let k = (if b AND push_bit 31 1 \<noteq> 0 then NOT b else b OR push_bit 31 1) in ucast k)"

definition f32_bits_from_key :: "u64 \<Rightarrow> u32" where
  "f32_bits_from_key k =
     (let k = (ucast k :: u32)
      in if k AND push_bit 31 1 \<noteq> 0 then k AND NOT (push_bit 31 1) else NOT k)"

text \<open>
  \<open>total_cmp\<close> of the standard library, the order the float keys are documented to
  match: the magnitude bits of a negative value are flipped, then the words are compared as
  signed integers.
\<close>

definition total_bits :: "'a::len word \<Rightarrow> 'a word" where
  "total_bits b = (if bit b (LENGTH('a) - 1) then b XOR NOT top_bit else b)"

definition total_le :: "'a::len word \<Rightarrow> 'a word \<Rightarrow> bool" where
  "total_le a b \<longleftrightarrow> total_bits a \<le>s total_bits b"

lemma and_top_bit: "b AND top_bit \<noteq> 0 \<longleftrightarrow> bit (b :: 'a::len word) (LENGTH('a) - 1)"
proof -
  have "b AND top_bit = (if bit b (LENGTH('a) - 1) then top_bit else 0)"
    by (rule bit_word_eqI) (auto simp: bit_and_iff bit_top_bit)
  moreover have "top_bit \<noteq> (0 :: 'a word)" by (metis bit_0_eq bit_top_bit bot_apply bot_bool_def)
  ultimately show ?thesis by simp
qed

lemma top_bit_64: "push_bit 63 1 = (top_bit :: 64 word)"
  and top_bit_32: "push_bit 31 1 = (top_bit :: 32 word)"
  by (simp_all add: top_bit_def)

lemma key_total_bits:
  "(if bit b (LENGTH('a) - 1) then NOT b else b OR top_bit) = total_bits b XOR (top_bit :: 'a::len word)"
  by (rule bit_word_eqI)
    (auto simp: total_bits_def bit_xor_iff bit_or_iff bit_not_iff bit_top_bit)

lemma key_total_inverse:
  fixes b :: "'a::len word"
  defines "k \<equiv> (if bit b (LENGTH('a) - 1) then NOT b else b OR top_bit)"
  shows "(if bit k (LENGTH('a) - 1) then k AND NOT top_bit else NOT k) = b"
  by (rule bit_word_eqI)
    (auto simp: k_def bit_and_iff bit_or_iff bit_not_iff bit_top_bit)

lemma key_i64_le: "key_from_i64 v \<le> key_from_i64 w \<longleftrightarrow> v \<le>s w"
  by (simp only: key_from_i64_def top_bit_64 xor_top_bit_le)

lemma i64_key_inverse: "i64_from_key (key_from_i64 v) = v"
  by (simp add: key_from_i64_def i64_from_key_def xor.assoc)

lemma key_f64_eq: "key_from_f64_bits b = total_bits b XOR top_bit"
  unfolding key_from_f64_bits_def top_bit_64 and_top_bit by (rule key_total_bits)

lemma key_f64_le: "key_from_f64_bits a \<le> key_from_f64_bits b \<longleftrightarrow> total_le a b"
  by (simp add: key_f64_eq xor_top_bit_le total_le_def)

lemma f64_key_inverse: "f64_bits_from_key (key_from_f64_bits b) = b"
  using key_total_inverse [of b]
  unfolding key_from_f64_bits_def f64_bits_from_key_def top_bit_64 and_top_bit by simp

lemma key_f32_eq: "key_from_f32_bits b = ucast (total_bits b XOR top_bit)"
  unfolding key_from_f32_bits_def top_bit_32 and_top_bit key_total_bits by simp

lemma ucast_32_le: "(ucast a :: 64 word) \<le> ucast b \<longleftrightarrow> a \<le> (b :: 32 word)"
proof -
  have "take_bit 64 (unat x) = unat x" for x :: "32 word"
    using unsigned_less [of x, where ?'a = nat] by (intro take_bit_nat_eq_self) simp
  then show ?thesis by (simp add: word_le_nat_alt unsigned_ucast_eq)
qed

lemma key_f32_le: "key_from_f32_bits a \<le> key_from_f32_bits b \<longleftrightarrow> total_le a b"
  by (simp add: key_f32_eq ucast_32_le xor_top_bit_le total_le_def)

lemma ucast_32_inverse: "ucast (ucast a :: 64 word) = (a :: 32 word)"
  by (rule bit_word_eqI) (simp add: bit_ucast_iff)

lemma f32_key_inverse: "f32_bits_from_key (key_from_f32_bits b) = b"
  using key_total_inverse [of b]
  unfolding key_from_f32_bits_def f32_bits_from_key_def top_bit_32 and_top_bit Let_def
    ucast_32_inverse by simp

section \<open>Sorting through keys\<close>

text \<open>
  What every caller relies on: the shared sort never fails, permutes its buffer and orders
  it; a key transform keeps the order of its element type and can be undone.
\<close>

locale sorter =
  fixes sort_buf :: "u64 list \<Rightarrow> u64 list option"
  assumes total_sort: "\<exists>ks. sort_buf xs = Some ks"
    and sort_mset: "sort_buf xs = Some ks \<Longrightarrow> mset ks = mset xs"
    and sort_sorted: "sort_buf xs = Some ks \<Longrightarrow> sorted ks"
begin

lemma sort_buf_eq: "sort_buf xs = Some (sort xs)"
  using total_sort [of xs] by (metis properties_for_sort sort_mset sort_sorted)

end

locale keyed_sorter = sorter sort_buf
  for sort_buf :: "u64 list \<Rightarrow> u64 list option" +
  fixes key :: "'a \<Rightarrow> u64" and dec :: "u64 \<Rightarrow> 'a" and le :: "'a \<Rightarrow> 'a \<Rightarrow> bool"
  assumes dec_key: "dec (key x) = x"
    and key_le: "key x \<le> key y \<longleftrightarrow> le x y"
begin

lemma map_key_dec: "ks \<in> lists (range key) \<Longrightarrow> map key (map dec ks) = ks"
  by (induction ks) (auto simp: dec_key)

lemma sort_elements:
  "\<exists>ys. map_option (map dec) (sort_buf (map key xs)) = Some ys \<and> mset ys = mset xs \<and>
     sorted_wrt le ys"
proof -
  let ?ks = "sort (map key xs)" and ?ys = "map dec (sort (map key xs))"
  have "mset ?ys = mset (map dec (map key xs))" by (simp only: mset_map mset_sort)
  then have "mset ?ys = mset xs" by (simp add: o_def dec_key)
  moreover have "map key ?ys = ?ks" by (rule map_key_dec) auto
  then have "sorted_wrt (\<lambda>x y. key x \<le> key y) ?ys" by (metis sorted_map sorted_sort)
  ultimately show ?thesis by (auto simp: sort_buf_eq key_le)
qed

end

lemma sort_keys_eq: "sort_keys buf = Some (sort buf)"
  by (simp add: sort_keys_def introsort_sorts)

interpretation keys: sorter sort_keys
  by unfold_locales (auto simp: sort_keys_eq)

interpretation i64: keyed_sorter sort_keys key_from_i64 i64_from_key word_sle
  by unfold_locales (auto simp: i64_key_inverse key_i64_le)

interpretation f64: keyed_sorter sort_keys key_from_f64_bits f64_bits_from_key total_le
  by unfold_locales (auto simp: f64_key_inverse key_f64_le)

interpretation f32: keyed_sorter sort_keys key_from_f32_bits f32_bits_from_key total_le
  by unfold_locales (auto simp: f32_key_inverse key_f32_le)

section \<open>Properties\<close>

text \<open>
  C37: the shared sort never runs out of its buffer, for any length and any contents, and
  leaves exactly the sorted arrangement of the keys, whether the insertion sort, the
  partition loop or the heapsort fallback ends up doing the work.
\<close>

theorem sort_keys_sorts: "introsort depth buf = Some (sort buf) \<and> sort_keys buf = Some (sort buf)"
  by (simp add: introsort_sorts sort_keys_eq)

text \<open>
  An \<open>Arrays.sort\<close> through the key transforms permutes its elements and orders them:
  \<open>long\<close>s as signed integers, \<open>double\<close>s and \<open>float\<close>s in the total order of
  their bits, so that \<open>-0.0\<close> precedes \<open>0.0\<close> and a NaN has one place.
\<close>

theorem sort_through_keys:
  "(\<exists>ys. map_option (map i64_from_key) (sort_keys (map key_from_i64 xs)) = Some ys \<and>
      mset ys = mset xs \<and> sorted_wrt word_sle ys)
   \<and> (\<exists>ys. map_option (map f64_bits_from_key) (sort_keys (map key_from_f64_bits ds)) = Some ys \<and>
      mset ys = mset ds \<and> sorted_wrt total_le ys)
   \<and> (\<exists>ys. map_option (map f32_bits_from_key) (sort_keys (map key_from_f32_bits fs)) = Some ys \<and>
      mset ys = mset fs \<and> sorted_wrt total_le ys)"
  by (intro conjI i64.sort_elements f64.sort_elements f32.sort_elements)

end
