(* ===== verification/CompactSlice.thy ===== *)
theory CompactSlice
  imports SortKeys
begin

text \<open>
  The bounded slices of the arena compaction, \<open>crates/jvm/src/gc/compact.rs\<close>: the span
  keys, and the selection of the next slice of the ascending key order in a buffer of fixed
  capacity.
\<close>

section \<open>The routines\<close>

text \<open>\<open>key\<close> and \<open>unpack\<close>: offset, slot index and length in one word.\<close>

definition span_key :: "u32 \<Rightarrow> nat \<Rightarrow> u16 \<Rightarrow> u64" where
  "span_key offset slot len =
     (push_bit 32 (ucast offset) OR push_bit 16 (of_nat slot)) OR ucast len"

definition unpack :: "u64 \<Rightarrow> nat \<times> u32 \<times> u16" where
  "unpack key = (unat (drop_bit 16 key AND 0xffff), ucast (drop_bit 32 key), ucast key)"

function sift_up :: "u64 list \<Rightarrow> nat \<Rightarrow> u64 list" where
  "sift_up h i =
     (if 0 < i
      then let p = (i - 1) div 2
           in if h ! i \<le> h ! p then h else sift_up (exchange h i p) p
      else h)"
  by pat_completeness auto
termination by (relation "measure snd") auto

text \<open>\<open>sift_down\<close> of this file: the largest of a node and its two children moves up.\<close>

definition largest_of :: "u64 list \<Rightarrow> nat \<Rightarrow> nat" where
  "largest_of h i =
     (let n = length h; l = 2 * i + 1; r = l + 1;
          m = (if l < n \<and> h ! i < h ! l then l else i)
      in if r < n \<and> h ! m < h ! r then r else m)"

function slice_sift_down :: "u64 list \<Rightarrow> nat \<Rightarrow> u64 list" where
  "slice_sift_down h i =
     (let m = largest_of h i in if m = i then h else slice_sift_down (exchange h i m) m)"
  by pat_completeness auto
termination
  by (relation "measure (\<lambda>(h, i). length h - i)") (auto simp: largest_of_def Let_def split: if_splits)

declare sift_up.simps [simp del] slice_sift_down.simps [simp del]

text \<open>
  One candidate: below the last key of the previous slice it is skipped, into a buffer with
  room it is pushed, into a full one it evicts a larger root.
\<close>

definition slice_step :: "nat \<Rightarrow> u64 option \<Rightarrow> u64 \<Rightarrow> u64 list \<Rightarrow> u64 list" where
  "slice_step cap after k buf =
     (if (case after of None \<Rightarrow> False | Some a \<Rightarrow> k \<le> a) then buf
      else if length buf < cap then sift_up (buf @ [k]) (length buf)
      else if k < buf ! 0 then slice_sift_down (buf[0 := k]) 0
      else buf)"

text \<open>
  \<open>next_slice\<close> on a buffer of capacity \<open>cap\<close>: the slice and whether it came back
  full; \<open>None\<close> would be a panic in the sort.
\<close>

definition next_slice :: "nat \<Rightarrow> u64 option \<Rightarrow> u64 list \<Rightarrow> (u64 list \<times> bool) option" where
  "next_slice cap after keys =
     (if cap = 0 then Some ([], False)
      else map_option (\<lambda>buf. (buf, length buf = cap))
             (sort_keys (fold (slice_step cap after) keys [])))"

section \<open>The heap\<close>

lemma largest_of_bigger:
  "largest_of h i =
     (if length h \<le> 2 * i + 1 \<or> h ! bigger_child h (2 * i + 1) (length h) \<le> h ! i then i
      else bigger_child h (2 * i + 1) (length h))"
  by (auto simp: largest_of_def bigger_child_def Let_def)

text \<open>The two descents of the crate do the same exchanges.\<close>

lemma slice_sift_down_eq: "slice_sift_down h i = sift_down h i (length h)"
proof (induction h i rule: slice_sift_down.induct)
  case (1 h i)
  show ?case
  proof (cases "largest_of h i = i")
    case True
    then have "length h \<le> 2 * i + 1 \<or> h ! bigger_child h (2 * i + 1) (length h) \<le> h ! i"
      unfolding largest_of_bigger by (auto simp: bigger_child_def split: if_splits)
    with True show ?thesis
      by (subst slice_sift_down.simps, subst sift_down.simps) (auto simp: Let_def)
  next
    case False
    then have "\<not> length h \<le> 2 * i + 1" "largest_of h i = bigger_child h (2 * i + 1) (length h)"
      "\<not> h ! largest_of h i \<le> h ! i"
      unfolding largest_of_bigger by (auto split: if_splits)
    with False 1 show ?thesis
      by (subst slice_sift_down.simps, subst sift_down.simps) (simp add: Let_def)
  qed
qed

lemma sift_up_heap:
  assumes "\<forall>c. 0 < c \<and> c < length h \<and> c \<noteq> i \<longrightarrow> h ! c \<le> h ! parent c"
    and "\<forall>c. 0 < c \<and> c < length h \<and> parent c = i \<and> 0 < i \<longrightarrow> h ! c \<le> h ! parent i"
    and "i < length h"
  shows "heap_from (sift_up h i) 0 (length h) \<and> mset (sift_up h i) = mset h"
  using assms
proof (induction h i rule: sift_up.induct)
  case (1 h i)
  note order = 1(2) and below = 1(3)
  show ?case
  proof (cases "0 < i \<and> \<not> h ! i \<le> h ! parent i")
    case False
    then have "sift_up h i = h" by (subst sift_up.simps) (auto simp: Let_def parent_def)
    moreover have "h ! c \<le> h ! parent c" if "0 < c" "c < length h" for c
      using that False 1(2) by (cases "c = i") auto
    ultimately show ?thesis by (simp add: heap_from_def)
  next
    case True
    let ?p = "parent i" and ?s = "exchange h i (parent i)"
    have p: "?p < i" using True parent_less by blast
    have nth: "?s ! k = (if k = i then h ! ?p else if k = ?p then h ! i else h ! k)" for k
      using p 1(4) by (subst exchange_nth) auto
    have up: "h ! ?p \<le> h ! i" using True linear by blast
    have "?s ! c \<le> ?s ! parent c" if c: "0 < c" "c < length h" "c \<noteq> ?p" for c
    proof -
      have lt: "parent c < c" using c(1) by (rule parent_less)
      consider "c = i" | "c \<noteq> i" "parent c = ?p" | "c \<noteq> i" "parent c = i"
        | "c \<noteq> i" "parent c \<noteq> ?p" "parent c \<noteq> i" by blast
      then show ?thesis
      proof cases
        case 1
        with up p show ?thesis by (simp add: nth)
      next
        case 2
        then have "h ! c \<le> h ! ?p" using order c by auto
        with 2 c p up show ?thesis by (simp add: nth)
      next
        case 3
        then have "h ! c \<le> h ! ?p" using below c True by blast
        with 3 c show ?thesis by (simp add: nth)
      next
        case 4
        with order c show ?thesis by (simp add: nth)
      qed
    qed
    moreover have "?s ! c \<le> ?s ! parent ?p"
      if c: "0 < c" "c < length h" "parent c = ?p" "0 < ?p" for c
    proof -
      have "parent ?p < ?p" using c(4) by (rule parent_less)
      then have "h ! ?p \<le> h ! parent ?p" using 1(2,4) p c by auto
      moreover have "h ! c \<le> h ! ?p" if "c \<noteq> i" using 1(2) that c by auto
      moreover have "c \<noteq> ?p" using parent_less [OF c(1)] c(3) by auto
      ultimately show ?thesis using p \<open>parent ?p < ?p\<close> by (auto simp: nth)
    qed
    moreover have "mset ?s = mset h" using p 1(4) by simp
    moreover have "sift_up h i = sift_up ?s ?p"
      using True by (subst sift_up.simps) (simp add: Let_def parent_def)
    ultimately show ?thesis
      using 1(1) [OF _ refl] True p 1(4) by (simp add: parent_def)
  qed
qed

lemma slice_push:
  assumes "heap_from h 0 (length h)"
  shows "heap_from (sift_up (h @ [k]) (length h)) 0 (Suc (length h)) \<and>
    mset (sift_up (h @ [k]) (length h)) = add_mset k (mset h)"
proof -
  have "(h @ [k]) ! c \<le> (h @ [k]) ! parent c" if "0 < c" "c < length h" for c
    using assms that parent_less [of c] by (auto simp: heap_from_def nth_append)
  moreover have "parent c \<noteq> length h" if "0 < c" "c < Suc (length h)" for c
    using that parent_less [of c] by auto
  ultimately show ?thesis using sift_up_heap [of "h @ [k]" "length h"] by auto
qed

lemma slice_evict:
  assumes "heap_from h 0 (length h)" and "h \<noteq> []"
  shows "heap_from (slice_sift_down (h[0 := k]) 0) 0 (length h) \<and>
    mset (slice_sift_down (h[0 := k]) 0) = add_mset k (mset h - {#h ! 0#})"
proof -
  have "h[0 := k] ! c \<le> h[0 := k] ! parent c" if "0 < c" "c < length h" "parent c \<noteq> 0" for c
    using assms that by (auto simp: heap_from_def)
  then have "sift_pre (h[0 := k]) 0 0 (length h)" by (simp add: sift_pre_def)
  with sift_down_heap [of "h[0 := k]" 0 0 "length h"] sift_down_frame [of "length h" "h[0 := k]" 0]
    assms(2) show ?thesis
    by (simp add: slice_sift_down_eq mset_update)
qed

section \<open>Keeping the smallest\<close>

lemma take_insort:
  "sorted xs \<Longrightarrow> 0 < cap \<Longrightarrow>
   mset (take cap (insort k xs)) =
     (if length xs < cap then add_mset k (mset xs)
      else if k < xs ! (cap - 1) then add_mset k (mset (take cap xs) - {#xs ! (cap - 1)#})
      else mset (take cap xs))"
proof (induction xs arbitrary: cap)
  case Nil
  then show ?case by (cases cap) auto
next
  case (Cons x xs)
  obtain c where cap: "cap = Suc c" using Cons.prems(2) by (cases cap) auto
  show ?case
  proof (cases c)
    case 0
    with Cons.prems cap show ?thesis by auto
  next
    case (Suc d)
    have le: "x \<le> xs ! d" if "d < length xs" using Cons.prems(1) that by simp
    then have eq: "k = xs ! d" if "d < length xs" "k \<le> x" "\<not> k < xs ! d"
      using that by fastforce
    show ?thesis
    proof (cases "k \<le> x")
      case False
      with Cons.IH [of c] Cons.prems cap Suc show ?thesis
        by (auto simp: add_mset_commute [of x] add_mset_diff_bothsides not_le)
    next
      case True
      have "mset (take c xs) - {#xs ! d#} + {#xs ! d#} = mset (take c xs)" if "d < length xs"
        using that Suc by (simp add: take_Suc_conv_app_nth)
      with True Cons.prems cap Suc le show ?thesis
        by (auto simp: take_Suc_conv_app_nth intro: eq)
    qed
  qed
qed

text \<open>What the candidates seen so far leave in the buffer.\<close>

definition beyond :: "u64 option \<Rightarrow> u64 \<Rightarrow> bool" where
  "beyond after k \<longleftrightarrow> (case after of None \<Rightarrow> True | Some a \<Rightarrow> a < k)"

definition slice_inv :: "nat \<Rightarrow> u64 list \<Rightarrow> u64 list \<Rightarrow> bool" where
  "slice_inv cap seen buf \<longleftrightarrow> heap_from buf 0 (length buf) \<and> mset buf = mset (take cap (sort seen))"

lemma sort_snoc: "sort (xs @ [k]) = insort k (sort (xs :: u64 list))"
  by (rule properties_for_sort) (simp_all add: sorted_insort)

lemma slice_inv_length: "slice_inv cap seen buf \<Longrightarrow> length buf = min cap (length seen)"
  unfolding slice_inv_def by (metis length_sort length_take min.commute mset_eq_length)

lemma slice_inv_root:
  assumes "slice_inv cap seen buf" and "cap \<le> length seen" and "0 < cap"
  shows "buf ! 0 = sort seen ! (cap - 1)"
proof (rule antisym)
  let ?t = "take cap (sort seen)"
  have st: "set buf = set ?t" using assms(1) by (metis mset_eq_setD slice_inv_def)
  have len: "length buf = cap" using slice_inv_length [OF assms(1)] assms(2) by simp
  have "buf ! 0 \<in> set ?t" using st len assms(3) by (metis nth_mem)
  then obtain k where "k < cap" "buf ! 0 = sort seen ! k"
    using assms(2) by (auto simp: in_set_conv_nth)
  then show "buf ! 0 \<le> sort seen ! (cap - 1)" using assms(2) by (simp add: sorted_nth_mono)
  have "sort seen ! (cap - 1) \<in> set ?t"
    using assms(2,3) by (auto simp: in_set_conv_nth intro: exI [of _ "cap - 1"])
  with st obtain k where "k < length buf" "buf ! k = sort seen ! (cap - 1)"
    by (metis in_set_conv_nth)
  then show "sort seen ! (cap - 1) \<le> buf ! 0"
    using heap_root_max [of buf "length buf" k] assms(1) by (simp add: slice_inv_def)
qed

lemma slice_step_inv:
  assumes "slice_inv cap seen buf" and "0 < cap"
  shows "slice_inv cap (if beyond after k then seen @ [k] else seen) (slice_step cap after k buf)"
proof (cases "beyond after k")
  case False
  then have "slice_step cap after k buf = buf"
    by (auto simp: slice_step_def beyond_def split: option.splits)
  with False assms(1) show ?thesis by simp
next
  case True
  then have step: "slice_step cap after k buf =
      (if length buf < cap then sift_up (buf @ [k]) (length buf)
       else if k < buf ! 0 then slice_sift_down (buf[0 := k]) 0 else buf)"
    by (auto simp: slice_step_def beyond_def split: option.splits)
  have h: "heap_from buf 0 (length buf)" and ms: "mset buf = mset (take cap (sort seen))"
    using assms(1) by (simp_all add: slice_inv_def)
  have len: "length buf = min cap (length seen)" by (rule slice_inv_length [OF assms(1)])
  note keep = take_insort [of "sort seen" cap k, OF _ assms(2)]
  show ?thesis
  proof (cases "length seen < cap")
    case short: True
    with len have "length buf < cap" by simp
    moreover have "mset (take cap (insort k (sort seen))) = add_mset k (mset buf)"
      using keep short ms by simp
    moreover have "length (sift_up (buf @ [k]) (length buf)) = Suc (length buf)"
      using slice_push [OF h, of k] by (metis mset_append mset_eq_length length_append_singleton
        mset.simps add_mset_add_single)
    ultimately show ?thesis
      using True slice_push [OF h, of k] by (simp add: step slice_inv_def sort_snoc)
  next
    case False
    then have full: "\<not> length buf < cap" "cap \<le> length seen" "buf \<noteq> []"
      using len assms(2) by auto
    have root: "buf ! 0 = sort seen ! (cap - 1)"
      by (rule slice_inv_root [OF assms(1) full(2) assms(2)])
    show ?thesis
    proof (cases "k < buf ! 0")
      case kept: False
      then show ?thesis
        using True full root keep h ms by (simp add: step slice_inv_def sort_snoc)
    next
      case lower: True
      have "length (slice_sift_down (buf[0 := k]) 0) = length buf"
        using sift_down_frame [of "length buf" "buf[0 := k]" 0] by (simp add: slice_sift_down_eq)
      then show ?thesis
        using True lower full root keep slice_evict [OF h full(3), of k] ms
        by (simp add: step slice_inv_def sort_snoc)
    qed
  qed
qed

lemma slice_fold_inv:
  "0 < cap \<Longrightarrow> slice_inv cap (filter (beyond after) keys) (fold (slice_step cap after) keys [])"
proof (induction keys rule: rev_induct)
  case Nil
  then show ?case by (simp add: slice_inv_def heap_from_def)
next
  case (snoc k keys)
  from slice_step_inv [OF snoc.IH [OF snoc.prems] snoc.prems, of after k] show ?case
    by (cases "beyond after k") simp_all
qed

lemma next_slice_eq:
  "next_slice cap after keys =
     (let rest = sort (filter (beyond after) keys)
      in Some (take cap rest, 0 < cap \<and> cap \<le> length rest))"
proof (cases "cap = 0")
  case False
  let ?b = "fold (slice_step cap after) keys []" and ?rest = "sort (filter (beyond after) keys)"
  have inv: "slice_inv cap (filter (beyond after) keys) ?b" using False by (simp add: slice_fold_inv)
  then have "sort ?b = take cap ?rest"
    by (intro properties_for_sort) (auto simp: slice_inv_def sorted_wrt_take)
  moreover have "length (sort ?b) = cap \<longleftrightarrow> cap \<le> length ?rest"
    using slice_inv_length [OF inv] by auto
  ultimately show ?thesis using False by (simp add: next_slice_def sort_keys_eq Let_def)
qed (simp add: next_slice_def)

section \<open>The keys order spans by offset\<close>

lemma bit_small_nat: "slot < 2 ^ k \<Longrightarrow> bit slot n \<Longrightarrow> n < k" for slot :: nat
  by (metis bit_take_bit_iff take_bit_nat_eq_self)

lemma and_disjoint:
  "(\<And>n. bit a n \<Longrightarrow> k \<le> n) \<Longrightarrow> (\<And>n. bit b n \<Longrightarrow> n < k) \<Longrightarrow> a AND b = (0 :: 'a::len word)"
  by (rule bit_word_eqI) (force simp: bit_and_iff)

lemma unat_of_nat64: "m < 2 ^ 64 \<Longrightarrow> unat (of_nat m :: u64) = m"
  by (simp add: unsigned_of_nat take_bit_nat_eq_self)

lemma unat_push: "unat a < 2 ^ m \<Longrightarrow> m + n \<le> 64 \<Longrightarrow> unat (push_bit n a :: u64) = unat a * 2 ^ n"
proof -
  assume a: "unat a < 2 ^ m" "m + n \<le> 64"
  then have "unat a * 2 ^ n < 2 ^ m * 2 ^ n" by simp
  also have "\<dots> \<le> 2 ^ 64" using a(2) power_increasing [of "m + n" 64 "2 :: nat"] by (simp add: power_add)
  finally have "unat (of_nat (unat a * 2 ^ n) :: u64) = unat a * 2 ^ n" by (rule unat_of_nat64)
  moreover have "push_bit n a = of_nat (unat a * 2 ^ n)" by (simp add: push_bit_eq_mult)
  ultimately show ?thesis by (simp only:)
qed

lemma unat_ucast64: "unat (ucast a :: u64) = unat (a :: 'a::len word)" if "LENGTH('a) \<le> 64"
proof -
  have "unat a < 2 ^ 64"
    using unsigned_less [of a, where ?'a = nat] power_increasing [OF that, of "2 :: nat"] by linarith
  then show ?thesis by (simp add: unsigned_ucast_eq take_bit_nat_eq_self)
qed

lemma unat_span_key:
  assumes "slot < 2 ^ 16"
  shows "unat (span_key offset slot len) = unat offset * 2 ^ 32 + slot * 2 ^ 16 + unat len"
proof -
  let ?o = "push_bit 32 (ucast offset :: u64)" and ?s = "push_bit 16 (of_nat slot :: u64)"
    and ?l = "ucast len :: u64"
  have o: "32 \<le> n" if "bit ?o n" for n using that by (simp add: bit_push_bit_iff)
  have s: "16 \<le> n \<and> n < 32" if "bit ?s n" for n
  proof -
    have "bit slot (n - 16)" "16 \<le> n"
      using that by (simp_all add: bit_push_bit_iff bit_of_nat_iff)
    then show ?thesis using bit_small_nat [OF assms] by fastforce
  qed
  have l: "n < 16" if "bit ?l n" for n
    using that bit_imp_le_length [of len n] by (simp add: bit_ucast_iff)
  have "?o AND ?s = 0" using o s by (intro and_disjoint [of _ 32]) auto
  moreover have "(?o OR ?s) AND ?l = 0"
    using o s l by (intro and_disjoint [of _ 16]) (force simp: bit_or_iff)+
  ultimately have "span_key offset slot len = ?o + ?s + ?l"
    by (simp add: span_key_def disjunctive_add_eq_or)
  moreover have b: "unat offset < 2 ^ 32" "unat len < 2 ^ 16"
    using unsigned_less [of offset, where ?'a = nat] unsigned_less [of len, where ?'a = nat] by simp_all
  moreover have "unat (of_nat slot :: u64) = slot"
    using assms by (simp add: unsigned_of_nat take_bit_nat_eq_self)
  then have "unat ?o = unat offset * 2 ^ 32" "unat ?s = slot * 2 ^ 16" "unat ?l = unat len"
    using b assms unat_push [of "ucast offset" 32 32] unat_push [of "of_nat slot" 16 16]
    by (simp_all add: unat_ucast64)
  ultimately show ?thesis using assms by (simp add: unat_word_ariths)
qed

lemma packed_parts:
  assumes "s < 2 ^ 16" and "l < (2 :: nat) ^ 16"
  shows "(off * 2 ^ 32 + s * 2 ^ 16 + l) div 2 ^ 16 mod 2 ^ 16 = s"
    and "(off * 2 ^ 32 + s * 2 ^ 16 + l) div 2 ^ 32 = off"
    and "(off * 2 ^ 32 + s * 2 ^ 16 + l) mod 2 ^ 16 = l"
proof -
  have e: "off * 2 ^ 32 + s * 2 ^ 16 + l = (off * 2 ^ 16 + s) * 2 ^ 16 + l" by simp
  have "(off * 2 ^ 32 + s * 2 ^ 16 + l) div 2 ^ 16 = off * 2 ^ 16 + s"
    unfolding e using assms(2) by simp
  then show "(off * 2 ^ 32 + s * 2 ^ 16 + l) div 2 ^ 16 mod 2 ^ 16 = s" using assms(1) by simp
  show "(off * 2 ^ 32 + s * 2 ^ 16 + l) mod 2 ^ 16 = l" unfolding e mod_mult_self3 using assms(2) by (rule mod_less)
  have "s * 2 ^ 16 + l < 2 ^ 32" using assms by simp
  then show "(off * 2 ^ 32 + s * 2 ^ 16 + l) div 2 ^ 32 = off" by (simp add: add.assoc)
qed

lemma unpack_span_key: "slot < 2 ^ 16 \<Longrightarrow> unpack (span_key offset slot len) = (slot, offset, len)"
proof -
  assume slot: "slot < 2 ^ 16"
  let ?k = "span_key offset slot len"
  have b: "unat len < 2 ^ 16"
    using unsigned_less [of len, where ?'a = nat] by simp
  note k = unat_span_key [OF slot, of offset len]
  have "(0xffff :: u64) = mask 16" by (simp add: mask_eq_exp_minus_1)
  then have "unat (drop_bit 16 ?k AND 0xffff) = unat ?k div 2 ^ 16 mod 2 ^ 16"
    by (simp only: unsigned_take_bit_eq unat_drop_bit_eq flip: take_bit_eq_mask)
      (simp only: drop_bit_eq_div take_bit_eq_mod)
  also have "\<dots> = slot" unfolding k by (rule packed_parts(1) [OF slot b])
  finally have "unat (drop_bit 16 ?k AND 0xffff) = slot" .
  moreover have "unat (ucast (drop_bit 32 ?k) :: u32) = unat ?k div 2 ^ 32 mod 2 ^ 32"
    by (simp only: unsigned_ucast_eq unat_drop_bit_eq)
      (simp add: drop_bit_eq_div take_bit_eq_mod)
  then have "unat (ucast (drop_bit 32 ?k) :: u32) = unat offset"
    unfolding k packed_parts(2) [OF slot b] using unsigned_less [of offset, where ?'a = nat] by simp
  moreover have "unat (ucast ?k :: u16) = unat ?k mod 2 ^ 16"
    by (simp only: unsigned_ucast_eq take_bit_eq_mod) simp
  then have "unat (ucast ?k :: u16) = unat len"
    unfolding k packed_parts(3) [OF slot b] .
  ultimately show ?thesis by (simp add: unpack_def word_unat_eq_iff)
qed

lemma span_key_inj:
  "s < 2 ^ 16 \<Longrightarrow> s' < 2 ^ 16 \<Longrightarrow> span_key off s len = span_key off' s' len' \<Longrightarrow>
     s = s' \<and> off = off' \<and> len = len'"
  by (metis Pair_inject unpack_span_key)

lemma span_key_less:
  assumes "off < off'" and "s < 2 ^ 16" and "s' < 2 ^ 16"
  shows "span_key off s len < span_key off' s' len'"
proof -
  have "unat len < 2 ^ 16" using unsigned_less [of len, where ?'a = nat] by simp
  then have "s * 2 ^ 16 + unat len < 2 ^ 32" using assms(2) by simp
  moreover have "unat off + 1 \<le> unat off'" using assms(1) by (simp add: word_less_nat_alt)
  then have "(unat off + 1) * 2 ^ 32 \<le> unat off' * 2 ^ 32" by (rule mult_le_mono1)
  ultimately show ?thesis
    using assms(2,3) by (simp add: word_less_nat_alt unat_span_key)
qed

section \<open>Properties\<close>

text \<open>
  a pass of the compactor gets exactly the next slice of the global order: the smallest
  keys beyond the last one slid, in ascending order, as many as the fixed buffer holds; it is
  told to come back exactly when the buffer came back full; and the span a key stands for can
  be read back from it.
\<close>

theorem next_slice_selects:
  "(let rest = sort (filter (\<lambda>k. case after of None \<Rightarrow> True | Some a \<Rightarrow> a < k) keys)
    in next_slice cap after keys = Some (take cap rest, 0 < cap \<and> cap \<le> length rest))
   \<and> (unpack (span_key offset (unat slot) len) = (unat (slot :: u16), offset, len))"
proof
  have "unat slot < 2 ^ 16" using unsigned_less [of slot, where ?'a = nat] by simp
  then show "unpack (span_key offset (unat slot) len) = (unat slot, offset, len)"
    by (rule unpack_span_key)
qed (simp add: next_slice_eq beyond_def [abs_def])

end
