(* ===== verification/Compaction.thy ===== *)
theory Compaction
  imports CompactSlice
begin

text \<open>
  Sliding the live spans of an arena down over the garbage between them: the loop that
  \<open>ArrayHeap::compact_arena\<close> runs once per arena and
  \<open>ObjectHeap::compact_fields_arena\<close> once, over \<open>compact::next_slice\<close>. The
  slot store is a parameter here: \<open>spans\<close> reads the arena span of each slot and
  \<open>move\<close> rewrites the offset of one.
\<close>

section \<open>The loop\<close>

type_synonym span_table = "(u32 \<times> u16) option list"

text \<open>The \<open>filter_map\<close> over the enumerated slots that feeds \<open>next_slice\<close>.\<close>

definition span_keys :: "span_table \<Rightarrow> u64 list" where
  "span_keys sp =
     List.map_filter (\<lambda>(i, x). map_option (\<lambda>(off, len). span_key off i len) x) (enumerate 0 sp)"

text \<open>\<open>copy_within(src..src + n, dst)\<close>; a range outside the slice panics.\<close>

definition copy_within :: "'v list \<Rightarrow> nat \<Rightarrow> nat \<Rightarrow> nat \<Rightarrow> 'v list option" where
  "copy_within xs src n dst =
     (if src + n \<le> length xs \<and> dst + n \<le> length xs
      then Some (take dst xs @ take n (drop src xs) @ drop (dst + n) xs) else None)"

text \<open>The state of a pass: the arena, the write cursor and the slot store.\<close>

type_synonym ('v, 's) slide = "'v list \<times> nat \<times> 's"

definition slide_one :: "(nat \<Rightarrow> u32 \<Rightarrow> 's \<Rightarrow> 's) \<Rightarrow> u64 \<Rightarrow> ('v, 's) slide \<Rightarrow> ('v, 's) slide option"
  where
  "slide_one move key st =
     (case st of (arena, write_pos, s) \<Rightarrow>
        let (slot, read_offset, len) = unpack key; read_pos = unat read_offset; count = unat len
        in map_option (\<lambda>arena'. (arena', write_pos + count, move slot (of_nat write_pos) s))
             (if read_pos \<noteq> write_pos then copy_within arena read_pos count write_pos
              else Some arena))"

primrec slide_all :: "(nat \<Rightarrow> u32 \<Rightarrow> 's \<Rightarrow> 's) \<Rightarrow> u64 list \<Rightarrow> ('v, 's) slide \<Rightarrow> ('v, 's) slide option"
  where
  "slide_all move [] st = Some st"
| "slide_all move (k # ks) st = Option.bind (slide_one move k st) (slide_all move ks)"

partial_function (option) compact_loop ::
  "('s \<Rightarrow> span_table) \<Rightarrow> (nat \<Rightarrow> u32 \<Rightarrow> 's \<Rightarrow> 's) \<Rightarrow> nat \<Rightarrow> u64 option \<Rightarrow> ('v, 's) slide \<Rightarrow>
     ('v, 's) slide option" where
  "compact_loop spans move cap after st =
     (case next_slice cap after (span_keys (spans (snd (snd st)))) of
        None \<Rightarrow> None
      | Some (buf, more) \<Rightarrow>
          (case slide_all move buf st of
             None \<Rightarrow> None
           | Some st' \<Rightarrow>
               if more
               then compact_loop spans move cap (if buf = [] then None else Some (last buf)) st'
               else Some st'))"

definition compact_spans ::
  "('s \<Rightarrow> span_table) \<Rightarrow> (nat \<Rightarrow> u32 \<Rightarrow> 's \<Rightarrow> 's) \<Rightarrow> nat \<Rightarrow> 'v list \<Rightarrow> 's \<Rightarrow> ('v list \<times> 's) option"
  where
  "compact_spans spans move cap arena s =
     map_option (\<lambda>(arena', write_pos, s'). (take write_pos arena', s'))
       (compact_loop spans move cap None (arena, 0, s))"

text \<open>\<open>ensure_slice_buf\<close>: the capacity of the slice buffer, if there is one.\<close>

definition FALLBACK_ENTRIES :: nat where
  "FALLBACK_ENTRIES = 32"

definition ensure_slice_buf :: "allocator \<Rightarrow> nat \<Rightarrow> nat \<Rightarrow> nat option" where
  "ensure_slice_buf al cap entries =
     (if 0 < cap then Some cap else vec_reserve_exact (al U64Buf) cap 0 entries)"

section \<open>Span tables\<close>

definition slice :: "'v list \<Rightarrow> nat \<Rightarrow> nat \<Rightarrow> 'v list" where
  "slice xs off n = take n (drop off xs)"

definition spans_apart :: "span_table \<Rightarrow> bool" where
  "spans_apart sp \<longleftrightarrow>
     (\<forall>i j off len off' len'. i < length sp \<longrightarrow> j < length sp \<longrightarrow> i \<noteq> j \<longrightarrow>
        sp ! i = Some (off, len) \<longrightarrow> sp ! j = Some (off', len') \<longrightarrow>
        unat off + unat len \<le> unat off' \<or> unat off' + unat len' \<le> unat off)"

definition spans_within :: "span_table \<Rightarrow> nat \<Rightarrow> bool" where
  "spans_within sp n \<longleftrightarrow>
     (\<forall>off len. Some (off, len) \<in> set sp \<longrightarrow> 0 < len \<and> unat off + unat len \<le> n)"

definition spans_total :: "span_table \<Rightarrow> nat" where
  "spans_total sp = (\<Sum>x\<leftarrow>sp. case x of None \<Rightarrow> 0 | Some (off, len) \<Rightarrow> unat len)"

definition key_len :: "u64 \<Rightarrow> nat" where
  "key_len k = unat (snd (snd (unpack k)))"

lemma set_map_filter_iff: "y \<in> set (List.map_filter f xs) \<longleftrightarrow> (\<exists>x\<in>set xs. f x = Some y)"
  by (force simp: List.map_filter_def)

lemma distinct_map_filter:
  "distinct xs \<Longrightarrow> (\<And>a b c. a \<in> set xs \<Longrightarrow> b \<in> set xs \<Longrightarrow> f a = Some c \<Longrightarrow> f b = Some c \<Longrightarrow> a = b) \<Longrightarrow>
     distinct (List.map_filter f xs)"
  by (induction xs) (fastforce simp: map_filter_simps set_map_filter_iff split: option.splits)+

lemma in_set_span_keys:
  "k \<in> set (span_keys sp) \<longleftrightarrow>
     (\<exists>i off len. i < length sp \<and> sp ! i = Some (off, len) \<and> k = span_key off i len)"
  by (auto simp: span_keys_def set_map_filter_iff in_set_enumerate_eq Bex_def)

lemma distinct_span_keys:
  assumes "length sp \<le> 2 ^ 16"
  shows "distinct (span_keys sp)"
  unfolding span_keys_def
proof (rule distinct_map_filter)
  fix a b c
  let ?f = "\<lambda>(i, x). map_option (\<lambda>(off, len). span_key off i len) x"
  assume a: "a \<in> set (enumerate 0 sp)" "?f a = Some c"
    and b: "b \<in> set (enumerate 0 sp)" "?f b = Some c"
  obtain i off len where ai: "a = (i, Some (off, len))" "i < length sp" "c = span_key off i len"
    using a by - (cases a, auto simp: in_set_enumerate_eq)
  obtain j off' len' where bj: "b = (j, Some (off', len'))" "j < length sp" "c = span_key off' j len'"
    using b by - (cases b, auto simp: in_set_enumerate_eq)
  from ai bj show "a = b" using span_key_inj [of i j off len off' len'] assms by simp
qed simp

lemma span_keys_total:
  assumes "length sp \<le> 2 ^ 16"
  shows "sum_list (map key_len (span_keys sp)) = spans_total sp"
proof -
  have "sum_list (map key_len (List.map_filter (\<lambda>(i, x). map_option (\<lambda>(off, len). span_key off i len) x)
      (enumerate n sp))) = spans_total sp" if "n + length sp \<le> 2 ^ 16" for n
    using that
    by (induction sp arbitrary: n)
      (auto simp: spans_total_def map_filter_simps key_len_def unpack_span_key split: option.splits)
  from this [of 0] assms show ?thesis by (simp add: span_keys_def)
qed

lemma length_slice: "off + n \<le> length xs \<Longrightarrow> length (slice xs off n) = n"
  by (simp add: slice_def)

lemma slice_eqI:
  "off + n \<le> length xs \<Longrightarrow> off' + n \<le> length ys \<Longrightarrow> (\<And>k. k < n \<Longrightarrow> xs ! (off + k) = ys ! (off' + k)) \<Longrightarrow>
     slice xs off n = slice ys off' n"
  by (rule nth_equalityI) (simp_all add: slice_def)

text \<open>What a copy does to the slots before, at and after its target.\<close>

lemma copy_within_length: "copy_within xs src n dst = Some ys \<Longrightarrow> length ys = length xs"
  by (auto simp: copy_within_def split: if_splits)

lemma copy_within_nth:
  assumes "copy_within xs src n dst = Some ys" and "k < length xs"
  shows "ys ! k = (if dst \<le> k \<and> k < dst + n then xs ! (src + (k - dst)) else xs ! k)"
proof -
  have r: "src + n \<le> length xs" "dst + n \<le> length xs"
    and ys: "ys = take dst xs @ take n (drop src xs) @ drop (dst + n) xs"
    using assms(1) by (auto simp: copy_within_def split: if_splits)
  have l: "length (take dst xs) = dst" "length (take n (drop src xs)) = n" using r by simp_all
  consider "k < dst" | "dst \<le> k" "k < dst + n" | "dst + n \<le> k" by linarith
  then show ?thesis
  proof cases
    case 2
    then have "k - dst < n" by linarith
    with 2 r l show ?thesis by (simp add: ys nth_append)
  next
    case 3
    then have "(take n (drop src xs) @ drop (dst + n) xs) ! (k - dst) = drop (dst + n) xs ! (k - dst - n)"
      using l by (simp only: nth_append) simp
    with 3 r l assms(2) show ?thesis unfolding ys by (simp only: nth_append) simp
  qed (use r l in \<open>simp_all add: ys nth_append\<close>)
qed

lemma copy_within_slice_other:
  assumes "copy_within xs src n dst = Some ys" and "off + m \<le> length xs"
    and "off + m \<le> dst \<or> dst + n \<le> off"
  shows "slice ys off m = slice xs off m"
  using assms copy_within_length [OF assms(1)] copy_within_nth [OF assms(1)]
  by (intro slice_eqI) auto

lemma copy_within_slice_at:
  assumes "copy_within xs src n dst = Some ys"
  shows "slice ys dst n = slice xs src n"
  using assms copy_within_length [OF assms(1)] copy_within_nth [OF assms(1)]
  by (intro slice_eqI) (auto simp: copy_within_def split: if_splits)

lemma slice_take: "off + n \<le> m \<Longrightarrow> m \<le> length xs \<Longrightarrow> slice (take m xs) off n = slice xs off n"
  by (rule slice_eqI) auto

section \<open>The contract of a slot store\<close>

text \<open>
  A pass in progress, for the spans \<open>sp0\<close> and arena \<open>a0\<close> it started from: the keys
  \<open>P\<close> are done and lie side by side below the cursor, the keys \<open>R\<close> are untouched and
  start at or above it, and no span has lost its contents.
\<close>

definition slid ::
  "span_table \<Rightarrow> 'v list \<Rightarrow> u64 list \<Rightarrow> u64 list \<Rightarrow> 'v list \<Rightarrow> nat \<Rightarrow> span_table \<Rightarrow> bool" where
  "slid sp0 a0 P R a w sp \<longleftrightarrow>
     length a = length a0 \<and> length sp = length sp0 \<and> w \<le> length a0 \<and>
     w = sum_list (map key_len P) \<and>
     (\<forall>i<length sp0. sp0 ! i = None \<longrightarrow> sp ! i = None) \<and>
     (\<forall>i<length sp0. \<forall>off len. sp0 ! i = Some (off, len) \<longrightarrow>
        (if span_key off i len \<in> set R
         then sp ! i = Some (off, len) \<and> w \<le> unat off \<and>
              slice a (unat off) (unat len) = slice a0 (unat off) (unat len)
         else \<exists>off'. sp ! i = Some (off', len) \<and> off' \<le> off \<and> unat off' + unat len \<le> w \<and>
              slice a (unat off') (unat len) = slice a0 (unat off) (unat len))) \<and>
     spans_apart sp"

lemma slid_start:
  "spans_apart sp \<Longrightarrow> slid sp a [] (sort (span_keys sp)) a 0 sp"
  by (auto simp: slid_def in_set_span_keys)

text \<open>The keys of the untouched spans are in order of their offsets.\<close>

lemma keys_ascending:
  assumes "sorted (span_key off i len # R)" and "span_key off' j len' \<in> set R"
    and "i < 2 ^ 16" and "j < 2 ^ 16"
  shows "off \<le> off'"
proof (rule ccontr)
  assume "\<not> off \<le> off'"
  then have "span_key off' j len' < span_key off i len"
    using assms(3,4) by (intro span_key_less) auto
  with assms(1,2) show False by auto
qed

lemma unat_of_nat32: "m < 2 ^ 32 \<Longrightarrow> unat (of_nat m :: u32) = m"
  by (simp add: unsigned_of_nat take_bit_nat_eq_self)

lemma slid_step:
  assumes st: "slid sp0 a0 P (k # R) a w sp" and k: "k = span_key off i len"
    and i: "i < length sp0" "sp0 ! i = Some (off, len)"
    and small: "length sp0 \<le> 2 ^ 16" "length a0 < 2 ^ 32"
    and apart0: "spans_apart sp0" and within0: "spans_within sp0 (length a0)"
    and sorted: "sorted (k # R)" and dist: "distinct (k # R)"
    and move: "sp' = sp[i := Some (of_nat w, len)]"
    and copy: "a' = a \<and> unat off = w \<or> copy_within a (unat off) (unat len) w = Some a'"
  shows "slid sp0 a0 (P @ [k]) R a' (w + unat len) sp'"
proof -
  have kl: "unpack k = (i, off, len)" using k i small unpack_span_key by simp
  have cur: "sp ! i = Some (off, len)" "w \<le> unat off"
    "slice a (unat off) (unat len) = slice a0 (unat off) (unat len)"
    using st i k by (auto simp: slid_def)
  have len: "length a = length a0" "length sp = length sp0" using st by (simp_all add: slid_def)
  have in0: "unat off + unat len \<le> length a0" "0 < len"
    using within0 i nth_mem [of i sp0] by (auto simp: spans_within_def)
  have w32: "unat (of_nat w :: u32) = w"
    using cur(2) unsigned_less [of off, where ?'a = nat] by (intro unat_of_nat32) simp
  have at: "slice a' w (unat len) = slice a0 (unat off) (unat len)"
    using copy copy_within_slice_at cur(3) by metis
  have other: "slice a' o' n = slice a o' n"
    if "o' + n \<le> length a0" "o' + n \<le> w \<or> w + unat len \<le> o'" for o' n
    using copy copy_within_slice_other [of a "unat off" "unat len" w a' o' n] that len by auto
  have la: "length a' = length a0" using copy copy_within_length len by metis
  have new: "sp' ! i = Some (of_nat w, len)" "\<And>j. j \<noteq> i \<Longrightarrow> sp' ! j = sp ! j"
    using move i len by auto
  have untouched: "sp ! j = Some (o', l)" "w + unat len \<le> unat o'"
      "slice a' (unat o') (unat l) = slice a0 (unat o') (unat l)"
    if j: "j < length sp0" "sp0 ! j = Some (o', l)" "span_key o' j l \<in> set R" for j o' l
  proof -
    have "j \<noteq> i" using j(2,3) dist i k by auto
    moreover have "off \<le> o'" using keys_ascending [of off i len R o' j l] sorted k j i(1) small by simp
    moreover have "0 < l" "unat o' + unat l \<le> length a0"
      using within0 j nth_mem [of j sp0] by (auto simp: spans_within_def)
    moreover have "0 < unat l" "unat off \<le> unat o'"
      using calculation by (simp_all add: word_le_nat_alt word_less_nat_alt)
    moreover have "unat off + unat len \<le> unat o' \<or> unat o' + unat l \<le> unat off"
      using apart0 i j(1,2) \<open>j \<noteq> i\<close> unfolding spans_apart_def by blast
    ultimately have above: "unat off + unat len \<le> unat o'" by linarith
    then show "w + unat len \<le> unat o'" using cur(2) by simp
    moreover show "sp ! j = Some (o', l)" using st j by (auto simp: slid_def)
    moreover have "slice a (unat o') (unat l) = slice a0 (unat o') (unat l)"
      using st j by (auto simp: slid_def)
    ultimately show "slice a' (unat o') (unat l) = slice a0 (unat o') (unat l)"
      using other [of "unat o'" "unat l"] \<open>unat o' + unat l \<le> length a0\<close> by simp
  qed
  have handled: "\<exists>off'. sp ! j = Some (off', l) \<and> off' \<le> o' \<and> unat off' + unat l \<le> w \<and>
      slice a' (unat off') (unat l) = slice a0 (unat o') (unat l)"
    if j: "j < length sp0" "sp0 ! j = Some (o', l)" "span_key o' j l \<notin> set R" "j \<noteq> i" for j o' l
  proof -
    have "span_key o' j l \<noteq> k" using span_key_inj [of j i o' l off len] j(1,4) i(1) small k by auto
    then obtain off' where r: "sp ! j = Some (off', l)" "off' \<le> o'" "unat off' + unat l \<le> w"
      "slice a (unat off') (unat l) = slice a0 (unat o') (unat l)"
      using st j unfolding slid_def by (metis set_ConsD)
    then show ?thesis
      using other [of "unat off'" "unat l"] st by (auto simp: slid_def)
  qed
  have sides: "unat o' + unat l \<le> w \<or> w + unat len \<le> unat o'"
    if j: "sp' ! j = Some (o', l)" "j < length sp0" "j \<noteq> i" for j o' l
  proof (cases "sp0 ! j")
    case None
    then show ?thesis using st j new(2) by (auto simp: slid_def)
  next
    case (Some p)
    obtain o0 l0 where p: "sp0 ! j = Some (o0, l0)" using Some by (cases p) auto
    show ?thesis
      using untouched [OF j(2) p] handled [OF j(2) p _ j(3)] new(2) [OF j(3)] j(1)
      by (cases "span_key o0 j l0 \<in> set R") auto
  qed
  have apart: "spans_apart sp'"
    unfolding spans_apart_def
  proof (intro allI impI)
    fix x y ox lx oy ly
    assume xy: "x < length sp'" "y < length sp'" "x \<noteq> y"
      "sp' ! x = Some (ox, lx)" "sp' ! y = Some (oy, ly)"
    have ls: "length sp' = length sp0" using move len by simp
    consider "x = i" | "y = i" | "x \<noteq> i" "y \<noteq> i" by blast
    then show "unat ox + unat lx \<le> unat oy \<or> unat oy + unat ly \<le> unat ox"
    proof cases
      case 1
      then show ?thesis using sides [OF xy(5)] xy new(1) w32 ls by auto
    next
      case 2
      then show ?thesis using sides [OF xy(4)] xy new(1) w32 ls by auto
    next
      case 3
      have "spans_apart sp" using st by (simp add: slid_def)
      then show ?thesis using 3 xy new(2) len ls unfolding spans_apart_def by metis
    qed
  qed
  show ?thesis
    unfolding slid_def
  proof (intro conjI allI impI)
    fix j assume "j < length sp0" "sp0 ! j = None"
    with st i new show "sp' ! j = None" by (cases "j = i") (auto simp: slid_def)
  next
    fix j o' l
    assume j: "j < length sp0" "sp0 ! j = Some (o', l)"
    show "if span_key o' j l \<in> set R
         then sp' ! j = Some (o', l) \<and> w + unat len \<le> unat o' \<and>
              slice a' (unat o') (unat l) = slice a0 (unat o') (unat l)
         else \<exists>off'. sp' ! j = Some (off', l) \<and> off' \<le> o' \<and> unat off' + unat l \<le> w + unat len \<and>
              slice a' (unat off') (unat l) = slice a0 (unat o') (unat l)"
    proof (cases "j = i")
      case True
      then have "span_key o' j l \<notin> set R" "o' = off" "l = len" using j i dist k by auto
      with True new(1) at w32 cur(2) show ?thesis
        by (auto simp: word_le_nat_alt intro!: exI [of _ "of_nat w :: u32"])
    next
      case False
      with new(2) untouched [OF j] handled [OF j _ False] show ?thesis by fastforce
    qed
  next
    show "w + unat len = sum_list (map key_len (P @ [k]))"
      using st kl by (simp add: slid_def key_len_def)
  qed (use la len in0 cur(2) move apart in auto)
qed

definition spans_ok :: "span_table \<Rightarrow> nat \<Rightarrow> bool" where
  "spans_ok sp n \<longleftrightarrow> length sp \<le> 2 ^ 16 \<and> n < 2 ^ 32 \<and> spans_apart sp \<and> spans_within sp n"

text \<open>
  What is left to do is what the next pass will find: a moved span has a key no larger than
  the one it was handled under.
\<close>

lemma slid_remaining:
  assumes st: "slid sp0 a0 P R a w sp" and ok: "spans_ok sp0 (length a0)"
    and PR: "P @ R = sort (span_keys sp0)"
  shows "sort (filter (beyond (if P = [] then None else Some (last P))) (span_keys sp)) = R"
proof (rule sorted_distinct_set_unique)
  let ?after = "if P = [] then None else Some (last P)"
  have small: "length sp0 \<le> 2 ^ 16" "length sp = length sp0"
    using ok st by (simp_all add: spans_ok_def slid_def)
  have srt: "sorted (P @ R)" and dist: "distinct (P @ R)" and set: "set (P @ R) = set (span_keys sp0)"
    unfolding PR using distinct_span_keys [OF small(1)] by simp_all
  show "sorted R" "distinct R" using srt dist by (simp_all add: sorted_append)
  show "distinct (sort (filter (beyond ?after) (span_keys sp)))"
    using distinct_span_keys [of sp] small by simp
  have R_beyond: "beyond ?after k" if "k \<in> set R" for k
  proof (cases "P = []")
    case False
    then have "last P \<in> set P" by simp
    with that srt dist have "last P \<le> k" "last P \<noteq> k" by (auto simp: sorted_append)
    with False show ?thesis by (simp add: beyond_def)
  qed (simp add: beyond_def)
  have P_within: "k \<le> last P" if "k \<in> set P" for k
    using srt that sorted_last_le by (auto simp: sorted_append)
  show "set (sort (filter (beyond ?after) (span_keys sp))) = set R"
  proof (intro equalityI subsetI)
    fix k assume "k \<in> set (sort (filter (beyond ?after) (span_keys sp)))"
    then obtain i off len where k: "i < length sp0" "sp ! i = Some (off, len)"
      "k = span_key off i len" "beyond ?after k"
      using small by (auto simp: in_set_span_keys)
    obtain off0 len0 where k0: "sp0 ! i = Some (off0, len0)"
      using st k(1,2) by (cases "sp0 ! i") (auto simp: slid_def)
    let ?k0 = "span_key off0 i len0"
    show "k \<in> set R"
    proof (cases "?k0 \<in> set R")
      case True
      then show ?thesis using st k k0 by (auto simp: slid_def)
    next
      case False
      moreover have "?k0 \<in> set (P @ R)" unfolding set using k(1) k0 by (auto simp: in_set_span_keys)
      ultimately have in_P: "?k0 \<in> set P" by simp
      have "len = len0" "off \<le> off0" using st k k0 False by (auto simp: slid_def)
      then have "k \<le> ?k0"
        using span_key_less [of off off0 i i len len0] k(1,3) small
        by (cases "off = off0") (auto simp: less_imp_le)
      also have "\<dots> \<le> last P" using P_within in_P by blast
      finally have "k \<le> last P" .
      moreover have "P \<noteq> []" using in_P by auto
      ultimately show ?thesis using k(4) by (simp add: beyond_def)
    qed
  next
    fix k assume k: "k \<in> set R"
    then have "k \<in> set (span_keys sp0)" using set by auto
    then obtain i off len where "i < length sp0" "sp0 ! i = Some (off, len)" "k = span_key off i len"
      by (auto simp: in_set_span_keys)
    then have "k \<in> set (span_keys sp)" using st k small by (auto simp: slid_def in_set_span_keys)
    with R_beyond [OF k] show "k \<in> set (sort (filter (beyond ?after) (span_keys sp)))" by simp
  qed
qed simp

text \<open>What a finished compaction has done to the spans.\<close>

definition spans_kept :: "span_table \<Rightarrow> 'v list \<Rightarrow> span_table \<Rightarrow> 'v list \<Rightarrow> bool" where
  "spans_kept sp a sp' a' \<longleftrightarrow> length sp' = length sp \<and>
     (\<forall>i<length sp. sp ! i = None \<longrightarrow> sp' ! i = None) \<and>
     (\<forall>i<length sp. \<forall>off len. sp ! i = Some (off, len) \<longrightarrow>
        (\<exists>off'. sp' ! i = Some (off', len) \<and>
           slice a' (unat off') (unat len) = slice a (unat off) (unat len)))"

lemma slid_done:
  assumes st: "slid sp0 a0 P [] a w sp" and ok: "spans_ok sp0 (length a0)"
    and P: "P = sort (span_keys sp0)"
  shows "length (take w a) = spans_total sp0 \<and> length (take w a) \<le> length a0 \<and>
    spans_ok sp (length (take w a)) \<and> spans_kept sp0 a0 sp (take w a)"
proof -
  have w: "w \<le> length a" "length a = length a0" "length sp = length sp0"
    "w = sum_list (map key_len P)"
    using st by (simp_all add: slid_def)
  have "w = spans_total sp0"
    unfolding w(4) P using span_keys_total [of sp0] ok
    by (simp add: spans_ok_def flip: sum_mset_sum_list)
  moreover have "spans_within sp w"
    unfolding spans_within_def
  proof (intro allI impI)
    fix off len assume "Some (off, len) \<in> set sp"
    then obtain i where i: "i < length sp0" "sp ! i = Some (off, len)"
      using w by (auto simp: in_set_conv_nth)
    then obtain off0 where "sp0 ! i = Some (off0, len)"
      using st by (cases "sp0 ! i") (auto simp: slid_def)
    with i ok st show "0 < len \<and> unat off + unat len \<le> w"
      using nth_mem [of i sp0] by (auto simp: spans_ok_def spans_within_def slid_def)
  qed
  moreover have "spans_kept sp0 a0 sp (take w a)"
    using st slice_take [OF _ w(1)] by (auto simp: spans_kept_def slid_def) metis
  ultimately show ?thesis using w ok st by (auto simp: spans_ok_def slid_def)
qed

locale span_store =
  fixes inv :: "'s \<Rightarrow> bool"
    and spans :: "'s \<Rightarrow> span_table"
    and move :: "nat \<Rightarrow> u32 \<Rightarrow> 's \<Rightarrow> 's"
    and frame :: "'s \<Rightarrow> 's \<Rightarrow> bool"
  assumes move_spans: "inv s \<Longrightarrow> i < length (spans s) \<Longrightarrow> spans s ! i = Some (off, len) \<Longrightarrow>
      inv (move i off' s) \<and> spans (move i off' s) = (spans s)[i := Some (off', len)] \<and>
      frame s (move i off' s)"
    and frame_refl: "frame s s"
    and frame_trans: "frame s t \<Longrightarrow> frame t u \<Longrightarrow> frame s u"
begin

lemma slide_one_ok:
  assumes st: "slid sp0 a0 P (k # R) a w (spans s)" and ok: "spans_ok sp0 (length a0)"
    and PR: "P @ k # R = sort (span_keys sp0)" and "inv s"
  shows "\<exists>a' s'. slide_one move k (a, w, s) = Some (a', w + key_len k, s') \<and> inv s' \<and> frame s s' \<and>
    slid sp0 a0 (P @ [k]) R a' (w + key_len k) (spans s')"
proof -
  have "k \<in> set (span_keys sp0)" using PR by (metis in_set_conv_decomp set_sort)
  then obtain i off len where i: "i < length sp0" "sp0 ! i = Some (off, len)"
    "k = span_key off i len"
    by (auto simp: in_set_span_keys)
  have small: "length sp0 \<le> 2 ^ 16" "length a0 < 2 ^ 32" "spans_apart sp0"
    "spans_within sp0 (length a0)"
    using ok by (simp_all add: spans_ok_def)
  have kl: "unpack k = (i, off, len)" using i small unpack_span_key by simp
  have srt: "sorted (k # R)" "distinct (k # R)"
    using PR distinct_span_keys [OF small(1)]
    by (metis sorted_append sorted_sort) (metis PR distinct_append distinct_sort distinct_span_keys small(1))
  have cur: "spans s ! i = Some (off, len)" "w \<le> unat off" "length (spans s) = length sp0"
    "length a = length a0"
    using st i by (auto simp: slid_def)
  have mv: "inv (move i (of_nat w) s)" "frame s (move i (of_nat w) s)"
    "spans (move i (of_nat w) s) = (spans s)[i := Some (of_nat w, len)]"
    using move_spans [OF \<open>inv s\<close>, of i off len "of_nat w"] i cur by simp_all
  have in0: "unat off + unat len \<le> length a0"
    using small(4) i nth_mem [of i sp0] by (auto simp: spans_within_def)
  obtain a' where a': "a' = a \<and> unat off = w \<or> copy_within a (unat off) (unat len) w = Some a'"
    "(if unat off \<noteq> w then copy_within a (unat off) (unat len) w else Some a) = Some a'"
    using in0 cur(2,4) by (cases "unat off = w") (auto simp: copy_within_def)
  have "slide_one move k (a, w, s) = Some (a', w + key_len k, move i (of_nat w) s)"
    using a'(2) by (simp add: slide_one_def kl key_len_def Let_def)
  moreover have "slid sp0 a0 (P @ [k]) R a' (w + unat len) (spans (move i (of_nat w) s))"
    using slid_step [OF st i(3,1,2) small srt mv(3) a'(1)] .
  ultimately show ?thesis using mv kl by (auto simp: key_len_def)
qed

lemma slide_all_ok:
  "slid sp0 a0 P (Q @ R) a w (spans s) \<Longrightarrow> spans_ok sp0 (length a0) \<Longrightarrow>
   P @ Q @ R = sort (span_keys sp0) \<Longrightarrow> inv s \<Longrightarrow>
   \<exists>a' w' s'. slide_all move Q (a, w, s) = Some (a', w', s') \<and> inv s' \<and> frame s s' \<and>
     slid sp0 a0 (P @ Q) R a' w' (spans s')"
proof (induction Q arbitrary: P a w s)
  case Nil
  then show ?case using frame_refl by auto
next
  case (Cons k Q)
  obtain a' s' where one: "slide_one move k (a, w, s) = Some (a', w + key_len k, s')" "inv s'"
    "frame s s'" "slid sp0 a0 (P @ [k]) (Q @ R) a' (w + key_len k) (spans s')"
    using slide_one_ok [of sp0 a0 P k "Q @ R" a w s] Cons.prems by auto
  from Cons.IH [OF one(4) Cons.prems(2) _ one(2)] Cons.prems(3) obtain a'' w'' s'' where
    "slide_all move Q (a', w + key_len k, s') = Some (a'', w'', s'')" "inv s''" "frame s' s''"
    "slid sp0 a0 (P @ k # Q) R a'' w'' (spans s'')" by auto
  with one frame_trans [OF one(3)] show ?case by auto
qed

lemma compact_loop_ok:
  "slid sp0 a0 P R a w (spans s) \<Longrightarrow> spans_ok sp0 (length a0) \<Longrightarrow>
   P @ R = sort (span_keys sp0) \<Longrightarrow> inv s \<Longrightarrow> 0 < cap \<Longrightarrow>
   \<exists>a' w' s'. compact_loop spans move cap (if P = [] then None else Some (last P)) (a, w, s)
       = Some (a', w', s') \<and> inv s' \<and> frame s s' \<and> slid sp0 a0 (P @ R) [] a' w' (spans s')"
proof (induction "length R" arbitrary: P R a w s rule: less_induct)
  case less
  let ?after = "if P = [] then None else Some (last P)" and ?Q = "take cap R"
  have sel: "next_slice cap ?after (span_keys (spans s)) = Some (?Q, cap \<le> length R)"
    using slid_remaining [OF less.prems(1-3)] less.prems(5) by (simp add: next_slice_eq Let_def)
  obtain a' w' s' where all: "slide_all move ?Q (a, w, s) = Some (a', w', s')" "inv s'"
    "frame s s'" "slid sp0 a0 (P @ ?Q) (drop cap R) a' w' (spans s')"
    using slide_all_ok [of sp0 a0 P ?Q "drop cap R" a w s] less.prems by auto
  show ?case
  proof (cases "cap \<le> length R")
    case False
    with sel all show ?thesis by (subst compact_loop.simps) simp
  next
    case True
    with less.prems(5) have Q: "?Q \<noteq> []" "length (drop cap R) < length R" by auto
    have PR: "(P @ ?Q) @ drop cap R = sort (span_keys sp0)" using less.prems(3) by simp
    from less.hyps [OF Q(2) all(4) less.prems(2) PR all(2) less.prems(5)] Q(1)
    obtain a'' w'' s'' where rec:
      "compact_loop spans move cap (Some (last ?Q)) (a', w', s') = Some (a'', w'', s'')"
      "inv s''" "frame s' s''" "slid sp0 a0 (P @ R) [] a'' w'' (spans s'')"
      by auto
    have "compact_loop spans move cap ?after (a, w, s) = Some (a'', w'', s'')"
      using True sel all(1) rec(1) Q(1) by (subst compact_loop.simps) simp
    with rec frame_trans [OF all(3) rec(3)] show ?thesis by blast
  qed
qed

lemma compact_spans_ok:
  assumes "inv s" and "spans_ok (spans s) (length a)" and "0 < cap"
  shows "\<exists>a' s'. compact_spans spans move cap a s = Some (a', s') \<and> inv s' \<and> frame s s' \<and>
    length a' = spans_total (spans s) \<and> length a' \<le> length a \<and>
    spans_ok (spans s') (length a') \<and> spans_kept (spans s) a (spans s') a'"
proof -
  have "spans_apart (spans s)" using assms(2) by (simp add: spans_ok_def)
  from compact_loop_ok [OF slid_start [OF this] assms(2) _ assms(1,3)]
  obtain a' w' s' where l: "compact_loop spans move cap None (a, 0, s) = Some (a', w', s')"
    "inv s'" "frame s s'" "slid (spans s) a (sort (span_keys (spans s))) [] a' w' (spans s')"
    by auto
  note d = slid_done [OF l(4) assms(2) refl]
  have "compact_spans spans move cap a s = Some (take w' a', s')"
    by (simp add: compact_spans_def l(1))
  with l(2,3) d show ?thesis by blast
qed

end

end
