(* ===== verification/ArrayHeap.thy ===== *)
theory ArrayHeap
  imports JvmTypes ChunkedSlots Compaction
begin

text \<open>
  The array heap, \<open>crates/jvm/src/array_heap.rs\<close>: small arrays inline in their slot,
  large ones as spans of two arenas (\<open>i32\<close> elements and packed bytes), the reference
  encoding of \<open>Object[]\<close> elements, and the compaction after a collection.
  \<open>INLINE_DATA\<close> is a constant of the generated tunables file; the model carries it in
  the heap.
\<close>

section \<open>Element types and reference encoding\<close>

definition ATYPE_BOOLEAN :: u8 where "ATYPE_BOOLEAN = 4"
definition ATYPE_CHAR :: u8 where "ATYPE_CHAR = 5"
definition ATYPE_FLOAT :: u8 where "ATYPE_FLOAT = 6"
definition ATYPE_DOUBLE :: u8 where "ATYPE_DOUBLE = 7"
definition ATYPE_BYTE :: u8 where "ATYPE_BYTE = 8"
definition ATYPE_SHORT :: u8 where "ATYPE_SHORT = 9"
definition ATYPE_INT :: u8 where "ATYPE_INT = 10"
definition ATYPE_LONG :: u8 where "ATYPE_LONG = 11"
definition ATYPE_REF :: u8 where "ATYPE_REF = 0"

lemmas atype_defs = ATYPE_BOOLEAN_def ATYPE_CHAR_def ATYPE_FLOAT_def ATYPE_DOUBLE_def
  ATYPE_BYTE_def ATYPE_SHORT_def ATYPE_INT_def ATYPE_LONG_def ATYPE_REF_def

definition REF_TAG :: u32 where "REF_TAG = 0x40000000"
definition ARRAY_TAG :: u32 where "ARRAY_TAG = 0x20000000"
definition OBJ_TAG :: u32 where "OBJ_TAG = 0x10000000"

definition encode_ref :: "jvm_value \<Rightarrow> i32 option" where
  "encode_ref v =
     (case v of
        VNull \<Rightarrow> Some 0
      | VObjectRef i \<Rightarrow> Some (ucast i OR OBJ_TAG)
      | VReference i \<Rightarrow> Some (ucast i OR REF_TAG)
      | VArrayRef i \<Rightarrow> Some (ucast i OR ARRAY_TAG)
      | _ \<Rightarrow> None)"

definition decode_ref :: "i32 \<Rightarrow> jvm_value" where
  "decode_ref raw =
     (if raw = 0 then VNull
      else if raw AND REF_TAG \<noteq> 0 then VReference (ucast (raw AND NOT REF_TAG))
      else if raw AND ARRAY_TAG \<noteq> 0 then VArrayRef (ucast (raw AND NOT ARRAY_TAG))
      else VObjectRef (ucast (raw AND 0xFFFF)))"

definition slots_per_elem :: "u8 \<Rightarrow> u16" where
  "slots_per_elem atype = (if atype = ATYPE_LONG \<or> atype = ATYPE_DOUBLE then 2 else 1)"

definition is_packed :: "u8 \<Rightarrow> bool" where
  "is_packed atype \<longleftrightarrow> atype = ATYPE_BYTE \<or> atype = ATYPE_BOOLEAN"

section \<open>The heap\<close>

datatype array_data =
    Inline "i32 list" u16
  | Arena u32 u16
  | Inline8 "u8 list" u16
  | Arena8 u32 u16

record jvm_array =
  arr_atype :: u8
  arr_data :: array_data

record array_heap =
  arrays :: "jvm_array chunked"
  first_free :: nat
  arena :: "i32 list"
  arena_cap :: nat
  arena8 :: "u8 list"
  arena8_cap :: nat
  alloc_events :: u16
  inline_data :: nat

definition ah_new :: "nat \<Rightarrow> nat \<Rightarrow> array_heap" where
  "ah_new shift inl =
     \<lparr>arrays = cs_new shift, first_free = 0, arena = [], arena_cap = 0, arena8 = [],
      arena8_cap = 0, alloc_events = 0, inline_data = inl\<rparr>"

definition ah_take_alloc_events :: "array_heap \<Rightarrow> u16 \<times> array_heap" where
  "ah_take_alloc_events h = (alloc_events h, h\<lparr>alloc_events := 0\<rparr>)"

definition INLINE8 :: "array_heap \<Rightarrow> nat" where
  "INLINE8 h = inline_data h * 4"

datatype rollback = RbArena nat | RbArena8 nat

text \<open>The payload of a new array, with the length to cut its arena back to.\<close>

definition reserve_data ::
  "allocator \<Rightarrow> u8 \<Rightarrow> u16 \<Rightarrow> array_heap \<Rightarrow> (array_data \<times> rollback option) option \<times> array_heap"
  where
  "reserve_data al atype len h =
     (if is_packed atype then
        (if unat len \<le> INLINE8 h then (Some (Inline8 (replicate (INLINE8 h) 0) len, None), h)
         else case vec_reserve_exact (al U8Buf) (arena8_cap h) (length (arena8 h)) (unat len) of
             None \<Rightarrow> (None, h)
           | Some cap \<Rightarrow>
               (Some (Arena8 (of_nat (length (arena8 h))) len, Some (RbArena8 (length (arena8 h)))),
                h\<lparr>arena8 := resize (arena8 h) (length (arena8 h) + unat len) 0, arena8_cap := cap\<rparr>))
      else case checked_mul (ucast len :: u32) (ucast (slots_per_elem atype)) of
          None \<Rightarrow> (None, h)
        | Some phys_u32 \<Rightarrow>
            if 0xFFFF < phys_u32 then (None, h)
            else let phys = ucast phys_u32
                 in if unat phys \<le> inline_data h
                    then (Some (Inline (replicate (inline_data h) 0) phys, None), h)
                    else case vec_reserve_exact (al I32Buf) (arena_cap h) (length (arena h)) (unat phys) of
                        None \<Rightarrow> (None, h)
                      | Some cap \<Rightarrow>
                          (Some (Arena (of_nat (length (arena h))) phys, Some (RbArena (length (arena h)))),
                           h\<lparr>arena := resize (arena h) (length (arena h) + unat phys) 0,
                             arena_cap := cap\<rparr>))"

definition roll_back :: "rollback option \<Rightarrow> array_heap \<Rightarrow> array_heap" where
  "roll_back rb h =
     (case rb of
        Some (RbArena len) \<Rightarrow> h\<lparr>arena := take len (arena h)\<rparr>
      | Some (RbArena8 len) \<Rightarrow> h\<lparr>arena8 := take len (arena8 h)\<rparr>
      | None \<Rightarrow> h)"

text \<open>The scan from \<open>first_free\<close> over the occupied prefix.\<close>

function scan_free :: "'a chunked \<Rightarrow> nat \<Rightarrow> nat" where
  "scan_free cs i =
     (if i < cs_len cs \<and> (case cs_get cs i of Some (Some a) \<Rightarrow> True | _ \<Rightarrow> False)
      then scan_free cs (i + 1) else i)"
  by pat_completeness auto
termination by (relation "measure (\<lambda>(cs, i). cs_len cs - i)") auto

declare scan_free.simps [simp del]

definition REF_TOP :: nat where
  "REF_TOP = 65535"

definition place_array ::
  "allocator \<Rightarrow> jvm_array \<Rightarrow> rollback option \<Rightarrow> (array_heap, fault, u16 option) action" where
  "place_array al new_arr rb h0 =
     (let ff = scan_free (arrays h0) (first_free h0); h = h0\<lparr>first_free := ff\<rparr>
      in if ff < cs_len (arrays h)
         then (case cs_update (arrays h) ff (Some new_arr) of
                 None \<Rightarrow> (Inl Panic, h)
               | Some cs \<Rightarrow> (Inr (Some (of_nat ff)), h\<lparr>arrays := cs, first_free := ff + 1\<rparr>))
         else if REF_TOP \<le> cs_len (arrays h) then (Inr None, roll_back rb h)
         else (case cs_try_push (al ChunkBuf) (Some new_arr) (arrays h) of
                 (None, cs) \<Rightarrow> (Inr None, roll_back rb (h\<lparr>arrays := cs\<rparr>))
               | (Some n, cs) \<Rightarrow>
                   (Inr (Some (of_nat (cs_len (arrays h)))),
                    h\<lparr>arrays := cs, first_free := cs_len cs\<rparr>)))"

definition ah_alloc :: "allocator \<Rightarrow> u8 \<Rightarrow> u16 \<Rightarrow> (array_heap, fault, u16 option) action" where
  "ah_alloc al atype len h =
     (case reserve_data al atype len (h\<lparr>alloc_events := saturating_inc16 (alloc_events h)\<rparr>) of
        (None, h') \<Rightarrow> (Inr None, h')
      | (Some (data, rb), h') \<Rightarrow> place_array al \<lparr>arr_atype = atype, arr_data = data\<rparr> rb h')"

text \<open>\<open>self.arrays.get(idx)?.as_ref()?\<close>.\<close>

definition ah_slot :: "array_heap \<Rightarrow> nat \<Rightarrow> jvm_array option" where
  "ah_slot h idx = (case cs_get (arrays h) idx of Some (Some a) \<Rightarrow> Some a | _ \<Rightarrow> None)"

definition data_len :: "array_data \<Rightarrow> u16" where
  "data_len d = (case d of Inline _ n \<Rightarrow> n | Arena _ n \<Rightarrow> n | Inline8 _ n \<Rightarrow> n | Arena8 _ n \<Rightarrow> n)"

text \<open>Indexing a vector: out of range panics.\<close>

definition index :: "'a list \<Rightarrow> nat \<Rightarrow> ('s, fault, 'a) action" where
  "index xs i = (if i < length xs then ret (xs ! i) else throw Panic)"

definition ah_load :: "u16 \<Rightarrow> nat \<Rightarrow> (array_heap, fault, i32 option) action" where
  "ah_load idx e h =
     (case ah_slot h (unat idx) of
        None \<Rightarrow> (Inr None, h)
      | Some a \<Rightarrow>
          if unat (data_len (arr_data a)) \<le> e then (Inr None, h)
          else (case arr_data a of
                  Inline buf len \<Rightarrow> andThen (index buf e) (\<lambda>x. ret (Some x)) h
                | Arena off len \<Rightarrow> andThen (index (arena h) (unat off + e)) (\<lambda>x. ret (Some x)) h
                | Inline8 buf len \<Rightarrow> andThen (index buf e) (\<lambda>x. ret (Some (scast x))) h
                | Arena8 off len \<Rightarrow>
                    andThen (index (arena8 h) (unat off + e)) (\<lambda>x. ret (Some (scast x))) h))"

text \<open>\<open>xs[i] = v\<close>.\<close>

definition write_at :: "'a list \<Rightarrow> nat \<Rightarrow> 'a \<Rightarrow> 'a list option" where
  "write_at xs i v = (if i < length xs then Some (xs[i := v]) else None)"

definition set_data :: "nat \<Rightarrow> array_data \<Rightarrow> array_heap \<Rightarrow> array_heap" where
  "set_data idx d h =
     (case ah_slot h idx of
        None \<Rightarrow> h
      | Some a \<Rightarrow> (case cs_update (arrays h) idx (Some (a\<lparr>arr_data := d\<rparr>)) of
            None \<Rightarrow> h | Some cs \<Rightarrow> h\<lparr>arrays := cs\<rparr>))"

definition ah_store :: "u16 \<Rightarrow> nat \<Rightarrow> i32 \<Rightarrow> (array_heap, fault, unit option) action" where
  "ah_store idx e val h =
     (case ah_slot h (unat idx) of
        None \<Rightarrow> (Inr None, h)
      | Some a \<Rightarrow>
          if unat (data_len (arr_data a)) \<le> e then (Inr None, h)
          else case (case arr_data a of
                  Inline buf len \<Rightarrow>
                    map_option (\<lambda>b. set_data (unat idx) (Inline b len) h) (write_at buf e val)
                | Arena off len \<Rightarrow>
                    map_option (\<lambda>x. h\<lparr>arena := x\<rparr>) (write_at (arena h) (unat off + e) val)
                | Inline8 buf len \<Rightarrow>
                    map_option (\<lambda>b. set_data (unat idx) (Inline8 b len) h) (write_at buf e (ucast val))
                | Arena8 off len \<Rightarrow>
                    map_option (\<lambda>x. h\<lparr>arena8 := x\<rparr>) (write_at (arena8 h) (unat off + e) (ucast val)))
               of None \<Rightarrow> (Inl Panic, h) | Some h' \<Rightarrow> (Inr (Some ()), h'))"

definition ah_length :: "array_heap \<Rightarrow> u16 \<Rightarrow> u16 option" where
  "ah_length h idx =
     map_option (\<lambda>a. data_len (arr_data a) div slots_per_elem (arr_atype a)) (ah_slot h (unat idx))"

definition ah_atype :: "array_heap \<Rightarrow> u16 \<Rightarrow> u8 option" where
  "ah_atype h idx = map_option arr_atype (ah_slot h (unat idx))"

text \<open>
  The 64-bit accessors, two \<open>i32\<close> slots per element, low half first. The doubled index
  is checked at the 32 bits of the target's \<open>usize\<close>.
\<close>

definition ah_load64 :: "u16 \<Rightarrow> nat \<Rightarrow> (array_heap, fault, i64 option) action" where
  "ah_load64 idx e =
     (if 2 ^ 32 \<le> e * 2 then ret None
      else andThen (ah_load idx (e * 2)) (\<lambda>lo. case lo of
          None \<Rightarrow> ret None
        | Some lo \<Rightarrow> andThen (ah_load idx (e * 2 + 1)) (\<lambda>hi. case hi of
            None \<Rightarrow> ret None
          | Some hi \<Rightarrow> ret (Some (push_bit 32 (ucast hi) OR ucast lo)))))"

definition ah_store64 :: "u16 \<Rightarrow> nat \<Rightarrow> i64 \<Rightarrow> (array_heap, fault, unit option) action" where
  "ah_store64 idx e val =
     (if 2 ^ 32 \<le> e * 2 then ret None
      else andThen (ah_store idx (e * 2) (ucast val)) (\<lambda>r. case r of
          None \<Rightarrow> ret None
        | Some _ \<Rightarrow> ah_store idx (e * 2 + 1) (ucast (drop_bit 32 val))))"

text \<open>\<open>&xs[off..off + n]\<close>.\<close>

definition sub_slice :: "'a list \<Rightarrow> nat \<Rightarrow> nat \<Rightarrow> ('s, fault, 'a list) action" where
  "sub_slice xs off n = (if off + n \<le> length xs then ret (slice xs off n) else throw Panic)"

definition packed_slice :: "u16 \<Rightarrow> (array_heap, fault, u8 list) action" where
  "packed_slice idx h =
     (case ah_slot h (unat idx) of
        None \<Rightarrow> (Inr [], h)
      | Some a \<Rightarrow> (case arr_data a of
            Inline8 buf len \<Rightarrow> sub_slice buf 0 (unat len) h
          | Arena8 off len \<Rightarrow> sub_slice (arena8 h) (unat off) (unat len) h
          | _ \<Rightarrow> (Inr [], h)))"

definition data_slice :: "u16 \<Rightarrow> (array_heap, fault, i32 list) action" where
  "data_slice idx h =
     (case ah_slot h (unat idx) of
        None \<Rightarrow> (Inr [], h)
      | Some a \<Rightarrow> (case arr_data a of
            Inline buf len \<Rightarrow> sub_slice buf 0 (unat len) h
          | Arena off len \<Rightarrow> sub_slice (arena h) (unat off) (unat len) h
          | _ \<Rightarrow> (Inr [], h)))"

text \<open>The copy loop of \<open>clone\<close>: the result of each store is ignored.\<close>

primrec store_all :: "u16 \<Rightarrow> nat \<Rightarrow> i32 list \<Rightarrow> (array_heap, fault, unit) action" where
  "store_all idx i [] = ret ()"
| "store_all idx i (v # vs) = andThen (ah_store idx i v) (\<lambda>_. store_all idx (i + 1) vs)"

definition ah_clone :: "allocator \<Rightarrow> u16 \<Rightarrow> (array_heap, fault, u16 option) action" where
  "ah_clone al idx h =
     (case (ah_atype h idx, ah_length h idx) of
        (Some atype, Some len) \<Rightarrow>
          andThen (if is_packed atype
                   then andThen (packed_slice idx) (\<lambda>bs. ret (map scast bs))
                   else data_slice idx)
            (\<lambda>data. andThen (ah_alloc al atype len) (\<lambda>r. case r of
                None \<Rightarrow> ret None
              | Some new_idx \<Rightarrow> andThen (store_all new_idx 0 data) (\<lambda>_. ret (Some new_idx)))) h
      | _ \<Rightarrow> (Inr None, h))"

definition ah_prereserve :: "allocator \<Rightarrow> nat \<Rightarrow> nat \<Rightarrow> nat \<Rightarrow> array_heap \<Rightarrow> array_heap" where
  "ah_prereserve al slot_chunks arena_values arena8_bytes h =
     (let h1 = h\<lparr>arrays := cs_reserve_chunks (al ChunkBuf) slot_chunks (arrays h)\<rparr>;
          h2 = (if arena_cap h1 < arena_values
                then (case vec_reserve_exact (al I32Buf) (arena_cap h1) (length (arena h1))
                        (arena_values - length (arena h1)) of
                        None \<Rightarrow> h1 | Some c \<Rightarrow> h1\<lparr>arena_cap := c\<rparr>)
                else h1)
      in if arena8_cap h2 < arena8_bytes
         then (case vec_reserve_exact (al U8Buf) (arena8_cap h2) (length (arena8 h2))
                 (arena8_bytes - length (arena8 h2)) of
                 None \<Rightarrow> h2 | Some c \<Rightarrow> h2\<lparr>arena8_cap := c\<rparr>)
         else h2)"

definition ah_slot_count :: "array_heap \<Rightarrow> nat" where
  "ah_slot_count h = cs_len (arrays h)"

definition ah_is_live :: "array_heap \<Rightarrow> u16 \<Rightarrow> bool" where
  "ah_is_live h idx \<longleftrightarrow> ah_slot h (unat idx) \<noteq> None"

text \<open>\<open>live_bytes\<close>: 40 bytes per live slot and the arena payload.\<close>

definition ah_live_bytes :: "array_heap \<Rightarrow> nat" where
  "ah_live_bytes h =
     (\<Sum>i\<leftarrow>[0..<cs_len (arrays h)].
        case ah_slot h i of
          None \<Rightarrow> 0
        | Some a \<Rightarrow> 40 + (case arr_data a of
              Arena _ len \<Rightarrow> unat len * 4 | Arena8 _ len \<Rightarrow> unat len | _ \<Rightarrow> 0))"

text \<open>\<open>free\<close>, outside the poisoning mode of the diagnostics build.\<close>

definition ah_free :: "u16 \<Rightarrow> array_heap \<Rightarrow> array_heap" where
  "ah_free idx h =
     (case cs_update (arrays h) (unat idx) None of
        None \<Rightarrow> h
      | Some cs \<Rightarrow>
          (let h = h\<lparr>arrays := cs\<rparr>
           in if unat idx < first_free h then h\<lparr>first_free := unat idx\<rparr> else h))"

section \<open>Compaction\<close>

definition span32 :: "jvm_array \<Rightarrow> (u32 \<times> u16) option" where
  "span32 a = (case arr_data a of Arena off len \<Rightarrow> Some (off, len) | _ \<Rightarrow> None)"

definition span8 :: "jvm_array \<Rightarrow> (u32 \<times> u16) option" where
  "span8 a = (case arr_data a of Arena8 off len \<Rightarrow> Some (off, len) | _ \<Rightarrow> None)"

definition spans32 :: "array_heap \<Rightarrow> span_table" where
  "spans32 h = map (\<lambda>s. Option.bind s span32) (cs_iter (arrays h))"

definition spans8 :: "array_heap \<Rightarrow> span_table" where
  "spans8 h = map (\<lambda>s. Option.bind s span8) (cs_iter (arrays h))"

definition move32 :: "nat \<Rightarrow> u32 \<Rightarrow> array_heap \<Rightarrow> array_heap" where
  "move32 idx off h =
     (case map_option arr_data (ah_slot h idx) of
        Some (Arena _ len) \<Rightarrow> set_data idx (Arena off len) h
      | _ \<Rightarrow> h)"

definition move8 :: "nat \<Rightarrow> u32 \<Rightarrow> array_heap \<Rightarrow> array_heap" where
  "move8 idx off h =
     (case map_option arr_data (ah_slot h idx) of
        Some (Arena8 _ len) \<Rightarrow> set_data idx (Arena8 off len) h
      | _ \<Rightarrow> h)"

text \<open>
  \<open>compact_arena\<close> with a slice buffer of capacity \<open>cap\<close>; the result is the
  buffer's capacity afterwards.
\<close>

definition compact_arena :: "allocator \<Rightarrow> nat \<Rightarrow> (array_heap, fault, nat) action" where
  "compact_arena al cap h =
     (case ensure_slice_buf al cap FALLBACK_ENTRIES of
        None \<Rightarrow> (Inr cap, h)
      | Some cap' \<Rightarrow> (case compact_spans spans32 move32 cap' (arena h) h of
            None \<Rightarrow> (Inl Panic, h)
          | Some (a, h1) \<Rightarrow>
              (let h1 = h1\<lparr>arena := a\<rparr>
               in case compact_spans spans8 move8 cap' (arena8 h1) h1 of
                    None \<Rightarrow> (Inl Panic, h1)
                  | Some (a8, h2) \<Rightarrow> (Inr cap', h2\<lparr>arena8 := a8\<rparr>))))"

text \<open>The structural sweep of the diagnostics build: \<open>None\<close> where it finds nothing wrong.\<close>

definition spans_sweep :: "nat \<Rightarrow> nat \<Rightarrow> (bool \<times> nat \<times> nat) option list \<Rightarrow> string option" where
  "spans_sweep arena_len arena8_len sp =
     (case List.map_filter (\<lambda>i. case sp ! i of
          None \<Rightarrow> None
        | Some (packed, start, len) \<Rightarrow>
            if (if packed then arena8_len else arena_len) < start + len
            then Some ''ArrayHeap: data span out of arena bounds''
            else if 0 < len \<and> (\<exists>b\<in>set (drop (i + 1) sp). case b of
                 None \<Rightarrow> False
               | Some (packed', start', len') \<Rightarrow>
                   0 < len' \<and> packed' = packed \<and> start < start' + len' \<and> start' < start + len)
            then Some ''ArrayHeap: overlapping arena spans'' else None) [0..<length sp]
      of [] \<Rightarrow> None | e # _ \<Rightarrow> Some e)"

definition ah_integrity_check :: "array_heap \<Rightarrow> string option" where
  "ah_integrity_check h =
     (if \<not> cs_invariant_holds (arrays h)
      then Some ''ArrayHeap: ChunkedSlots chunk/len invariant broken''
      else if \<exists>s\<in>set (take (first_free h) (cs_iter (arrays h))). s = None
      then Some ''ArrayHeap: free slot below first_free''
      else spans_sweep (length (arena h)) (length (arena8 h))
        (map (\<lambda>s. Option.bind s (\<lambda>a. case arr_data a of
            Arena off len \<Rightarrow> Some (False, unat off, unat len)
          | Arena8 off len \<Rightarrow> Some (True, unat off, unat len)
          | _ \<Rightarrow> None)) (cs_iter (arrays h))))"

end
