(* ===== verification/ArrayHeapLaws.thy ===== *)
theory ArrayHeapLaws
  imports ArrayHeap
begin

text \<open>
  What the array heap promises: its invariant, the abstraction of a heap to the element
  lists of its live arrays, and one law per operation against that abstraction.
\<close>

section \<open>The invariant and the abstraction\<close>

abbreviation slots :: "array_heap \<Rightarrow> jvm_array option list" where
  "slots h \<equiv> cs_iter (arrays h)"

definition elems :: "array_heap \<Rightarrow> array_data \<Rightarrow> i32 list" where
  "elems h d =
     (case d of
        Inline buf len \<Rightarrow> take (unat len) buf
      | Arena off len \<Rightarrow> slice (arena h) (unat off) (unat len)
      | Inline8 buf len \<Rightarrow> map scast (take (unat len) buf)
      | Arena8 off len \<Rightarrow> map scast (slice (arena8 h) (unat off) (unat len)))"

text \<open>The abstract heap: element type and elements of each live array.\<close>

definition ah_abs :: "array_heap \<Rightarrow> nat \<rightharpoonup> u8 \<times> i32 list" where
  "ah_abs h i = map_option (\<lambda>a. (arr_atype a, elems h (arr_data a))) (ah_slot h i)"

definition good_array :: "nat \<Rightarrow> jvm_array \<Rightarrow> bool" where
  "good_array inl a \<longleftrightarrow>
     unat (slots_per_elem (arr_atype a)) dvd unat (data_len (arr_data a)) \<and>
     (case arr_data a of
        Inline buf len \<Rightarrow> \<not> is_packed (arr_atype a) \<and> length buf = inl \<and> unat len \<le> inl
      | Arena off len \<Rightarrow> \<not> is_packed (arr_atype a)
      | Inline8 buf len \<Rightarrow> is_packed (arr_atype a) \<and> length buf = inl * 4 \<and> unat len \<le> inl * 4
      | Arena8 off len \<Rightarrow> is_packed (arr_atype a))"

definition ah_inv :: "nat \<Rightarrow> nat \<Rightarrow> array_heap \<Rightarrow> bool" where
  "ah_inv n32 n8 h \<longleftrightarrow> cs_ok (arrays h) \<and> length (slots h) \<le> REF_TOP \<and>
     (\<forall>a. Some a \<in> set (slots h) \<longrightarrow> good_array (inline_data h) a) \<and>
     spans_ok (spans32 h) n32 \<and> n32 \<le> length (arena h) \<and>
     spans_ok (spans8 h) n8 \<and> n8 \<le> length (arena8 h) \<and>
     length (arena h) \<le> arena_cap h \<and> arena_cap h < 2 ^ 32 \<and>
     length (arena8 h) \<le> arena8_cap h \<and> arena8_cap h < 2 ^ 32 \<and>
     (\<forall>i<first_free h. i < length (slots h) \<longrightarrow> slots h ! i \<noteq> None)"

definition ah_ok :: "array_heap \<Rightarrow> bool" where
  "ah_ok h \<longleftrightarrow> ah_inv (length (arena h)) (length (arena8 h)) h"

text \<open>
  An allocator of a 32-bit address space: it grants no buffer of \<open>2 ^ 32\<close> elements.
\<close>

definition small_allocator :: "allocator \<Rightarrow> bool" where
  "small_allocator al \<longleftrightarrow> (\<forall>k n. al k n \<longrightarrow> n < 2 ^ 32)"

lemma ah_new_ok: "ah_ok (ah_new shift inl)"
  by (simp add: cs_new_ok ah_ok_def ah_inv_def ah_new_def spans_ok_def spans_apart_def spans_within_def
      spans32_def spans8_def)

section \<open>Slots\<close>

lemma ah_slot_eq:
  "cs_ok (arrays h) \<Longrightarrow> ah_slot h i = (if i < length (slots h) then slots h ! i else None)"
  by (simp add: ah_slot_def cs.get_slots split: option.splits)

lemma ah_slot_Some:
  assumes "cs_ok (arrays h)" and "ah_slot h i = Some a"
  shows "i < length (slots h)" "slots h ! i = Some a" "Some a \<in> set (slots h)"
  using assms by (auto simp: ah_slot_eq split: if_splits) (metis nth_mem)

lemma set_data_eq:
  assumes "cs_ok (arrays h)" and "ah_slot h i = Some a"
  shows "\<exists>cs. set_data i d h = h\<lparr>arrays := cs\<rparr> \<and> cs_ok cs \<and>
    cs_iter cs = (slots h)[i := Some (a\<lparr>arr_data := d\<rparr>)]"
  using cs.update_slots [OF assms(1) ah_slot_Some(1) [OF assms], of "Some (a\<lparr>arr_data := d\<rparr>)"]
    assms(2) by (auto simp: set_data_def)

lemma ah_slot_write:
  assumes "cs_ok (arrays h)" and "cs_ok cs" and "cs_iter cs = (slots h)[i := x]"
    and "i < length (slots h)"
  shows "ah_slot (h\<lparr>arrays := cs\<rparr>) j = (if j = i then x else ah_slot h j)"
  using assms by (simp add: ah_slot_eq)

lemma spans_len [simp]: "length (spans32 h) = length (slots h)" "length (spans8 h) = length (slots h)"
  by (simp_all add: spans32_def spans8_def)

lemma spans_nth:
  "i < length (slots h) \<Longrightarrow> spans32 h ! i = Option.bind (slots h ! i) span32"
  "i < length (slots h) \<Longrightarrow> spans8 h ! i = Option.bind (slots h ! i) span8"
  by (simp_all add: spans32_def spans8_def)

lemma span_of_slot:
  assumes "ah_inv n32 n8 h" and "ah_slot h i = Some a"
  shows "arr_data a = Arena off len \<Longrightarrow> 0 < len \<and> unat off + unat len \<le> n32"
    and "arr_data a = Arena8 off len \<Longrightarrow> 0 < len \<and> unat off + unat len \<le> n8"
proof -
  have ok: "cs_ok (arrays h)" "spans_within (spans32 h) n32" "spans_within (spans8 h) n8"
    using assms(1) by (simp_all add: ah_inv_def spans_ok_def)
  note s = ah_slot_Some [OF ok(1) assms(2)]
  show "0 < len \<and> unat off + unat len \<le> n32" if d: "arr_data a = Arena off len"
  proof -
    have "spans32 h ! i = Some (off, len)" using s d by (simp add: spans_nth span32_def)
    then have "Some (off, len) \<in> set (spans32 h)" using s(1) by (metis nth_mem spans_len(1))
    with ok(2) show ?thesis by (simp add: spans_within_def)
  qed
  show "0 < len \<and> unat off + unat len \<le> n8" if d: "arr_data a = Arena8 off len"
  proof -
    have "spans8 h ! i = Some (off, len)" using s d by (simp add: spans_nth span8_def)
    then have "Some (off, len) \<in> set (spans8 h)" using s(1) by (metis nth_mem spans_len(2))
    with ok(3) show ?thesis by (simp add: spans_within_def)
  qed
qed

lemma good_of_slot:
  "ah_inv n32 n8 h \<Longrightarrow> ah_slot h i = Some a \<Longrightarrow> good_array (inline_data h) a"
  using ah_slot_Some(3) by (auto simp: ah_inv_def)

section \<open>Span tables under the heap's updates\<close>

lemma spans_ok_mono: "spans_ok sp n \<Longrightarrow> n \<le> m \<Longrightarrow> m < 2 ^ 32 \<Longrightarrow> spans_ok sp m"
  by (fastforce simp: spans_ok_def spans_within_def)

lemma spans_ok_clear: "spans_ok sp n \<Longrightarrow> spans_ok (sp[i := None]) n"
  by (cases "i < length sp") (auto simp: spans_ok_def spans_within_def spans_apart_def nth_list_update
      dest!: set_update_subset_insert [THEN subsetD])

lemma spans_ok_snoc: "spans_ok sp n \<Longrightarrow> length sp < 2 ^ 16 \<Longrightarrow> spans_ok (sp @ [None]) n"
  by (auto simp: spans_ok_def spans_within_def spans_apart_def nth_append)

lemma spans_ok_fill:
  assumes "spans_ok sp n" and "i < length sp" and "unat off = n" and "0 < len"
    and "n + unat len \<le> m" and "m < 2 ^ 32"
  shows "spans_ok (sp[i := Some (off, len)]) m"
proof -
  have old: "unat o' + unat l' \<le> n" if "j < length sp" "sp ! j = Some (o', l')" for j o' l'
    using that assms(1) nth_mem [of j sp] by (auto simp: spans_ok_def spans_within_def)
  have "spans_within (sp[i := Some (off, len)]) m"
    using assms by (fastforce simp: spans_ok_def spans_within_def
      dest!: set_update_subset_insert [THEN subsetD])
  moreover have "spans_apart (sp[i := Some (off, len)])"
    using assms(1-3) old by (fastforce simp: spans_ok_def spans_apart_def nth_list_update)
  ultimately show ?thesis using assms by (simp add: spans_ok_def)
qed

section \<open>Filling a slot\<close>

text \<open>
  A slot that was free, or one past the last, takes a new array whose span is the fresh end
  of its arena.
\<close>

definition fresh_data :: "array_heap \<Rightarrow> nat \<Rightarrow> nat \<Rightarrow> array_data \<Rightarrow> bool" where
  "fresh_data h n32 n8 d \<longleftrightarrow>
     (case d of
        Arena off len \<Rightarrow> unat off = n32 \<and> 0 < len \<and> n32 + unat len = length (arena h) \<and>
          n8 = length (arena8 h)
      | Arena8 off len \<Rightarrow> unat off = n8 \<and> 0 < len \<and> n8 + unat len = length (arena8 h) \<and>
          n32 = length (arena h)
      | _ \<Rightarrow> n32 = length (arena h) \<and> n8 = length (arena8 h))"

lemma ah_inv_len: "ah_inv n32 n8 h \<Longrightarrow> length (arena h) < 2 ^ 32 \<and> length (arena8 h) < 2 ^ 32"
  by (simp add: ah_inv_def)

lemma fill_slot:
  assumes inv: "ah_inv n32 n8 h" and fresh: "fresh_data h n32 n8 (arr_data a)"
    and good: "good_array (inline_data h) a"
    and cs: "cs_ok cs" "length (cs_iter cs) \<le> REF_TOP"
    and it: "cs_iter cs = (slots h)[i := Some a] \<and> i < length (slots h) \<and> slots h ! i = None \<or>
      cs_iter cs = slots h @ [Some a] \<and> i = length (slots h)"
    and ff: "\<forall>j<ff. j < length (cs_iter cs) \<longrightarrow> cs_iter cs ! j \<noteq> None"
  shows "ah_ok (h\<lparr>arrays := cs, first_free := ff\<rparr>)"
proof -
  let ?h = "h\<lparr>arrays := cs, first_free := ff\<rparr>" and ?n = "slots h @ [None]"
  let ?base = "\<lambda>sp. if i < length (slots h) then sp else sp @ [None]"
  have it': "cs_iter cs = (?base (slots h))[i := Some a]" "i < length (?base (slots h))"
    using it by auto
  have sp32: "spans32 ?h = (?base (spans32 h))[i := span32 a]"
    and sp8: "spans8 ?h = (?base (spans8 h))[i := span8 a]"
    using it by (auto simp: spans32_def spans8_def map_update list_update_append)
  have "spans_ok (spans32 h) n32" "spans_ok (spans8 h) n8" using inv by (simp_all add: ah_inv_def)
  moreover have "length (slots h) < 2 ^ 16" if "\<not> i < length (slots h)"
    using that it cs(2) by (auto simp: REF_TOP_def)
  ultimately have base: "spans_ok (?base (spans32 h)) n32" "spans_ok (?base (spans8 h)) n8"
    by (auto intro: spans_ok_snoc)
  have i: "i < length (?base (spans32 h))" "i < length (?base (spans8 h))"
    using it by auto
  note len = ah_inv_len [OF inv]
  have le: "n32 \<le> length (arena h)" "n8 \<le> length (arena8 h)" using inv by (simp_all add: ah_inv_def)
  have "spans_ok (spans32 ?h) (length (arena h)) \<and> spans_ok (spans8 ?h) (length (arena8 h))"
    unfolding sp32 sp8
  proof (cases "arr_data a")
    case (Arena off l)
    then show "spans_ok ((?base (spans32 h))[i := span32 a]) (length (arena h)) \<and>
        spans_ok ((?base (spans8 h))[i := span8 a]) (length (arena8 h))"
      using fresh spans_ok_fill [OF base(1) i(1), of off l "length (arena h)"]
        spans_ok_mono [OF spans_ok_clear [OF base(2)] le(2), of i] len
      by (simp add: fresh_data_def span32_def span8_def)
  next
    case (Arena8 off l)
    then show "spans_ok ((?base (spans32 h))[i := span32 a]) (length (arena h)) \<and>
        spans_ok ((?base (spans8 h))[i := span8 a]) (length (arena8 h))"
      using fresh spans_ok_fill [OF base(2) i(2), of off l "length (arena8 h)"]
        spans_ok_mono [OF spans_ok_clear [OF base(1)] le(1), of i] len
      by (simp add: fresh_data_def span32_def span8_def)
  qed (use spans_ok_mono [OF spans_ok_clear [OF base(1)] le(1), of i]
        spans_ok_mono [OF spans_ok_clear [OF base(2)] le(2), of i] len
       in \<open>simp_all add: span32_def span8_def\<close>)
  moreover have "\<forall>b. Some b \<in> set (cs_iter cs) \<longrightarrow> good_array (inline_data h) b"
    using inv good it by (auto simp: ah_inv_def dest!: set_update_subset_insert [THEN subsetD])
  ultimately show ?thesis
    using inv cs ff by (simp add: ah_ok_def ah_inv_def)
qed

lemma slice_cong:
  assumes "off + n \<le> m" and "take m xs = take m ys"
  shows "slice xs off n = slice ys off n"
proof -
  have "slice (take m xs) off n = slice (take m ys) off n" using assms(2) by simp
  moreover have "n \<le> m - off" using assms(1) by simp
  ultimately show ?thesis by (simp add: slice_def drop_take)
qed

lemma elems_cong:
  assumes "ah_inv n32 n8 h" and "ah_slot h i = Some a"
    and "take n32 (arena h') = take n32 (arena h)" and "take n8 (arena8 h') = take n8 (arena8 h)"
  shows "elems h' (arr_data a) = elems h (arr_data a)"
  using span_of_slot [OF assms(1,2)] assms(3,4)
  by (cases "arr_data a") (auto simp: elems_def intro: slice_cong arg_cong [of _ _ "map scast"])

section \<open>Allocation\<close>

lemma scan_free_le: "i \<le> scan_free cs i"
  by (induction cs i rule: scan_free.induct) (subst scan_free.simps, auto)

lemma scan_free_step:
  "cs_ok cs \<Longrightarrow> scan_free cs i =
     (if i < cs_len cs \<and> cs_iter cs ! i \<noteq> None then scan_free cs (i + 1) else i)"
  by (subst scan_free.simps) (auto simp: cs_get_iter split: option.splits)

lemma scan_free_None:
  "cs_ok cs \<Longrightarrow> scan_free cs i < cs_len cs \<Longrightarrow> cs_iter cs ! scan_free cs i = None"
proof (induction cs i rule: scan_free.induct)
  case (1 cs i)
  show ?case
  proof (cases "i < cs_len cs \<and> cs_iter cs ! i \<noteq> None")
    case True
    with 1 show ?thesis by (auto simp: scan_free_step [of cs i] cs_get_iter split: option.splits)
  qed (use 1 in \<open>auto simp: scan_free_step [of cs i]\<close>)
qed

lemma scan_free_Some:
  "cs_ok cs \<Longrightarrow> i \<le> j \<Longrightarrow> j < scan_free cs i \<Longrightarrow> cs_iter cs ! j \<noteq> None"
proof (induction cs i rule: scan_free.induct)
  case (1 cs i)
  show ?case
  proof (cases "i < cs_len cs \<and> cs_iter cs ! i \<noteq> None")
    case True
    with 1 show ?thesis
      by (cases "j = i") (auto simp: scan_free_step [of cs i] cs_get_iter split: option.splits)
  qed (use 1 in \<open>auto simp: scan_free_step [of cs i]\<close>)
qed

text \<open>What the payload reservation leaves.\<close>

definition new_elems :: "u8 \<Rightarrow> u16 \<Rightarrow> i32 list" where
  "new_elems t n = replicate (unat n * unat (slots_per_elem t)) 0"

definition reserved :: "array_heap \<Rightarrow> u8 \<Rightarrow> u16 \<Rightarrow> array_data \<Rightarrow> rollback option \<Rightarrow> array_heap \<Rightarrow> bool"
  where
  "reserved h t n d rb h' \<longleftrightarrow>
     arrays h' = arrays h \<and> first_free h' = first_free h \<and> inline_data h' = inline_data h \<and>
     (\<exists>x. arena h' = arena h @ x) \<and> (\<exists>y. arena8 h' = arena8 h @ y) \<and>
     ah_inv (length (arena h)) (length (arena8 h)) h' \<and>
     fresh_data h' (length (arena h)) (length (arena8 h)) d \<and>
     good_array (inline_data h) \<lparr>arr_atype = t, arr_data = d\<rparr> \<and>
     elems h' d = new_elems t n \<and>
     arena (roll_back rb h') = arena h \<and> arena8 (roll_back rb h') = arena8 h"

lemma small_reserve:
  assumes "small_allocator al" and "vec_reserve_exact (al k) cap len extra = Some c"
    and "len \<le> cap" and "cap < 2 ^ 32"
  shows "len + extra \<le> c \<and> c < 2 ^ 32"
  using assms vec_reserve_exact_room [OF assms(2,3)]
  by (auto simp: vec_reserve_exact_def small_allocator_def split: if_splits)

lemma slice_append_end: "slice (xs @ ys) (length xs) (length ys) = ys"
  by (simp add: slice_def)

lemma unat_ucast16: "unat (ucast a :: u32) = unat (a :: u16)"
  using unsigned_less [of a, where ?'a = nat] by (simp add: unsigned_ucast_eq take_bit_nat_eq_self)

lemma phys_len:
  fixes n m :: u16
  assumes "checked_mul (ucast n :: u32) (ucast m) = Some p" and "\<not> 0xFFFF < p"
  shows "unat (ucast p :: u16) = unat n * unat m"
proof -
  have "unat p = unat n * unat m"
    using checked_mul_Some [OF assms(1)] by (simp add: unat_ucast16)
  moreover have "unat p < 2 ^ 16" using assms(2) by (simp add: word_less_nat_alt)
  ultimately show ?thesis by (simp add: unsigned_ucast_eq take_bit_nat_eq_self)
qed

lemma spans_fields [simp]:
  "spans32 (h\<lparr>arena := a\<rparr>) = spans32 h" "spans8 (h\<lparr>arena := a\<rparr>) = spans8 h"
  "spans32 (h\<lparr>arena8 := b\<rparr>) = spans32 h" "spans8 (h\<lparr>arena8 := b\<rparr>) = spans8 h"
  "spans32 (h\<lparr>arena_cap := c\<rparr>) = spans32 h" "spans8 (h\<lparr>arena_cap := c\<rparr>) = spans8 h"
  "spans32 (h\<lparr>arena8_cap := c\<rparr>) = spans32 h" "spans8 (h\<lparr>arena8_cap := c\<rparr>) = spans8 h"
  "spans32 (h\<lparr>first_free := f\<rparr>) = spans32 h" "spans8 (h\<lparr>first_free := f\<rparr>) = spans8 h"
  "spans32 (h\<lparr>alloc_events := v\<rparr>) = spans32 h" "spans8 (h\<lparr>alloc_events := v\<rparr>) = spans8 h"
  by (simp_all add: spans32_def spans8_def)

lemma ah_ok_arenas:
  "ah_ok h \<Longrightarrow> length (arena h) + k \<le> c \<Longrightarrow> c < 2 ^ 32 \<Longrightarrow>
     ah_inv (length (arena h)) (length (arena8 h))
       (h\<lparr>arena := arena h @ replicate k 0, arena_cap := c\<rparr>)"
  "ah_ok h \<Longrightarrow> length (arena8 h) + k \<le> c \<Longrightarrow> c < 2 ^ 32 \<Longrightarrow>
     ah_inv (length (arena h)) (length (arena8 h))
       (h\<lparr>arena8 := arena8 h @ replicate k 0, arena8_cap := c\<rparr>)"
  by (auto simp: ah_ok_def ah_inv_def)

lemma packed_one_slot: "is_packed t \<Longrightarrow> slots_per_elem t = 1"
  by (auto simp: is_packed_def slots_per_elem_def atype_defs)

lemma reserved_self:
  assumes "ah_ok h" and "fresh_data h (length (arena h)) (length (arena8 h)) d"
    and "good_array (inline_data h) \<lparr>arr_atype = t, arr_data = d\<rparr>" and "elems h d = new_elems t n"
  shows "reserved h t n d None h"
  using assms by (simp add: reserved_def roll_back_def ah_ok_def)

lemma reserve_None: "reserve_data al t n h = (None, h') \<Longrightarrow> h' = h"
  by (auto simp: reserve_data_def Let_def split: if_splits option.splits)

lemma reserve_packed:
  assumes ok: "ah_ok h" and "small_allocator al" and t: "is_packed t"
    and r: "reserve_data al t n h = (Some (d, rb), h')"
  shows "reserved h t n d rb h'"
proof (cases "unat n \<le> INLINE8 h")
  case True
  with r t have "d = Inline8 (replicate (INLINE8 h) 0) n" "rb = None" "h' = h"
    by (auto simp: reserve_data_def)
  with True t show ?thesis
    by (auto intro!: reserved_self [OF ok] simp: fresh_data_def good_array_def elems_def new_elems_def
        packed_one_slot INLINE8_def min_def data_len_def)
next
  case False
  let ?o = "length (arena8 h)"
  have inv: "ah_inv (length (arena h)) ?o h" using ok by (simp add: ah_ok_def)
  from r t False obtain c where c:
    "vec_reserve_exact (al U8Buf) (arena8_cap h) ?o (unat n) = Some c"
    and d: "d = Arena8 (of_nat ?o) n" "rb = Some (RbArena8 ?o)"
    and h': "h' = h\<lparr>arena8 := arena8 h @ replicate (unat n) 0, arena8_cap := c\<rparr>"
    by (auto simp: reserve_data_def resize_grow split: option.splits)
  have room: "?o + unat n \<le> c \<and> c < 2 ^ 32"
    using small_reserve [OF assms(2) c] inv by (simp add: ah_inv_def)
  then have off: "unat (of_nat ?o :: u32) = ?o" by (intro unat_of_nat32) simp
  have "0 < unat n" using False by simp
  then have "0 < n" by (simp add: word_less_nat_alt)
  moreover have "slice (arena8 h @ replicate (unat n) 0) ?o (unat n) = replicate (unat n) 0"
    using slice_append_end [of "arena8 h" "replicate (unat n) 0"] by simp
  moreover have "ah_inv (length (arena h)) ?o h'"
    unfolding h' using ah_ok_arenas(2) [OF ok] room by blast
  ultimately show ?thesis
    using t off by (auto simp: reserved_def h' d fresh_data_def good_array_def elems_def
        new_elems_def packed_one_slot roll_back_def data_len_def)
qed

lemma reserve_unpacked:
  assumes ok: "ah_ok h" and "small_allocator al" and t: "\<not> is_packed t"
    and r: "reserve_data al t n h = (Some (d, rb), h')"
  shows "reserved h t n d rb h'"
proof -
  let ?o = "length (arena h)"
  have inv: "ah_inv ?o (length (arena8 h)) h" using ok by (simp add: ah_ok_def)
  obtain p where p: "checked_mul (ucast n :: u32) (ucast (slots_per_elem t)) = Some p" "\<not> 0xFFFF < p"
    using r t by (auto simp: reserve_data_def split: option.splits if_splits)
  let ?l = "ucast p :: u16"
  have l: "unat ?l = unat n * unat (slots_per_elem t)" by (rule phys_len [OF p])
  show ?thesis
  proof (cases "unat ?l \<le> inline_data h")
    case True
    with r t p have "d = Inline (replicate (inline_data h) 0) ?l" "rb = None" "h' = h"
      by (auto simp: reserve_data_def Let_def)
    with True t l show ?thesis
      by (auto intro!: reserved_self [OF ok] simp: fresh_data_def good_array_def elems_def
          new_elems_def min_def data_len_def)
  next
    case False
    from r t p False obtain c where c:
      "vec_reserve_exact (al I32Buf) (arena_cap h) ?o (unat ?l) = Some c"
      and d: "d = Arena (of_nat ?o) ?l" "rb = Some (RbArena ?o)"
      and h': "h' = h\<lparr>arena := arena h @ replicate (unat ?l) 0, arena_cap := c\<rparr>"
      by (auto simp: reserve_data_def resize_grow Let_def split: option.splits)
    have room: "?o + unat ?l \<le> c \<and> c < 2 ^ 32"
      using small_reserve [OF assms(2) c] inv by (simp add: ah_inv_def)
    then have off: "unat (of_nat ?o :: u32) = ?o" by (intro unat_of_nat32) simp
    have "0 < unat ?l" using False by simp
    then have "0 < ?l" by (simp add: word_less_nat_alt)
    moreover have "slice (arena h @ replicate (unat ?l) 0) ?o (unat ?l) = replicate (unat ?l) 0"
      using slice_append_end [of "arena h" "replicate (unat ?l) 0"] by simp
    moreover have "ah_inv ?o (length (arena8 h)) h'"
      unfolding h' using ah_ok_arenas(1) [OF ok] room by blast
    ultimately show ?thesis
      using t off l by (auto simp: reserved_def h' d fresh_data_def good_array_def elems_def
          new_elems_def roll_back_def data_len_def)
  qed
qed

lemma reserve_Some:
  "ah_ok h \<Longrightarrow> small_allocator al \<Longrightarrow> reserve_data al t n h = (Some (d, rb), h') \<Longrightarrow>
     reserved h t n d rb h'"
  using reserve_packed reserve_unpacked by blast

lemma roll_back_fields [simp]:
  "arrays (roll_back rb h) = arrays h" "inline_data (roll_back rb h) = inline_data h"
  "first_free (roll_back rb h) = first_free h" "arena_cap (roll_back rb h) = arena_cap h"
  "arena8_cap (roll_back rb h) = arena8_cap h"
  by (auto simp: roll_back_def split: option.splits rollback.splits)

lemma roll_back_update:
  "arena (roll_back rb (h\<lparr>first_free := f, arrays := cs\<rparr>)) = arena (roll_back rb h)"
  "arena8 (roll_back rb (h\<lparr>first_free := f, arrays := cs\<rparr>)) = arena8 (roll_back rb h)"
  by (auto simp: roll_back_def split: option.splits rollback.splits)

lemma spans_cong: "arrays h' = arrays h \<Longrightarrow> spans32 h' = spans32 h \<and> spans8 h' = spans8 h"
  by (simp add: spans32_def spans8_def)

lemma occupied_below_scan:
  assumes "ah_inv n32 n8 h"
  shows "\<forall>i < scan_free (arrays h) (first_free h). i < length (slots h) \<longrightarrow> slots h ! i \<noteq> None"
proof (intro allI impI)
  fix i assume i: "i < scan_free (arrays h) (first_free h)" "i < length (slots h)"
  have inv: "cs_ok (arrays h)" "\<forall>i<first_free h. i < length (slots h) \<longrightarrow> slots h ! i \<noteq> None"
    using assms by (simp_all add: ah_inv_def)
  show "slots h ! i \<noteq> None"
    using inv i scan_free_Some [OF inv(1) _ i(1)] by (cases "i < first_free h") auto
qed

lemma rolled_back_ok:
  assumes r: "reserved h0 t n d rb h" and ok: "ah_ok h0"
    and h': "h' = roll_back rb (h\<lparr>first_free := scan_free (arrays h) (first_free h), arrays := arrays h\<rparr>)"
  shows "ah_ok h' \<and> ah_abs h' = ah_abs h0"
proof -
  have inv: "ah_inv (length (arena h0)) (length (arena8 h0)) h" using r by (simp add: reserved_def)
  have eq: "arena h' = arena h0" "arena8 h' = arena8 h0" "arrays h' = arrays h0" "arrays h = arrays h0"
    using r by (simp_all add: reserved_def h' roll_back_update)
  have f: "first_free h' = scan_free (arrays h) (first_free h)" "inline_data h' = inline_data h"
    "arena_cap h' = arena_cap h" "arena8_cap h' = arena8_cap h"
    by (simp_all add: h')
  have "spans32 h' = spans32 h" "spans8 h' = spans8 h"
    using spans_cong [of h' h] eq by simp_all
  then have "ah_ok h'"
    using inv occupied_below_scan [OF inv] unfolding ah_ok_def ah_inv_def f eq by simp
  moreover have "ah_slot h' = ah_slot h0" by (simp add: ah_slot_def eq fun_eq_iff)
  then have "ah_abs h' = ah_abs h0"
    by (auto simp: ah_abs_def fun_eq_iff elems_def eq split: array_data.splits option.splits
        intro!: option.map_cong)
  ultimately show ?thesis by simp
qed

lemma filled_abs:
  assumes r: "reserved h0 t n d rb h" and ok: "ah_ok h0"
    and h': "arena h' = arena h" "arena8 h' = arena8 h"
    and slots: "\<And>j. ah_slot h' j = (if j = i then Some \<lparr>arr_atype = t, arr_data = d\<rparr> else ah_slot h0 j)"
  shows "ah_abs h' = (ah_abs h0)(i \<mapsto> (t, new_elems t n))"
proof
  fix j
  have inv: "ah_inv (length (arena h0)) (length (arena8 h0)) h0" using ok by (simp add: ah_ok_def)
  have "elems h' d = new_elems t n"
    using r h' by (auto simp: reserved_def elems_def split: array_data.splits)
  moreover have "elems h' (arr_data a) = elems h0 (arr_data a)" if "ah_slot h0 j = Some a" for a
    using r h' by (intro elems_cong [OF inv that]) (auto simp: reserved_def)
  ultimately show "ah_abs h' j = ((ah_abs h0)(i \<mapsto> (t, new_elems t n))) j"
    by (cases "ah_slot h0 j") (auto simp: ah_abs_def slots)
qed

lemma place_ok:
  assumes r: "reserved h0 t n d rb h" and ok: "ah_ok h0"
  shows "case place_array al \<lparr>arr_atype = t, arr_data = d\<rparr> rb h of
      (Inl e, h') \<Rightarrow> False
    | (Inr None, h') \<Rightarrow> ah_ok h' \<and> ah_abs h' = ah_abs h0
    | (Inr (Some i), h') \<Rightarrow> ah_ok h' \<and> ah_abs h0 (unat i) = None \<and>
        ah_abs h' = (ah_abs h0)(unat i \<mapsto> (t, new_elems t n))"
proof -
  let ?a = "\<lparr>arr_atype = t, arr_data = d\<rparr>"
  let ?ff = "scan_free (arrays h) (first_free h)"
  have inv: "ah_inv (length (arena h0)) (length (arena8 h0)) h"
    and fresh: "fresh_data h (length (arena h0)) (length (arena8 h0)) d"
    and good: "good_array (inline_data h) ?a" and arr: "arrays h = arrays h0"
    using r by (simp_all add: reserved_def)
  have cs: "cs_ok (arrays h)" and len: "cs_len (arrays h) = length (slots h)"
    and top: "length (slots h) \<le> REF_TOP"
  proof -
    show "cs_ok (arrays h)" "length (slots h) \<le> REF_TOP" using inv by (simp_all add: ah_inv_def)
    then show "cs_len (arrays h) = length (slots h)" by (simp add: cs_len_iter)
  qed
  have idx: "unat (of_nat i :: u16) = i" if "i \<le> REF_TOP" for i
    using that by (simp add: REF_TOP_def unsigned_of_nat take_bit_nat_eq_self)
  note below = occupied_below_scan [OF inv]
  show ?thesis
  proof (cases "?ff < cs_len (arrays h)")
    case True
    then have i: "?ff < length (slots h)" "slots h ! ?ff = None"
      using scan_free_None [OF cs] len by simp_all
    obtain cs' where cs': "cs_update (arrays h) ?ff (Some ?a) = Some cs'" "cs_ok cs'"
      "cs_iter cs' = (slots h)[?ff := Some ?a]"
      using cs.update_slots [OF cs i(1)] by blast
    let ?h = "h\<lparr>arrays := cs', first_free := ?ff + 1\<rparr>"
    have "ah_ok ?h"
      using fill_slot [OF inv, of ?a cs' ?ff "?ff + 1"] fresh good cs' i top below
      by (auto simp: less_Suc_eq nth_list_update)
    moreover have "ah_slot ?h j = (if j = ?ff then Some ?a else ah_slot h0 j)" for j
      using ah_slot_write [OF cs cs'(2,3) i(1), of j] arr by (simp add: ah_slot_def)
    then have "ah_abs ?h = (ah_abs h0)(?ff \<mapsto> (t, new_elems t n))"
      by (intro filled_abs [OF r ok]) simp_all
    moreover have "ah_abs h0 ?ff = None"
      using i ah_slot_eq [of h0 ?ff] cs arr by (simp add: ah_abs_def)
    ultimately show ?thesis
      using True cs'(1) idx [of ?ff] i(1) top by (simp add: place_array_def Let_def)
  next
    case full: False
    show ?thesis
    proof (cases "REF_TOP \<le> cs_len (arrays h)")
      case True
      then show ?thesis
        using full rolled_back_ok [OF r ok refl] by (simp add: place_array_def Let_def)
    next
      case False
      show ?thesis
      proof (cases "cs_try_push (al ChunkBuf) (Some ?a) (arrays h)")
        case (Pair res cs')
        show ?thesis
        proof (cases res)
          case None
          with Pair have "cs' = arrays h" using cs_try_push_None by fastforce
          with Pair None full False rolled_back_ok [OF r ok refl] show ?thesis
            by (simp add: place_array_def Let_def)
        next
          case (Some m)
          with Pair have push: "cs_try_push (al ChunkBuf) (Some ?a) (arrays h) = (Some m, cs')" by simp
          note p = cs.append_slots [OF cs push]
          let ?i = "length (slots h)"
          have cl: "cs_len cs' = ?i + 1" using p cs_len_iter [of cs'] by simp
          let ?h = "h\<lparr>arrays := cs', first_free := cs_len cs'\<rparr>"
          have "\<forall>j<?i. slots h ! j \<noteq> None"
            using full below len by auto
          then have "ah_ok ?h"
            using fill_slot [OF inv, of ?a cs' ?i "cs_len cs'"] fresh good p False len cl
            by (auto simp: nth_append less_Suc_eq)
          moreover have "ah_slot ?h j = (if j = ?i then Some ?a else ah_slot h0 j)" for j
            using p cs arr by (auto simp: ah_slot_eq nth_append)
          then have "ah_abs ?h = (ah_abs h0)(?i \<mapsto> (t, new_elems t n))"
            by (intro filled_abs [OF r ok]) simp_all
          moreover have "ah_abs h0 ?i = None"
            using ah_slot_eq [of h0 ?i] cs arr by (simp add: ah_abs_def)
          ultimately show ?thesis
            using full False push len idx [of ?i] top by (simp add: place_array_def Let_def)
        qed
      qed
    qed
  qed
qed

section \<open>Reading and writing elements\<close>

lemma ah_ok_inv: "ah_ok h \<Longrightarrow> ah_inv (length (arena h)) (length (arena8 h)) h"
  by (simp add: ah_ok_def)

lemma ah_ok_cs: "ah_ok h \<Longrightarrow> cs_ok (arrays h)"
  by (simp add: ah_ok_def ah_inv_def)

text \<open>Where the payload of a live array is, and that it is all there.\<close>

lemma payload_in:
  assumes "ah_ok h" and "ah_slot h i = Some a"
  shows "case arr_data a of
      Inline buf len \<Rightarrow> unat len \<le> length buf
    | Arena off len \<Rightarrow> unat off + unat len \<le> length (arena h)
    | Inline8 buf len \<Rightarrow> unat len \<le> length buf
    | Arena8 off len \<Rightarrow> unat off + unat len \<le> length (arena8 h)"
  using good_of_slot [OF ah_ok_inv [OF assms(1)] assms(2)]
    span_of_slot [OF ah_ok_inv [OF assms(1)] assms(2)]
  by (auto simp: good_array_def split: array_data.splits)

lemma length_elems:
  assumes "ah_ok h" and "ah_slot h i = Some a"
  shows "length (elems h (arr_data a)) = unat (data_len (arr_data a))"
  using payload_in [OF assms] by (auto simp: elems_def data_len_def slice_def split: array_data.splits)

lemma load_law:
  assumes "ah_ok h"
  shows "ah_load idx e h =
    (Inr (case ah_abs h (unat idx) of
            None \<Rightarrow> None | Some (t, xs) \<Rightarrow> if e < length xs then Some (xs ! e) else None), h)"
proof (cases "ah_slot h (unat idx)")
  case None
  then show ?thesis by (simp add: ah_load_def ah_abs_def)
next
  case (Some a)
  then show ?thesis
    using payload_in [OF assms Some] length_elems [OF assms Some]
    by (cases "arr_data a")
      (auto simp: ah_load_def ah_abs_def data_len_def elems_def index_def slice_def action_simps)
qed

text \<open>The value an element slot keeps: a packed one its low byte, sign-extended.\<close>

definition stored :: "u8 \<Rightarrow> i32 \<Rightarrow> i32" where
  "stored t v = (if is_packed t then scast (ucast v :: u8) else v)"

lemma set_data_inline:
  assumes ok: "ah_ok h" and a: "ah_slot h i = Some a"
    and good: "good_array (inline_data h) (a\<lparr>arr_data := d\<rparr>)"
    and spans: "span32 (a\<lparr>arr_data := d\<rparr>) = span32 a" "span8 (a\<lparr>arr_data := d\<rparr>) = span8 a"
  shows "ah_ok (set_data i d h) \<and> ah_abs (set_data i d h) = (ah_abs h)(i \<mapsto> (arr_atype a, elems h d))"
proof -
  have cs: "cs_ok (arrays h)" using ok by (rule ah_ok_cs)
  note s = ah_slot_Some [OF cs a]
  obtain cs' where cs': "set_data i d h = h\<lparr>arrays := cs'\<rparr>" "cs_ok cs'"
    "cs_iter cs' = (slots h)[i := Some (a\<lparr>arr_data := d\<rparr>)]"
    using set_data_eq [OF cs a] by blast
  let ?h = "h\<lparr>arrays := cs'\<rparr>"
  have "spans32 ?h = spans32 h" "spans8 ?h = spans8 h"
    using s spans by (auto simp: spans32_def spans8_def cs'(3) map_update list_update_same_conv)
  moreover have "\<forall>b. Some b \<in> set (slots ?h) \<longrightarrow> good_array (inline_data h) b"
    using ok good cs'(3)
    by (auto simp: ah_ok_def ah_inv_def dest!: set_update_subset_insert [THEN subsetD])
  moreover have "\<forall>j<first_free h. j < length (slots ?h) \<longrightarrow> slots ?h ! j \<noteq> None"
    using ok cs'(3) s(1) by (auto simp: ah_ok_def ah_inv_def nth_list_update)
  ultimately have "ah_ok ?h" using ok cs' by (simp add: ah_ok_def ah_inv_def)
  moreover have "ah_slot ?h j = (if j = i then Some (a\<lparr>arr_data := d\<rparr>) else ah_slot h j)" for j
    using ah_slot_write [OF cs cs'(2,3) s(1)] by simp
  then have "ah_abs ?h = (ah_abs h)(i \<mapsto> (arr_atype a, elems h d))"
    by (auto simp: ah_abs_def fun_eq_iff elems_def split: array_data.splits intro!: option.map_cong)
  ultimately show ?thesis by (simp add: cs'(1))
qed

lemma slice_update_in:
  "e < n \<Longrightarrow> off + n \<le> length xs \<Longrightarrow> slice (xs[off + e := v]) off n = (slice xs off n)[e := v]"
  by (rule nth_equalityI) (auto simp: slice_def nth_list_update)

lemma slice_update_out:
  "k < off \<or> off + n \<le> k \<Longrightarrow> off + n \<le> length xs \<Longrightarrow> slice (xs[k := v]) off n = slice xs off n"
  by (rule nth_equalityI) (auto simp: slice_def nth_list_update)

lemma other_spans:
  assumes ok: "ah_ok h" and a: "ah_slot h i = Some a" and b: "ah_slot h j = Some b" and ij: "i \<noteq> j"
  shows "arr_data a = Arena off len \<Longrightarrow> arr_data b = Arena off' len' \<Longrightarrow>
      unat off + unat len \<le> unat off' \<or> unat off' + unat len' \<le> unat off"
    and "arr_data a = Arena8 off len \<Longrightarrow> arr_data b = Arena8 off' len' \<Longrightarrow>
      unat off + unat len \<le> unat off' \<or> unat off' + unat len' \<le> unat off"
proof -
  note s = ah_slot_Some [OF ah_ok_cs [OF ok] a] ah_slot_Some [OF ah_ok_cs [OF ok] b]
  have "spans_apart (spans32 h)" "spans_apart (spans8 h)"
    using ok by (simp_all add: ah_ok_def ah_inv_def spans_ok_def)
  note ap = this [unfolded spans_apart_def, rule_format, of i j]
  show "arr_data a = Arena off len \<Longrightarrow> arr_data b = Arena off' len' \<Longrightarrow>
      unat off + unat len \<le> unat off' \<or> unat off' + unat len' \<le> unat off"
    using ap(1) s ij by (simp add: spans_nth span32_def)
  show "arr_data a = Arena8 off len \<Longrightarrow> arr_data b = Arena8 off' len' \<Longrightarrow>
      unat off + unat len \<le> unat off' \<or> unat off' + unat len' \<le> unat off"
    using ap(2) s ij by (simp add: spans_nth span8_def)
qed

lemma ah_ok_arena_update:
  "ah_ok h \<Longrightarrow> ah_ok (h\<lparr>arena := (arena h)[k := v]\<rparr>)"
  "ah_ok h \<Longrightarrow> ah_ok (h\<lparr>arena8 := (arena8 h)[k := w]\<rparr>)"
  by (simp_all add: ah_ok_def ah_inv_def)

lemma ah_slot_arenas [simp]:
  "ah_slot (h\<lparr>arena := x\<rparr>) = ah_slot h" "ah_slot (h\<lparr>arena8 := y\<rparr>) = ah_slot h"
  by (simp_all add: ah_slot_def fun_eq_iff)

lemma arena_store_abs:
  assumes ok: "ah_ok h" and a: "ah_slot h i = Some a"
  shows "arr_data a = Arena off len \<Longrightarrow> e < unat len \<Longrightarrow>
      ah_abs (h\<lparr>arena := (arena h)[unat off + e := v]\<rparr>) =
        (ah_abs h)(i \<mapsto> (arr_atype a, (elems h (arr_data a))[e := v]))"
    and "arr_data a = Arena8 off len \<Longrightarrow> e < unat len \<Longrightarrow>
      ah_abs (h\<lparr>arena8 := (arena8 h)[unat off + e := w]\<rparr>) =
        (ah_abs h)(i \<mapsto> (arr_atype a, (elems h (arr_data a))[e := scast w]))"
proof -
  have inj: "ah_abs h' = (ah_abs h)(i \<mapsto> (arr_atype a, xs))"
    if "ah_slot h' = ah_slot h" "elems h' (arr_data a) = xs"
      "\<And>j b. j \<noteq> i \<Longrightarrow> ah_slot h j = Some b \<Longrightarrow> elems h' (arr_data b) = elems h (arr_data b)" for h' xs
    using that a by (auto simp: ah_abs_def fun_eq_iff intro!: option.map_cong)
  show "ah_abs (h\<lparr>arena := (arena h)[unat off + e := v]\<rparr>) =
      (ah_abs h)(i \<mapsto> (arr_atype a, (elems h (arr_data a))[e := v]))"
    if d: "arr_data a = Arena off len" "e < unat len"
  proof (rule inj)
    show "elems (h\<lparr>arena := (arena h)[unat off + e := v]\<rparr>) (arr_data a) = (elems h (arr_data a))[e := v]"
      using payload_in [OF ok a] d by (simp add: elems_def slice_update_in)
    fix j b assume b: "j \<noteq> i" "ah_slot h j = Some b"
    then show "elems (h\<lparr>arena := (arena h)[unat off + e := v]\<rparr>) (arr_data b) = elems h (arr_data b)"
      using other_spans(1) [OF ok a b(2) b(1) [symmetric] d(1)] payload_in [OF ok b(2)] d(2)
      by (cases "arr_data b") (auto simp: elems_def intro!: slice_update_out)
  qed simp
  show "ah_abs (h\<lparr>arena8 := (arena8 h)[unat off + e := w]\<rparr>) =
      (ah_abs h)(i \<mapsto> (arr_atype a, (elems h (arr_data a))[e := scast w]))"
    if d: "arr_data a = Arena8 off len" "e < unat len"
  proof (rule inj)
    show "elems (h\<lparr>arena8 := (arena8 h)[unat off + e := w]\<rparr>) (arr_data a) =
        (elems h (arr_data a))[e := scast w]"
      using payload_in [OF ok a] d by (simp add: elems_def slice_update_in map_update)
    fix j b assume b: "j \<noteq> i" "ah_slot h j = Some b"
    then show "elems (h\<lparr>arena8 := (arena8 h)[unat off + e := w]\<rparr>) (arr_data b) = elems h (arr_data b)"
      using other_spans(2) [OF ok a b(2) b(1) [symmetric] d(1)] payload_in [OF ok b(2)] d(2)
      by (cases "arr_data b") (auto simp: elems_def intro!: slice_update_out arg_cong [of _ _ "map scast"])
  qed simp
qed

text \<open>The abstract store.\<close>

definition abs_store :: "(nat \<rightharpoonup> u8 \<times> i32 list) \<Rightarrow> nat \<Rightarrow> nat \<Rightarrow> i32 \<Rightarrow> (nat \<rightharpoonup> u8 \<times> i32 list) option" where
  "abs_store m i e v =
     (case m i of
        None \<Rightarrow> None
      | Some (t, xs) \<Rightarrow> if e < length xs then Some (m(i \<mapsto> (t, xs[e := stored t v]))) else None)"

lemma store_law:
  assumes ok: "ah_ok h"
  shows "case abs_store (ah_abs h) (unat idx) e v of
      None \<Rightarrow> ah_store idx e v h = (Inr None, h)
    | Some m \<Rightarrow> \<exists>h'. ah_store idx e v h = (Inr (Some ()), h') \<and> ah_ok h' \<and> ah_abs h' = m \<and>
        alloc_events h' = alloc_events h"
proof (cases "ah_slot h (unat idx)")
  case None
  then show ?thesis by (simp add: ah_store_def abs_store_def ah_abs_def)
next
  case (Some a)
  note in_range = payload_in [OF ok Some] and len = length_elems [OF ok Some]
  note good = good_of_slot [OF ah_ok_inv [OF ok] Some]
  note inl = set_data_inline [OF ok Some]
  have ev: "alloc_events (set_data i d h) = alloc_events h" for i d
    by (simp add: set_data_def split: option.splits)
  show ?thesis
  proof (cases "e < unat (data_len (arr_data a))")
    case False
    with Some len show ?thesis by (simp add: ah_store_def abs_store_def ah_abs_def)
  next
    case True
    note defs = ah_store_def abs_store_def ah_abs_def [of h "unat idx"] data_len_def write_at_def stored_def
    show ?thesis
    proof (cases "arr_data a")
      case (Inline buf l)
      with True in_range good inl [of "Inline (buf[e := v]) l"] Some len ev show ?thesis
        by (simp add: defs good_array_def span32_def span8_def elems_def take_update_swap)
    next
      case (Inline8 buf l)
      with True in_range good inl [of "Inline8 (buf[e := ucast v]) l"] Some len ev show ?thesis
        by (simp add: defs good_array_def span32_def span8_def elems_def map_update take_update_swap)
    next
      case (Arena off l)
      with True in_range good Some len arena_store_abs(1) [OF ok Some Arena, of e v]
        ah_ok_arena_update(1) [OF ok, of "unat off + e" v] show ?thesis
        by (simp add: defs good_array_def)
    next
      case (Arena8 off l)
      with True in_range good Some len arena_store_abs(2) [OF ok Some Arena8, of e "ucast v"]
        ah_ok_arena_update(2) [OF ok, of "unat off + e" "ucast v"] show ?thesis
        by (simp add: defs good_array_def)
    qed
  qed
qed

section \<open>Freeing\<close>

lemma free_law:
  assumes ok: "ah_ok h"
  shows "ah_ok (ah_free idx h) \<and> ah_abs (ah_free idx h) = (ah_abs h)(unat idx := None)"
proof -
  have cs: "cs_ok (arrays h)" using ok by (rule ah_ok_cs)
  show ?thesis
  proof (cases "unat idx < length (slots h)")
    case False
    then have "cs_update (arrays h) (unat idx) None = None" "ah_slot h (unat idx) = None"
      using cs.update_none [OF cs] ah_slot_eq [OF cs] by auto
    then show ?thesis using ok by (auto simp: ah_free_def ah_abs_def fun_eq_iff)
  next
    case True
    obtain cs' where cs': "cs_update (arrays h) (unat idx) None = Some cs'" "cs_ok cs'"
      "cs_iter cs' = (slots h)[unat idx := None]"
      using cs.update_slots [OF cs True] by blast
    let ?h = "h\<lparr>arrays := cs', first_free := min (first_free h) (unat idx)\<rparr>"
    have h': "ah_free idx h = ?h"
      using cs'(1) by (simp add: ah_free_def Let_def min_def)
    have "spans32 ?h = (spans32 h)[unat idx := None]" "spans8 ?h = (spans8 h)[unat idx := None]"
      by (simp_all add: spans32_def spans8_def cs'(3) map_update)
    moreover have "\<forall>b. Some b \<in> set (slots ?h) \<longrightarrow> good_array (inline_data h) b"
      using ok cs'(3) by (auto simp: ah_ok_def ah_inv_def dest!: set_update_subset_insert [THEN subsetD])
    moreover have "\<forall>j<first_free ?h. j < length (slots ?h) \<longrightarrow> slots ?h ! j \<noteq> None"
      using ok cs'(3) by (auto simp: ah_ok_def ah_inv_def)
    ultimately have "ah_ok ?h"
      using ok cs' spans_ok_clear by (simp add: ah_ok_def ah_inv_def)
    moreover have "ah_slot ?h j = (if j = unat idx then None else ah_slot h j)" for j
      using ah_slot_write [OF cs cs'(2,3) True, of j] by (simp add: ah_slot_def)
    then have "ah_abs ?h = (ah_abs h)(unat idx := None)"
      by (auto simp: ah_abs_def fun_eq_iff elems_def split: array_data.splits intro!: option.map_cong)
    ultimately show ?thesis by (simp add: h')
  qed
qed

section \<open>Compaction\<close>

text \<open>A slot whose array kept everything but the offset of its span.\<close>

definition reoff :: "jvm_array \<Rightarrow> jvm_array \<Rightarrow> bool" where
  "reoff a b \<longleftrightarrow> arr_atype b = arr_atype a \<and>
     (case (arr_data a, arr_data b) of
        (Arena _ l, Arena _ l') \<Rightarrow> l = l'
      | (Arena8 _ l, Arena8 _ l') \<Rightarrow> l = l'
      | (x, y) \<Rightarrow> x = y)"

definition frame32 :: "array_heap \<Rightarrow> array_heap \<Rightarrow> bool" where
  "frame32 h h' \<longleftrightarrow> h' = h\<lparr>arrays := arrays h'\<rparr> \<and> spans8 h' = spans8 h \<and>
     list_all2 (rel_option reoff) (slots h) (slots h')"

definition frame8 :: "array_heap \<Rightarrow> array_heap \<Rightarrow> bool" where
  "frame8 h h' \<longleftrightarrow> h' = h\<lparr>arrays := arrays h'\<rparr> \<and> spans32 h' = spans32 h \<and>
     list_all2 (rel_option reoff) (slots h) (slots h')"

lemma reoff_refl: "reoff a a"
  by (auto simp: reoff_def split: array_data.splits)

lemma reoff_trans: "reoff a b \<Longrightarrow> reoff b c \<Longrightarrow> reoff a c"
  by (auto simp: reoff_def split: array_data.splits)

lemma slots_reoff_refl: "list_all2 (rel_option reoff) xs xs"
  by (simp add: list.rel_refl option.rel_refl reoff_refl)

lemma slots_reoff_trans:
  "list_all2 (rel_option reoff) xs ys \<Longrightarrow> list_all2 (rel_option reoff) ys zs \<Longrightarrow>
     list_all2 (rel_option reoff) xs zs"
  by (rule list_all2_trans [of "rel_option reoff" "rel_option reoff"])
    (auto simp: option_rel_Some1 rel_option_iff intro: reoff_trans split: option.splits)

lemma slots_reoff_update:
  "i < length xs \<Longrightarrow> xs ! i = Some a \<Longrightarrow> reoff a b \<Longrightarrow> list_all2 (rel_option reoff) xs (xs[i := Some b])"
  using reoff_refl by (auto simp: list_all2_conv_all_nth nth_list_update rel_option_iff
      split: option.splits)

lemma move32_law:
  assumes cs: "cs_ok (arrays h)" and i: "i < length (spans32 h)" "spans32 h ! i = Some (off, len)"
  shows "cs_ok (arrays (move32 i off' h)) \<and>
    spans32 (move32 i off' h) = (spans32 h)[i := Some (off', len)] \<and> frame32 h (move32 i off' h)"
proof -
  obtain a where a: "i < length (slots h)" "slots h ! i = Some a" "arr_data a = Arena off len"
    using i by (auto simp: spans_nth span32_def split: Option.bind_splits array_data.splits)
  then have slot: "ah_slot h i = Some a" using cs by (simp add: ah_slot_eq)
  from set_data_eq [OF cs slot, of "Arena off' len"] obtain cs' where
    cs': "move32 i off' h = h\<lparr>arrays := cs'\<rparr>" "cs_ok cs'"
    "cs_iter cs' = (slots h)[i := Some (a\<lparr>arr_data := Arena off' len\<rparr>)]"
    using a(3) by (auto simp: move32_def slot)
  have "list_all2 (rel_option reoff) (slots h) (cs_iter cs')"
    unfolding cs'(3) using a by (intro slots_reoff_update) (auto simp: reoff_def)
  moreover have "spans8 (h\<lparr>arrays := cs'\<rparr>) = spans8 h"
    using a by (auto simp: spans8_def cs'(3) map_update span8_def list_update_same_conv)
  moreover have "spans32 (h\<lparr>arrays := cs'\<rparr>) = (spans32 h)[i := Some (off', len)]"
    by (simp add: spans32_def cs'(3) map_update span32_def)
  ultimately show ?thesis using cs' by (simp add: frame32_def)
qed

lemma move8_law:
  assumes cs: "cs_ok (arrays h)" and i: "i < length (spans8 h)" "spans8 h ! i = Some (off, len)"
  shows "cs_ok (arrays (move8 i off' h)) \<and>
    spans8 (move8 i off' h) = (spans8 h)[i := Some (off', len)] \<and> frame8 h (move8 i off' h)"
proof -
  obtain a where a: "i < length (slots h)" "slots h ! i = Some a" "arr_data a = Arena8 off len"
    using i by (auto simp: spans_nth span8_def split: Option.bind_splits array_data.splits)
  then have slot: "ah_slot h i = Some a" using cs by (simp add: ah_slot_eq)
  from set_data_eq [OF cs slot, of "Arena8 off' len"] obtain cs' where
    cs': "move8 i off' h = h\<lparr>arrays := cs'\<rparr>" "cs_ok cs'"
    "cs_iter cs' = (slots h)[i := Some (a\<lparr>arr_data := Arena8 off' len\<rparr>)]"
    using a(3) by (auto simp: move8_def slot)
  have "list_all2 (rel_option reoff) (slots h) (cs_iter cs')"
    unfolding cs'(3) using a by (intro slots_reoff_update) (auto simp: reoff_def)
  moreover have "spans32 (h\<lparr>arrays := cs'\<rparr>) = spans32 h"
    using a by (auto simp: spans32_def cs'(3) map_update span32_def list_update_same_conv)
  moreover have "spans8 (h\<lparr>arrays := cs'\<rparr>) = (spans8 h)[i := Some (off', len)]"
    by (simp add: spans8_def cs'(3) map_update span8_def)
  ultimately show ?thesis using cs' by (simp add: frame8_def)
qed

lemma frame_trans:
  "frame32 s t \<Longrightarrow> frame32 t u \<Longrightarrow> frame32 s u" "frame8 s t \<Longrightarrow> frame8 t u \<Longrightarrow> frame8 s u"
  unfolding frame32_def frame8_def using slots_reoff_trans
  by (metis (no_types, lifting) array_heap.surjective array_heap.update_convs(1))+

lemma frame32_refl: "frame32 h h" and frame8_refl: "frame8 h h"
  by (simp_all add: frame32_def frame8_def slots_reoff_refl)

interpretation words: span_store "\<lambda>h. cs_ok (arrays h)" spans32 move32 frame32
  by unfold_locales (auto simp: move32_law frame32_refl elim: frame_trans(1))

interpretation bytes: span_store "\<lambda>h. cs_ok (arrays h)" spans8 move8 frame8
  by unfold_locales (auto simp: move8_law frame8_refl elim: frame_trans(2))

text \<open>A finished pass leaves a good heap with the same contents.\<close>

lemma reoff_good: "good_array inl a \<Longrightarrow> reoff a b \<Longrightarrow> good_array inl b"
  by (auto simp: good_array_def reoff_def data_len_def split: array_data.splits)

lemma slots_reoff_good:
  assumes "list_all2 (rel_option reoff) xs ys" and "\<forall>a. Some a \<in> set xs \<longrightarrow> good_array inl a"
  shows "\<forall>b. Some b \<in> set ys \<longrightarrow> good_array inl b"
proof (intro allI impI)
  fix b assume "Some b \<in> set ys"
  then obtain i where i: "i < length ys" "ys ! i = Some b" by (auto simp: in_set_conv_nth)
  then have "rel_option reoff (xs ! i) (Some b)" "i < length xs"
    using assms(1) by (auto simp: list_all2_conv_all_nth)
  then obtain a where "xs ! i = Some a" "reoff a b" by (auto simp: option_rel_Some2)
  then show "good_array inl b"
    using assms(2) reoff_good nth_mem [OF \<open>i < length xs\<close>] by auto
qed

lemma slots_reoff_free:
  "list_all2 (rel_option reoff) xs ys \<Longrightarrow> \<forall>i<n. i < length xs \<longrightarrow> xs ! i \<noteq> None \<Longrightarrow>
     \<forall>i<n. i < length ys \<longrightarrow> ys ! i \<noteq> None"
  by (auto simp: list_all2_conv_all_nth) (metis option_rel_Some1)

lemma slots_reoff_slot:
  assumes "cs_ok (arrays h)" and "cs_ok (arrays h')" and "list_all2 (rel_option reoff) (slots h) (slots h')"
  shows "rel_option reoff (ah_slot h i) (ah_slot h' i)"
  using assms by (auto simp: ah_slot_eq list_all2_conv_all_nth)

lemma abs_reoff:
  assumes "\<And>i. rel_option reoff (ah_slot h i) (ah_slot h' i)"
    and "\<And>i a b. ah_slot h i = Some a \<Longrightarrow> ah_slot h' i = Some b \<Longrightarrow> elems h' (arr_data b) = elems h (arr_data a)"
  shows "ah_abs h' = ah_abs h"
proof
  fix i show "ah_abs h' i = ah_abs h i"
    using assms(1) [of i] assms(2) [of i]
    by (auto simp: ah_abs_def reoff_def elim!: option.rel_cases)
qed

lemma span_at:
  assumes "cs_ok (arrays h)" and "ah_slot h i = Some a"
  shows "spans32 h ! i = span32 a" "spans8 h ! i = span8 a" "i < length (slots h)"
  using ah_slot_Some [OF assms] by (simp_all add: spans_nth)

lemma words_pass:
  assumes ok: "ah_ok h" and fr: "frame32 h h'" and cs: "cs_ok (arrays h')"
    and sp: "spans_ok (spans32 h') (length a)" "length a \<le> length (arena h)"
    and kept: "spans_kept (spans32 h) (arena h) (spans32 h') a"
  shows "ah_ok (h'\<lparr>arena := a\<rparr>) \<and> ah_abs (h'\<lparr>arena := a\<rparr>) = ah_abs h"
proof -
  let ?h = "h'\<lparr>arena := a\<rparr>"
  have r: "list_all2 (rel_option reoff) (slots h) (slots h')" and s8: "spans8 h' = spans8 h"
    and f: "h' = h\<lparr>arrays := arrays h'\<rparr>"
    using fr by (simp_all add: frame32_def)
  have f': "first_free h' = first_free h" "inline_data h' = inline_data h" "arena8 h' = arena8 h"
    "arena_cap h' = arena_cap h" "arena8_cap h' = arena8_cap h"
    by (subst f, simp)+
  have cs0: "cs_ok (arrays h)" using ok by (rule ah_ok_cs)
  have "ah_ok ?h"
    using ok cs sp s8 f' slots_reoff_good [OF r, of "inline_data h"] slots_reoff_free [OF r, of "first_free h"]
      list_all2_lengthD [OF r]
    by (simp add: ah_ok_def ah_inv_def)
  moreover have "ah_abs ?h = ah_abs h"
  proof (rule abs_reoff)
    show rs: "rel_option reoff (ah_slot h i) (ah_slot ?h i)" for i
      using slots_reoff_slot [OF cs0 cs r] by simp
    fix i x y assume x: "ah_slot h i = Some x" and y: "ah_slot ?h i = Some y"
    then have y': "ah_slot h' i = Some y" and xy: "reoff x y" using rs [of i] by simp_all
    have e: "spans32 h' ! i = span32 y" "spans8 h' ! i = span8 y"
      "spans32 h ! i = span32 x" "spans8 h ! i = span8 x" "i < length (spans32 h)"
      using span_at [OF cs y'] span_at [OF cs0 x] by simp_all
    show "elems ?h (arr_data y) = elems h (arr_data x)"
      using xy kept e s8 f'(3) unfolding spans_kept_def
      by (cases "arr_data x"; cases "arr_data y")
        (auto simp: reoff_def elems_def span32_def span8_def)
  qed
  ultimately show ?thesis by simp
qed

lemma bytes_pass:
  assumes ok: "ah_ok h" and fr: "frame8 h h'" and cs: "cs_ok (arrays h')"
    and sp: "spans_ok (spans8 h') (length a)" "length a \<le> length (arena8 h)"
    and kept: "spans_kept (spans8 h) (arena8 h) (spans8 h') a"
  shows "ah_ok (h'\<lparr>arena8 := a\<rparr>) \<and> ah_abs (h'\<lparr>arena8 := a\<rparr>) = ah_abs h"
proof -
  let ?h = "h'\<lparr>arena8 := a\<rparr>"
  have r: "list_all2 (rel_option reoff) (slots h) (slots h')" and s32: "spans32 h' = spans32 h"
    and f: "h' = h\<lparr>arrays := arrays h'\<rparr>"
    using fr by (simp_all add: frame8_def)
  have f': "first_free h' = first_free h" "inline_data h' = inline_data h" "arena h' = arena h"
    "arena_cap h' = arena_cap h" "arena8_cap h' = arena8_cap h"
    by (subst f, simp)+
  have cs0: "cs_ok (arrays h)" using ok by (rule ah_ok_cs)
  have "ah_ok ?h"
    using ok cs sp s32 f' slots_reoff_good [OF r, of "inline_data h"] slots_reoff_free [OF r, of "first_free h"]
      list_all2_lengthD [OF r]
    by (simp add: ah_ok_def ah_inv_def)
  moreover have "ah_abs ?h = ah_abs h"
  proof (rule abs_reoff)
    show rs: "rel_option reoff (ah_slot h i) (ah_slot ?h i)" for i
      using slots_reoff_slot [OF cs0 cs r] by simp
    fix i x y assume x: "ah_slot h i = Some x" and y: "ah_slot ?h i = Some y"
    then have y': "ah_slot h' i = Some y" and xy: "reoff x y" using rs [of i] by simp_all
    have e: "spans32 h' ! i = span32 y" "spans8 h' ! i = span8 y"
      "spans32 h ! i = span32 x" "spans8 h ! i = span8 x" "i < length (spans8 h)"
      using span_at [OF cs y'] span_at [OF cs0 x] by simp_all
    show "elems ?h (arr_data y) = elems h (arr_data x)"
      using xy kept e s32 f'(3) unfolding spans_kept_def
      by (cases "arr_data x"; cases "arr_data y")
        (auto simp: reoff_def elems_def span32_def span8_def)
  qed
  ultimately show ?thesis by simp
qed

lemma compact_law:
  assumes ok: "ah_ok h"
  shows "\<exists>cap' h'. compact_arena al cap h = (Inr cap', h') \<and> ah_ok h' \<and> ah_abs h' = ah_abs h \<and>
    (0 < cap \<longrightarrow> length (arena h') = spans_total (spans32 h) \<and>
       length (arena8 h') = spans_total (spans8 h))"
proof (cases "ensure_slice_buf al cap FALLBACK_ENTRIES")
  case None
  then show ?thesis
    using ok by (auto simp: compact_arena_def ensure_slice_buf_def split: if_splits)
next
  case (Some c)
  then have c: "0 < c"
    by (auto simp: ensure_slice_buf_def vec_reserve_exact_def FALLBACK_ENTRIES_def split: if_splits)
  have "spans_ok (spans32 h) (length (arena h))" using ok by (simp add: ah_ok_def ah_inv_def)
  from words.compact_spans_ok [OF ah_ok_cs [OF ok] this c] obtain a h1 where
    w: "compact_spans spans32 move32 c (arena h) h = Some (a, h1)" "cs_ok (arrays h1)" "frame32 h h1"
      "length a = spans_total (spans32 h)" "length a \<le> length (arena h)"
      "spans_ok (spans32 h1) (length a)" "spans_kept (spans32 h) (arena h) (spans32 h1) a"
    by blast
  let ?h1 = "h1\<lparr>arena := a\<rparr>"
  note p1 = words_pass [OF ok w(3,2,6,5,7)]
  have "spans_ok (spans8 ?h1) (length (arena8 ?h1))" using p1 by (simp add: ah_ok_def ah_inv_def)
  from bytes.compact_spans_ok [OF ah_ok_cs this c] p1 obtain a8 h2 where
    b: "compact_spans spans8 move8 c (arena8 ?h1) ?h1 = Some (a8, h2)" "cs_ok (arrays h2)"
      "frame8 ?h1 h2" "length a8 = spans_total (spans8 ?h1)" "length a8 \<le> length (arena8 ?h1)"
      "spans_ok (spans8 h2) (length a8)" "spans_kept (spans8 ?h1) (arena8 ?h1) (spans8 h2) a8"
    by blast
  note p2 = bytes_pass [OF conjunct1 [OF p1] b(3,2,6,5,7)]
  have "compact_arena al cap h = (Inr c, h2\<lparr>arena8 := a8\<rparr>)"
    using Some w(1) b(1) by (simp add: compact_arena_def Let_def)
  moreover have "arena h2 = arena ?h1"
    using b(3) by (metis array_heap.ext_inject array_heap.surjective array_heap.update_convs(1) frame8_def)
  moreover have "spans8 ?h1 = spans8 h" using w(3) by (simp add: frame32_def)
  ultimately show ?thesis
    using p1 p2 w(4) b(4) by simp
qed

section \<open>Cloning\<close>

lemma low_byte_inverse: "ucast (scast b :: i32) = (b :: u8)"
  by (rule bit_word_eqI) (auto simp: bit_simps)

lemma stored_elems:
  assumes "good_array inl a"
  shows "map (stored (arr_atype a)) (elems h (arr_data a)) = elems h (arr_data a)"
proof (rule map_idI)
  fix x assume "x \<in> set (elems h (arr_data a))"
  then show "stored (arr_atype a) x = x"
    using assms by (auto simp: good_array_def elems_def stored_def low_byte_inverse
        split: array_data.splits)
qed

lemma store_all_law:
  "ah_ok h \<Longrightarrow> ah_abs h (unat idx) = Some (t, xs) \<Longrightarrow> i + length vs \<le> length xs \<Longrightarrow>
   \<exists>h'. store_all idx i vs h = (Inr (), h') \<and> ah_ok h' \<and> alloc_events h' = alloc_events h \<and>
     ah_abs h' = (ah_abs h)(unat idx \<mapsto> (t, take i xs @ map (stored t) vs @ drop (i + length vs) xs))"
proof (induction vs arbitrary: i h xs)
  case Nil
  then show ?case by (auto simp: action_simps fun_upd_idem)
next
  case (Cons v vs)
  obtain h1 where h1: "ah_store idx i v h = (Inr (Some ()), h1)" "ah_ok h1"
    "ah_abs h1 = (ah_abs h)(unat idx \<mapsto> (t, xs[i := stored t v]))" "alloc_events h1 = alloc_events h"
    using store_law [OF Cons.prems(1), of idx i v] Cons.prems(2,3)
    by (auto simp: abs_store_def)
  have "ah_abs h1 (unat idx) = Some (t, xs[i := stored t v])"
    "i + 1 + length vs \<le> length (xs[i := stored t v])"
    using h1(3) Cons.prems(3) by simp_all
  from Cons.IH [OF h1(2) this] obtain h2 where
    h2: "store_all idx (i + 1) vs h1 = (Inr (), h2)" "ah_ok h2" "alloc_events h2 = alloc_events h1"
    "ah_abs h2 = (ah_abs h1)(unat idx \<mapsto> (t, take (i + 1) (xs[i := stored t v]) @ map (stored t) vs @
       drop (i + 1 + length vs) (xs[i := stored t v])))" by blast
  moreover have "take (i + 1) (xs[i := stored t v]) = take i xs @ [stored t v]"
    using Cons.prems(3) by (simp add: take_Suc_conv_app_nth)
  ultimately show ?case
    using h1 by (auto simp: andThen_run fun_eq_iff)
qed

lemma alloc_law:
  assumes ok: "ah_ok h" and "small_allocator al"
  shows "case ah_alloc al t n h of
      (Inl e, h') \<Rightarrow> False
    | (Inr None, h') \<Rightarrow> ah_ok h' \<and> ah_abs h' = ah_abs h
    | (Inr (Some i), h') \<Rightarrow> ah_ok h' \<and> ah_abs h (unat i) = None \<and>
        ah_abs h' = (ah_abs h)(unat i \<mapsto> (t, new_elems t n))"
proof -
  let ?h = "h\<lparr>alloc_events := saturating_inc16 (alloc_events h)\<rparr>"
  have ok': "ah_ok ?h" using ok by (simp add: ah_ok_def ah_inv_def)
  have abs: "ah_abs ?h = ah_abs h"
    by (auto simp: ah_abs_def ah_slot_def elems_def fun_eq_iff split: array_data.splits
        intro!: option.map_cong)
  show ?thesis
  proof (cases "reserve_data al t n ?h")
    case (Pair r h1)
    show ?thesis
    proof (cases r)
      case None
      with Pair reserve_None [of al t n ?h h1] ok' abs show ?thesis by (simp add: ah_alloc_def)
    next
      case (Some p)
      obtain d rb where p: "p = (d, rb)" by fastforce
      with Pair Some have "reserve_data al t n ?h = (Some (d, rb), h1)" by simp
      note place_ok [OF reserve_Some [OF ok' assms(2) this] ok', of al, unfolded abs]
      with Pair Some p show ?thesis by (simp add: ah_alloc_def)
    qed
  qed
qed

lemma clone_data:
  assumes "ah_ok h" and "ah_slot h (unat idx) = Some a"
  shows "(if is_packed (arr_atype a) then andThen (packed_slice idx) (\<lambda>bs. ret (map scast bs))
          else data_slice idx) h = (Inr (elems h (arr_data a)), h)"
  using assms(2) payload_in [OF assms] good_of_slot [OF ah_ok_inv [OF assms(1)] assms(2)]
  by (cases "arr_data a")
    (simp_all add: packed_slice_def data_slice_def sub_slice_def good_array_def elems_def
      slice_def action_simps)

lemma clone_law:
  assumes ok: "ah_ok h" and al: "small_allocator al"
  shows "case ah_clone al idx h of
      (Inl e, h') \<Rightarrow> False
    | (Inr None, h') \<Rightarrow> ah_ok h' \<and> ah_abs h' = ah_abs h
    | (Inr (Some n), h') \<Rightarrow> ah_ok h' \<and> ah_abs h (unat n) = None \<and>
        ah_abs h (unat idx) \<noteq> None \<and> ah_abs h' = (ah_abs h)(unat n := ah_abs h (unat idx))"
proof (cases "ah_slot h (unat idx)")
  case None
  then show ?thesis using ok by (simp add: ah_clone_def ah_atype_def ah_length_def)
next
  case (Some a)
  let ?t = "arr_atype a" and ?d = "arr_data a"
  let ?len = "data_len ?d div slots_per_elem ?t"
  have good: "good_array (inline_data h) a" by (rule good_of_slot [OF ah_ok_inv [OF ok] Some])
  then have n: "unat ?len * unat (slots_per_elem ?t) = unat (data_len ?d)"
    by (simp add: unat_div good_array_def)
  have abs: "ah_abs h (unat idx) = Some (?t, elems h ?d)" by (simp add: ah_abs_def Some)
  have start: "ah_clone al idx h = andThen (ah_alloc al ?t ?len) (\<lambda>r. case r of
      None \<Rightarrow> ret None
    | Some k \<Rightarrow> andThen (store_all k 0 (elems h ?d)) (\<lambda>_. ret (Some k))) h"
    using clone_data [OF ok Some] Some
    by (simp add: ah_clone_def ah_atype_def ah_length_def andThen_run)
  note al_law = alloc_law [OF ok al, of ?t ?len]
  obtain r h1 where r: "ah_alloc al ?t ?len h = (r, h1)" by fastforce
  show ?thesis
  proof (cases r)
    case (Inl e)
    with al_law r show ?thesis by simp
  next
    case (Inr res)
    show ?thesis
    proof (cases res)
      case None
      with al_law r Inr show ?thesis by (simp add: start andThen_run ret_run)
    next
      case k: (Some k)
      have h1: "ah_ok h1" "ah_abs h (unat k) = None"
        "ah_abs h1 = (ah_abs h)(unat k \<mapsto> (?t, new_elems ?t ?len))"
        using al_law r Inr k by simp_all
      have "ah_abs h1 (unat k) = Some (?t, new_elems ?t ?len)" using h1(3) by simp
      moreover have "length (elems h ?d) = length (new_elems ?t ?len)"
        using length_elems [OF ok Some] n by (simp add: new_elems_def)
      ultimately obtain h2 where h2: "store_all k 0 (elems h ?d) h1 = (Inr (), h2)" "ah_ok h2"
        "ah_abs h2 = (ah_abs h1)(unat k \<mapsto> (?t, map (stored ?t) (elems h ?d)))"
        using store_all_law [OF h1(1), of k ?t "new_elems ?t ?len" 0 "elems h ?d"] by auto
      have "ah_abs h2 = (ah_abs h)(unat k := ah_abs h (unat idx))"
        using h2(3) h1(3) abs stored_elems [OF good] by (simp add: fun_eq_iff)
      with r Inr k h1(2) h2(1,2) abs show ?thesis by (simp add: start andThen_run ret_run)
    qed
  qed
qed

section \<open>Wide elements and references\<close>

lemma wide_join: "push_bit 32 (ucast (ucast (drop_bit 32 v) :: i32)) OR ucast (ucast v :: i32) = (v :: i64)"
  by (rule bit_word_eqI) (auto simp: bit_simps)

lemma tag_bits: "bit REF_TAG n \<longleftrightarrow> n = 30" "bit ARRAY_TAG n \<longleftrightarrow> n = 29" "bit OBJ_TAG n \<longleftrightarrow> n = 28"
proof -
  have "REF_TAG = 2 ^ 30" "ARRAY_TAG = 2 ^ 29" "OBJ_TAG = 2 ^ 28"
    by (simp_all add: REF_TAG_def ARRAY_TAG_def OBJ_TAG_def)
  note this [THEN arg_cong, of "\<lambda>w. bit w n"]
  then show "bit REF_TAG n \<longleftrightarrow> n = 30" "bit ARRAY_TAG n \<longleftrightarrow> n = 29" "bit OBJ_TAG n \<longleftrightarrow> n = 28"
    unfolding bit_exp_iff possible_bit_word by auto
qed

lemma test_tag: "raw AND REF_TAG \<noteq> 0 \<longleftrightarrow> bit raw 30" "raw AND ARRAY_TAG \<noteq> 0 \<longleftrightarrow> bit raw 29"
proof -
  have "REF_TAG = push_bit 30 1" "ARRAY_TAG = push_bit 29 1"
    by (simp_all add: REF_TAG_def ARRAY_TAG_def)
  then show "raw AND REF_TAG \<noteq> 0 \<longleftrightarrow> bit raw 30" "raw AND ARRAY_TAG \<noteq> 0 \<longleftrightarrow> bit raw 29"
    by (simp_all only: bit_iff_and_push_bit_not_eq_0)
qed

lemma encode_decode:
  assumes "encode_ref v = Some raw"
  shows "decode_ref raw = v"
proof -
  have "bit (ucast i OR OBJ_TAG) 28" for i :: u16 by (simp add: bit_or_iff tag_bits)
  then have nz: "ucast i OR OBJ_TAG \<noteq> 0" for i :: u16 by (metis bit_0_eq bot_apply bot_bool_def)
  have wide: "\<not> bit (i :: u16) n" if "16 \<le> n" for i n
    using that bit_imp_le_length [of i n] by auto
  have low: "ucast (raw AND NOT REF_TAG) = i" if "raw = ucast i OR REF_TAG" for i :: u16
    by (rule bit_word_eqI) (auto simp: that bit_simps tag_bits)
  have low2: "ucast (raw AND NOT ARRAY_TAG) = i" if "raw = ucast i OR ARRAY_TAG" for i :: u16
    by (rule bit_word_eqI) (auto simp: that bit_simps tag_bits)
  have "(0xFFFF :: u32) = mask 16" by (simp add: mask_eq_exp_minus_1)
  then have "raw AND 0xFFFF = take_bit 16 raw" by (simp only: take_bit_eq_mask)
  then have low3: "ucast (raw AND 0xFFFF) = i" if "raw = ucast i OR OBJ_TAG" for i :: u16
    by (simp only:) (rule bit_word_eqI, auto simp: that bit_simps tag_bits)
  show ?thesis
    using assms nz low low2 low3 wide
    unfolding decode_ref_def test_tag
    by (cases v) (auto simp: encode_ref_def bit_or_iff bit_ucast_iff tag_bits)
qed

lemma abs_len:
  "ah_ok h \<Longrightarrow> ah_abs h i = Some (t, xs) \<Longrightarrow> length xs < 2 ^ 16"
  using length_elems unsigned_less [where ?'a = nat and ?'b = 16] by (fastforce simp: ah_abs_def)

lemma store64_law:
  assumes ok: "ah_ok h" and xs: "ah_abs h (unat idx) = Some (t, xs)" and t: "\<not> is_packed t"
    and e: "e * 2 + 1 < length xs"
  shows "\<exists>h'. ah_store64 idx e v h = (Inr (Some ()), h') \<and> ah_ok h' \<and>
    ah_abs h' = (ah_abs h)(unat idx \<mapsto>
      (t, xs[e * 2 := ucast v, e * 2 + 1 := ucast (drop_bit 32 v)]))"
proof -
  have le: "\<not> 2 ^ 32 \<le> e * 2" using abs_len [OF ok xs] e by simp
  have st: "stored t w = w" for w using t by (simp add: stored_def)
  obtain h1 where h1: "ah_store idx (e * 2) (ucast v) h = (Inr (Some ()), h1)" "ah_ok h1"
    "ah_abs h1 = (ah_abs h)(unat idx \<mapsto> (t, xs[e * 2 := ucast v]))"
    using store_law [OF ok, of idx "e * 2" "ucast v"] xs e st by (auto simp: abs_store_def)
  obtain h2 where h2: "ah_store idx (e * 2 + 1) (ucast (drop_bit 32 v)) h1 = (Inr (Some ()), h2)" "ah_ok h2"
    "ah_abs h2 = (ah_abs h1)(unat idx \<mapsto> (t, xs[e * 2 := ucast v, e * 2 + 1 := ucast (drop_bit 32 v)]))"
    using store_law [OF h1(2), of idx "e * 2 + 1" "ucast (drop_bit 32 v)"] h1(3) e st
    by (auto simp: abs_store_def)
  from h1 h2 le show ?thesis by (simp add: ah_store64_def andThen_run)
qed

section \<open>Properties\<close>

text \<open>
  C31: allocation. It never panics; a granted array has an index that named no live array,
  the asked element type and all elements zero, and every other array keeps its contents; a
  refused one, whichever of the three reservations failed, leaves every array as it was. The
  invariant holds afterwards either way.
\<close>

theorem ah_alloc_refines:
  assumes "ah_ok h" and "small_allocator al"
  shows "case ah_alloc al t n h of
      (Inl e, h') \<Rightarrow> False
    | (Inr None, h') \<Rightarrow> ah_ok h' \<and> ah_abs h' = ah_abs h
    | (Inr (Some i), h') \<Rightarrow> ah_ok h' \<and> ah_abs h (unat i) = None \<and>
        ah_abs h' = (ah_abs h)(unat i \<mapsto> (t, replicate (unat n * unat (slots_per_elem t)) 0))"
  by (rule alloc_law [OF assms, of t n, unfolded new_elems_def])

theorem ah_alloc_refines_witness:
  "fst (ah_alloc (\<lambda>k n. n < 100) ATYPE_LONG 3 (ah_new 1 4)) = Inr (Some 0) \<and>
   ah_abs (snd (ah_alloc (\<lambda>k n. n < 100) ATYPE_LONG 3 (ah_new 1 4))) 0 =
     Some (ATYPE_LONG, replicate 6 0)"
proof -
  have al: "small_allocator (\<lambda>k n. n < 100)" by (auto simp: small_allocator_def)
  have r: "fst (ah_alloc (\<lambda>k n. n < 100) ATYPE_LONG 3 (ah_new 1 4)) = Inr (Some 0)"
    by (simp add: ah_alloc_def reserve_data_def is_packed_def slots_per_elem_def atype_defs
        checked_mul_def vec_reserve_exact_def ah_new_def place_array_def scan_free.simps cs_new_def
        cs_try_push_def split_index_def chunk_size_def REF_TOP_def Let_def)
  show ?thesis
    using ah_alloc_refines [OF ah_new_ok [of 1 4] al, where t = ATYPE_LONG and n = 3] r
    by (cases "ah_alloc (\<lambda>k n. n < 100) ATYPE_LONG 3 (ah_new 1 4)")
      (simp add: slots_per_elem_def)
qed

text \<open>
  C32: the element operations are those of the abstract heap. A load reads the element list
  and never panics, whatever the index; a store is all or nothing, changes one element of one
  array (of a packed one, to the sign-extended low byte) and no other array, even one whose
  span shares the arena; the length is that of the element list in elements; freeing forgets
  exactly one array. The invariant holds throughout.
\<close>

theorem ah_elements_refine:
  assumes "ah_ok h"
  shows "ah_load idx e h =
      (Inr (case ah_abs h (unat idx) of
              None \<Rightarrow> None | Some (t, xs) \<Rightarrow> if e < length xs then Some (xs ! e) else None), h)
    \<and> (case ah_abs h (unat idx) of
         None \<Rightarrow> ah_store idx e v h = (Inr None, h) \<and> ah_length h idx = None
       | Some (t, xs) \<Rightarrow>
           map_option unat (ah_length h idx) = Some (length xs div unat (slots_per_elem t)) \<and>
           (if e < length xs
            then \<exists>h'. ah_store idx e v h = (Inr (Some ()), h') \<and> ah_ok h' \<and>
                   ah_abs h' = (ah_abs h)(unat idx \<mapsto>
                     (t, xs[e := if is_packed t then scast (ucast v :: u8) else v]))
            else ah_store idx e v h = (Inr None, h)))
    \<and> ah_ok (ah_free idx h) \<and> ah_abs (ah_free idx h) = (ah_abs h)(unat idx := None)"
proof -
  have len: "map_option unat (ah_length h idx) =
      map_option (\<lambda>(t, xs). length xs div unat (slots_per_elem t)) (ah_abs h (unat idx))"
    using length_elems [OF assms, of "unat idx"]
    by (cases "ah_slot h (unat idx)") (simp_all add: ah_length_def ah_abs_def unat_div)
  show ?thesis
    using load_law [OF assms, of idx e] store_law [OF assms, of idx e v] free_law [OF assms, of idx] len
    by (auto simp: abs_store_def stored_def split: option.splits if_splits)
qed

theorem ah_elements_refine_witness:
  "ah_load 7 0 (ah_new 1 4) = (Inr None, ah_new 1 4) \<and> ah_store 7 0 5 (ah_new 1 4) = (Inr None, ah_new 1 4)
   \<and> ah_ok (ah_free 7 (ah_new 1 4))"
proof -
  have "ah_abs (ah_new 1 4) (unat (7 :: u16)) = None"
    by (simp add: ah_abs_def ah_slot_def ah_new_def cs_new_def cs_get_def)
  with ah_elements_refine [OF ah_new_ok [of 1 4], where idx = 7 and e = 0 and v = 5] show ?thesis
    by simp
qed

text \<open>
  C30: compaction. Sliding the spans of both arenas down, in as many passes as the slice
  buffer takes, never panics and terminates; every array keeps its index, type and elements;
  what is left of each arena is exactly the live payload; and a collector that cannot get its
  buffer changes nothing that can be observed.
\<close>

theorem compact_arena_keeps:
  assumes "ah_ok h"
  shows "\<exists>cap' h'. compact_arena al cap h = (Inr cap', h') \<and> ah_ok h' \<and> ah_abs h' = ah_abs h \<and>
    (0 < cap \<longrightarrow> length (arena h') = spans_total (spans32 h) \<and>
       length (arena8 h') = spans_total (spans8 h))"
  by (rule compact_law [OF assms])

text \<open>
  A heap with a dead span in front of a live one: the \<open>int[2]\<close> at 3 slides down to 0.
\<close>

definition gap_heap :: array_heap where
  "gap_heap =
     \<lparr>arrays = \<lparr>chunk_shift = 1,
        chunks = [[None, Some \<lparr>arr_atype = ATYPE_INT, arr_data = Arena 3 2\<rparr>]], cs_len = 2\<rparr>,
      first_free = 0, arena = [7, 8, 9, 41, 42], arena_cap = 5, arena8 = [], arena8_cap = 0,
      alloc_events = 0, inline_data = 0\<rparr>"

lemma gap_heap_ok: "ah_ok gap_heap"
  by (simp add: ah_ok_def ah_inv_def gap_heap_def cs_ok_def chunk_size_def cs_iter_def REF_TOP_def
      good_array_def is_packed_def slots_per_elem_def atype_defs spans_ok_def spans_apart_def
      spans_within_def spans32_def spans8_def span32_def span8_def All_less_Suc)

theorem compact_arena_keeps_witness:
  "\<exists>cap' h'. compact_arena (\<lambda>_ _. False) 1 gap_heap = (Inr cap', h') \<and>
     ah_abs h' 1 = Some (ATYPE_INT, [41, 42]) \<and> length (arena h') = 2"
proof -
  have "ah_abs gap_heap 1 = Some (ATYPE_INT, [41, 42])"
    by (simp add: ah_abs_def ah_slot_def gap_heap_def cs_get_def split_index_def chunk_size_def
        elems_def slice_def)
  moreover have "spans_total (spans32 gap_heap) = 2"
    by (simp add: spans_total_def spans32_def gap_heap_def cs_iter_def span32_def)
  ultimately show ?thesis
    using compact_arena_keeps [OF gap_heap_ok, where al = "\<lambda>_ _. False" and cap = 1] by auto
qed

text \<open>
  \<open>clone\<close> of a live array is a new array of the same type and elements; out of
  memory, or of a dead index, it leaves every array as it was; it never panics.
\<close>

theorem ah_clone_copies:
  assumes "ah_ok h" and "small_allocator al"
  shows "case ah_clone al idx h of
      (Inl e, h') \<Rightarrow> False
    | (Inr None, h') \<Rightarrow> ah_ok h' \<and> ah_abs h' = ah_abs h
    | (Inr (Some n), h') \<Rightarrow> ah_ok h' \<and> ah_abs h (unat n) = None \<and>
        ah_abs h (unat idx) \<noteq> None \<and> ah_abs h' = (ah_abs h)(unat n := ah_abs h (unat idx))"
  by (rule clone_law [OF assms])

theorem ah_clone_copies_witness:
  "case ah_clone (\<lambda>k n. n < 100) 1 gap_heap of
      (Inl e, h') \<Rightarrow> False
    | (Inr None, h') \<Rightarrow> ah_abs h' = ah_abs gap_heap
    | (Inr (Some n), h') \<Rightarrow> ah_abs h' = (ah_abs gap_heap)(unat n \<mapsto> (ATYPE_INT, [41, 42]))"
proof -
  have al: "small_allocator (\<lambda>k n. n < 100)" by (auto simp: small_allocator_def)
  have "ah_abs gap_heap (unat (1 :: u16)) = Some (ATYPE_INT, [41, 42])"
    by (simp add: ah_abs_def ah_slot_def gap_heap_def cs_get_def split_index_def chunk_size_def
        elems_def slice_def)
  with ah_clone_copies [OF gap_heap_ok al, where idx = 1] show ?thesis
    by (auto split: prod.splits sum.splits option.splits)
qed

text \<open>
  A \<open>long\<close> or \<open>double\<close> written to a two-slot element is read back whole, and
  a reference written to an \<open>Object[]\<close> slot is read back as the same reference, object
  0 and \<open>null\<close> included.
\<close>

theorem wide_and_ref_roundtrip:
  assumes "ah_ok h" and "ah_abs h (unat idx) = Some (t, xs)" and "\<not> is_packed t"
    and "e * 2 + 1 < length xs" and "encode_ref r = Some raw"
  shows "(\<exists>h'. ah_store64 idx e v h = (Inr (Some ()), h') \<and> ah_ok h' \<and>
      ah_load64 idx e h' = (Inr (Some v), h')) \<and> decode_ref raw = r"
proof -
  obtain h' where h': "ah_store64 idx e v h = (Inr (Some ()), h')" "ah_ok h'"
    "ah_abs h' = (ah_abs h)(unat idx \<mapsto> (t, xs[e * 2 := ucast v, e * 2 + 1 := ucast (drop_bit 32 v)]))"
    using store64_law [OF assms(1-4), of v] by blast
  have le: "\<not> 2 ^ 32 \<le> e * 2" using abs_len [OF assms(1,2)] assms(4) by simp
  have "ah_load64 idx e h' = (Inr (Some v), h')"
    using le assms(4) load_law [OF h'(2), of idx] h'(3) wide_join [of v]
    by (simp add: ah_load64_def andThen_run ret_run)
  with h' encode_decode [OF assms(5)] show ?thesis by blast
qed

theorem wide_and_ref_roundtrip_witness:
  "(\<exists>h'. ah_store64 1 0 0x1122334455667788 gap_heap = (Inr (Some ()), h') \<and> ah_ok h' \<and>
     ah_load64 1 0 h' = (Inr (Some 0x1122334455667788), h')) \<and> decode_ref OBJ_TAG = VObjectRef 0"
proof -
  have a: "ah_abs gap_heap (unat (1 :: u16)) = Some (ATYPE_INT, [41, 42])"
    by (simp add: ah_abs_def ah_slot_def gap_heap_def cs_get_def split_index_def chunk_size_def
        elems_def slice_def)
  show ?thesis
    by (rule wide_and_ref_roundtrip [OF gap_heap_ok a])
      (simp_all add: is_packed_def atype_defs encode_ref_def)
qed

end
