(* ===== verification/ObjectHeap.thy ===== *)
theory ObjectHeap
  imports JvmTypes ChunkedSlots Compaction ArrayHeap
begin

text \<open>
  The object heap, \<open>crates/jvm/src/object_heap/mod.rs\<close>: pointer-free object
  descriptors in a chunked slot store, their fields as spans of one arena of 8-byte slots, the
  class table, and the compaction of the arena. The class-name constants are generated by the
  build (\<open>names.rs\<close>); the model uses the spellings of an unshrunk build.
\<close>

section \<open>Names\<close>

definition java_lang_Integer :: string where "java_lang_Integer = ''java/lang/Integer''"
definition java_lang_Long :: string where "java_lang_Long = ''java/lang/Long''"
definition java_lang_Short :: string where "java_lang_Short = ''java/lang/Short''"
definition java_lang_Byte :: string where "java_lang_Byte = ''java/lang/Byte''"
definition java_lang_Character :: string where "java_lang_Character = ''java/lang/Character''"
definition java_lang_Boolean :: string where "java_lang_Boolean = ''java/lang/Boolean''"
definition java_lang_Float :: string where "java_lang_Float = ''java/lang/Float''"
definition java_lang_Double :: string where "java_lang_Double = ''java/lang/Double''"
definition java_lang_Enum :: string where "java_lang_Enum = ''java/lang/Enum''"

definition default_field_count_for_native :: "string \<Rightarrow> nat" where
  "default_field_count_for_native name =
     (if name \<in> {java_lang_Long, java_lang_Double} then 2
      else if name \<in> {java_lang_Integer, java_lang_Boolean, java_lang_Float, java_lang_Character,
                       java_lang_Byte, java_lang_Short} then 1
      else if name \<in> {''java/util/HashMap$KeySet'', ''java/util/HashMap$Values'',
                       ''java/util/HashMap$EntrySet''} then 2
      else if name = ''java/util/Map$Entry'' then 2
      else if name = ''java/lang/StringBuilder'' then 1
      else if name = ''java/util/Random'' then 4
      else 0)"

section \<open>The heap\<close>

record jvm_object =
  fields_off :: u32
  obj_class :: u16
  field_count :: u8
  fields_cap :: u8

record object_heap =
  objects :: "jvm_object chunked"
  fields_arena :: "slot list"
  fields_arena_cap :: nat
  ob_first_free :: nat
  class_table :: "string list"
  class_table_cap :: nat
  ob_alloc_events :: u16

definition ob_new :: "nat \<Rightarrow> object_heap" where
  "ob_new shift =
     \<lparr>objects = cs_new shift, fields_arena = [], fields_arena_cap = 0, ob_first_free = 0,
      class_table = [], class_table_cap = 0, ob_alloc_events = 0\<rparr>"

definition ob_take_alloc_events :: "object_heap \<Rightarrow> u16 \<times> object_heap" where
  "ob_take_alloc_events h = (ob_alloc_events h, h\<lparr>ob_alloc_events := 0\<rparr>)"

definition ob_charge_alloc_events :: "u16 \<Rightarrow> object_heap \<Rightarrow> object_heap" where
  "ob_charge_alloc_events n h =
     h\<lparr>ob_alloc_events :=
        (case checked_add (ob_alloc_events h) n of None \<Rightarrow> -1 | Some e \<Rightarrow> e)\<rparr>"

text \<open>
  \<open>reserve_fallible\<close>: \<open>Vec\<close>'s own doubling first, then half steps down to the exact
  need. \<open>None\<close> is \<open>Exhausted\<close>.
\<close>

function reserve_steps :: "(nat \<Rightarrow> bool) \<Rightarrow> nat \<Rightarrow> nat \<Rightarrow> nat \<Rightarrow> nat \<Rightarrow> nat option" where
  "reserve_steps mem cap len extra step =
     (if extra < step
      then (case vec_reserve_exact mem cap len step of
              Some c \<Rightarrow> Some c | None \<Rightarrow> reserve_steps mem cap len extra (step div 2))
      else vec_reserve_exact mem cap len extra)"
  by pat_completeness auto
termination
  by (relation "measure (\<lambda>(mem, cap, len, extra, step). step)") auto

declare reserve_steps.simps [simp del]

definition reserve_fallible :: "(nat \<Rightarrow> bool) \<Rightarrow> nat \<Rightarrow> nat \<Rightarrow> nat \<Rightarrow> nat option" where
  "reserve_fallible mem cap len extra =
     (if extra \<le> cap - len then Some cap
      else case vec_reserve mem cap len extra of
             Some c \<Rightarrow> Some c
           | None \<Rightarrow> reserve_steps mem cap len extra (len div 2))"

text \<open>
  \<open>intern_class\<close>: the first row spelled like \<open>name\<close>, or a new one. The pass over
  pointers before the pass over bytes finds the same row, as the table has no two rows of one
  spelling.
\<close>

definition intern_class :: "allocator \<Rightarrow> string \<Rightarrow> object_heap \<Rightarrow> u16 option \<times> object_heap" where
  "intern_class al name h =
     (case position (\<lambda>e. e = name) (class_table h) of
        Some i \<Rightarrow> (Some (of_nat i), h)
      | None \<Rightarrow>
          (case reserve_fallible (al NameBuf) (class_table_cap h) (length (class_table h)) 1 of
             None \<Rightarrow> (None, h)
           | Some c \<Rightarrow>
               (Some (of_nat (length (class_table h))),
                h\<lparr>class_table := class_table h @ [name], class_table_cap := c\<rparr>)))"

definition FIELDS_ARENA_CHUNK :: nat where
  "FIELDS_ARENA_CHUNK = 256"

definition alloc_span :: "allocator \<Rightarrow> nat \<Rightarrow> object_heap \<Rightarrow> u32 option \<times> object_heap" where
  "alloc_span al n h =
     (if n = 0 then (Some 0, h)
      else if 255 < n then (None, h)
      else let len = length (fields_arena h); cap = fields_arena_cap h; need = len + n;
               grow = (need - cap + FIELDS_ARENA_CHUNK - 1) div FIELDS_ARENA_CHUNK * FIELDS_ARENA_CHUNK
           in case (if cap < need then vec_reserve_exact (al SlotBuf) cap len (cap + grow - len)
                    else Some cap) of
                None \<Rightarrow> (None, h)
              | Some c \<Rightarrow>
                  (Some (of_nat len),
                   h\<lparr>fields_arena := resize (fields_arena h) need SNull, fields_arena_cap := c\<rparr>))"

definition place_in_slot :: "allocator \<Rightarrow> jvm_object \<Rightarrow> (object_heap, fault, u16 option) action"
  where
  "place_in_slot al obj h0 =
     (let ff = scan_free (objects h0) (ob_first_free h0); h = h0\<lparr>ob_first_free := ff\<rparr>
      in if ff < cs_len (objects h)
         then (case cs_update (objects h) ff (Some obj) of
                 None \<Rightarrow> (Inl Panic, h)
               | Some cs \<Rightarrow> (Inr (Some (of_nat ff)), h\<lparr>objects := cs, ob_first_free := ff + 1\<rparr>))
         else if REF_TOP \<le> cs_len (objects h) then (Inr None, h)
         else (case cs_try_push (al ChunkBuf) (Some obj) (objects h) of
                 (None, cs) \<Rightarrow> (Inr None, h\<lparr>objects := cs\<rparr>)
               | (Some n, cs) \<Rightarrow>
                   (Inr (Some (of_nat (cs_len (objects h)))),
                    h\<lparr>objects := cs, ob_first_free := cs_len cs\<rparr>)))"

text \<open>\<open>self.fields_arena.truncate(off)\<close>.\<close>

definition cut_arena :: "nat \<Rightarrow> object_heap \<Rightarrow> object_heap" where
  "cut_arena n h = h\<lparr>fields_arena := take n (fields_arena h)\<rparr>"

definition alloc_with_field_count ::
  "allocator \<Rightarrow> string \<Rightarrow> nat \<Rightarrow> (object_heap, fault, u16 option) action" where
  "alloc_with_field_count al name n h0 =
     (let h1 = h0\<lparr>ob_alloc_events := saturating_inc16 (ob_alloc_events h0)\<rparr>
      in case intern_class al name h1 of
           (None, h2) \<Rightarrow> (Inr None, h2)
         | (Some ci, h2) \<Rightarrow>
             (case alloc_span al n h2 of
                (None, h3) \<Rightarrow> (Inr None, h3)
              | (Some off, h3) \<Rightarrow>
                  (case place_in_slot al \<lparr>fields_off = off, obj_class = ci, field_count = 0,
                                           fields_cap = of_nat n\<rparr> h3 of
                     (Inl e, h4) \<Rightarrow> (Inl e, h4)
                   | (Inr None, h4) \<Rightarrow> (Inr None, cut_arena (unat off) h4)
                   | (Inr (Some idx), h4) \<Rightarrow> (Inr (Some idx), h4))))"

definition ob_alloc :: "allocator \<Rightarrow> string \<Rightarrow> (object_heap, fault, u16 option) action" where
  "ob_alloc al name = alloc_with_field_count al name (default_field_count_for_native name)"

text \<open>\<open>self.objects.get(idx)?.as_ref()?\<close>.\<close>

definition ob_slot :: "object_heap \<Rightarrow> nat \<Rightarrow> jvm_object option" where
  "ob_slot h idx = (case cs_get (objects h) idx of Some (Some a) \<Rightarrow> Some a | _ \<Rightarrow> None)"

definition set_object :: "nat \<Rightarrow> jvm_object \<Rightarrow> object_heap \<Rightarrow> object_heap" where
  "set_object idx obj h =
     (case ob_slot h idx of
        None \<Rightarrow> h
      | Some _ \<Rightarrow> (case cs_update (objects h) idx (Some obj) of
            None \<Rightarrow> h | Some cs \<Rightarrow> h\<lparr>objects := cs\<rparr>))"

definition copy_span :: "nat \<Rightarrow> nat \<Rightarrow> nat \<Rightarrow> object_heap \<Rightarrow> object_heap option" where
  "copy_span from n to h =
     (if n = 0 then Some h
      else map_option (\<lambda>a. h\<lparr>fields_arena := a\<rparr>) (copy_within (fields_arena h) from n to))"

definition clone_object :: "allocator \<Rightarrow> u16 \<Rightarrow> (object_heap, fault, u16 option) action" where
  "clone_object al idx h0 =
     (case ob_slot h0 (unat idx) of
        None \<Rightarrow> (Inr None, h0)
      | Some src \<Rightarrow>
          (case alloc_span al (unat (fields_cap src)) h0 of
             (None, h1) \<Rightarrow> (Inr None, h1)
           | (Some off, h1) \<Rightarrow>
               (case copy_span (unat (fields_off src)) (unat (fields_cap src)) (unat off) h1 of
                  None \<Rightarrow> (Inl Panic, h1)
                | Some h2 \<Rightarrow>
                    (case place_in_slot al (src\<lparr>fields_off := off\<rparr>) h2 of
                       (Inl e, h3) \<Rightarrow> (Inl e, h3)
                     | (Inr None, h3) \<Rightarrow> (Inr None, cut_arena (unat off) h3)
                     | (Inr (Some i), h3) \<Rightarrow> (Inr (Some i), h3)))))"

definition get_field :: "object_heap \<Rightarrow> u16 \<Rightarrow> nat \<Rightarrow> jvm_value option" where
  "get_field h idx field =
     (case ob_slot h (unat idx) of
        None \<Rightarrow> None
      | Some obj \<Rightarrow>
          (let count = unat (field_count obj); base = unat (fields_off obj); at = base + field
           in if count \<le> field then None
              else if length (fields_arena h) \<le> at then None
              else case to_value (fields_arena h ! at) of
                     Some v \<Rightarrow> Some v
                   | None \<Rightarrow>
                       if count \<le> field + 1 then None
                       else if length (fields_arena h) \<le> at + 1 then None
                       else assemble (fields_arena h ! at) (fields_arena h ! (at + 1))))"

text \<open>The lazy growth of \<open>set_field\<close>: the span moves to a fresh tail.\<close>

definition grow_fields :: "allocator \<Rightarrow> nat \<Rightarrow> nat \<Rightarrow> jvm_object \<Rightarrow> (object_heap, fault, jvm_object option) action"
  where
  "grow_fields al idx needed obj h0 =
     (if needed \<le> unat (fields_cap obj) then (Inr (Some obj), h0)
      else case alloc_span al needed h0 of
             (None, h1) \<Rightarrow> (Inr None, h1)
           | (Some off, h1) \<Rightarrow>
               (case copy_span (unat (fields_off obj)) (unat (fields_cap obj)) (unat off) h1 of
                  None \<Rightarrow> (Inl Panic, h1)
                | Some h2 \<Rightarrow>
                    (let obj' = obj\<lparr>fields_off := off, fields_cap := of_nat needed\<rparr>
                     in (Inr (Some obj'), set_object idx obj' h2))))"

definition set_field :: "allocator \<Rightarrow> u16 \<Rightarrow> nat \<Rightarrow> jvm_value \<Rightarrow> (object_heap, fault, unit option) action"
  where
  "set_field al idx field v h0 =
     (case ob_slot h0 (unat idx) of
        None \<Rightarrow> (Inr None, h0)
      | Some obj0 \<Rightarrow>
          (let (lo, hi) = to_slots v; needed = field + 1 + (if hi = None then 0 else 1)
           in case grow_fields al (unat idx) needed obj0 h0 of
                (Inl e, h1) \<Rightarrow> (Inl e, h1)
              | (Inr None, h1) \<Rightarrow> (Inr None, h1)
              | (Inr (Some obj), h1) \<Rightarrow>
                  (let obj' = (if unat (field_count obj) < needed
                               then obj\<lparr>field_count := of_nat needed\<rparr> else obj);
                       h2 = set_object (unat idx) obj' h1;
                       at = unat (fields_off obj') + field; a = fields_arena h2
                   in if length a \<le> at + (if hi = None then 0 else 1) then (Inl Panic, h2)
                      else (Inr (Some ()),
                            h2\<lparr>fields_arena :=
                               (case hi of None \<Rightarrow> a[at := lo] | Some s \<Rightarrow> a[at := lo, at + 1 := s])\<rparr>))))"

definition ob_class_name :: "object_heap \<Rightarrow> u16 \<Rightarrow> string option" where
  "ob_class_name h idx =
     (case ob_slot h (unat idx) of
        None \<Rightarrow> None
      | Some o' \<Rightarrow> if unat (obj_class o') < length (class_table h)
                  then Some (class_table h ! unat (obj_class o')) else None)"

definition ob_class_id :: "object_heap \<Rightarrow> u16 \<Rightarrow> u16 option" where
  "ob_class_id h idx = map_option obj_class (ob_slot h (unat idx))"

definition ob_prereserve :: "allocator \<Rightarrow> nat \<Rightarrow> nat \<Rightarrow> object_heap \<Rightarrow> object_heap" where
  "ob_prereserve al slot_chunks fields_values h =
     (let h1 = h\<lparr>objects := cs_reserve_chunks (al ChunkBuf) slot_chunks (objects h)\<rparr>
      in if fields_arena_cap h1 < fields_values
         then (case vec_reserve_exact (al SlotBuf) (fields_arena_cap h1) (length (fields_arena h1))
                 (fields_values - length (fields_arena h1)) of
                 None \<Rightarrow> h1 | Some c \<Rightarrow> h1\<lparr>fields_arena_cap := c\<rparr>)
         else h1)"

definition ob_slot_count :: "object_heap \<Rightarrow> nat" where
  "ob_slot_count h = cs_len (objects h)"

definition ob_is_live :: "object_heap \<Rightarrow> u16 \<Rightarrow> bool" where
  "ob_is_live h idx \<longleftrightarrow> ob_slot h (unat idx) \<noteq> None"

text \<open>\<open>free\<close>, outside the poisoning mode of the diagnostics build.\<close>

definition ob_free :: "u16 \<Rightarrow> object_heap \<Rightarrow> object_heap" where
  "ob_free idx h =
     (case cs_update (objects h) (unat idx) None of
        None \<Rightarrow> h
      | Some cs \<Rightarrow>
          (let h = h\<lparr>objects := cs\<rparr>
           in if unat idx < ob_first_free h then h\<lparr>ob_first_free := unat idx\<rparr> else h))"

definition fields_slice :: "u16 \<Rightarrow> (object_heap, fault, slot list) action" where
  "fields_slice idx h =
     (case ob_slot h (unat idx) of
        None \<Rightarrow> (Inr [], h)
      | Some o' \<Rightarrow> sub_slice (fields_arena h) (unat (fields_off o')) (unat (field_count o')) h)"

definition ob_live_bytes :: "object_heap \<Rightarrow> nat" where
  "ob_live_bytes h =
     (\<Sum>i\<leftarrow>[0..<cs_len (objects h)].
        case ob_slot h i of None \<Rightarrow> 0 | Some o' \<Rightarrow> 12 + unat (fields_cap o') * 8)"

section \<open>Compaction\<close>

definition field_span :: "jvm_object \<Rightarrow> (u32 \<times> u16) option" where
  "field_span o' = (if 0 < fields_cap o' then Some (fields_off o', ucast (fields_cap o')) else None)"

definition field_spans :: "object_heap \<Rightarrow> span_table" where
  "field_spans h = map (\<lambda>s. Option.bind s field_span) (cs_iter (objects h))"

definition move_fields :: "nat \<Rightarrow> u32 \<Rightarrow> object_heap \<Rightarrow> object_heap" where
  "move_fields idx off h =
     (case ob_slot h idx of None \<Rightarrow> h | Some o' \<Rightarrow> set_object idx (o'\<lparr>fields_off := off\<rparr>) h)"

definition compact_fields_arena :: "allocator \<Rightarrow> nat \<Rightarrow> (object_heap, fault, nat) action" where
  "compact_fields_arena al cap h =
     (case ensure_slice_buf al cap FALLBACK_ENTRIES of
        None \<Rightarrow> (Inr cap, h)
      | Some cap' \<Rightarrow>
          (case compact_spans field_spans move_fields cap' (fields_arena h) h of
             None \<Rightarrow> (Inl Panic, h)
           | Some (a, h1) \<Rightarrow> (Inr cap', h1\<lparr>fields_arena := a\<rparr>)))"

section \<open>Objects of a loaded class\<close>

text \<open>
  What the packed link table of a class says, as its accessors read it: its own slots, each
  field's slot and kind, and its superclass, by index when it is loaded and by name.
\<close>

record class_info =
  ci_name :: string
  ci_own_slots :: nat
  ci_fields :: "(nat \<times> u8) list"
  ci_super :: "nat option"
  ci_super_name :: "string option"

definition KIND_REF :: u8 where "KIND_REF = 0"
definition KIND_INT :: u8 where "KIND_INT = 1"
definition KIND_FLOAT :: u8 where "KIND_FLOAT = 2"
definition KIND_LONG :: u8 where "KIND_LONG = 3"
definition KIND_DOUBLE :: u8 where "KIND_DOUBLE = 4"

definition ENUM_IMPLICIT_FIELDS :: nat where
  "ENUM_IMPLICIT_FIELDS = 2"

text \<open>
  The walk to the root, counted in a \<open>u8\<close>: a chain of more than 255 classes, as a cycle
  is, gives up. \<open>classes[i]\<close> out of range panics (\<open>Some None\<close> stands for giving up).
\<close>

fun super_chain :: "class_info list \<Rightarrow> nat \<Rightarrow> nat option \<Rightarrow> nat list option option" where
  "super_chain classes n None = Some (Some [])"
| "super_chain classes n (Some i) =
     (if length classes \<le> i then None
      else case n of
             0 \<Rightarrow> Some None
           | Suc m \<Rightarrow> map_option (map_option (\<lambda>is. i # is)) (super_chain classes m (ci_super (classes ! i))))"

definition kind_default :: "u8 \<Rightarrow> (slot \<times> slot option) option" where
  "kind_default k =
     (if k = KIND_INT then Some (to_slots (VInt 0))
      else if k = KIND_FLOAT then Some (to_slots (VFloat 0))
      else if k = KIND_LONG then Some (to_slots (VLong 0))
      else if k = KIND_DOUBLE then Some (to_slots (VDouble 0))
      else None)"

definition write_default :: "nat \<Rightarrow> nat \<times> u8 \<Rightarrow> slot list \<Rightarrow> slot list option" where
  "write_default first f a =
     (let at = first + fst f
      in case kind_default (snd f) of
           None \<Rightarrow> Some a
         | Some (lo, None) \<Rightarrow> write_at a at lo
         | Some (lo, Some hi) \<Rightarrow> Option.bind (write_at a at lo) (\<lambda>a. write_at a (at + 1) hi))"

primrec write_defaults :: "nat \<Rightarrow> (nat \<times> u8) list \<Rightarrow> slot list \<Rightarrow> slot list option" where
  "write_defaults first [] a = Some a"
| "write_defaults first (f # fs) a = Option.bind (write_default first f a) (write_defaults first fs)"

text \<open>Pass 2, leaf to root: each class's slots end where its subclass's begin.\<close>

primrec fill_chain :: "class_info list \<Rightarrow> nat \<Rightarrow> nat \<Rightarrow> nat list \<Rightarrow> slot list \<Rightarrow> slot list option option"
  where
  "fill_chain classes base end [] a = Some (Some a)"
| "fill_chain classes base end (i # is) a =
     (if end < ci_own_slots (classes ! i) then Some None
      else let first = end - ci_own_slots (classes ! i)
           in case write_defaults (base + first) (ci_fields (classes ! i)) a of
                None \<Rightarrow> None
              | Some a' \<Rightarrow> fill_chain classes base first is a')"

definition fill_fields :: "class_info list \<Rightarrow> nat list \<Rightarrow> nat \<Rightarrow> u16 \<Rightarrow> (object_heap, fault, u16 option) action"
  where
  "fill_fields classes chain n idx h =
     (case ob_slot h (unat idx) of
        None \<Rightarrow> (Inr None, h)
      | Some o' \<Rightarrow>
          (case fill_chain classes (unat (fields_off o')) n chain (fields_arena h) of
             None \<Rightarrow> (Inl Panic, h)
           | Some None \<Rightarrow> (Inr None, h)
           | Some (Some a) \<Rightarrow>
               (Inr (Some idx),
                set_object (unat idx)
                  (if unat (field_count o') < n then o'\<lparr>field_count := of_nat n\<rparr> else o')
                  (h\<lparr>fields_arena := a\<rparr>))))"

definition alloc_instance ::
  "allocator \<Rightarrow> class_info list \<Rightarrow> nat \<Rightarrow> (object_heap, fault, u16 option) action" where
  "alloc_instance al classes ci h =
     (if length classes \<le> ci then (Inr None, h)
      else case super_chain classes 255 (Some ci) of
             None \<Rightarrow> (Inl Panic, h)
           | Some None \<Rightarrow> (Inr None, h)
           | Some (Some chain) \<Rightarrow>
               (let total = (\<Sum>i\<leftarrow>chain. ci_own_slots (classes ! i));
                    start = (if ci_super_name (classes ! last chain) = Some java_lang_Enum
                             then ENUM_IMPLICIT_FIELDS else 0);
                    n = start + total
                in case alloc_with_field_count al (ci_name (classes ! ci)) n h of
                     (Inl e, h1) \<Rightarrow> (Inl e, h1)
                   | (Inr None, h1) \<Rightarrow> (Inr None, h1)
                   | (Inr (Some idx), h1) \<Rightarrow>
                       if 0 < total then fill_fields classes chain n idx h1
                       else (Inr (Some idx), h1)))"

definition find_class :: "class_info list \<Rightarrow> string \<Rightarrow> nat option" where
  "find_class classes name = position (\<lambda>c. ci_name c = name) classes"

definition alloc_with_defaults ::
  "allocator \<Rightarrow> string \<Rightarrow> class_info list \<Rightarrow> (object_heap, fault, u16 option) action" where
  "alloc_with_defaults al name classes =
     (case find_class classes name of
        Some ci \<Rightarrow> alloc_instance al classes ci
      | None \<Rightarrow> alloc_with_field_count al name
                 (if name = java_lang_Enum then ENUM_IMPLICIT_FIELDS else 0))"

end
