(* ===== verification/ObjectHeapLaws.thy ===== *)
theory ObjectHeapLaws
  imports ObjectHeap ArrayHeapLaws
begin

text \<open>
  What the object heap promises: its invariant, the abstraction of a heap to the class name
  and the populated field slots of each live object, and one law per operation against it.
\<close>

section \<open>The invariant and the abstraction\<close>

abbreviation obs :: "object_heap \<Rightarrow> jvm_object option list" where
  "obs h \<equiv> cs_iter (objects h)"

definition span_slots :: "object_heap \<Rightarrow> jvm_object \<Rightarrow> slot list" where
  "span_slots h a = slice (fields_arena h) (unat (fields_off a)) (unat (fields_cap a))"

definition obj_view :: "object_heap \<Rightarrow> jvm_object \<Rightarrow> string \<times> slot list" where
  "obj_view h a =
     (class_table h ! unat (obj_class a), take (unat (field_count a)) (span_slots h a))"

text \<open>The abstract heap.\<close>

definition ob_abs :: "object_heap \<Rightarrow> nat \<rightharpoonup> string \<times> slot list" where
  "ob_abs h i = map_option (obj_view h) (ob_slot h i)"

text \<open>
  A good object names a row of the class table, has no more populated slots than its span
  has room for, and the unpopulated ones are still \<open>Null\<close>; an empty span starts at 0.
\<close>

definition good_object :: "object_heap \<Rightarrow> jvm_object \<Rightarrow> bool" where
  "good_object h a \<longleftrightarrow> unat (obj_class a) < length (class_table h) \<and>
     field_count a \<le> fields_cap a \<and> (fields_cap a = 0 \<longrightarrow> fields_off a = 0) \<and>
     (\<forall>k<unat (fields_cap a). unat (field_count a) \<le> k \<longrightarrow> span_slots h a ! k = SNull)"

definition ob_inv :: "nat \<Rightarrow> object_heap \<Rightarrow> bool" where
  "ob_inv n h \<longleftrightarrow> cs_ok (objects h) \<and> length (obs h) \<le> REF_TOP \<and>
     (\<forall>a. Some a \<in> set (obs h) \<longrightarrow> good_object h a) \<and> distinct (class_table h) \<and>
     length (class_table h) \<le> class_table_cap h \<and>
     spans_ok (field_spans h) n \<and> n \<le> length (fields_arena h) \<and>
     length (fields_arena h) \<le> fields_arena_cap h \<and> fields_arena_cap h < 2 ^ 32 \<and>
     (\<forall>i<ob_first_free h. i < length (obs h) \<longrightarrow> obs h ! i \<noteq> None)"

definition ob_ok :: "object_heap \<Rightarrow> bool" where
  "ob_ok h \<longleftrightarrow> ob_inv (length (fields_arena h)) h"

lemma ob_new_ok: "ob_ok (ob_new shift)"
  by (simp add: cs_new_ok ob_ok_def ob_inv_def ob_new_def spans_ok_def spans_apart_def spans_within_def
      field_spans_def)

lemma ob_ok_inv: "ob_ok h \<Longrightarrow> ob_inv (length (fields_arena h)) h"
  by (simp add: ob_ok_def)

lemma ob_ok_cs: "ob_ok h \<Longrightarrow> cs_ok (objects h)"
  by (simp add: ob_ok_def ob_inv_def)

section \<open>Slots\<close>

lemma ob_slot_eq:
  "cs_ok (objects h) \<Longrightarrow> ob_slot h i = (if i < length (obs h) then obs h ! i else None)"
  by (simp add: ob_slot_def cs.get_slots split: option.splits)

lemma ob_slot_Some:
  assumes "cs_ok (objects h)" and "ob_slot h i = Some a"
  shows "i < length (obs h)" "obs h ! i = Some a" "Some a \<in> set (obs h)"
  using assms by (auto simp: ob_slot_eq split: if_splits) (metis nth_mem)

lemma ob_slot_cong [simp]:
  "ob_slot (h\<lparr>fields_arena := x\<rparr>) = ob_slot h" "ob_slot (h\<lparr>fields_arena_cap := c\<rparr>) = ob_slot h"
  "ob_slot (h\<lparr>ob_alloc_events := v\<rparr>) = ob_slot h" "ob_slot (h\<lparr>ob_first_free := f\<rparr>) = ob_slot h"
  "ob_slot (h\<lparr>class_table := t\<rparr>) = ob_slot h" "ob_slot (h\<lparr>class_table_cap := c\<rparr>) = ob_slot h"
  by (simp_all add: ob_slot_def fun_eq_iff)

lemma field_spans_cong [simp]:
  "field_spans (h\<lparr>fields_arena := x\<rparr>) = field_spans h"
  "field_spans (h\<lparr>fields_arena_cap := c\<rparr>) = field_spans h"
  "field_spans (h\<lparr>ob_alloc_events := v\<rparr>) = field_spans h"
  "field_spans (h\<lparr>ob_first_free := f\<rparr>) = field_spans h"
  "field_spans (h\<lparr>class_table := t\<rparr>) = field_spans h"
  "field_spans (h\<lparr>class_table_cap := c\<rparr>) = field_spans h"
  by (simp_all add: field_spans_def)

lemma ob_slot_write:
  assumes "cs_ok (objects h)" and "cs_ok cs" and "cs_iter cs = (obs h)[i := x]" and "i < length (obs h)"
  shows "ob_slot (h\<lparr>objects := cs\<rparr>) j = (if j = i then x else ob_slot h j)"
  using assms by (simp add: ob_slot_eq)

lemma set_object_eq:
  assumes "cs_ok (objects h)" and "ob_slot h i = Some a"
  shows "\<exists>cs. set_object i b h = h\<lparr>objects := cs\<rparr> \<and> cs_ok cs \<and> cs_iter cs = (obs h)[i := Some b]"
  using cs.update_slots [OF assms(1) ob_slot_Some(1) [OF assms], of "Some b"] assms(2)
  by (auto simp: set_object_def)

lemma field_spans_len [simp]: "length (field_spans h) = length (obs h)"
  by (simp add: field_spans_def)

lemma field_spans_nth: "i < length (obs h) \<Longrightarrow> field_spans h ! i = Option.bind (obs h ! i) field_span"
  by (simp add: field_spans_def)

lemma unat_ucast8: "unat (ucast a :: u16) = unat (a :: u8)"
  using unsigned_less [of a, where ?'a = nat] by (simp add: unsigned_ucast_eq take_bit_nat_eq_self)

lemma field_span_Some:
  "field_span a = Some (off, len) \<longleftrightarrow> 0 < fields_cap a \<and> off = fields_off a \<and> len = ucast (fields_cap a)"
  by (auto simp: field_span_def)

lemma field_span_at:
  "cs_ok (objects h) \<Longrightarrow> ob_slot h i = Some a \<Longrightarrow> field_spans h ! i = field_span a"
  using ob_slot_Some [of h i a] by (simp add: field_spans_nth)

text \<open>A live object with fields has its span within the arena, apart from every other span.\<close>

lemma span_in:
  assumes "ob_inv n h" and "ob_slot h i = Some a" and "0 < fields_cap a"
  shows "unat (fields_off a) + unat (fields_cap a) \<le> n"
proof -
  have ok: "cs_ok (objects h)" "spans_within (field_spans h) n"
    using assms(1) by (simp_all add: ob_inv_def spans_ok_def)
  have "field_spans h ! i = Some (fields_off a, ucast (fields_cap a))"
    using field_span_at [OF ok(1) assms(2)] assms(3) by (simp add: field_span_def)
  then have "Some (fields_off a, ucast (fields_cap a)) \<in> set (field_spans h)"
    using ob_slot_Some(1) [OF ok(1) assms(2)] by (metis field_spans_len nth_mem)
  with ok(2) have "unat (fields_off a) + unat (ucast (fields_cap a) :: u16) \<le> n"
    unfolding spans_within_def by blast
  then show ?thesis by (simp only: unat_ucast8)
qed

lemma other_span:
  assumes "ob_inv n h" and "ob_slot h i = Some a" "0 < fields_cap a"
    and "ob_slot h j = Some b" "0 < fields_cap b" and "i \<noteq> j"
  shows "unat (fields_off a) + unat (fields_cap a) \<le> unat (fields_off b) \<or>
    unat (fields_off b) + unat (fields_cap b) \<le> unat (fields_off a)"
proof -
  have ok: "cs_ok (objects h)" "spans_apart (field_spans h)"
    using assms(1) by (simp_all add: ob_inv_def spans_ok_def)
  have "field_spans h ! i = Some (fields_off a, ucast (fields_cap a))"
    "field_spans h ! j = Some (fields_off b, ucast (fields_cap b))"
    using field_span_at [OF ok(1)] assms by (simp_all add: field_span_def)
  with ok(2) ob_slot_Some(1) [OF ok(1)] assms(2,4,6)
  have "unat (fields_off a) + unat (ucast (fields_cap a) :: u16) \<le> unat (fields_off b) \<or>
    unat (fields_off b) + unat (ucast (fields_cap b) :: u16) \<le> unat (fields_off a)"
    unfolding spans_apart_def by (metis field_spans_len)
  then show ?thesis by (simp only: unat_ucast8)
qed

lemma good_of: "ob_inv n h \<Longrightarrow> ob_slot h i = Some a \<Longrightarrow> good_object h a"
  using ob_slot_Some(3) by (auto simp: ob_inv_def)

lemma length_span_slots:
  assumes "ob_inv n h" and "ob_slot h i = Some a"
  shows "length (span_slots h a) = unat (fields_cap a)"
proof (cases "0 < fields_cap a")
  case True
  have "n \<le> length (fields_arena h)" using assms(1) by (simp add: ob_inv_def)
  with span_in [OF assms True] show ?thesis by (simp add: span_slots_def slice_def)
next
  case False
  then have "fields_cap a = 0" by (simp add: word_gt_0)
  then show ?thesis by (simp add: span_slots_def slice_def)
qed

text \<open>Two heaps that agree below the live end of the arena show an object alike.\<close>

lemma span_slots_cong:
  assumes "ob_inv n h" and "ob_slot h i = Some a"
    and "take n (fields_arena h') = take n (fields_arena h)"
  shows "span_slots h' a = span_slots h a"
proof (cases "0 < fields_cap a")
  case True
  with span_in [OF assms(1,2)] assms(3) show ?thesis
    by (auto simp: span_slots_def intro: slice_cong)
next
  case False
  then have "fields_cap a = 0" by (simp add: word_gt_0)
  then show ?thesis by (simp add: span_slots_def slice_def)
qed

lemma obj_view_cong:
  assumes "ob_inv n h" and "ob_slot h i = Some a"
    and "take n (fields_arena h') = take n (fields_arena h)"
    and "take (length (class_table h)) (class_table h') = class_table h"
  shows "obj_view h' a = obj_view h a" "good_object h' a"
proof -
  note g = good_of [OF assms(1,2)] and s = span_slots_cong [OF assms(1-3)]
  have "class_table h' ! unat (obj_class a) = class_table h ! unat (obj_class a)"
    using g assms(4) by (metis good_object_def nth_take)
  then show "obj_view h' a = obj_view h a" by (simp add: obj_view_def s)
  have "length (class_table h) \<le> length (class_table h')"
    using arg_cong [OF assms(4), of length] by simp
  with g show "good_object h' a" by (simp add: good_object_def s)
qed

section \<open>Filling a slot\<close>

text \<open>The span of a new object: none, or the fresh end of the arena.\<close>

definition fresh_span :: "object_heap \<Rightarrow> nat \<Rightarrow> jvm_object \<Rightarrow> bool" where
  "fresh_span h n a \<longleftrightarrow>
     (if fields_cap a = 0 then n = length (fields_arena h)
      else unat (fields_off a) = n \<and> n + unat (fields_cap a) = length (fields_arena h))"

lemma ob_fill:
  assumes inv: "ob_inv n h" and fresh: "fresh_span h n a" and good: "good_object h a"
    and cs: "cs_ok cs" "length (cs_iter cs) \<le> REF_TOP"
    and it: "cs_iter cs = (obs h)[i := Some a] \<and> i < length (obs h) \<or>
      cs_iter cs = obs h @ [Some a] \<and> i = length (obs h)"
    and ff: "\<forall>j<ff. j < length (cs_iter cs) \<longrightarrow> cs_iter cs ! j \<noteq> None"
  shows "ob_ok (h\<lparr>objects := cs, ob_first_free := ff\<rparr>)"
proof -
  let ?h = "h\<lparr>objects := cs, ob_first_free := ff\<rparr>"
  let ?base = "\<lambda>sp. if i < length (obs h) then sp else sp @ [None]"
  have sp: "field_spans ?h = (?base (field_spans h))[i := field_span a]"
    using it by (auto simp: field_spans_def map_update list_update_append)
  have lens: "n \<le> length (fields_arena h)" "length (fields_arena h) < 2 ^ 32" "spans_ok (field_spans h) n"
    using inv by (simp_all add: ob_inv_def)
  moreover have "length (obs h) < 2 ^ 16" if "\<not> i < length (obs h)"
    using that it cs(2) by (auto simp: REF_TOP_def)
  ultimately have base: "spans_ok (?base (field_spans h)) n"
    by (auto intro: spans_ok_snoc)
  have i: "i < length (?base (field_spans h))" using it by auto
  have "spans_ok (field_spans ?h) (length (fields_arena h))"
  proof (cases "fields_cap a = 0")
    case True
    then show ?thesis
      using spans_ok_mono [OF spans_ok_clear [OF base] lens(1,2), of i]
      by (simp only: sp) (simp add: field_span_def)
  next
    case False
    have "0 < unat (ucast (fields_cap a) :: u16)"
      unfolding unat_ucast8 using False by (simp add: unat_gt_0)
    then have "0 < (ucast (fields_cap a) :: u16)" by (simp only: word_less_nat_alt) simp
    moreover have "n + unat (ucast (fields_cap a) :: u16) \<le> length (fields_arena h)"
      unfolding unat_ucast8 using False fresh by (simp add: fresh_span_def)
    ultimately have "spans_ok ((?base (field_spans h))[i := Some (fields_off a, ucast (fields_cap a))])
        (length (fields_arena h))"
      using False fresh spans_ok_fill [OF base i, of "fields_off a"] lens(2)
      by (simp add: fresh_span_def)
    then show ?thesis using False by (simp only: sp) (simp add: field_span_def word_gt_0)
  qed
  moreover have "good_object ?h b" if "good_object h b" for b
    using that by (simp add: good_object_def span_slots_def)
  then have "\<forall>b. Some b \<in> set (cs_iter cs) \<longrightarrow> good_object ?h b"
    using inv good it by (auto simp: ob_inv_def dest!: set_update_subset_insert [THEN subsetD])
  ultimately show ?thesis
    using inv cs ff by (simp add: ob_ok_def ob_inv_def)
qed

lemma ob_occupied_below:
  assumes "ob_inv n h"
  shows "\<forall>i < scan_free (objects h) (ob_first_free h). i < length (obs h) \<longrightarrow> obs h ! i \<noteq> None"
proof (intro allI impI)
  fix i assume i: "i < scan_free (objects h) (ob_first_free h)" "i < length (obs h)"
  have inv: "cs_ok (objects h)" "\<forall>i<ob_first_free h. i < length (obs h) \<longrightarrow> obs h ! i \<noteq> None"
    using assms by (simp_all add: ob_inv_def)
  show "obs h ! i \<noteq> None"
    using inv i scan_free_Some [OF inv(1) _ i(1)] by (cases "i < ob_first_free h") auto
qed

text \<open>A heap with a scanned first-free hint is as good, and shows the same.\<close>

lemma ob_hint_ok:
  "ob_inv n h \<Longrightarrow> ob_inv n (h\<lparr>ob_first_free := scan_free (objects h) (ob_first_free h)\<rparr>)"
  using ob_occupied_below [of n h]
  by (simp add: ob_inv_def good_object_def span_slots_def)

text \<open>Placing a good object: what is in the heap afterwards, or the unchanged heap.\<close>

lemma place_in_slot_law:
  assumes inv: "ob_inv n h" and fresh: "fresh_span h n a" and good: "good_object h a"
  shows "case place_in_slot al a h of
      (Inl e, h') \<Rightarrow> False
    | (Inr None, h') \<Rightarrow> h' = h\<lparr>ob_first_free := scan_free (objects h) (ob_first_free h)\<rparr>
    | (Inr (Some i), h') \<Rightarrow> ob_ok h' \<and> ob_slot h (unat i) = None \<and>
        (\<forall>j. ob_slot h' j = (if j = unat i then Some a else ob_slot h j)) \<and>
        fields_arena h' = fields_arena h \<and> class_table h' = class_table h \<and>
        ob_alloc_events h' = ob_alloc_events h"
proof -
  let ?ff = "scan_free (objects h) (ob_first_free h)"
  have cs: "cs_ok (objects h)" and top: "length (obs h) \<le> REF_TOP"
    using inv by (simp_all add: ob_inv_def)
  then have len: "cs_len (objects h) = length (obs h)" by (simp add: cs_len_iter)
  have idx: "unat (of_nat i :: u16) = i" if "i \<le> REF_TOP" for i
    using that by (simp add: REF_TOP_def unsigned_of_nat take_bit_nat_eq_self)
  note below = ob_occupied_below [OF inv]
  show ?thesis
  proof (cases "?ff < cs_len (objects h)")
    case True
    then have i: "?ff < length (obs h)" "obs h ! ?ff = None"
      using scan_free_None [OF cs] len by simp_all
    obtain cs' where cs': "cs_update (objects h) ?ff (Some a) = Some cs'" "cs_ok cs'"
      "cs_iter cs' = (obs h)[?ff := Some a]"
      using cs.update_slots [OF cs i(1)] by blast
    let ?h = "h\<lparr>objects := cs', ob_first_free := ?ff + 1\<rparr>"
    have "ob_ok ?h"
      using ob_fill [OF inv fresh good cs'(2), of ?ff "?ff + 1"] cs' i top below
      by (auto simp: less_Suc_eq nth_list_update)
    moreover have "ob_slot ?h j = (if j = ?ff then Some a else ob_slot h j)" for j
      using ob_slot_write [OF cs cs'(2,3) i(1), of j] by (simp add: ob_slot_def)
    moreover have "ob_slot h ?ff = None" using i ob_slot_eq [OF cs] by simp
    ultimately show ?thesis
      using True cs'(1) idx [of ?ff] i(1) top by (simp add: place_in_slot_def Let_def)
  next
    case full: False
    show ?thesis
    proof (cases "REF_TOP \<le> cs_len (objects h)")
      case True
      then show ?thesis using full by (simp add: place_in_slot_def Let_def)
    next
      case False
      obtain res cs' where Pair: "cs_try_push (al ChunkBuf) (Some a) (objects h) = (res, cs')"
        by fastforce
      show ?thesis
      proof (cases res)
        case None
        with Pair have "cs' = objects h" using cs_try_push_None by fastforce
        with Pair None full False show ?thesis by (simp add: place_in_slot_def Let_def)
      next
        case (Some m)
        with Pair have push: "cs_try_push (al ChunkBuf) (Some a) (objects h) = (Some m, cs')" by simp
        note p = cs.append_slots [OF cs push]
        let ?i = "length (obs h)"
        have cl: "cs_len cs' = ?i + 1" using p cs_len_iter [of cs'] by simp
        let ?h = "h\<lparr>objects := cs', ob_first_free := cs_len cs'\<rparr>"
        have "\<forall>j<?i. obs h ! j \<noteq> None" using full below len by auto
        then have "ob_ok ?h"
          using ob_fill [OF inv fresh good, of cs' ?i "cs_len cs'"] p False len cl
          by (auto simp: nth_append less_Suc_eq)
        moreover have "ob_slot ?h j = (if j = ?i then Some a else ob_slot h j)" for j
          using p cs by (auto simp: ob_slot_eq nth_append)
        moreover have "ob_slot h ?i = None" using ob_slot_eq [OF cs] by simp
        ultimately show ?thesis
          using full False push len idx [of ?i] top by (simp add: place_in_slot_def Let_def)
      qed
    qed
  qed
qed

section \<open>Reserving\<close>

lemma reserve_steps_room:
  "reserve_steps mem cap len extra step = Some c \<Longrightarrow> len \<le> cap \<Longrightarrow> len + extra \<le> c"
proof (induction mem cap len extra step rule: reserve_steps.induct)
  case (1 mem cap len extra step)
  from "1.prems" show ?case
    using "1.IH" vec_reserve_exact_room
    by (subst (asm) reserve_steps.simps) (fastforce split: if_splits option.splits)
qed

lemma reserve_fallible_room:
  "reserve_fallible mem cap len extra = Some c \<Longrightarrow> len \<le> cap \<Longrightarrow> len + extra \<le> c"
  using reserve_steps_room vec_reserve_room
  by (fastforce simp: reserve_fallible_def split: if_splits option.splits)

text \<open>The class table after interning: the old rows, and one for the name.\<close>

definition interned :: "object_heap \<Rightarrow> string \<Rightarrow> u16 \<Rightarrow> object_heap \<Rightarrow> bool" where
  "interned h name ci h' \<longleftrightarrow>
     h' = h\<lparr>class_table := class_table h', class_table_cap := class_table_cap h'\<rparr> \<and>
     take (length (class_table h)) (class_table h') = class_table h \<and>
     unat ci < length (class_table h') \<and> class_table h' ! unat ci = name"

lemma ob_inv_table:
  assumes inv: "ob_inv n h" and d: "distinct t" "length t \<le> c"
    and tk: "take (length (class_table h)) t = class_table h"
  shows "ob_inv n (h\<lparr>class_table := t, class_table_cap := c\<rparr>)"
proof -
  let ?h = "h\<lparr>class_table := t, class_table_cap := c\<rparr>"
  have cs: "cs_ok (objects h)" using inv by (simp add: ob_inv_def)
  have "good_object ?h a" if "Some a \<in> set (obs h)" for a
  proof -
    from that obtain i where "i < length (obs h)" "obs h ! i = Some a" by (auto simp: in_set_conv_nth)
    then have "ob_slot h i = Some a" using ob_slot_eq [OF cs] by simp
    from obj_view_cong(2) [OF inv this, of ?h] tk show ?thesis by simp
  qed
  with inv d show ?thesis by (simp add: ob_inv_def)
qed

lemma intern_class_law:
  assumes inv: "ob_inv n h" and room: "length (class_table h) < 2 ^ 16"
  shows "case intern_class al name h of
      (None, h') \<Rightarrow> h' = h
    | (Some ci, h') \<Rightarrow> interned h name ci h' \<and> ob_inv n h'"
proof (cases "position (\<lambda>e. e = name) (class_table h)")
  case (Some i)
  note p = position_Some [OF Some]
  moreover have "unat (of_nat i :: u16) = i"
    using p room by (simp add: unsigned_of_nat take_bit_nat_eq_self)
  ultimately show ?thesis using Some inv by (simp add: intern_class_def interned_def)
next
  case None
  then have new: "name \<notin> set (class_table h)" by (auto simp: position_None)
  have ix: "unat (of_nat (length (class_table h)) :: u16) = length (class_table h)"
    using room by (simp add: unsigned_of_nat take_bit_nat_eq_self)
  show ?thesis
  proof (cases "reserve_fallible (al NameBuf) (class_table_cap h) (length (class_table h)) 1")
    case None
    with \<open>position _ _ = None\<close> show ?thesis by (simp add: intern_class_def)
  next
    case (Some c)
    have "length (class_table h @ [name]) \<le> c"
      using reserve_fallible_room [OF Some] inv by (simp add: ob_inv_def)
    then have "ob_inv n (h\<lparr>class_table := class_table h @ [name], class_table_cap := c\<rparr>)"
      using inv new by (intro ob_inv_table) (auto simp: ob_inv_def)
    with Some None ix show ?thesis by (simp add: intern_class_def interned_def)
  qed
qed

lemma interned_view:
  assumes inv: "ob_inv n h" and i: "interned h name ci h'"
  shows "ob_abs h' = ob_abs h"
proof
  fix j
  have e: "h' = h\<lparr>class_table := class_table h', class_table_cap := class_table_cap h'\<rparr>"
    and tk: "take (length (class_table h)) (class_table h') = class_table h"
    using i by (simp_all only: interned_def)
  have "ob_slot h' j = ob_slot h j" "fields_arena h' = fields_arena h" by (subst e, simp)+
  then show "ob_abs h' j = ob_abs h j"
    using obj_view_cong(1) [OF inv, of j _ h'] tk by (cases "ob_slot h j") (auto simp: ob_abs_def)
qed

text \<open>A heap whose arena grew at its end.\<close>

definition extended :: "object_heap \<Rightarrow> slot list \<Rightarrow> object_heap \<Rightarrow> bool" where
  "extended h xs h' \<longleftrightarrow>
     h' = h\<lparr>fields_arena := fields_arena h @ xs, fields_arena_cap := fields_arena_cap h'\<rparr>"

lemma ob_inv_arena:
  assumes inv: "ob_inv n h" and a: "take n a = take n (fields_arena h)" "n \<le> length a"
    "length a \<le> c" "c < 2 ^ 32"
  shows "ob_inv n (h\<lparr>fields_arena := a, fields_arena_cap := c\<rparr>)"
proof -
  let ?h = "h\<lparr>fields_arena := a, fields_arena_cap := c\<rparr>"
  have cs: "cs_ok (objects h)" using inv by (simp add: ob_inv_def)
  have "good_object ?h o'" if "Some o' \<in> set (obs h)" for o'
  proof -
    from that obtain i where "i < length (obs h)" "obs h ! i = Some o'" by (auto simp: in_set_conv_nth)
    then have "ob_slot h i = Some o'" using ob_slot_eq [OF cs] by simp
    from obj_view_cong(2) [OF inv this, of ?h] a show ?thesis by simp
  qed
  with inv a show ?thesis by (simp add: ob_inv_def)
qed

lemma ob_abs_cong:
  assumes inv: "ob_inv n h" and "ob_slot h' = ob_slot h" and "class_table h' = class_table h"
    and "take n (fields_arena h') = take n (fields_arena h)"
  shows "ob_abs h' = ob_abs h"
proof
  fix j show "ob_abs h' j = ob_abs h j"
    using obj_view_cong(1) [OF inv, of j _ h'] assms by (cases "ob_slot h j") (auto simp: ob_abs_def)
qed

lemma round_up:
  fixes x k :: nat
  assumes "0 < k"
  shows "x \<le> (x + k - 1) div k * k"
  using div_mult_mod_eq [of "x + k - 1" k] mod_less_divisor [OF assms, of "x + k - 1"] assms
  by linarith

lemma alloc_span_law:
  assumes ok: "ob_ok h" and al: "small_allocator al"
  shows "case alloc_span al n h of
      (None, h') \<Rightarrow> h' = h \<and> n \<noteq> 0
    | (Some off, h') \<Rightarrow> n \<le> 255 \<and> (n = 0 \<and> off = 0 \<or> 0 < n \<and> unat off = length (fields_arena h)) \<and>
        extended h (replicate n SNull) h' \<and> ob_inv (length (fields_arena h)) h'"
proof (cases "n = 0 \<or> 255 < n")
  case True
  then show ?thesis using ok by (auto simp: alloc_span_def extended_def ob_ok_def)
next
  case False
  let ?len = "length (fields_arena h)" and ?cap = "fields_arena_cap h"
  let ?grow = "(?len + n - ?cap + FIELDS_ARENA_CHUNK - 1) div FIELDS_ARENA_CHUNK * FIELDS_ARENA_CHUNK"
  let ?r = "if ?cap < ?len + n then vec_reserve_exact (al SlotBuf) ?cap ?len (?cap + ?grow - ?len)
            else Some ?cap"
  have inv: "?len \<le> ?cap" "?cap < 2 ^ 32" "ob_inv ?len h" using ok by (simp_all add: ob_ok_def ob_inv_def)
  have n: "n \<noteq> 0" "\<not> 255 < n" using False by simp_all
  have start: "alloc_span al n h = (case ?r of
        None \<Rightarrow> (None, h)
      | Some c \<Rightarrow> (Some (of_nat ?len),
          h\<lparr>fields_arena := resize (fields_arena h) (?len + n) SNull, fields_arena_cap := c\<rparr>))"
    unfolding alloc_span_def Let_def using n by (simp only: if_False)
  show ?thesis
  proof (cases ?r)
    case None
    show ?thesis unfolding start None using n by simp
  next
    case (Some c)
    have grow: "?len + n - ?cap \<le> ?grow"
      by (rule round_up) (simp add: FIELDS_ARENA_CHUNK_def)
    have c: "?len + n \<le> c \<and> c < 2 ^ 32"
    proof (cases "?cap < ?len + n")
      case True
      with Some have "vec_reserve_exact (al SlotBuf) ?cap ?len (?cap + ?grow - ?len) = Some c" by simp
      from small_reserve [OF al this inv(1,2)]
      have "?len + (?cap + ?grow - ?len) \<le> c" "c < 2 ^ 32" by blast+
      moreover have "?len + n \<le> ?len + (?cap + ?grow - ?len)" using grow True by arith
      ultimately show ?thesis by (intro conjI) (rule le_trans, assumption+)
    qed (use Some inv in simp)
    then have "unat (of_nat ?len :: u32) = ?len" by (intro unat_of_nat32) simp
    moreover have "ob_inv ?len (h\<lparr>fields_arena := fields_arena h @ replicate n SNull, fields_arena_cap := c\<rparr>)"
      using c by (intro ob_inv_arena [OF inv(3)]) simp_all
    ultimately show ?thesis
      unfolding start Some using n by (simp add: extended_def resize_grow)
  qed
qed

section \<open>Allocation\<close>

lemma ob_events_ok:
  "ob_ok (h\<lparr>ob_alloc_events := v\<rparr>) = ob_ok h" "ob_abs (h\<lparr>ob_alloc_events := v\<rparr>) = ob_abs h"
  by (simp_all add: ob_ok_def ob_inv_def good_object_def ob_abs_def obj_view_def span_slots_def fun_eq_iff
      cong: option.map_cong)

lemma ob_hint_abs: "ob_abs (h\<lparr>ob_first_free := f\<rparr>) = ob_abs h"
  by (simp add: ob_abs_def obj_view_def span_slots_def fun_eq_iff cong: option.map_cong)

text \<open>Cutting a fresh end off the arena restores it.\<close>

lemma cut_arena_ok:
  assumes "ob_inv n h" and "n \<le> length (fields_arena h)"
  shows "ob_ok (cut_arena n h) \<and> ob_abs (cut_arena n h) = ob_abs h"
proof -
  have "fields_arena_cap (h\<lparr>fields_arena := take n (fields_arena h)\<rparr>) = fields_arena_cap h" by simp
  then have "ob_inv n (h\<lparr>fields_arena := take n (fields_arena h), fields_arena_cap := fields_arena_cap h\<rparr>)"
    using assms by (intro ob_inv_arena) (auto simp: ob_inv_def)
  moreover have "ob_abs (cut_arena n h) = ob_abs h"
    by (rule ob_abs_cong [OF assms(1)]) (simp_all add: cut_arena_def)
  ultimately show ?thesis using assms(2) by (simp add: ob_ok_def cut_arena_def)
qed

text \<open>A placed object is the one new entry of the abstract heap.\<close>

lemma placed_abs:
  assumes inv: "ob_inv n h" and "fields_arena h' = fields_arena h" "class_table h' = class_table h"
    and slots: "\<forall>j. ob_slot h' j = (if j = i then Some a else ob_slot h j)"
  shows "ob_abs h' = (ob_abs h)(i \<mapsto> obj_view h a)"
  using assms by (auto simp: ob_abs_def fun_eq_iff obj_view_def span_slots_def cong: option.map_cong)

text \<open>The heap between the reservations and the placement.\<close>

definition prepared :: "object_heap \<Rightarrow> string \<Rightarrow> nat \<Rightarrow> jvm_object \<Rightarrow> object_heap \<Rightarrow> bool" where
  "prepared h name n a h3 \<longleftrightarrow>
     n \<le> 255 \<and> fields_cap a = of_nat n \<and> field_count a = 0 \<and>
     (n = 0 \<and> fields_off a = 0 \<or> 0 < n \<and> unat (fields_off a) = length (fields_arena h)) \<and>
     ob_inv (length (fields_arena h)) h3 \<and>
     fields_arena h3 = fields_arena h @ replicate n SNull \<and> ob_slot h3 = ob_slot h \<and>
     ob_abs h3 = ob_abs h \<and> unat (obj_class a) < length (class_table h3) \<and>
     class_table h3 ! unat (obj_class a) = name"

lemma unat_cap: "n \<le> 255 \<Longrightarrow> unat (of_nat n :: u8) = n"
  by (simp add: unsigned_of_nat take_bit_nat_eq_self)

lemma prepared_fresh:
  assumes "prepared h name n a h3"
  shows "fresh_span h3 (length (fields_arena h)) a" "good_object h3 a" "obj_view h3 a = (name, [])"
proof -
  have c: "unat (fields_cap a) = n" "fields_cap a = 0 \<longleftrightarrow> n = 0"
    using assms unat_cap by (auto simp: prepared_def unat_eq_0 [symmetric])
  show "fresh_span h3 (length (fields_arena h)) a"
    using assms c by (auto simp: prepared_def fresh_span_def)
  have "span_slots h3 a = replicate n SNull"
    using assms c slice_append_end [of "fields_arena h" "replicate n SNull"]
    by (auto simp: prepared_def span_slots_def slice_def)
  then show "good_object h3 a" "obj_view h3 a = (name, [])"
    using assms c by (auto simp: prepared_def good_object_def obj_view_def)
qed

text \<open>What an allocation of \<open>n\<close> field slots leaves.\<close>

definition allocated :: "object_heap \<Rightarrow> string \<Rightarrow> nat \<Rightarrow> u16 \<Rightarrow> object_heap \<Rightarrow> bool" where
  "allocated h name n i h' \<longleftrightarrow>
     ob_ok h' \<and> ob_abs h (unat i) = None \<and> ob_abs h' = (ob_abs h)(unat i \<mapsto> (name, [])) \<and>
     (\<exists>a. ob_slot h' (unat i) = Some a \<and> unat (fields_cap a) = n \<and> field_count a = 0)"

lemma place_prepared:
  assumes p: "prepared h name n a h3"
  shows "case place_in_slot al a h3 of
      (Inl e, h4) \<Rightarrow> False
    | (Inr None, h4) \<Rightarrow>
        (if n = 0 then fields_arena (cut_arena (unat (fields_off a)) h4) = []
         else ob_ok (cut_arena (unat (fields_off a)) h4) \<and>
           ob_abs (cut_arena (unat (fields_off a)) h4) = ob_abs h)
    | (Inr (Some i), h4) \<Rightarrow> allocated h name n i h4"
proof -
  let ?n = "length (fields_arena h)"
  have inv: "ob_inv ?n h3" and abs: "ob_abs h3 = ob_abs h" using p by (simp_all add: prepared_def)
  note f = prepared_fresh [OF p] and law = place_in_slot_law [OF inv prepared_fresh(1,2) [OF p], of al]
  obtain r h4 where r: "place_in_slot al a h3 = (r, h4)" by fastforce
  show ?thesis
  proof (cases r)
    case (Inl e)
    with law r show ?thesis by simp
  next
    case (Inr res)
    show ?thesis
    proof (cases res)
      case None
      with law r Inr have h4: "h4 = h3\<lparr>ob_first_free := scan_free (objects h3) (ob_first_free h3)\<rparr>"
        by simp
      have inv4: "ob_inv ?n h4" unfolding h4 by (rule ob_hint_ok [OF inv])
      have "ob_abs h4 = ob_abs h" unfolding h4 by (simp add: ob_hint_abs abs)
      moreover have "?n \<le> length (fields_arena h4)" using p h4 by (simp add: prepared_def)
      ultimately show ?thesis
        using r Inr None p cut_arena_ok [OF inv4] by (auto simp: prepared_def cut_arena_def)
    next
      case (Some i)
      with law r Inr have l: "ob_ok h4" "ob_slot h3 (unat i) = None"
        "\<forall>j. ob_slot h4 j = (if j = unat i then Some a else ob_slot h3 j)"
        "fields_arena h4 = fields_arena h3" "class_table h4 = class_table h3"
        by simp_all
      have "ob_abs h4 = (ob_abs h)(unat i \<mapsto> (name, []))"
        using placed_abs [OF inv l(4,5,3)] f(3) abs by simp
      moreover have "ob_abs h (unat i) = None" using l(2) p by (simp add: prepared_def ob_abs_def)
      moreover have "\<exists>a. ob_slot h4 (unat i) = Some a \<and> unat (fields_cap a) = n \<and> field_count a = 0"
        using l(3) p unat_cap by (auto simp: prepared_def)
      ultimately show ?thesis using r Inr Some l(1) by (simp add: allocated_def)
    qed
  qed
qed

lemma ob_alloc_law:
  assumes ok: "ob_ok h" and al: "small_allocator al" and room: "length (class_table h) < 2 ^ 16"
  shows "case alloc_with_field_count al name n h of
      (Inl e, h') \<Rightarrow> False
    | (Inr None, h') \<Rightarrow> ob_ok h' \<and> ob_abs h' = ob_abs h \<or> n = 0 \<and> fields_arena h' = []
    | (Inr (Some i), h') \<Rightarrow> allocated h name n i h'"
proof -
  let ?h1 = "h\<lparr>ob_alloc_events := saturating_inc16 (ob_alloc_events h)\<rparr>" and ?n = "length (fields_arena h)"
  have ok1: "ob_ok ?h1" "ob_abs ?h1 = ob_abs h" using ok by (simp_all add: ob_events_ok)
  have inv1: "ob_inv ?n ?h1" using ok1(1) by (simp add: ob_ok_def)
  have room1: "length (class_table ?h1) < 2 ^ 16" using room by simp
  note il = intern_class_law [OF inv1 room1, where al = al and name = name]
  obtain r2 h2 where r2: "intern_class al name ?h1 = (r2, h2)" by fastforce
  show ?thesis
  proof (cases r2)
    case None
    with il r2 ok1 show ?thesis by (simp add: alloc_with_field_count_def)
  next
    case ci: (Some ci)
    with il r2 have i: "interned ?h1 name ci h2" "ob_inv ?n h2" by simp_all
    have ab2: "ob_abs h2 = ob_abs h" using interned_view [OF inv1 i(1)] ok1(2) by simp
    have e2: "h2 = ?h1\<lparr>class_table := class_table h2, class_table_cap := class_table_cap h2\<rparr>"
      and row: "unat ci < length (class_table h2)" "class_table h2 ! unat ci = name"
      using i(1) by (simp_all only: interned_def)
    have a2: "fields_arena h2 = fields_arena h" "ob_slot h2 = ob_slot h" by (subst e2, simp)+
    have ok2: "ob_ok h2" using i(2) a2 by (simp add: ob_ok_def)
    note sl = alloc_span_law [OF ok2 al, of n]
    obtain r3 h3 where r3: "alloc_span al n h2 = (r3, h3)" by fastforce
    show ?thesis
    proof (cases r3)
      case None
      with sl r3 r2 ci ok2 ab2 show ?thesis by (simp add: alloc_with_field_count_def)
    next
      case off: (Some off)
      let ?a = "\<lparr>fields_off = off, obj_class = ci, field_count = 0, fields_cap = of_nat n\<rparr>"
      from off sl r3 have s: "n \<le> 255" "n = 0 \<and> off = 0 \<or> 0 < n \<and> unat off = ?n"
        "extended h2 (replicate n SNull) h3" "ob_inv ?n h3"
        using a2(1) by simp_all
      have e3: "h3 = h2\<lparr>fields_arena := fields_arena h2 @ replicate n SNull,
          fields_arena_cap := fields_arena_cap h3\<rparr>"
        using s(3) by (simp only: extended_def)
      have a3: "fields_arena h3 = fields_arena h @ replicate n SNull" "ob_slot h3 = ob_slot h"
        "class_table h3 = class_table h2"
        using a2 by (subst e3, simp)+
      have "ob_abs h3 = ob_abs h2"
        using a3 a2 i(2) by (intro ob_abs_cong [OF i(2)]) simp_all
      with s a3 ab2 row have "prepared h name n ?a h3" by (simp add: prepared_def)
      note pl = place_prepared [OF this, where al = al]
      then show ?thesis
        using r2 ci r3 off
        by (auto simp: alloc_with_field_count_def split: prod.splits sum.splits option.splits if_splits)
    qed
  qed
qed

section \<open>Rewriting a span\<close>

definition write_slots :: "'a list \<Rightarrow> nat \<Rightarrow> 'a list \<Rightarrow> 'a list" where
  "write_slots a at ws = take at a @ ws @ drop (at + length ws) a"

lemma write_slots_Nil [simp]: "write_slots a at [] = a"
  by (simp add: write_slots_def)

lemma length_write_slots: "at + length ws \<le> length a \<Longrightarrow> length (write_slots a at ws) = length a"
  by (simp add: write_slots_def)

lemma write_slots_nth:
  "at + length ws \<le> length a \<Longrightarrow> k < length a \<Longrightarrow>
     write_slots a at ws ! k = (if at \<le> k \<and> k < at + length ws then ws ! (k - at) else a ! k)"
  by (auto simp: write_slots_def nth_append min_absorb2)

lemma slice_nth: "k < n \<Longrightarrow> off + n \<le> length a \<Longrightarrow> slice a off n ! k = a ! (off + k)"
  by (simp add: slice_def)

lemma slice_write_other:
  "at + length ws \<le> length a \<Longrightarrow> off + n \<le> length a \<Longrightarrow> off + n \<le> at \<or> at + length ws \<le> off \<Longrightarrow>
     slice (write_slots a at ws) off n = slice a off n"
  by (rule nth_equalityI) (auto simp: length_slice length_write_slots slice_nth write_slots_nth)

lemma slice_write_own:
  "at + length ws \<le> length a \<Longrightarrow> slice (write_slots a at ws) at (length ws) = ws"
  by (rule nth_equalityI) (auto simp: length_slice length_write_slots slice_nth write_slots_nth)

lemma write_slots_inner:
  assumes "off + n \<le> length a" and "k + length ws \<le> n"
  shows "write_slots a off (write_slots (slice a off n) k ws) = write_slots a (off + k) ws"
  by (rule nth_equalityI)
    (use assms in \<open>auto simp: length_slice length_write_slots slice_nth write_slots_nth\<close>)

lemma cap_zero: "\<not> 0 < c \<longleftrightarrow> unat (c :: u8) = 0"
  by (simp add: word_gt_0 unat_eq_0)

lemma ob_respan:
  assumes ok: "ob_ok h" and a: "ob_slot h i = Some a"
    and sp: "length sp = unat (fields_cap a)" "c \<le> fields_cap a"
      "\<forall>k<unat (fields_cap a). unat c \<le> k \<longrightarrow> sp ! k = SNull"
    and cs: "cs_ok cs" "cs_iter cs = (obs h)[i := Some (a\<lparr>field_count := c\<rparr>)]"
    and h': "h' = h\<lparr>objects := cs, fields_arena := write_slots (fields_arena h) (unat (fields_off a)) sp\<rparr>"
  shows "ob_ok h' \<and> ob_abs h' = (ob_abs h)(i \<mapsto> (class_table h ! unat (obj_class a), take (unat c) sp))"
proof -
  let ?n = "length (fields_arena h)" and ?off = "unat (fields_off a)"
  note inv = ob_ok_inv [OF ok] and cs0 = ob_ok_cs [OF ok]
  note i = ob_slot_Some [OF cs0 a]
  have room: "?off + length sp \<le> ?n \<or> sp = []"
    using span_in [OF inv a] sp(1) cap_zero [of "fields_cap a"] by auto
  have same: "length (fields_arena h') = ?n" and ar: "sp \<noteq> [] \<Longrightarrow> ?off + length sp \<le> ?n"
    using room by (auto simp: h' length_write_slots write_slots_def)
  have own: "span_slots h' (a\<lparr>field_count := c\<rparr>) = sp"
    using room sp(1) slice_write_own [of ?off sp "fields_arena h"]
    by (auto simp: span_slots_def h' slice_def)
  have other: "span_slots h' b = span_slots h b" if b: "ob_slot h j = Some b" "j \<noteq> i" for j b
  proof (cases "0 < fields_cap b \<and> sp \<noteq> []")
    case True
    then have "0 < fields_cap a" using sp(1) cap_zero [of "fields_cap a"] by (metis length_0_conv)
    from other_span [OF inv a this b(1)] True b(2)
    have "?off + length sp \<le> unat (fields_off b) \<or> unat (fields_off b) + unat (fields_cap b) \<le> ?off"
      using sp(1) by auto
    then show ?thesis
      using True span_in [OF inv b(1)] ar slice_write_other [of ?off sp "fields_arena h"]
      by (auto simp: span_slots_def h')
  next
    case False
    then show ?thesis using cap_zero [of "fields_cap b"] by (auto simp: span_slots_def h' slice_def)
  qed
  have slot: "ob_slot h' j = (if j = i then Some (a\<lparr>field_count := c\<rparr>) else ob_slot h j)" for j
    using ob_slot_write [OF cs0 cs i(1), of j] by (simp add: h' ob_slot_def)
  have tab: "class_table h' = class_table h" by (simp add: h')
  have abs: "ob_abs h' = (ob_abs h)(i \<mapsto> (class_table h ! unat (obj_class a), take (unat c) sp))"
  proof
    fix j show "ob_abs h' j = ((ob_abs h)(i \<mapsto> (class_table h ! unat (obj_class a), take (unat c) sp))) j"
      using own other [of j] slot [of j] tab
      by (cases "ob_slot h j") (auto simp: ob_abs_def obj_view_def)
  qed
  have good: "good_object h' b" if "Some b \<in> set (cs_iter cs)" for b
  proof -
    from that obtain j where "j < length (cs_iter cs)" "cs_iter cs ! j = Some b"
      by (auto simp: in_set_conv_nth)
    then have b: "ob_slot h' j = Some b" using ob_slot_eq [of h' j] cs(1) by (simp add: h')
    show ?thesis
    proof (cases "j = i")
      case True
      with b slot have "b = a\<lparr>field_count := c\<rparr>" by simp
      then show ?thesis using own sp good_of [OF inv a] tab by (simp add: good_object_def)
    next
      case False
      with b slot have b: "ob_slot h j = Some b" by simp
      then show ?thesis using other [OF b False] good_of [OF inv b] tab by (simp add: good_object_def)
    qed
  qed
  have "field_spans h' = field_spans h"
    using i by (simp add: field_spans_def h' cs(2) map_update field_span_def list_update_same_conv)
  moreover have "\<forall>j<ob_first_free h. j < length (cs_iter cs) \<longrightarrow> cs_iter cs ! j \<noteq> None"
    using inv cs(2) i(1) by (auto simp: ob_inv_def nth_list_update)
  moreover have "objects h' = cs" "ob_first_free h' = ob_first_free h"
    "class_table_cap h' = class_table_cap h" "fields_arena_cap h' = fields_arena_cap h"
    by (simp_all add: h')
  ultimately have "ob_ok h'"
    using inv cs good same tab unfolding ob_ok_def ob_inv_def by simp
  with abs show ?thesis by simp
qed

section \<open>Reading and writing fields\<close>

lemma get_field_law:
  assumes ok: "ob_ok h"
  shows "get_field h idx field =
    (case ob_abs h (unat idx) of
       None \<Rightarrow> None | Some (c, fs) \<Rightarrow> map_option fst (read_value (drop field fs)))"
proof (cases "ob_slot h (unat idx)")
  case None
  then show ?thesis by (simp add: get_field_def ob_abs_def)
next
  case (Some a)
  let ?cnt = "unat (field_count a)" and ?off = "unat (fields_off a)"
  let ?fs = "take ?cnt (span_slots h a)"
  note inv = ob_ok_inv [OF ok]
  have le: "?cnt \<le> unat (fields_cap a)"
    using good_of [OF inv Some] by (simp add: good_object_def word_le_nat_alt)
  have len: "length ?fs = ?cnt" using le length_span_slots [OF inv Some] by simp
  have abs: "ob_abs h (unat idx) = Some (class_table h ! unat (obj_class a), ?fs)"
    by (simp add: ob_abs_def Some obj_view_def)
  show ?thesis
  proof (cases "?cnt \<le> field")
    case True
    then show ?thesis using len by (simp add: get_field_def Some abs)
  next
    case False
    then have "0 < fields_cap a" using le cap_zero [of "fields_cap a"] by auto
    from span_in [OF inv Some this] have room: "?off + unat (fields_cap a) \<le> length (fields_arena h)" .
    have at: "fields_arena h ! (?off + k) = ?fs ! k" if "k < ?cnt" for k
      using that le room by (simp add: span_slots_def slice_nth)
    have d: "drop field ?fs = ?fs ! field # drop (field + 1) ?fs"
      using False len Cons_nth_drop_Suc [of field ?fs] by simp
    show ?thesis
    proof (cases "?cnt \<le> field + 1")
      case True
      then have "drop (field + 1) ?fs = []" unfolding drop_eq_Nil len .
      with True show ?thesis
        using False room le at [of field]
        by (simp add: get_field_def Some abs d Let_def split: option.splits)
    next
      case more: False
      have "drop (field + 1) ?fs = ?fs ! (field + 1) # drop (field + 2) ?fs"
        using more len Cons_nth_drop_Suc [of "field + 1" ?fs] by simp
      then show ?thesis
        using more False room le at [of field] at [of "field + 1"]
        by (simp add: get_field_def Some abs d Let_def add.assoc split: option.splits)
    qed
  qed
qed

text \<open>The field list after a write: grown with \<open>Null\<close> as far as the value reaches.\<close>

definition put_slots :: "nat \<Rightarrow> jvm_value \<Rightarrow> slot list \<Rightarrow> slot list" where
  "put_slots field v fs =
     write_slots (resize fs (max (length fs) (field + slot_width v)) SNull) field (slots_of v)"

lemma needed_width: "to_slots v = (lo, hi) \<Longrightarrow> field + 1 + (if hi = None then 0 else 1) = field + slot_width v"
  by (cases v) (auto simp: slot_width_def)

lemma update_two: "k + 1 < length a \<Longrightarrow> a[k := x, Suc k := y] = take k a @ x # y # drop (Suc (Suc k)) a"
proof (induction a arbitrary: k)
  case (Cons z zs)
  then show ?case by (cases k; cases zs) auto
qed simp

lemma write_value:
  assumes "to_slots v = (lo, hi)" and "at + slot_width v \<le> length a"
  shows "(case hi of None \<Rightarrow> a[at := lo] | Some s \<Rightarrow> a[at := lo, at + 1 := s]) = write_slots a at (slots_of v)"
proof (cases hi)
  case None
  then have "slots_of v = [lo]" using assms(1) by (simp add: slots_of_def)
  moreover from this have "slot_width v = 1" unfolding length_slots_of [symmetric] by simp
  then have "at < length a" using assms(2) by simp
  ultimately show ?thesis using None by (simp add: write_slots_def upd_conv_take_nth_drop)
next
  case (Some s)
  then have w: "slots_of v = [lo, s]" using assms(1) by (simp add: slots_of_def)
  then have "slot_width v = 2" unfolding length_slots_of [symmetric] by simp
  then have "at + 1 < length a" using assms(2) by simp
  then show ?thesis
    using Some w update_two by (simp add: write_slots_def)
qed

lemma put_slots_span:
  assumes len: "length sp = cap" "cnt \<le> cap" "field + slot_width v \<le> cap"
    and null: "\<forall>k<cap. cnt \<le> k \<longrightarrow> sp ! k = SNull"
  shows "take (max cnt (field + slot_width v)) (write_slots sp field (slots_of v)) =
      put_slots field v (take cnt sp)"
    and "\<forall>k<cap. max cnt (field + slot_width v) \<le> k \<longrightarrow> write_slots sp field (slots_of v) ! k = SNull"
proof -
  show "take (max cnt (field + slot_width v)) (write_slots sp field (slots_of v)) =
      put_slots field v (take cnt sp)"
    unfolding put_slots_def
    by (rule nth_equalityI) (use assms in \<open>auto simp: length_write_slots write_slots_nth nth_resize\<close>)
  show "\<forall>k<cap. max cnt (field + slot_width v) \<le> k \<longrightarrow> write_slots sp field (slots_of v) ! k = SNull"
    using assms by (auto simp: write_slots_nth)
qed

text \<open>A fresh span that starts as a copy of a live object's.\<close>

definition copied :: "object_heap \<Rightarrow> jvm_object \<Rightarrow> nat \<Rightarrow> u32 \<Rightarrow> object_heap \<Rightarrow> bool" where
  "copied h a n off h2 \<longleftrightarrow>
     n \<le> 255 \<and> (n = 0 \<and> off = 0 \<or> 0 < n \<and> unat off = length (fields_arena h)) \<and>
     ob_inv (length (fields_arena h)) h2 \<and> ob_slot h2 = ob_slot h \<and> class_table h2 = class_table h \<and>
     fields_arena h2 =
       fields_arena h @ span_slots h a @ replicate (n - unat (fields_cap a)) SNull"

lemma copied_law:
  assumes ok: "ob_ok h" and al: "small_allocator al" and a: "ob_slot h i = Some a"
    and r: "alloc_span al n h = (Some off, h1)" and n: "unat (fields_cap a) \<le> n"
  shows "\<exists>h2. copy_span (unat (fields_off a)) (unat (fields_cap a)) (unat off) h1 = Some h2 \<and>
    copied h a n off h2"
proof -
  let ?n = "length (fields_arena h)" and ?cap = "unat (fields_cap a)"
  let ?A = "fields_arena h @ span_slots h a @ replicate (n - ?cap) SNull"
  note inv = ob_ok_inv [OF ok]
  have s: "n \<le> 255" "n = 0 \<and> off = 0 \<or> 0 < n \<and> unat off = ?n" "extended h (replicate n SNull) h1"
    "ob_inv ?n h1"
    using alloc_span_law [OF ok al, of n] r by simp_all
  have e1: "h1 = h\<lparr>fields_arena := fields_arena h @ replicate n SNull, fields_arena_cap := fields_arena_cap h1\<rparr>"
    using s(3) by (simp only: extended_def)
  have f1: "fields_arena h1 = fields_arena h @ replicate n SNull" "class_table h1 = class_table h"
    "ob_slot h1 = ob_slot h" by (subst e1, simp)+
  have len_sp: "length (span_slots h a) = ?cap" by (rule length_span_slots [OF inv a])
  define h2 where "h2 = h1\<lparr>fields_arena := ?A\<rparr>"
  have "copy_span (unat (fields_off a)) ?cap (unat off) h1 = Some h2"
  proof (cases "0 < fields_cap a")
    case True
    with span_in [OF inv a] have "unat (fields_off a) + ?cap \<le> ?n" by simp
    moreover have "0 < ?cap" using True cap_zero [of "fields_cap a"] by simp
    moreover have "unat off = ?n" using s(2) calculation(2) n by auto
    ultimately show ?thesis
      using n by (simp add: copy_span_def copy_within_def f1 span_slots_def slice_def h2_def)
  next
    case z: False
    then have "?cap = 0" "span_slots h a = []" using len_sp cap_zero [of "fields_cap a"] by simp_all
    then show ?thesis using f1(1) by (simp add: copy_span_def h2_def)
  qed
  moreover have "h2 = h1\<lparr>fields_arena := ?A, fields_arena_cap := fields_arena_cap h1\<rparr>"
    by (simp add: h2_def)
  moreover have "length (fields_arena h1) \<le> fields_arena_cap h1" "fields_arena_cap h1 < 2 ^ 32"
    using s(4) by (simp_all add: ob_inv_def)
  then have "ob_inv ?n (h1\<lparr>fields_arena := ?A, fields_arena_cap := fields_arena_cap h1\<rparr>)"
    using len_sp f1(1) n by (intro ob_inv_arena [OF s(4)]) simp_all
  ultimately show ?thesis using s(1,2) f1 by (simp add: copied_def h2_def)
qed

lemma copied_abs: "ob_ok h \<Longrightarrow> copied h a n off h2 \<Longrightarrow> ob_abs h2 = ob_abs h"
  by (rule ob_abs_cong [OF ob_ok_inv]) (auto simp: copied_def)

text \<open>The object on the copy, its capacity that of the new span, shows the same.\<close>

lemma copied_object:
  assumes ok: "ob_ok h" and a: "ob_slot h i = Some a" and c: "copied h a n off h2"
    and n: "unat (fields_cap a) \<le> n" and b: "b = a\<lparr>fields_off := off, fields_cap := of_nat n\<rparr>"
  shows "fresh_span h2 (length (fields_arena h)) b" "good_object h2 b" "obj_view h2 b = obj_view h a"
proof -
  note inv = ob_ok_inv [OF ok]
  have len_sp: "length (span_slots h a) = unat (fields_cap a)" by (rule length_span_slots [OF inv a])
  have cap: "unat (of_nat n :: u8) = n" using c unat_cap by (simp add: copied_def)
  have span2: "span_slots h2 b = span_slots h a @ replicate (n - unat (fields_cap a)) SNull"
    using len_sp c cap n by (auto simp: span_slots_def b copied_def slice_def)
  note g = good_of [OF inv a]
  have cnt: "unat (field_count a) \<le> unat (fields_cap a)" using g by (simp add: good_object_def word_le_nat_alt)
  show "good_object h2 b"
    using g cnt cap n len_sp c span2
    by (auto simp: good_object_def b copied_def word_le_nat_alt nth_append)
  show "obj_view h2 b = obj_view h a"
    using span2 len_sp cnt c by (simp add: obj_view_def copied_def b)
  have "fields_cap b = 0 \<longleftrightarrow> n = 0" using cap by (auto simp: b unat_eq_0 [symmetric])
  then show "fresh_span h2 (length (fields_arena h)) b"
    using c cap len_sp n by (auto simp: fresh_span_def copied_def b)
qed

text \<open>The lazy growth: the object's contents are untouched, its span has room.\<close>

lemma grow_law:
  assumes ok: "ob_ok h" and al: "small_allocator al" and a: "ob_slot h i = Some a"
  shows "case grow_fields al i needed a h of
      (Inl e, h') \<Rightarrow> False
    | (Inr None, h') \<Rightarrow> h' = h \<and> unat (fields_cap a) < needed
    | (Inr (Some a'), h') \<Rightarrow> ob_ok h' \<and> ob_abs h' = ob_abs h \<and> ob_slot h' i = Some a' \<and>
        needed \<le> unat (fields_cap a')"
proof (cases "needed \<le> unat (fields_cap a)")
  case True
  then show ?thesis using ok a by (simp add: grow_fields_def)
next
  case False
  obtain r h1 where r: "alloc_span al needed h = (r, h1)" by fastforce
  show ?thesis
  proof (cases r)
    case None
    with alloc_span_law [OF ok al, of needed] r False show ?thesis by (simp add: grow_fields_def)
  next
    case (Some off)
    let ?b = "a\<lparr>fields_off := off, fields_cap := of_nat needed\<rparr>"
    have le: "unat (fields_cap a) \<le> needed" using False by simp
    obtain h2 where cp: "copy_span (unat (fields_off a)) (unat (fields_cap a)) (unat off) h1 = Some h2"
      and c: "copied h a needed off h2"
      using copied_law [OF ok al a r [unfolded Some] le] by blast
    note co = copied_object [OF ok a c le refl]
    have inv2: "ob_inv (length (fields_arena h)) h2" and a2: "ob_slot h2 i = Some a"
      using c a by (simp_all add: copied_def)
    have cs0: "cs_ok (objects h2)" using inv2 by (simp add: ob_inv_def)
    note i2 = ob_slot_Some [OF cs0 a2]
    obtain cs' where cs': "set_object i ?b h2 = h2\<lparr>objects := cs'\<rparr>" "cs_ok cs'"
      "cs_iter cs' = (obs h2)[i := Some ?b]"
      using set_object_eq [OF cs0 a2] by blast
    have "\<forall>j<ob_first_free h2. j < length (cs_iter cs') \<longrightarrow> cs_iter cs' ! j \<noteq> None"
      using inv2 cs'(3) i2(1) by (auto simp: ob_inv_def nth_list_update)
    moreover have "length (cs_iter cs') \<le> REF_TOP" using inv2 cs'(3) by (simp add: ob_inv_def)
    ultimately have "ob_ok (h2\<lparr>objects := cs', ob_first_free := ob_first_free h2\<rparr>)"
      using cs' i2(1) by (intro ob_fill [OF inv2 co(1,2), where i = i]) auto
    then have ok3: "ob_ok (h2\<lparr>objects := cs'\<rparr>)" by simp
    have slot3: "ob_slot (h2\<lparr>objects := cs'\<rparr>) j = (if j = i then Some ?b else ob_slot h2 j)" for j
      by (rule ob_slot_write [OF cs0 cs'(2,3) i2(1)])
    have "ob_abs (h2\<lparr>objects := cs'\<rparr>) = (ob_abs h2)(i \<mapsto> obj_view h2 ?b)"
      by (rule placed_abs [OF inv2]) (simp_all add: slot3)
    moreover have "ob_abs h i = Some (obj_view h a)" using a by (simp add: ob_abs_def)
    ultimately have "ob_abs (h2\<lparr>objects := cs'\<rparr>) = ob_abs h"
      using co(3) copied_abs [OF ok c] by (simp add: fun_upd_idem)
    moreover have "unat (of_nat needed :: u8) = needed" using c unat_cap by (simp add: copied_def)
    ultimately show ?thesis
      using False r Some cp cs'(1) ok3 slot3 by (simp add: grow_fields_def Let_def)
  qed
qed

text \<open>The last step of a write, once the span has room.\<close>

definition set_field_rest ::
  "u16 \<Rightarrow> nat \<Rightarrow> slot \<times> slot option \<Rightarrow> nat \<Rightarrow> jvm_object \<Rightarrow> (object_heap, fault, unit option) action"
  where
  "set_field_rest idx field lohi need obj h1 =
     (case lohi of (lo, hi) \<Rightarrow>
      let obj' = (if unat (field_count obj) < need then obj\<lparr>field_count := of_nat need\<rparr> else obj);
          h2 = set_object (unat idx) obj' h1; at = unat (fields_off obj') + field; a = fields_arena h2
      in if length a \<le> at + (if hi = None then 0 else 1) then (Inl Panic, h2)
         else (Inr (Some ()), h2\<lparr>fields_arena :=
                  (case hi of None \<Rightarrow> a[at := lo] | Some s \<Rightarrow> a[at := lo, at + 1 := s])\<rparr>))"

lemma set_field_eq:
  assumes v: "to_slots v = (lo, hi)" and a: "ob_slot h (unat idx) = Some a0"
  shows "set_field al idx field v h =
    (case grow_fields al (unat idx) (field + slot_width v) a0 h of
       (Inl e, h1) \<Rightarrow> (Inl e, h1) | (Inr None, h1) \<Rightarrow> (Inr None, h1)
     | (Inr (Some obj), h1) \<Rightarrow> set_field_rest idx field (lo, hi) (field + slot_width v) obj h1)"
  by (simp only: set_field_def set_field_rest_def a v needed_width [OF v] Let_def option.case prod.case)

lemma set_field_law:
  assumes ok: "ob_ok h" and al: "small_allocator al"
  shows "case set_field al idx field v h of
      (Inl e, h') \<Rightarrow> False
    | (Inr None, h') \<Rightarrow> h' = h \<and> (\<forall>a. ob_slot h (unat idx) = Some a \<longrightarrow> unat (fields_cap a) < field + slot_width v)
    | (Inr (Some _), h') \<Rightarrow> ob_ok h' \<and> (\<exists>c fs. ob_abs h (unat idx) = Some (c, fs) \<and>
        ob_abs h' = (ob_abs h)(unat idx \<mapsto> (c, put_slots field v fs)))"
proof (cases "ob_slot h (unat idx)")
  case None
  then show ?thesis by (simp add: set_field_def)
next
  case (Some a0)
  obtain lo hi where v: "to_slots v = (lo, hi)" by fastforce
  let ?need = "field + slot_width v"
  note start = set_field_eq [OF v Some, of al field]
  note gr = grow_law [OF ok al Some, of ?need]
  obtain r h1 where r: "grow_fields al (unat idx) ?need a0 h = (r, h1)" by fastforce
  show ?thesis
  proof (cases r)
    case (Inl e)
    with gr r show ?thesis by simp
  next
    case (Inr res)
    show ?thesis
    proof (cases res)
      case None
      with gr r Inr Some show ?thesis by (simp add: start)
    next
      case a: (Some a)
      with gr r Inr have g: "ob_ok h1" "ob_abs h1 = ob_abs h" "ob_slot h1 (unat idx) = Some a"
        "?need \<le> unat (fields_cap a)" by simp_all
      note inv = ob_ok_inv [OF g(1)] and cs0 = ob_ok_cs [OF g(1)]
      let ?sp = "span_slots h1 a" and ?cnt = "unat (field_count a)" and ?off = "unat (fields_off a)"
      let ?c = "if ?cnt < ?need then of_nat ?need else field_count a :: u8"
      have len: "length ?sp = unat (fields_cap a)" by (rule length_span_slots [OF inv g(3)])
      have pos: "0 < fields_cap a" using g(4) slot_width_pos(1) [of v] cap_zero [of "fields_cap a"] by linarith
      note room = span_in [OF inv g(3) pos] and good = good_of [OF inv g(3)]
      have cnt: "?cnt \<le> unat (fields_cap a)" using good by (simp add: good_object_def word_le_nat_alt)
      have "unat (fields_cap a) \<le> 255" using unsigned_less [of "fields_cap a", where ?'a = nat] by simp
      then have c: "unat ?c = max ?cnt ?need" using unat_cap [of ?need] g(4) by auto
      let ?b = "if ?cnt < ?need then a\<lparr>field_count := of_nat ?need\<rparr> else a"
      have b: "?b = a\<lparr>field_count := ?c\<rparr>" by simp
      obtain cs' where cs': "set_object (unat idx) ?b h1 = h1\<lparr>objects := cs'\<rparr>" "cs_ok cs'"
        "cs_iter cs' = (obs h1)[unat idx := Some (a\<lparr>field_count := ?c\<rparr>)]"
        using set_object_eq [OF cs0 g(3), of ?b] b by auto
      note ps = put_slots_span [OF len cnt g(4)]
      have null: "\<forall>k<unat (fields_cap a). ?cnt \<le> k \<longrightarrow> ?sp ! k = SNull"
        using good by (simp add: good_object_def)
      let ?ws = "write_slots ?sp field (slots_of v)"
      let ?h = "h1\<lparr>objects := cs', fields_arena := write_slots (fields_arena h1) ?off ?ws\<rparr>"
      have "ob_ok ?h \<and> ob_abs ?h = (ob_abs h1)(unat idx \<mapsto>
          (class_table h1 ! unat (obj_class a), take (unat ?c) ?ws))"
        using len g(4) c cnt ps(2) [OF null]
        by (intro ob_respan [OF g(1,3) _ _ _ cs'(2,3) refl])
          (simp_all only: length_write_slots length_slots_of word_le_nat_alt max.bounded_iff)
      moreover have "take (unat ?c) ?ws = put_slots field v (take ?cnt ?sp)"
        unfolding c by (rule ps(1) [OF null])
      moreover have "ob_abs h (unat idx) = Some (class_table h1 ! unat (obj_class a), take ?cnt ?sp)"
        using g(2,3) by (simp add: ob_abs_def obj_view_def flip: g(2))
      moreover have "write_slots (fields_arena h1) ?off ?ws = write_slots (fields_arena h1) (?off + field) (slots_of v)"
        unfolding span_slots_def using room g(4) by (intro write_slots_inner) simp_all
      ultimately have fin: "ob_ok ?h \<and> (\<exists>c fs. ob_abs h (unat idx) = Some (c, fs) \<and>
          ob_abs ?h = (ob_abs h)(unat idx \<mapsto> (c, put_slots field v fs)))"
          "?h = h1\<lparr>objects := cs', fields_arena := write_slots (fields_arena h1) (?off + field) (slots_of v)\<rparr>"
        using g(2) by auto
      have at: "?off + field + slot_width v \<le> length (fields_arena h1)" using room g(4) by simp
      have w: "field + 1 + (if hi = None then 0 else 1) = ?need" by (rule needed_width [OF v])
      have off: "fields_off ?b = fields_off a" by simp
      have fa: "fields_arena (h1\<lparr>objects := cs'\<rparr>) = fields_arena h1" by simp
      have small: "\<not> length (fields_arena h1) \<le> ?off + field + (if hi = None then 0 else 1)"
        using at w by linarith
      have "set_field_rest idx field (lo, hi) ?need a h1 = (Inr (Some ()), ?h)"
        unfolding set_field_rest_def prod.case Let_def cs'(1) fin(2) off
        by (simp only: fa if_not_P [OF small] write_value [OF v at])
      with r Inr a fin(1) show ?thesis by (simp add: start)
    qed
  qed
qed

section \<open>Cloning and freeing\<close>

lemma clone_object_law:
  assumes ok: "ob_ok h" and al: "small_allocator al"
  shows "case clone_object al idx h of
      (Inl e, h') \<Rightarrow> False
    | (Inr None, h') \<Rightarrow> ob_ok h' \<and> ob_abs h' = ob_abs h \<or>
        fields_arena h' = [] \<and> (\<exists>a. ob_slot h (unat idx) = Some a \<and> fields_cap a = 0)
    | (Inr (Some n), h') \<Rightarrow> ob_ok h' \<and> ob_abs h (unat n) = None \<and> ob_abs h (unat idx) \<noteq> None \<and>
        ob_abs h' = (ob_abs h)(unat n := ob_abs h (unat idx))"
proof (cases "ob_slot h (unat idx)")
  case None
  then show ?thesis using ok by (simp add: clone_object_def)
next
  case (Some a)
  let ?cap = "unat (fields_cap a)" and ?n = "length (fields_arena h)"
  obtain r h1 where r: "alloc_span al ?cap h = (r, h1)" by fastforce
  show ?thesis
  proof (cases r)
    case None
    with alloc_span_law [OF ok al, of ?cap] r ok Some show ?thesis by (simp add: clone_object_def)
  next
    case off: (Some off)
    obtain h2 where cp: "copy_span (unat (fields_off a)) ?cap (unat off) h1 = Some h2"
      and c: "copied h a ?cap off h2"
      using copied_law [OF ok al Some r [unfolded off]] by blast
    let ?b = "a\<lparr>fields_off := off\<rparr>"
    have b: "a\<lparr>fields_off := off, fields_cap := of_nat ?cap\<rparr> = ?b" by simp
    have inv2: "ob_inv ?n h2" and eq2: "ob_slot h2 = ob_slot h"
      using c by (simp_all add: copied_def)
    note law = place_in_slot_law [OF inv2, where a = ?b and al = al]
    note ab2 = copied_abs [OF ok c]
    have fg: "fresh_span h2 ?n ?b" "good_object h2 ?b" "obj_view h2 ?b = obj_view h a"
      using copied_object [OF ok Some c le_refl refl] unfolding b .
    obtain r4 h4 where r4: "place_in_slot al ?b h2 = (r4, h4)" by fastforce
    show ?thesis
    proof (cases r4)
      case (Inl e)
      with law [OF fg(1,2)] r4 show ?thesis by simp
    next
      case (Inr res)
      show ?thesis
      proof (cases res)
        case None
        with law [OF fg(1,2)] r4 Inr
        have h4: "h4 = h2\<lparr>ob_first_free := scan_free (objects h2) (ob_first_free h2)\<rparr>" by simp
        have inv4: "ob_inv ?n h4" unfolding h4 by (rule ob_hint_ok [OF inv2])
        have "ob_abs h4 = ob_abs h" unfolding h4 by (simp add: ob_hint_abs ab2)
        moreover have "?n \<le> length (fields_arena h4)" using c h4 by (simp add: copied_def)
        moreover have "fields_cap a = 0 \<longleftrightarrow> ?cap = 0" by (simp add: unat_eq_0)
        ultimately show ?thesis
          using r4 Inr None c cut_arena_ok [OF inv4] r off cp Some
          by (auto simp: copied_def cut_arena_def clone_object_def)
      next
        case n: (Some n)
        with law [OF fg(1,2)] r4 Inr have l: "ob_ok h4" "ob_slot h2 (unat n) = None"
          "\<forall>j. ob_slot h4 j = (if j = unat n then Some ?b else ob_slot h2 j)"
          "fields_arena h4 = fields_arena h2" "class_table h4 = class_table h2"
          by simp_all
        have "ob_abs h4 = (ob_abs h)(unat n \<mapsto> obj_view h a)"
          using placed_abs [OF inv2 l(4,5,3)] fg(3) ab2 by simp
        moreover have "ob_abs h (unat n) = None" using l(2) eq2 by (simp add: ob_abs_def)
        moreover have "ob_abs h (unat idx) = Some (obj_view h a)" using Some by (simp add: ob_abs_def)
        ultimately show ?thesis
          using r4 Inr n l(1) r off cp Some by (simp add: clone_object_def)
      qed
    qed
  qed
qed

lemma ob_free_law:
  assumes ok: "ob_ok h"
  shows "ob_ok (ob_free idx h) \<and> ob_abs (ob_free idx h) = (ob_abs h)(unat idx := None)"
proof -
  have cs: "cs_ok (objects h)" using ok by (rule ob_ok_cs)
  show ?thesis
  proof (cases "unat idx < length (obs h)")
    case False
    then have "cs_update (objects h) (unat idx) None = None" "ob_slot h (unat idx) = None"
      using cs.update_none [OF cs] ob_slot_eq [OF cs] by auto
    then show ?thesis using ok by (auto simp: ob_free_def ob_abs_def fun_eq_iff)
  next
    case True
    obtain cs' where cs': "cs_update (objects h) (unat idx) None = Some cs'" "cs_ok cs'"
      "cs_iter cs' = (obs h)[unat idx := None]"
      using cs.update_slots [OF cs True] by blast
    let ?h = "h\<lparr>objects := cs', ob_first_free := min (ob_first_free h) (unat idx)\<rparr>"
    have h': "ob_free idx h = ?h" using cs'(1) by (simp add: ob_free_def Let_def min_def)
    have "field_spans ?h = (field_spans h)[unat idx := None]"
      by (simp add: field_spans_def cs'(3) map_update)
    moreover have "good_object ?h b" if "good_object h b" for b
      using that by (simp add: good_object_def span_slots_def)
    then have "\<forall>b. Some b \<in> set (obs ?h) \<longrightarrow> good_object ?h b"
      using ok cs'(3) by (auto simp: ob_ok_def ob_inv_def dest!: set_update_subset_insert [THEN subsetD])
    moreover have "\<forall>j<ob_first_free ?h. j < length (obs ?h) \<longrightarrow> obs ?h ! j \<noteq> None"
      using ok cs'(3) by (auto simp: ob_ok_def ob_inv_def)
    ultimately have "ob_ok ?h" using ok cs' spans_ok_clear by (simp add: ob_ok_def ob_inv_def)
    moreover have "ob_slot ?h j = (if j = unat idx then None else ob_slot h j)" for j
      using ob_slot_write [OF cs cs'(2,3) True, of j] by (simp add: ob_slot_def)
    then have "ob_abs ?h = (ob_abs h)(unat idx := None)"
      by (auto simp: ob_abs_def fun_eq_iff obj_view_def span_slots_def intro!: option.map_cong)
    ultimately show ?thesis by (simp add: h')
  qed
qed

section \<open>Compaction\<close>

definition moved :: "jvm_object \<Rightarrow> jvm_object \<Rightarrow> bool" where
  "moved a b \<longleftrightarrow>
     obj_class b = obj_class a \<and> field_count b = field_count a \<and> fields_cap b = fields_cap a \<and>
     (fields_cap a = 0 \<longrightarrow> fields_off b = fields_off a)"

definition ob_frame :: "object_heap \<Rightarrow> object_heap \<Rightarrow> bool" where
  "ob_frame h h' \<longleftrightarrow> h' = h\<lparr>objects := objects h'\<rparr> \<and> list_all2 (rel_option moved) (obs h) (obs h')"

lemma moved_all_refl: "list_all2 (rel_option moved) xs xs"
  by (simp add: list.rel_refl option.rel_refl moved_def)

lemma moved_all_trans:
  "list_all2 (rel_option moved) xs ys \<Longrightarrow> list_all2 (rel_option moved) ys zs \<Longrightarrow>
     list_all2 (rel_option moved) xs zs"
  by (rule list_all2_trans [of "rel_option moved" "rel_option moved"])
    (auto simp: rel_option_iff moved_def split: option.splits)

lemma moved_all_update:
  "i < length xs \<Longrightarrow> xs ! i = Some a \<Longrightarrow> moved a b \<Longrightarrow> list_all2 (rel_option moved) xs (xs[i := Some b])"
  by (auto simp: list_all2_conv_all_nth nth_list_update rel_option_iff moved_def split: option.splits)

lemma move_fields_law:
  assumes cs: "cs_ok (objects h)" and i: "i < length (field_spans h)" "field_spans h ! i = Some (off, len)"
  shows "cs_ok (objects (move_fields i off' h)) \<and>
    field_spans (move_fields i off' h) = (field_spans h)[i := Some (off', len)] \<and>
    ob_frame h (move_fields i off' h)"
proof -
  obtain a where a: "i < length (obs h)" "obs h ! i = Some a" "field_span a = Some (off, len)"
    using i by (auto simp: field_spans_nth split: Option.bind_splits)
  then have slot: "ob_slot h i = Some a" using cs by (simp add: ob_slot_eq)
  from set_object_eq [OF cs slot, of "a\<lparr>fields_off := off'\<rparr>"] obtain cs' where
    cs': "move_fields i off' h = h\<lparr>objects := cs'\<rparr>" "cs_ok cs'"
    "cs_iter cs' = (obs h)[i := Some (a\<lparr>fields_off := off'\<rparr>)]"
    by (auto simp: move_fields_def slot)
  have "list_all2 (rel_option moved) (obs h) (cs_iter cs')"
    unfolding cs'(3) using a by (intro moved_all_update) (auto simp: moved_def field_span_Some)
  moreover have "field_spans (h\<lparr>objects := cs'\<rparr>) = (field_spans h)[i := Some (off', len)]"
    using a(3) by (simp add: field_spans_def cs'(3) map_update field_span_def split: if_splits)
  ultimately show ?thesis using cs' by (simp add: ob_frame_def)
qed

lemma ob_frame_trans: "ob_frame s t \<Longrightarrow> ob_frame t u \<Longrightarrow> ob_frame s u"
  unfolding ob_frame_def using moved_all_trans
  by (metis (no_types, lifting) object_heap.surjective object_heap.update_convs(1))

lemma ob_frame_refl: "ob_frame h h"
  by (simp add: ob_frame_def moved_all_refl)

interpretation fields: span_store "\<lambda>h. cs_ok (objects h)" field_spans move_fields ob_frame
  by unfold_locales (auto simp: move_fields_law ob_frame_refl elim: ob_frame_trans)

lemma moved_slot:
  assumes "cs_ok (objects h)" "cs_ok (objects h')" "list_all2 (rel_option moved) (obs h) (obs h')"
  shows "rel_option moved (ob_slot h i) (ob_slot h' i)"
  using assms by (auto simp: ob_slot_eq list_all2_conv_all_nth)

lemma fields_pass:
  assumes ok: "ob_ok h" and fr: "ob_frame h h'" and cs: "cs_ok (objects h')"
    and sp: "spans_ok (field_spans h') (length a)" "length a \<le> length (fields_arena h)"
    and kept: "spans_kept (field_spans h) (fields_arena h) (field_spans h') a"
  shows "ob_ok (h'\<lparr>fields_arena := a\<rparr>) \<and> ob_abs (h'\<lparr>fields_arena := a\<rparr>) = ob_abs h"
proof -
  let ?h = "h'\<lparr>fields_arena := a\<rparr>"
  have r: "list_all2 (rel_option moved) (obs h) (obs h')" and f: "h' = h\<lparr>objects := objects h'\<rparr>"
    using fr by (simp_all add: ob_frame_def)
  have f': "ob_first_free h' = ob_first_free h" "class_table h' = class_table h"
    "class_table_cap h' = class_table_cap h" "fields_arena_cap h' = fields_arena_cap h"
    by (subst f, simp)+
  note cs0 = ob_ok_cs [OF ok] and inv = ob_ok_inv [OF ok]
  have mv: "rel_option moved (ob_slot h i) (ob_slot ?h i)" for i
    using moved_slot [OF cs0 cs r] by simp
  have span: "span_slots ?h y = span_slots h x"
    if x: "ob_slot h i = Some x" and y: "ob_slot ?h i = Some y" for i x y
  proof (cases "0 < fields_cap x")
    case True
    have m: "fields_cap y = fields_cap x" using mv [of i] x y by (simp add: moved_def)
    have "field_spans h ! i = Some (fields_off x, ucast (fields_cap x))"
      using field_span_at [OF cs0 x] True by (simp add: field_span_def)
    moreover have "field_spans h' ! i = Some (fields_off y, ucast (fields_cap x))"
      using field_span_at [OF cs, of i y] y True m by (simp add: field_span_def)
    moreover have "i < length (field_spans h)" using ob_slot_Some(1) [OF cs0 x] by simp
    ultimately have "slice a (unat (fields_off y)) (unat (ucast (fields_cap x) :: u16)) =
        slice (fields_arena h) (unat (fields_off x)) (unat (ucast (fields_cap x) :: u16))"
      using kept unfolding spans_kept_def by (metis option.inject prod.inject)
    then show ?thesis unfolding unat_ucast8 using m by (simp add: span_slots_def)
  next
    case False
    then show ?thesis
      using mv [of i] x y cap_zero [of "fields_cap x"] by (simp add: span_slots_def slice_def moved_def)
  qed
  have "good_object ?h b" if "Some b \<in> set (obs h')" for b
  proof -
    from that obtain i where "i < length (obs h')" "obs h' ! i = Some b" by (auto simp: in_set_conv_nth)
    then have b: "ob_slot ?h i = Some b" using ob_slot_eq [OF cs] by simp
    with mv [of i] obtain x where x: "ob_slot h i = Some x" "moved x b"
      by (auto simp: option_rel_Some2)
    then show ?thesis using good_of [OF inv x(1)] span [OF x(1) b] f' by (simp add: good_object_def moved_def)
  qed
  moreover have "\<forall>i<ob_first_free h. i < length (obs h') \<longrightarrow> obs h' ! i \<noteq> None"
    using inv r by (auto simp: ob_inv_def list_all2_conv_all_nth) (metis option_rel_Some1)
  ultimately have "ob_ok ?h"
    using inv cs sp f' list_all2_lengthD [OF r] by (simp add: ob_ok_def ob_inv_def)
  moreover have "ob_abs ?h i = ob_abs h i" for i
    using mv [of i] span [of i] f'
    by (cases "ob_slot h i"; cases "ob_slot ?h i") (auto simp: ob_abs_def obj_view_def moved_def)
  ultimately show ?thesis by (simp add: fun_eq_iff)
qed

lemma compact_fields_law:
  assumes ok: "ob_ok h"
  shows "\<exists>cap' h'. compact_fields_arena al cap h = (Inr cap', h') \<and> ob_ok h' \<and> ob_abs h' = ob_abs h \<and>
    (0 < cap \<longrightarrow> length (fields_arena h') = spans_total (field_spans h))"
proof (cases "ensure_slice_buf al cap FALLBACK_ENTRIES")
  case None
  then show ?thesis
    using ok by (auto simp: compact_fields_arena_def ensure_slice_buf_def split: if_splits)
next
  case (Some c)
  then have c: "0 < c"
    by (auto simp: ensure_slice_buf_def vec_reserve_exact_def FALLBACK_ENTRIES_def split: if_splits)
  have "spans_ok (field_spans h) (length (fields_arena h))" using ok by (simp add: ob_ok_def ob_inv_def)
  from fields.compact_spans_ok [OF ob_ok_cs [OF ok] this c] obtain a h1 where
    w: "compact_spans field_spans move_fields c (fields_arena h) h = Some (a, h1)" "cs_ok (objects h1)"
      "ob_frame h h1" "length a = spans_total (field_spans h)" "length a \<le> length (fields_arena h)"
      "spans_ok (field_spans h1) (length a)"
      "spans_kept (field_spans h) (fields_arena h) (field_spans h1) a"
    by blast
  have "compact_fields_arena al cap h = (Inr c, h1\<lparr>fields_arena := a\<rparr>)"
    using Some w(1) by (simp add: compact_fields_arena_def)
  with fields_pass [OF ok w(3,2,6,5,7)] w(4) show ?thesis by simp
qed

section \<open>Instances of a loaded class\<close>

definition kind_width :: "u8 \<Rightarrow> nat" where
  "kind_width k = (if k = KIND_LONG \<or> k = KIND_DOUBLE then 2 else 1)"

text \<open>What the packer guarantees of a link table: every field lies within its class's slots.\<close>

definition link_ok :: "class_info \<Rightarrow> bool" where
  "link_ok c \<longleftrightarrow> (\<forall>f\<in>set (ci_fields c). fst f + kind_width (snd f) \<le> ci_own_slots c)"

text \<open>The slots of one class, each field its typed default.\<close>

definition class_defaults :: "class_info \<Rightarrow> slot list" where
  "class_defaults c = the (write_defaults 0 (ci_fields c) (replicate (ci_own_slots c) SNull))"

lemma update_in_slice:
  "p + n \<le> length a \<Longrightarrow> k < n \<Longrightarrow> a[p + k := v] = write_slots a p ((slice a p n)[k := v])"
  by (rule nth_equalityI)
    (auto simp: length_write_slots write_slots_nth length_slice slice_nth nth_list_update)

lemma write_slots_write_slots:
  "p + length xs \<le> length a \<Longrightarrow> length xs = length ys \<Longrightarrow> write_slots (write_slots a p xs) p ys = write_slots a p ys"
  by (simp add: write_slots_def)

lemma write_default_shift:
  assumes room: "p + n \<le> length a" and f: "fst f + kind_width (snd f) \<le> n"
  shows "\<exists>x. write_default 0 f (slice a p n) = Some x \<and> length x = n \<and>
    write_default p f a = Some (write_slots a p x)"
proof -
  have len: "length (slice a p n) = n" by (rule length_slice [OF room])
  have self: "write_slots a p (slice a p n) = a"
    using room by (intro nth_equalityI) (auto simp: length_write_slots write_slots_nth len slice_nth)
  show ?thesis
  proof (cases "snd f = KIND_LONG \<or> snd f = KIND_DOUBLE")
    case True
    then obtain lo hi where k: "kind_default (snd f) = Some (lo, Some hi)" "kind_width (snd f) = 2"
      by (auto simp: kind_default_def kind_width_def KIND_INT_def KIND_FLOAT_def KIND_LONG_def KIND_DOUBLE_def)
    let ?x = "(slice a p n)[fst f := lo]"
    have one: "a[p + fst f := lo] = write_slots a p ?x"
      by (rule update_in_slice [OF room]) (use f k in simp)
    have "(write_slots a p ?x)[p + Suc (fst f) := hi] =
        write_slots (write_slots a p ?x) p ((slice (write_slots a p ?x) p n)[Suc (fst f) := hi])"
      by (rule update_in_slice) (use f k room len in \<open>simp_all add: length_write_slots\<close>)
    also have "slice (write_slots a p ?x) p n = ?x"
      using slice_write_own [of p ?x a] room len by simp
    finally have "(a[p + fst f := lo])[p + Suc (fst f) := hi] = write_slots a p (?x[Suc (fst f) := hi])"
      using one room len by (simp add: write_slots_write_slots)
    then show ?thesis
      using k f room len by (simp add: write_default_def write_at_def Let_def)
  next
    case False
    show ?thesis
    proof (cases "kind_default (snd f)")
      case None
      then show ?thesis using self len by (simp add: write_default_def)
    next
      case (Some d)
      with False obtain lo where d: "d = (lo, None)"
        by (auto simp: kind_default_def split: if_splits)
      have "fst f < n" using f by (simp add: kind_width_def split: if_splits)
      then show ?thesis
        using Some d room len update_in_slice [OF room, of "fst f" lo]
        by (simp add: write_default_def write_at_def Let_def)
    qed
  qed
qed

lemma write_defaults_shift:
  "p + n \<le> length a \<Longrightarrow> \<forall>f\<in>set fs. fst f + kind_width (snd f) \<le> n \<Longrightarrow>
   \<exists>x. write_defaults 0 fs (slice a p n) = Some x \<and> length x = n \<and>
     write_defaults p fs a = Some (write_slots a p x)"
proof (induction fs arbitrary: a)
  case Nil
  then have "write_slots a p (slice a p n) = a"
    by (intro nth_equalityI) (auto simp: length_write_slots write_slots_nth length_slice slice_nth)
  with Nil show ?case by (simp add: length_slice)
next
  case (Cons f fs)
  obtain x where x: "write_default 0 f (slice a p n) = Some x" "length x = n"
    "write_default p f a = Some (write_slots a p x)"
    using write_default_shift [of p n a f] Cons.prems by auto
  let ?a = "write_slots a p x"
  have room: "p + n \<le> length ?a" using Cons.prems(1) x(2) by (simp add: length_write_slots)
  have own: "slice ?a p n = x" using slice_write_own [of p x a] Cons.prems(1) x(2) by simp
  obtain y where "write_defaults 0 fs x = Some y" "length y = n"
    "write_defaults p fs ?a = Some (write_slots ?a p y)"
    using Cons.IH [OF room] Cons.prems(2) own by auto
  with x Cons.prems(1) show ?case by (simp add: write_slots_write_slots)
qed

lemma class_defaults_written:
  assumes "link_ok c" and "p + ci_own_slots c \<le> length a"
    and "slice a p (ci_own_slots c) = replicate (ci_own_slots c) SNull"
  shows "write_defaults p (ci_fields c) a = Some (write_slots a p (class_defaults c))"
    and "length (class_defaults c) = ci_own_slots c"
  using write_defaults_shift [OF assms(2), of "ci_fields c"] assms(1,3)
  by (auto simp: class_defaults_def link_ok_def)

lemma write_slots_adjacent:
  "p + length xs + length ys \<le> length a \<Longrightarrow>
     write_slots (write_slots a (p + length xs) ys) p xs = write_slots a p (xs @ ys)"
  by (rule nth_equalityI) (auto simp: length_write_slots write_slots_nth nth_append)

definition chain_slots :: "class_info list \<Rightarrow> nat list \<Rightarrow> nat" where
  "chain_slots classes chain = (\<Sum>i\<leftarrow>chain. ci_own_slots (classes ! i))"

definition chain_defaults :: "class_info list \<Rightarrow> nat list \<Rightarrow> slot list" where
  "chain_defaults classes chain = concat (map (\<lambda>i. class_defaults (classes ! i)) (rev chain))"

lemma fill_chain_law:
  "\<forall>i\<in>set chain. link_ok (classes ! i) \<Longrightarrow> chain_slots classes chain \<le> n \<Longrightarrow> base + n \<le> length a \<Longrightarrow>
   slice a (base + (n - chain_slots classes chain)) (chain_slots classes chain) =
     replicate (chain_slots classes chain) SNull \<Longrightarrow>
   fill_chain classes base n chain a =
     Some (Some (write_slots a (base + (n - chain_slots classes chain)) (chain_defaults classes chain))) \<and>
   length (chain_defaults classes chain) = chain_slots classes chain"
proof (induction chain arbitrary: n a)
  case Nil
  then show ?case by (simp add: chain_defaults_def chain_slots_def)
next
  case (Cons i js)
  let ?own = "ci_own_slots (classes ! i)" and ?tot = "chain_slots classes js"
  have tot: "chain_slots classes (i # js) = ?own + ?tot" by (simp add: chain_slots_def)
  let ?p = "base + (n - (?own + ?tot))" and ?q = "base + (n - ?own)"
  have q: "?q = ?p + ?tot" and room: "?q + ?own \<le> length a" "?p + (?own + ?tot) \<le> length a"
    using Cons.prems(2,3) tot by auto
  have null: "a ! (?p + k) = SNull" if "k < ?own + ?tot" for k
    using slice_nth [of k "?own + ?tot" ?p a] that room(2) Cons.prems(4) tot by simp
  have "slice a ?q ?own = replicate ?own SNull"
    using null room by (intro nth_equalityI) (auto simp: length_slice slice_nth q add.assoc)
  from class_defaults_written [OF _ room(1) this] Cons.prems(1)
  have w: "write_defaults ?q (ci_fields (classes ! i)) a = Some (write_slots a ?q (class_defaults (classes ! i)))"
    and len: "length (class_defaults (classes ! i)) = ?own" by simp_all
  let ?a = "write_slots a ?q (class_defaults (classes ! i))"
  have la: "length ?a = length a" using room(1) len by (simp add: length_write_slots)
  have e: "base + (n - ?own - ?tot) = ?p" by simp
  have "slice a ?p ?tot = replicate ?tot SNull"
    using null room(2) by (intro nth_equalityI) (auto simp: length_slice slice_nth)
  moreover have "slice ?a ?p ?tot = slice a ?p ?tot"
    by (rule slice_write_other) (use room len q in linarith)+
  ultimately have "slice ?a ?p ?tot = replicate ?tot SNull" by simp
  then have "fill_chain classes base (n - ?own) js ?a =
      Some (Some (write_slots ?a ?p (chain_defaults classes js))) \<and>
      length (chain_defaults classes js) = ?tot"
    using Cons.IH [of "n - ?own" ?a] Cons.prems tot la unfolding e by simp
  moreover have "write_slots ?a ?p (chain_defaults classes js) =
      write_slots a ?p (chain_defaults classes js @ class_defaults (classes ! i))"
    if l: "length (chain_defaults classes js) = ?tot"
  proof -
    have pl: "?p + length (chain_defaults classes js) = ?q" unfolding l q ..
    show ?thesis
      by (rule write_slots_adjacent [of ?p "chain_defaults classes js" "class_defaults (classes ! i)" a,
            unfolded pl len]) (rule room(1))
  qed
  ultimately show ?case
    using w len tot Cons.prems(2) by (simp add: chain_defaults_def)
qed

text \<open>The chain walk returns loaded classes, at most 255 of them, the first the one asked for.\<close>

lemma super_chain_law:
  "super_chain classes n c = Some (Some chain) \<Longrightarrow>
     length chain \<le> n \<and> (\<forall>i\<in>set chain. i < length classes) \<and>
     (c = None \<longleftrightarrow> chain = []) \<and> (\<forall>i. c = Some i \<longrightarrow> hd chain = i)"
proof (induction classes n c arbitrary: chain rule: super_chain.induct)
  case (2 classes n i)
  then show ?case by (fastforce split: if_splits nat.splits)
qed simp

lemma fill_fields_law:
  assumes ok: "ob_ok h" and a: "ob_slot h (unat idx) = Some a" "field_count a = 0"
    and cap: "unat (fields_cap a) = start + chain_slots classes chain" "0 < chain_slots classes chain"
    and links: "\<forall>i\<in>set chain. link_ok (classes ! i)"
  shows "\<exists>h'. fill_fields classes chain (start + chain_slots classes chain) idx h = (Inr (Some idx), h') \<and>
    ob_ok h' \<and> ob_abs h' = (ob_abs h)(unat idx \<mapsto>
      (class_table h ! unat (obj_class a), replicate start SNull @ chain_defaults classes chain))"
proof -
  let ?tot = "chain_slots classes chain" and ?off = "unat (fields_off a)"
  let ?D = "chain_defaults classes chain" and ?n = "start + chain_slots classes chain"
  note inv = ob_ok_inv [OF ok] and cs0 = ob_ok_cs [OF ok]
  have pos: "0 < fields_cap a" using cap cap_zero [of "fields_cap a"] by linarith
  note room = span_in [OF inv a(1) pos]
  have null: "fields_arena h ! (?off + k) = SNull" if "k < ?n" for k
  proof -
    have "span_slots h a ! k = SNull"
      using good_of [OF inv a(1)] a(2) that cap by (simp add: good_object_def)
    then show ?thesis using that room cap by (simp add: span_slots_def slice_nth)
  qed
  have span: "span_slots h a = replicate ?n SNull"
    using null room cap by (intro nth_equalityI) (auto simp: span_slots_def length_slice slice_nth)
  have e: "?n - ?tot = start" by simp
  have "slice (fields_arena h) (?off + start) ?tot = replicate ?tot SNull"
    using null room cap by (intro nth_equalityI) (auto simp: length_slice slice_nth add.assoc)
  then have "fill_chain classes ?off ?n chain (fields_arena h) =
      Some (Some (write_slots (fields_arena h) (?off + start) ?D)) \<and> length ?D = ?tot"
    using fill_chain_law [OF links, of ?n ?off "fields_arena h"] room cap unfolding e by simp
  then have fill: "fill_chain classes ?off ?n chain (fields_arena h) =
      Some (Some (write_slots (fields_arena h) (?off + start) ?D))" and lenD: "length ?D = ?tot"
    by blast+
  let ?sp = "replicate start SNull @ ?D" and ?b = "a\<lparr>field_count := of_nat ?n\<rparr>"
  have "write_slots (replicate ?n SNull) start ?D = ?sp" using lenD by (simp add: write_slots_def)
  then have arena: "write_slots (fields_arena h) (?off + start) ?D = write_slots (fields_arena h) ?off ?sp"
    using write_slots_inner [of ?off ?n "fields_arena h" start ?D] room cap lenD span
    by (simp add: span_slots_def)
  have cnt: "unat (of_nat ?n :: u8) = ?n"
    using unsigned_less [of "fields_cap a", where ?'a = nat] cap by (intro unat_cap) simp
  let ?h1 = "h\<lparr>fields_arena := write_slots (fields_arena h) ?off ?sp\<rparr>"
  have slot1: "ob_slot ?h1 (unat idx) = Some a" using a by simp
  obtain cs' where cs': "set_object (unat idx) ?b ?h1 = ?h1\<lparr>objects := cs'\<rparr>" "cs_ok cs'"
    "cs_iter cs' = (obs h)[unat idx := Some ?b]"
    using set_object_eq [of ?h1, OF _ slot1, of ?b] cs0 by auto
  have "ob_ok (?h1\<lparr>objects := cs'\<rparr>) \<and> ob_abs (?h1\<lparr>objects := cs'\<rparr>) = (ob_abs h)(unat idx \<mapsto>
      (class_table h ! unat (obj_class a), take (unat (of_nat ?n :: u8)) ?sp))"
    using cap lenD cnt by (intro ob_respan [OF ok a(1) _ _ _ cs'(2,3)]) (simp_all add: word_le_nat_alt)
  moreover have "unat (field_count a) < ?n" using a(2) cap(2) by simp
  then have "fill_fields classes chain ?n idx h = (Inr (Some idx), ?h1\<lparr>objects := cs'\<rparr>)"
    using fill a(1) cs'(1) unfolding arena by (simp add: fill_fields_def)
  ultimately show ?thesis using lenD unfolding cnt by simp
qed

lemma alloc_instance_law:
  assumes ok: "ob_ok h" and al: "small_allocator al" and room: "length (class_table h) < 2 ^ 16"
    and ci: "ci < length classes" and chain: "super_chain classes 255 (Some ci) = Some (Some chain)"
    and links: "\<forall>c\<in>set classes. link_ok c"
    and start: "start = (if ci_super_name (classes ! last chain) = Some java_lang_Enum then ENUM_IMPLICIT_FIELDS else 0)"
  shows "case alloc_instance al classes ci h of
      (Inl e, h') \<Rightarrow> False
    | (Inr None, h') \<Rightarrow> ob_ok h' \<and> ob_abs h' = ob_abs h \<or>
        start + chain_slots classes chain = 0 \<and> fields_arena h' = []
    | (Inr (Some i), h') \<Rightarrow> ob_ok h' \<and> ob_abs h (unat i) = None \<and>
        ob_abs h' = (ob_abs h)(unat i \<mapsto> (ci_name (classes ! ci),
          if chain_slots classes chain = 0 then []
          else replicate start SNull @ chain_defaults classes chain))"
proof -
  let ?tot = "chain_slots classes chain" and ?name = "ci_name (classes ! ci)"
  let ?n = "start + chain_slots classes chain"
  have first: "alloc_instance al classes ci h =
      (case alloc_with_field_count al ?name ?n h of
         (Inl e, h1) \<Rightarrow> (Inl e, h1) | (Inr None, h1) \<Rightarrow> (Inr None, h1)
       | (Inr (Some idx), h1) \<Rightarrow>
           if 0 < ?tot then fill_fields classes chain ?n idx h1 else (Inr (Some idx), h1))"
    unfolding alloc_instance_def chain_slots_def start
    by (simp only: if_not_P [OF ci [folded not_le]] chain Let_def option.case)
  note law = ob_alloc_law [OF ok al room, of ?n ?name]
  obtain r h1 where r: "alloc_with_field_count al ?name ?n h = (r, h1)" by fastforce
  show ?thesis
  proof (cases r)
    case (Inl e)
    with law r show ?thesis by simp
  next
    case (Inr res)
    show ?thesis
    proof (cases res)
      case None
      with law r Inr show ?thesis unfolding first by simp
    next
      case (Some idx)
      with law r Inr have "allocated h ?name ?n idx h1" by simp
      then obtain a where l: "ob_ok h1" "ob_abs h (unat idx) = None"
        "ob_abs h1 = (ob_abs h)(unat idx \<mapsto> (?name, []))"
        "ob_slot h1 (unat idx) = Some a" "unat (fields_cap a) = ?n" "field_count a = 0"
        unfolding allocated_def by blast
      have name: "class_table h1 ! unat (obj_class a) = ?name"
        using fun_cong [OF l(3), of "unat idx"] l(4) by (simp add: ob_abs_def obj_view_def)
      show ?thesis
      proof (cases "0 < ?tot")
        case True
        have lk: "\<forall>i\<in>set chain. link_ok (classes ! i)"
          using links super_chain_law [OF chain] by auto
        obtain h2 where h2: "fill_fields classes chain ?n idx h1 = (Inr (Some idx), h2)" "ob_ok h2"
          "ob_abs h2 = (ob_abs h1)(unat idx \<mapsto> (?name, replicate start SNull @ chain_defaults classes chain))"
          using fill_fields_law [OF l(1,4,6,5) True lk] name by auto
        then show ?thesis using r Inr Some True l(2,3) unfolding first by simp
      next
        case False
        then show ?thesis using r Inr Some l unfolding first by simp
      qed
    qed
  qed
qed

section \<open>Properties\<close>

text \<open>
  A heap with a dead span in front of a live object of class \<open>A\<close> that has one populated
  field and room for two.
\<close>

definition small_object_heap :: object_heap where
  "small_object_heap =
     \<lparr>objects = \<lparr>chunk_shift = 1,
        chunks = [[None, Some \<lparr>fields_off = 2, obj_class = 0, field_count = 1, fields_cap = 2\<rparr>]], cs_len = 2\<rparr>,
      fields_arena = [SInt 8, SInt 9, SInt 7, SNull], fields_arena_cap = 8, ob_first_free = 0,
      class_table = [''A''], class_table_cap = 4, ob_alloc_events = 0\<rparr>"

lemma all_less_2: "(\<forall>k<2::nat. P k) \<longleftrightarrow> P 0 \<and> P 1"
  by (auto simp: less_2_cases_iff)

lemma small_object_heap_ok: "ob_ok small_object_heap" "length (class_table small_object_heap) < 2 ^ 16"
  by (simp_all add: ob_ok_def ob_inv_def small_object_heap_def cs_ok_def chunk_size_def cs_iter_def REF_TOP_def
      good_object_def span_slots_def slice_def spans_ok_def spans_apart_def spans_within_def
      field_spans_def field_span_def All_less_Suc all_less_2)

lemma small_object_heap_abs: "ob_abs small_object_heap 1 = Some (''A'', [SInt 7])"
  by (simp add: ob_abs_def ob_slot_def small_object_heap_def cs_get_def split_index_def chunk_size_def
      obj_view_def span_slots_def slice_def)

lemma below_100: "small_allocator (\<lambda>k n. n < 100)"
  by (auto simp: small_allocator_def)

text \<open>
  Object allocation. It never panics; a granted object is at an index that named no live
  object, is of the asked class, has no populated field and room for what was asked; every
  other object keeps its class and fields. A refusal, whichever reservation failed, leaves
  every object as it was when the request was for at least one field slot (for none, see the
  wiped arena below).
\<close>

theorem ob_alloc_refines:
  assumes "ob_ok h" and "small_allocator al" and "length (class_table h) < 2 ^ 16"
  shows "case alloc_with_field_count al name n h of
      (Inl e, h') \<Rightarrow> False
    | (Inr None, h') \<Rightarrow> 0 < n \<longrightarrow> ob_ok h' \<and> ob_abs h' = ob_abs h
    | (Inr (Some i), h') \<Rightarrow> ob_ok h' \<and> ob_abs h (unat i) = None \<and>
        ob_abs h' = (ob_abs h)(unat i \<mapsto> (name, []))"
  using ob_alloc_law [OF assms, of n name]
  by (auto simp: allocated_def split: prod.splits sum.splits option.splits)

theorem ob_alloc_refines_witness:
  "case alloc_with_field_count (\<lambda>k n. n < 100) ''B'' 2 small_object_heap of
      (Inl e, h') \<Rightarrow> False
    | (Inr None, h') \<Rightarrow> ob_abs h' 1 = Some (''A'', [SInt 7])
    | (Inr (Some i), h') \<Rightarrow> ob_abs h' (unat i) = Some (''B'', [])"
  using ob_alloc_refines [OF small_object_heap_ok(1) below_100 small_object_heap_ok(2), where n = 2 and name = "''B''"]
    small_object_heap_abs
  by (auto split: prod.splits sum.splits option.splits)


definition base_class :: class_info where
  "base_class = \<lparr>ci_name = ''Base'', ci_own_slots = 1, ci_fields = [(0, KIND_INT)], ci_super = None,
     ci_super_name = Some ''java/lang/Object''\<rparr>"

definition sub_class :: class_info where
  "sub_class = \<lparr>ci_name = ''Sub'', ci_own_slots = 3, ci_fields = [(0, KIND_REF), (1, KIND_LONG)],
     ci_super = Some 0, ci_super_name = Some ''Base''\<rparr>"


text \<open>
  C34: field access is that of the abstract heap. A read decodes the value that starts at the
  slot and is \<open>None\<close> for an unpopulated slot, a half of a wide value or a dead object; a
  write changes one object only, growing its span when the field lies past it, and is refused
  without effect only when the object is dead or its span had to grow and could not; freeing
  forgets one object. Nothing panics, and the invariant holds throughout.
\<close>

theorem ob_fields_refine:
  assumes "ob_ok h" and "small_allocator al"
  shows "get_field h idx field =
      (case ob_abs h (unat idx) of
         None \<Rightarrow> None | Some (c, fs) \<Rightarrow> map_option fst (read_value (drop field fs)))
    \<and> (case set_field al idx field v h of
         (Inl e, h') \<Rightarrow> False
       | (Inr None, h') \<Rightarrow> h' = h \<and>
           (\<forall>a. ob_slot h (unat idx) = Some a \<longrightarrow> unat (fields_cap a) < field + slot_width v)
       | (Inr (Some _), h') \<Rightarrow> ob_ok h' \<and> (\<exists>c fs. ob_abs h (unat idx) = Some (c, fs) \<and>
           ob_abs h' = (ob_abs h)(unat idx \<mapsto> (c, put_slots field v fs))))
    \<and> ob_ok (ob_free idx h) \<and> ob_abs (ob_free idx h) = (ob_abs h)(unat idx := None)"
  by (intro conjI get_field_law [OF assms(1)] set_field_law [OF assms]
      ob_free_law [OF assms(1), THEN conjunct1] ob_free_law [OF assms(1), THEN conjunct2])

theorem ob_fields_refine_witness:
  "get_field small_object_heap 1 0 = Some (VInt 7) \<and> get_field small_object_heap 1 1 = None
   \<and> (case set_field (\<lambda>k n. n < 100) 1 1 (VLong 5) small_object_heap of
        (Inl e, h') \<Rightarrow> False
      | (Inr None, h') \<Rightarrow> h' = small_object_heap
      | (Inr (Some _), h') \<Rightarrow> ob_abs h' 1 = Some (''A'', [SInt 7, SLongLo 5, SLongHi 0]))"
proof -
  note all = ob_fields_refine [OF small_object_heap_ok(1) below_100, where idx = 1]
  have one: "unat (1 :: u16) = 1" by simp
  have "put_slots 1 (VLong 5) [SInt 7] = [SInt 7, SLongLo 5, SLongHi 0]"
    by (simp add: put_slots_def slots_of_def slot_width_def lo32_def hi32_def resize_def write_slots_def)
  then show ?thesis
    using all [where field = 0] all [where field = 1 and v = "VLong 5"] small_object_heap_abs unfolding one
    by (auto split: prod.splits sum.splits option.splits)
qed

text \<open>
  \<open>Object.clone\<close> of an object with fields gives a new object of the same class with
  the same populated slots; refused, or of a dead index, it leaves every object as it was.
\<close>

theorem clone_object_copies:
  assumes "ob_ok h" and "small_allocator al"
  shows "case clone_object al idx h of
      (Inl e, h') \<Rightarrow> False
    | (Inr None, h') \<Rightarrow> (\<forall>a. ob_slot h (unat idx) = Some a \<longrightarrow> 0 < fields_cap a) \<longrightarrow>
        ob_ok h' \<and> ob_abs h' = ob_abs h
    | (Inr (Some n), h') \<Rightarrow> ob_ok h' \<and> ob_abs h (unat n) = None \<and> ob_abs h (unat idx) \<noteq> None \<and>
        ob_abs h' = (ob_abs h)(unat n := ob_abs h (unat idx))"
  using clone_object_law [OF assms, of idx] by (auto split: prod.splits sum.splits option.splits)

theorem clone_object_copies_witness:
  "case clone_object (\<lambda>k n. n < 100) 1 small_object_heap of
      (Inl e, h') \<Rightarrow> False
    | (Inr None, h') \<Rightarrow> ob_abs h' = ob_abs small_object_heap
    | (Inr (Some n), h') \<Rightarrow> ob_abs h' (unat n) = Some (''A'', [SInt 7])"
proof -
  have one: "unat (1 :: u16) = 1" by simp
  have "\<forall>a. ob_slot small_object_heap 1 = Some a \<longrightarrow> 0 < fields_cap a"
    by (simp add: ob_slot_def small_object_heap_def cs_get_def split_index_def chunk_size_def)
  then show ?thesis
    using clone_object_copies [OF small_object_heap_ok(1) below_100, where idx = 1] small_object_heap_abs
    unfolding one by (auto split: prod.splits sum.splits option.splits)
qed

text \<open>
  compaction of the fields arena, in as many passes as the slice buffer takes, never
  panics and terminates; every object keeps its index, class and fields; and what is left of
  the arena is exactly the live spans.
\<close>

theorem compact_fields_arena_keeps:
  assumes "ob_ok h"
  shows "\<exists>cap' h'. compact_fields_arena al cap h = (Inr cap', h') \<and> ob_ok h' \<and> ob_abs h' = ob_abs h \<and>
    (0 < cap \<longrightarrow> length (fields_arena h') = spans_total (field_spans h))"
  by (rule compact_fields_law [OF assms])

theorem compact_fields_arena_keeps_witness:
  "\<exists>cap' h'. compact_fields_arena (\<lambda>_ _. False) 1 small_object_heap = (Inr cap', h') \<and>
     ob_abs h' 1 = Some (''A'', [SInt 7]) \<and> length (fields_arena h') = 2"
proof -
  have "spans_total (field_spans small_object_heap) = 2"
    by (simp add: spans_total_def field_spans_def small_object_heap_def cs_iter_def field_span_def)
  then show ?thesis
    using compact_fields_arena_keeps [OF small_object_heap_ok(1), where al = "\<lambda>_ _. False" and cap = 1]
      small_object_heap_abs by auto
qed

text \<open>
  C33: a fault of the rollback. A field-less object's offset is recorded as 0, and a refused
  placement cuts the arena back to that offset: when the slot table cannot grow for an object
  of no fields, the fields of every live object are gone. Reads then find nothing, and a write
  to a field the object has room for panics.
\<close>

theorem refused_alloc_wipes_fields:
  assumes "ob_slot h (unat idx) = Some a" and "field + slot_width v \<le> unat (fields_cap a)"
    and "name \<in> set (class_table h)"
    and "alloc_with_field_count al name 0 h = (Inr None, h')"
  shows "fields_arena h' = [] \<and> get_field h' idx field = None \<and>
    fst (set_field al idx field v h') = Inl Panic"
proof -
  obtain i where i: "position (\<lambda>e. e = name) (class_table h) = Some i"
    using assms(3) by (cases "position (\<lambda>e. e = name) (class_table h)") (auto simp: position_None)
  have empty: "fields_arena h' = []"
    using assms(4)
    by (auto simp: alloc_with_field_count_def intern_class_def i alloc_span_def cut_arena_def
        split: prod.splits sum.splits option.splits)
  have "objects h' = objects h"
    using assms(4)
    by (auto simp: alloc_with_field_count_def intern_class_def i alloc_span_def cut_arena_def
        place_in_slot_def Let_def dest!: cs_try_push_None split: prod.splits sum.splits option.splits if_splits)
  then have slot: "ob_slot h' (unat idx) = Some a" using assms(1) by (simp add: ob_slot_def)
  obtain lo hi where v: "to_slots v = (lo, hi)" by fastforce
  have "fields_arena (set_object (unat idx) b h') = []" for b
    using empty by (simp add: set_object_def split: option.splits)
  then have "fst (set_field al idx field v h') = Inl Panic"
    using assms(2) by (simp add: set_field_eq [OF v slot] grow_fields_def set_field_rest_def Let_def)
  then show ?thesis using empty by (simp add: get_field_def slot Let_def)
qed

text \<open>A slot table of one slot, taken, and an allocator with nothing left.\<close>

definition full_object_heap :: object_heap where
  "full_object_heap =
     \<lparr>objects = \<lparr>chunk_shift = 0,
        chunks = [[Some \<lparr>fields_off = 0, obj_class = 0, field_count = 1, fields_cap = 1\<rparr>]], cs_len = 1\<rparr>,
      fields_arena = [SInt 7], fields_arena_cap = 1, ob_first_free = 1,
      class_table = [''A''], class_table_cap = 1, ob_alloc_events = 0\<rparr>"

theorem refused_alloc_wipes_fields_witness:
  "get_field full_object_heap 0 0 = Some (VInt 7) \<and>
   (let h' = snd (alloc_with_field_count (\<lambda>_ _. False) ''A'' 0 full_object_heap)
    in get_field h' 0 0 = None \<and> fst (set_field (\<lambda>_ _. False) 0 0 (VInt 1) h') = Inl Panic)"
proof -
  let ?a = "\<lparr>fields_off = 0, obj_class = 0, field_count = 1, fields_cap = 1\<rparr>"
  let ?h' = "full_object_heap\<lparr>ob_alloc_events := 1, fields_arena := []\<rparr>"
  have slot: "ob_slot full_object_heap (unat (0 :: u16)) = Some ?a"
    by (simp add: ob_slot_def full_object_heap_def cs_get_def split_index_def chunk_size_def)
  have fit: "0 + slot_width (VInt 1) \<le> unat (fields_cap ?a)" by (simp add: slot_width_def)
  have known: "''A'' \<in> set (class_table full_object_heap)" by (simp add: full_object_heap_def)
  have refused: "alloc_with_field_count (\<lambda>_ _. False) ''A'' 0 full_object_heap = (Inr None, ?h')"
    by (simp add: alloc_with_field_count_def intern_class_def alloc_span_def place_in_slot_def
        full_object_heap_def scan_free.simps REF_TOP_def cs_try_push_def split_index_def chunk_size_def
        cut_arena_def saturating_inc16_def Let_def)
  have "get_field full_object_heap 0 0 = Some (VInt 7)"
    using slot by (simp add: get_field_def full_object_heap_def ob_slot_def)
  with refused_alloc_wipes_fields [OF slot fit known refused] refused show ?thesis by simp
qed

end
