(* ===== verification/SideStores.thy ===== *)
theory SideStores
  imports ObjectHeap
begin

text \<open>
  The side stores of the object heap, \<open>crates/jvm/src/object_heap/\<close>: the buffers of
  \<open>ArrayList\<close> and \<open>HashMap\<close> (\<open>list_store.rs\<close>, \<open>map_store.rs\<close>) and of
  \<open>StringBuilder\<close> (\<open>sb_store.rs\<close>), the registries of iterators and lambda proxies
  (\<open>iter_store.rs\<close>, \<open>lambda.rs\<close>), the boxed-value cache (\<open>boxed_cache.rs\<close>) and
  the three exception tables (\<open>mod.rs\<close>). In the code they are fields of
  \<open>ObjectHeap\<close>; here they are a record of their own, beside the heap they never touch.
\<close>

section \<open>Vectors and tables\<close>

record 'a vec =
  items :: "'a list"
  vcap :: nat

definition vec_new :: "'a vec" where
  "vec_new = \<lparr>items = [], vcap = 0\<rparr>"

datatype exhausted = Exhausted

text \<open>\<open>reserve_fallible(v, n)?\<close>: the vector with room for \<open>n\<close> more.\<close>

definition vec_room :: "(nat \<Rightarrow> bool) \<Rightarrow> nat \<Rightarrow> 'a vec \<Rightarrow> 'a vec option" where
  "vec_room mem n v =
     map_option (\<lambda>c. v\<lparr>vcap := c\<rparr>) (reserve_fallible mem (vcap v) (length (items v)) n)"

definition vec_push :: "'a \<Rightarrow> 'a vec \<Rightarrow> 'a vec" where
  "vec_push x v = v\<lparr>items := items v @ [x]\<rparr>"

definition vec_set :: "nat \<Rightarrow> 'a \<Rightarrow> 'a vec \<Rightarrow> 'a vec" where
  "vec_set i x v = v\<lparr>items := (items v)[i := x]\<rparr>"

definition vec_get :: "'a vec \<Rightarrow> nat \<Rightarrow> 'a option" where
  "vec_get v i = (if i < length (items v) then Some (items v ! i) else None)"

text \<open>\<open>retain\<close> of the entries of other keys.\<close>

definition drop_key :: "u16 \<Rightarrow> (u16 \<times> 'a) vec \<Rightarrow> (u16 \<times> 'a) vec" where
  "drop_key k t = t\<lparr>items := filter (\<lambda>e. fst e \<noteq> k) (items t)\<rparr>"

text \<open>\<open>iter().find(..)\<close>: the first entry of the key.\<close>

definition find_key :: "(u16 \<times> 'a) vec \<Rightarrow> u16 \<Rightarrow> 'a option" where
  "find_key t k = map_option snd (find (\<lambda>e. fst e = k) (items t))"

datatype iter_source = IterList u16 | MapKeys u16 | MapValues u16 | MapEntries u16

record iterator_state =
  source :: iter_source
  iter_position :: nat
  iter_owner :: u16
  expected_mods :: u32
  last_returned :: "nat option"

datatype lambda_target =
    TJava nat nat
  | TNativeStatic string string string u32
  | TVirtual string string u32
  | TCtor string "u8 list" "(nat \<times> nat) option" string u32

record lambda_proxy =
  lambda_target :: lambda_target
  captures :: "slot list"
  sam_name :: "u8 list"

record stores =
  sb_bufs :: "u8 vec option vec"
  list_bufs :: "slot vec option vec"
  map_bufs :: "(slot \<times> slot) vec option vec"
  list_mods :: "u32 vec"
  map_mods :: "u32 vec"
  lambda_proxies :: "(u16 \<times> lambda_proxy) vec"
  boxed_cache :: "u16 list option list"
  bool_cache :: "u16 list"
  oom_reserve :: u16
  iter_states :: "(u16 \<times> iterator_state) vec"
  exception_messages :: "(u16 \<times> u16) vec"
  suppressed :: "(u16 \<times> u16 vec) vec"
  exception_causes :: "(u16 \<times> u16) vec"

definition BOX_NONE :: u16 where
  "BOX_NONE = 0xFFFF"

definition stores_new :: stores where
  "stores_new =
     \<lparr>sb_bufs = vec_new, list_bufs = vec_new, map_bufs = vec_new, list_mods = vec_new, map_mods = vec_new,
      lambda_proxies = vec_new, boxed_cache = [None, None, None, None, None],
      bool_cache = [BOX_NONE, BOX_NONE], oom_reserve = BOX_NONE, iter_states = vec_new,
      exception_messages = vec_new, suppressed = vec_new, exception_causes = vec_new\<rparr>"

text \<open>\<open>Some(Some(buf)) = bufs.get(idx)\<close>, and the write through \<open>get_mut\<close>.\<close>

definition buf_at :: "'a vec option vec \<Rightarrow> u16 \<Rightarrow> 'a vec option" where
  "buf_at t idx = (case vec_get t (unat idx) of Some (Some b) \<Rightarrow> Some b | _ \<Rightarrow> None)"

definition set_buf :: "u16 \<Rightarrow> 'a vec option \<Rightarrow> 'a vec option vec \<Rightarrow> 'a vec option vec" where
  "set_buf idx b t = vec_set (unat idx) b t"

text \<open>\<open>iter().position(|s| s.is_none())\<close>.\<close>

definition free_buf :: "'a vec option vec \<Rightarrow> nat option" where
  "free_buf t = position (\<lambda>s. s = None) (items t)"

section \<open>Lists\<close>

definition list_alloc :: "allocator \<Rightarrow> stores \<Rightarrow> u16 option \<times> stores" where
  "list_alloc al s =
     (case free_buf (list_bufs s) of
        Some i \<Rightarrow>
          (Some (of_nat i),
           s\<lparr>list_bufs := vec_set i (Some vec_new) (list_bufs s), list_mods := vec_set i 0 (list_mods s)\<rparr>)
      | None \<Rightarrow>
          if REF_TOP \<le> length (items (list_bufs s)) then (None, s)
          else (case vec_room (al TableBuf) 1 (list_bufs s) of
                  None \<Rightarrow> (None, s)
                | Some b \<Rightarrow>
                    (case vec_room (al TableBuf) 1 (list_mods s) of
                       None \<Rightarrow> (None, s\<lparr>list_bufs := b\<rparr>)
                     | Some m \<Rightarrow>
                         (Some (of_nat (length (items (list_bufs s)))),
                          s\<lparr>list_bufs := vec_push (Some vec_new) b, list_mods := vec_push 0 m\<rparr>))))"

definition list_free :: "u16 \<Rightarrow> stores \<Rightarrow> stores" where
  "list_free idx s = s\<lparr>list_bufs := set_buf idx None (list_bufs s)\<rparr>"

definition list_len :: "stores \<Rightarrow> u16 \<Rightarrow> nat" where
  "list_len s idx = (case buf_at (list_bufs s) idx of None \<Rightarrow> 0 | Some b \<Rightarrow> length (items b))"

definition list_get :: "stores \<Rightarrow> u16 \<Rightarrow> nat \<Rightarrow> jvm_value option" where
  "list_get s idx i =
     Option.bind (buf_at (list_bufs s) idx) (\<lambda>b. Option.bind (vec_get b i) to_value)"

definition list_mod_count :: "stores \<Rightarrow> u16 \<Rightarrow> u32" where
  "list_mod_count s idx = (case vec_get (list_mods s) (unat idx) of None \<Rightarrow> 0 | Some m \<Rightarrow> m)"

definition bump_mods :: "u16 \<Rightarrow> u32 vec \<Rightarrow> u32 vec" where
  "bump_mods idx m =
     (case vec_get m (unat idx) of None \<Rightarrow> m | Some n \<Rightarrow> vec_set (unat idx) (n + 1) m)"

definition bump_list_mods :: "u16 \<Rightarrow> stores \<Rightarrow> stores" where
  "bump_list_mods idx s = s\<lparr>list_mods := bump_mods idx (list_mods s)\<rparr>"

text \<open>\<open>elem(v)?\<close>: a bare \<open>long\<close> or \<open>double\<close> is refused.\<close>

definition list_add :: "allocator \<Rightarrow> u16 \<Rightarrow> jvm_value \<Rightarrow> (stores, exhausted, unit) action" where
  "list_add al idx v s =
     (case from_narrow v of
        None \<Rightarrow> (Inl Exhausted, s)
      | Some e \<Rightarrow>
          (case buf_at (list_bufs s) idx of
             None \<Rightarrow> (Inr (), s)
           | Some buf \<Rightarrow>
               (case vec_room (al SlotBuf) 1 buf of
                  None \<Rightarrow> (Inl Exhausted, s)
                | Some b \<Rightarrow>
                    (Inr (), bump_list_mods idx
                       (s\<lparr>list_bufs := set_buf idx (Some (vec_push e b)) (list_bufs s)\<rparr>)))))"

definition list_insert :: "allocator \<Rightarrow> u16 \<Rightarrow> nat \<Rightarrow> jvm_value \<Rightarrow> (stores, exhausted, unit) action" where
  "list_insert al idx i v s =
     (case from_narrow v of
        None \<Rightarrow> (Inl Exhausted, s)
      | Some e \<Rightarrow>
          (case buf_at (list_bufs s) idx of
             None \<Rightarrow> (Inr (), s)
           | Some buf \<Rightarrow>
               (case vec_room (al SlotBuf) 1 buf of
                  None \<Rightarrow> (Inl Exhausted, s)
                | Some b \<Rightarrow>
                    (let pos = min i (length (items b));
                         b' = b\<lparr>items := take pos (items b) @ e # drop pos (items b)\<rparr>
                     in (Inr (), bump_list_mods idx
                          (s\<lparr>list_bufs := set_buf idx (Some b') (list_bufs s)\<rparr>))))))"

definition list_set :: "u16 \<Rightarrow> nat \<Rightarrow> jvm_value \<Rightarrow> stores \<Rightarrow> jvm_value option \<times> stores" where
  "list_set idx i v s =
     (case from_narrow v of
        None \<Rightarrow> (None, s)
      | Some e \<Rightarrow>
          (case buf_at (list_bufs s) idx of
             None \<Rightarrow> (None, s)
           | Some buf \<Rightarrow>
               (case Option.bind (vec_get buf i) to_value of
                  None \<Rightarrow> (None, s)
                | Some old \<Rightarrow>
                    (Some old, s\<lparr>list_bufs := set_buf idx (Some (vec_set i e buf)) (list_bufs s)\<rparr>))))"

text \<open>\<open>Vec::remove(i)\<close> on the elements.\<close>

definition remove_at :: "nat \<Rightarrow> 'a list \<Rightarrow> 'a list" where
  "remove_at i xs = take i xs @ drop (i + 1) xs"

definition list_remove :: "u16 \<Rightarrow> nat \<Rightarrow> stores \<Rightarrow> jvm_value option \<times> stores" where
  "list_remove idx i s =
     (case buf_at (list_bufs s) idx of
        None \<Rightarrow> (None, s)
      | Some buf \<Rightarrow>
          if i < length (items buf)
          then (to_value (items buf ! i),
                bump_list_mods idx
                  (s\<lparr>list_bufs := set_buf idx (Some (buf\<lparr>items := remove_at i (items buf)\<rparr>)) (list_bufs s)\<rparr>))
          else (None, s))"

definition list_clear :: "u16 \<Rightarrow> stores \<Rightarrow> stores" where
  "list_clear idx s =
     (case buf_at (list_bufs s) idx of
        None \<Rightarrow> s
      | Some _ \<Rightarrow> bump_list_mods idx (s\<lparr>list_bufs := set_buf idx (Some vec_new) (list_bufs s)\<rparr>))"

definition list_slots :: "stores \<Rightarrow> u16 \<Rightarrow> slot list" where
  "list_slots s idx = (case buf_at (list_bufs s) idx of None \<Rightarrow> [] | Some b \<Rightarrow> items b)"

definition list_iter :: "stores \<Rightarrow> u16 \<Rightarrow> jvm_value list" where
  "list_iter s idx = List.map_filter to_value (list_slots s idx)"

section \<open>String builders\<close>

definition sb_alloc :: "allocator \<Rightarrow> stores \<Rightarrow> u16 option \<times> stores" where
  "sb_alloc al s =
     (case free_buf (sb_bufs s) of
        Some i \<Rightarrow> (Some (of_nat i), s\<lparr>sb_bufs := vec_set i (Some vec_new) (sb_bufs s)\<rparr>)
      | None \<Rightarrow>
          if REF_TOP \<le> length (items (sb_bufs s)) then (None, s)
          else (case vec_room (al TableBuf) 1 (sb_bufs s) of
                  None \<Rightarrow> (None, s)
                | Some b \<Rightarrow>
                    (Some (of_nat (length (items (sb_bufs s)))),
                     s\<lparr>sb_bufs := vec_push (Some vec_new) b\<rparr>)))"

definition sb_free :: "u16 \<Rightarrow> stores \<Rightarrow> stores" where
  "sb_free idx s = s\<lparr>sb_bufs := set_buf idx None (sb_bufs s)\<rparr>"

definition sb_append_bytes :: "allocator \<Rightarrow> u16 \<Rightarrow> u8 list \<Rightarrow> (stores, exhausted, unit) action" where
  "sb_append_bytes al idx bytes s =
     (case buf_at (sb_bufs s) idx of
        None \<Rightarrow> (Inr (), s)
      | Some buf \<Rightarrow>
          (case vec_room (al U8Buf) (length bytes) buf of
             None \<Rightarrow> (Inl Exhausted, s)
           | Some b \<Rightarrow>
               (Inr (), s\<lparr>sb_bufs := set_buf idx (Some (b\<lparr>items := items b @ bytes\<rparr>)) (sb_bufs s)\<rparr>)))"

definition sb_len :: "stores \<Rightarrow> u16 \<Rightarrow> nat" where
  "sb_len s idx = (case buf_at (sb_bufs s) idx of None \<Rightarrow> 0 | Some b \<Rightarrow> length (items b))"

definition sb_char_at :: "stores \<Rightarrow> u16 \<Rightarrow> nat \<Rightarrow> u8 option" where
  "sb_char_at s idx pos = Option.bind (buf_at (sb_bufs s) idx) (\<lambda>b. vec_get b pos)"

text \<open>
  \<open>sb_insert_bytes\<close>. The result is \<open>None\<close> when the program aborts: \<open>split_off\<close>
  allocates a vector for the tail, and has no way to refuse.
\<close>

definition sb_insert_bytes ::
  "allocator \<Rightarrow> u16 \<Rightarrow> nat \<Rightarrow> u8 list \<Rightarrow> stores \<Rightarrow> ((exhausted + bool) \<times> stores) option" where
  "sb_insert_bytes al idx pos bytes s =
     (case buf_at (sb_bufs s) idx of
        None \<Rightarrow> Some (Inr True, s)
      | Some buf \<Rightarrow>
          if length (items buf) < pos then Some (Inr False, s)
          else (case vec_room (al U8Buf) (length bytes) buf of
                  None \<Rightarrow> Some (Inl Exhausted, s)
                | Some b \<Rightarrow>
                    (let n = length (items b) - pos
                     in if n = 0 \<or> al U8Buf n
                        then Some (Inr True, s\<lparr>sb_bufs := set_buf idx
                               (Some (b\<lparr>items := take pos (items b) @ bytes @ drop pos (items b)\<rparr>)) (sb_bufs s)\<rparr>)
                        else None)))"

definition sb_set_len :: "allocator \<Rightarrow> u16 \<Rightarrow> nat \<Rightarrow> (stores, exhausted, unit) action" where
  "sb_set_len al idx len s =
     (case buf_at (sb_bufs s) idx of
        None \<Rightarrow> (Inr (), s)
      | Some buf \<Rightarrow>
          (case (if length (items buf) < len then vec_room (al U8Buf) (len - length (items buf)) buf
                 else Some buf) of
             None \<Rightarrow> (Inl Exhausted, s)
           | Some b \<Rightarrow>
               (Inr (), s\<lparr>sb_bufs := set_buf idx (Some (b\<lparr>items := resize (items b) len 0\<rparr>)) (sb_bufs s)\<rparr>)))"

definition sb_delete :: "u16 \<Rightarrow> nat \<Rightarrow> nat \<Rightarrow> stores \<Rightarrow> bool \<times> stores" where
  "sb_delete idx start end0 s =
     (case buf_at (sb_bufs s) idx of
        None \<Rightarrow> (True, s)
      | Some buf \<Rightarrow>
          (let end' = min end0 (length (items buf))
           in if end' < start then (False, s)
              else (True, s\<lparr>sb_bufs := set_buf idx
                      (Some (buf\<lparr>items := take start (items buf) @ drop end' (items buf)\<rparr>)) (sb_bufs s)\<rparr>)))"

definition sb_set_byte :: "u16 \<Rightarrow> nat \<Rightarrow> u8 \<Rightarrow> stores \<Rightarrow> bool \<times> stores" where
  "sb_set_byte idx pos b s =
     (case buf_at (sb_bufs s) idx of
        None \<Rightarrow> (False, s)
      | Some buf \<Rightarrow>
          if pos < length (items buf)
          then (True, s\<lparr>sb_bufs := set_buf idx (Some (vec_set pos b buf)) (sb_bufs s)\<rparr>)
          else (False, s))"

definition sb_reverse :: "u16 \<Rightarrow> stores \<Rightarrow> stores" where
  "sb_reverse idx s =
     (case buf_at (sb_bufs s) idx of
        None \<Rightarrow> s
      | Some buf \<Rightarrow> s\<lparr>sb_bufs := set_buf idx (Some (buf\<lparr>items := rev (items buf)\<rparr>)) (sb_bufs s)\<rparr>)"

definition sb_contents_slice :: "stores \<Rightarrow> u16 \<Rightarrow> u8 list" where
  "sb_contents_slice s idx = (case buf_at (sb_bufs s) idx of None \<Rightarrow> [] | Some b \<Rightarrow> items b)"

section \<open>Iterators and lambda proxies\<close>

text \<open>\<open>reserve_fallible(..)?\<close> and \<open>push\<close>, on a registry.\<close>

definition register :: "allocator \<Rightarrow> 'a \<Rightarrow> ('a vec, exhausted, unit) action" where
  "register al e t =
     (case vec_room (al TableBuf) 1 t of None \<Rightarrow> (Inl Exhausted, t) | Some t' \<Rightarrow> (Inr (), vec_push e t'))"

definition iter_register :: "allocator \<Rightarrow> u16 \<Rightarrow> iterator_state \<Rightarrow> (stores, exhausted, unit) action" where
  "iter_register al obj st s =
     (case register al (obj, st) (iter_states s) of (r, t) \<Rightarrow> (r, s\<lparr>iter_states := t\<rparr>))"

definition iter_get :: "stores \<Rightarrow> u16 \<Rightarrow> iterator_state option" where
  "iter_get s obj = find_key (iter_states s) obj"

text \<open>A write through \<open>iter_get_mut\<close>: the first entry of the key is updated.\<close>

definition iter_update :: "u16 \<Rightarrow> (iterator_state \<Rightarrow> iterator_state) \<Rightarrow> stores \<Rightarrow> stores" where
  "iter_update obj f s =
     (case position (\<lambda>e. fst e = obj) (items (iter_states s)) of
        None \<Rightarrow> s
      | Some i \<Rightarrow> s\<lparr>iter_states := vec_set i (obj, f (snd (items (iter_states s) ! i))) (iter_states s)\<rparr>)"

definition iter_free :: "u16 \<Rightarrow> stores \<Rightarrow> stores" where
  "iter_free obj s = s\<lparr>iter_states := drop_key obj (iter_states s)\<rparr>"

definition register_lambda :: "allocator \<Rightarrow> u16 \<Rightarrow> lambda_proxy \<Rightarrow> (stores, exhausted, unit) action" where
  "register_lambda al obj p s =
     (case register al (obj, p) (lambda_proxies s) of (r, t) \<Rightarrow> (r, s\<lparr>lambda_proxies := t\<rparr>))"

definition has_lambdas :: "stores \<Rightarrow> bool" where
  "has_lambdas s \<longleftrightarrow> items (lambda_proxies s) \<noteq> []"

definition get_lambda :: "stores \<Rightarrow> u16 \<Rightarrow> lambda_proxy option" where
  "get_lambda s obj = find_key (lambda_proxies s) obj"

definition free_lambda :: "u16 \<Rightarrow> stores \<Rightarrow> stores" where
  "free_lambda obj s = s\<lparr>lambda_proxies := drop_key obj (lambda_proxies s)\<rparr>"

section \<open>Exception tables\<close>

text \<open>Replace the first entry of the key, or register a new one.\<close>

definition put_key :: "allocator \<Rightarrow> u16 \<Rightarrow> 'a \<Rightarrow> ((u16 \<times> 'a) vec, exhausted, unit) action" where
  "put_key al k x t =
     (case position (\<lambda>e. fst e = k) (items t) of
        Some i \<Rightarrow> (Inr (), vec_set i (k, x) t)
      | None \<Rightarrow> register al (k, x) t)"

definition register_exception_message :: "allocator \<Rightarrow> u16 \<Rightarrow> u16 \<Rightarrow> (stores, exhausted, unit) action" where
  "register_exception_message al obj msg s =
     (case put_key al obj msg (exception_messages s) of (r, t) \<Rightarrow> (r, s\<lparr>exception_messages := t\<rparr>))"

definition get_exception_message :: "stores \<Rightarrow> u16 \<Rightarrow> u16 option" where
  "get_exception_message s obj = find_key (exception_messages s) obj"

definition free_exception_message :: "u16 \<Rightarrow> stores \<Rightarrow> stores" where
  "free_exception_message obj s = s\<lparr>exception_messages := drop_key obj (exception_messages s)\<rparr>"

definition register_exception_cause :: "allocator \<Rightarrow> u16 \<Rightarrow> u16 \<Rightarrow> (stores, exhausted, unit) action" where
  "register_exception_cause al obj cause s =
     (case put_key al obj cause (exception_causes s) of (r, t) \<Rightarrow> (r, s\<lparr>exception_causes := t\<rparr>))"

definition get_exception_cause :: "stores \<Rightarrow> u16 \<Rightarrow> u16 option" where
  "get_exception_cause s obj = find_key (exception_causes s) obj"

definition free_exception_cause :: "u16 \<Rightarrow> stores \<Rightarrow> stores" where
  "free_exception_cause obj s = s\<lparr>exception_causes := drop_key obj (exception_causes s)\<rparr>"

definition add_suppressed :: "allocator \<Rightarrow> u16 \<Rightarrow> u16 \<Rightarrow> (stores, exhausted, unit) action" where
  "add_suppressed al obj throwable s =
     (let t = suppressed s
      in case position (\<lambda>e. fst e = obj) (items t) of
           Some i \<Rightarrow>
             (case vec_room (al TableBuf) 1 (snd (items t ! i)) of
                None \<Rightarrow> (Inl Exhausted, s)
              | Some l \<Rightarrow> (Inr (), s\<lparr>suppressed := vec_set i (obj, vec_push throwable l) t\<rparr>))
         | None \<Rightarrow>
             (case vec_room (al TableBuf) 1 t of
                None \<Rightarrow> (Inl Exhausted, s)
              | Some t' \<Rightarrow>
                  (case vec_room (al TableBuf) 1 vec_new of
                     None \<Rightarrow> (Inl Exhausted, s\<lparr>suppressed := t'\<rparr>)
                   | Some l \<Rightarrow> (Inr (), s\<lparr>suppressed := vec_push (obj, vec_push throwable l) t'\<rparr>))))"

definition suppressed_list :: "stores \<Rightarrow> u16 \<Rightarrow> u16 list" where
  "suppressed_list s obj = (case find_key (suppressed s) obj of None \<Rightarrow> [] | Some l \<Rightarrow> items l)"

definition free_suppressed :: "u16 \<Rightarrow> stores \<Rightarrow> stores" where
  "free_suppressed obj s = s\<lparr>suppressed := drop_key obj (suppressed s)\<rparr>"

section \<open>The boxed-value cache\<close>

definition box_table :: "string \<Rightarrow> nat option" where
  "box_table cls =
     (if cls = java_lang_Integer then Some 0
      else if cls = java_lang_Long then Some 1
      else if cls = java_lang_Short then Some 2
      else if cls = java_lang_Byte then Some 3
      else if cls = java_lang_Character then Some 4
      else None)"

definition box_slot :: "nat \<Rightarrow> jvm_value \<Rightarrow> nat option" where
  "box_slot table v =
     (case v of
        VLong l \<Rightarrow> if table = 1 \<and> - 128 \<le> sint l \<and> sint l \<le> 127 then Some (nat (sint l + 128)) else None
      | VInt i \<Rightarrow>
          if table = 4 \<and> 0 \<le> sint i \<and> sint i \<le> 127 then Some (nat (sint i))
          else if table \<in> {0, 2, 3} \<and> - 128 \<le> sint i \<and> sint i \<le> 127 then Some (nat (sint i + 128))
          else None
      | _ \<Rightarrow> None)"

definition some_box :: "u16 \<Rightarrow> u16 option" where
  "some_box i = (if i = BOX_NONE then None else Some i)"

definition cached_box :: "stores \<Rightarrow> string \<Rightarrow> jvm_value \<Rightarrow> u16 option" where
  "cached_box s cls v =
     (if cls = java_lang_Boolean
      then (case v of VInt b \<Rightarrow> some_box (bool_cache s ! (if b = 0 then 0 else 1)) | _ \<Rightarrow> None)
      else case box_table cls of
             None \<Rightarrow> None
           | Some t \<Rightarrow>
               (case box_slot t v of
                  None \<Rightarrow> None
                | Some i \<Rightarrow>
                    (case boxed_cache s ! t of
                       None \<Rightarrow> None
                     | Some tab \<Rightarrow> if i < length tab then some_box (tab ! i) else None)))"

definition cache_box :: "allocator \<Rightarrow> string \<Rightarrow> jvm_value \<Rightarrow> u16 \<Rightarrow> stores \<Rightarrow> stores" where
  "cache_box al cls v idx s =
     (if cls = java_lang_Boolean
      then (case v of
              VInt b \<Rightarrow> s\<lparr>bool_cache := (bool_cache s)[(if b = 0 then 0 else 1) := idx]\<rparr>
            | _ \<Rightarrow> s)
      else case box_table cls of
             None \<Rightarrow> s
           | Some t \<Rightarrow>
               (case box_slot t v of
                  None \<Rightarrow> s
                | Some i \<Rightarrow>
                    (case (case boxed_cache s ! t of
                             Some tab \<Rightarrow> Some tab
                           | None \<Rightarrow> if al TableBuf 256 then Some (replicate 256 BOX_NONE) else None) of
                       None \<Rightarrow> s
                     | Some tab \<Rightarrow> s\<lparr>boxed_cache := (boxed_cache s)[t := Some (tab[i := idx])]\<rparr>)))"

definition boxed_cache_roots :: "stores \<Rightarrow> u16 list" where
  "boxed_cache_roots s =
     filter (\<lambda>i. i \<noteq> BOX_NONE)
       (concat (List.map_filter id (boxed_cache s)) @ bool_cache s @ [oom_reserve s])"

definition java_lang_OutOfMemoryError :: string where
  "java_lang_OutOfMemoryError = ''java/lang/OutOfMemoryError''"

definition ensure_oom_reserve :: "allocator \<Rightarrow> (object_heap \<times> stores, fault, unit) action" where
  "ensure_oom_reserve al = (\<lambda>(h, s).
     if oom_reserve s = BOX_NONE
     then (case ob_alloc al java_lang_OutOfMemoryError h of
             (Inl e, h') \<Rightarrow> (Inl e, (h', s))
           | (Inr None, h') \<Rightarrow> (Inr (), (h', s))
           | (Inr (Some i), h') \<Rightarrow> (Inr (), (h', s\<lparr>oom_reserve := i\<rparr>)))
     else (Inr (), (h, s)))"

definition the_oom_reserve :: "stores \<Rightarrow> u16 option" where
  "the_oom_reserve s = some_box (oom_reserve s)"

end
