(* ===== verification/SideStoreLaws.thy ===== *)
theory SideStoreLaws
  imports SideStores
begin

text \<open>
  What the side stores promise: buffers addressed by an index behave as independent lists, the
  modification counts move with structural changes only, the exception tables are maps, and a
  cached box is the one recorded for its class and value.
\<close>

section \<open>Vectors\<close>

lemma vec_room_items: "vec_room mem n v = Some w \<Longrightarrow> items w = items v"
  by (auto simp: vec_room_def)

lemma vec_ops_items [simp]:
  "items (vec_push x v) = items v @ [x]" "items (vec_set i x v) = (items v)[i := x]" "items vec_new = []"
  by (simp_all add: vec_push_def vec_set_def vec_new_def)

lemma buf_at_eq:
  "buf_at t idx = (if unat idx < length (items t) then items t ! unat idx else None)"
  by (simp add: buf_at_def vec_get_def split: option.splits)

lemma buf_at_set:
  assumes "buf_at t idx = Some b"
  shows "buf_at (set_buf idx c t) j = (if j = idx then c else buf_at t j)"
  using assms by (auto simp: buf_at_eq set_buf_def nth_list_update word_unat_eq_iff split: if_splits)

lemma buf_at_clear: "buf_at (set_buf idx None t) j = (if j = idx then None else buf_at t j)"
  by (auto simp: buf_at_eq set_buf_def nth_list_update word_unat_eq_iff)

lemma length_set_buf [simp]: "length (items (set_buf idx b t)) = length (items t)"
  by (simp add: set_buf_def)

lemma small_index: "i < 65536 \<Longrightarrow> unat (of_nat i :: u16) = i"
  by (simp add: unsigned_of_nat take_bit_nat_eq_self)

lemma buf_at_reuse:
  assumes "free_buf t = Some i" and "length (items t) \<le> REF_TOP"
  shows "buf_at t (of_nat i) = None"
    and "buf_at (vec_set i c t) j = (if j = of_nat i then c else buf_at t j)"
proof -
  have i: "i < length (items t)" "items t ! i = None"
    using position_Some [OF assms(1) [unfolded free_buf_def]] by simp_all
  with assms(2) have u: "unat (of_nat i :: u16) = i" by (simp add: small_index REF_TOP_def)
  show "buf_at t (of_nat i) = None" using i by (simp add: buf_at_eq u)
  show "buf_at (vec_set i c t) j = (if j = of_nat i then c else buf_at t j)"
    using i u by (auto simp: buf_at_eq nth_list_update word_unat_eq_iff)
qed

lemma buf_at_append:
  assumes "length (items t) < REF_TOP" and "items w = items t @ [c]"
  shows "buf_at t (of_nat (length (items t))) = None"
    and "buf_at w j = (if j = of_nat (length (items t)) then c else buf_at t j)"
proof -
  have u: "unat (of_nat (length (items t)) :: u16) = length (items t)"
    using assms(1) by (simp add: small_index REF_TOP_def)
  show "buf_at t (of_nat (length (items t))) = None" by (simp add: buf_at_eq u)
  show "buf_at w j = (if j = of_nat (length (items t)) then c else buf_at t j)"
    using assms(2) u by (auto simp: buf_at_eq nth_append less_Suc_eq word_unat_eq_iff)
qed

section \<open>The interface of a buffer store\<close>

text \<open>
  What the native classes rely on: an index names a buffer of its own. A new buffer is empty
  and takes no index in use, and freeing one touches no other.
\<close>

locale buffer_store =
  fixes inv :: "'s \<Rightarrow> bool"
    and view :: "'s \<Rightarrow> u16 \<Rightarrow> 'a list option"
    and alloc :: "allocator \<Rightarrow> 's \<Rightarrow> u16 option \<times> 's"
    and free :: "u16 \<Rightarrow> 's \<Rightarrow> 's"
  assumes alloc_new: "inv s \<Longrightarrow> alloc al s = (Some i, t) \<Longrightarrow>
      inv t \<and> view s i = None \<and> view t = (view s)(i \<mapsto> [])"
    and alloc_refused: "inv s \<Longrightarrow> alloc al s = (None, t) \<Longrightarrow> inv t \<and> view t = view s"
    and free_one: "inv s \<Longrightarrow> inv (free i s) \<and> view (free i s) = (view s)(i := None)"
begin

lemma alloc_distinct:
  assumes "inv s" and "alloc al s = (Some i, t)" and "alloc al' t = (Some j, u)"
  shows "i \<noteq> j \<and> view u i = Some [] \<and> view u j = Some []"
  using alloc_new [OF assms(1,2)] alloc_new [OF _ assms(3)] by auto

lemma alloc_keeps:
  assumes "inv s" and "view s k = Some xs"
  shows "view (snd (alloc al s)) k = Some xs"
proof (cases "alloc al s")
  case (Pair r t)
  show ?thesis
    using assms Pair alloc_new [of s al _ t] alloc_refused [of s al t] by (cases r) auto
qed

lemma free_alloc:
  assumes "inv s" and "alloc al s = (Some i, t)"
  shows "view (free i t) = view s"
  using alloc_new [OF assms] free_one [of t i] by (auto simp: fun_eq_iff)

end

section \<open>The invariant\<close>

text \<open>
  Every stored element is one narrow slot, the tables are short enough for their indices, and
  the lists and maps have a modification count each.
\<close>

definition stores_ok :: "stores \<Rightarrow> bool" where
  "stores_ok s \<longleftrightarrow>
     length (items (sb_bufs s)) \<le> REF_TOP \<and>
     length (items (list_bufs s)) \<le> REF_TOP \<and> length (items (list_mods s)) = length (items (list_bufs s)) \<and>
     length (items (map_bufs s)) \<le> REF_TOP \<and> length (items (map_mods s)) = length (items (map_bufs s)) \<and>
     (\<forall>idx b. buf_at (list_bufs s) idx = Some b \<longrightarrow> (\<forall>e\<in>set (items b). to_value e \<noteq> None)) \<and>
     (\<forall>idx b. buf_at (map_bufs s) idx = Some b \<longrightarrow>
        (\<forall>(k, v)\<in>set (items b). to_value k \<noteq> None \<and> to_value v \<noteq> None)) \<and>
     length (boxed_cache s) = 5 \<and> (\<forall>t. Some t \<in> set (boxed_cache s) \<longrightarrow> length t = 256) \<and>
     length (bool_cache s) = 2"

lemma stores_new_ok: "stores_ok stores_new"
  by (simp add: stores_ok_def stores_new_def buf_at_eq)

definition list_view :: "stores \<Rightarrow> u16 \<Rightarrow> slot list option" where
  "list_view s idx = map_option items (buf_at (list_bufs s) idx)"

definition list_vals :: "stores \<Rightarrow> u16 \<Rightarrow> jvm_value list option" where
  "list_vals s idx = map_option (map (\<lambda>e. the (to_value e))) (list_view s idx)"

definition sb_view :: "stores \<Rightarrow> u16 \<Rightarrow> u8 list option" where
  "sb_view s idx = map_option items (buf_at (sb_bufs s) idx)"

lemma list_alloc_law:
  assumes ok: "stores_ok s"
  shows "case list_alloc al s of
      (None, t) \<Rightarrow> stores_ok t \<and> list_view t = list_view s
    | (Some i, t) \<Rightarrow> stores_ok t \<and> list_view s i = None \<and> list_view t = (list_view s)(i \<mapsto> []) \<and>
        list_mod_count t i = 0"
proof (cases "free_buf (list_bufs s)")
  case (Some i)
  have le: "length (items (list_bufs s)) \<le> REF_TOP" using ok by (simp add: stores_ok_def)
  note r = buf_at_reuse [OF Some le]
  have i: "i < length (items (list_bufs s))" using position_Some [OF Some [unfolded free_buf_def]] by simp
  then have u: "unat (of_nat i :: u16) = i" using le by (simp add: small_index REF_TOP_def)
  have "stores_ok (s\<lparr>list_bufs := vec_set i (Some vec_new) (list_bufs s), list_mods := vec_set i 0 (list_mods s)\<rparr>)"
    using ok r(2) by (auto simp: stores_ok_def)
  with Some r i u ok show ?thesis
    by (auto simp: list_alloc_def list_view_def list_mod_count_def vec_get_def stores_ok_def fun_eq_iff)
next
  case None
  show ?thesis
  proof (cases "REF_TOP \<le> length (items (list_bufs s))")
    case True
    with None ok show ?thesis by (simp add: list_alloc_def)
  next
    case room: False
    show ?thesis
    proof (cases "vec_room (al TableBuf) 1 (list_bufs s)")
      case r1: None
      with None room ok show ?thesis by (simp add: list_alloc_def)
    next
      case b: (Some b)
      note bi = vec_room_items [OF b]
      have same: "buf_at b = buf_at (list_bufs s)" by (simp add: buf_at_eq bi fun_eq_iff)
      show ?thesis
      proof (cases "vec_room (al TableBuf) 1 (list_mods s)")
        case r2: None
        have "stores_ok (s\<lparr>list_bufs := b\<rparr>)" using ok bi same by (simp add: stores_ok_def)
        with None room b r2 same show ?thesis by (simp add: list_alloc_def list_view_def fun_eq_iff)
      next
        case m: (Some m)
        note mi = vec_room_items [OF m]
        let ?i = "of_nat (length (items (list_bufs s))) :: u16"
        have "length (items (list_bufs s)) < REF_TOP" using room by simp
        note ap = buf_at_append [OF this, of "vec_push (Some vec_new) b" "Some vec_new", simplified bi vec_ops_items, OF refl]
        have u: "unat ?i = length (items (list_bufs s))"
          using room by (simp add: small_index REF_TOP_def)
        have "stores_ok (s\<lparr>list_bufs := vec_push (Some vec_new) b, list_mods := vec_push 0 m\<rparr>)"
          using ok room ap(2) by (auto simp: stores_ok_def bi mi)
        moreover have "length (items (list_mods s)) = length (items (list_bufs s))"
          using ok by (simp add: stores_ok_def)
        ultimately show ?thesis
          using None room b m ap u mi
          by (auto simp: list_alloc_def list_view_def list_mod_count_def vec_get_def fun_eq_iff nth_append)
      qed
    qed
  qed
qed

lemma sb_alloc_law:
  assumes ok: "stores_ok s"
  shows "case sb_alloc al s of
      (None, t) \<Rightarrow> t = s
    | (Some i, t) \<Rightarrow> stores_ok t \<and> sb_view s i = None \<and> sb_view t = (sb_view s)(i \<mapsto> [])"
proof (cases "free_buf (sb_bufs s)")
  case (Some i)
  have le: "length (items (sb_bufs s)) \<le> REF_TOP" using ok by (simp add: stores_ok_def)
  from Some buf_at_reuse [OF Some le] ok show ?thesis
    by (auto simp: sb_alloc_def sb_view_def stores_ok_def fun_eq_iff)
next
  case None
  show ?thesis
  proof (cases "REF_TOP \<le> length (items (sb_bufs s))")
    case True
    with None ok show ?thesis by (simp add: sb_alloc_def)
  next
    case room: False
    show ?thesis
    proof (cases "vec_room (al TableBuf) 1 (sb_bufs s)")
      case r1: None
      with None room ok show ?thesis by (simp add: sb_alloc_def)
    next
      case b: (Some b)
      note bi = vec_room_items [OF b]
      have "length (items (sb_bufs s)) < REF_TOP" using room by simp
      note ap = buf_at_append [OF this, of "vec_push (Some vec_new) b" "Some vec_new", simplified bi vec_ops_items, OF refl]
      with None room b bi ok show ?thesis
        by (auto simp: sb_alloc_def sb_view_def stores_ok_def fun_eq_iff)
    qed
  qed
qed

lemma list_free_law:
  "stores_ok s \<Longrightarrow> stores_ok (list_free i s) \<and> list_view (list_free i s) = (list_view s)(i := None)"
  by (auto simp: list_free_def stores_ok_def list_view_def buf_at_clear fun_eq_iff)

lemma sb_free_law:
  "stores_ok s \<Longrightarrow> stores_ok (sb_free i s) \<and> sb_view (sb_free i s) = (sb_view s)(i := None)"
  by (auto simp: sb_free_def stores_ok_def sb_view_def buf_at_clear fun_eq_iff)

interpretation lists: buffer_store stores_ok list_view list_alloc list_free
proof unfold_locales
  fix s al i t assume "stores_ok s" "list_alloc al s = (Some i, t)"
  then show "stores_ok t \<and> list_view s i = None \<and> list_view t = (list_view s)(i \<mapsto> [])"
    using list_alloc_law [of s al] by simp
next
  fix s al t assume "stores_ok s" "list_alloc al s = (None, t)"
  then show "stores_ok t \<and> list_view t = list_view s" using list_alloc_law [of s al] by simp
qed (rule list_free_law)

interpretation builders: buffer_store stores_ok sb_view sb_alloc sb_free
proof unfold_locales
  fix s al i t assume "stores_ok s" "sb_alloc al s = (Some i, t)"
  then show "stores_ok t \<and> sb_view s i = None \<and> sb_view t = (sb_view s)(i \<mapsto> [])"
    using sb_alloc_law [of s al] by simp
next
  fix s al t assume "stores_ok s" "sb_alloc al s = (None, t)"
  then show "stores_ok t \<and> sb_view t = sb_view s" using sb_alloc_law [of s al] by simp
qed (rule sb_free_law)

section \<open>List operations\<close>

lemma narrow_value: "from_narrow v = Some e \<Longrightarrow> to_value e = Some v"
  by (cases v) (auto simp: from_narrow_def)

lemma list_valsD:
  assumes "stores_ok s" and "list_vals s idx = Some xs"
  obtains b where "buf_at (list_bufs s) idx = Some b" and "xs = map (\<lambda>e. the (to_value e)) (items b)"
    and "\<forall>e\<in>set (items b). to_value e \<noteq> None"
  using assms by (auto simp: list_vals_def list_view_def stores_ok_def)

lemma list_get_law:
  assumes "stores_ok s" and "list_vals s idx = Some xs"
  shows "list_get s idx i = (if i < length xs then Some (xs ! i) else None)"
    and "list_len s idx = length xs" and "list_iter s idx = xs"
proof -
  obtain b where b: "buf_at (list_bufs s) idx = Some b" "xs = map (\<lambda>e. the (to_value e)) (items b)"
    "\<forall>e\<in>set (items b). to_value e \<noteq> None" using list_valsD [OF assms] .
  show "list_get s idx i = (if i < length xs then Some (xs ! i) else None)"
    using b nth_mem [of i "items b"] by (auto simp: list_get_def vec_get_def)
  show "list_len s idx = length xs" using b by (simp add: list_len_def)
  have "List.map_filter to_value es = map (\<lambda>e. the (to_value e)) es"
    if "\<forall>e\<in>set es. to_value e \<noteq> None" for es
    using that by (induction es) (auto simp: map_filter_simps)
  then show "list_iter s idx = xs" using b by (simp add: list_iter_def list_slots_def)
qed

text \<open>Writing a list's buffer: what every mutation does, with or without a bump of its count.\<close>

lemma list_write:
  assumes ok: "stores_ok s" and b: "buf_at (list_bufs s) idx = Some b"
    and c: "\<forall>e\<in>set (items c). to_value e \<noteq> None"
    and t: "t = s\<lparr>list_bufs := set_buf idx (Some c) (list_bufs s)\<rparr>"
  shows "stores_ok t \<and> stores_ok (bump_list_mods idx t)"
    and "list_vals t = (list_vals s)(idx \<mapsto> map (\<lambda>e. the (to_value e)) (items c))"
    and "list_vals (bump_list_mods idx t) = (list_vals s)(idx \<mapsto> map (\<lambda>e. the (to_value e)) (items c))"
    and "list_mod_count t j = list_mod_count s j"
    and "list_mod_count (bump_list_mods idx t) j = list_mod_count s j + (if j = idx then 1 else 0)"
proof -
  have mods: "length (items (bump_mods idx m)) = length (items m)" for m
    by (simp add: bump_mods_def split: option.splits)
  show "stores_ok t \<and> stores_ok (bump_list_mods idx t)"
    using ok c buf_at_set [OF b, of "Some c"] by (simp add: t stores_ok_def bump_list_mods_def mods)
  show "list_vals t = (list_vals s)(idx \<mapsto> map (\<lambda>e. the (to_value e)) (items c))"
    "list_vals (bump_list_mods idx t) = (list_vals s)(idx \<mapsto> map (\<lambda>e. the (to_value e)) (items c))"
    using buf_at_set [OF b, of "Some c"]
    by (auto simp: t list_vals_def list_view_def bump_list_mods_def fun_eq_iff)
  show "list_mod_count t j = list_mod_count s j" by (simp add: t list_mod_count_def)
  have "unat idx < length (items (list_mods s))"
    using ok b by (auto simp: stores_ok_def buf_at_eq split: if_splits)
  then show "list_mod_count (bump_list_mods idx t) j = list_mod_count s j + (if j = idx then 1 else 0)"
    by (auto simp: t list_mod_count_def bump_list_mods_def bump_mods_def vec_get_def nth_list_update
        word_unat_eq_iff)
qed

text \<open>The effect of a mutation of list \<open>idx\<close> to \<open>ys\<close>, structural or not.\<close>

definition list_became :: "stores \<Rightarrow> u16 \<Rightarrow> jvm_value list \<Rightarrow> bool \<Rightarrow> stores \<Rightarrow> bool" where
  "list_became s idx ys structural t \<longleftrightarrow>
     stores_ok t \<and> list_vals t = (list_vals s)(idx \<mapsto> ys) \<and>
     (\<forall>j. list_mod_count t j = list_mod_count s j + (if j = idx \<and> structural then 1 else 0))"

lemma list_wrote:
  assumes "stores_ok s" and "buf_at (list_bufs s) idx = Some b"
    and "\<forall>e\<in>set (items c). to_value e \<noteq> None" and "map (\<lambda>e. the (to_value e)) (items c) = ys"
  shows "list_became s idx ys False (s\<lparr>list_bufs := set_buf idx (Some c) (list_bufs s)\<rparr>)"
    and "list_became s idx ys True (bump_list_mods idx (s\<lparr>list_bufs := set_buf idx (Some c) (list_bufs s)\<rparr>))"
  using list_write [OF assms(1-3) refl] assms(4) by (simp_all add: list_became_def)

lemma list_add_law:
  assumes ok: "stores_ok s" and xs: "list_vals s idx = Some xs" and v: "slot_width v = 1"
  shows "case list_add al idx v s of
      (Inl _, t) \<Rightarrow> t = s | (Inr _, t) \<Rightarrow> list_became s idx (xs @ [v]) True t"
proof -
  obtain b where b: "buf_at (list_bufs s) idx = Some b" "xs = map (\<lambda>e. the (to_value e)) (items b)"
    "\<forall>e\<in>set (items b). to_value e \<noteq> None" using list_valsD [OF ok xs] .
  obtain e where e: "from_narrow v = Some e" using v by (cases v) (auto simp: from_narrow_def slot_width_def)
  show ?thesis
  proof (cases "vec_room (al SlotBuf) 1 b")
    case None
    with b(1) e show ?thesis by (simp add: list_add_def)
  next
    case (Some c)
    have "list_became s idx (xs @ [v]) True
        (bump_list_mods idx (s\<lparr>list_bufs := set_buf idx (Some (vec_push e c)) (list_bufs s)\<rparr>))"
      using b narrow_value [OF e] vec_room_items [OF Some] by (intro list_wrote(2) [OF ok b(1)]) auto
    with b(1) e Some show ?thesis by (simp add: list_add_def)
  qed
qed

lemma list_insert_law:
  assumes ok: "stores_ok s" and xs: "list_vals s idx = Some xs" and v: "slot_width v = 1"
  shows "case list_insert al idx i v s of
      (Inl _, t) \<Rightarrow> t = s
    | (Inr _, t) \<Rightarrow> list_became s idx (take i xs @ v # drop i xs) True t"
proof -
  obtain b where b: "buf_at (list_bufs s) idx = Some b" "xs = map (\<lambda>e. the (to_value e)) (items b)"
    "\<forall>e\<in>set (items b). to_value e \<noteq> None" using list_valsD [OF ok xs] .
  obtain e where e: "from_narrow v = Some e" using v by (cases v) (auto simp: from_narrow_def slot_width_def)
  show ?thesis
  proof (cases "vec_room (al SlotBuf) 1 b")
    case None
    with b(1) e show ?thesis by (simp add: list_insert_def)
  next
    case (Some c)
    let ?p = "min i (length (items c))" and ?c = "\<lambda>p. c\<lparr>items := take p (items c) @ e # drop p (items c)\<rparr>"
    have eq: "take ?p (items c) = take i (items c)" "drop ?p (items c) = drop i (items c)"
      by (simp_all add: min_def)
    have "list_became s idx (take i xs @ v # drop i xs) True
        (bump_list_mods idx (s\<lparr>list_bufs := set_buf idx (Some (?c ?p)) (list_bufs s)\<rparr>))"
      using b narrow_value [OF e] vec_room_items [OF Some] unfolding eq
      by (intro list_wrote(2) [OF ok b(1)])
        (auto simp: take_map drop_map dest: in_set_takeD in_set_dropD)
    with b(1) e Some show ?thesis by (simp add: list_insert_def Let_def)
  qed
qed

lemma list_set_law:
  assumes ok: "stores_ok s" and xs: "list_vals s idx = Some xs" and v: "slot_width v = 1"
  shows "case list_set idx i v s of
      (None, t) \<Rightarrow> length xs \<le> i \<and> t = s
    | (Some old, t) \<Rightarrow> i < length xs \<and> old = xs ! i \<and> list_became s idx (xs[i := v]) False t"
proof -
  obtain b where b: "buf_at (list_bufs s) idx = Some b" "xs = map (\<lambda>e. the (to_value e)) (items b)"
    "\<forall>e\<in>set (items b). to_value e \<noteq> None" using list_valsD [OF ok xs] .
  obtain e where e: "from_narrow v = Some e" using v by (cases v) (auto simp: from_narrow_def slot_width_def)
  have "list_became s idx (xs[i := v]) False
      (s\<lparr>list_bufs := set_buf idx (Some (vec_set i e b)) (list_bufs s)\<rparr>)"
    using b narrow_value [OF e]
    by (intro list_wrote(1) [OF ok b(1)])
      (auto simp: map_update dest!: set_update_subset_insert [THEN subsetD])
  moreover have "list_set idx i v s =
      (if i < length xs then (Some (xs ! i), s\<lparr>list_bufs := set_buf idx (Some (vec_set i e b)) (list_bufs s)\<rparr>)
       else (None, s))"
  proof (cases "i < length (items b)")
    case True
    then obtain y where "to_value (items b ! i) = Some y" using b(3) by (metis nth_mem option.exhaust)
    with True b e show ?thesis by (simp add: list_set_def vec_get_def)
  qed (use b e in \<open>simp add: list_set_def vec_get_def\<close>)
  ultimately show ?thesis by simp
qed

lemma list_remove_law:
  assumes ok: "stores_ok s" and xs: "list_vals s idx = Some xs"
  shows "list_remove idx i s =
      (if i < length xs then (Some (xs ! i), snd (list_remove idx i s)) else (None, s)) \<and>
    (i < length xs \<longrightarrow> list_became s idx (take i xs @ drop (i + 1) xs) True (snd (list_remove idx i s)))"
proof -
  obtain b where b: "buf_at (list_bufs s) idx = Some b" "xs = map (\<lambda>e. the (to_value e)) (items b)"
    "\<forall>e\<in>set (items b). to_value e \<noteq> None" using list_valsD [OF ok xs] .
  let ?c = "b\<lparr>items := remove_at i (items b)\<rparr>"
  have "list_became s idx (take i xs @ drop (i + 1) xs) True
      (bump_list_mods idx (s\<lparr>list_bufs := set_buf idx (Some ?c) (list_bufs s)\<rparr>))"
    using b by (intro list_wrote(2) [OF ok b(1)])
      (auto simp: remove_at_def take_map drop_map dest: in_set_takeD in_set_dropD)
  moreover have "i < length (items b) \<Longrightarrow> to_value (items b ! i) = Some (xs ! i)" using b by auto
  ultimately show ?thesis using b(1,2) by (simp add: list_remove_def)
qed

lemma list_clear_law:
  assumes ok: "stores_ok s" and xs: "list_vals s idx = Some xs"
  shows "list_became s idx [] True (list_clear idx s)"
proof -
  obtain b where b: "buf_at (list_bufs s) idx = Some b" using list_valsD [OF ok xs] by blast
  have "list_became s idx [] True
      (bump_list_mods idx (s\<lparr>list_bufs := set_buf idx (Some vec_new) (list_bufs s)\<rparr>))"
    by (intro list_wrote(2) [OF ok b]) simp_all
  with b show ?thesis by (simp add: list_clear_def)
qed

section \<open>String builders\<close>

text \<open>The effect of a mutation of builder \<open>idx\<close>.\<close>

definition sb_became :: "stores \<Rightarrow> u16 \<Rightarrow> u8 list \<Rightarrow> stores \<Rightarrow> bool" where
  "sb_became s idx ys t \<longleftrightarrow> stores_ok t \<and> sb_view t = (sb_view s)(idx \<mapsto> ys)"

lemma sb_wrote:
  assumes "stores_ok s" and "buf_at (sb_bufs s) idx = Some b" and "items c = ys"
  shows "sb_became s idx ys (s\<lparr>sb_bufs := set_buf idx (Some c) (sb_bufs s)\<rparr>)"
  using assms buf_at_set [OF assms(2), of "Some c"]
  by (auto simp: sb_became_def stores_ok_def sb_view_def fun_eq_iff)

lemma sb_viewD: "sb_view s idx = Some bs \<Longrightarrow> \<exists>b. buf_at (sb_bufs s) idx = Some b \<and> items b = bs"
  by (auto simp: sb_view_def)

lemma sb_append_law:
  assumes "stores_ok s" and "sb_view s idx = Some bs"
  shows "case sb_append_bytes al idx bytes s of
      (Inl _, t) \<Rightarrow> t = s | (Inr _, t) \<Rightarrow> sb_became s idx (bs @ bytes) t"
proof -
  obtain b where b: "buf_at (sb_bufs s) idx = Some b" "items b = bs" using sb_viewD [OF assms(2)] by blast
  then show ?thesis
    by (auto simp: sb_append_bytes_def vec_room_items intro: sb_wrote [OF assms(1) b(1)] split: option.splits)
qed

lemma sb_insert_law:
  assumes "stores_ok s" and "sb_view s idx = Some bs"
  shows "case sb_insert_bytes al idx pos bytes s of
      None \<Rightarrow> pos < length bs \<and> \<not> al U8Buf (length bs - pos)
    | Some (Inl _, t) \<Rightarrow> t = s
    | Some (Inr False, t) \<Rightarrow> length bs < pos \<and> t = s
    | Some (Inr True, t) \<Rightarrow> pos \<le> length bs \<and> sb_became s idx (take pos bs @ bytes @ drop pos bs) t"
proof -
  obtain b where b: "buf_at (sb_bufs s) idx = Some b" "items b = bs" using sb_viewD [OF assms(2)] by blast
  then show ?thesis
    by (auto simp: sb_insert_bytes_def vec_room_items Let_def intro: sb_wrote [OF assms(1) b(1)]
        split: option.splits)
qed

lemma sb_set_len_law:
  assumes "stores_ok s" and "sb_view s idx = Some bs"
  shows "case sb_set_len al idx n s of
      (Inl _, t) \<Rightarrow> t = s \<and> length bs < n
    | (Inr _, t) \<Rightarrow> sb_became s idx (take n bs @ replicate (n - length bs) 0) t"
proof -
  obtain b where b: "buf_at (sb_bufs s) idx = Some b" "items b = bs" using sb_viewD [OF assms(2)] by blast
  then show ?thesis
    by (auto simp: sb_set_len_def vec_room_items resize_def intro: sb_wrote [OF assms(1) b(1)]
        split: option.splits if_splits)
qed

lemma sb_delete_law:
  assumes "stores_ok s" and "sb_view s idx = Some bs"
  shows "case sb_delete idx start stop s of
      (False, t) \<Rightarrow> min stop (length bs) < start \<and> t = s
    | (True, t) \<Rightarrow> start \<le> min stop (length bs) \<and> sb_became s idx (take start bs @ drop (min stop (length bs)) bs) t"
proof -
  obtain b where b: "buf_at (sb_bufs s) idx = Some b" "items b = bs" using sb_viewD [OF assms(2)] by blast
  then show ?thesis
    by (auto simp: sb_delete_def Let_def intro: sb_wrote [OF assms(1) b(1)])
qed

lemma sb_edit_law:
  assumes "stores_ok s" and "sb_view s idx = Some bs"
  shows "sb_became s idx (rev bs) (sb_reverse idx s)"
    and "case sb_set_byte idx pos c s of
      (False, t) \<Rightarrow> length bs \<le> pos \<and> t = s
    | (True, t) \<Rightarrow> pos < length bs \<and> sb_became s idx (bs[pos := c]) t"
    and "sb_contents_slice s idx = bs" "sb_len s idx = length bs"
    and "sb_char_at s idx pos = (if pos < length bs then Some (bs ! pos) else None)"
proof -
  obtain b where b: "buf_at (sb_bufs s) idx = Some b" "items b = bs" using sb_viewD [OF assms(2)] by blast
  show "sb_became s idx (rev bs) (sb_reverse idx s)"
    "case sb_set_byte idx pos c s of
      (False, t) \<Rightarrow> length bs \<le> pos \<and> t = s
    | (True, t) \<Rightarrow> pos < length bs \<and> sb_became s idx (bs[pos := c]) t"
    using b by (auto simp: sb_reverse_def sb_set_byte_def intro: sb_wrote [OF assms(1) b(1)])
  show "sb_contents_slice s idx = bs" "sb_len s idx = length bs"
    "sb_char_at s idx pos = (if pos < length bs then Some (bs ! pos) else None)"
    using b by (auto simp: sb_contents_slice_def sb_len_def sb_char_at_def vec_get_def)
qed

section \<open>Keyed tables\<close>

text \<open>What the throw path and the collector rely on: a table is a partial map.\<close>

locale keyed_table =
  fixes get :: "'s \<Rightarrow> u16 \<Rightarrow> 'a option"
    and put :: "allocator \<Rightarrow> u16 \<Rightarrow> 'a \<Rightarrow> ('s, exhausted, unit) action"
    and forget :: "u16 \<Rightarrow> 's \<Rightarrow> 's"
  assumes put_get: "put al k x s = (Inr (), t) \<Longrightarrow> get t = (get s)(k \<mapsto> x)"
    and put_refused: "put al k x s = (Inl e, t) \<Longrightarrow> get t = get s"
    and forget_get: "get (forget k s) = (get s)(k := None)"
begin

lemma put_twice:
  "put al k x s = (Inr (), t) \<Longrightarrow> put al' k y t = (Inr (), u) \<Longrightarrow> get u = (get s)(k \<mapsto> y)"
  using put_get [of al k x s t] put_get [of al' k y t u] by simp

lemma forget_put: "put al k x s = (Inr (), t) \<Longrightarrow> get (forget k t) = (get s)(k := None)"
  using put_get [of al k x s t] forget_get [of k t] by simp

end

lemma find_position:
  "find P xs = (case position P xs of None \<Rightarrow> None | Some i \<Rightarrow> Some (xs ! i))"
  by (induction xs) (auto split: option.splits)

lemma find_snoc: "find P (xs @ [x]) = (case find P xs of None \<Rightarrow> if P x then Some x else None | Some y \<Rightarrow> Some y)"
  by (induction xs) auto

lemma find_key_append:
  "find_key (vec_push (k, x) t) j = (if find_key t j = None \<and> j = k then Some x else find_key t j)"
  by (auto simp: find_key_def find_snoc split: option.splits)

lemma find_key_drop: "find_key (drop_key k t) = (find_key t)(k := None)"
proof
  fix j
  have "find (\<lambda>e. fst e = j) (filter (\<lambda>e. fst e \<noteq> k) xs) = (if j = k then None else find (\<lambda>e. fst e = j) xs)"
    for xs :: "(u16 \<times> 'a) list"
    by (induction xs) auto
  then show "find_key (drop_key k t) j = ((find_key t)(k := None)) j"
    by (simp add: find_key_def drop_key_def)
qed

lemma find_set_first:
  "position (\<lambda>e. fst e = k) xs = Some i \<Longrightarrow>
     find (\<lambda>e. fst e = j) (xs[i := (k, x)]) = (if j = k then Some (k, x) else find (\<lambda>e. fst e = j) xs)"
  by (induction xs arbitrary: i) (auto split: if_splits)

lemma find_key_set:
  "position (\<lambda>e. fst e = k) (items t) = Some i \<Longrightarrow> find_key (vec_set i (k, x) t) = (find_key t)(k \<mapsto> x)"
  by (auto simp: find_key_def find_set_first fun_eq_iff)

lemma find_key_none: "position (\<lambda>e. fst e = k) (items t) = None \<Longrightarrow> find_key t k = None"
  by (simp add: find_key_def find_position)

lemma find_key_room: "vec_room mem n t = Some t' \<Longrightarrow> find_key t' = find_key t"
  by (simp add: find_key_def vec_room_items fun_eq_iff)

lemma put_key_get: "put_key al k x t = (Inr u, t') \<Longrightarrow> find_key t' = (find_key t)(k \<mapsto> x)"
  by (auto simp: put_key_def register_def find_key_set find_key_append find_key_none find_key_room fun_eq_iff
      split: option.splits)

lemma put_key_refused: "put_key al k x t = (Inl e, t') \<Longrightarrow> t' = t"
  by (auto simp: put_key_def register_def split: option.splits)

interpretation messages: keyed_table get_exception_message register_exception_message free_exception_message
  by unfold_locales
    (auto simp: get_exception_message_def register_exception_message_def free_exception_message_def
      find_key_drop fun_eq_iff dest!: put_key_get put_key_refused split: prod.splits)

interpretation causes: keyed_table get_exception_cause register_exception_cause free_exception_cause
  by unfold_locales
    (auto simp: get_exception_cause_def register_exception_cause_def free_exception_cause_def
      find_key_drop fun_eq_iff dest!: put_key_get put_key_refused split: prod.splits)

lemma suppressed_law:
  shows "case add_suppressed al obj thr s of
      (Inl _, t) \<Rightarrow> suppressed_list t = suppressed_list s
    | (Inr _, t) \<Rightarrow> suppressed_list t = (suppressed_list s)(obj := suppressed_list s obj @ [thr])"
    and "suppressed_list (free_suppressed obj s) = (suppressed_list s)(obj := [])"
proof -
  show "suppressed_list (free_suppressed obj s) = (suppressed_list s)(obj := [])"
    by (auto simp: suppressed_list_def free_suppressed_def find_key_drop fun_eq_iff)
  show "case add_suppressed al obj thr s of
      (Inl _, t) \<Rightarrow> suppressed_list t = suppressed_list s
    | (Inr _, t) \<Rightarrow> suppressed_list t = (suppressed_list s)(obj := suppressed_list s obj @ [thr])"
  proof (cases "position (\<lambda>e. fst e = obj) (items (suppressed s))")
    case (Some i)
    have "find_key (suppressed s) obj = Some (snd (items (suppressed s) ! i))"
      using Some by (simp add: find_key_def find_position)
    then show ?thesis
      using find_key_set [OF Some] vec_room_items
      by (auto simp: add_suppressed_def Some Let_def suppressed_list_def fun_eq_iff split: option.splits)
  next
    case None
    then show ?thesis
      using find_key_none [OF None]
      by (auto simp: add_suppressed_def Let_def suppressed_list_def fun_eq_iff find_key_append find_key_room
          vec_room_items split: option.splits)
  qed
qed

section \<open>The boxed-value cache\<close>

text \<open>The table and slot that a class and value share, if they share one.\<close>

definition shared_box :: "string \<Rightarrow> jvm_value \<Rightarrow> (nat \<times> nat) option" where
  "shared_box cls v =
     (if cls = java_lang_Boolean
      then (case v of VInt b \<Rightarrow> Some (5, if b = 0 then 0 else 1) | _ \<Rightarrow> None)
      else Option.bind (box_table cls) (\<lambda>t. map_option (Pair t) (box_slot t v)))"

definition box_cell :: "stores \<Rightarrow> nat \<times> nat \<Rightarrow> u16 option" where
  "box_cell s k =
     (if fst k = 5 then some_box (bool_cache s ! snd k)
      else case boxed_cache s ! fst k of
             None \<Rightarrow> None
           | Some tab \<Rightarrow> if snd k < length tab then some_box (tab ! snd k) else None)"

lemma box_table_less: "box_table cls = Some t \<Longrightarrow> t < 5"
  by (auto simp: box_table_def split: if_splits)

lemma box_slot_less: "box_slot t v = Some i \<Longrightarrow> i < 256"
  by (auto simp: box_slot_def split: jvm_value.splits if_splits)

lemma cached_box_cell:
  "cached_box s cls v = Option.bind (shared_box cls v) (box_cell s)"
  by (auto simp: cached_box_def shared_box_def box_cell_def dest: box_table_less
      split: jvm_value.splits option.splits)

lemma shared_box_less:
  "shared_box cls v = Some (t, i) \<Longrightarrow> t \<le> 5 \<and> (if t = 5 then i < 2 else i < 256)"
  by (auto simp: shared_box_def dest: box_table_less box_slot_less split: if_splits jvm_value.splits Option.bind_splits)

lemma cache_box_bool:
  "shared_box cls v = Some (5, i) \<Longrightarrow> cache_box al cls v idx s = s\<lparr>bool_cache := (bool_cache s)[i := idx]\<rparr>"
  by (auto simp: shared_box_def cache_box_def dest: box_table_less
      split: if_splits jvm_value.splits Option.bind_splits)

lemma shared_box_table:
  assumes "shared_box cls v = Some (t, i)" and "t \<noteq> 5"
  shows "cls \<noteq> java_lang_Boolean" "box_table cls = Some t" "box_slot t v = Some i"
  using assms by (auto simp: shared_box_def split: if_splits jvm_value.splits Option.bind_splits)

definition table_or_new :: "u16 list option \<Rightarrow> u16 list" where
  "table_or_new r = (case r of Some tab \<Rightarrow> tab | None \<Rightarrow> replicate 256 BOX_NONE)"

lemma cache_box_table:
  assumes "shared_box cls v = Some (t, i)" and "t \<noteq> 5" and "al TableBuf 256"
  shows "cache_box al cls v idx s = s\<lparr>boxed_cache :=
    (boxed_cache s)[t := Some ((table_or_new (boxed_cache s ! t))[i := idx])]\<rparr>"
  using shared_box_table [OF assms(1,2)] assms(3)
  by (simp add: cache_box_def table_or_new_def split: option.splits)

lemma cache_lens:
  assumes "stores_ok s" and "t < 5"
  shows "length (boxed_cache s) = 5" "length (bool_cache s) = 2" "length (table_or_new (boxed_cache s ! t)) = 256"
proof -
  show l: "length (boxed_cache s) = 5" "length (bool_cache s) = 2" using assms(1) by (simp_all add: stores_ok_def)
  have m: "boxed_cache s ! t \<in> set (boxed_cache s)" using l assms(2) by simp
  have all: "\<forall>x. Some x \<in> set (boxed_cache s) \<longrightarrow> length x = 256"
    using assms(1) by (simp add: stores_ok_def)
  show "length (table_or_new (boxed_cache s ! t)) = 256"
  proof (cases "boxed_cache s ! t")
    case (Some tab)
    with m all show ?thesis by (simp add: table_or_new_def)
  qed (simp add: table_or_new_def)
qed

lemma cell_of_table:
  "box_cell s (t, i) = (if t = 5 then some_box (bool_cache s ! i)
     else if i < length (table_or_new (boxed_cache s ! t)) then some_box (table_or_new (boxed_cache s ! t) ! i)
     else None)"
  by (auto simp: box_cell_def table_or_new_def some_box_def split: option.splits)

lemma cache_box_cell:
  assumes ok: "stores_ok s" and k: "shared_box cls v = Some (t, i)" and al: "al TableBuf 256" and idx: "idx \<noteq> BOX_NONE"
    and k': "shared_box cls' v' = Some (t', i')"
  shows "box_cell (cache_box al cls v idx s) (t', i') = (if (t', i') = (t, i) then Some idx else box_cell s (t', i'))"
proof (cases "t = 5")
  case True
  have "i < length (bool_cache s)" using shared_box_less [OF k] True cache_lens [OF ok, of 0] by simp
  then show ?thesis
    using True cache_box_bool [of cls v i al idx s] k idx
    by (auto simp: box_cell_def some_box_def nth_list_update)
next
  case False
  with shared_box_less [OF k] have t: "t < 5" "i < 256" by (simp_all split: if_splits)
  note l = cache_lens [OF ok t(1)]
  show ?thesis
    unfolding cache_box_table [of cls v t i al, OF k False al] cell_of_table
    using t l idx by (auto simp: nth_list_update some_box_def table_or_new_def)
qed

lemma cache_box_ok:
  assumes ok: "stores_ok s" and k: "shared_box cls v = Some (t, i)" and al: "al TableBuf 256"
  shows "stores_ok (cache_box al cls v idx s)"
proof (cases "t = 5")
  case True
  then show ?thesis
    using cache_box_bool [of cls v i al idx s] k ok by (simp add: stores_ok_def)
next
  case False
  with shared_box_less [OF k] have t: "t < 5" by (simp split: if_splits)
  have "\<forall>x. Some x \<in> set ((boxed_cache s)[t := Some ((table_or_new (boxed_cache s ! t))[i := idx])]) \<longrightarrow> length x = 256"
    using cache_lens [OF ok t] ok by (auto simp: stores_ok_def dest!: set_update_subset_insert [THEN subsetD])
  then show ?thesis
    unfolding cache_box_table [of cls v t i al, OF k False al]
    using ok by (simp add: stores_ok_def)
qed

lemma cache_box_none:
  assumes "shared_box cls v = None"
  shows "cache_box al cls v idx s = s"
proof (cases "cls = java_lang_Boolean")
  case True
  with assms show ?thesis by (cases v) (simp_all add: cache_box_def shared_box_def)
next
  case False
  with assms show ?thesis
    by (cases "box_table cls"; cases "box_slot (the (box_table cls)) v") (simp_all add: cache_box_def shared_box_def)
qed

section \<open>Properties\<close>

text \<open>A state with the list \<open>[o3, o4]\<close> and the builder \<open>ab\<close>.\<close>

definition small_stores :: stores where
  "small_stores = stores_new\<lparr>
     list_bufs := \<lparr>items = [Some \<lparr>items = [SObjectRef 3, SObjectRef 4], vcap = 4\<rparr>], vcap = 4\<rparr>,
     list_mods := \<lparr>items = [2], vcap = 4\<rparr>,
     sb_bufs := \<lparr>items = [Some \<lparr>items = [97, 98], vcap = 8\<rparr>], vcap = 4\<rparr>\<rparr>"

lemma small_stores_ok:
  "stores_ok small_stores" "list_vals small_stores 0 = Some [VObjectRef 3, VObjectRef 4]"
  "sb_view small_stores 0 = Some [97, 98]"
  by (simp_all add: stores_ok_def small_stores_def stores_new_def buf_at_eq REF_TOP_def list_vals_def
      list_view_def sb_view_def)

text \<open>
  C36: the operations behind \<open>ArrayList\<close> are those of a list of references. Reads answer
  within the bounds and nowhere else; add, insert (clamped to the end), remove and clear
  change that list alone and move its modification count by one, while a set replaces one
  element and leaves the count, as a fail-fast iterator needs; a buffer that cannot grow
  leaves everything as it was.
\<close>

theorem list_ops_refine:
  assumes "stores_ok s" and "list_vals s idx = Some xs" and "slot_width v = 1"
  shows "list_get s idx i = (if i < length xs then Some (xs ! i) else None) \<and>
    list_len s idx = length xs \<and> list_iter s idx = xs
    \<and> (case list_add al idx v s of
         (Inl _, t) \<Rightarrow> t = s | (Inr _, t) \<Rightarrow> list_became s idx (xs @ [v]) True t)
    \<and> (case list_insert al idx i v s of
         (Inl _, t) \<Rightarrow> t = s | (Inr _, t) \<Rightarrow> list_became s idx (take i xs @ v # drop i xs) True t)
    \<and> (case list_set idx i v s of
         (None, t) \<Rightarrow> length xs \<le> i \<and> t = s
       | (Some old, t) \<Rightarrow> i < length xs \<and> old = xs ! i \<and> list_became s idx (xs[i := v]) False t)
    \<and> (case list_remove idx i s of
         (None, t) \<Rightarrow> length xs \<le> i \<and> t = s
       | (Some old, t) \<Rightarrow> i < length xs \<and> old = xs ! i \<and>
           list_became s idx (take i xs @ drop (i + 1) xs) True t)
    \<and> list_became s idx [] True (list_clear idx s)"
proof -
  have rm: "case list_remove idx i s of
         (None, t) \<Rightarrow> length xs \<le> i \<and> t = s
       | (Some old, t) \<Rightarrow> i < length xs \<and> old = xs ! i \<and>
           list_became s idx (take i xs @ drop (i + 1) xs) True t"
    using list_remove_law [OF assms(1,2), of i]
    by (cases "list_remove idx i s"; cases "i < length xs") auto
  show ?thesis
    by (intro conjI list_get_law [OF assms(1,2)] list_add_law [OF assms] list_insert_law [OF assms]
        list_set_law [OF assms] rm list_clear_law [OF assms(1,2)])
qed

theorem list_ops_refine_witness:
  "list_get small_stores 0 1 = Some (VObjectRef 4) \<and> list_get small_stores 0 2 = None \<and>
   list_vals (list_clear 0 small_stores) 0 = Some [] \<and>
   list_mod_count (list_clear 0 small_stores) 0 = 3"
proof -
  have w: "slot_width VNull = 1" by (simp add: slot_width_def)
  have "list_mod_count small_stores 0 = 2" by (simp add: list_mod_count_def small_stores_def vec_get_def)
  with list_ops_refine [OF small_stores_ok(1,2) w, where i = 1] list_ops_refine [OF small_stores_ok(1,2) w, where i = 2]
  show ?thesis by (simp add: list_became_def)
qed

text \<open>
  The operations behind \<open>StringBuilder\<close> are those of a byte list, one per builder:
  append, insert, delete, set length (padding with zero bytes), set a byte and reverse change
  the named builder only, refuse positions past its end and a buffer that cannot grow without
  any effect, and never touch another builder's text.
\<close>

theorem sb_ops_refine:
  assumes "stores_ok s" and "sb_view s idx = Some bs"
  shows "sb_contents_slice s idx = bs \<and> sb_len s idx = length bs
    \<and> (case sb_append_bytes al idx bytes s of
         (Inl _, t) \<Rightarrow> t = s | (Inr _, t) \<Rightarrow> sb_became s idx (bs @ bytes) t)
    \<and> (case sb_insert_bytes al idx pos bytes s of
         None \<Rightarrow> pos < length bs \<and> \<not> al U8Buf (length bs - pos)
       | Some (Inl _, t) \<Rightarrow> t = s
       | Some (Inr False, t) \<Rightarrow> length bs < pos \<and> t = s
       | Some (Inr True, t) \<Rightarrow> pos \<le> length bs \<and> sb_became s idx (take pos bs @ bytes @ drop pos bs) t)
    \<and> (case sb_delete idx pos stop s of
         (False, t) \<Rightarrow> min stop (length bs) < pos \<and> t = s
       | (True, t) \<Rightarrow> pos \<le> min stop (length bs) \<and>
           sb_became s idx (take pos bs @ drop (min stop (length bs)) bs) t)
    \<and> (case sb_set_len al idx pos s of
         (Inl _, t) \<Rightarrow> t = s \<and> length bs < pos
       | (Inr _, t) \<Rightarrow> sb_became s idx (take pos bs @ replicate (pos - length bs) 0) t)
    \<and> (case sb_set_byte idx pos c s of
         (False, t) \<Rightarrow> length bs \<le> pos \<and> t = s
       | (True, t) \<Rightarrow> pos < length bs \<and> sb_became s idx (bs[pos := c]) t)
    \<and> sb_became s idx (rev bs) (sb_reverse idx s)"
  by (intro conjI sb_edit_law [OF assms] sb_append_law [OF assms] sb_insert_law [OF assms]
      sb_delete_law [OF assms] sb_set_len_law [OF assms])

theorem sb_ops_refine_witness:
  "sb_contents_slice small_stores 0 = [97, 98] \<and> sb_view (sb_reverse 0 small_stores) 0 = Some [98, 97]"
  using sb_ops_refine [OF small_stores_ok(1,3)] by (simp add: sb_became_def)

text \<open>
  A fault of insertion. Inserting in front of text needs a second buffer for the text after
  the position, taken from an allocation that cannot be refused: with the builder's own buffer
  roomy enough, an exhausted heap still ends the program where the method promises
  \<open>Exhausted\<close> and no change.
\<close>

theorem sb_insert_aborts:
  assumes "buf_at (sb_bufs s) idx = Some b" and "pos < length (items b)"
    and "length bytes \<le> vcap b - length (items b)" and "\<not> al U8Buf (length (items b) - pos)"
  shows "sb_insert_bytes al idx pos bytes s = None"
  using assms by (simp add: sb_insert_bytes_def vec_room_def reserve_fallible_def Let_def)

theorem sb_insert_aborts_witness:
  "sb_insert_bytes (\<lambda>_ _. False) 0 0 [120] small_stores = None"
proof -
  have "buf_at (sb_bufs small_stores) 0 = Some \<lparr>items = [97, 98], vcap = 8\<rparr>"
    by (simp add: buf_at_eq small_stores_def)
  from sb_insert_aborts [OF this] show ?thesis by simp
qed

text \<open>
  The exception tables are partial maps on throwables. A recorded message or cause is the
  one read back, replacing an earlier one and nothing else; a suppressed throwable is appended
  to its owner's list; a refusal records nothing; and freeing a throwable forgets its entries
  and no other's.
\<close>

theorem exception_tables_refine:
  "(case register_exception_message al obj x s of
      (Inl _, t) \<Rightarrow> get_exception_message t = get_exception_message s
    | (Inr _, t) \<Rightarrow> get_exception_message t = (get_exception_message s)(obj \<mapsto> x) \<and>
        get_exception_message (free_exception_message obj t) = (get_exception_message s)(obj := None))
   \<and> (case register_exception_cause al obj x s of
      (Inl _, t) \<Rightarrow> get_exception_cause t = get_exception_cause s
    | (Inr _, t) \<Rightarrow> get_exception_cause t = (get_exception_cause s)(obj \<mapsto> x) \<and>
        get_exception_cause (free_exception_cause obj t) = (get_exception_cause s)(obj := None))
   \<and> (case add_suppressed al obj x s of
      (Inl _, t) \<Rightarrow> suppressed_list t = suppressed_list s
    | (Inr _, t) \<Rightarrow> suppressed_list t = (suppressed_list s)(obj := suppressed_list s obj @ [x]))
   \<and> suppressed_list (free_suppressed obj s) = (suppressed_list s)(obj := [])"
  using suppressed_law
  by (auto simp: messages.put_get messages.put_refused messages.forget_put
      causes.put_get causes.put_refused causes.forget_put split: prod.splits sum.splits)

text \<open>
  a box recorded for a value that every JVM caches is the one found for it again, and only
  for it: within the range of the language rules (the whole of \<open>Boolean\<close> by truth, 0 to
  127 for \<open>Character\<close>, -128 to 127 for the other integral wrappers) an entry is shared by
  one class and value, and outside it nothing is recorded or found.
\<close>

theorem boxed_cache_shares:
  assumes "stores_ok s" and "al TableBuf 256" and "idx \<noteq> BOX_NONE"
  shows "let t = cache_box al cls v idx s in
    stores_ok t \<and>
    (\<forall>cls' v'. cached_box t cls' v' =
       (if shared_box cls v \<noteq> None \<and> shared_box cls' v' = shared_box cls v then Some idx
        else cached_box s cls' v')) \<and>
    (cls \<noteq> java_lang_Boolean \<longrightarrow> shared_box cls v \<noteq> None \<longrightarrow>
       (\<forall>cls' v'. shared_box cls' v' = shared_box cls v \<longrightarrow> cls' = cls \<and> v' = v))"
proof -
  have inj: "cls' = cls \<and> v' = v"
    if "cls \<noteq> java_lang_Boolean" "shared_box cls v = Some k" "shared_box cls' v' = Some k" for cls' v' k
  proof -
    obtain t i where k: "k = (t, i)" by (cases k)
    have "t \<noteq> 5" using that(1,2) k box_table_less by (auto simp: shared_box_def split: Option.bind_splits)
    note a = shared_box_table [OF that(2) [unfolded k] this] shared_box_table [OF that(3) [unfolded k] this]
    have "cls' = cls" using a(2,5) by (auto simp: box_table_def split: if_splits)
    moreover have "v' = v"
      using a(3,6)
      by (auto simp: box_slot_def nat_add_distrib eq_nat_nat_iff signed_eq_0_iff
          split: jvm_value.splits if_splits intro: signed_word_eqI)
    ultimately show ?thesis by simp
  qed
  show ?thesis
  proof (cases "shared_box cls v")
    case None
    then show ?thesis using cache_box_none [OF None] assms(1) by (simp add: Let_def)
  next
    case (Some k)
    obtain t i where k: "k = (t, i)" by (cases k)
    note S = Some [unfolded k]
    have eq: "cached_box (cache_box al cls v idx s) cls' v' =
        (if shared_box cls' v' = shared_box cls v then Some idx else cached_box s cls' v')" for cls' v'
      using cache_box_cell [of s cls v t i al, OF assms(1) S assms(2,3)] S
      by (cases "shared_box cls' v'") (auto simp: cached_box_cell split: if_splits)
    show ?thesis
      unfolding Let_def
    proof (intro conjI allI impI)
      show "stores_ok (cache_box al cls v idx s)" by (rule cache_box_ok [of s cls v t i al, OF assms(1) S assms(2)])
    next
      fix cls' v'
      show "cached_box (cache_box al cls v idx s) cls' v' =
          (if shared_box cls v \<noteq> None \<and> shared_box cls' v' = shared_box cls v then Some idx
           else cached_box s cls' v')"
        using eq [of cls' v'] Some by simp
    next
      fix cls' v'
      assume "cls \<noteq> java_lang_Boolean" "shared_box cls' v' = shared_box cls v"
      then show "cls' = cls" "v' = v" using inj [OF _ Some, of cls' v'] Some by simp_all
    qed
  qed
qed

theorem boxed_cache_shares_witness:
  "cached_box (cache_box (\<lambda>_ _. True) java_lang_Integer (VInt 127) 9 stores_new) java_lang_Integer (VInt 127) = Some 9
   \<and> cached_box (cache_box (\<lambda>_ _. True) java_lang_Integer (VInt 127) 9 stores_new) java_lang_Integer (VInt 126) = None"
proof -
  have "(9 :: u16) \<noteq> BOX_NONE" by (simp add: BOX_NONE_def)
  note p = boxed_cache_shares [OF stores_new_ok _ this, of "\<lambda>_ _. True", OF TrueI, of java_lang_Integer "VInt 127"]
  have "shared_box java_lang_Integer (VInt 127) = Some (0, 255)" "shared_box java_lang_Integer (VInt 126) = Some (0, 254)"
    "cached_box stores_new java_lang_Integer (VInt 126) = None"
    by (simp_all add: shared_box_def box_table_def box_slot_def cached_box_def stores_new_def
        java_lang_Integer_def java_lang_Boolean_def)
  with p show ?thesis by (simp add: Let_def)
qed

end
