(* ===== verification/Literals.thy ===== *)
theory Literals
  imports Prelude
begin

text \<open>
  What the interpreter reads of a packed class section, \<open>crates/class-link/src\<close>: the FNV-1a
  name hash and the string hash (\<open>hash.rs\<close>), and of \<open>section.rs\<close> the literal pool, read
  in place with every access bounds-checked, and the merge that looks for a hash shared by two
  class indexes. A slice carries the address of its first byte where the code compares addresses.
\<close>

section \<open>Hashes\<close>

definition FNV_OFFSET :: u32 where "FNV_OFFSET = 0x811C9DC5"
definition FNV_PRIME :: u32 where "FNV_PRIME = 0x01000193"

definition fnv1a_continue :: "u32 \<Rightarrow> u8 list \<Rightarrow> u32" where
  "fnv1a_continue h bytes = foldl (\<lambda>h b. (h XOR ucast b) * FNV_PRIME) h bytes"

definition name_hash :: "u8 list \<Rightarrow> u32" where
  "name_hash name = fnv1a_continue FNV_OFFSET name"

definition sig_hash :: "u8 list \<Rightarrow> u8 list \<Rightarrow> u32" where
  "sig_hash name descriptor = fnv1a_continue (fnv1a_continue FNV_OFFSET name) descriptor"

definition string_hash :: "u8 list \<Rightarrow> u32" where
  "string_hash bytes = foldl (\<lambda>h b. h * 31 + ucast b) 0 bytes"

section \<open>The literal pool\<close>

definition LITERAL_LEN :: nat where "LITERAL_LEN = 12"
definition LIT_UTF8 :: u16 where "LIT_UTF8 = 1"

record literal =
  lit_hash :: u32
  lit_off :: u32
  lit_len :: u16
  lit_flags :: u16

record literals =
  lit_data :: "u8 list"
  lit_base :: nat
  rows_off :: nat
  lit_count :: nat

definition lits_empty :: literals where
  "lits_empty = \<lparr>lit_data = [], lit_base = 0, rows_off = 0, lit_count = 0\<rparr>"

text \<open>\<open>d.get(off..off + n)\<close>.\<close>

definition get_range :: "u8 list \<Rightarrow> nat \<Rightarrow> nat \<Rightarrow> u8 list option" where
  "get_range d off n = (if off + n \<le> length d then Some (take n (drop off d)) else None)"

definition le16 :: "u8 list \<Rightarrow> nat \<Rightarrow> u16 option" where
  "le16 d off = map_option (\<lambda>b. ucast (b ! 0) OR push_bit 8 (ucast (b ! 1))) (get_range d off 2)"

definition le32 :: "u8 list \<Rightarrow> nat \<Rightarrow> u32 option" where
  "le32 d off =
     map_option (\<lambda>b. ucast (b ! 0) OR push_bit 8 (ucast (b ! 1)) OR push_bit 16 (ucast (b ! 2)) OR
       push_bit 24 (ucast (b ! 3))) (get_range d off 4)"

definition lit_row :: "literals \<Rightarrow> nat \<Rightarrow> literal option" where
  "lit_row l i =
     (if lit_count l \<le> i then None
      else let at = rows_off l + LITERAL_LEN * i
           in Option.bind (le32 (lit_data l) at) (\<lambda>h.
              Option.bind (le32 (lit_data l) (at + 4)) (\<lambda>off.
              Option.bind (le16 (lit_data l) (at + 8)) (\<lambda>len.
              map_option (\<lambda>flags. \<lparr>lit_hash = h, lit_off = off, lit_len = len, lit_flags = flags\<rparr>)
                (le16 (lit_data l) (at + 10))))))"

definition lit_bytes :: "literals \<Rightarrow> nat \<Rightarrow> u8 list option" where
  "lit_bytes l i =
     Option.bind (lit_row l i) (\<lambda>r. get_range (lit_data l) (unat (lit_off r)) (unat (lit_len r)))"

section \<open>Hash collisions between two indexes\<close>

record index_entry =
  ie_hash :: u32
  ie_idx :: u16

text \<open>The merge pass, over what is left of each index.\<close>

fun cross_collisions :: "index_entry list \<Rightarrow> index_entry list \<Rightarrow> (u16 \<times> u16) option" where
  "cross_collisions (a # as) (b # bs) =
     (if ie_hash a < ie_hash b then cross_collisions as (b # bs)
      else if ie_hash b < ie_hash a then cross_collisions (a # as) bs
      else Some (ie_idx a, ie_idx b))"
| "cross_collisions _ _ = None"

section \<open>Lemmas\<close>

lemma get_range_length: "get_range d off n = Some b \<Longrightarrow> length b = n"
  by (auto simp: get_range_def split: if_splits)

lemma cross_collisions_none:
  "sorted (map ie_hash as) \<Longrightarrow> sorted (map ie_hash bs) \<Longrightarrow>
   cross_collisions as bs = None \<longleftrightarrow> ie_hash ` set as \<inter> ie_hash ` set bs = {}"
proof (induction as bs rule: cross_collisions.induct)
  case (1 a as b bs)
  consider "ie_hash a < ie_hash b" | "ie_hash b < ie_hash a" | "ie_hash a = ie_hash b" by force
  then show ?case
  proof cases
    case 1
    then have "ie_hash a \<notin> ie_hash ` set (b # bs)" using "1.prems"(2) by force
    with 1 "1.IH"(1) "1.prems" show ?thesis by auto
  next
    case 2
    then have "ie_hash b \<notin> ie_hash ` set (a # as)" using "1.prems"(1) by force
    with 2 "1.IH"(2) "1.prems" show ?thesis by auto
  qed simp
qed auto

lemma cross_collisions_some:
  "cross_collisions as bs = Some (i, j) \<Longrightarrow>
   \<exists>a\<in>set as. \<exists>b\<in>set bs. ie_hash a = ie_hash b \<and> ie_idx a = i \<and> ie_idx b = j"
  by (induction as bs rule: cross_collisions.induct) (auto split: if_splits)

section \<open>Properties\<close>

text \<open>
  Over two indexes sorted by hash, the merge finds a collision exactly when they share a
  hash, and the pair it names has the shared hash; and a signature's hash is the hash of the
  name with the descriptor behind it.
\<close>

theorem cross_collisions_exact:
  assumes "sorted (map ie_hash as)" and "sorted (map ie_hash bs)"
  shows "(case cross_collisions as bs of
      None \<Rightarrow> ie_hash ` set as \<inter> ie_hash ` set bs = {}
    | Some (i, j) \<Rightarrow> \<exists>a\<in>set as. \<exists>b\<in>set bs. ie_hash a = ie_hash b \<and> ie_idx a = i \<and> ie_idx b = j)
    \<and> sig_hash name descriptor = name_hash (name @ descriptor)"
  using cross_collisions_none [OF assms] cross_collisions_some [of as bs]
  by (auto simp: sig_hash_def name_hash_def fnv1a_continue_def split: option.splits)

theorem cross_collisions_exact_witness:
  "cross_collisions [\<lparr>ie_hash = 2, ie_idx = 0\<rparr>, \<lparr>ie_hash = 5, ie_idx = 1\<rparr>]
     [\<lparr>ie_hash = 3, ie_idx = 7\<rparr>, \<lparr>ie_hash = 5, ie_idx = 8\<rparr>] = Some (1, 8)
   \<and> sig_hash [97] [98] = name_hash [97, 98]"
  using cross_collisions_exact [of "[\<lparr>ie_hash = 2, ie_idx = 0\<rparr>, \<lparr>ie_hash = 5, ie_idx = 1\<rparr>]"
      "[\<lparr>ie_hash = 3, ie_idx = 7\<rparr>, \<lparr>ie_hash = 5, ie_idx = 8\<rparr>]" "[97]" "[98]"]
  by simp

end
