(* ===== verification/NumFmt.thy ===== *)
theory NumFmt
  imports SideStoreLaws
begin

text \<open>
  Integers as decimal text, \<open>crates/jvm/src/object_heap/num_fmt.rs\<close>, and the numeric
  appends of \<open>sb_store.rs\<close> that use them: digits are written right to left into a fixed
  buffer, nine per 64-bit division for a \<open>long\<close>. The float layouts of the file go through
  the formatter of the standard library and are not modelled.
\<close>

section \<open>The code\<close>

text \<open>\<open>i -= 1; buf[i] = b\<close>: \<open>None\<close> is the panic at the left end of the buffer.\<close>

type_synonym cursor = "nat \<times> u8 list"

definition put_left :: "u8 \<Rightarrow> cursor \<Rightarrow> cursor option" where
  "put_left b st = (case st of (i, buf) \<Rightarrow>
     if i = 0 \<or> length buf < i then None else Some (i - 1, buf[i - 1 := b]))"

text \<open>The last chunk, down to its first digit: at least one digit.\<close>

function last_chunk :: "u32 \<Rightarrow> cursor \<Rightarrow> cursor option" where
  "last_chunk chunk st =
     (case put_left (48 + ucast (chunk mod 10)) st of
        None \<Rightarrow> None
      | Some st' \<Rightarrow> if chunk div 10 = 0 then Some st' else last_chunk (chunk div 10) st')"
  by pat_completeness auto
termination
proof (relation "measure (\<lambda>(chunk, st). unat chunk)")
  fix chunk :: u32 and st st' :: cursor
  assume "chunk div 10 \<noteq> 0"
  then have "unat chunk \<noteq> 0" by (metis div_0 unat_eq_zero)
  then show "((chunk div 10, st'), chunk, st) \<in> measure (\<lambda>(chunk, st). unat chunk)"
    by (simp add: unat_div)
qed simp

text \<open>The nine digits of an inner chunk, leading zeros and all.\<close>

primrec nine_digits :: "nat \<Rightarrow> u32 \<Rightarrow> cursor \<Rightarrow> cursor option" where
  "nine_digits 0 chunk st = Some st"
| "nine_digits (Suc n) chunk st =
     Option.bind (put_left (48 + ucast (chunk mod 10)) st) (nine_digits n (chunk div 10))"

function u64_to_decimal :: "u64 \<Rightarrow> cursor \<Rightarrow> cursor option" where
  "u64_to_decimal m st =
     (let chunk = ucast (m mod 1000000000) :: u32; m' = m div 1000000000
      in if m' = 0 then last_chunk chunk st
         else case nine_digits 9 chunk st of
                None \<Rightarrow> None | Some st' \<Rightarrow> u64_to_decimal m' st')"
  by pat_completeness auto
termination
proof (relation "measure (\<lambda>(m, st). unat m)")
  fix m :: u64 and st st' :: cursor and m' :: u64 and chunk :: u32
  assume "m' = m div 1000000000" "m' \<noteq> 0"
  then have "unat m \<noteq> 0" by (metis div_0 unat_eq_zero)
  then show "((m', st'), m, st) \<in> measure (\<lambda>(m, st). unat m)"
    using \<open>m' = m div 1000000000\<close> by (simp add: unat_div)
qed simp

declare last_chunk.simps [simp del] u64_to_decimal.simps [simp del]

text \<open>\<open>unsigned_abs\<close>, and the text from the cursor on.\<close>

definition unsigned_abs :: "'a::len word \<Rightarrow> 'a word" where
  "unsigned_abs n = (if sint n < 0 then - n else n)"

definition with_sign :: "bool \<Rightarrow> cursor option \<Rightarrow> u8 list option" where
  "with_sign neg r =
     map_option (\<lambda>(i, buf). drop i buf) (Option.bind r (if neg then put_left 45 else Some))"

definition long_to_decimal_buf :: "i64 \<Rightarrow> u8 list option" where
  "long_to_decimal_buf n =
     with_sign (sint n < 0) (u64_to_decimal (unsigned_abs n) (21, replicate 21 0))"

function int_digits :: "u32 \<Rightarrow> cursor \<Rightarrow> cursor option" where
  "int_digits m st =
     (if 0 < m
      then (case put_left (48 + ucast (m mod 10)) st of
              None \<Rightarrow> None | Some st' \<Rightarrow> int_digits (m div 10) st')
      else Some st)"
  by pat_completeness auto
termination
proof (relation "measure (\<lambda>(m, st). unat m)")
  fix m :: u32 and st st' :: cursor
  assume "0 < m"
  then have "unat m \<noteq> 0" by (simp add: unat_gt_0 unat_eq_0 word_gt_0)
  then show "((m div 10, st'), m, st) \<in> measure (\<lambda>(m, st). unat m)"
    by (simp add: unat_div)
qed simp

declare int_digits.simps [simp del]

definition int_to_decimal_buf :: "i32 \<Rightarrow> u8 list option" where
  "int_to_decimal_buf n =
     (if n = 0 then Some [48]
      else with_sign (sint n < 0) (int_digits (unsigned_abs n) (12, replicate 12 0)))"

text \<open>The appends: \<open>None\<close> is the panic of the formatter.\<close>

definition sb_append_int :: "allocator \<Rightarrow> u16 \<Rightarrow> i32 \<Rightarrow> stores \<Rightarrow> ((exhausted + unit) \<times> stores) option" where
  "sb_append_int al idx n s = map_option (\<lambda>t. sb_append_bytes al idx t s) (int_to_decimal_buf n)"

definition sb_append_long :: "allocator \<Rightarrow> u16 \<Rightarrow> i64 \<Rightarrow> stores \<Rightarrow> ((exhausted + unit) \<times> stores) option" where
  "sb_append_long al idx n s = map_option (\<lambda>t. sb_append_bytes al idx t s) (long_to_decimal_buf n)"

section \<open>The specification\<close>

fun decimal :: "nat \<Rightarrow> u8 list" where
  "decimal n = (if n < 10 then [48 + of_nat n] else decimal (n div 10) @ [48 + of_nat (n mod 10)])"

declare decimal.simps [simp del]

definition int_text :: "int \<Rightarrow> u8 list" where
  "int_text z = (if z < 0 then 45 # decimal (nat (- z)) else decimal (nat z))"

text \<open>What the text denotes.\<close>

definition digits_value :: "u8 list \<Rightarrow> nat" where
  "digits_value ds = foldl (\<lambda>a d. 10 * a + unat (d - 48)) 0 ds"

lemma digit_value: "d < 10 \<Longrightarrow> unat ((48 + of_nat d :: u8) - 48) = d"
  by (simp add: unsigned_of_nat take_bit_nat_eq_self)

lemma digits_value_decimal: "digits_value (decimal n) = n"
proof (induction n rule: decimal.induct)
  case (1 n)
  show ?case
  proof (cases "n < 10")
    case True
    then show ?thesis by (subst decimal.simps) (simp add: digits_value_def unsigned_of_nat take_bit_nat_eq_self)
  next
    case False
    then show ?thesis
      using 1 digit_value [of "n mod 10"] by (subst decimal.simps) (simp add: digits_value_def)
  qed
qed

fun padded :: "nat \<Rightarrow> nat \<Rightarrow> u8 list" where
  "padded 0 n = []"
| "padded (Suc k) n = padded k (n div 10) @ [48 + of_nat (n mod 10)]"

lemma length_padded [simp]: "length (padded k n) = k"
  by (induction k arbitrary: n) auto

lemma mod_power_div: "(n mod 10 ^ Suc k) div 10 = (n div 10) mod (10 ^ k :: nat)"
  by (simp add: mod_mult2_eq)

lemma decimal_padded:
  "10 ^ k \<le> n \<Longrightarrow> decimal n = decimal (n div 10 ^ k) @ padded k (n mod 10 ^ k)"
proof (induction k arbitrary: n)
  case 0
  then show ?case by simp
next
  case (Suc k)
  have "10 * 1 \<le> (10::nat) * 10 ^ k" by (intro mult_le_mono2) simp
  then have "\<not> n < 10" using Suc.prems by (simp only: power_Suc)
  then have ge: "10 ^ k \<le> n div 10" "\<not> n < 10"
    using Suc.prems by (simp_all add: less_eq_div_iff_mult_less_eq)
  have "n mod 10 ^ Suc k mod 10 = n mod 10" by (simp add: mod_mod_cancel)
  moreover have "n div 10 ^ Suc k = n div 10 div 10 ^ k" by (simp add: div_mult2_eq)
  ultimately show ?case
    using Suc.IH [OF ge(1)] ge(2) by (subst decimal.simps) (simp add: mod_power_div del: power_Suc)
qed

lemma length_decimal: "n < 10 ^ Suc k \<Longrightarrow> length (decimal n) \<le> Suc k"
proof (induction k arbitrary: n)
  case 0
  then show ?case by (subst decimal.simps) simp
next
  case (Suc k)
  then have "n div 10 < 10 ^ Suc k" by (simp add: div_less_iff_less_mult)
  with Suc.IH show ?case by (subst decimal.simps) auto
qed

section \<open>The loops write the digits\<close>

text \<open>\<open>st'\<close> is \<open>st\<close> with the bytes \<open>ds\<close> written in front of the text it had.\<close>

definition wrote :: "cursor \<Rightarrow> u8 list \<Rightarrow> cursor \<Rightarrow> bool" where
  "wrote st ds st' \<longleftrightarrow>
     length (snd st') = length (snd st) \<and> fst st' + length ds = fst st \<and>
     drop (fst st') (snd st') = ds @ drop (fst st) (snd st)"

lemma wrote_Nil: "wrote st [] st"
  by (simp add: wrote_def)

lemma wrote_trans: "wrote st ds st' \<Longrightarrow> wrote st' es st'' \<Longrightarrow> wrote st (es @ ds) st''"
  by (auto simp: wrote_def)

lemma put_left_wrote:
  assumes "0 < fst st" and "fst st \<le> length (snd st)"
  shows "\<exists>st'. put_left b st = Some st' \<and> wrote st [b] st' \<and> fst st' \<le> length (snd st')"
proof -
  obtain i buf where st: "st = (i, buf)" by (cases st)
  have "drop (i - 1) (buf[i - 1 := b]) = b # drop i buf"
    using assms st by (simp add: drop_update_cancel Cons_nth_drop_Suc [symmetric])
  then show ?thesis using assms st by (auto simp: put_left_def wrote_def)
qed

lemma unat_small32: "unat (ucast (x :: u32) :: u8) = unat x mod 256"
  by (simp add: unsigned_ucast_eq take_bit_eq_mod)

lemma digit_byte: "48 + ucast (c mod 10 :: u32) = (48 + of_nat (unat c mod 10) :: u8)"
proof -
  have "ucast (c mod 10 :: u32) = (of_nat (unat (c mod 10)) :: u8)"
    by (rule word_unat_eq_iff [THEN iffD2]) (simp add: unsigned_ucast_eq unsigned_of_nat)
  then show ?thesis by (simp add: unat_mod)
qed

lemma nine_digits_wrote:
  "n \<le> fst st \<Longrightarrow> fst st \<le> length (snd st) \<Longrightarrow>
   \<exists>st'. nine_digits n c st = Some st' \<and> wrote st (padded n (unat c)) st' \<and> fst st' \<le> length (snd st')"
proof (induction n arbitrary: c st)
  case 0
  then show ?case by (simp add: wrote_Nil)
next
  case (Suc n)
  obtain st1 where st1: "put_left (48 + ucast (c mod 10)) st = Some st1"
    "wrote st [48 + ucast (c mod 10)] st1" "fst st1 \<le> length (snd st1)"
    using put_left_wrote [of st "48 + ucast (c mod 10)"] Suc.prems by auto
  then have "n \<le> fst st1" using Suc.prems(1) by (simp add: wrote_def)
  with Suc.IH [OF this st1(3), of "c div 10"] st1 wrote_trans [OF st1(2)] show ?case
    by (auto simp: unat_div digit_byte)
qed

lemma last_chunk_wrote:
  "length (decimal (unat c)) \<le> fst st \<Longrightarrow> fst st \<le> length (snd st) \<Longrightarrow>
   \<exists>st'. last_chunk c st = Some st' \<and> wrote st (decimal (unat c)) st' \<and> fst st' \<le> length (snd st')"
proof (induction c st rule: last_chunk.induct)
  case (1 c st)
  have "decimal (unat c) \<noteq> []" by (subst decimal.simps) simp
  then have "0 < fst st" using "1.prems"(1) by (cases "decimal (unat c)") auto
  then obtain st1 where st1: "put_left (48 + ucast (c mod 10)) st = Some st1"
    "wrote st [48 + ucast (c mod 10)] st1" "fst st1 \<le> length (snd st1)"
    using put_left_wrote [of st "48 + ucast (c mod 10)"] "1.prems" by auto
  have z: "c div 10 = 0 \<longleftrightarrow> unat c < 10" by (simp add: unat_eq_0 [symmetric] unat_div div_eq_0_iff)
  show ?case
  proof (cases "c div 10 = 0")
    case True
    then have "decimal (unat c) = [48 + ucast (c mod 10)]"
      using z by (subst decimal.simps) (simp add: digit_byte)
    with True st1 show ?thesis by (subst last_chunk.simps) simp
  next
    case False
    then have d: "decimal (unat c) = decimal (unat (c div 10)) @ [48 + ucast (c mod 10)]"
      using z by (subst decimal.simps) (simp add: digit_byte unat_div)
    then have "length (decimal (unat (c div 10))) \<le> fst st1"
      using "1.prems"(1) st1(2) by (simp add: wrote_def)
    from "1.IH" [OF st1(1) False this st1(3)] obtain st2 where
      "last_chunk (c div 10) st1 = Some st2" "wrote st1 (decimal (unat (c div 10))) st2"
      "fst st2 \<le> length (snd st2)" by blast
    with False st1 wrote_trans [OF st1(2)] show ?thesis
      by (subst last_chunk.simps) (simp add: d)
  qed
qed

lemma chunk_value: "unat (ucast (m mod 1000000000 :: u64) :: u32) = unat m mod 1000000000"
  by (simp add: unsigned_ucast_eq unat_mod take_bit_nat_eq_self)

lemma u64_to_decimal_wrote:
  "length (decimal (unat m)) \<le> fst st \<Longrightarrow> fst st \<le> length (snd st) \<Longrightarrow>
   \<exists>st'. u64_to_decimal m st = Some st' \<and> wrote st (decimal (unat m)) st' \<and> fst st' \<le> length (snd st')"
proof (induction m st rule: u64_to_decimal.induct)
  case (1 m st)
  let ?c = "ucast (m mod 1000000000) :: u32"
  have z: "m div 1000000000 = 0 \<longleftrightarrow> unat m < 1000000000"
    by (simp add: unat_eq_0 [symmetric] unat_div div_eq_0_iff)
  show ?case
  proof (cases "m div 1000000000 = 0")
    case True
    then have "unat ?c = unat m" using z chunk_value [of m] by simp
    with True "1.prems" last_chunk_wrote [of ?c st] show ?thesis
      by (subst u64_to_decimal.simps) simp
  next
    case False
    then have "10 ^ 9 \<le> unat m" using z by simp
    from decimal_padded [OF this]
    have d: "decimal (unat m) = decimal (unat (m div 1000000000)) @ padded 9 (unat ?c)"
      by (simp add: chunk_value unat_div)
    have "9 \<le> fst st" using "1.prems"(1) unfolding d by simp
    from nine_digits_wrote [OF this "1.prems"(2), of ?c] obtain st1 where st1:
      "nine_digits 9 ?c st = Some st1" "wrote st (padded 9 (unat ?c)) st1" "fst st1 \<le> length (snd st1)" by blast
    have "length (decimal (unat (m div 1000000000))) \<le> fst st1"
      using "1.prems"(1) st1(2) unfolding d by (simp add: wrote_def)
    from "1.IH" [OF refl refl False st1(1) this st1(3)] obtain st2 where
      "u64_to_decimal (m div 1000000000) st1 = Some st2"
      "wrote st1 (decimal (unat (m div 1000000000))) st2" "fst st2 \<le> length (snd st2)" by blast
    with False st1 wrote_trans [OF st1(2)] show ?thesis
      by (subst u64_to_decimal.simps) (simp add: d Let_def)
  qed
qed

lemma int_digits_wrote:
  "length (decimal (unat m)) \<le> fst st \<Longrightarrow> fst st \<le> length (snd st) \<Longrightarrow> 0 < m \<Longrightarrow>
   \<exists>st'. int_digits m st = Some st' \<and> wrote st (decimal (unat m)) st' \<and> fst st' \<le> length (snd st')"
proof (induction m st rule: int_digits.induct)
  case (1 m st)
  have "decimal (unat m) \<noteq> []" by (subst decimal.simps) simp
  then have "0 < fst st" using "1.prems"(1) by (cases "decimal (unat m)") auto
  then obtain st1 where st1: "put_left (48 + ucast (m mod 10)) st = Some st1"
    "wrote st [48 + ucast (m mod 10)] st1" "fst st1 \<le> length (snd st1)"
    using put_left_wrote [of st "48 + ucast (m mod 10)"] "1.prems" by auto
  have z: "0 < m div 10 \<longleftrightarrow> \<not> unat m < 10"
    by (simp add: word_gt_0 unat_eq_0 [symmetric] unat_div div_eq_0_iff)
  show ?case
  proof (cases "0 < m div 10")
    case False
    then have "decimal (unat m) = [48 + ucast (m mod 10)]"
      using z by (subst decimal.simps) (simp add: digit_byte)
    moreover have "int_digits (m div 10) st1 = Some st1"
      using False by (subst int_digits.simps) simp
    ultimately show ?thesis using st1 "1.prems"(3) by (subst int_digits.simps) simp
  next
    case True
    then have d: "decimal (unat m) = decimal (unat (m div 10)) @ [48 + ucast (m mod 10)]"
      using z by (subst decimal.simps) (simp add: digit_byte unat_div)
    then have "length (decimal (unat (m div 10))) \<le> fst st1"
      using "1.prems"(1) st1(2) by (simp add: wrote_def)
    from "1.IH" [OF "1.prems"(3) st1(1) this st1(3) True] obtain st2 where
      "int_digits (m div 10) st1 = Some st2" "wrote st1 (decimal (unat (m div 10))) st2"
      "fst st2 \<le> length (snd st2)" by blast
    with "1.prems"(3) st1 wrote_trans [OF st1(2)] show ?thesis
      by (subst int_digits.simps) (simp add: d)
  qed
qed

section \<open>Properties\<close>

lemma unsigned_abs_value:
  "int (unat (unsigned_abs n)) = \<bar>sint n\<bar>" for n :: "'a::len word"
proof -
  have b: "- (2 ^ (LENGTH('a) - 1)) \<le> sint n" "sint n < 2 ^ (LENGTH('a) - 1)"
    by (rule sint_ge, rule sint_lt)
  have two: "(2::int) ^ LENGTH('a) = 2 * 2 ^ (LENGTH('a) - 1)"
    by (metis One_nat_def Suc_pred len_gt_0 power_Suc)
  have pos: "(0::int) < 2 ^ (LENGTH('a) - 1)" by simp
  have "unsigned_abs n = word_of_int \<bar>sint n\<bar>" by (simp add: unsigned_abs_def)
  then have "uint (unsigned_abs n) = \<bar>sint n\<bar> mod 2 ^ LENGTH('a)" by (simp add: uint_word_of_int)
  also have "\<dots> = \<bar>sint n\<bar>" using b two pos by (intro mod_pos_pos_trivial) linarith+
  finally show ?thesis by simp
qed

lemma decimal_room: "length (decimal (unat (m :: u64))) \<le> 20" "length (decimal (unat (m' :: u32))) \<le> 10"
proof -
  have "unat m < 10 ^ Suc 19" "unat m' < 10 ^ Suc 9"
    using unsigned_less [of m, where ?'a = nat] unsigned_less [of m', where ?'a = nat] by simp_all
  from length_decimal [OF this(1)] length_decimal [OF this(2)]
  show "length (decimal (unat m)) \<le> 20" "length (decimal (unat m')) \<le> 10" by simp_all
qed

lemma with_sign_text:
  assumes "wrote (n, buf) ds st" and "length buf = n" and "length ds < n"
  shows "with_sign neg (Some st) = Some (if neg then 45 # ds else ds)"
proof -
  have st: "drop (fst st) (snd st) = ds" "0 < fst st" "fst st \<le> length (snd st)"
    using assms by (auto simp: wrote_def)
  from put_left_wrote [OF st(2,3), of 45] obtain st' where "put_left 45 st = Some st'" "wrote st [45] st'"
    by blast
  with st show ?thesis by (cases st; cases st') (auto simp: with_sign_def wrote_def)
qed

lemma sign_text:
  assumes "int (unat m) = \<bar>z\<bar>"
  shows "(if z < 0 then 45 # decimal (unat m) else decimal (unat m)) = int_text z"
proof -
  have "unat m = nat \<bar>z\<bar>" using assms by linarith
  then show ?thesis by (simp add: int_text_def)
qed

text \<open>
  The text of a \<open>long\<close> or \<open>int\<close> is its decimal representation, sign and all,
  for every value, the least one included: the digit loops never run off the left end of their
  21- and 12-byte buffers, and the digits read back as the magnitude.
\<close>

theorem decimal_text:
  "long_to_decimal_buf n = Some (int_text (sint n)) \<and> int_to_decimal_buf k = Some (int_text (sint k)) \<and>
   digits_value (decimal d) = d"
proof (intro conjI)
  obtain st where "u64_to_decimal (unsigned_abs n) (21, replicate 21 0) = Some st"
    "wrote (21, replicate 21 0) (decimal (unat (unsigned_abs n))) st"
    using u64_to_decimal_wrote [of "unsigned_abs n" "(21, replicate 21 0)"] decimal_room(1) [of "unsigned_abs n"]
    by auto
  with with_sign_text [of 21 "replicate 21 0" "decimal (unat (unsigned_abs n))" st "sint n < 0"]
  show "long_to_decimal_buf n = Some (int_text (sint n))"
    using decimal_room(1) [of "unsigned_abs n"] sign_text [OF unsigned_abs_value [of n]]
    by (simp add: long_to_decimal_buf_def)
next
  show "int_to_decimal_buf k = Some (int_text (sint k))"
  proof (cases "k = 0")
    case True
    then show ?thesis by (simp add: int_to_decimal_buf_def int_text_def decimal.simps)
  next
    case False
    then have "0 < unsigned_abs k" by (auto simp: unsigned_abs_def word_gt_0)
    with int_digits_wrote [of "unsigned_abs k" "(12, replicate 12 0)"] decimal_room(2) [of "unsigned_abs k"]
    obtain st where "int_digits (unsigned_abs k) (12, replicate 12 0) = Some st"
      "wrote (12, replicate 12 0) (decimal (unat (unsigned_abs k))) st" by auto
    with with_sign_text [of 12 "replicate 12 0" "decimal (unat (unsigned_abs k))" st "sint k < 0"]
    show ?thesis
      using False decimal_room(2) [of "unsigned_abs k"] sign_text [OF unsigned_abs_value [of k]]
      by (simp add: int_to_decimal_buf_def)
  qed
qed (rule digits_value_decimal)

end
