(* ===== verification/Strings.thy ===== *)
theory Strings
  imports SideStores Literals
begin

text \<open>
  The string table, \<open>crates/jvm/src/heap.rs\<close>: references of strings as indices, static
  entries in Flash first, then the dynamic ones the heap owns, and the literals of the loaded
  sections at the top of the range. The raw pointers of the code are values here, and reading
  through one is an operation that may fail.
\<close>

section \<open>UTF-8\<close>

text \<open>\<open>core::str::from_utf8\<close>: the well-formed byte sequences.\<close>

definition cont :: "u8 \<Rightarrow> bool" where
  "cont b \<longleftrightarrow> 0x80 \<le> b \<and> b \<le> 0xBF"

fun utf8_ok :: "u8 list \<Rightarrow> bool" where
  "utf8_ok [] = True"
| "utf8_ok (a # rest) =
     (if a < 0x80 then utf8_ok rest
      else if 0xC2 \<le> a \<and> a \<le> 0xDF
      then (case rest of b # r \<Rightarrow> cont b \<and> utf8_ok r | _ \<Rightarrow> False)
      else if 0xE0 \<le> a \<and> a \<le> 0xEF
      then (case rest of
              b # c # r \<Rightarrow> cont b \<and> cont c \<and> (a = 0xE0 \<longrightarrow> 0xA0 \<le> b) \<and> (a = 0xED \<longrightarrow> b \<le> 0x9F) \<and> utf8_ok r
            | _ \<Rightarrow> False)
      else if 0xF0 \<le> a \<and> a \<le> 0xF4
      then (case rest of
              b # c # d # r \<Rightarrow> cont b \<and> cont c \<and> cont d \<and> (a = 0xF0 \<longrightarrow> 0x90 \<le> b) \<and>
                (a = 0xF4 \<longrightarrow> b \<le> 0x8F) \<and> utf8_ok r
            | _ \<Rightarrow> False)
      else False)"

definition from_utf8 :: "u8 list \<Rightarrow> u8 list option" where
  "from_utf8 bs = (if utf8_ok bs then Some bs else None)"

section \<open>The table\<close>

text \<open>
  A stored pointer: null, into Flash (the bytes from there on), or to the first byte of the
  buffer that slot \<open>di\<close> of the dynamic region owned when it was stored.
\<close>

datatype str_ptr = NullPtr | FlashPtr "u8 list" | BufPtr nat

record string_table =
  ptrs :: "str_ptr vec"
  lens :: "u16 vec"
  dyn_bufs :: "u8 vec chunked"
  dyn_start :: nat
  st_alloc_events :: u16
  lits :: "literals list"
  lit_first :: "nat list"
  lit_floor :: nat

definition st_new :: "nat \<Rightarrow> string_table" where
  "st_new shift =
     \<lparr>ptrs = vec_new, lens = vec_new, dyn_bufs = cs_new shift, dyn_start = 0, st_alloc_events = 0,
      lits = [lits_empty, lits_empty], lit_first = [REF_TOP, REF_TOP], lit_floor = REF_TOP\<rparr>"

definition set_literal_pools :: "literals \<Rightarrow> literals \<Rightarrow> string_table \<Rightarrow> string_table" where
  "set_literal_pools fw app t =
     (let app_first = REF_TOP - lit_count app; fw_first = app_first - lit_count fw
      in if fw_first < length (items (ptrs t)) \<or> REF_TOP div 2 < lit_count fw + lit_count app then t
         else t\<lparr>lits := [fw, app], lit_first := [fw_first, app_first], lit_floor := fw_first\<rparr>)"

definition is_literal :: "string_table \<Rightarrow> u16 \<Rightarrow> bool" where
  "is_literal t idx \<longleftrightarrow> lit_floor t \<le> unat idx"

definition literal_row :: "string_table \<Rightarrow> u16 \<Rightarrow> (nat \<times> nat) option" where
  "literal_row t idx =
     (let i = unat idx
      in if i < lit_floor t then None
         else let pool = (if lit_first t ! 1 \<le> i then 1 else 0); row = i - lit_first t ! pool
              in if row < lit_count (lits t ! pool) then Some (pool, row) else None)"

text \<open>\<open>literal_ref\<close>: the class is known by the address of its bytes.\<close>

definition literal_ref :: "string_table \<Rightarrow> nat \<Rightarrow> u16 \<Rightarrow> u16 option" where
  "literal_ref t at lit =
     map_option (\<lambda>pool. of_nat (lit_first t ! pool + unat lit))
       (find (\<lambda>pool. let l = lits t ! pool
              in lit_base l \<le> at \<and> at < lit_base l + length (lit_data l) \<and> unat lit < lit_count l) [0, 1])"

definition literal_hash :: "string_table \<Rightarrow> u16 \<Rightarrow> u32 option" where
  "literal_hash t idx =
     Option.bind (literal_row t idx) (\<lambda>(pool, row). map_option lit_hash (lit_row (lits t ! pool) row))"

definition same_literal :: "string_table \<Rightarrow> u16 \<Rightarrow> u16 \<Rightarrow> bool" where
  "same_literal t a b \<longleftrightarrow>
     a = b \<or>
     (case (literal_row t a, literal_row t b) of
        (Some (pa, ra), Some (pb, rb)) \<Rightarrow>
          pa \<noteq> pb \<and>
          map_option (\<lambda>r. (lit_hash r, lit_len r)) (lit_row (lits t ! pa) ra) =
            map_option (\<lambda>r. (lit_hash r, lit_len r)) (lit_row (lits t ! pb) rb) \<and>
          lit_bytes (lits t ! pa) ra = lit_bytes (lits t ! pb) rb
      | _ \<Rightarrow> False)"

definition st_take_alloc_events :: "string_table \<Rightarrow> u16 \<times> string_table" where
  "st_take_alloc_events t = (st_alloc_events t, t\<lparr>st_alloc_events := 0\<rparr>)"

section \<open>Reading through a pointer\<close>

text \<open>
  \<open>from_raw_parts(ptr, len)\<close>: \<open>None\<close> stands for undefined behaviour, a null or dangling
  pointer or a length past the memory behind it.
\<close>

definition memory :: "string_table \<Rightarrow> str_ptr \<Rightarrow> u8 list option" where
  "memory t p =
     (case p of
        NullPtr \<Rightarrow> None
      | FlashPtr bs \<Rightarrow> Some bs
      | BufPtr di \<Rightarrow> (case cs_get (dyn_bufs t) di of Some (Some v) \<Rightarrow> Some (items v) | _ \<Rightarrow> None))"

definition from_raw_parts :: "string_table \<Rightarrow> str_ptr \<Rightarrow> nat \<Rightarrow> u8 list option" where
  "from_raw_parts t p n =
     (case memory t p of None \<Rightarrow> None | Some bs \<Rightarrow> if n \<le> length bs then Some (take n bs) else None)"

definition entry_bytes :: "string_table \<Rightarrow> nat \<Rightarrow> u8 list option" where
  "entry_bytes t i =
     (if i < length (items (ptrs t)) \<and> i < length (items (lens t))
      then from_raw_parts t (items (ptrs t) ! i) (unat (items (lens t) ! i)) else None)"

section \<open>Interning\<close>

text \<open>The two deduplication loops: the first entry with the bytes, in the order given.\<close>

primrec find_entry :: "string_table \<Rightarrow> u8 list \<Rightarrow> nat list \<Rightarrow> nat option option" where
  "find_entry t s [] = Some None"
| "find_entry t s (i # is) =
     (case entry_bytes t i of
        None \<Rightarrow> None | Some e \<Rightarrow> if e = s then Some (Some i) else find_entry t s is)"

definition live_dyn :: "string_table \<Rightarrow> nat list" where
  "live_dyn t = filter (\<lambda>di. cs_iter (dyn_bufs t) ! di \<noteq> None) [0..<cs_len (dyn_bufs t)]"

text \<open>Room for one more entry in both tables; the first stays grown when the second cannot.\<close>

definition st_room :: "allocator \<Rightarrow> string_table \<Rightarrow> bool \<times> string_table" where
  "st_room al t =
     (if lit_floor t \<le> length (items (ptrs t)) then (False, t)
      else case vec_room (al TableBuf) 1 (ptrs t) of
             None \<Rightarrow> (False, t)
           | Some p \<Rightarrow>
               (case vec_room (al TableBuf) 1 (lens t) of
                  None \<Rightarrow> (False, t\<lparr>ptrs := p\<rparr>)
                | Some l \<Rightarrow> (True, t\<lparr>ptrs := p, lens := l\<rparr>)))"

definition reuse_dyn :: "nat \<Rightarrow> u8 vec \<Rightarrow> (string_table, fault, u16 option) action" where
  "reuse_dyn di buf t =
     (let idx = of_nat (dyn_start t + di) :: u16
      in if length (items (ptrs t)) \<le> unat idx \<or> length (items (lens t)) \<le> unat idx then (Inl Panic, t)
         else case cs_update (dyn_bufs t) di (Some buf) of
                None \<Rightarrow> (Inl Panic, t)
              | Some cs \<Rightarrow>
                  (Inr (Some idx),
                   t\<lparr>ptrs := vec_set (unat idx) (BufPtr di) (ptrs t),
                     lens := vec_set (unat idx) (of_nat (length (items buf))) (lens t), dyn_bufs := cs\<rparr>))"

definition intern_dyn_owned :: "allocator \<Rightarrow> u8 vec \<Rightarrow> (string_table, fault, u16 option) action" where
  "intern_dyn_owned al buf t0 =
     (let t = t0\<lparr>st_alloc_events := saturating_inc16 (st_alloc_events t0)\<rparr>
      in case position (\<lambda>s. s = None) (cs_iter (dyn_bufs t)) of
           Some di \<Rightarrow> reuse_dyn di buf t
         | None \<Rightarrow>
             (case st_room al t of
                (False, t1) \<Rightarrow> (Inr None, t1)
              | (True, t1) \<Rightarrow>
                  (case cs_try_push (al ChunkBuf) (Some buf) (dyn_bufs t1) of
                     (None, cs) \<Rightarrow> (Inr None, t1\<lparr>dyn_bufs := cs\<rparr>)
                   | (Some di, cs) \<Rightarrow>
                       (Inr (Some (of_nat (length (items (ptrs t1))))),
                        t1\<lparr>dyn_bufs := cs, ptrs := vec_push (BufPtr di) (ptrs t1),
                          lens := vec_push (of_nat (length (items buf))) (lens t1)\<rparr>))))"

definition intern_dyn :: "allocator \<Rightarrow> u8 list \<Rightarrow> (string_table, fault, u16 option) action" where
  "intern_dyn al bytes t =
     (case vec_reserve_exact (al U8Buf) 0 0 (length bytes) of
        None \<Rightarrow> (Inr None, t)
      | Some c \<Rightarrow> intern_dyn_owned al \<lparr>items = bytes, vcap = c\<rparr> t)"

definition intern :: "allocator \<Rightarrow> u8 list \<Rightarrow> (string_table, fault, u16 option) action" where
  "intern al s t =
     (case find_entry t s [0..<dyn_start t] of
        None \<Rightarrow> (Inl Panic, t)
      | Some (Some i) \<Rightarrow> (Inr (Some (of_nat i)), t)
      | Some None \<Rightarrow>
          (case find_entry t s (map (\<lambda>di. dyn_start t + di) (live_dyn t)) of
             None \<Rightarrow> (Inl Panic, t)
           | Some (Some i) \<Rightarrow> (Inr (Some (of_nat i)), t)
           | Some None \<Rightarrow>
               if 0 < cs_len (dyn_bufs t) then intern_dyn al s t
               else (case st_room al t of
                       (False, t1) \<Rightarrow> (Inr None, t1)
                     | (True, t1) \<Rightarrow>
                         (Inr (Some (of_nat (length (items (ptrs t1))))),
                          t1\<lparr>ptrs := vec_push (FlashPtr s) (ptrs t1),
                            lens := vec_push (of_nat (length s)) (lens t1),
                            dyn_start := length (items (ptrs t1)) + 1\<rparr>))))"

text \<open>\<open>free_dyn\<close>, outside the poisoning mode of the diagnostics build.\<close>

definition free_dyn :: "u16 \<Rightarrow> (string_table, fault, unit) action" where
  "free_dyn idx t =
     (let i = unat idx
      in if i < dyn_start t \<or> length (items (ptrs t)) \<le> i then (Inr (), t)
         else let di = i - dyn_start t
              in if di < cs_len (dyn_bufs t)
                 then (case cs_update (dyn_bufs t) di None of
                         None \<Rightarrow> (Inl Panic, t)
                       | Some cs \<Rightarrow>
                           if length (items (lens t)) \<le> i then (Inl Panic, t\<lparr>dyn_bufs := cs\<rparr>)
                           else (Inr (), t\<lparr>dyn_bufs := cs, ptrs := vec_set i NullPtr (ptrs t),
                                          lens := vec_set i 0 (lens t)\<rparr>))
                 else (Inr (), t))"

section \<open>Reading\<close>

definition is_dyn_live :: "string_table \<Rightarrow> u16 \<Rightarrow> bool" where
  "is_dyn_live t idx \<longleftrightarrow>
     (let i = unat idx
      in dyn_start t \<le> i \<and> i < length (items (ptrs t)) \<and> i - dyn_start t < cs_len (dyn_bufs t) \<and>
         cs_iter (dyn_bufs t) ! (i - dyn_start t) \<noteq> None)"

definition st_live_bytes :: "string_table \<Rightarrow> nat" where
  "st_live_bytes t = (\<Sum>s\<leftarrow>cs_iter (dyn_bufs t). case s of None \<Rightarrow> 0 | Some b \<Rightarrow> vcap b)"

definition resolve_literal :: "string_table \<Rightarrow> u16 \<Rightarrow> u8 list option" where
  "resolve_literal t idx =
     Option.bind (literal_row t idx) (\<lambda>(pool, row).
     Option.bind (lit_row (lits t ! pool) row) (\<lambda>r.
       if lit_flags r AND LIT_UTF8 = 0 then None
       else Option.bind (lit_bytes (lits t ! pool) row) from_utf8))"

definition resolve :: "string_table \<Rightarrow> u16 \<Rightarrow> fault + u8 list option" where
  "resolve t idx =
     (let i = unat idx
      in if lit_floor t \<le> i then Inr (resolve_literal t idx)
         else if length (items (ptrs t)) \<le> i then Inr None
         else if items (ptrs t) ! i = NullPtr then Inr None
         else case entry_bytes t i of None \<Rightarrow> Inl Panic | Some bs \<Rightarrow> Inr (from_utf8 bs))"

definition resolve_static :: "string_table \<Rightarrow> u16 \<Rightarrow> fault + u8 list option" where
  "resolve_static t idx =
     (let i = unat idx
      in if lit_floor t \<le> i then Inr (resolve_literal t idx)
         else if dyn_start t \<le> i \<or> length (items (ptrs t)) \<le> i then Inr None
         else if items (ptrs t) ! i = NullPtr then Inr None
         else case entry_bytes t i of None \<Rightarrow> Inl Panic | Some bs \<Rightarrow> Inr (from_utf8 bs))"

definition content_eq :: "string_table \<Rightarrow> u16 \<Rightarrow> u16 \<Rightarrow> fault + bool" where
  "content_eq t a b =
     (if a = b then Inr True
      else case resolve t a of
             Inl e \<Rightarrow> Inl e
           | Inr None \<Rightarrow> Inr False
           | Inr (Some x) \<Rightarrow> (case resolve t b of Inl e \<Rightarrow> Inl e | Inr y \<Rightarrow> Inr (y = Some x)))"

text \<open>
  \<open>integrity_check\<close>: the first complaint, as its message. \<open>str_check_from\<close> is the
  loop, over the slots not visited yet.
\<close>

fun str_check_from :: "string_table \<Rightarrow> nat \<Rightarrow> u8 vec option list \<Rightarrow> string option" where
  "str_check_from t di [] = None"
| "str_check_from t di (s # rest) =
     (let i = dyn_start t + di
      in if length (items (ptrs t)) \<le> i then Some ''dyn_bufs longer than ptrs table''
         else case s of
                Some b \<Rightarrow>
                  if items (ptrs t) ! i \<noteq> BufPtr di then Some ''live dyn ptr does not match its buffer''
                  else if unat (items (lens t) ! i) \<noteq> length (items b)
                  then Some ''live dyn len does not match its buffer''
                  else str_check_from t (di + 1) rest
              | None \<Rightarrow>
                  if items (ptrs t) ! i \<noteq> NullPtr then Some ''freed dyn slot has non-null ptr''
                  else str_check_from t (di + 1) rest)"

definition str_integrity_check :: "string_table \<Rightarrow> string option" where
  "str_integrity_check t =
     (if \<not> cs_invariant_holds (dyn_bufs t) then Some ''ChunkedSlots chunk/len invariant broken''
      else str_check_from t 0 (cs_iter (dyn_bufs t)))"

section \<open>The invariant\<close>

text \<open>
  Every stored pointer reads: a static entry points at enough Flash, a live dynamic one at its
  own slot's buffer and has its length as a \<open>u16\<close>, and a freed one is null.
\<close>

definition dyn_entry_ok :: "u8 vec option \<Rightarrow> nat \<Rightarrow> str_ptr \<Rightarrow> u16 \<Rightarrow> bool" where
  "dyn_entry_ok s di p l \<longleftrightarrow>
     (case s of
        None \<Rightarrow> p = NullPtr
      | Some b \<Rightarrow> p = BufPtr di \<and> l = of_nat (length (items b)))"

definition str_ok :: "string_table \<Rightarrow> bool" where
  "str_ok t \<longleftrightarrow>
     cs_ok (dyn_bufs t) \<and> length (items (lens t)) = length (items (ptrs t)) \<and>
     length (items (ptrs t)) = dyn_start t + length (cs_iter (dyn_bufs t)) \<and>
     length (items (ptrs t)) \<le> lit_floor t \<and> lit_floor t \<le> REF_TOP \<and>
     (\<forall>i<dyn_start t. \<exists>bs. items (ptrs t) ! i = FlashPtr bs \<and> unat (items (lens t) ! i) \<le> length bs) \<and>
     (\<forall>di<length (cs_iter (dyn_bufs t)).
        dyn_entry_ok (cs_iter (dyn_bufs t) ! di) di (items (ptrs t) ! (dyn_start t + di))
          (items (lens t) ! (dyn_start t + di)))"

text \<open>The abstract table: the bytes of each entry that holds a string.\<close>

definition str_abs :: "string_table \<Rightarrow> nat \<rightharpoonup> u8 list" where
  "str_abs t i = (if i < length (items (ptrs t)) \<and> items (ptrs t) ! i \<noteq> NullPtr then entry_bytes t i else None)"

end
