(* ===== verification/StringLaws.thy ===== *)
theory StringLaws
  imports Strings SideStoreLaws
begin

text \<open>
  What the string table promises: no read through a stored pointer is ever out of bounds,
  interning gives one reference per content, and an entry keeps its bytes until it is freed.
\<close>

section \<open>Entries\<close>

text \<open>What a buffer reads as: the table keeps its length in sixteen bits.\<close>

definition stored :: "u8 vec \<Rightarrow> u8 list" where
  "stored b = take (length (items b) mod 65536) (items b)"

lemma stored_short [simp]: "length (items b) < 65536 \<Longrightarrow> stored b = items b"
  by (simp add: stored_def)

abbreviation dyns :: "string_table \<Rightarrow> u8 vec option list" where
  "dyns t \<equiv> cs_iter (dyn_bufs t)"

lemma unat_of_nat16: "n < 65536 \<Longrightarrow> unat (of_nat n :: u16) = n"
  by (simp add: unat_of_nat)

lemma table_cong:
  assumes "dyn_bufs t' = dyn_bufs t" "items (ptrs t') = items (ptrs t)" "items (lens t') = items (lens t)"
  shows "entry_bytes t' = entry_bytes t \<and> str_abs t' = str_abs t"
proof -
  have "memory t' p = memory t p" for p
    using assms(1) by (cases p) (simp_all add: memory_def)
  then show ?thesis
    using assms by (simp add: entry_bytes_def str_abs_def from_raw_parts_def fun_eq_iff)
qed

lemma st_new_ok: "str_ok (st_new shift)"
  by (simp add: str_ok_def st_new_def cs_new_ok REF_TOP_def)

lemma str_ok_cs: "str_ok t \<Longrightarrow> cs_ok (dyn_bufs t)"
  by (simp add: str_ok_def)

lemma str_ok_len:
  assumes "str_ok t"
  shows "length (items (lens t)) = length (items (ptrs t))" "dyn_start t \<le> length (items (ptrs t))"
    "cs_len (dyn_bufs t) = length (dyns t)" "length (items (ptrs t)) = dyn_start t + length (dyns t)"
    "length (items (ptrs t)) \<le> REF_TOP"
  using assms by (auto simp: str_ok_def cs_len_iter)

lemma entry_static:
  assumes "str_ok t" and "i < dyn_start t"
  shows "\<exists>bs. entry_bytes t i = Some bs \<and> str_abs t i = Some bs"
proof -
  obtain bs where "items (ptrs t) ! i = FlashPtr bs" "unat (items (lens t) ! i) \<le> length bs"
    using assms unfolding str_ok_def by blast
  then show ?thesis
    using assms str_ok_len [OF assms(1)]
    by (simp add: entry_bytes_def str_abs_def from_raw_parts_def memory_def)
qed

lemma entry_dyn:
  assumes ok: "str_ok t" and di: "di < length (dyns t)"
  shows "case dyns t ! di of
      None \<Rightarrow> str_abs t (dyn_start t + di) = None \<and> items (ptrs t) ! (dyn_start t + di) = NullPtr
    | Some b \<Rightarrow> items (ptrs t) ! (dyn_start t + di) = BufPtr di \<and>
        entry_bytes t (dyn_start t + di) = Some (stored b) \<and>
        str_abs t (dyn_start t + di) = Some (stored b)"
proof -
  have "dyn_entry_ok (dyns t ! di) di (items (ptrs t) ! (dyn_start t + di)) (items (lens t) ! (dyn_start t + di))"
    using ok di unfolding str_ok_def by blast
  then show ?thesis
    using di str_ok_len [OF ok] cs_get_iter [OF str_ok_cs [OF ok], of di]
    by (auto simp: dyn_entry_ok_def entry_bytes_def str_abs_def from_raw_parts_def memory_def unat_of_nat
        stored_def split: option.splits)
qed

lemma str_abs_beyond: "length (items (ptrs t)) \<le> i \<Longrightarrow> str_abs t i = None"
  by (simp add: str_abs_def)

lemma entry_cases:
  assumes "str_ok t" and "i < length (items (ptrs t))"
  obtains "i < dyn_start t" | di where "i = dyn_start t + di" "di < length (dyns t)"
proof (cases "i < dyn_start t")
  case True
  then show ?thesis by (rule that(1))
next
  case False
  with assms(2) str_ok_len(4) [OF assms(1)] have "i = dyn_start t + (i - dyn_start t)" "i - dyn_start t < length (dyns t)"
    by auto
  then show ?thesis by (rule that(2))
qed

text \<open>No stored pointer dangles.\<close>

lemma entry_reads:
  assumes "str_ok t" and "i < length (items (ptrs t))" and "items (ptrs t) ! i \<noteq> NullPtr"
  shows "\<exists>bs. entry_bytes t i = Some bs"
proof (rule entry_cases [OF assms(1,2)])
  assume "i < dyn_start t"
  then show ?thesis using entry_static [OF assms(1)] by blast
next
  fix di assume di: "i = dyn_start t + di" "di < length (dyns t)"
  then show ?thesis
    using entry_dyn [OF assms(1) di(2)] assms(3) by (cases "dyns t ! di") auto
qed

lemma live_entries:
  assumes ok: "str_ok t"
  shows "set ([0..<dyn_start t] @ map (\<lambda>di. dyn_start t + di) (live_dyn t)) = dom (str_abs t)"
    and "\<And>i. i \<in> dom (str_abs t) \<Longrightarrow> entry_bytes t i = str_abs t i"
proof -
  show e: "entry_bytes t i = str_abs t i" if "i \<in> dom (str_abs t)" for i
    using that by (auto simp: str_abs_def split: if_splits)
  show "set ([0..<dyn_start t] @ map (\<lambda>di. dyn_start t + di) (live_dyn t)) = dom (str_abs t)"
  proof (intro equalityI subsetI)
    fix i assume "i \<in> set ([0..<dyn_start t] @ map (\<lambda>di. dyn_start t + di) (live_dyn t))"
    then consider "i < dyn_start t" | di where "i = dyn_start t + di" "di < length (dyns t)" "dyns t ! di \<noteq> None"
      using str_ok_len [OF ok] by (auto simp: live_dyn_def)
    then show "i \<in> dom (str_abs t)"
    proof cases
      case 1
      then show ?thesis using entry_static [OF ok] by blast
    next
      case 2
      then show ?thesis using entry_dyn [OF ok 2(2)] by auto
    qed
  next
    fix i assume i: "i \<in> dom (str_abs t)"
    then have "i < length (items (ptrs t))" by (auto simp: str_abs_def split: if_splits)
    then show "i \<in> set ([0..<dyn_start t] @ map (\<lambda>di. dyn_start t + di) (live_dyn t))"
    proof (rule entry_cases [OF ok])
      fix di assume di: "i = dyn_start t + di" "di < length (dyns t)"
      then have "dyns t ! di \<noteq> None" using entry_dyn [OF ok di(2)] i by (auto split: option.splits)
      then show ?thesis using di str_ok_len [OF ok] by (auto simp: live_dyn_def)
    qed simp
  qed
qed

lemma find_entry_law:
  "\<forall>i\<in>set is. entry_bytes t i = str_abs t i \<and> i \<in> dom (str_abs t) \<Longrightarrow>
   find_entry t s is = Some (find (\<lambda>i. str_abs t i = Some s) is)"
  by (induction "is") (auto split: option.splits)

section \<open>Adding and removing entries\<close>

lemma st_room_law:
  assumes ok: "str_ok t"
  shows "case st_room al t of (r, t') \<Rightarrow>
    str_ok t' \<and> str_abs t' = str_abs t \<and> dyn_bufs t' = dyn_bufs t \<and> dyn_start t' = dyn_start t \<and>
    items (ptrs t') = items (ptrs t) \<and> items (lens t') = items (lens t) \<and>
    lit_floor t' = lit_floor t \<and> lits t' = lits t \<and> lit_first t' = lit_first t \<and>
    (r \<longrightarrow> length (items (ptrs t)) < lit_floor t)"
proof -
  have base: "str_ok t' \<and> str_abs t' = str_abs t"
    if "dyn_bufs t' = dyn_bufs t" "dyn_start t' = dyn_start t" "items (ptrs t') = items (ptrs t)"
      "items (lens t') = items (lens t)" "lit_floor t' = lit_floor t" for t'
    using that ok table_cong [of t' t] by (simp add: str_ok_def)
  have keep: "str_ok t' \<and> str_abs t' = str_abs t \<and> dyn_bufs t' = dyn_bufs t \<and> dyn_start t' = dyn_start t \<and>
      items (ptrs t') = items (ptrs t) \<and> items (lens t') = items (lens t) \<and>
      lit_floor t' = lit_floor t \<and> lits t' = lits t \<and> lit_first t' = lit_first t"
    if "t' = t \<or> (\<exists>p. items p = items (ptrs t) \<and> (t' = t\<lparr>ptrs := p\<rparr> \<or>
      (\<exists>l. items l = items (lens t) \<and> t' = t\<lparr>ptrs := p, lens := l\<rparr>)))" for t'
  proof -
    from that consider "t' = t" | p where "items p = items (ptrs t)" "t' = t\<lparr>ptrs := p\<rparr>"
      | p l where "items p = items (ptrs t)" "items l = items (lens t)" "t' = t\<lparr>ptrs := p, lens := l\<rparr>"
      by blast
    then show ?thesis using base [of t'] by cases simp_all
  qed
  obtain r t' where room: "st_room al t = (r, t')" by fastforce
  have "(t' = t \<or> (\<exists>p. items p = items (ptrs t) \<and> (t' = t\<lparr>ptrs := p\<rparr> \<or>
      (\<exists>l. items l = items (lens t) \<and> t' = t\<lparr>ptrs := p, lens := l\<rparr>)))) \<and>
      (r \<longrightarrow> length (items (ptrs t)) < lit_floor t)"
  proof (cases "lit_floor t \<le> length (items (ptrs t))")
    case True
    then show ?thesis using room by (simp add: st_room_def)
  next
    case False
    show ?thesis
    proof (cases "vec_room (al TableBuf) 1 (ptrs t)")
      case None
      then show ?thesis using room False by (simp add: st_room_def)
    next
      case (Some p)
      note p = Some vec_room_items [OF Some]
      show ?thesis
      proof (cases "vec_room (al TableBuf) 1 (lens t)")
        case None
        then have "t' = t\<lparr>ptrs := p\<rparr>" "\<not> r" using room False p(1) by (auto simp: st_room_def)
        then show ?thesis using p(2) by blast
      next
        case (Some l)
        then have "t' = t\<lparr>ptrs := p, lens := l\<rparr>" using room False p(1) by (simp add: st_room_def)
        moreover have "length (items (ptrs t)) < lit_floor t" using False by simp
        ultimately show ?thesis using p(2) vec_room_items [OF Some] by blast
      qed
    qed
  qed
  then show ?thesis unfolding room prod.case using keep [of t'] by blast
qed

text \<open>A table whose slot \<open>di\<close> took a new buffer, or lost it.\<close>

lemma slot_change:
  assumes ok: "str_ok t" and di: "di < length (dyns t)"
    and cs: "cs_ok cs" "cs_iter cs = (dyns t)[di := c]"
    and t': "t' = t\<lparr>dyn_bufs := cs, ptrs := vec_set (dyn_start t + di) p (ptrs t),
      lens := vec_set (dyn_start t + di) l (lens t)\<rparr>"
    and e: "dyn_entry_ok c di p l"
  shows "str_ok t' \<and> str_abs t' = (str_abs t)(dyn_start t + di := map_option stored c)"
proof -
  note len = str_ok_len [OF ok]
  have ok': "str_ok t'"
    unfolding str_ok_def
  proof (intro conjI allI impI)
    fix dj assume dj: "dj < length (cs_iter (dyn_bufs t'))"
    have "dyn_entry_ok (dyns t ! dj) dj (items (ptrs t) ! (dyn_start t + dj)) (items (lens t) ! (dyn_start t + dj))"
      using ok dj cs unfolding str_ok_def by (simp add: t')
    then show "dyn_entry_ok (cs_iter (dyn_bufs t') ! dj) dj (items (ptrs t') ! (dyn_start t' + dj))
        (items (lens t') ! (dyn_start t' + dj))"
      using di dj cs e len by (auto simp: t' nth_list_update)
  next
    fix i assume "i < dyn_start t'"
    then show "\<exists>bs. items (ptrs t') ! i = FlashPtr bs \<and> unat (items (lens t') ! i) \<le> length bs"
      using ok by (auto simp: str_ok_def t')
  qed (use ok cs len in \<open>auto simp: str_ok_def t'\<close>)
  have "str_abs t' j = ((str_abs t)(dyn_start t + di := map_option stored c)) j" for j
  proof (cases "j < length (items (ptrs t))")
    case False
    then show ?thesis using di len by (auto simp: str_abs_def t')
  next
    case True
    then show ?thesis
    proof (rule entry_cases [OF ok])
      assume j: "j < dyn_start t"
      obtain bs where "items (ptrs t) ! j = FlashPtr bs" using ok j unfolding str_ok_def by blast
      then show ?thesis
        using j by (simp add: str_abs_def t' entry_bytes_def from_raw_parts_def memory_def)
    next
      fix dj assume j: "j = dyn_start t + dj" "dj < length (dyns t)"
      have dj': "dj < length (dyns t')" using j(2) cs by (simp add: t')
      show ?thesis
        using entry_dyn [OF ok j(2)] entry_dyn [OF ok' dj'] cs di j len
        by (cases "dj = di"; cases "dyns t ! dj"; cases c) (auto simp: t')
    qed
  qed
  with ok' show ?thesis by (simp add: fun_eq_iff)
qed

text \<open>A table with one more dynamic entry.\<close>

lemma slot_append:
  assumes ok: "str_ok t" and room: "length (items (ptrs t)) < lit_floor t"
    and cs: "cs_ok cs" "cs_iter cs = dyns t @ [Some b]"
    and t': "t' = t\<lparr>dyn_bufs := cs, ptrs := vec_push (BufPtr (length (dyns t))) (ptrs t),
      lens := vec_push (of_nat (length (items b))) (lens t)\<rparr>"
  shows "str_ok t' \<and> str_abs t' = (str_abs t)(length (items (ptrs t)) \<mapsto> stored b)"
proof -
  note len = str_ok_len [OF ok]
  have ok': "str_ok t'"
    unfolding str_ok_def
  proof (intro conjI allI impI)
    fix dj assume dj: "dj < length (cs_iter (dyn_bufs t'))"
    show "dyn_entry_ok (cs_iter (dyn_bufs t') ! dj) dj (items (ptrs t') ! (dyn_start t' + dj))
        (items (lens t') ! (dyn_start t' + dj))"
    proof (cases "dj < length (dyns t)")
      case True
      then have "dyn_entry_ok (dyns t ! dj) dj (items (ptrs t) ! (dyn_start t + dj)) (items (lens t) ! (dyn_start t + dj))"
        using ok unfolding str_ok_def by blast
      then show ?thesis using True cs len by (simp add: t' nth_append vec_push_def)
    next
      case False
      then have "dj = length (dyns t)" using dj cs by (simp add: t')
      then show ?thesis using cs len by (simp add: t' nth_append vec_push_def dyn_entry_ok_def)
    qed
  next
    fix i assume "i < dyn_start t'"
    then show "\<exists>bs. items (ptrs t') ! i = FlashPtr bs \<and> unat (items (lens t') ! i) \<le> length bs"
      using ok len by (auto simp: str_ok_def t' nth_append vec_push_def)
  qed (use ok cs len room in \<open>auto simp: str_ok_def t' vec_push_def\<close>)
  have "str_abs t' j = ((str_abs t)(length (items (ptrs t)) \<mapsto> stored b)) j" for j
  proof (cases "j < length (items (ptrs t))")
    case True
    then show ?thesis
    proof (rule entry_cases [OF ok])
      assume j: "j < dyn_start t"
      obtain bs where "items (ptrs t) ! j = FlashPtr bs" using ok j unfolding str_ok_def by blast
      then show ?thesis
        using j True len by (simp add: str_abs_def t' entry_bytes_def from_raw_parts_def memory_def vec_push_def nth_append)
    next
      fix dj assume j: "j = dyn_start t + dj" "dj < length (dyns t)"
      have dj': "dj < length (dyns t')" using j(2) cs by (simp add: t')
      show ?thesis
        using entry_dyn [OF ok j(2)] entry_dyn [OF ok' dj'] cs j len
        by (cases "dyns t ! dj") (auto simp: t' nth_append)
    qed
  next
    case False
    show ?thesis
    proof (cases "j = length (items (ptrs t))")
      case True
      have dj: "length (dyns t) < length (dyns t')" using cs by (simp add: t')
      show ?thesis
        using entry_dyn [OF ok' dj] True cs len by (simp add: t' nth_append)
    next
      case F: False
      then show ?thesis using False by (simp add: str_abs_def t' vec_push_def)
    qed
  qed
  with ok' show ?thesis by (simp add: fun_eq_iff)
qed

text \<open>A table with one more static entry, which only a table without dynamic ones gets.\<close>

lemma static_append:
  assumes ok: "str_ok t" and room: "length (items (ptrs t)) < lit_floor t" and none: "dyns t = []"
    and t': "t' = t\<lparr>ptrs := vec_push (FlashPtr s) (ptrs t), lens := vec_push (of_nat (length s)) (lens t),
      dyn_start := length (items (ptrs t)) + 1\<rparr>"
  shows "str_ok t' \<and> str_abs t' = (str_abs t)(length (items (ptrs t)) \<mapsto> take (length s mod 65536) s)"
proof -
  note len = str_ok_len [OF ok]
  have "str_ok t'"
    using ok len room none
    by (auto simp: str_ok_def t' vec_push_def nth_append less_Suc_eq unat_of_nat)
  moreover have "str_abs t' j = ((str_abs t)(length (items (ptrs t)) \<mapsto> take (length s mod 65536) s)) j" for j
  proof (cases "j < length (items (ptrs t))")
    case True
    then obtain bs where "items (ptrs t) ! j = FlashPtr bs"
      using ok none len unfolding str_ok_def by fastforce
    then show ?thesis
      using True len by (simp add: str_abs_def t' entry_bytes_def from_raw_parts_def memory_def vec_push_def nth_append)
  next
    case False
    then show ?thesis
      using len by (auto simp: str_abs_def t' entry_bytes_def from_raw_parts_def memory_def vec_push_def
          nth_append unat_of_nat)
  qed
  ultimately show ?thesis by (simp add: fun_eq_iff)
qed

section \<open>The operations\<close>

lemma reuse_dyn_law:
  assumes ok: "str_ok t" and di: "di < length (dyns t)" "dyns t ! di = None"
  shows "\<exists>t'. reuse_dyn di buf t = (Inr (Some (of_nat (dyn_start t + di))), t') \<and> str_ok t' \<and>
    str_abs t (dyn_start t + di) = None \<and> str_abs t' = (str_abs t)(dyn_start t + di \<mapsto> stored buf) \<and>
    dyn_start t' = dyn_start t"
proof -
  note len = str_ok_len [OF ok]
  have i: "unat (of_nat (dyn_start t + di) :: u16) = dyn_start t + di"
    using di len by (intro unat_of_nat16) (simp add: REF_TOP_def)
  obtain cs where cs: "cs_update (dyn_bufs t) di (Some buf) = Some cs" "cs_ok cs"
    "cs_iter cs = (dyns t)[di := Some buf]"
    using cs_update_iter [OF str_ok_cs [OF ok], of di "Some buf"] di len by auto
  have e: "dyn_entry_ok (Some buf) di (BufPtr di) (of_nat (length (items buf)))"
    by (simp add: dyn_entry_ok_def)
  have swap: "t\<lparr>ptrs := a, lens := b, dyn_bufs := c\<rparr> = t\<lparr>dyn_bufs := c, ptrs := a, lens := b\<rparr>" for a b c
    by simp
  from slot_change [OF ok di(1) cs(2,3) refl e] entry_dyn [OF ok di(1)] di
  show ?thesis
    using cs(1) len unfolding reuse_dyn_def Let_def i swap by simp
qed

lemma st_events [simp]:
  "str_ok (t\<lparr>st_alloc_events := e\<rparr>) = str_ok t" "str_abs (t\<lparr>st_alloc_events := e\<rparr>) = str_abs t"
  using table_cong [of "t\<lparr>st_alloc_events := e\<rparr>" t] by (simp_all add: str_ok_def)

text \<open>The reference an allocation returns is new, and nothing else changed.\<close>

definition added :: "string_table \<Rightarrow> u16 \<Rightarrow> u8 list \<Rightarrow> string_table \<Rightarrow> bool" where
  "added t i s t' \<longleftrightarrow> str_abs t (unat i) = None \<and>
     str_abs t' = (str_abs t)(unat i \<mapsto> take (length s mod 65536) s)"

lemma intern_dyn_owned_law:
  assumes ok: "str_ok t"
  shows "case intern_dyn_owned al buf t of
      (Inr (Some i), t') \<Rightarrow> str_ok t' \<and> added t i (items buf) t'
    | (Inr None, t') \<Rightarrow> str_ok t' \<and> str_abs t' = str_abs t
    | (Inl _, _) \<Rightarrow> False"
proof -
  let ?t = "t\<lparr>st_alloc_events := saturating_inc16 (st_alloc_events t)\<rparr>"
  have ok0: "str_ok ?t" using ok by simp
  show ?thesis
  proof (cases "position (\<lambda>s. s = None) (dyns ?t)")
    case (Some di)
    then have di: "di < length (dyns ?t)" "dyns ?t ! di = None" by (auto dest: position_Some)
    have u: "unat (of_nat (dyn_start ?t + di) :: u16) = dyn_start ?t + di"
      using di str_ok_len [OF ok0] by (intro unat_of_nat16) (simp add: REF_TOP_def)
    show ?thesis
      using reuse_dyn_law [OF ok0 di, of buf] Some u
      by (auto simp: intern_dyn_owned_def Let_def added_def stored_def)
  next
    case None
    obtain r t1 where room: "st_room al ?t = (r, t1)" by fastforce
    note law = st_room_law [OF ok0, of al, unfolded room prod.case]
    show ?thesis
    proof (cases r)
      case False
      then show ?thesis using room None law by (simp add: intern_dyn_owned_def Let_def)
    next
      case True
      obtain r2 cs where p: "cs_try_push (al ChunkBuf) (Some buf) (dyn_bufs t1) = (r2, cs)" by fastforce
      have ok1: "str_ok t1" using law by blast
      show ?thesis
      proof (cases r2)
        case None
        then have "cs = dyn_bufs t1" using p cs_try_push_None by blast
        then have "t1\<lparr>dyn_bufs := cs\<rparr> = t1" by simp
        then show ?thesis
          using \<open>position _ _ = None\<close> room True None p law by (simp add: intern_dyn_owned_def Let_def)
      next
        case (Some di)
        have pp: "cs_ok cs" "di = length (dyns t1)" "cs_iter cs = dyns t1 @ [Some buf]"
          using cs_try_push_Some [OF str_ok_cs [OF ok1] p [unfolded Some]] str_ok_len [OF ok1] by auto
        have fl: "length (items (ptrs t1)) < lit_floor t1" using law True by simp
        note sa = slot_append [OF ok1 fl pp(1,3) refl]
        have u: "unat (of_nat (length (items (ptrs t1))) :: u16) = length (items (ptrs t1))"
          using ok1 fl by (intro unat_of_nat16) (simp add: str_ok_def REF_TOP_def)
        have "str_abs t (length (items (ptrs t1))) = None" using law by (simp add: str_abs_def)
        then show ?thesis
          using \<open>position _ _ = None\<close> room True Some p pp sa u law
          by (simp add: intern_dyn_owned_def Let_def added_def stored_def)
      qed
    qed
  qed
qed

lemma intern_dyn_law:
  assumes ok: "str_ok t"
  shows "case intern_dyn al s t of
      (Inr (Some i), t') \<Rightarrow> str_ok t' \<and> added t i s t'
    | (Inr None, t') \<Rightarrow> str_ok t' \<and> str_abs t' = str_abs t
    | (Inl _, _) \<Rightarrow> False"
proof (cases "vec_reserve_exact (al U8Buf) 0 0 (length s)")
  case None
  then show ?thesis using ok by (simp add: intern_dyn_def)
next
  case (Some c)
  have e: "items \<lparr>items = s, vcap = c\<rparr> = s" by simp
  show ?thesis
    using intern_dyn_owned_law [OF ok, where al = al and buf = "\<lparr>items = s, vcap = c\<rparr>", unfolded e] Some
    by (simp add: intern_dyn_def)
qed

text \<open>The search finds the content wherever it is.\<close>

lemma search_law:
  assumes ok: "str_ok t"
  shows "\<exists>a b. find_entry t s [0..<dyn_start t] = Some a \<and>
      find_entry t s (map (\<lambda>di. dyn_start t + di) (live_dyn t)) = Some b \<and>
      (a = None \<and> b = None \<longleftrightarrow> s \<notin> ran (str_abs t)) \<and>
      (\<forall>i. a = Some i \<or> b = Some i \<longrightarrow> str_abs t i = Some s)"
proof -
  note live = live_entries [OF ok]
  let ?a = "find (\<lambda>i. str_abs t i = Some s) [0..<dyn_start t]"
  let ?b = "find (\<lambda>i. str_abs t i = Some s) (map (\<lambda>di. dyn_start t + di) (live_dyn t))"
  have mem: "i \<in> dom (str_abs t) \<longleftrightarrow> i \<in> set [0..<dyn_start t] \<or> i \<in> set (map (\<lambda>di. dyn_start t + di) (live_dyn t))"
    for i using live(1) by (metis Un_iff set_append)
  have fa: "find_entry t s [0..<dyn_start t] = Some ?a"
    by (rule find_entry_law) (use live(2) mem in blast)
  have fb: "find_entry t s (map (\<lambda>di. dyn_start t + di) (live_dyn t)) = Some ?b"
    by (rule find_entry_law) (use live(2) mem in blast)
  have none: "?a = None \<and> ?b = None \<longleftrightarrow> s \<notin> ran (str_abs t)"
    unfolding find_None_iff ran_def using mem by (auto simp: domI)
  have some: "str_abs t i = Some s" if "?a = Some i \<or> ?b = Some i" for i
    using that by (auto simp: find_Some_iff)
  show ?thesis using fa fb none some by blast
qed

lemma intern_law:
  assumes ok: "str_ok t"
  shows "case intern al s t of
      (Inr (Some i), t') \<Rightarrow> str_ok t' \<and>
        (if s \<in> ran (str_abs t) then t' = t \<and> str_abs t (unat i) = Some s else added t i s t')
    | (Inr None, t') \<Rightarrow> str_ok t' \<and> str_abs t' = str_abs t \<and> s \<notin> ran (str_abs t)
    | (Inl _, _) \<Rightarrow> False"
proof -
  obtain a b where ab: "find_entry t s [0..<dyn_start t] = Some a"
    "find_entry t s (map (\<lambda>di. dyn_start t + di) (live_dyn t)) = Some b"
    "a = None \<and> b = None \<longleftrightarrow> s \<notin> ran (str_abs t)"
    "\<And>i. a = Some i \<or> b = Some i \<Longrightarrow> str_abs t i = Some s"
    using search_law [OF ok, of s] by blast
  have index: "unat (of_nat i :: u16) = i" if "str_abs t i = Some s" for i
    using that str_ok_len [OF ok] by (intro unat_of_nat16) (auto simp: str_abs_def REF_TOP_def split: if_splits)
  show ?thesis
  proof (cases a)
    case (Some i)
    then show ?thesis using ab index [of i] ok by (auto simp: intern_def)
  next
    case a: None
    show ?thesis
    proof (cases b)
      case (Some i)
      then show ?thesis using a ab index [of i] ok by (auto simp: intern_def)
    next
      case b: None
      have new: "s \<notin> ran (str_abs t)" using ab(3) a b by blast
      show ?thesis
      proof (cases "0 < cs_len (dyn_bufs t)")
        case True
        then show ?thesis
          using a b ab(1,2) new intern_dyn_law [OF ok, where al = al and s = s]
          by (auto simp: intern_def split: sum.splits option.splits prod.splits)
      next
        case False
        obtain r t1 where room: "st_room al t = (r, t1)" by fastforce
        note law = st_room_law [OF ok, of al, unfolded room prod.case]
        have none: "dyns t1 = []" using False law str_ok_len [OF ok] by simp
        show ?thesis
        proof (cases r)
          case False
          then show ?thesis using a b ab(1,2) new \<open>\<not> 0 < _\<close> room law by (simp add: intern_def)
        next
          case True
          have ok1: "str_ok t1" and fl: "length (items (ptrs t1)) < lit_floor t1" using law True by auto
          have u: "unat (of_nat (length (items (ptrs t1))) :: u16) = length (items (ptrs t1))"
            using ok1 fl by (intro unat_of_nat16) (simp add: str_ok_def REF_TOP_def)
          have "str_abs t (length (items (ptrs t1))) = None" using law by (simp add: str_abs_def)
          then show ?thesis
            using static_append [OF ok1 fl none refl, of s] a b ab(1,2) new \<open>\<not> 0 < _\<close> room law True u
            by (simp add: intern_def added_def)
        qed
      qed
    qed
  qed
qed

lemma free_dyn_law:
  assumes ok: "str_ok t"
  shows "\<exists>t'. free_dyn idx t = (Inr (), t') \<and> str_ok t' \<and>
    str_abs t' = (if unat idx < dyn_start t then str_abs t else (str_abs t)(unat idx := None))"
proof (cases "unat idx < dyn_start t \<or> length (items (ptrs t)) \<le> unat idx")
  case True
  moreover have "(str_abs t)(unat idx := None) = str_abs t" if "length (items (ptrs t)) \<le> unat idx"
    using that by (auto simp: str_abs_def fun_eq_iff)
  ultimately show ?thesis using ok by (auto simp: free_dyn_def Let_def)
next
  case False
  note len = str_ok_len [OF ok]
  define di where "di = unat idx - dyn_start t"
  have i: "unat idx = dyn_start t + di" "di < length (dyns t)" using False len by (auto simp: di_def)
  obtain cs where cs: "cs_update (dyn_bufs t) di None = Some cs" "cs_ok cs" "cs_iter cs = (dyns t)[di := None]"
    using cs_update_iter [OF str_ok_cs [OF ok], of di None] i len by auto
  have "dyn_entry_ok None di NullPtr 0" by (simp add: dyn_entry_ok_def)
  from slot_change [OF ok i(2) cs(2,3) refl this] show ?thesis
    using cs(1) False len i unfolding free_dyn_def Let_def di_def [symmetric] by simp
qed

lemma set_literal_pools_law:
  "str_ok t \<Longrightarrow> str_ok (set_literal_pools fw app t) \<and> str_abs (set_literal_pools fw app t) = str_abs t"
  using table_cong [of "set_literal_pools fw app t" t] by (auto simp: set_literal_pools_def Let_def str_ok_def)

lemma resolve_law:
  assumes ok: "str_ok t"
  shows "resolve t idx = Inr (if lit_floor t \<le> unat idx then resolve_literal t idx
    else Option.bind (str_abs t (unat idx)) from_utf8)"
proof (cases "lit_floor t \<le> unat idx \<or> length (items (ptrs t)) \<le> unat idx \<or> items (ptrs t) ! unat idx = NullPtr")
  case True
  then show ?thesis by (auto simp: resolve_def Let_def str_abs_def)
next
  case False
  then have "unat idx < length (items (ptrs t))" by simp
  from entry_reads [OF ok this] False show ?thesis
    by (auto simp: resolve_def Let_def str_abs_def)
qed

lemmas table_eval = intern_dyn_def intern_dyn_owned_def st_new_def cs_new_def cs_iter_def st_room_def
  vec_room_def vec_new_def reserve_fallible_def vec_reserve_def vec_reserve_exact_def REF_TOP_def Let_def
  cs_try_push_def split_index_def chunk_size_def

section \<open>The integrity sweep\<close>

lemma str_check_from_exact:
  assumes ok: "str_ok t"
  shows "di + length rest = length (dyns t) \<Longrightarrow> rest = drop di (dyns t) \<Longrightarrow>
    (str_check_from t di rest \<noteq> None \<longleftrightarrow> (\<exists>b. Some b \<in> set rest \<and> 65536 \<le> length (items b)))"
proof (induction rest arbitrary: di)
  case Nil
  then show ?case by simp
next
  case (Cons s rest)
  note len = str_ok_len [OF ok]
  have di: "di < length (dyns t)" using Cons.prems(1) by simp
  have s: "s = dyns t ! di" "rest = drop (di + 1) (dyns t)"
    using Cons.prems(2) di by (metis Cons_nth_drop_Suc list.inject Suc_eq_plus1)+
  have e: "dyn_entry_ok s di (items (ptrs t) ! (dyn_start t + di)) (items (lens t) ! (dyn_start t + di))"
    using ok di s unfolding str_ok_def by blast
  have IH: "str_check_from t (di + 1) rest \<noteq> None \<longleftrightarrow> (\<exists>b. Some b \<in> set rest \<and> 65536 \<le> length (items b))"
    using Cons.IH [of "di + 1"] Cons.prems(1) s by simp
  have in_range: "\<not> length (items (ptrs t)) \<le> dyn_start t + di" using di len by simp
  have wrap: "n mod 65536 = n \<longleftrightarrow> n < 65536" for n :: nat by (metis mod_less mod_less_divisor zero_less_numeral)
  show ?case
  proof (cases s)
    case None
    then show ?thesis using e IH in_range by (simp add: dyn_entry_ok_def)
  next
    case (Some b)
    then show ?thesis
      using e IH in_range wrap [of "length (items b)"]
      by (auto simp: dyn_entry_ok_def unat_of_nat)
  qed
qed

section \<open>Reachable tables\<close>

text \<open>
  One call of the table's interface. \<open>intern\<close> is called with names of the class files,
  whose lengths the format keeps in sixteen bits; the dynamic calls take any buffer.
\<close>

inductive str_step :: "string_table \<Rightarrow> string_table \<Rightarrow> bool" where
  interns: "intern al s t = (r, t') \<Longrightarrow> str_step t t'"
| interns_dyn: "intern_dyn al s t = (r, t') \<Longrightarrow> str_step t t'"
| interns_owned: "intern_dyn_owned al buf t = (r, t') \<Longrightarrow> str_step t t'"
| frees: "free_dyn idx t = (r, t') \<Longrightarrow> str_step t t'"
| takes_events: "st_take_alloc_events t = (n, t') \<Longrightarrow> str_step t t'"
| sets_pools: "str_step t (set_literal_pools fw app t)"

lemma action_ok:
  assumes "case p of (Inr (Some i), t') \<Rightarrow> str_ok t' \<and> P i t' | (Inr None, t') \<Rightarrow> str_ok t' \<and> Q t' | (Inl e, _) \<Rightarrow> False"
  shows "str_ok (snd p) \<and> (\<nexists>e. fst p = Inl e)"
  using assms by (auto split: prod.splits sum.splits option.splits)

lemma interning_ok:
  assumes "str_ok t"
  shows "str_ok (snd (intern al s t))" "\<nexists>e. fst (intern al s t) = Inl e"
    "str_ok (snd (intern_dyn al s t))" "\<nexists>e. fst (intern_dyn al s t) = Inl e"
    "str_ok (snd (intern_dyn_owned al buf t))" "\<nexists>e. fst (intern_dyn_owned al buf t) = Inl e"
  using action_ok [OF intern_law [OF assms, where al = al and s = s]]
    action_ok [OF intern_dyn_law [OF assms, where al = al and s = s]]
    action_ok [OF intern_dyn_owned_law [OF assms, where al = al and buf = buf]] by auto

lemma str_step_ok: "str_step t t' \<Longrightarrow> str_ok t \<Longrightarrow> str_ok t'"
proof (induction rule: str_step.induct)
  case (interns al s t r t')
  then show ?case using interning_ok(1) [where t = t and al = al and s = s] by simp
next
  case (interns_dyn al s t r t')
  then show ?case using interning_ok(3) [where t = t and al = al and s = s] by simp
next
  case (interns_owned al buf t r t')
  then show ?case using interning_ok(5) [where t = t and al = al and buf = buf] by simp
next
  case (frees idx t r t')
  then show ?case using free_dyn_law [where t = t and idx = idx] by auto
next
  case (takes_events t n t')
  then show ?case using st_events(1) [where t = t and e = 0] by (auto simp: st_take_alloc_events_def)
next
  case (sets_pools t fw app)
  then show ?case using set_literal_pools_law by blast
qed

lemma str_reach_ok: "str_step\<^sup>*\<^sup>* (st_new shift) t \<Longrightarrow> str_ok t"
  by (induction rule: rtranclp_induct) (auto intro: st_new_ok str_step_ok)

section \<open>Properties\<close>

text \<open>
  C23: no call of the string table ever reads through a dangling pointer or indexes past a table:
  in every table its interface can reach, resolving any reference, interning any bytes and
  freeing any reference return without undefined behaviour or a panic.
\<close>

theorem string_table_safe:
  assumes "str_step\<^sup>*\<^sup>* (st_new shift) t"
  shows "(\<exists>r. resolve t idx = Inr r) \<and> (\<exists>r. content_eq t a b = Inr r) \<and>
    (\<exists>r t'. intern al s t = (Inr r, t')) \<and> (\<exists>r t'. intern_dyn_owned al buf t = (Inr r, t')) \<and>
    (\<exists>t'. free_dyn idx t = (Inr (), t'))"
proof -
  have ok: "str_ok t" using assms by (rule str_reach_ok)
  have res: "\<exists>r. resolve t i = Inr r" for i using resolve_law [OF ok, of i] by blast
  then have "\<exists>r. content_eq t a b = Inr r"
  proof -
    obtain x y where "resolve t a = Inr x" "resolve t b = Inr y" using res by blast
    then show ?thesis by (cases x; cases "a = b") (auto simp: content_eq_def)
  qed
  moreover have "\<exists>r t'. intern al s t = (Inr r, t')"
    using interning_ok(2) [OF ok, where al = al and s = s] by (metis prod.collapse sum.exhaust)
  moreover have "\<exists>r t'. intern_dyn_owned al buf t = (Inr r, t')"
    using interning_ok(6) [OF ok, where al = al and buf = buf] by (metis prod.collapse sum.exhaust)
  ultimately show ?thesis using res free_dyn_law [OF ok, where idx = idx] by blast
qed

theorem string_table_safe_witness:
  "\<exists>r. content_eq (snd (intern (\<lambda>_ _. True) [104, 105] (st_new 0))) 0 7 = Inr r"
proof -
  have "str_step (st_new 0) (snd (intern (\<lambda>_ _. True) [104, 105] (st_new 0)))"
    by (rule interns) (rule prod.collapse [symmetric])
  from string_table_safe [OF r_into_rtranclp [of str_step, OF this], of _ 0 7] show ?thesis by blast
qed



text \<open>
  A string made at run time reads back as the bytes it was made from, cut at the length
  modulo 65536: the table keeps lengths in sixteen bits, so a string of 65536 bytes reads back
  empty. Its reference named no string before and no other reference changes.
\<close>

theorem intern_dyn_reads_back:
  assumes "str_ok t" and "intern_dyn al s t = (Inr (Some i), t')" and "unat i < lit_floor t'"
  shows "resolve t' i = Inr (from_utf8 (take (length s mod 65536) s)) \<and> str_abs t (unat i) = None \<and>
    (\<forall>j. j \<noteq> unat i \<longrightarrow> str_abs t' j = str_abs t j)"
  using intern_dyn_law [OF assms(1), where al = al and s = s] resolve_law [of t' i] assms
  by (simp add: added_def)

text \<open>The table of a fresh heap that was given one string of 65536 bytes.\<close>

definition long_string_table :: string_table where
  "long_string_table = snd (intern_dyn (\<lambda>_ _. True) (replicate 65536 120) (st_new 0))"

lemma long_string_table_interned:
  "intern_dyn (\<lambda>_ _. True) (replicate 65536 120) (st_new 0) = (Inr (Some 0), long_string_table)"
  "lit_floor long_string_table = REF_TOP"
  by (simp_all add: long_string_table_def table_eval)

theorem intern_dyn_reads_back_witness:
  "resolve long_string_table 0 = Inr (Some [])"
  using intern_dyn_reads_back [OF st_new_ok long_string_table_interned(1)] long_string_table_interned(2)
  by (simp add: REF_TOP_def from_utf8_def)

text \<open>
  Freeing a dynamic string makes its reference name nothing and leaves every other
  reference, static or dynamic, with the bytes it had; a static reference cannot be freed.
\<close>

theorem free_dyn_frees:
  assumes "str_ok t"
  shows "\<exists>t'. free_dyn idx t = (Inr (), t') \<and> str_ok t' \<and>
    str_abs t' = (if unat idx < dyn_start t then str_abs t else (str_abs t)(unat idx := None))"
  using assms by (rule free_dyn_law)

theorem free_dyn_frees_witness:
  "\<exists>t. free_dyn 0 long_string_table = (Inr (), t) \<and> str_abs t 0 = None"
proof -
  have "str_ok long_string_table"
    using interning_ok(3) [OF st_new_ok] by (simp add: long_string_table_def)
  moreover have "dyn_start long_string_table = 0" by (simp add: long_string_table_def table_eval)
  ultimately show ?thesis using free_dyn_frees [of long_string_table 0] by auto
qed

text \<open>
  the offensive-mode sweep is exact on the tables the interface builds: it complains of
  one if and only if it holds a dynamic string of 65536 bytes or more, the only entries whose
  recorded length is not the length of their buffer.
\<close>

theorem str_integrity_exact:
  assumes "str_ok t"
  shows "str_integrity_check t = None \<longleftrightarrow>
    (\<forall>b. Some b \<in> set (cs_iter (dyn_bufs t)) \<longrightarrow> length (items b) < 65536)"
  using str_check_from_exact [OF assms, of 0 "dyns t"] cs_ok_invariant [OF str_ok_cs [OF assms]]
  by (auto simp: str_integrity_check_def not_le)

theorem str_integrity_exact_witness: "str_integrity_check long_string_table \<noteq> None"
proof -
  have ok: "str_ok long_string_table"
    using interning_ok(3) [OF st_new_ok] by (simp add: long_string_table_def)
  have "\<exists>b. Some b \<in> set (cs_iter (dyn_bufs long_string_table)) \<and> \<not> length (items b) < 65536"
    by (simp add: long_string_table_def table_eval)
  with str_integrity_exact [OF ok] show ?thesis by blast
qed

end
