(* ===== verification/Floats.thy ===== *)
theory Floats
  imports Prelude
begin

text \<open>
  The floating-point arithmetic of the Rust language, which \<open>f32\<close> and \<open>f64\<close>
  operators and casts mean: IEEE 754 binary formats, round to nearest with ties to even. A format
  has \<open>m\<close> stored significand bits and \<open>e\<close> exponent bits, a value is its bit pattern. A
  finite value is a sign and a magnitude counted in units of the smallest subnormal, so every
  operation is exact arithmetic on natural numbers followed by one rounding. Rust leaves the
  payload of a NaN result open; here it is the canonical quiet NaN.
\<close>

section \<open>Formats\<close>

datatype fp = FNaN | FInf bool | FFin bool nat

definition fp_decode :: "nat \<Rightarrow> nat \<Rightarrow> nat \<Rightarrow> fp" where
  "fp_decode m e bits =
     (let s = odd (bits div 2 ^ (m + e)); ex = bits div 2 ^ m mod 2 ^ e; mant = bits mod 2 ^ m
      in if ex = 2 ^ e - 1 then (if mant = 0 then FInf s else FNaN)
         else FFin s (if ex = 0 then mant else (2 ^ m + mant) * 2 ^ (ex - 1)))"

text \<open>One is \<open>2 ^ fp_unit\<close> units.\<close>

definition fp_unit :: "nat \<Rightarrow> nat \<Rightarrow> nat" where
  "fp_unit m e = 2 ^ (e - 1) + m - 2"

function bitlen :: "nat \<Rightarrow> nat" where
  "bitlen n = (if n = 0 then 0 else Suc (bitlen (n div 2)))"
  by pat_completeness auto
termination by (relation "measure id") auto

declare bitlen.simps [simp del]

definition round_half_even :: "nat \<Rightarrow> nat \<Rightarrow> nat" where
  "round_half_even n d =
     (let q = n div d; r = n mod d
      in if 2 * r < d then q else if d < 2 * r then q + 1 else if even q then q else q + 1)"

text \<open>The magnitude bits of \<open>n / d\<close> units: exponent and significand in one number.\<close>

definition round_mag :: "nat \<Rightarrow> nat \<Rightarrow> nat \<Rightarrow> nat \<Rightarrow> nat" where
  "round_mag m e n d =
     (let k = bitlen (n div d) - (m + 1)
      in min ((2 ^ e - 1) * 2 ^ m) (k * 2 ^ m + round_half_even n (d * 2 ^ k)))"

definition with_sign_bit :: "nat \<Rightarrow> nat \<Rightarrow> bool \<Rightarrow> nat \<Rightarrow> nat" where
  "with_sign_bit m e s mag = (if s then 2 ^ (m + e) else 0) + mag"

definition fp_inf :: "nat \<Rightarrow> nat \<Rightarrow> bool \<Rightarrow> nat" where
  "fp_inf m e s = with_sign_bit m e s ((2 ^ e - 1) * 2 ^ m)"

definition fp_nan :: "nat \<Rightarrow> nat \<Rightarrow> nat" where
  "fp_nan m e = (2 ^ e - 1) * 2 ^ m + 2 ^ (m - 1)"

section \<open>Arithmetic\<close>

definition signed_mag :: "bool \<Rightarrow> nat \<Rightarrow> int" where
  "signed_mag s x = (if s then - int x else int x)"

definition fp_add :: "nat \<Rightarrow> nat \<Rightarrow> nat \<Rightarrow> nat \<Rightarrow> nat" where
  "fp_add m e a b =
     (case (fp_decode m e a, fp_decode m e b) of
        (FNaN, _) \<Rightarrow> fp_nan m e
      | (_, FNaN) \<Rightarrow> fp_nan m e
      | (FInf s, FInf t) \<Rightarrow> if s = t then fp_inf m e s else fp_nan m e
      | (FInf s, FFin _ _) \<Rightarrow> fp_inf m e s
      | (FFin _ _, FInf t) \<Rightarrow> fp_inf m e t
      | (FFin s x, FFin t y) \<Rightarrow>
          let v = signed_mag s x + signed_mag t y
          in if v = 0 then with_sign_bit m e (s \<and> t) 0
             else with_sign_bit m e (v < 0) (round_mag m e (nat \<bar>v\<bar>) 1))"

definition fp_neg :: "nat \<Rightarrow> nat \<Rightarrow> nat \<Rightarrow> nat" where
  "fp_neg m e a = (if odd (a div 2 ^ (m + e)) then a - 2 ^ (m + e) else a + 2 ^ (m + e))"

definition fp_mul :: "nat \<Rightarrow> nat \<Rightarrow> nat \<Rightarrow> nat \<Rightarrow> nat" where
  "fp_mul m e a b =
     (case (fp_decode m e a, fp_decode m e b) of
        (FNaN, _) \<Rightarrow> fp_nan m e
      | (_, FNaN) \<Rightarrow> fp_nan m e
      | (FInf s, FInf t) \<Rightarrow> fp_inf m e (s \<noteq> t)
      | (FInf s, FFin t y) \<Rightarrow> if y = 0 then fp_nan m e else fp_inf m e (s \<noteq> t)
      | (FFin s x, FInf t) \<Rightarrow> if x = 0 then fp_nan m e else fp_inf m e (s \<noteq> t)
      | (FFin s x, FFin t y) \<Rightarrow> with_sign_bit m e (s \<noteq> t) (round_mag m e (x * y) (2 ^ fp_unit m e)))"

definition fp_div :: "nat \<Rightarrow> nat \<Rightarrow> nat \<Rightarrow> nat \<Rightarrow> nat" where
  "fp_div m e a b =
     (case (fp_decode m e a, fp_decode m e b) of
        (FNaN, _) \<Rightarrow> fp_nan m e
      | (_, FNaN) \<Rightarrow> fp_nan m e
      | (FInf s, FInf t) \<Rightarrow> fp_nan m e
      | (FInf s, FFin t y) \<Rightarrow> fp_inf m e (s \<noteq> t)
      | (FFin s x, FInf t) \<Rightarrow> with_sign_bit m e (s \<noteq> t) 0
      | (FFin s x, FFin t y) \<Rightarrow>
          if y = 0 then (if x = 0 then fp_nan m e else fp_inf m e (s \<noteq> t))
          else with_sign_bit m e (s \<noteq> t) (round_mag m e (x * 2 ^ fp_unit m e) y))"

text \<open>Comparison through an integer that orders the values, infinities outermost.\<close>

definition fp_rank :: "nat \<Rightarrow> nat \<Rightarrow> nat \<Rightarrow> int option" where
  "fp_rank m e a =
     (case fp_decode m e a of
        FNaN \<Rightarrow> None
      | FInf s \<Rightarrow> Some (signed_mag s (2 ^ (2 ^ e + m)))
      | FFin s x \<Rightarrow> Some (signed_mag s x))"

definition fp_is_nan :: "nat \<Rightarrow> nat \<Rightarrow> nat \<Rightarrow> bool" where
  "fp_is_nan m e a \<longleftrightarrow> fp_rank m e a = None"

definition fp_less :: "nat \<Rightarrow> nat \<Rightarrow> nat \<Rightarrow> nat \<Rightarrow> bool" where
  "fp_less m e a b \<longleftrightarrow> (case (fp_rank m e a, fp_rank m e b) of (Some x, Some y) \<Rightarrow> x < y | _ \<Rightarrow> False)"

definition fp_eq :: "nat \<Rightarrow> nat \<Rightarrow> nat \<Rightarrow> nat \<Rightarrow> bool" where
  "fp_eq m e a b \<longleftrightarrow> (case (fp_rank m e a, fp_rank m e b) of (Some x, Some y) \<Rightarrow> x = y | _ \<Rightarrow> False)"

section \<open>Conversions\<close>

definition fp_of_int :: "nat \<Rightarrow> nat \<Rightarrow> int \<Rightarrow> nat" where
  "fp_of_int m e v = with_sign_bit m e (v < 0) (round_mag m e (nat \<bar>v\<bar> * 2 ^ fp_unit m e) 1)"

definition fp_convert :: "nat \<Rightarrow> nat \<Rightarrow> nat \<Rightarrow> nat \<Rightarrow> nat \<Rightarrow> nat" where
  "fp_convert m e m' e' a =
     (case fp_decode m e a of
        FNaN \<Rightarrow> fp_nan m' e'
      | FInf s \<Rightarrow> fp_inf m' e' s
      | FFin s x \<Rightarrow> with_sign_bit m' e' s (round_mag m' e' (x * 2 ^ fp_unit m' e') (2 ^ fp_unit m e)))"

text \<open>\<open>as i32\<close> and \<open>as i64\<close>: truncation, saturation, and zero for a NaN.\<close>

definition clamp :: "nat \<Rightarrow> int \<Rightarrow> int" where
  "clamp w v = max (- (2 ^ (w - 1))) (min (2 ^ (w - 1) - 1) v)"

definition fp_to_int :: "nat \<Rightarrow> nat \<Rightarrow> nat \<Rightarrow> nat \<Rightarrow> int" where
  "fp_to_int m e w a =
     (case fp_decode m e a of
        FNaN \<Rightarrow> 0
      | FInf s \<Rightarrow> if s then - (2 ^ (w - 1)) else 2 ^ (w - 1) - 1
      | FFin s x \<Rightarrow> clamp w (signed_mag s (x div 2 ^ fp_unit m e)))"

section \<open>The two formats\<close>

definition f32_add :: "f32 \<Rightarrow> f32 \<Rightarrow> f32" where "f32_add a b = of_nat (fp_add 23 8 (unat a) (unat b))"
definition f32_neg :: "f32 \<Rightarrow> f32" where "f32_neg a = of_nat (fp_neg 23 8 (unat a))"
definition f32_sub :: "f32 \<Rightarrow> f32 \<Rightarrow> f32" where "f32_sub a b = f32_add a (f32_neg b)"
definition f32_mul :: "f32 \<Rightarrow> f32 \<Rightarrow> f32" where "f32_mul a b = of_nat (fp_mul 23 8 (unat a) (unat b))"
definition f32_div :: "f32 \<Rightarrow> f32 \<Rightarrow> f32" where "f32_div a b = of_nat (fp_div 23 8 (unat a) (unat b))"
definition f32_less :: "f32 \<Rightarrow> f32 \<Rightarrow> bool" where "f32_less a b \<longleftrightarrow> fp_less 23 8 (unat a) (unat b)"
definition f32_eq :: "f32 \<Rightarrow> f32 \<Rightarrow> bool" where "f32_eq a b \<longleftrightarrow> fp_eq 23 8 (unat a) (unat b)"
definition f32_of_int :: "int \<Rightarrow> f32" where "f32_of_int v = of_nat (fp_of_int 23 8 v)"

definition f64_add :: "f64 \<Rightarrow> f64 \<Rightarrow> f64" where "f64_add a b = of_nat (fp_add 52 11 (unat a) (unat b))"
definition f64_neg :: "f64 \<Rightarrow> f64" where "f64_neg a = of_nat (fp_neg 52 11 (unat a))"
definition f64_sub :: "f64 \<Rightarrow> f64 \<Rightarrow> f64" where "f64_sub a b = f64_add a (f64_neg b)"
definition f64_mul :: "f64 \<Rightarrow> f64 \<Rightarrow> f64" where "f64_mul a b = of_nat (fp_mul 52 11 (unat a) (unat b))"
definition f64_div :: "f64 \<Rightarrow> f64 \<Rightarrow> f64" where "f64_div a b = of_nat (fp_div 52 11 (unat a) (unat b))"
definition f64_less :: "f64 \<Rightarrow> f64 \<Rightarrow> bool" where "f64_less a b \<longleftrightarrow> fp_less 52 11 (unat a) (unat b)"
definition f64_eq :: "f64 \<Rightarrow> f64 \<Rightarrow> bool" where "f64_eq a b \<longleftrightarrow> fp_eq 52 11 (unat a) (unat b)"
definition f64_of_int :: "int \<Rightarrow> f64" where "f64_of_int v = of_nat (fp_of_int 52 11 v)"

definition f32_to_f64 :: "f32 \<Rightarrow> f64" where "f32_to_f64 a = of_nat (fp_convert 23 8 52 11 (unat a))"
definition f64_to_f32 :: "f64 \<Rightarrow> f32" where "f64_to_f32 a = of_nat (fp_convert 52 11 23 8 (unat a))"
definition f32_to_i32 :: "f32 \<Rightarrow> i32" where "f32_to_i32 a = of_int (fp_to_int 23 8 32 (unat a))"
definition f32_to_i64 :: "f32 \<Rightarrow> i64" where "f32_to_i64 a = of_int (fp_to_int 23 8 64 (unat a))"
definition f64_to_i32 :: "f64 \<Rightarrow> i32" where "f64_to_i32 a = of_int (fp_to_int 52 11 32 (unat a))"
definition f64_to_i64 :: "f64 \<Rightarrow> i64" where "f64_to_i64 a = of_int (fp_to_int 52 11 64 (unat a))"

section \<open>Rounding is exact on representable values\<close>

lemma bitlen_0 [simp]: "bitlen 0 = 0"
  by (simp add: bitlen.simps)

lemma bitlen_bounds: "0 < n \<Longrightarrow> 2 ^ (bitlen n - 1) \<le> n \<and> n < 2 ^ bitlen n \<and> 0 < bitlen n"
proof (induction n rule: bitlen.induct)
  case (1 n)
  show ?case
  proof (cases "n div 2 = 0")
    case True
    then have "n = 1" using 1(2) by auto
    then show ?thesis by (simp add: bitlen.simps)
  next
    case False
    with 1 have IH: "2 ^ (bitlen (n div 2) - 1) \<le> n div 2" "n div 2 < 2 ^ bitlen (n div 2)" "0 < bitlen (n div 2)"
      by auto
    have len: "bitlen n = Suc (bitlen (n div 2))" using 1(2) by (simp add: bitlen.simps)
    obtain k where k: "bitlen (n div 2) = Suc k" using IH(3) by (cases "bitlen (n div 2)") auto
    have "2 * (n div 2) \<le> n" "n < 2 * (n div 2) + 2" by auto
    then show ?thesis using IH k len by auto
  qed
qed

lemma bitlen_le: "n < 2 ^ k \<Longrightarrow> bitlen n \<le> k"
proof (cases "n = 0")
  case False
  assume "n < 2 ^ k"
  with bitlen_bounds [of n] False have "(2::nat) ^ (bitlen n - 1) < 2 ^ k" by linarith
  then have "bitlen n - 1 < k" by (rule power_less_imp_less_exp [rotated]) simp
  with bitlen_bounds [of n] False show ?thesis by simp
qed simp

lemma bitlen_eq: "2 ^ k \<le> n \<Longrightarrow> n < 2 ^ Suc k \<Longrightarrow> bitlen n = Suc k"
proof -
  assume n: "2 ^ k \<le> n" "n < 2 ^ Suc k"
  then have "0 < n" using zero_less_power [of "2::nat" k] by linarith
  have "(2::nat) ^ k < 2 ^ bitlen n" using bitlen_bounds [OF \<open>0 < n\<close>] n(1) by linarith
  then have "k < bitlen n" by (rule power_less_imp_less_exp [rotated]) simp
  with bitlen_le [OF n(2)] show ?thesis by simp
qed

text \<open>
  A magnitude the format has: a significand of at most \<open>m + 1\<close> bits scaled by \<open>2 ^ k\<close>,
  normalised unless \<open>k = 0\<close>.
\<close>

definition representable :: "nat \<Rightarrow> nat \<Rightarrow> nat \<Rightarrow> nat \<Rightarrow> bool" where
  "representable m e q k \<longleftrightarrow> q < 2 ^ (m + 1) \<and> (k = 0 \<or> 2 ^ m \<le> q) \<and> k * 2 ^ m + q < (2 ^ e - 1) * 2 ^ m"

lemma round_mag_exact:
  assumes "representable m e q k" and "0 < d"
  shows "round_mag m e (q * 2 ^ k * d) d = k * 2 ^ m + q"
proof -
  have div: "q * 2 ^ k * d div d = q * 2 ^ k" using assms(2) by simp
  have len: "bitlen (q * 2 ^ k) - (m + 1) = k"
  proof (cases "k = 0")
    case True
    then show ?thesis using assms(1) bitlen_le [of q "m + 1"] by (simp add: representable_def)
  next
    case False
    then have q: "2 ^ m \<le> q" "q < 2 ^ Suc m" using assms(1) by (auto simp: representable_def)
    have "2 ^ (m + k) \<le> q * 2 ^ k" using q(1) by (simp add: power_add)
    moreover have "q * 2 ^ k < 2 ^ Suc (m + k)"
      using mult_strict_right_mono [OF q(2), of "2 ^ k"] by (simp add: power_add)
    ultimately have "bitlen (q * 2 ^ k) = Suc (m + k)" by (rule bitlen_eq)
    then show ?thesis by simp
  qed
  have "round_half_even (q * 2 ^ k * d) (d * 2 ^ k) = q"
    using assms(2) by (simp add: round_half_even_def Let_def mult.commute mult.left_commute)
  with assms(1) show ?thesis
    unfolding round_mag_def Let_def div len by (simp add: representable_def)
qed

lemma fp_bits_split:
  assumes a: "a < 2 ^ (m + e + 1)"
  shows "a = with_sign_bit m e (odd (a div 2 ^ (m + e))) (a div 2 ^ m mod 2 ^ e * 2 ^ m + a mod 2 ^ m)"
proof -
  define ex where "ex = a div 2 ^ m mod 2 ^ e"
  define mant where "mant = a mod 2 ^ m"
  define top where "top = a div 2 ^ (m + e)"
  have "a div 2 ^ m = 2 ^ e * (a div 2 ^ m div 2 ^ e) + ex" by (simp add: ex_def)
  also have "a div 2 ^ m div 2 ^ e = top" by (simp add: top_def power_add div_mult2_eq)
  finally have q: "a div 2 ^ m = 2 ^ e * top + ex" .
  have "a = 2 ^ m * (a div 2 ^ m) + mant" by (simp add: mant_def)
  then have parts: "a = 2 ^ m * (2 ^ e * top + ex) + mant" unfolding q .
  have "top < 2" using a by (simp add: top_def less_mult_imp_div_less power_add mult.commute)
  then consider "top = 0" | "top = 1" by linarith
  then have "a = with_sign_bit m e (odd top) (ex * 2 ^ m + mant)"
  proof cases
    case 1
    then show ?thesis using parts by (simp add: with_sign_bit_def mult.commute)
  next
    case 2
    then show ?thesis using parts by (simp add: with_sign_bit_def power_add algebra_simps)
  qed
  then show ?thesis by (simp add: ex_def mant_def top_def)
qed

text \<open>The parts of a decoded finite value.\<close>

lemma fp_decode_finite:
  assumes a: "a < 2 ^ (m + e + 1)" and f: "fp_decode m e a = FFin s x"
  obtains q k where "x = q * 2 ^ k" "representable m e q k" "a = with_sign_bit m e s (k * 2 ^ m + q)"
proof -
  define ex where "ex = a div 2 ^ m mod 2 ^ e"
  define mant where "mant = a mod 2 ^ m"
  have mant: "mant < 2 ^ m" by (simp add: mant_def)
  have f': "ex \<noteq> 2 ^ e - 1" "s = odd (a div 2 ^ (m + e))"
    "x = (if ex = 0 then mant else (2 ^ m + mant) * 2 ^ (ex - 1))"
    using f by (auto simp: fp_decode_def Let_def ex_def mant_def split: if_splits)
  have "ex < 2 ^ e" by (simp add: ex_def)
  with f'(1) have exlt: "ex < 2 ^ e - 1" by linarith
  have a': "a = with_sign_bit m e s (ex * 2 ^ m + mant)"
    using fp_bits_split [OF a] f'(2) by (simp add: ex_def mant_def)
  have room: "ex * 2 ^ m + mant < (2 ^ e - 1) * 2 ^ m"
  proof -
    have "ex * 2 ^ m + mant < (ex + 1) * 2 ^ m" using mant by simp
    also have "\<dots> \<le> (2 ^ e - 1) * 2 ^ m" using exlt by (intro mult_right_mono) auto
    finally show ?thesis .
  qed
  show thesis
  proof (cases "ex = 0")
    case True
    with f'(3) have "x = mant * 2 ^ 0" by simp
    with True a' room mant show thesis
      by (intro that [of mant 0]) (auto simp: representable_def)
  next
    case False
    then obtain j where j: "ex = Suc j" by (cases ex) auto
    with f'(3) have "x = (2 ^ m + mant) * 2 ^ j" by simp
    with j a' room mant show thesis
      by (intro that [of "2 ^ m + mant" j]) (auto simp: representable_def algebra_simps)
  qed
qed

lemma with_sign_bit_decode:
  assumes "representable m e q k" and "0 < e"
  shows "fp_decode m e (with_sign_bit m e s (k * 2 ^ m + q)) = FFin s (q * 2 ^ k)"
proof -
  let ?mag = "k * 2 ^ m + q"
  have mag: "?mag < (2 ^ e - 1) * 2 ^ m" using assms(1) by (simp add: representable_def)
  also have "\<dots> \<le> 2 ^ e * 2 ^ m" by (rule mult_right_mono) auto
  finally have mag2: "?mag < 2 ^ (m + e)" by (simp add: power_add mult.commute)
  have top: "odd (with_sign_bit m e s ?mag div 2 ^ (m + e)) = s"
  proof -
    have "with_sign_bit m e s ?mag div 2 ^ (m + e) = (if s then 1 else 0)"
      using mag2 by (cases s) (simp_all add: with_sign_bit_def div_add_self1)
    then show ?thesis by simp
  qed
  have low: "with_sign_bit m e s ?mag mod 2 ^ m = q mod 2 ^ m"
    by (simp add: with_sign_bit_def power_add)
  have "with_sign_bit m e s ?mag div 2 ^ m = (if s then 2 ^ e else 0) + (k + q div 2 ^ m)"
    by (simp add: with_sign_bit_def power_add)
  moreover have "k + q div 2 ^ m < 2 ^ e - 1"
  proof -
    have "(k + q div 2 ^ m) * 2 ^ m \<le> ?mag" by (simp add: algebra_simps)
    with mag have "(k + q div 2 ^ m) * 2 ^ m < (2 ^ e - 1) * 2 ^ m" by linarith
    then show ?thesis by simp
  qed
  ultimately have mid: "with_sign_bit m e s ?mag div 2 ^ m mod 2 ^ e = k + q div 2 ^ m" "k + q div 2 ^ m \<noteq> 2 ^ e - 1"
    by auto
  show ?thesis
  proof (cases "q < 2 ^ m")
    case True
    with assms(1) have "k = 0" by (auto simp: representable_def)
    moreover have "q div 2 ^ m = 0" "q mod 2 ^ m = q" using True by auto
    ultimately show ?thesis unfolding fp_decode_def Let_def top low mid using mid(2) by simp
  next
    case False
    then have q: "q div 2 ^ m = 1" "q mod 2 ^ m = q - 2 ^ m"
      using assms(1) by (auto simp: representable_def div_nat_eqI mod_if le_div_geq)
    show ?thesis
      unfolding fp_decode_def Let_def top low mid q using mid(2) [unfolded q] False by simp
  qed
qed

section \<open>Conversions that lose nothing\<close>

lemma word_of_bits32: "n < 2 ^ 32 \<Longrightarrow> unat (of_nat n :: 32 word) = n"
  by (simp add: unsigned_of_nat take_bit_nat_eq_self)

lemma word_of_bits64: "n < 2 ^ 64 \<Longrightarrow> unat (of_nat n :: 64 word) = n"
  by (simp add: unsigned_of_nat take_bit_nat_eq_self)

lemma sign_bit_room:
  assumes "representable m e q k"
  shows "with_sign_bit m e s (k * 2 ^ m + q) < 2 ^ (m + e + 1)"
proof -
  have "k * 2 ^ m + q < (2 ^ e - 1) * 2 ^ m" using assms by (simp add: representable_def)
  also have "\<dots> \<le> 2 ^ e * 2 ^ m" by (rule mult_right_mono) auto
  finally show ?thesis by (simp add: with_sign_bit_def power_add mult.commute)
qed

text \<open>
  A magnitude of the small format, normalised for the large one: \<open>2 ^ j\<close> is the ratio of the
  units.
\<close>

lemma representable_widened:
  assumes q: "q < 2 ^ (m + 1)" "0 < q" and m: "m \<le> M" and room: "M \<le> j"
    and big: "j + k + m + 2 \<le> 2 ^ e - 1 + M"
  shows "\<exists>q' k'. q * 2 ^ k * 2 ^ j = q' * 2 ^ k' \<and> representable M e q' k'"
proof -
  obtain b where b: "bitlen q = Suc b" using bitlen_bounds [OF q(2)] by (cases "bitlen q") auto
  have bq: "2 ^ b \<le> q" "q < 2 ^ Suc b" using bitlen_bounds [OF q(2)] b by auto
  have bm: "b \<le> m" using bitlen_le [OF q(1)] b by simp
  define t where "t = M - b"
  have t: "b + t = M" using bm m by (simp add: t_def)
  show ?thesis
  proof (cases "t \<le> j + k")
    case True
    have "q * 2 ^ k * 2 ^ j = q * 2 ^ t * 2 ^ (j + k - t)"
      using True by (simp add: mult.assoc flip: power_add)
    moreover have "representable M e (q * 2 ^ t) (j + k - t)"
    proof -
      have lo: "2 ^ M \<le> q * 2 ^ t" using bq(1) t by (metis mult_le_mono1 power_add)
      have hi: "q * 2 ^ t < 2 ^ (M + 1)"
      proof -
        have "q * 2 ^ t < 2 ^ Suc b * 2 ^ t" using bq(2) by (rule mult_strict_right_mono) simp
        also have "\<dots> = 2 ^ (M + 1)" using t by (simp flip: power_add power_Suc)
        finally show ?thesis .
      qed
      have "(j + k - t) * 2 ^ M + q * 2 ^ t < (j + k - t + 2) * 2 ^ M" using hi by simp
      also have "\<dots> \<le> (2 ^ e - 1) * 2 ^ M"
      proof (rule mult_right_mono)
        show "j + k - t + 2 \<le> 2 ^ e - 1" using big True bm t by linarith
      qed simp
      finally show ?thesis using lo hi by (simp add: representable_def)
    qed
    ultimately show ?thesis by blast
  next
    case False
    then have "j + k < t" by simp
    with room bm t have False by linarith
    then show ?thesis ..
  qed
qed

lemma fp_unit_values: "fp_unit 23 8 = 149" "fp_unit 52 11 = 1074"
  by (simp_all add: fp_unit_def)

lemma widen_magnitude:
  assumes "representable 23 8 q k"
  shows "\<exists>q' k'. q * 2 ^ k * 2 ^ 925 = q' * 2 ^ k' \<and> representable 52 11 q' k'"
proof (cases "q = 0")
  case True
  then have "q * 2 ^ k * 2 ^ 925 = 0 * 2 ^ 0 \<and> representable 52 11 0 0" by (simp add: representable_def)
  then show ?thesis by blast
next
  case False
  have "k < 255" 
  proof (rule ccontr)
    assume "\<not> k < 255"
    then have "255 * 2 ^ 23 \<le> k * (2 ^ 23 :: nat)" by simp
    with assms show False by (simp add: representable_def)
  qed
  then show ?thesis
    using representable_widened [of q 23 52 925 k 11] assms False by (simp add: representable_def)
qed

lemma widen_narrow:
  assumes "fp_decode 23 8 a \<noteq> FNaN" and a: "a < 2 ^ 32"
  shows "fp_convert 23 8 52 11 a < 2 ^ 64 \<and> fp_convert 52 11 23 8 (fp_convert 23 8 52 11 a) = a"
proof (cases "fp_decode 23 8 a")
  case FNaN
  with assms show ?thesis by simp
next
  case (FInf s)
  have "a = fp_inf 23 8 s"
    using fp_bits_split [of a 23 8] a FInf
    by (simp add: fp_decode_def Let_def fp_inf_def split: if_splits)
  moreover have "fp_decode 52 11 (fp_inf 52 11 s) = FInf s"
    by (cases s) (simp_all add: fp_decode_def fp_inf_def with_sign_bit_def Let_def)
  ultimately show ?thesis
    using FInf by (cases s) (simp_all add: fp_convert_def fp_inf_def with_sign_bit_def)
next
  case (FFin s x)
  obtain q k where x: "x = q * 2 ^ k" and r: "representable 23 8 q k" and
    bits: "a = with_sign_bit 23 8 s (k * 2 ^ 23 + q)"
    using fp_decode_finite [OF _ FFin] a by auto
  obtain q' k' where w: "q * 2 ^ k * 2 ^ 925 = q' * 2 ^ k'" and r': "representable 52 11 q' k'"
    using widen_magnitude [OF r] by blast
  have "x * 2 ^ 1074 = q' * 2 ^ k' * 2 ^ 149"
    unfolding x w [symmetric] by (simp flip: power_add add: mult.assoc)
  then have wide: "fp_convert 23 8 52 11 a = with_sign_bit 52 11 s (k' * 2 ^ 52 + q')"
    using round_mag_exact [OF r', of "2 ^ 149"]
    by (simp only: fp_convert_def fp_unit_values FFin fp.case zero_less_power zero_less_numeral)
  have "q' * 2 ^ k' * 2 ^ 149 = q * 2 ^ k * 2 ^ 1074"
    unfolding w [symmetric] by (simp flip: power_add add: mult.assoc)
  then have "fp_convert 52 11 23 8 (with_sign_bit 52 11 s (k' * 2 ^ 52 + q')) = a"
    using round_mag_exact [OF r, of "2 ^ 1074"] with_sign_bit_decode [OF r', of s] bits
    by (simp only: fp_convert_def fp_unit_values fp.case zero_less_power zero_less_numeral)
  with wide sign_bit_room [OF r', of s] show ?thesis by simp
qed

text \<open>Every 32-bit integer is a double, and comes back.\<close>

lemma int_as_double:
  assumes "\<bar>v\<bar> < 2 ^ 53"
  shows "fp_of_int 52 11 v < 2 ^ 64 \<and>
    fp_decode 52 11 (fp_of_int 52 11 v) = FFin (v < 0) (nat \<bar>v\<bar> * 2 ^ 1074)"
proof -
  obtain q k where w: "nat \<bar>v\<bar> * 2 ^ 0 * 2 ^ 1074 = q * 2 ^ k" and r: "representable 52 11 q k"
  proof (cases "v = 0")
    case True
    then show thesis by (intro that [of 0 0]) (auto simp: representable_def)
  next
    case False
    then show thesis
      using representable_widened [of "nat \<bar>v\<bar>" 52 52 1074 0 11] assms that
      by (auto simp: nat_less_iff)
  qed
  have "fp_of_int 52 11 v = with_sign_bit 52 11 (v < 0) (k * 2 ^ 52 + q)"
    using round_mag_exact [OF r, of 1] w by (simp add: fp_of_int_def fp_unit_values)
  moreover have "with_sign_bit 52 11 (v < 0) (k * 2 ^ 52 + q) < 2 ^ 64"
    using sign_bit_room [OF r] by simp
  ultimately show ?thesis
    using with_sign_bit_decode [OF r, of "v < 0"] w by simp
qed

end
