(* ===== verification/Machine.thy ===== *)
theory Machine
  imports JvmFrame ObjectHeap Strings Floats
begin

text \<open>
  The state an opcode handler of \<open>crates/jvm/src/interpreter/\<close> works on: the frame of the
  running method and the heaps of the \<open>Executor\<close>, and the ways a handler touches it: stack
  and locals, operand bytes at the program counter, and the Java exceptions it allocates.
  A program counter is a \<open>usize\<close>, which the devices keep in 32 bits; the signed arithmetic on
  it is that of the release profile, which does not check for overflow.
\<close>

section \<open>State\<close>

record machine =
  vm_frame :: frame
  vm_objects :: object_heap
  vm_arrays :: array_heap
  vm_strings :: string_table

type_synonym 'a op = "(machine, fault, 'a) action"

definition on_frame :: "(frame, fault, 'a) action \<Rightarrow> 'a op" where
  "on_frame m = (\<lambda>s. case m (vm_frame s) of (r, f) \<Rightarrow> (r, s\<lparr>vm_frame := f\<rparr>))"

definition on_objects :: "(object_heap, fault, 'a) action \<Rightarrow> 'a op" where
  "on_objects m = (\<lambda>s. case m (vm_objects s) of (r, h) \<Rightarrow> (r, s\<lparr>vm_objects := h\<rparr>))"

section \<open>Operand bytes\<close>

text \<open>\<open>code[i]\<close>, which panics out of range.\<close>

definition code_at :: "u8 list \<Rightarrow> nat \<Rightarrow> ('s, fault, u8) action" where
  "code_at code i = (if i < length code then ret (code ! i) else throw Panic)"

text \<open>\<open>from_be_bytes\<close>.\<close>

definition be16 :: "u8 \<Rightarrow> u8 \<Rightarrow> u16" where
  "be16 a b = push_bit 8 (ucast a) OR ucast b"

definition be32 :: "u8 \<Rightarrow> u8 \<Rightarrow> u8 \<Rightarrow> u8 \<Rightarrow> u32" where
  "be32 a b c d = push_bit 24 (ucast a) OR push_bit 16 (ucast b) OR push_bit 8 (ucast c) OR ucast d"

definition code_be16 :: "u8 list \<Rightarrow> nat \<Rightarrow> ('s, fault, u16) action" where
  "code_be16 code i = andThen (code_at code i) (\<lambda>a. andThen (code_at code (i + 1)) (\<lambda>b. ret (be16 a b)))"

definition code_be32 :: "u8 list \<Rightarrow> nat \<Rightarrow> ('s, fault, u32) action" where
  "code_be32 code i =
     andThen (code_at code i) (\<lambda>a. andThen (code_at code (i + 1)) (\<lambda>b.
     andThen (code_at code (i + 2)) (\<lambda>c. andThen (code_at code (i + 3)) (\<lambda>d. ret (be32 a b c d)))))"

definition get_pc :: "(frame, fault, nat) action" where
  "get_pc = gets pc"

definition set_pc :: "nat \<Rightarrow> (frame, fault, unit) action" where
  "set_pc p = modifies (\<lambda>f. f\<lparr>pc := p\<rparr>)"

text \<open>An operand at the program counter, which moves past it.\<close>

definition fetch8 :: "u8 list \<Rightarrow> (frame, fault, u8) action" where
  "fetch8 code =
     andThen get_pc (\<lambda>p. andThen (code_at code p) (\<lambda>b. andThen (set_pc (p + 1)) (\<lambda>_. ret b)))"

definition fetch16 :: "u8 list \<Rightarrow> (frame, fault, u16) action" where
  "fetch16 code =
     andThen get_pc (\<lambda>p. andThen (code_be16 code p) (\<lambda>w. andThen (set_pc (p + 2)) (\<lambda>_. ret w)))"

definition fetch32 :: "u8 list \<Rightarrow> (frame, fault, u32) action" where
  "fetch32 code =
     andThen get_pc (\<lambda>p. andThen (code_be32 code p) (\<lambda>w. andThen (set_pc (p + 4)) (\<lambda>_. ret w)))"

section \<open>Java exceptions\<close>

definition java_lang_ArithmeticException :: string where
  "java_lang_ArithmeticException = ''java/lang/ArithmeticException''"

definition java_lang_NullPointerException :: string where
  "java_lang_NullPointerException = ''java/lang/NullPointerException''"

definition java_lang_ClassCastException :: string where
  "java_lang_ClassCastException = ''java/lang/ClassCastException''"

text \<open>\<open>return Err(self.runtime_fault(class))\<close>.\<close>

definition runtime_fault :: "allocator \<Rightarrow> string \<Rightarrow> 'a op" where
  "runtime_fault al cls =
     andThen (on_objects (ob_alloc al cls))
       (\<lambda>r. case r of Some exc \<Rightarrow> throw (Err (Exception exc)) | None \<Rightarrow> throw (Err StackOverflow))"

definition arithmetic_exception :: "allocator \<Rightarrow> 'a op" where
  "arithmetic_exception al = runtime_fault al java_lang_ArithmeticException"

definition null_pointer_exception :: "allocator \<Rightarrow> 'a op" where
  "null_pointer_exception al = runtime_fault al java_lang_NullPointerException"

definition class_cast_exception :: "allocator \<Rightarrow> 'a op" where
  "class_cast_exception al = runtime_fault al java_lang_ClassCastException"

text \<open>\<open>athrow\<close>.\<close>

definition op_athrow :: "allocator \<Rightarrow> unit op" where
  "op_athrow al =
     andThen (on_frame pop) (\<lambda>v. case v of
       VObjectRef idx \<Rightarrow> throw (Err (Exception idx))
     | VNull \<Rightarrow> null_pointer_exception al
     | _ \<Rightarrow> throw (Err InvalidBytecode))"

section \<open>Equality of values\<close>

text \<open>The derived \<open>PartialEq\<close>: IEEE equality on the floating-point variants.\<close>

fun value_eq :: "jvm_value \<Rightarrow> jvm_value \<Rightarrow> bool" where
  "value_eq (VFloat a) (VFloat b) = f32_eq a b"
| "value_eq (VDouble a) (VDouble b) = f64_eq a b"
| "value_eq a b = (a = b)"

section \<open>Running\<close>

lemma on_frame_run [action_simps]:
  "on_frame m s = (case m (vm_frame s) of (r, f) \<Rightarrow> (r, s\<lparr>vm_frame := f\<rparr>))"
  by (simp add: on_frame_def)

lemma on_objects_run [action_simps]:
  "on_objects m s = (case m (vm_objects s) of (r, h) \<Rightarrow> (r, s\<lparr>vm_objects := h\<rparr>))"
  by (simp add: on_objects_def)

lemma code_at_run [action_simps]:
  "code_at code i s = (if i < length code then (Inr (code ! i), s) else (Inl Panic, s))"
  by (simp add: code_at_def ret_def throw_def)

lemma code_be16_run [action_simps]:
  "code_be16 code i s =
     (if i + 1 < length code then (Inr (be16 (code ! i) (code ! (i + 1))), s) else (Inl Panic, s))"
  by (simp add: code_be16_def action_simps)

lemma code_be32_run [action_simps]:
  "code_be32 code i s =
     (if i + 3 < length code
      then (Inr (be32 (code ! i) (code ! (i + 1)) (code ! (i + 2)) (code ! (i + 3))), s) else (Inl Panic, s))"
  by (simp add: code_be32_def action_simps)

lemma fetch8_run [action_simps]:
  "fetch8 code f =
     (if pc f < length code then (Inr (code ! pc f), f\<lparr>pc := pc f + 1\<rparr>) else (Inl Panic, f))"
  by (simp add: fetch8_def get_pc_def set_pc_def action_simps)

lemma fetch16_run [action_simps]:
  "fetch16 code f =
     (if pc f + 1 < length code
      then (Inr (be16 (code ! pc f) (code ! (pc f + 1))), f\<lparr>pc := pc f + 2\<rparr>) else (Inl Panic, f))"
  by (simp add: fetch16_def get_pc_def set_pc_def action_simps)

lemma fetch32_run [action_simps]:
  "fetch32 code f =
     (if pc f + 3 < length code
      then (Inr (be32 (code ! pc f) (code ! (pc f + 1)) (code ! (pc f + 2)) (code ! (pc f + 3))),
            f\<lparr>pc := pc f + 4\<rparr>) else (Inl Panic, f))"
  by (simp add: fetch32_def get_pc_def set_pc_def action_simps)

text \<open>What a frame's stack is to the operations: the values below a known top.\<close>

lemma pop_top: "stack f = vs @ [v] \<Longrightarrow> pop f = (Inr v, f\<lparr>stack := vs\<rparr>)"
  by (simp add: pop_def)

lemma push_room: "length (stack f) < stack_cap f \<Longrightarrow> push mem v f = (Inr (), f\<lparr>stack := stack f @ [v]\<rparr>)"
  by (simp add: push_def)

lemma pop_empty: "stack f = [] \<Longrightarrow> pop f = (Inl (Err StackUnderflow), f)"
  by (simp add: pop_def)

end
