(* ===== verification/OpsStack.thy ===== *)
theory OpsStack
  imports Machine
begin

text \<open>
  The stack opcodes, \<open>crates/jvm/src/interpreter/ops_stack.rs\<close>. Every value is one slot of the
  operand stack here, so the \<open>dup\<close> family inspects the categories of the values to choose the
  form the JVM specification gives it.
\<close>

section \<open>The code\<close>

definition below_top :: "jvm_value list \<Rightarrow> nat \<Rightarrow> fault + jvm_value" where
  "below_top st k = (if k \<le> length st then Inr (st ! (length st - k)) else Inl (Err StackUnderflow))"

definition cat2_at :: "jvm_value list \<Rightarrow> nat \<Rightarrow> fault + bool" where
  "cat2_at st k = (case below_top st k of Inl e \<Rightarrow> Inl e | Inr v \<Rightarrow> Inr (is_cat2 v))"

text \<open>How many values to copy, and how far down the copy goes.\<close>

definition dup_form :: "jvm_value list \<Rightarrow> u8 \<Rightarrow> fault + (nat \<times> nat)" where
  "dup_form st opcode =
     (if opcode = 0x5b
      then case cat2_at st 2 of Inl e \<Rightarrow> Inl e | Inr c \<Rightarrow> Inr (if c then (1, 2) else (1, 3))
      else if opcode = 0x5d
      then case cat2_at st 1 of Inl e \<Rightarrow> Inl e | Inr c \<Rightarrow> Inr (if c then (1, 2) else (2, 3))
      else case (cat2_at st 1, cat2_at st 2) of
             (Inl e, _) \<Rightarrow> Inl e
           | (Inr _, Inl e) \<Rightarrow> Inl e
           | (Inr True, Inr True) \<Rightarrow> Inr (1, 2)
           | (Inr True, Inr False) \<Rightarrow> Inr (1, 3)
           | (Inr False, Inr _) \<Rightarrow>
               (case cat2_at st 3 of Inl e \<Rightarrow> Inl e | Inr c \<Rightarrow> Inr (if c then (2, 3) else (2, 4))))"

definition insert_at :: "nat \<Rightarrow> 'a \<Rightarrow> 'a list \<Rightarrow> 'a list" where
  "insert_at i v xs = take i xs @ v # drop i xs"

primrec insert_each :: "nat \<Rightarrow> 'a list \<Rightarrow> 'a list \<Rightarrow> 'a list" where
  "insert_each at [] xs = xs"
| "insert_each at (v # vs) xs = insert_each (at + 1) vs (insert_at at v xs)"

definition dup_x :: "allocator \<Rightarrow> u8 \<Rightarrow> (frame, fault, unit) action" where
  "dup_x al opcode f =
     (let st = stack f; len = length st
      in case dup_form st opcode of
           Inl e \<Rightarrow> (Inl e, f)
         | Inr (n, depth) \<Rightarrow>
             if len < depth then (Inl (Err StackUnderflow), f)
             else case vec_reserve (al ValueBuf) (stack_cap f) len n of
                    None \<Rightarrow> (Inl (Err StackOverflow), f)
                  | Some c \<Rightarrow>
                      (Inr (), f\<lparr>stack := insert_each (len - depth) (drop (len - n) st) st, stack_cap := c\<rparr>))"

text \<open>\<open>frame.push(v)?\<close> for each value in turn.\<close>

primrec push_each :: "allocator \<Rightarrow> jvm_value list \<Rightarrow> (frame, fault, unit) action" where
  "push_each al [] = ret ()"
| "push_each al (v # vs) = andThen (push (al ValueBuf) v) (\<lambda>_. push_each al vs)"

definition op_stack :: "allocator \<Rightarrow> u8 \<Rightarrow> (frame, fault, unit) action" where
  "op_stack al opcode =
     (if opcode = 0x57 then andThen pop (\<lambda>_. ret ())
      else if opcode = 0x58
      then andThen pop (\<lambda>v1. if is_cat2 v1 then ret () else andThen pop (\<lambda>_. ret ()))
      else if opcode = 0x59 then andThen pop (\<lambda>v. push_each al [v, v])
      else if opcode = 0x5a then andThen pop (\<lambda>v1. andThen pop (\<lambda>v2. push_each al [v1, v2, v1]))
      else if opcode = 0x5c
      then andThen pop (\<lambda>v1.
             if is_cat2 v1 then push_each al [v1, v1]
             else andThen pop (\<lambda>v2. push_each al [v2, v1, v2, v1]))
      else if opcode = 0x5b \<or> opcode = 0x5d \<or> opcode = 0x5e then dup_x al opcode
      else if opcode = 0x5f then andThen pop (\<lambda>v1. andThen pop (\<lambda>v2. push_each al [v1, v2]))
      else throw (Err (UnsupportedOpcode opcode)))"

section \<open>The specification\<close>

text \<open>
  The forms of the JVM specification (JVMS 6.5), on the stack with its top first: \<open>None\<close> where
  the specification gives the opcode no meaning.
\<close>

abbreviation cat1 :: "jvm_value \<Rightarrow> bool" where
  "cat1 v \<equiv> \<not> is_cat2 v"

fun jvms_pop2 :: "jvm_value list \<Rightarrow> jvm_value list option" where
  "jvms_pop2 (v1 # r) =
     (if is_cat2 v1 then Some r
      else case r of v2 # s \<Rightarrow> if cat1 v2 then Some s else None | [] \<Rightarrow> None)"
| "jvms_pop2 [] = None"

fun jvms_dup_x1 :: "jvm_value list \<Rightarrow> jvm_value list option" where
  "jvms_dup_x1 (v1 # v2 # r) = (if cat1 v1 \<and> cat1 v2 then Some (v1 # v2 # v1 # r) else None)"
| "jvms_dup_x1 _ = None"

fun jvms_dup_x2 :: "jvm_value list \<Rightarrow> jvm_value list option" where
  "jvms_dup_x2 (v1 # v2 # r) =
     (if is_cat2 v1 then None
      else if is_cat2 v2 then Some (v1 # v2 # v1 # r)
      else case r of v3 # s \<Rightarrow> if cat1 v3 then Some (v1 # v2 # v3 # v1 # s) else None | [] \<Rightarrow> None)"
| "jvms_dup_x2 _ = None"

fun jvms_dup2 :: "jvm_value list \<Rightarrow> jvm_value list option" where
  "jvms_dup2 (v1 # r) =
     (if is_cat2 v1 then Some (v1 # v1 # r)
      else case r of v2 # s \<Rightarrow> if cat1 v2 then Some (v1 # v2 # v1 # v2 # s) else None | [] \<Rightarrow> None)"
| "jvms_dup2 [] = None"

fun jvms_dup2_x1 :: "jvm_value list \<Rightarrow> jvm_value list option" where
  "jvms_dup2_x1 (v1 # v2 # r) =
     (if is_cat2 v2 then None
      else if is_cat2 v1 then Some (v1 # v2 # v1 # r)
      else case r of v3 # s \<Rightarrow> if cat1 v3 then Some (v1 # v2 # v3 # v1 # v2 # s) else None | [] \<Rightarrow> None)"
| "jvms_dup2_x1 _ = None"

fun jvms_dup2_x2 :: "jvm_value list \<Rightarrow> jvm_value list option" where
  "jvms_dup2_x2 (v1 # v2 # r) =
     (if is_cat2 v1 \<and> is_cat2 v2 then Some (v1 # v2 # v1 # r)
      else case r of
             [] \<Rightarrow> None
           | v3 # s \<Rightarrow>
               if is_cat2 v1 then (if cat1 v3 then Some (v1 # v2 # v3 # v1 # s) else None)
               else if is_cat2 v2 then None
               else if is_cat2 v3 then Some (v1 # v2 # v3 # v1 # v2 # s)
               else case s of
                      v4 # t \<Rightarrow> if cat1 v4 then Some (v1 # v2 # v3 # v4 # v1 # v2 # t) else None
                    | [] \<Rightarrow> None)"
| "jvms_dup2_x2 _ = None"

definition jvms_stack :: "u8 \<Rightarrow> jvm_value list \<Rightarrow> jvm_value list option" where
  "jvms_stack opcode st =
     (if opcode = 0x57 then (case st of v # r \<Rightarrow> if cat1 v then Some r else None | [] \<Rightarrow> None)
      else if opcode = 0x58 then jvms_pop2 st
      else if opcode = 0x59 then (case st of v # r \<Rightarrow> if cat1 v then Some (v # v # r) else None | [] \<Rightarrow> None)
      else if opcode = 0x5a then jvms_dup_x1 st
      else if opcode = 0x5b then jvms_dup_x2 st
      else if opcode = 0x5c then jvms_dup2 st
      else if opcode = 0x5d then jvms_dup2_x1 st
      else if opcode = 0x5e then jvms_dup2_x2 st
      else if opcode = 0x5f
      then (case st of v1 # v2 # r \<Rightarrow> if cat1 v1 \<and> cat1 v2 then Some (v2 # v1 # r) else None | _ \<Rightarrow> None)
      else None)"

section \<open>Lemmas\<close>

text \<open>Operand stacks are easiest to read top first.\<close>

lemma pop_rev: "rev (stack f) = v # r \<Longrightarrow> pop f = (Inr v, f\<lparr>stack := rev r\<rparr>)"
  by (simp add: pop_def rev_swap)

lemma push_each_room:
  "length (stack f) + length vs \<le> stack_cap f \<Longrightarrow>
   push_each al vs f = (Inr (), f\<lparr>stack := stack f @ vs\<rparr>)"
  by (induction vs arbitrary: f) (simp_all add: ret_def andThen_def push_room)

lemma insert_each_eq: "at \<le> length xs \<Longrightarrow> insert_each at vs xs = take at xs @ vs @ drop at xs"
  by (induction vs arbitrary: at xs) (auto simp: insert_at_def)

text \<open>A duplication below the top, read top first.\<close>

lemma dup_x_rev:
  assumes f: "dup_form (stack f) opcode = Inr (n, d)" "n \<le> d" "d \<le> length (stack f)"
    and cap: "length (stack f) + n \<le> stack_cap f"
  shows "dup_x al opcode f =
    (Inr (), f\<lparr>stack := rev (take d (rev (stack f)) @ take n (rev (stack f)) @ drop d (rev (stack f)))\<rparr>)"
proof -
  have "vec_reserve (al ValueBuf) (stack_cap f) (length (stack f)) n = Some (stack_cap f)"
  proof -
    have "n \<le> stack_cap f - length (stack f)" using cap by linarith
    then show ?thesis by (simp add: vec_reserve_def)
  qed
  moreover have "insert_each (length (stack f) - d) (drop (length (stack f) - n) (stack f)) (stack f) =
      rev (take d (rev (stack f)) @ take n (rev (stack f)) @ drop d (rev (stack f)))"
    using f(2,3) by (simp add: insert_each_eq rev_take rev_drop)
  ultimately show ?thesis using f by (simp add: dup_x_def Let_def)
qed

lemma below_top_rev: "0 < k \<Longrightarrow> k \<le> length (rev st) \<Longrightarrow> below_top st k = Inr (rev st ! (k - 1))"
  by (simp add: below_top_def rev_nth)

lemma stack_rev: "rev (stack f) = r \<Longrightarrow> stack f = rev r"
  by auto

lemma cat2_at_rev: "rev st = r \<Longrightarrow> 0 < k \<Longrightarrow> k \<le> length r \<Longrightarrow> cat2_at st k = Inr (is_cat2 (r ! (k - 1)))"
  using below_top_rev [of k st] by (auto simp: cat2_at_def)

text \<open>The same on an explicit stack, top last.\<close>

lemma pop_snoc [simp]: "pop (f\<lparr>stack := xs @ [v]\<rparr>) = (Inr v, f\<lparr>stack := xs\<rparr>)"
  by (simp add: pop_def)

lemma push_each_snoc [simp]:
  "length xs + length vs \<le> stack_cap f \<Longrightarrow>
   push_each al vs (f\<lparr>stack := xs\<rparr>) = (Inr (), f\<lparr>stack := xs @ vs\<rparr>)"
  using push_each_room [of "f\<lparr>stack := xs\<rparr>" vs al] by simp

lemma op_stack_one:
  assumes st: "stack f = xs @ [v]" and cap: "length xs + 2 \<le> stack_cap f"
  shows "op_stack al 0x57 f = (Inr (), f\<lparr>stack := xs\<rparr>)"
    and "op_stack al 0x59 f = (Inr (), f\<lparr>stack := xs @ [v, v]\<rparr>)"
    and "is_cat2 v \<Longrightarrow> op_stack al 0x58 f = (Inr (), f\<lparr>stack := xs\<rparr>)"
    and "is_cat2 v \<Longrightarrow> op_stack al 0x5c f = (Inr (), f\<lparr>stack := xs @ [v, v]\<rparr>)"
  using cap pop_top [OF st] by (simp_all add: op_stack_def action_simps del: push_each.simps)

lemma op_stack_two:
  assumes st: "stack f = xs @ [v2, v1]" and cap: "length xs + 4 \<le> stack_cap f"
  shows "cat1 v1 \<Longrightarrow> op_stack al 0x58 f = (Inr (), f\<lparr>stack := xs\<rparr>)"
    and "cat1 v1 \<Longrightarrow> op_stack al 0x5c f = (Inr (), f\<lparr>stack := xs @ [v2, v1, v2, v1]\<rparr>)"
    and "op_stack al 0x5a f = (Inr (), f\<lparr>stack := xs @ [v1, v2, v1]\<rparr>)"
    and "op_stack al 0x5f f = (Inr (), f\<lparr>stack := xs @ [v1, v2]\<rparr>)"
  using cap pop_top [of f "xs @ [v2]" v1] st
  by (simp_all add: op_stack_def action_simps del: push_each.simps)

lemma dup_x2_forms:
  assumes "jvms_dup_x2 (rev (stack f)) = Some r" and cap: "length (stack f) + 2 \<le> stack_cap f"
  shows "dup_x al 0x5b f = (Inr (), f\<lparr>stack := rev r\<rparr>)"
proof -
  obtain v1 v2 s where st: "rev (stack f) = v1 # v2 # s"
    using assms(1) by (cases "rev (stack f)" rule: jvms_dup_x2.cases) auto
  have len: "length (stack f) = length s + 2" using st by (metis length_Cons length_rev add_2_eq_Suc')
  show ?thesis
  proof (cases "is_cat2 v2")
    case True
    then have "dup_form (stack f) 0x5b = Inr (1, 2)" using cat2_at_rev [OF st, of 2] by (simp add: dup_form_def)
    from dup_x_rev [OF this] show ?thesis using assms st len True by (auto split: if_splits)
  next
    case False
    then have "dup_form (stack f) 0x5b = Inr (1, 3)" using cat2_at_rev [OF st, of 2] by (simp add: dup_form_def)
    from dup_x_rev [OF this] show ?thesis
      using assms st len False by (cases s) (auto split: if_splits)
  qed
qed

lemma dup2_x1_forms:
  assumes "jvms_dup2_x1 (rev (stack f)) = Some r" and cap: "length (stack f) + 2 \<le> stack_cap f"
  shows "dup_x al 0x5d f = (Inr (), f\<lparr>stack := rev r\<rparr>)"
proof -
  obtain v1 v2 s where st: "rev (stack f) = v1 # v2 # s"
    using assms(1) by (cases "rev (stack f)" rule: jvms_dup2_x1.cases) auto
  have len: "length (stack f) = length s + 2" using st by (metis length_Cons length_rev add_2_eq_Suc')
  show ?thesis
  proof (cases "is_cat2 v1")
    case True
    then have "dup_form (stack f) 0x5d = Inr (1, 2)" using cat2_at_rev [OF st, of 1] by (simp add: dup_form_def)
    from dup_x_rev [OF this] show ?thesis using assms st len True by (auto split: if_splits)
  next
    case False
    then have "dup_form (stack f) 0x5d = Inr (2, 3)" using cat2_at_rev [OF st, of 1] by (simp add: dup_form_def)
    from dup_x_rev [OF this] show ?thesis
      using assms st len False by (cases s) (auto split: if_splits)
  qed
qed

lemma dup2_x2_forms:
  assumes "jvms_dup2_x2 (rev (stack f)) = Some r" and cap: "length (stack f) + 2 \<le> stack_cap f"
  shows "dup_x al 0x5e f = (Inr (), f\<lparr>stack := rev r\<rparr>)"
proof -
  obtain v1 v2 s where st: "rev (stack f) = v1 # v2 # s"
    using assms(1) by (cases "rev (stack f)" rule: jvms_dup2_x2.cases) auto
  have len: "length (stack f) = length s + 2" using st by (metis length_Cons length_rev add_2_eq_Suc')
  note cats = cat2_at_rev [OF st, of 1] cat2_at_rev [OF st, of 2] cat2_at_rev [OF st, of 3]
  show ?thesis
  proof (cases "is_cat2 v1")
    case True
    then have "dup_form (stack f) 0x5e = Inr (1, if is_cat2 v2 then 2 else 3)"
      using cats by (auto simp: dup_form_def split: if_splits)
    from dup_x_rev [OF this] show ?thesis
      using assms st len True by (cases s) (auto split: if_splits)
  next
    case False
    then obtain v3 t where s: "s = v3 # t" using assms(1) st by (cases s) auto
    then have "dup_form (stack f) 0x5e = Inr (2, if is_cat2 v3 then 3 else 4)"
      using cats False by (auto simp: dup_form_def split: if_splits)
    from dup_x_rev [OF this] show ?thesis
      using assms st len s False by (cases t) (auto split: if_splits)
  qed
qed

section \<open>Properties\<close>

text \<open>
  C22: the stack opcodes do what the JVM specification says of them: for every opcode and every
  stack whose value categories one of its forms admits, the handler leaves exactly the stack of
  that form, and changes nothing else of the frame. Room for two more values is what the
  longest form needs.
\<close>

theorem op_stack_forms:
  assumes form: "jvms_stack opcode (rev (stack f)) = Some r"
    and cap: "length (stack f) + 2 \<le> stack_cap f"
  shows "op_stack al opcode f = (Inr (), f\<lparr>stack := rev r\<rparr>)"
proof -
  obtain v1 s where st: "rev (stack f) = v1 # s"
    using form by (cases "rev (stack f)") (auto simp: jvms_stack_def split: if_splits)
  then have st1: "stack f = rev s @ [v1]" by (simp add: rev_swap)
  then have st2: "stack f = rev t @ [v2, v1]" if "s = v2 # t" for v2 t using that by simp
  note one = op_stack_one [OF st1] and two = op_stack_two [OF st2]
  consider "opcode = 0x57" | "opcode = 0x59" | "opcode = 0x58" | "opcode = 0x5c" | "opcode = 0x5a" | "opcode = 0x5f"
    | "opcode = 0x5b" | "opcode = 0x5d" | "opcode = 0x5e"
    using form unfolding jvms_stack_def by (auto split: if_splits)
  then show ?thesis
  proof cases
    case 1
    then show ?thesis using form st st1 cap one(1) by (simp add: jvms_stack_def split: if_splits)
  next
    case 2
    then show ?thesis using form st st1 cap one(2) by (auto simp: jvms_stack_def split: if_splits)
  next
    case 3
    show ?thesis
    proof (cases "is_cat2 v1")
      case True
      then show ?thesis using 3 form st st1 cap one(3) by (simp add: jvms_stack_def)
    next
      case False
      then show ?thesis
        using 3 form st st1 cap two(1) [of _ _ al] by (cases s) (auto simp: jvms_stack_def split: if_splits)
    qed
  next
    case 4
    show ?thesis
    proof (cases "is_cat2 v1")
      case True
      then show ?thesis using 4 form st st1 cap one(4) by (auto simp: jvms_stack_def)
    next
      case False
      then show ?thesis
        using 4 form st st1 cap two(2) by (cases s) (auto simp: jvms_stack_def split: if_splits)
    qed
  next
    case 5
    then show ?thesis using form st st1 cap two(3) by (cases s) (auto simp: jvms_stack_def split: if_splits)
  next
    case 6
    then show ?thesis using form st st1 cap two(4) by (cases s) (auto simp: jvms_stack_def split: if_splits)
  next
    case 7
    then show ?thesis using form cap dup_x2_forms by (simp add: op_stack_def jvms_stack_def)
  next
    case 8
    then show ?thesis using form cap dup2_x1_forms by (simp add: op_stack_def jvms_stack_def)
  next
    case 9
    then show ?thesis using form cap dup2_x2_forms by (simp add: op_stack_def jvms_stack_def)
  qed
qed

text \<open>A frame with an operand stack and nothing else.\<close>

definition stack_frame :: "jvm_value list \<Rightarrow> frame" where
  "stack_frame vs = (make_frame 0 0 [] 0 8)\<lparr>stack := vs\<rparr>"

theorem op_stack_forms_witness:
  "op_stack (\<lambda>_ _. False) 0x5e (stack_frame [VInt 3, VLong 2, VInt 1, VInt 0]) =
     (Inr (), stack_frame [VInt 3, VInt 1, VInt 0, VLong 2, VInt 1, VInt 0])"
  using op_stack_forms [of "0x5e" "stack_frame [VInt 3, VLong 2, VInt 1, VInt 0]" _ "\<lambda>_ _. False"]
  by (simp add: stack_frame_def make_frame_def jvms_stack_def is_cat2_def)

end
