(* ===== verification/OpsMath.thy ===== *)
theory OpsMath
  imports OpsStack "HOL-Library.Signed_Division"
begin

text \<open>
  Arithmetic and conversion opcodes, \<open>crates/jvm/src/interpreter/ops_math.rs\<close> and
  \<open>ops_convert.rs\<close>, with \<open>fconv.rs\<close>. Integers wrap at their width, a division by zero is a
  Java exception that the handler allocates, and an operand of the wrong type is
  \<open>InvalidBytecode\<close>. The crate \<open>libm\<close> is a parameter: its remainder and truncation.
\<close>

record libm =
  lm_fmodf :: "f32 \<Rightarrow> f32 \<Rightarrow> f32"
  lm_fmod :: "f64 \<Rightarrow> f64 \<Rightarrow> f64"
  lm_truncf :: "f32 \<Rightarrow> f32"
  lm_trunc :: "f64 \<Rightarrow> f64"

section \<open>Arithmetic\<close>

text \<open>
  \<open>wrapping_div\<close> and \<open>wrapping_rem\<close> truncate toward zero; the one quotient that does not fit
  wraps. The shift distance is masked as the code masks it.
\<close>

definition wrapping_div :: "'a::len word \<Rightarrow> 'a word \<Rightarrow> 'a word" where
  "wrapping_div a b = of_int (sint a sdiv sint b)"

definition wrapping_rem :: "'a::len word \<Rightarrow> 'a word \<Rightarrow> 'a word" where
  "wrapping_rem a b = of_int (sint a smod sint b)"

definition shift_mask :: "i32 \<Rightarrow> i32 \<Rightarrow> nat" where
  "shift_mask m b = unat (b AND m)"

text \<open>Pop \<open>b\<close>, pop \<open>a\<close>, push the result; \<open>None\<close> is the arm of the wrong types.\<close>

definition binary :: "allocator \<Rightarrow> (jvm_value \<Rightarrow> jvm_value \<Rightarrow> jvm_value option) \<Rightarrow> (frame, fault, unit) action" where
  "binary al g =
     andThen pop (\<lambda>b. andThen pop (\<lambda>a.
       case g a b of Some v \<Rightarrow> push (al ValueBuf) v | None \<Rightarrow> throw (Err InvalidBytecode)))"

definition unary :: "allocator \<Rightarrow> (jvm_value \<Rightarrow> jvm_value option) \<Rightarrow> (frame, fault, unit) action" where
  "unary al g =
     andThen pop (\<lambda>a. case g a of Some v \<Rightarrow> push (al ValueBuf) v | None \<Rightarrow> throw (Err InvalidBytecode))"

definition on_ints :: "(i32 \<Rightarrow> i32 \<Rightarrow> i32) \<Rightarrow> jvm_value \<Rightarrow> jvm_value \<Rightarrow> jvm_value option" where
  "on_ints g a b = (case (a, b) of (VInt x, VInt y) \<Rightarrow> Some (VInt (g x y)) | _ \<Rightarrow> None)"

definition on_longs :: "(i64 \<Rightarrow> i64 \<Rightarrow> i64) \<Rightarrow> jvm_value \<Rightarrow> jvm_value \<Rightarrow> jvm_value option" where
  "on_longs g a b = (case (a, b) of (VLong x, VLong y) \<Rightarrow> Some (VLong (g x y)) | _ \<Rightarrow> None)"

definition on_long_int :: "(i64 \<Rightarrow> i32 \<Rightarrow> i64) \<Rightarrow> jvm_value \<Rightarrow> jvm_value \<Rightarrow> jvm_value option" where
  "on_long_int g a b = (case (a, b) of (VLong x, VInt y) \<Rightarrow> Some (VLong (g x y)) | _ \<Rightarrow> None)"

definition on_floats :: "(f32 \<Rightarrow> f32 \<Rightarrow> f32) \<Rightarrow> jvm_value \<Rightarrow> jvm_value \<Rightarrow> jvm_value option" where
  "on_floats g a b = (case (a, b) of (VFloat x, VFloat y) \<Rightarrow> Some (VFloat (g x y)) | _ \<Rightarrow> None)"

definition on_doubles :: "(f64 \<Rightarrow> f64 \<Rightarrow> f64) \<Rightarrow> jvm_value \<Rightarrow> jvm_value \<Rightarrow> jvm_value option" where
  "on_doubles g a b = (case (a, b) of (VDouble x, VDouble y) \<Rightarrow> Some (VDouble (g x y)) | _ \<Rightarrow> None)"

text \<open>The integer arms, division apart.\<close>

definition int_arm :: "u8 \<Rightarrow> (i32 \<Rightarrow> i32 \<Rightarrow> i32) option" where
  "int_arm opcode =
     (if opcode = 0x60 then Some (\<lambda>a b. a + b)
      else if opcode = 0x64 then Some (\<lambda>a b. a - b)
      else if opcode = 0x68 then Some (\<lambda>a b. a * b)
      else if opcode = 0x78 then Some (\<lambda>a b. push_bit (shift_mask 0x1f b) a)
      else if opcode = 0x7a then Some (\<lambda>a b. signed_drop_bit (shift_mask 0x1f b) a)
      else if opcode = 0x7c then Some (\<lambda>a b. drop_bit (shift_mask 0x1f b) a)
      else if opcode = 0x7e then Some (\<lambda>a b. a AND b)
      else if opcode = 0x80 then Some (\<lambda>a b. a OR b)
      else if opcode = 0x82 then Some (\<lambda>a b. a XOR b)
      else None)"

definition long_arm :: "u8 \<Rightarrow> (i64 \<Rightarrow> i64 \<Rightarrow> i64) option" where
  "long_arm opcode =
     (if opcode = 0x61 then Some (\<lambda>a b. a + b)
      else if opcode = 0x65 then Some (\<lambda>a b. a - b)
      else if opcode = 0x69 then Some (\<lambda>a b. a * b)
      else if opcode = 0x7f then Some (\<lambda>a b. a AND b)
      else if opcode = 0x81 then Some (\<lambda>a b. a OR b)
      else if opcode = 0x83 then Some (\<lambda>a b. a XOR b)
      else None)"

definition long_shift_arm :: "u8 \<Rightarrow> (i64 \<Rightarrow> i32 \<Rightarrow> i64) option" where
  "long_shift_arm opcode =
     (if opcode = 0x79 then Some (\<lambda>a b. push_bit (shift_mask 0x3f b) a)
      else if opcode = 0x7b then Some (\<lambda>a b. signed_drop_bit (shift_mask 0x3f b) a)
      else if opcode = 0x7d then Some (\<lambda>a b. drop_bit (shift_mask 0x3f b) a)
      else None)"

definition float_arm :: "libm \<Rightarrow> u8 \<Rightarrow> (f32 \<Rightarrow> f32 \<Rightarrow> f32) option" where
  "float_arm lm opcode =
     (if opcode = 0x62 then Some f32_add
      else if opcode = 0x66 then Some f32_sub
      else if opcode = 0x6a then Some f32_mul
      else if opcode = 0x6e then Some f32_div
      else if opcode = 0x72 then Some (lm_fmodf lm)
      else None)"

definition double_arm :: "libm \<Rightarrow> u8 \<Rightarrow> (f64 \<Rightarrow> f64 \<Rightarrow> f64) option" where
  "double_arm lm opcode =
     (if opcode = 0x63 then Some f64_add
      else if opcode = 0x67 then Some f64_sub
      else if opcode = 0x6b then Some f64_mul
      else if opcode = 0x6f then Some f64_div
      else if opcode = 0x73 then Some (lm_fmod lm)
      else None)"

definition neg_arm :: "u8 \<Rightarrow> (jvm_value \<Rightarrow> jvm_value option) option" where
  "neg_arm opcode =
     (if opcode = 0x74 then Some (\<lambda>v. case v of VInt n \<Rightarrow> Some (VInt (- n)) | _ \<Rightarrow> None)
      else if opcode = 0x75 then Some (\<lambda>v. case v of VLong n \<Rightarrow> Some (VLong (- n)) | _ \<Rightarrow> None)
      else if opcode = 0x76 then Some (\<lambda>v. case v of VFloat n \<Rightarrow> Some (VFloat (f32_neg n)) | _ \<Rightarrow> None)
      else if opcode = 0x77 then Some (\<lambda>v. case v of VDouble n \<Rightarrow> Some (VDouble (f64_neg n)) | _ \<Rightarrow> None)
      else None)"

text \<open>\<open>idiv\<close>, \<open>irem\<close>, \<open>ldiv\<close>, \<open>lrem\<close>: a zero divisor throws before the types are looked at again.\<close>

definition int_division :: "allocator \<Rightarrow> (i32 \<Rightarrow> i32 \<Rightarrow> i32) \<Rightarrow> unit op" where
  "int_division al g =
     andThen (on_frame pop) (\<lambda>b. andThen (on_frame pop) (\<lambda>a.
       case (a, b) of
         (VInt x, VInt y) \<Rightarrow>
           if y = 0 then arithmetic_exception al else on_frame (push (al ValueBuf) (VInt (g x y)))
       | _ \<Rightarrow> throw (Err InvalidBytecode)))"

definition long_division :: "allocator \<Rightarrow> (i64 \<Rightarrow> i64 \<Rightarrow> i64) \<Rightarrow> unit op" where
  "long_division al g =
     andThen (on_frame pop) (\<lambda>b. andThen (on_frame pop) (\<lambda>a.
       case (a, b) of
         (VLong x, VLong y) \<Rightarrow>
           if y = 0 then arithmetic_exception al else on_frame (push (al ValueBuf) (VLong (g x y)))
       | _ \<Rightarrow> throw (Err InvalidBytecode)))"

text \<open>\<open>iinc\<close>, and its widened form with the index and the increment it was given.\<close>

definition add_to_local :: "allocator \<Rightarrow> u16 \<Rightarrow> i32 \<Rightarrow> (frame, fault, unit) action" where
  "add_to_local al idx inc =
     andThen (load_local idx) (\<lambda>v. case v of
       VInt n \<Rightarrow> store_local (al ValueBuf) idx (VInt (n + inc))
     | _ \<Rightarrow> throw (Err InvalidBytecode))"

definition op_iinc :: "allocator \<Rightarrow> u8 list \<Rightarrow> (frame, fault, unit) action" where
  "op_iinc al code =
     andThen get_pc (\<lambda>p. andThen (code_at code p) (\<lambda>i. andThen (code_at code (p + 1)) (\<lambda>c.
     andThen (set_pc (p + 2)) (\<lambda>_. add_to_local al (ucast i) (scast c)))))"

definition op_math :: "allocator \<Rightarrow> libm \<Rightarrow> u8 \<Rightarrow> u8 list \<Rightarrow> unit op" where
  "op_math al lm opcode code =
     (case int_arm opcode of Some g \<Rightarrow> on_frame (binary al (on_ints g)) | None \<Rightarrow>
      case long_arm opcode of Some g \<Rightarrow> on_frame (binary al (on_longs g)) | None \<Rightarrow>
      case long_shift_arm opcode of Some g \<Rightarrow> on_frame (binary al (on_long_int g)) | None \<Rightarrow>
      case float_arm lm opcode of Some g \<Rightarrow> on_frame (binary al (on_floats g)) | None \<Rightarrow>
      case double_arm lm opcode of Some g \<Rightarrow> on_frame (binary al (on_doubles g)) | None \<Rightarrow>
      case neg_arm opcode of Some g \<Rightarrow> on_frame (unary al g) | None \<Rightarrow>
        if opcode = 0x6c then int_division al wrapping_div
        else if opcode = 0x70 then int_division al wrapping_rem
        else if opcode = 0x6d then long_division al wrapping_div
        else if opcode = 0x71 then long_division al wrapping_rem
        else if opcode = 0x84 then on_frame (op_iinc al code)
        else throw (Err (UnsupportedOpcode opcode)))"

section \<open>Conversions\<close>

text \<open>\<open>fconv.rs\<close>: truncate first, then cast.\<close>

definition f2i :: "libm \<Rightarrow> f32 \<Rightarrow> i32" where "f2i lm f = f32_to_i32 (lm_truncf lm f)"
definition f2l :: "libm \<Rightarrow> f32 \<Rightarrow> i64" where "f2l lm f = f32_to_i64 (lm_truncf lm f)"
definition d2i :: "libm \<Rightarrow> f64 \<Rightarrow> i32" where "d2i lm d = f64_to_i32 (lm_trunc lm d)"
definition d2l :: "libm \<Rightarrow> f64 \<Rightarrow> i64" where "d2l lm d = f64_to_i64 (lm_trunc lm d)"

definition from_int_arm :: "u8 \<Rightarrow> (i32 \<Rightarrow> jvm_value) option" where
  "from_int_arm opcode =
     (if opcode = 0x91 then Some (\<lambda>n. VInt (scast (ucast n :: 8 word)))
      else if opcode = 0x92 then Some (\<lambda>n. VInt (ucast (ucast n :: 16 word)))
      else if opcode = 0x93 then Some (\<lambda>n. VInt (scast (ucast n :: 16 word)))
      else if opcode = 0x85 then Some (\<lambda>n. VLong (scast n))
      else if opcode = 0x86 then Some (\<lambda>n. VFloat (f32_of_int (sint n)))
      else if opcode = 0x87 then Some (\<lambda>n. VDouble (f64_of_int (sint n)))
      else None)"

definition from_long_arm :: "u8 \<Rightarrow> (i64 \<Rightarrow> jvm_value) option" where
  "from_long_arm opcode =
     (if opcode = 0x88 then Some (\<lambda>n. VInt (ucast n))
      else if opcode = 0x89 then Some (\<lambda>n. VFloat (f32_of_int (sint n)))
      else if opcode = 0x8a then Some (\<lambda>n. VDouble (f64_of_int (sint n)))
      else None)"

definition from_float_arm :: "libm \<Rightarrow> u8 \<Rightarrow> (f32 \<Rightarrow> jvm_value) option" where
  "from_float_arm lm opcode =
     (if opcode = 0x8b then Some (\<lambda>f. VInt (f2i lm f))
      else if opcode = 0x8c then Some (\<lambda>f. VLong (f2l lm f))
      else if opcode = 0x8d then Some (\<lambda>f. VDouble (f32_to_f64 f))
      else None)"

definition from_double_arm :: "libm \<Rightarrow> u8 \<Rightarrow> (f64 \<Rightarrow> jvm_value) option" where
  "from_double_arm lm opcode =
     (if opcode = 0x8e then Some (\<lambda>d. VInt (d2i lm d))
      else if opcode = 0x8f then Some (\<lambda>d. VLong (d2l lm d))
      else if opcode = 0x90 then Some (\<lambda>d. VFloat (f64_to_f32 d))
      else None)"

text \<open>\<open>lcmp\<close>, and the floating-point comparisons, which differ in what a NaN gives.\<close>

definition long_compare :: "i64 \<Rightarrow> i64 \<Rightarrow> i32" where
  "long_compare a b = (if sint b < sint a then 1 else if a = b then 0 else -1)"

definition fcmpl :: "f32 \<Rightarrow> f32 \<Rightarrow> i32" where
  "fcmpl a b = (if f32_less b a then 1 else if f32_eq a b then 0 else -1)"

definition fcmpg :: "f32 \<Rightarrow> f32 \<Rightarrow> i32" where
  "fcmpg a b =
     (if f32_less b a then 1 else if f32_eq a b then 0 else if f32_less a b then -1 else 1)"

definition f64_nan :: "f64 \<Rightarrow> bool" where
  "f64_nan d \<longleftrightarrow> fp_is_nan 52 11 (unat d)"

definition dcmpl :: "f64 \<Rightarrow> f64 \<Rightarrow> i32" where
  "dcmpl a b =
     (if f64_nan a \<or> f64_nan b then -1 else if f64_less b a then 1 else if f64_eq a b then 0 else -1)"

definition dcmpg :: "f64 \<Rightarrow> f64 \<Rightarrow> i32" where
  "dcmpg a b = (if f64_nan a \<or> f64_nan b \<or> f64_less b a then 1 else if f64_eq a b then 0 else -1)"

definition compare_arm :: "u8 \<Rightarrow> (jvm_value \<Rightarrow> jvm_value \<Rightarrow> jvm_value option) option" where
  "compare_arm opcode =
     (if opcode = 0x94
      then Some (\<lambda>a b. case (a, b) of (VLong x, VLong y) \<Rightarrow> Some (VInt (long_compare x y)) | _ \<Rightarrow> None)
      else if opcode = 0x95
      then Some (\<lambda>a b. case (a, b) of (VFloat x, VFloat y) \<Rightarrow> Some (VInt (fcmpl x y)) | _ \<Rightarrow> None)
      else if opcode = 0x96
      then Some (\<lambda>a b. case (a, b) of (VFloat x, VFloat y) \<Rightarrow> Some (VInt (fcmpg x y)) | _ \<Rightarrow> None)
      else if opcode = 0x97
      then Some (\<lambda>a b. case (a, b) of (VDouble x, VDouble y) \<Rightarrow> Some (VInt (dcmpl x y)) | _ \<Rightarrow> None)
      else if opcode = 0x98
      then Some (\<lambda>a b. case (a, b) of (VDouble x, VDouble y) \<Rightarrow> Some (VInt (dcmpg x y)) | _ \<Rightarrow> None)
      else None)"

definition op_convert :: "allocator \<Rightarrow> libm \<Rightarrow> u8 \<Rightarrow> (frame, fault, unit) action" where
  "op_convert al lm opcode =
     (case from_int_arm opcode of
        Some g \<Rightarrow> unary al (\<lambda>v. case v of VInt n \<Rightarrow> Some (g n) | _ \<Rightarrow> None) | None \<Rightarrow>
      case from_long_arm opcode of
        Some g \<Rightarrow> unary al (\<lambda>v. case v of VLong n \<Rightarrow> Some (g n) | _ \<Rightarrow> None) | None \<Rightarrow>
      case from_float_arm lm opcode of
        Some g \<Rightarrow> unary al (\<lambda>v. case v of VFloat n \<Rightarrow> Some (g n) | _ \<Rightarrow> None) | None \<Rightarrow>
      case from_double_arm lm opcode of
        Some g \<Rightarrow> unary al (\<lambda>v. case v of VDouble n \<Rightarrow> Some (g n) | _ \<Rightarrow> None) | None \<Rightarrow>
      case compare_arm opcode of
        Some g \<Rightarrow> binary al g
      | None \<Rightarrow> throw (Err (UnsupportedOpcode opcode)))"

section \<open>Operand kinds\<close>

datatype kind = KInt | KLong | KFloat | KDouble | KRef

fun kind_of :: "jvm_value \<Rightarrow> kind" where
  "kind_of (VInt _) = KInt"
| "kind_of (VLong _) = KLong"
| "kind_of (VFloat _) = KFloat"
| "kind_of (VDouble _) = KDouble"
| "kind_of (VReference _) = KRef"
| "kind_of (VObjectRef _) = KRef"
| "kind_of (VArrayRef _) = KRef"
| "kind_of VNull = KRef"

lemma kind_elims:
  "kind_of v = KInt \<Longrightarrow> \<exists>n. v = VInt n" "kind_of v = KLong \<Longrightarrow> \<exists>n. v = VLong n"
  "kind_of v = KFloat \<Longrightarrow> \<exists>n. v = VFloat n" "kind_of v = KDouble \<Longrightarrow> \<exists>n. v = VDouble n"
  by (cases v; simp)+

text \<open>
  What the JVM specification says an arithmetic or conversion opcode pops and pushes: the operand
  kinds, deepest first, and the kind of the result.
\<close>

definition arith_type :: "u8 \<Rightarrow> (kind list \<times> kind) option" where
  "arith_type opcode =
     (if opcode \<in> {0x60, 0x64, 0x68, 0x6c, 0x70, 0x78, 0x7a, 0x7c, 0x7e, 0x80, 0x82} then Some ([KInt, KInt], KInt)
      else if opcode \<in> {0x61, 0x65, 0x69, 0x6d, 0x71, 0x7f, 0x81, 0x83} then Some ([KLong, KLong], KLong)
      else if opcode \<in> {0x79, 0x7b, 0x7d} then Some ([KLong, KInt], KLong)
      else if opcode \<in> {0x62, 0x66, 0x6a, 0x6e, 0x72} then Some ([KFloat, KFloat], KFloat)
      else if opcode \<in> {0x63, 0x67, 0x6b, 0x6f, 0x73} then Some ([KDouble, KDouble], KDouble)
      else if opcode = 0x74 then Some ([KInt], KInt)
      else if opcode = 0x75 then Some ([KLong], KLong)
      else if opcode = 0x76 then Some ([KFloat], KFloat)
      else if opcode = 0x77 then Some ([KDouble], KDouble)
      else None)"

definition convert_type :: "u8 \<Rightarrow> (kind list \<times> kind) option" where
  "convert_type opcode =
     (if opcode \<in> {0x91, 0x92, 0x93} then Some ([KInt], KInt)
      else if opcode = 0x85 then Some ([KInt], KLong)
      else if opcode = 0x86 then Some ([KInt], KFloat)
      else if opcode = 0x87 then Some ([KInt], KDouble)
      else if opcode = 0x88 then Some ([KLong], KInt)
      else if opcode = 0x89 then Some ([KLong], KFloat)
      else if opcode = 0x8a then Some ([KLong], KDouble)
      else if opcode = 0x8b then Some ([KFloat], KInt)
      else if opcode = 0x8c then Some ([KFloat], KLong)
      else if opcode = 0x8d then Some ([KFloat], KDouble)
      else if opcode = 0x8e then Some ([KDouble], KInt)
      else if opcode = 0x8f then Some ([KDouble], KLong)
      else if opcode = 0x90 then Some ([KDouble], KFloat)
      else if opcode = 0x94 then Some ([KLong, KLong], KInt)
      else if opcode \<in> {0x95, 0x96} then Some ([KFloat, KFloat], KInt)
      else if opcode \<in> {0x97, 0x98} then Some ([KDouble, KDouble], KInt)
      else None)"

end
