(* ===== verification/OpsMathLaws.thy ===== *)
theory OpsMathLaws
  imports OpsMath ObjectHeapLaws
begin

text \<open>
  What the arithmetic opcodes promise: well-typed operands give a result of the type the JVM
  specification names, division follows Java's rules, a zero divisor becomes a fresh exception
  object, and the conversions keep what a Java program may rely on.
\<close>

section \<open>Exceptions\<close>

text \<open>
  A handler threw a new object of class \<open>cls\<close>, or the allocation-failure signal; nothing but
  the object heap changed.
\<close>

definition throws :: "string \<Rightarrow> machine \<Rightarrow> (fault + 'a) \<times> machine \<Rightarrow> bool" where
  "throws cls s p \<longleftrightarrow>
     (\<exists>h. snd p = s\<lparr>vm_objects := h\<rparr> \<and>
        (fst p = Inl (Err StackOverflow) \<or>
         (\<exists>exc. fst p = Inl (Err (Exception exc)) \<and> ob_ok h \<and>
            ob_abs (vm_objects s) (unat exc) = None \<and>
            ob_abs h = (ob_abs (vm_objects s))(unat exc \<mapsto> (cls, [])))))"

text \<open>The heap can be asked for an object.\<close>

definition heap_ready :: "allocator \<Rightarrow> object_heap \<Rightarrow> bool" where
  "heap_ready al h \<longleftrightarrow> ob_ok h \<and> small_allocator al \<and> length (class_table h) < 2 ^ 16"

lemma runtime_fault_throws:
  assumes "heap_ready al (vm_objects s)"
  shows "throws cls s (runtime_fault al cls s :: (fault + 'a) \<times> machine)"
proof -
  let ?n = "default_field_count_for_native cls"
  obtain r h where a: "alloc_with_field_count al cls ?n (vm_objects s) = (r, h)" by fastforce
  have law: "case (r, h) of (Inl e, h') \<Rightarrow> False
    | (Inr None, h') \<Rightarrow> ob_ok h' \<and> ob_abs h' = ob_abs (vm_objects s) \<or> ?n = 0 \<and> fields_arena h' = []
    | (Inr (Some i), h') \<Rightarrow> allocated (vm_objects s) cls ?n i h'"
    using ob_alloc_law [where h = "vm_objects s" and al = al and name = cls and n = ?n] assms a
    by (simp add: heap_ready_def)
  show ?thesis
  proof (cases r)
    case (Inl e)
    then show ?thesis using law by simp
  next
    case (Inr x)
    then show ?thesis
      using law a
      by (cases x) (auto simp: throws_def runtime_fault_def ob_alloc_def action_simps allocated_def)
  qed
qed

section \<open>Running the arms\<close>

lemma unary_run:
  assumes "stack f = vs @ [a]" and "g a = Some v" and "length (stack f) \<le> stack_cap f"
  shows "unary al g f = (Inr (), f\<lparr>stack := vs @ [v]\<rparr>)"
  using assms pop_top [OF assms(1)] by (simp add: unary_def action_simps push_room)

lemma binary_run:
  assumes st: "stack f = vs @ [a, b]" and g: "g a b = Some v" and cap: "length (stack f) \<le> stack_cap f"
  shows "binary al g f = (Inr (), f\<lparr>stack := vs @ [v]\<rparr>)"
proof -
  have "pop f = (Inr b, f\<lparr>stack := vs @ [a]\<rparr>)" using st pop_top [of f "vs @ [a]" b] by simp
  moreover have "pop (f\<lparr>stack := vs @ [a]\<rparr>) = (Inr a, f\<lparr>stack := vs\<rparr>)" by simp
  ultimately show ?thesis using g cap st by (simp add: binary_def action_simps push_room)
qed

lemma division_run:
  assumes st: "stack (vm_frame s) = vs @ [a, b]" and cap: "length (stack (vm_frame s)) \<le> stack_cap (vm_frame s)"
  defines "popped \<equiv> s\<lparr>vm_frame := (vm_frame s)\<lparr>stack := vs\<rparr>\<rparr>"
  shows "a = VInt x \<Longrightarrow> b = VInt y \<Longrightarrow> int_division al g s =
      (if y = 0 then arithmetic_exception al popped
       else (Inr (), s\<lparr>vm_frame := (vm_frame s)\<lparr>stack := vs @ [VInt (g x y)]\<rparr>\<rparr>))"
    and "a = VLong x' \<Longrightarrow> b = VLong y' \<Longrightarrow> long_division al g' s =
      (if y' = 0 then arithmetic_exception al popped
       else (Inr (), s\<lparr>vm_frame := (vm_frame s)\<lparr>stack := vs @ [VLong (g' x' y')]\<rparr>\<rparr>))"
proof -
  have p: "pop (vm_frame s) = (Inr b, (vm_frame s)\<lparr>stack := vs @ [a]\<rparr>)"
    using st pop_top [of "vm_frame s" "vs @ [a]" b] by simp
  show "a = VInt x \<Longrightarrow> b = VInt y \<Longrightarrow> int_division al g s =
      (if y = 0 then arithmetic_exception al popped
       else (Inr (), s\<lparr>vm_frame := (vm_frame s)\<lparr>stack := vs @ [VInt (g x y)]\<rparr>\<rparr>))"
    and "a = VLong x' \<Longrightarrow> b = VLong y' \<Longrightarrow> long_division al g' s =
      (if y' = 0 then arithmetic_exception al popped
       else (Inr (), s\<lparr>vm_frame := (vm_frame s)\<lparr>stack := vs @ [VLong (g' x' y')]\<rparr>\<rparr>))"
    using p cap st
    by (simp_all add: int_division_def long_division_def action_simps popped_def push_room)
qed

section \<open>Typing\<close>

lemma operands_one:
  assumes "map kind_of xs = [k]"
  obtains a where "xs = [a]" "kind_of a = k"
  using assms by auto

lemma operands_two:
  assumes "map kind_of xs = [k, l]"
  obtains a b where "xs = [a, b]" "kind_of a = k" "kind_of b = l"
  using assms by auto

lemmas arms = from_int_arm_def from_long_arm_def from_float_arm_def from_double_arm_def compare_arm_def

lemma convert_opcodes:
  "convert_type opcode = Some (ks, k) \<Longrightarrow>
   opcode \<in> {0x85, 0x86, 0x87, 0x88, 0x89, 0x8a, 0x8b, 0x8c, 0x8d, 0x8e, 0x8f, 0x90, 0x91, 0x92, 0x93} \<and> length ks = 1 \<or>
   opcode \<in> {0x94, 0x95, 0x96, 0x97, 0x98} \<and> length ks = 2"
  by (auto simp: convert_type_def split: if_splits)

text \<open>The arm of a conversion opcode, and what it does to an operand of its kind.\<close>

lemma conversion_typed:
  assumes ty: "convert_type opcode = Some ([k], k')" and a: "kind_of a = k"
  shows "\<exists>g v. op_convert al lm opcode = unary al g \<and> g a = Some v \<and> kind_of v = k'"
proof -
  have "opcode \<in> {0x85, 0x86, 0x87, 0x88, 0x89, 0x8a, 0x8b, 0x8c, 0x8d, 0x8e, 0x8f, 0x90, 0x91, 0x92, 0x93}"
    using convert_opcodes [OF ty] by simp
  then show ?thesis
    using ty a
    by (elim insertE emptyE; cases a; simp add: convert_type_def op_convert_def arms; fastforce)
qed

lemma comparison_typed:
  assumes ty: "convert_type opcode = Some ([k, l], k')" and ab: "kind_of a = k" "kind_of b = l"
  shows "\<exists>g v. op_convert al lm opcode = binary al g \<and> g a b = Some v \<and> kind_of v = k'"
proof -
  have "opcode \<in> {0x94, 0x95, 0x96, 0x97, 0x98}" using convert_opcodes [OF ty] by simp
  then show ?thesis
    using ty ab
    by (elim insertE emptyE; cases a; simp add: convert_type_def; cases b; simp add: op_convert_def arms; fastforce)
qed

lemma convert_type_shape:
  "convert_type opcode = Some (ks, k) \<Longrightarrow> (\<exists>k1. ks = [k1]) \<or> (\<exists>k1 k2. ks = [k1, k2])"
  by (auto simp: convert_type_def split: if_splits)

lemma op_convert_typed_law:
  assumes ty: "convert_type opcode = Some (ks, k)" and st: "stack f = vs @ xs" "map kind_of xs = ks"
    and cap: "length (stack f) \<le> stack_cap f"
  shows "\<exists>v. op_convert al lm opcode f = (Inr (), f\<lparr>stack := vs @ [v]\<rparr>) \<and> kind_of v = k"
  using convert_type_shape [OF ty]
proof (elim disjE exE)
  fix k1 assume ks: "ks = [k1]"
  then obtain a where a: "xs = [a]" "kind_of a = k1" using operands_one st(2) by metis
  obtain g v where g: "op_convert al lm opcode = unary al g" "g a = Some v" "kind_of v = k"
    using conversion_typed [OF ty [unfolded ks] a(2)] by blast
  then show ?thesis using unary_run [of f vs a g v al] st(1) a cap by auto
next
  fix k1 k2 assume ks: "ks = [k1, k2]"
  then obtain a b where ab: "xs = [a, b]" "kind_of a = k1" "kind_of b = k2" using operands_two st(2) by metis
  obtain g v where g: "op_convert al lm opcode = binary al g" "g a b = Some v" "kind_of v = k"
    using comparison_typed [OF ty [unfolded ks] ab(2,3)] by blast
  then show ?thesis using binary_run [of f vs a b g v al] st(1) ab(1) cap by auto
qed

text \<open>The same for the arithmetic opcodes, division apart.\<close>

definition division_opcode :: "u8 \<Rightarrow> bool" where
  "division_opcode opcode \<longleftrightarrow> opcode \<in> {0x6c, 0x70, 0x6d, 0x71}"

lemmas math_arms = int_arm_def long_arm_def long_shift_arm_def float_arm_def double_arm_def neg_arm_def

lemma arith_opcodes:
  "arith_type opcode = Some (ks, k) \<Longrightarrow> \<not> division_opcode opcode \<Longrightarrow>
   opcode \<in> {0x60, 0x64, 0x68, 0x78, 0x7a, 0x7c, 0x7e, 0x80, 0x82, 0x61, 0x65, 0x69, 0x7f, 0x81, 0x83,
     0x79, 0x7b, 0x7d, 0x62, 0x66, 0x6a, 0x6e, 0x72, 0x63, 0x67, 0x6b, 0x6f, 0x73} \<and> length ks = 2 \<or>
   opcode \<in> {0x74, 0x75, 0x76, 0x77} \<and> length ks = 1"
  by (auto simp: arith_type_def division_opcode_def split: if_splits)

lemma negation_typed:
  assumes ty: "arith_type opcode = Some ([k], k')" and a: "kind_of a = k"
  shows "\<exists>g v. op_math al lm opcode code = on_frame (unary al g) \<and> g a = Some v \<and> kind_of v = k'"
proof -
  have "\<not> division_opcode opcode" using ty by (auto simp: arith_type_def division_opcode_def split: if_splits)
  then have "opcode \<in> {0x74, 0x75, 0x76, 0x77}" using arith_opcodes [OF ty] by simp
  then show ?thesis
    using ty a
    by (elim insertE emptyE; cases a; simp add: arith_type_def op_math_def math_arms; fastforce)
qed

text \<open>The five families of binary arms, each with its opcodes.\<close>

lemma int_family:
  "opcode \<in> {0x60, 0x64, 0x68, 0x78, 0x7a, 0x7c, 0x7e, 0x80, 0x82} \<Longrightarrow>
   arith_type opcode = Some ([KInt, KInt], KInt) \<and> (\<exists>g. op_math al lm opcode code = on_frame (binary al (on_ints g)))"
  by (elim insertE emptyE; simp add: arith_type_def op_math_def int_arm_def; blast)

lemma long_family:
  "opcode \<in> {0x61, 0x65, 0x69, 0x7f, 0x81, 0x83} \<Longrightarrow>
   arith_type opcode = Some ([KLong, KLong], KLong) \<and>
   (\<exists>g. op_math al lm opcode code = on_frame (binary al (on_longs g)))"
  by (elim insertE emptyE; simp add: arith_type_def op_math_def int_arm_def long_arm_def; blast)

lemma long_shift_family:
  "opcode \<in> {0x79, 0x7b, 0x7d} \<Longrightarrow>
   arith_type opcode = Some ([KLong, KInt], KLong) \<and>
   (\<exists>g. op_math al lm opcode code = on_frame (binary al (on_long_int g)))"
  by (elim insertE emptyE; simp add: arith_type_def op_math_def int_arm_def long_arm_def long_shift_arm_def; blast)

lemma float_family:
  "opcode \<in> {0x62, 0x66, 0x6a, 0x6e, 0x72} \<Longrightarrow>
   arith_type opcode = Some ([KFloat, KFloat], KFloat) \<and>
   (\<exists>g. op_math al lm opcode code = on_frame (binary al (on_floats g)))"
  by (elim insertE emptyE;
      simp add: arith_type_def op_math_def int_arm_def long_arm_def long_shift_arm_def float_arm_def; blast)

lemma double_family:
  "opcode \<in> {0x63, 0x67, 0x6b, 0x6f, 0x73} \<Longrightarrow>
   arith_type opcode = Some ([KDouble, KDouble], KDouble) \<and>
   (\<exists>g. op_math al lm opcode code = on_frame (binary al (on_doubles g)))"
  by (elim insertE emptyE;
      simp add: arith_type_def op_math_def int_arm_def long_arm_def long_shift_arm_def float_arm_def double_arm_def;
      blast)

lemma arithmetic_typed:
  assumes ty: "arith_type opcode = Some ([k, l], k')" and nd: "\<not> division_opcode opcode"
    and ab: "kind_of a = k" "kind_of b = l"
  shows "\<exists>g v. op_math al lm opcode code = on_frame (binary al g) \<and> g a b = Some v \<and> kind_of v = k'"
proof -
  consider "opcode \<in> {0x60, 0x64, 0x68, 0x78, 0x7a, 0x7c, 0x7e, 0x80, 0x82}"
    | "opcode \<in> {0x61, 0x65, 0x69, 0x7f, 0x81, 0x83}" | "opcode \<in> {0x79, 0x7b, 0x7d}"
    | "opcode \<in> {0x62, 0x66, 0x6a, 0x6e, 0x72}" | "opcode \<in> {0x63, 0x67, 0x6b, 0x6f, 0x73}"
    using arith_opcodes [OF ty nd] by auto
  then show ?thesis
  proof cases
    case 1
    note fam = int_family [OF 1, of al lm code]
    then obtain x y where "a = VInt x" "b = VInt y" using ty ab kind_elims(1) by fastforce
    with fam ty show ?thesis by (fastforce simp: on_ints_def)
  next
    case 2
    note fam = long_family [OF 2, of al lm code]
    then obtain x y where "a = VLong x" "b = VLong y" using ty ab kind_elims(2) by fastforce
    with fam ty show ?thesis by (fastforce simp: on_longs_def)
  next
    case 3
    note fam = long_shift_family [OF 3, of al lm code]
    then obtain x y where "a = VLong x" "b = VInt y" using ty ab kind_elims(1,2) by fastforce
    with fam ty show ?thesis by (fastforce simp: on_long_int_def)
  next
    case 4
    note fam = float_family [OF 4, of al lm code]
    then obtain x y where "a = VFloat x" "b = VFloat y" using ty ab kind_elims(3) by fastforce
    with fam ty show ?thesis by (fastforce simp: on_floats_def)
  next
    case 5
    note fam = double_family [OF 5, of al lm code]
    then obtain x y where "a = VDouble x" "b = VDouble y" using ty ab kind_elims(4) by fastforce
    with fam ty show ?thesis by (fastforce simp: on_doubles_def)
  qed
qed

lemma arith_type_shape:
  "arith_type opcode = Some (ks, k) \<Longrightarrow> (\<exists>k1. ks = [k1]) \<or> (\<exists>k1 k2. ks = [k1, k2])"
  by (auto simp: arith_type_def split: if_splits)

abbreviation with_stack :: "jvm_value list \<Rightarrow> machine \<Rightarrow> machine" where
  "with_stack vs s \<equiv> s\<lparr>vm_frame := (vm_frame s)\<lparr>stack := vs\<rparr>\<rparr>"

lemma op_math_typed_law:
  assumes ty: "arith_type opcode = Some (ks, k)" and nd: "\<not> division_opcode opcode"
    and st: "stack (vm_frame s) = vs @ xs" "map kind_of xs = ks"
    and cap: "length (stack (vm_frame s)) \<le> stack_cap (vm_frame s)"
  shows "\<exists>v. op_math al lm opcode code s = (Inr (), with_stack (vs @ [v]) s) \<and> kind_of v = k"
  using arith_type_shape [OF ty]
proof (elim disjE exE)
  fix k1 assume ks: "ks = [k1]"
  then obtain a where a: "xs = [a]" "kind_of a = k1" using operands_one st(2) by metis
  obtain g v where g: "op_math al lm opcode code = on_frame (unary al g)" "g a = Some v" "kind_of v = k"
    using negation_typed [OF ty [unfolded ks] a(2)] by blast
  then show ?thesis using unary_run [of "vm_frame s" vs a g v al] st(1) a cap by (auto simp: on_frame_def)
next
  fix k1 k2 assume ks: "ks = [k1, k2]"
  then obtain a b where ab: "xs = [a, b]" "kind_of a = k1" "kind_of b = k2" using operands_two st(2) by metis
  obtain g v where g: "op_math al lm opcode code = on_frame (binary al g)" "g a b = Some v" "kind_of v = k"
    using arithmetic_typed [OF ty [unfolded ks] nd ab(2,3)] by blast
  then show ?thesis using binary_run [of "vm_frame s" vs a b g v al] st(1) ab(1) cap by (auto simp: on_frame_def)
qed

text \<open>Division: the quotient and remainder of the operands, or the exception.\<close>

lemma division_law:
  assumes op: "division_opcode opcode" and ty: "arith_type opcode = Some (ks, k)"
    and st: "stack (vm_frame s) = vs @ xs" "map kind_of xs = ks"
    and cap: "length (stack (vm_frame s)) \<le> stack_cap (vm_frame s)" and ready: "heap_ready al (vm_objects s)"
  shows "(\<exists>v. op_math al lm opcode code s = (Inr (), with_stack (vs @ [v]) s) \<and> kind_of v = k) \<or>
    throws java_lang_ArithmeticException (with_stack vs s) (op_math al lm opcode code s)"
proof -
  have ks: "(opcode = 0x6c \<or> opcode = 0x70) \<and> ks = [KInt, KInt] \<and> k = KInt \<or>
    (opcode = 0x6d \<or> opcode = 0x71) \<and> ks = [KLong, KLong] \<and> k = KLong"
    using op ty by (auto simp: division_opcode_def arith_type_def)
  have thr: "throws java_lang_ArithmeticException (with_stack vs s) (arithmetic_exception al (with_stack vs s))"
    unfolding arithmetic_exception_def by (rule runtime_fault_throws) (use ready in simp)
  show ?thesis
  proof (cases "opcode = 0x6c \<or> opcode = 0x70")
    case True
    then obtain x y where xy: "xs = [VInt x, VInt y]"
      using ks st(2) operands_two [of xs KInt KInt] kind_elims(1) True by fastforce
    have "op_math al lm opcode code = int_division al (if opcode = 0x6c then wrapping_div else wrapping_rem)"
      using True by (auto simp: op_math_def math_arms)
    then show ?thesis
      using division_run(1) [of s vs "VInt x" "VInt y" x y al] st(1) xy cap thr ks True by auto
  next
    case False
    then have lo: "opcode = 0x6d \<or> opcode = 0x71" "ks = [KLong, KLong]" using ks by auto
    then obtain x y where xy: "xs = [VLong x, VLong y]"
      using st(2) operands_two [of xs KLong KLong] kind_elims(2) by metis
    have "op_math al lm opcode code = long_division al (if opcode = 0x6d then wrapping_div else wrapping_rem)"
      using lo(1) by (auto simp: op_math_def math_arms)
    then show ?thesis
      using division_run(2) [of s vs "VLong x" "VLong y" x y al] st(1) xy cap thr ks False by auto
  qed
qed

section \<open>Division in Java\<close>

lemma smod_bounds:
  fixes a b :: int
  assumes "b \<noteq> 0"
  shows "\<bar>a smod b\<bar> < \<bar>b\<bar>" and "a smod b \<noteq> 0 \<Longrightarrow> (a smod b < 0) = (a < 0)"
proof -
  have m: "0 \<le> \<bar>a\<bar> mod \<bar>b\<bar>" "\<bar>a\<bar> mod \<bar>b\<bar> < \<bar>b\<bar>" using assms by simp_all
  have e: "a smod b = (if 0 < a then \<bar>a\<bar> mod \<bar>b\<bar> else if a = 0 then 0 else - (\<bar>a\<bar> mod \<bar>b\<bar>))"
    by (simp add: signed_modulo_int_def sgn_if)
  show "\<bar>a smod b\<bar> < \<bar>b\<bar>" unfolding e using m assms by (simp split: if_splits)
  show "a smod b \<noteq> 0 \<Longrightarrow> (a smod b < 0) = (a < 0)"
    unfolding e using m(1) by (simp split: if_splits)
qed

text \<open>A quotient and remainder of words: the Java rules, overflow included.\<close>

definition java_quotient :: "'a::len word \<Rightarrow> 'a word \<Rightarrow> 'a word \<Rightarrow> 'a word \<Rightarrow> bool" where
  "java_quotient x y q r \<longleftrightarrow>
     x = q * y + r \<and> \<bar>sint r\<bar> < \<bar>sint y\<bar> \<and> (r \<noteq> 0 \<longrightarrow> (sint r < 0) = (sint x < 0))"

lemma wrapping_division:
  fixes x y :: "'a::len word"
  assumes "y \<noteq> 0"
  shows "java_quotient x y (wrapping_div x y) (wrapping_rem x y)"
proof -
  have zero: "sint w = 0 \<longleftrightarrow> w = 0" for w :: "'a word" by (metis signed_word_eqI signed_0)
  have y: "sint y \<noteq> 0" using assms zero by blast
  note bounds = smod_bounds [OF y, of "sint x"]
  have range: "sint (of_int (sint x smod sint y) :: 'a word) = sint x smod sint y"
  proof -
    have "\<bar>sint y\<bar> \<le> 2 ^ (LENGTH('a) - 1)"
      using sint_range_size [of y] by (simp add: word_size abs_le_iff)
    then have "- (2 ^ (LENGTH('a) - Suc 0)) \<le> sint x smod sint y" "sint x smod sint y < 2 ^ (LENGTH('a) - Suc 0)"
      using bounds(1) by simp_all
    then show ?thesis by (simp add: signed_of_int signed_take_bit_int_eq_self)
  qed
  have "x = of_int (sint x)" by simp
  also have "sint x = sint x sdiv sint y * sint y + sint x smod sint y"
    by (rule sdiv_mult_smod_eq [symmetric])
  also have "(of_int \<dots> :: 'a word) = wrapping_div x y * y + wrapping_rem x y"
    by (simp add: wrapping_div_def wrapping_rem_def)
  finally have id: "x = wrapping_div x y * y + wrapping_rem x y" .
  have r: "sint (wrapping_rem x y) = sint x smod sint y" by (simp add: wrapping_rem_def range)
  then have "wrapping_rem x y \<noteq> 0 \<longleftrightarrow> sint x smod sint y \<noteq> 0" using zero by metis
  with id r bounds show ?thesis unfolding java_quotient_def by auto
qed

section \<open>Conversions that lose nothing\<close>

text \<open>
  What \<open>libm\<close> documents of \<open>trunc\<close> and the conversions rely on: a finite value without a
  fraction is its own truncation.
\<close>

definition trunc_keeps_integers :: "libm \<Rightarrow> bool" where
  "trunc_keeps_integers lm \<longleftrightarrow>
     (\<forall>d s n. fp_decode 52 11 (unat d) = FFin s (n * 2 ^ 1074) \<longrightarrow> lm_trunc lm d = d)"

lemma sint_small: "\<bar>sint (n :: i32)\<bar> < 2 ^ 53"
  using sint_range_size [of n] by (simp add: word_size abs_less_iff)

lemma clamp_sint: "clamp 32 (sint (n :: i32)) = sint n"
  using sint_range_size [of n] by (simp add: clamp_def word_size)

lemma double_of_int_back:
  assumes "trunc_keeps_integers lm"
  shows "d2i lm (f64_of_int (sint n)) = (n :: i32)"
proof -
  let ?v = "sint n"
  note e = int_as_double [OF sint_small [of n]]
  have u: "unat (f64_of_int ?v) = fp_of_int 52 11 ?v"
    using e unfolding f64_of_int_def by (intro word_of_bits64) blast
  have dec: "fp_decode 52 11 (unat (f64_of_int ?v)) = FFin (?v < 0) (nat \<bar>?v\<bar> * 2 ^ 1074)"
    unfolding u using e by blast
  then have "lm_trunc lm (f64_of_int ?v) = f64_of_int ?v"
    using assms unfolding trunc_keeps_integers_def by blast
  moreover have "fp_to_int 52 11 32 (unat (f64_of_int ?v)) = clamp 32 (signed_mag (?v < 0) (nat \<bar>?v\<bar>))"
    unfolding fp_to_int_def dec fp_unit_values fp.case by (simp only: nonzero_mult_div_cancel_right power_not_zero zero_neq_numeral not_False_eq_True)
  moreover have "signed_mag (?v < 0) (nat \<bar>?v\<bar>) = ?v" by (simp add: signed_mag_def)
  ultimately show ?thesis by (simp add: d2i_def f64_to_i32_def clamp_sint)
qed

lemma float_widened_back:
  assumes "fp_decode 23 8 (unat a) \<noteq> FNaN"
  shows "f64_to_f32 (f32_to_f64 a) = a"
proof -
  have "unat a < 2 ^ 32" using unsigned_less [of a] by simp
  note w = widen_narrow [OF assms this]
  have "unat (f32_to_f64 a) = fp_convert 23 8 52 11 (unat a)"
    using w unfolding f32_to_f64_def by (intro word_of_bits64) blast
  then show ?thesis using w by (simp add: f64_to_f32_def)
qed

section \<open>Properties\<close>


text \<open>
  A machine with an operand stack and a heap of one object, and a stand-in for \<open>libm\<close> that
  truncates integers correctly.
\<close>

definition plain_libm :: libm where
  "plain_libm = \<lparr>lm_fmodf = f32_add, lm_fmod = f64_add, lm_truncf = id, lm_trunc = id\<rparr>"

definition small_machine :: "jvm_value list \<Rightarrow> machine" where
  "small_machine vs =
     \<lparr>vm_frame = stack_frame vs, vm_objects = small_object_heap, vm_arrays = ah_new 0 8, vm_strings = st_new 0\<rparr>"

lemma small_machine_ready: "heap_ready (\<lambda>k n. n < 100) (vm_objects (small_machine vs))"
  using small_object_heap_ok below_100 by (simp add: heap_ready_def small_machine_def)

lemma small_machine_frame [simp]: "vm_frame (small_machine vs) = stack_frame vs"
  by (simp add: small_machine_def)

lemma stack_frame_simps [simp]: "stack (stack_frame vs) = vs" "stack_cap (stack_frame vs) = 8"
  by (simp_all add: stack_frame_def make_frame_def)


text \<open>
  The conversion and comparison opcodes are type safe: on operands of the specified kinds
  they always return, with one result of the specified kind and no other change.
\<close>

theorem op_convert_typed:
  assumes "convert_type opcode = Some (ks, k)" and "stack f = vs @ xs" "map kind_of xs = ks"
    and "length (stack f) \<le> stack_cap f"
  shows "\<exists>v. op_convert al lm opcode f = (Inr (), f\<lparr>stack := vs @ [v]\<rparr>) \<and> kind_of v = k"
  using assms by (rule op_convert_typed_law)

theorem op_convert_typed_witness:
  "\<exists>v. op_convert (\<lambda>_ _. False) plain_libm 0x94 (stack_frame [VLong 5, VLong 9]) = (Inr (), (stack_frame [VLong 5, VLong 9])\<lparr>stack := [v]\<rparr>) \<and>
     kind_of v = KInt"
  using op_convert_typed [of "0x94" "[KLong, KLong]" KInt "stack_frame [VLong 5, VLong 9]" "[]" "[VLong 5, VLong 9]"]
  by (simp add: convert_type_def)

text \<open>
  Integer division is Java's: for a nonzero divisor \<open>idiv\<close> and \<open>irem\<close> push a quotient
  and a remainder with \<open>x = q * y + r\<close>, the remainder smaller than the divisor and signed like
  the dividend, the one overflowing quotient wrapping; a zero divisor throws. The same holds of
  the \<open>long\<close> pair.
\<close>

theorem java_division:
  assumes st: "stack (vm_frame s) = vs @ [VInt x, VInt y]"
    and st': "stack (vm_frame s') = vs' @ [VLong x', VLong y']"
    and cap: "length (stack (vm_frame s)) \<le> stack_cap (vm_frame s)" "length (stack (vm_frame s')) \<le> stack_cap (vm_frame s')"
    and ready: "heap_ready al (vm_objects s)" "heap_ready al (vm_objects s')"
  shows "(if y = 0
     then throws java_lang_ArithmeticException (with_stack vs s) (op_math al lm 0x6c code s) \<and>
       throws java_lang_ArithmeticException (with_stack vs s) (op_math al lm 0x70 code s)
     else \<exists>q r. op_math al lm 0x6c code s = (Inr (), with_stack (vs @ [VInt q]) s) \<and>
       op_math al lm 0x70 code s = (Inr (), with_stack (vs @ [VInt r]) s) \<and> java_quotient x y q r) \<and>
    (if y' = 0
     then throws java_lang_ArithmeticException (with_stack vs' s') (op_math al lm 0x6d code s') \<and>
       throws java_lang_ArithmeticException (with_stack vs' s') (op_math al lm 0x71 code s')
     else \<exists>q r. op_math al lm 0x6d code s' = (Inr (), with_stack (vs' @ [VLong q]) s') \<and>
       op_math al lm 0x71 code s' = (Inr (), with_stack (vs' @ [VLong r]) s') \<and> java_quotient x' y' q r)"
proof -
  have ops: "op_math al lm 0x6c code = int_division al wrapping_div" "op_math al lm 0x70 code = int_division al wrapping_rem"
    "op_math al lm 0x6d code = long_division al wrapping_div" "op_math al lm 0x71 code = long_division al wrapping_rem"
    by (simp_all add: op_math_def math_arms)
  have thr: "throws java_lang_ArithmeticException (with_stack ws t)
      (arithmetic_exception al (with_stack ws t) :: (fault + unit) \<times> machine)"
    if "heap_ready al (vm_objects t)" for ws t
    unfolding arithmetic_exception_def by (rule runtime_fault_throws) (use that in simp)
  note int = division_run(1) [OF st cap(1) refl refl, of al] and long = division_run(2) [OF st' cap(2) refl refl, of al]
  have i: "if y = 0
     then throws java_lang_ArithmeticException (with_stack vs s) (op_math al lm 0x6c code s) \<and>
       throws java_lang_ArithmeticException (with_stack vs s) (op_math al lm 0x70 code s)
     else \<exists>q r. op_math al lm 0x6c code s = (Inr (), with_stack (vs @ [VInt q]) s) \<and>
       op_math al lm 0x70 code s = (Inr (), with_stack (vs @ [VInt r]) s) \<and> java_quotient x y q r"
    unfolding ops int using thr [OF ready(1)] wrapping_division [of y x] by auto
  have l: "if y' = 0
     then throws java_lang_ArithmeticException (with_stack vs' s') (op_math al lm 0x6d code s') \<and>
       throws java_lang_ArithmeticException (with_stack vs' s') (op_math al lm 0x71 code s')
     else \<exists>q r. op_math al lm 0x6d code s' = (Inr (), with_stack (vs' @ [VLong q]) s') \<and>
       op_math al lm 0x71 code s' = (Inr (), with_stack (vs' @ [VLong r]) s') \<and> java_quotient x' y' q r"
    unfolding ops long using thr [OF ready(2)] wrapping_division [of y' x'] by auto
  show ?thesis using i l by (rule conjI)
qed

theorem java_division_witness:
  "\<exists>q r. op_math (\<lambda>k n. n < 100) plain_libm 0x6c [] (small_machine [VInt (- 7), VInt 2]) =
       (Inr (), with_stack [VInt q] (small_machine [VInt (- 7), VInt 2])) \<and>
     op_math (\<lambda>k n. n < 100) plain_libm 0x70 [] (small_machine [VInt (- 7), VInt 2]) =
       (Inr (), with_stack [VInt r] (small_machine [VInt (- 7), VInt 2])) \<and> java_quotient (- 7) 2 q r"
  using java_division [of "small_machine [VInt (- 7), VInt 2]" "[]" "- 7" 2
      "small_machine [VLong 1, VLong 0]" "[]" 1 0 "\<lambda>k n. n < 100" plain_libm "[]"] small_machine_ready
  by simp

text \<open>
  The conversions that Java promises to be lossless are: an \<open>int\<close> taken to \<open>double\<close> and
  back, an \<open>int\<close> taken to \<open>long\<close> and back, and a \<open>float\<close> that is not a NaN taken to
  \<open>double\<close> and back leave the operand stack as it was.
\<close>

theorem lossless_conversions:
  assumes "trunc_keeps_integers lm" and "fp_decode 23 8 (unat a) \<noteq> FNaN"
    and cap: "length vs < stack_cap f"
  shows "andThen (op_convert al lm 0x87) (\<lambda>_. op_convert al lm 0x8e) (f\<lparr>stack := vs @ [VInt n]\<rparr>) =
      (Inr (), f\<lparr>stack := vs @ [VInt n]\<rparr>) \<and>
    andThen (op_convert al lm 0x85) (\<lambda>_. op_convert al lm 0x88) (f\<lparr>stack := vs @ [VInt n]\<rparr>) =
      (Inr (), f\<lparr>stack := vs @ [VInt n]\<rparr>) \<and>
    andThen (op_convert al lm 0x8d) (\<lambda>_. op_convert al lm 0x90) (f\<lparr>stack := vs @ [VFloat a]\<rparr>) =
      (Inr (), f\<lparr>stack := vs @ [VFloat a]\<rparr>)"
proof -
  have run: "unary al g (f\<lparr>stack := vs @ [v]\<rparr>) = (Inr (), f\<lparr>stack := vs @ [w]\<rparr>)" if "g v = Some w" for g v w
    using unary_run [of "f\<lparr>stack := vs @ [v]\<rparr>" vs v g w al] that cap by simp
  have long: "ucast (scast n :: i64) = n"
    by (rule bit_word_eqI) (auto simp: bit_unsigned_iff bit_signed_iff)
  show ?thesis
    using double_of_int_back [OF assms(1), of n] float_widened_back [OF assms(2)] long
    by (simp add: op_convert_def arms andThen_run run)
qed

theorem lossless_conversions_witness:
  "andThen (op_convert (\<lambda>_ _. False) plain_libm 0x87)
     (\<lambda>_. op_convert (\<lambda>_ _. False) plain_libm 0x8e)
     (stack_frame [VInt (- 5)]) = (Inr (), stack_frame [VInt (- 5)])"
proof -
  have "trunc_keeps_integers plain_libm" by (simp add: trunc_keeps_integers_def plain_libm_def)
  moreover have "fp_decode 23 8 (unat (0 :: f32)) \<noteq> FNaN" by (simp add: fp_decode_def Let_def)
  ultimately show ?thesis
    using lossless_conversions [of plain_libm 0 "[]" "stack_frame [VInt (- 5)]" "\<lambda>_ _. False" "- 5"]
    by (simp add: stack_frame_def make_frame_def)
qed

end
