(* ===== verification/OpsFlow.thy ===== *)
theory OpsFlow
  imports OpsMath
begin

text \<open>
  Constants, locals and control flow: \<open>ops_constants.rs\<close>, \<open>ops_locals.rs\<close>, \<open>ops_wide.rs\<close>,
  \<open>ops_control.rs\<close> and \<open>helpers::branch_target\<close>. The opcodes that read the constant pool
  (\<open>ldc\<close>, \<open>checkcast\<close>, \<open>instanceof\<close>) are not here.
\<close>

section \<open>Constants\<close>

text \<open>The arms that push a constant: floating-point ones by their bits.\<close>

definition constant_arm :: "u8 \<Rightarrow> jvm_value option" where
  "constant_arm opcode =
     (if opcode = 0x01 then Some VNull
      else if opcode = 0x02 then Some (VInt (- 1))
      else if opcode = 0x03 then Some (VInt 0)
      else if opcode = 0x04 then Some (VInt 1)
      else if opcode = 0x05 then Some (VInt 2)
      else if opcode = 0x06 then Some (VInt 3)
      else if opcode = 0x07 then Some (VInt 4)
      else if opcode = 0x08 then Some (VInt 5)
      else if opcode = 0x09 then Some (VLong 0)
      else if opcode = 0x0a then Some (VLong 1)
      else if opcode = 0x0e then Some (VDouble 0)
      else if opcode = 0x0f then Some (VDouble 0x3FF0000000000000)
      else if opcode = 0x0b then Some (VFloat 0)
      else if opcode = 0x0c then Some (VFloat 0x3F800000)
      else if opcode = 0x0d then Some (VFloat 0x40000000)
      else None)"

definition op_bipush :: "allocator \<Rightarrow> u8 list \<Rightarrow> (frame, fault, unit) action" where
  "op_bipush al code = andThen (fetch8 code) (\<lambda>b. push (al ValueBuf) (VInt (scast b)))"

definition op_sipush :: "allocator \<Rightarrow> u8 list \<Rightarrow> (frame, fault, unit) action" where
  "op_sipush al code =
     andThen get_pc (\<lambda>p. andThen (code_at code p) (\<lambda>h. andThen (code_at code (p + 1)) (\<lambda>l.
     andThen (set_pc (p + 2)) (\<lambda>_.
       push (al ValueBuf) (VInt (scast (push_bit 8 (ucast h) OR ucast l :: 16 word)))))))"

definition op_constants :: "allocator \<Rightarrow> u8 \<Rightarrow> u8 list \<Rightarrow> (frame, fault, unit) action" where
  "op_constants al opcode code =
     (if opcode = 0x00 then ret ()
      else case constant_arm opcode of
             Some v \<Rightarrow> push (al ValueBuf) v
           | None \<Rightarrow>
               if opcode = 0x10 then op_bipush al code
               else if opcode = 0x11 then op_sipush al code
               else throw (Err (UnsupportedOpcode opcode)))"

section \<open>Locals\<close>

definition load_to_stack :: "allocator \<Rightarrow> u16 \<Rightarrow> (frame, fault, unit) action" where
  "load_to_stack al idx = andThen (load_local idx) (\<lambda>v. push (al ValueBuf) v)"

definition store_from_stack :: "allocator \<Rightarrow> u16 \<Rightarrow> (frame, fault, unit) action" where
  "store_from_stack al idx = andThen pop (\<lambda>v. store_local (al ValueBuf) idx v)"

definition op_locals_load :: "allocator \<Rightarrow> u8 \<Rightarrow> u8 list \<Rightarrow> (frame, fault, unit) action" where
  "op_locals_load al opcode code =
     (if 0x15 \<le> opcode \<and> opcode \<le> 0x19 then andThen (fetch8 code) (\<lambda>i. load_to_stack al (ucast i))
      else if opcode \<in> {0x1a, 0x1e, 0x22, 0x26, 0x2a} then load_to_stack al 0
      else if opcode \<in> {0x1b, 0x1f, 0x23, 0x27, 0x2b} then load_to_stack al 1
      else if opcode \<in> {0x1c, 0x20, 0x24, 0x28, 0x2c} then load_to_stack al 2
      else if opcode \<in> {0x1d, 0x21, 0x25, 0x29, 0x2d} then load_to_stack al 3
      else throw (Err (UnsupportedOpcode opcode)))"

definition op_locals_store :: "allocator \<Rightarrow> u8 \<Rightarrow> u8 list \<Rightarrow> (frame, fault, unit) action" where
  "op_locals_store al opcode code =
     (if 0x36 \<le> opcode \<and> opcode \<le> 0x3a then andThen (fetch8 code) (\<lambda>i. store_from_stack al (ucast i))
      else if opcode \<in> {0x3b, 0x3f, 0x43, 0x47, 0x4b} then store_from_stack al 0
      else if opcode \<in> {0x3c, 0x40, 0x44, 0x48, 0x4c} then store_from_stack al 1
      else if opcode \<in> {0x3d, 0x41, 0x45, 0x49, 0x4d} then store_from_stack al 2
      else if opcode \<in> {0x3e, 0x42, 0x46, 0x4a, 0x4e} then store_from_stack al 3
      else throw (Err (UnsupportedOpcode opcode)))"

text \<open>\<open>wide\<close>.\<close>

definition op_wide :: "allocator \<Rightarrow> u8 list \<Rightarrow> (frame, fault, unit) action" where
  "op_wide al code =
     andThen (fetch8 code) (\<lambda>real_op. andThen (fetch16 code) (\<lambda>idx.
       if 0x15 \<le> real_op \<and> real_op \<le> 0x19 then load_to_stack al idx
       else if 0x36 \<le> real_op \<and> real_op \<le> 0x3a then store_from_stack al idx
       else if real_op = 0x84 then andThen (fetch16 code) (\<lambda>inc. add_to_local al idx (scast inc))
       else throw (Err (UnsupportedOpcode real_op))))"

section \<open>Branches\<close>

text \<open>
  \<open>(pc as i32 - 3 + offset as i32) as usize\<close>, and the same from the instruction itself for
  the switches and \<open>goto\<close>.
\<close>

definition branch_target :: "nat \<Rightarrow> u16 \<Rightarrow> nat" where
  "branch_target pc_after_offset offset = unat (of_nat pc_after_offset - 3 + scast offset :: i32)"

definition jump_from :: "nat \<Rightarrow> i32 \<Rightarrow> nat" where
  "jump_from inst offset = unat (of_nat inst + offset)"

text \<open>The offset, then the operands, then the branch when the condition holds of them.\<close>

definition take_branch :: "u16 \<Rightarrow> bool \<Rightarrow> (frame, fault, unit) action" where
  "take_branch offset c =
     (if c then andThen get_pc (\<lambda>p. set_pc (branch_target p offset)) else ret ())"

definition branch_unary :: "(jvm_value \<Rightarrow> bool) \<Rightarrow> u8 list \<Rightarrow> (frame, fault, unit) action" where
  "branch_unary c code = andThen (fetch16 code) (\<lambda>offset. andThen pop (\<lambda>v. take_branch offset (c v)))"

definition branch_binary :: "(jvm_value \<Rightarrow> jvm_value \<Rightarrow> bool) \<Rightarrow> u8 list \<Rightarrow> (frame, fault, unit) action" where
  "branch_binary c code =
     andThen (fetch16 code) (\<lambda>offset. andThen pop (\<lambda>b. andThen pop (\<lambda>a. take_branch offset (c a b))))"

definition int_test :: "(int \<Rightarrow> bool) \<Rightarrow> jvm_value \<Rightarrow> bool" where
  "int_test c v = (case v of VInt n \<Rightarrow> c (sint n) | _ \<Rightarrow> False)"

definition int_compare :: "(int \<Rightarrow> int \<Rightarrow> bool) \<Rightarrow> jvm_value \<Rightarrow> jvm_value \<Rightarrow> bool" where
  "int_compare c a b = (case (a, b) of (VInt x, VInt y) \<Rightarrow> c (sint x) (sint y) | _ \<Rightarrow> False)"

definition is_zero :: "jvm_value \<Rightarrow> bool" where
  "is_zero v \<longleftrightarrow> v = VInt 0 \<or> v = VNull"

definition unary_test :: "u8 \<Rightarrow> (jvm_value \<Rightarrow> bool) option" where
  "unary_test opcode =
     (if opcode = 0x99 then Some is_zero
      else if opcode = 0x9a then Some (\<lambda>v. \<not> is_zero v)
      else if opcode = 0x9b then Some (int_test (\<lambda>n. n < 0))
      else if opcode = 0x9c then Some (int_test (\<lambda>n. 0 \<le> n))
      else if opcode = 0x9d then Some (int_test (\<lambda>n. 0 < n))
      else if opcode = 0x9e then Some (int_test (\<lambda>n. n \<le> 0))
      else if opcode = 0xc6 then Some (\<lambda>v. v = VNull)
      else if opcode = 0xc7 then Some (\<lambda>v. v \<noteq> VNull)
      else None)"

text \<open>Reference equality: two references to one string constant are one object.\<close>

definition same_reference :: "string_table \<Rightarrow> jvm_value \<Rightarrow> jvm_value \<Rightarrow> bool" where
  "same_reference t a b \<longleftrightarrow>
     value_eq a b \<or> (case (a, b) of (VReference x, VReference y) \<Rightarrow> same_literal t x y | _ \<Rightarrow> False)"

definition binary_test :: "string_table \<Rightarrow> u8 \<Rightarrow> (jvm_value \<Rightarrow> jvm_value \<Rightarrow> bool) option" where
  "binary_test t opcode =
     (if opcode = 0x9f then Some value_eq
      else if opcode = 0xa0 then Some (\<lambda>a b. \<not> value_eq a b)
      else if opcode = 0xa1 then Some (int_compare (\<lambda>a b. a < b))
      else if opcode = 0xa2 then Some (int_compare (\<lambda>a b. b \<le> a))
      else if opcode = 0xa3 then Some (int_compare (\<lambda>a b. b < a))
      else if opcode = 0xa4 then Some (int_compare (\<lambda>a b. a \<le> b))
      else if opcode = 0xa5 then Some (same_reference t)
      else if opcode = 0xa6 then Some (\<lambda>a b. \<not> same_reference t a b)
      else None)"

definition op_goto :: "u8 list \<Rightarrow> (frame, fault, unit) action" where
  "op_goto code =
     andThen get_pc (\<lambda>p. andThen (code_be16 code p) (\<lambda>offset. set_pc (unat (of_nat p - 1 + scast offset :: i32))))"

definition op_goto_w :: "u8 list \<Rightarrow> (frame, fault, unit) action" where
  "op_goto_w code =
     andThen get_pc (\<lambda>p. andThen (code_be32 code p) (\<lambda>offset.
     andThen (gets inst_pc) (\<lambda>i. set_pc (jump_from i offset))))"

section \<open>Switches\<close>

definition skip_padding :: "(frame, fault, unit) action" where
  "skip_padding = andThen get_pc (\<lambda>p. set_pc (p + (4 - p mod 4) mod 4))"

definition pop_int :: "(frame, fault, i32) action" where
  "pop_int = andThen pop (\<lambda>v. case v of VInt n \<Rightarrow> ret n | _ \<Rightarrow> throw (Err InvalidBytecode))"

text \<open>
  \<open>key - low\<close> and the index made of it are computed in 32 bits; an entry past the code panics.
\<close>

definition op_tableswitch :: "u8 list \<Rightarrow> (frame, fault, unit) action" where
  "op_tableswitch code =
     andThen get_pc (\<lambda>p0. andThen skip_padding (\<lambda>_.
     andThen (fetch32 code) (\<lambda>dflt. andThen (fetch32 code) (\<lambda>low. andThen (fetch32 code) (\<lambda>high.
     andThen pop_int (\<lambda>key. andThen get_pc (\<lambda>p.
     andThen (if sint low \<le> sint key \<and> sint key \<le> sint high
              then code_be32 code (unat (of_nat p + (key - low) * 4 :: u32)) else ret dflt)
       (\<lambda>offset. set_pc (jump_from (p0 - 1) offset)))))))))"

text \<open>
  The binary search of \<open>lookupswitch\<close> over pairs \<open>lo\<close> to \<open>hi\<close>; the two words of a pair are
  read before either is used.
\<close>

definition pair_at :: "u8 list \<Rightarrow> nat \<Rightarrow> nat \<Rightarrow> ('s, fault, i32 \<times> i32) action" where
  "pair_at code p i =
     (let at = unat (of_nat p + of_nat i * 8 :: u32)
      in andThen (code_be32 code at) (\<lambda>m. andThen (code_be32 code (at + 4)) (\<lambda>offset. ret (m, offset))))"

function lookup_loop :: "u8 list \<Rightarrow> nat \<Rightarrow> i32 \<Rightarrow> i32 \<Rightarrow> nat \<Rightarrow> nat \<Rightarrow> ('s, fault, i32) action" where
  "lookup_loop code p key dflt lo hi =
     (if lo < hi
      then let mid = lo + (hi - lo) div 2
           in andThen (pair_at code p mid) (\<lambda>(m, offset).
                if m = key then ret offset
                else if sint m < sint key then lookup_loop code p key dflt (mid + 1) hi
                else lookup_loop code p key dflt lo mid)
      else ret dflt)"
  by pat_completeness auto
termination
  by (relation "measure (\<lambda>(code, p, key, dflt, lo, hi). hi - lo)") auto

declare lookup_loop.simps [simp del]

definition op_lookupswitch :: "u8 list \<Rightarrow> (frame, fault, unit) action" where
  "op_lookupswitch code =
     andThen get_pc (\<lambda>p0. andThen skip_padding (\<lambda>_.
     andThen (fetch32 code) (\<lambda>dflt. andThen (fetch32 code) (\<lambda>npairs.
     andThen pop_int (\<lambda>key. andThen get_pc (\<lambda>p.
     andThen (lookup_loop code p key dflt 0 (unat npairs))
       (\<lambda>offset. set_pc (jump_from (p0 - 1) offset))))))))"

text \<open>The handler, without the two arms that resolve a class.\<close>

definition op_control :: "u8 \<Rightarrow> u8 list \<Rightarrow> unit op" where
  "op_control opcode code s =
     (case unary_test opcode of Some c \<Rightarrow> on_frame (branch_unary c code) s | None \<Rightarrow>
      case binary_test (vm_strings s) opcode of Some c \<Rightarrow> on_frame (branch_binary c code) s | None \<Rightarrow>
        if opcode = 0xa7 then on_frame (op_goto code) s
        else if opcode = 0xc8 then on_frame (op_goto_w code) s
        else if opcode = 0xaa then on_frame (op_tableswitch code) s
        else if opcode = 0xab then on_frame (op_lookupswitch code) s
        else throw (Err (UnsupportedOpcode opcode)) s)"

end
