(* ===== verification/CheckCode.thy ===== *)
theory CheckCode
  imports OpsFlow
begin

text \<open>
  The bytecode check of \<open>crates/class-link/src/bytecode.rs\<close>, run when a class is packed and
  again when an application is installed, and the part of the dispatch of
  \<open>interpreter/mod.rs\<close> whose handlers are modelled. The interpreter indexes the code on the
  strength of this check. The width of \<open>usize\<close> is a parameter: 64 bits on the packing host, 32
  on the devices.
\<close>

section \<open>The check\<close>

datatype link_error =
    Truncated
  | BadMagic
  | ClassTooLarge
  | UnknownTag u16 u8
  | BadThisClass
  | BadSuperClass
  | BadInterface u16
  | BadMember u16
  | BadMethodref u16
  | BadString u16
  | BadDescriptor u16
  | BadBootstrapMethods
  | BadUtf8 u16
  | BadHeader
  | WordMismatch u16
  | BadOffset u16
  | BadSection
  | Misaligned
  | BadIndex
  | NameMismatch u16
  | DuplicateClass u16 u16
  | HashCollision u16 u16
  | TooManyClasses
  | BadLiteral
  | BadSuperIndex u16
  | TooManyLiterals
  | PoolTooLarge
  | BadPool
  | BadBytecode u16
  | SuperCycle u16
  | OutOfMemory
  | Internal

definition SPECIAL :: nat where "SPECIAL = 255"

definition operand_len :: "u8 \<Rightarrow> nat option" where
  "operand_len opcode =
     (if opcode \<le> 0x0f then Some 0
      else if opcode = 0x10 then Some 1
      else if opcode = 0x11 then Some 2
      else if opcode = 0x12 then Some 1
      else if opcode \<le> 0x14 then Some 2
      else if opcode \<le> 0x19 then Some 1
      else if opcode \<le> 0x35 then Some 0
      else if opcode \<le> 0x3a then Some 1
      else if opcode \<le> 0x83 then Some 0
      else if opcode = 0x84 then Some 2
      else if opcode \<le> 0x98 then Some 0
      else if opcode \<le> 0xa8 then Some 2
      else if opcode = 0xa9 then Some 1
      else if opcode \<le> 0xab then Some SPECIAL
      else if opcode \<le> 0xb1 then Some 0
      else if opcode \<le> 0xb8 then Some 2
      else if opcode \<le> 0xba then Some 4
      else if opcode = 0xbb then Some 2
      else if opcode = 0xbc then Some 1
      else if opcode = 0xbd then Some 2
      else if opcode \<le> 0xbf then Some 0
      else if opcode \<le> 0xc1 then Some 2
      else if opcode \<le> 0xc3 then Some 0
      else if opcode = 0xc4 then Some SPECIAL
      else if opcode = 0xc5 then Some 3
      else if opcode \<le> 0xc7 then Some 2
      else if opcode \<le> 0xc9 then Some 4
      else None)"

definition be16_at :: "u8 list \<Rightarrow> nat \<Rightarrow> u16 option" where
  "be16_at code i = (if i + 1 < length code then Some (be16 (code ! i) (code ! (i + 1))) else None)"

definition be32_at :: "u8 list \<Rightarrow> nat \<Rightarrow> u32 option" where
  "be32_at code i =
     (if i + 3 < length code
      then Some (be32 (code ! i) (code ! (i + 1)) (code ! (i + 2)) (code ! (i + 3))) else None)"

definition check_target :: "u8 list \<Rightarrow> nat \<Rightarrow> int \<Rightarrow> bool" where
  "check_target code pc' offset \<longleftrightarrow> 0 \<le> int pc' + offset \<and> int pc' + offset < int (length code)"

definition target16 :: "u8 list \<Rightarrow> nat \<Rightarrow> nat \<Rightarrow> bool" where
  "target16 code pc' i \<longleftrightarrow> (case be16_at code i of None \<Rightarrow> False | Some t \<Rightarrow> check_target code pc' (sint t))"

definition target32 :: "u8 list \<Rightarrow> nat \<Rightarrow> nat \<Rightarrow> bool" where
  "target32 code pc' i \<longleftrightarrow> (case be32_at code i of None \<Rightarrow> False | Some t \<Rightarrow> check_target code pc' (sint t))"

text \<open>An instruction with operands of a fixed length: the extra conditions of some opcodes.\<close>

definition check_fixed :: "u8 list \<Rightarrow> nat \<Rightarrow> u8 \<Rightarrow> bool" where
  "check_fixed code pc' opcode =
     (if 0x99 \<le> opcode \<and> opcode \<le> 0xa8 \<or> opcode = 0xc6 \<or> opcode = 0xc7 then target16 code pc' (pc' + 1)
      else if opcode = 0xc8 \<or> opcode = 0xc9 then target32 code pc' (pc' + 1)
      else if opcode = 0xb9 then \<not> (code ! (pc' + 3) = 0 \<or> code ! (pc' + 4) \<noteq> 0)
      else if opcode = 0xba then \<not> (code ! (pc' + 3) \<noteq> 0 \<or> code ! (pc' + 4) \<noteq> 0)
      else if opcode = 0xbc then 4 \<le> code ! (pc' + 1) \<and> code ! (pc' + 1) \<le> 11
      else if opcode = 0xc5 then code ! (pc' + 3) \<noteq> 0
      else True)"

text \<open>\<open>count.checked_mul(k).and_then(|n| n.checked_add(table))\<close> in \<open>w\<close>-bit \<open>usize\<close>.\<close>

definition table_end :: "nat \<Rightarrow> nat \<Rightarrow> nat \<Rightarrow> nat \<Rightarrow> nat option" where
  "table_end w num k table = (if num * k < 2 ^ w \<and> num * k + table < 2 ^ w then Some (num * k + table) else None)"

definition aligned_start :: "nat \<Rightarrow> nat" where
  "aligned_start pc' = (pc' + 4) div 4 * 4"

definition check_tableswitch :: "nat \<Rightarrow> u8 list \<Rightarrow> nat \<Rightarrow> nat option" where
  "check_tableswitch w code pc' =
     (let start = aligned_start pc'
      in case (be32_at code start, be32_at code (start + 4), be32_at code (start + 8)) of
           (Some dflt, Some low, Some high) \<Rightarrow>
             if sint high < sint low then None
             else let num = nat (sint high - sint low + 1) mod 2 ^ w; table = start + 12
                  in (case table_end w num 4 table of
                        None \<Rightarrow> None
                      | Some e \<Rightarrow>
                          if length code < e then None
                          else if check_target code pc' (sint dflt) \<and>
                                  list_all (\<lambda>i. target32 code pc' (table + 4 * i)) [0..<num]
                          then Some e else None)
         | _ \<Rightarrow> None)"

text \<open>The pairs of a \<open>lookupswitch\<close> from \<open>i\<close> on: keys strictly ascending, targets inside.\<close>

fun check_pairs :: "u8 list \<Rightarrow> nat \<Rightarrow> nat \<Rightarrow> int option \<Rightarrow> nat list \<Rightarrow> bool" where
  "check_pairs code pc' table prev [] = True"
| "check_pairs code pc' table prev (i # rest) =
     (case be32_at code (table + 8 * i) of
        None \<Rightarrow> False
      | Some key \<Rightarrow>
          \<not> (case prev of None \<Rightarrow> False | Some p \<Rightarrow> sint key \<le> p) \<and>
          target32 code pc' (table + 8 * i + 4) \<and> check_pairs code pc' table (Some (sint key)) rest)"

definition check_lookupswitch :: "nat \<Rightarrow> u8 list \<Rightarrow> nat \<Rightarrow> nat option" where
  "check_lookupswitch w code pc' =
     (let start = aligned_start pc'
      in case (be32_at code start, be32_at code (start + 4)) of
           (Some dflt, Some npairs) \<Rightarrow>
             if sint npairs < 0 then None
             else let n = unat npairs; table = start + 8
                  in (case table_end w n 8 table of
                        None \<Rightarrow> None
                      | Some e \<Rightarrow>
                          if length code < e then None
                          else if check_target code pc' (sint dflt) \<and> check_pairs code pc' table None [0..<n]
                          then Some e else None)
         | _ \<Rightarrow> None)"

definition check_wide :: "u8 list \<Rightarrow> nat \<Rightarrow> nat option" where
  "check_wide code pc' =
     (if length code \<le> pc' + 1 then None
      else let real = code ! (pc' + 1);
               next' = (if 0x15 \<le> real \<and> real \<le> 0x19 \<or> 0x36 \<le> real \<and> real \<le> 0x3a \<or> real = 0xa9 then Some (pc' + 4)
                       else if real = 0x84 then Some (pc' + 6) else None)
           in (case next' of None \<Rightarrow> None | Some n \<Rightarrow> if length code < n then None else Some n))"

text \<open>One turn of the loop: where the next instruction starts, \<open>None\<close> for a bad one.\<close>

definition check_insn :: "nat \<Rightarrow> u8 list \<Rightarrow> nat \<Rightarrow> nat option" where
  "check_insn w code pc' =
     (let opcode = code ! pc'
      in case operand_len opcode of
           None \<Rightarrow> None
         | Some operands \<Rightarrow>
             if operands \<noteq> SPECIAL
             then (if length code < pc' + 1 + operands then None
                   else if check_fixed code pc' opcode then Some (pc' + 1 + operands) else None)
             else if opcode = 0xaa then check_tableswitch w code pc'
             else if opcode = 0xab then check_lookupswitch w code pc'
             else if opcode = 0xc4 then check_wide code pc'
             else None)"

lemma check_insn_progress: "check_insn w code pc' = Some n \<Longrightarrow> pc' < n \<and> n \<le> length code"
proof -
  have start: "pc' < aligned_start pc'" by (simp add: aligned_start_def)
  assume "check_insn w code pc' = Some n"
  then consider k where "n = pc' + 1 + k \<and> n \<le> length code"
    | "check_tableswitch w code pc' = Some n" | "check_lookupswitch w code pc' = Some n" | "check_wide code pc' = Some n"
    by (auto simp: check_insn_def Let_def split: option.splits if_splits)
  then show ?thesis
    using start
    by cases (auto simp: check_tableswitch_def check_lookupswitch_def check_wide_def Let_def table_end_def
        split: option.splits if_splits)
qed

function check_loop :: "nat \<Rightarrow> u8 list \<Rightarrow> nat \<Rightarrow> link_error + unit" where
  "check_loop w code pc' =
     (if pc' < length code
      then case check_insn w code pc' of
             None \<Rightarrow> Inl (BadBytecode (of_nat pc'))
           | Some n \<Rightarrow> check_loop w code n
      else Inr ())"
  by pat_completeness auto
termination
  by (relation "measure (\<lambda>(w, code, pc'). length code - pc')") (auto dest: check_insn_progress)

declare check_loop.simps [simp del]

definition check_code :: "nat \<Rightarrow> u8 list \<Rightarrow> link_error + unit" where
  "check_code w code =
     (if length code = 0 \<or> 65535 < length code then Inl (BadBytecode 0) else check_loop w code 0)"

section \<open>Dispatch\<close>

text \<open>
  The dispatch of the run loop for the opcodes whose handlers are modelled; \<open>None\<close> for the
  others (constant-pool constants, arrays, fields, calls, type checks, monitors and returns).
\<close>

definition dispatch :: "allocator \<Rightarrow> libm \<Rightarrow> u8 \<Rightarrow> u8 list \<Rightarrow> unit op option" where
  "dispatch al lm opcode code =
     (if opcode \<le> 0x11 then Some (on_frame (op_constants al opcode code))
      else if 0x15 \<le> opcode \<and> opcode \<le> 0x2d then Some (on_frame (op_locals_load al opcode code))
      else if 0x36 \<le> opcode \<and> opcode \<le> 0x4e then Some (on_frame (op_locals_store al opcode code))
      else if 0x57 \<le> opcode \<and> opcode \<le> 0x5f then Some (on_frame (op_stack al opcode))
      else if 0x60 \<le> opcode \<and> opcode \<le> 0x84 then Some (op_math al lm opcode code)
      else if 0x85 \<le> opcode \<and> opcode \<le> 0x98 then Some (on_frame (op_convert al lm opcode))
      else if 0x99 \<le> opcode \<and> opcode \<le> 0xa7 \<or> opcode \<in> {0xaa, 0xab, 0xc6, 0xc7, 0xc8}
      then Some (op_control opcode code)
      else if opcode = 0xbf then Some (op_athrow al)
      else if opcode = 0xc4 then Some (on_frame (op_wide al code))
      else None)"

text \<open>
  One turn of the run loop up to the dispatch: \<open>None\<close> when the program counter has run past
  the code, which returns from the method, or the opcode is not modelled.
\<close>

definition start_insn :: "frame \<Rightarrow> frame" where
  "start_insn f = f\<lparr>inst_pc := pc f, pc := pc f + 1\<rparr>"

definition step :: "allocator \<Rightarrow> libm \<Rightarrow> u8 list \<Rightarrow> machine \<Rightarrow> ((fault + unit) \<times> machine) option" where
  "step al lm code s =
     (let f = vm_frame s
      in if length code \<le> pc f then None
         else case dispatch al lm (code ! pc f) code of
                None \<Rightarrow> None
              | Some m \<Rightarrow> Some (m (s\<lparr>vm_frame := start_insn f\<rparr>)))"

end
