(* ===== verification/CheckCodeLaws.thy ===== *)
theory CheckCodeLaws
  imports CheckCode OpsMathLaws
begin

text \<open>
  What the bytecode check gives the interpreter: from the start of an instruction of a checked
  method, the handlers read no operand outside the code and leave the program counter inside it;
  and what it does not give.
\<close>

section \<open>Instruction starts\<close>

inductive insn_start :: "nat \<Rightarrow> u8 list \<Rightarrow> nat \<Rightarrow> bool" for w code where
  first: "insn_start w code 0"
| following: "insn_start w code p \<Longrightarrow> p < length code \<Longrightarrow> check_insn w code p = Some n \<Longrightarrow> insn_start w code n"

lemma insn_start_checked: "insn_start w code p \<Longrightarrow> check_loop w code 0 = Inr () \<Longrightarrow> check_loop w code p = Inr ()"
proof (induction rule: insn_start.induct)
  case (following p n)
  then have "check_loop w code p = Inr ()" by blast
  then show ?case using following.hyps(2,3) by (subst (asm) check_loop.simps) simp
qed

lemma checked_insn:
  assumes "check_code w code = Inr ()" and "insn_start w code p" and "p < length code"
  shows "\<exists>n. check_insn w code p = Some n \<and> p < n \<and> n \<le> length code"
proof -
  have "check_loop w code p = Inr ()"
    using insn_start_checked [OF assms(2)] assms(1) by (simp add: check_code_def split: if_splits)
  then obtain n where "check_insn w code p = Some n"
    using assms(3) by (subst (asm) check_loop.simps) (auto split: option.splits)
  then show ?thesis using check_insn_progress by blast
qed

lemma checked_length: "check_code w code = Inr () \<Longrightarrow> length code < 65536"
  by (auto simp: check_code_def split: if_splits)

section \<open>Actions that leave the program counter\<close>

definition keeps_pc :: "(frame, fault, 'a) action \<Rightarrow> bool" where
  "keeps_pc m \<longleftrightarrow> (\<forall>f. fst (m f) \<noteq> Inl Panic \<and> pc (snd (m f)) = pc f)"

named_theorems keeps "actions that leave the program counter"

lemma keeps_ret [keeps]: "keeps_pc (ret x)"
  by (simp add: keeps_pc_def ret_def)

lemma keeps_throw [keeps]: "keeps_pc (throw (Err e))"
  by (simp add: keeps_pc_def throw_def)

lemma keeps_pop [keeps]: "keeps_pc pop"
  by (simp add: keeps_pc_def pop_def)

lemma keeps_push [keeps]: "keeps_pc (push mem v)"
  by (simp add: keeps_pc_def push_def grow_and_push_def split: option.splits)

lemma keeps_load [keeps]: "keeps_pc (load_local i)"
  by (simp add: keeps_pc_def load_local_def)

lemma keeps_store [keeps]: "keeps_pc (store_local mem i v)"
  by (simp add: keeps_pc_def store_local_def Let_def split: option.splits)

lemma keeps_andThen [keeps]: "keeps_pc m \<Longrightarrow> (\<And>x. keeps_pc (k x)) \<Longrightarrow> keeps_pc (andThen m k)"
  unfolding keeps_pc_def
  by (intro allI) (simp add: andThen_def split: prod.splits sum.splits; metis fst_conv snd_conv)

lemma keeps_if [keeps]: "keeps_pc m \<Longrightarrow> keeps_pc n \<Longrightarrow> keeps_pc (if c then m else n)"
  by simp

lemma keeps_option [keeps]: "keeps_pc m \<Longrightarrow> (\<And>x. keeps_pc (k x)) \<Longrightarrow> keeps_pc (case r of None \<Rightarrow> m | Some x \<Rightarrow> k x)"
  by (cases r) simp_all

lemma keeps_value [keeps]:
  "(\<And>n. keeps_pc (a n)) \<Longrightarrow> keeps_pc m \<Longrightarrow> keeps_pc (case v of VInt n \<Rightarrow> a n | _ \<Rightarrow> m)"
  by (cases v) simp_all

lemma keeps_push_each [keeps]: "keeps_pc (push_each al vs)"
  by (induction vs) (auto intro!: keeps)

lemma keeps_unary [keeps]: "keeps_pc (unary al g)"
  unfolding unary_def by (intro keeps)

lemma keeps_binary [keeps]: "keeps_pc (binary al g)"
  unfolding binary_def by (intro keeps)

lemma keeps_dup_x [keeps]: "keeps_pc (dup_x al opcode)"
proof -
  have "dup_form st opcode \<noteq> Inl Panic" for st
    by (auto simp: dup_form_def cat2_at_def below_top_def split: sum.splits bool.splits prod.splits if_splits)
  then show ?thesis
    by (auto simp: keeps_pc_def dup_x_def Let_def split: sum.splits option.splits prod.splits)
qed

lemma keeps_op_stack [keeps]: "keeps_pc (op_stack al opcode)"
  unfolding op_stack_def by (intro keeps)

lemma keeps_op_convert [keeps]: "keeps_pc (op_convert al lm opcode)"
  unfolding op_convert_def by (intro keeps)

lemma keeps_load_to_stack [keeps]: "keeps_pc (load_to_stack al i)"
  unfolding load_to_stack_def by (intro keeps)

lemma keeps_store_from_stack [keeps]: "keeps_pc (store_from_stack al i)"
  unfolding store_from_stack_def by (intro keeps)

lemma keeps_add_to_local [keeps]: "keeps_pc (add_to_local al i c)"
  unfolding add_to_local_def by (intro keeps)

lemma keeps_pop_int [keeps]: "keeps_pc pop_int"
  unfolding pop_int_def by (intro keeps)

section \<open>Handlers that read operands\<close>

text \<open>
  \<open>lands m f q\<close>: from \<open>f\<close> the handler does not panic, and when it returns the program counter
  satisfies \<open>q\<close>.
\<close>

definition lands :: "(frame, fault, 'a) action \<Rightarrow> frame \<Rightarrow> (nat \<Rightarrow> bool) \<Rightarrow> bool" where
  "lands m f q \<longleftrightarrow> (case m f of (Inl e, _) \<Rightarrow> e \<noteq> Panic | (Inr _, f') \<Rightarrow> q (pc f'))"

lemma keeps_lands: "keeps_pc m \<Longrightarrow> q (pc f) \<Longrightarrow> lands m f q"
proof -
  assume k: "keeps_pc m" "q (pc f)"
  obtain r g where m: "m f = (r, g)" by fastforce
  have "r \<noteq> Inl Panic" "pc g = pc f" using k(1) m unfolding keeps_pc_def by (metis fst_conv, metis snd_conv)
  then show ?thesis using k(2) m by (cases r) (auto simp: lands_def)
qed

lemma lands_andThen:
  assumes "m f = (Inr x, g)" and "lands (k x) g q"
  shows "lands (andThen m k) f q"
  using assms by (simp add: lands_def andThen_def)

lemma lands_keeps_first:
  assumes m: "keeps_pc m" and k: "\<And>x g. pc g = pc f \<Longrightarrow> lands (k x) g q"
  shows "lands (andThen m k) f q"
proof -
  obtain r g where r: "m f = (r, g)" by fastforce
  have "r \<noteq> Inl Panic" "pc g = pc f" using m r unfolding keeps_pc_def by (metis fst_conv, metis snd_conv)
  then show ?thesis using r k [of g] by (cases r) (auto simp: lands_def andThen_def)
qed

lemma lands_fetch8:
  assumes "pc f < length code" and "\<And>x. keeps_pc (k x)" and "q (pc f + 1)"
  shows "lands (andThen (fetch8 code) k) f q"
  by (rule lands_andThen [of _ _ "code ! pc f" "f\<lparr>pc := pc f + 1\<rparr>"])
    (use assms in \<open>simp_all add: fetch8_run keeps_lands\<close>)

lemma lands_set_pc: "q n \<Longrightarrow> lands (set_pc n) f q"
  by (simp add: lands_def set_pc_def modifies_def)

lemma lands_ret: "q (pc f) \<Longrightarrow> lands (ret x) f q"
  by (simp add: lands_def ret_def)

text \<open>What the check says of an instruction without operand words of its own.\<close>

lemma fixed_insn:
  assumes "check_insn w code p = Some n" and "operand_len (code ! p) = Some k" and "k \<noteq> SPECIAL"
  shows "n = p + 1 + k" "n \<le> length code" "check_fixed code p (code ! p)"
  using assms by (auto simp: check_insn_def Let_def split: if_splits)

lemma op_constants_lands:
  assumes "check_insn w code p = Some n" and "p < length code" and "code ! p \<le> 0x11" and "pc f = p + 1"
  shows "lands (op_constants al (code ! p) code) f (\<lambda>q. q = n)"
proof -
  consider "code ! p = 0x10" | "code ! p = 0x11" | "code ! p \<le> 0x0f"
  proof -
    have "code ! p \<le> 0x0f \<or> code ! p = 0x10 \<or> code ! p = 0x11"
      using assms(3) by (simp add: word_le_nat_alt word_unat_eq_iff) linarith
    then show thesis using that by blast
  qed
  then show ?thesis
  proof cases
    case 1
    then have "n = p + 2" "n \<le> length code" using fixed_insn [OF assms(1), of 1] by (simp_all add: operand_len_def SPECIAL_def)
    then show ?thesis
      using 1 assms(4) by (simp add: op_constants_def constant_arm_def op_bipush_def lands_fetch8 keeps)
  next
    case 2
    then have n: "n = p + 3" "n \<le> length code" using fixed_insn [OF assms(1), of 2] by (simp_all add: operand_len_def SPECIAL_def)
    have "lands (op_sipush al code) f (\<lambda>q. q = n)"
      unfolding op_sipush_def
      by (rule lands_andThen [of get_pc f "p + 1" f], simp add: get_pc_def gets_def assms(4),
          rule lands_andThen [of _ f "code ! (p + 1)" f], use n in \<open>simp add: code_at_run\<close>,
          rule lands_andThen [of _ f "code ! (p + 2)" f], use n in \<open>simp add: code_at_run\<close>,
          rule lands_andThen [of _ f "()" "f\<lparr>pc := p + 3\<rparr>"], simp add: set_pc_def modifies_def,
          rule keeps_lands, intro keeps, use n in simp)
    then show ?thesis using 2 by (simp add: op_constants_def constant_arm_def)
  next
    case 3
    then have n: "n = p + 1" using fixed_insn [OF assms(1), of 0] by (simp_all add: operand_len_def SPECIAL_def)
    have "code ! p \<noteq> 0x10" "code ! p \<noteq> 0x11" using 3 by auto
    then show ?thesis
      using n assms(4) by (intro keeps_lands) (auto simp: op_constants_def intro!: keeps)
  qed
qed

lemma u8_range: "(a::u8) \<le> b \<longleftrightarrow> unat a \<le> unat b"
  by (simp add: word_le_nat_alt)

lemma local_operand:
  assumes "0x15 \<le> c \<and> c \<le> (0x19 :: u8) \<or> 0x36 \<le> c \<and> c \<le> 0x3a"
  shows "operand_len c = Some 1"
  using assms by (auto simp: operand_len_def u8_range word_unat_eq_iff)

lemma no_operand:
  assumes "0x1a \<le> c \<and> c \<le> (0x2d :: u8) \<or> 0x3b \<le> c \<and> c \<le> 0x83 \<or> 0x85 \<le> c \<and> c \<le> 0x98 \<or> c = 0xbf"
  shows "operand_len c = Some 0"
  using assms by (auto simp: operand_len_def u8_range word_unat_eq_iff)

lemma op_locals_lands:
  assumes ci: "check_insn w code p = Some n" and pc: "pc f = p + 1"
  shows "0x15 \<le> code ! p \<Longrightarrow> code ! p \<le> 0x2d \<Longrightarrow> lands (op_locals_load al (code ! p) code) f (\<lambda>q. q = n)"
    and "0x36 \<le> code ! p \<Longrightarrow> code ! p \<le> 0x4e \<Longrightarrow> lands (op_locals_store al (code ! p) code) f (\<lambda>q. q = n)"
proof -
  have one: "n = p + 2 \<and> p + 1 < length code" if "operand_len (code ! p) = Some 1"
    using fixed_insn [OF ci that] by (simp add: SPECIAL_def)
  have zero: "n = p + 1" if "operand_len (code ! p) = Some 0"
    using fixed_insn [OF ci that] by (simp add: SPECIAL_def)
  show "lands (op_locals_load al (code ! p) code) f (\<lambda>q. q = n)" if r: "0x15 \<le> code ! p" "code ! p \<le> 0x2d"
  proof (cases "code ! p \<le> 0x19")
    case True
    then show ?thesis
      using one [OF local_operand] r pc by (simp add: op_locals_load_def lands_fetch8 keeps)
  next
    case False
    then have "0x1a \<le> code ! p" by (simp add: u8_range)
    then have "n = p + 1" using zero [OF no_operand] r(2) by blast
    then show ?thesis
      using False pc by (intro keeps_lands) (auto simp: op_locals_load_def intro!: keeps)
  qed
  show "lands (op_locals_store al (code ! p) code) f (\<lambda>q. q = n)" if r: "0x36 \<le> code ! p" "code ! p \<le> 0x4e"
  proof (cases "code ! p \<le> 0x3a")
    case True
    then show ?thesis
      using one [OF local_operand] r pc by (simp add: op_locals_store_def lands_fetch8 keeps)
  next
    case False
    then have "0x3b \<le> code ! p" "code ! p \<le> 0x83" using r(2) by (simp_all add: u8_range)
    then have "n = p + 1" using zero [OF no_operand] by blast
    then show ?thesis
      using False pc by (intro keeps_lands) (auto simp: op_locals_store_def intro!: keeps)
  qed
qed

lemma op_iinc_lands:
  assumes ci: "check_insn w code p = Some n" and op: "code ! p = 0x84" and pc: "pc f = p + 1"
  shows "lands (op_iinc al code) f (\<lambda>q. q = n)"
proof -
  have n: "n = p + 3" "p + 2 < length code"
    using fixed_insn [OF ci, of 2] op by (simp_all add: operand_len_def SPECIAL_def)
  show ?thesis
    unfolding op_iinc_def
    by (rule lands_andThen [of get_pc f "p + 1" f], simp add: get_pc_def gets_def pc,
        rule lands_andThen [of _ f "code ! (p + 1)" f], use n in \<open>simp add: code_at_run\<close>,
        rule lands_andThen [of _ f "code ! (p + 2)" f], use n in \<open>simp add: code_at_run\<close>,
        rule lands_andThen [of _ f "()" "f\<lparr>pc := p + 3\<rparr>"], simp add: set_pc_def modifies_def,
        rule keeps_lands, intro keeps, use n in simp)
qed

lemma fetch_lands:
  assumes "pc f + 1 < length code"
  shows "(\<And>x. lands (k x) (f\<lparr>pc := pc f + 2\<rparr>) q) \<Longrightarrow> lands (andThen (fetch16 code) k) f q"
  by (rule lands_andThen [of _ _ "be16 (code ! pc f) (code ! (pc f + 1))" "f\<lparr>pc := pc f + 2\<rparr>"])
    (use assms in \<open>simp_all add: fetch16_run\<close>)

lemma op_wide_lands:
  assumes ci: "check_insn w code p = Some n" and op: "code ! p = 0xc4" and pc: "pc f = p + 1"
  shows "lands (op_wide al code) f (\<lambda>q. q = n)"
proof -
  let ?real = "code ! (p + 1)"
  have "check_wide code p = Some n"
    using ci op by (simp add: check_insn_def operand_len_def SPECIAL_def)
  then have len: "p + 3 < length code" "?real = 0x84 \<longrightarrow> p + 5 < length code"
    and n: "n = (if ?real = 0x84 then p + 6 else p + 4)"
    by (auto simp: check_wide_def Let_def split: if_splits)
  have real: "lands (andThen (fetch8 code) k) f q" if "lands (k ?real) (f\<lparr>pc := p + 2\<rparr>) q" for k q
    by (rule lands_andThen [of _ _ ?real "f\<lparr>pc := p + 2\<rparr>"]) (use len pc that in \<open>simp_all add: fetch8_run\<close>)
  show ?thesis
    unfolding op_wide_def
  proof (intro real fetch_lands, goal_cases)
    case 1
    then show ?case using len by simp
  next
    case (2 idx)
    have g: "f\<lparr>pc := p + 2\<rparr>\<lparr>pc := pc (f\<lparr>pc := p + 2\<rparr>) + 2\<rparr> = f\<lparr>pc := p + 4\<rparr>" by simp
    show ?case
      unfolding g
    proof (cases "?real = 0x84")
      case True
      then have "lands (andThen (fetch16 code) (\<lambda>inc. add_to_local al idx (scast inc))) (f\<lparr>pc := p + 4\<rparr>) (\<lambda>q. q = n)"
        using len n by (intro fetch_lands keeps_lands keeps) simp_all
      then show "lands (if 0x15 \<le> ?real \<and> ?real \<le> 0x19 then load_to_stack al idx
        else if 0x36 \<le> ?real \<and> ?real \<le> 0x3a then store_from_stack al idx
        else if ?real = 0x84 then andThen (fetch16 code) (\<lambda>inc. add_to_local al idx (scast inc))
        else throw (Err (UnsupportedOpcode ?real))) (f\<lparr>pc := p + 4\<rparr>) (\<lambda>q. q = n)"
        using True by simp
    next
      case False
      then show "lands (if 0x15 \<le> ?real \<and> ?real \<le> 0x19 then load_to_stack al idx
        else if 0x36 \<le> ?real \<and> ?real \<le> 0x3a then store_from_stack al idx
        else if ?real = 0x84 then andThen (fetch16 code) (\<lambda>inc. add_to_local al idx (scast inc))
        else throw (Err (UnsupportedOpcode ?real))) (f\<lparr>pc := p + 4\<rparr>) (\<lambda>q. q = n)"
        using n by (intro keeps_lands) (auto intro!: keeps)
    qed
  qed
qed

section \<open>Branches\<close>

lemma target_value:
  assumes "check_target code p (sint (off :: i32))" and "length code < 65536"
  shows "unat (of_nat p + off :: i32) = nat (int p + sint off)"
proof -
  let ?k = "int p + sint off"
  have k: "0 \<le> ?k" "?k < 65536" using assms by (auto simp: check_target_def)
  have "(of_nat p + off :: i32) = of_int ?k" by simp
  then have "uint (of_nat p + off :: i32) = ?k"
    using k by (simp only: uint_word_of_int) simp
  then show ?thesis by (metis unat_eq_nat_uint)
qed

lemma target_value16:
  assumes "check_target code p (sint (off :: u16))" and "length code < 65536"
  shows "unat (of_nat p + scast off :: i32) = nat (int p + sint off)"
proof -
  have "sint (scast off :: i32) = sint off"
    by (rule sint_up_scast) (simp add: is_up)
  then show ?thesis using target_value [of code p "scast off"] assms by simp
qed

text \<open>Where a checked branch can go: to the next instruction or to a checked target.\<close>

definition inside :: "u8 list \<Rightarrow> nat \<Rightarrow> nat \<Rightarrow> bool" where
  "inside code n q \<longleftrightarrow> q = n \<or> q < length code"

lemma checked_target_inside:
  "check_target code p off \<Longrightarrow> inside code n (nat (int p + off))"
  by (auto simp: inside_def check_target_def)

lemma branch_operand:
  assumes ci: "check_insn w code p = Some n"
    and op: "0x99 \<le> code ! p \<and> code ! p \<le> 0xa8 \<or> code ! p = 0xc6 \<or> code ! p = 0xc7"
  shows "n = p + 3" "p + 2 < length code" "check_target code p (sint (be16 (code ! (p + 1)) (code ! (p + 2))))"
proof -
  have "operand_len (code ! p) = Some 2"
    using op by (auto simp: operand_len_def u8_range word_unat_eq_iff)
  note f = fixed_insn [OF ci this]
  show n: "n = p + 3" "p + 2 < length code" using f by (simp_all add: SPECIAL_def)
  have "target16 code p (p + 1)" using f(3) op by (auto simp: SPECIAL_def check_fixed_def)
  then show "check_target code p (sint (be16 (code ! (p + 1)) (code ! (p + 2))))"
    using n by (simp add: target16_def be16_at_def)
qed

lemma take_branch_lands:
  assumes "q (pc f)" and "q (branch_target (pc f) off)"
  shows "lands (take_branch off c) f q"
  using assms by (simp add: take_branch_def lands_def action_simps get_pc_def set_pc_def)

lemma branch_lands:
  assumes ci: "check_insn w code p = Some n" and len: "length code < 65536" and pc: "pc f = p + 1"
    and op: "0x99 \<le> code ! p \<and> code ! p \<le> 0xa8 \<or> code ! p = 0xc6 \<or> code ! p = 0xc7"
  shows "lands (branch_unary c code) f (inside code n)" and "lands (branch_binary c2 code) f (inside code n)"
proof -
  note b = branch_operand [OF ci op]
  let ?off = "be16 (code ! (p + 1)) (code ! (p + 2))"
  have "(of_nat (p + 3) - 3 :: i32) = of_nat p" by simp
  then have "branch_target (p + 3) ?off = nat (int p + sint ?off)"
    unfolding branch_target_def using target_value16 [OF b(3) len] by simp
  then have t: "inside code n (branch_target (p + 3) ?off)"
    using checked_target_inside [OF b(3)] by simp
  have fetch: "lands (andThen (fetch16 code) k) f q" if "lands (k ?off) (f\<lparr>pc := p + 3\<rparr>) q" for k q
    by (rule lands_andThen [of _ _ ?off "f\<lparr>pc := p + 3\<rparr>"])
      (use that b pc in \<open>simp_all add: fetch16_run eval_nat_numeral\<close>)
  have n: "inside code n (p + 3)" using b(1) by (simp add: inside_def)
  show "lands (branch_unary c code) f (inside code n)"
    unfolding branch_unary_def
    by (intro fetch lands_keeps_first keeps_pop take_branch_lands) (use t n in simp_all)
  show "lands (branch_binary c2 code) f (inside code n)"
    unfolding branch_binary_def
    by (intro fetch lands_keeps_first keeps_pop take_branch_lands) (use t n in simp_all)
qed

lemma goto_lands:
  assumes ci: "check_insn w code p = Some n" and len: "length code < 65536" and pc: "pc f = p + 1" "inst_pc f = p"
  shows "code ! p = 0xa7 \<Longrightarrow> lands (op_goto code) f (inside code n)"
    and "code ! p = 0xc8 \<Longrightarrow> lands (op_goto_w code) f (inside code n)"
proof -
  assume op: "code ! p = 0xa7"
  note b = branch_operand [OF ci disjI1, OF conjI]
  have b: "p + 2 < length code" "check_target code p (sint (be16 (code ! (p + 1)) (code ! (p + 2))))"
    using branch_operand [OF ci] op by simp_all
  have "(of_nat (p + 1) - 1 :: i32) = of_nat p" by simp
  then have "inside code n (unat (of_nat (p + 1) - 1 + scast (be16 (code ! (p + 1)) (code ! (p + 2))) :: i32))"
    using target_value16 [OF b(2) len] checked_target_inside [OF b(2)] by simp
  then show "lands (op_goto code) f (inside code n)"
    using b(1) pc(1) by (simp add: op_goto_def lands_def action_simps get_pc_def set_pc_def)
next
  assume op: "code ! p = 0xc8"
  have f: "p + 4 < length code" "target32 code p (p + 1)"
    using fixed_insn [OF ci, of 4] op by (simp_all add: operand_len_def SPECIAL_def check_fixed_def)
  then have t: "check_target code p (sint (be32 (code ! (p + 1)) (code ! (p + 2)) (code ! (p + 3)) (code ! (p + 4))))"
    by (simp add: target32_def be32_at_def eval_nat_numeral)
  show "lands (op_goto_w code) f (inside code n)"
    using f(1) pc checked_target_inside [OF t] target_value [OF t len]
    by (simp add: op_goto_w_def lands_def action_simps get_pc_def set_pc_def jump_from_def eval_nat_numeral)
qed

section \<open>Switches\<close>

lemma padded: "pc f = p + 1 \<Longrightarrow> skip_padding f = (Inr (), f\<lparr>pc := aligned_start p\<rparr>)"
proof -
  assume pc: "pc f = p + 1"
  have "(p + 1) + (4 - (p + 1) mod 4) mod 4 = aligned_start p"
  proof -
    obtain k r where p: "p = k * 4 + r" and "r < 4"
      using div_mod_decomp [of p 4] by (metis mod_less_divisor zero_less_numeral)
    then consider "r = 0" | "r = 1" | "r = 2" | "r = 3" by linarith
    moreover have "(k * 4 + 1) mod 4 = 1" "(k * 4 + 2) mod 4 = 2" "(k * 4 + 3) mod 4 = 3" "(k * 4 + 4) mod 4 = 0"
      "(k * 4 + 4) div 4 = k + 1" "(k * 4 + 5) div 4 = k + 1" "(k * 4 + 6) div 4 = k + 1" "(k * 4 + 7) div 4 = k + 1"
      by presburger+
    ultimately show ?thesis by cases (simp_all add: p aligned_start_def add.assoc)
  qed
  then show ?thesis using pc by (simp add: skip_padding_def get_pc_def set_pc_def action_simps)
qed

lemma be32_at_word: "be32_at code i = Some v \<Longrightarrow> i + 3 < length code \<and> code_be32 code i g = (Inr v, g)"
  by (auto simp: be32_at_def code_be32_run split: if_splits)

lemma target32_word:
  "target32 code p i \<Longrightarrow> \<exists>v. be32_at code i = Some v \<and> check_target code p (sint v)"
  by (auto simp: target32_def split: option.splits)

lemma lands_fetch32:
  assumes "be32_at code (pc f) = Some v" and "lands (k v) (f\<lparr>pc := pc f + 4\<rparr>) q"
  shows "lands (andThen (fetch32 code) k) f q"
  by (rule lands_andThen [of _ _ v "f\<lparr>pc := pc f + 4\<rparr>"])
    (use assms in \<open>auto simp: fetch32_run be32_at_def split: if_splits\<close>)

lemma lands_word:
  assumes "be32_at code i = Some v" and "lands (k v) f q"
  shows "lands (andThen (code_be32 code i) k) f q"
  by (rule lands_andThen [of _ _ v f]) (use assms be32_at_word [OF assms(1), where g = f] in \<open>simp_all\<close>)

lemma lands_get_pc: "lands (k (pc f)) f q \<Longrightarrow> lands (andThen get_pc k) f q"
  by (rule lands_andThen [of _ _ "pc f" f]) (simp_all add: get_pc_def gets_def)

lemma jump_lands:
  assumes "check_target code p (sint off)" and "length code < 65536"
  shows "lands (set_pc (jump_from (Suc p - 1) off)) f (inside code n)"
  using target_value [OF assms] checked_target_inside [OF assms(1)]
  by (simp add: jump_from_def lands_set_pc)

lemma table_index:
  assumes key: "sint low \<le> sint (key :: i32)" "sint key \<le> sint high"
    and p: "p + 4 * nat (sint high - sint low + 1) < 65536"
  shows "unat (of_nat p + (key - low) * 4 :: u32) = p + 4 * nat (sint key - sint low)"
proof -
  let ?k = "nat (sint key - sint low)"
  have k: "p + 4 * ?k < 65536" using key p by linarith
  have "(key - low :: u32) = of_int (sint key - sint low)" by simp
  then have "(key - low :: u32) = of_nat ?k" using key by simp
  then have "(of_nat p + (key - low) * 4 :: u32) = of_nat (p + 4 * ?k)" by simp
  then show ?thesis using k by (simp only: unat_of_nat) simp
qed

lemma tableswitch_lands:
  assumes ct: "check_tableswitch 64 code p = Some n" and len: "length code < 65536" and pc: "pc f = p + 1"
  shows "lands (op_tableswitch code) f (inside code n)"
proof -
  let ?s = "aligned_start p"
  from ct obtain dflt low high where words: "be32_at code ?s = Some dflt" "be32_at code (?s + 4) = Some low"
      "be32_at code (?s + 8) = Some high" and order: "sint low \<le> sint high"
    by (auto simp: check_tableswitch_def Let_def split: option.splits if_splits)
  let ?num = "nat (sint high - sint low + 1)"
  have "?num \<le> 2 ^ 32"
    using sint_lt [of high] sint_ge [of low] by simp
  then have num: "?num mod 2 ^ 64 = ?num" by (intro mod_less) simp
  from ct words order num have rest: "?s + 12 + 4 * ?num \<le> length code" "check_target code p (sint dflt)"
      "list_all (\<lambda>i. target32 code p (?s + 12 + 4 * i)) [0..<?num]"
    by (auto simp: check_tableswitch_def Let_def table_end_def ac_simps split: option.splits if_splits)
  have pick: "lands (andThen (if sint low \<le> sint key \<and> sint key \<le> sint high
              then code_be32 code (unat (of_nat (?s + 12) + (key - low) * 4 :: u32)) else ret dflt)
       (\<lambda>offset. set_pc (jump_from (Suc p - 1) offset))) g (inside code n)" for key g
  proof (cases "sint low \<le> sint key \<and> sint key \<le> sint high")
    case True
    let ?k = "nat (sint key - sint low)"
    have "?k \<in> set [0..<?num]" using True by simp
    then have "target32 code p (?s + 12 + 4 * ?k)"
      using rest(3) by (simp only: list_all_iff)
    then obtain v where v: "be32_at code (?s + 12 + 4 * ?k) = Some v" "check_target code p (sint v)"
      using target32_word by blast
    have "unat (of_nat (?s + 12) + (key - low) * 4 :: u32) = ?s + 12 + 4 * ?k"
      using table_index [of low key high "?s + 12"] True rest(1) len by linarith
    then show ?thesis
      using True v by (simp only: if_True simp_thms) (rule lands_word [OF v(1)], rule jump_lands [OF v(2) len])
  next
    case False
    have "ret dflt g = (Inr dflt, g)" by (simp add: ret_def)
    then show ?thesis
      using False by (simp only: if_False) (rule lands_andThen, assumption, rule jump_lands [OF rest(2) len])
  qed
  show ?thesis
    unfolding op_tableswitch_def
    apply (rule lands_get_pc)
    apply (rule lands_andThen, rule padded [OF pc])
    apply (rule lands_fetch32 [where v = dflt], simp add: words add.commute)
    apply (rule lands_fetch32 [where v = low], simp add: words add.commute)
    apply (rule lands_fetch32 [where v = high], simp add: words add.commute)
    apply (rule lands_keeps_first [OF keeps_pop_int])
    apply (rule lands_get_pc)
    subgoal premises g for key g
    proof -
      have "pc g = ?s + 12" "pc f - 1 = Suc p - 1" using g pc by simp_all
      then show ?thesis using pick [of key g] by (simp only:)
    qed
    done
qed

text \<open>A checked table of pairs: every key and target word is in the code, the keys ascend.\<close>

lemma check_pairs_target:
  "check_pairs code p table prev is \<Longrightarrow> i \<in> set is \<Longrightarrow>
     \<exists>k v. be32_at code (table + 8 * i) = Some k \<and> be32_at code (table + 8 * i + 4) = Some v \<and>
       check_target code p (sint v)"
  by (induction code p table prev "is" rule: check_pairs.induct) (auto dest: target32_word split: option.splits)

lemma lookup_lands:
  assumes pairs: "check_pairs code p table None [0..<num]" and len: "table + 8 * num < 65536"
    and dflt: "check_target code p (sint dflt)"
    and k: "\<And>v g. check_target code p (sint v) \<Longrightarrow> lands (k v) g q"
  shows "hi \<le> num \<Longrightarrow> lands (andThen (lookup_loop code table key dflt lo hi) k) f q"
proof (induction "hi - lo" arbitrary: lo hi f rule: less_induct)
  case less
  show ?case
  proof (cases "lo < hi")
    case False
    have "ret dflt f = (Inr dflt, f)" by (simp add: ret_def)
    then show ?thesis
      using False by (subst lookup_loop.simps) (simp only: if_False, rule lands_andThen, assumption, rule k [OF dflt])
  next
    case True
    let ?mid = "lo + (hi - lo) div 2"
    have mid: "?mid < hi" "lo \<le> ?mid" using True by linarith+
    then have "?mid \<in> set [0..<num]" using less.prems by simp
    then obtain m v where mv: "be32_at code (table + 8 * ?mid) = Some m"
        "be32_at code (table + 8 * ?mid + 4) = Some v" "check_target code p (sint v)"
      using check_pairs_target [OF pairs] by blast
    have "table + 8 * m < 65536" if "m < num" for m using that len by linarith
    then have small: "table + 8 * ?mid < 65536" using less_le_trans [OF mid(1) less.prems] by blast
    have "(of_nat table + of_nat ?mid * 8 :: u32) = of_nat (table + 8 * ?mid)" by simp
    then have at: "unat (of_nat table + of_nat ?mid * 8 :: u32) = table + 8 * ?mid"
      using small by (simp only: unat_of_nat) simp
    have pair: "pair_at code table ?mid f = (Inr (m, v), f)"
      using be32_at_word [OF mv(1), where g = f] be32_at_word [OF mv(2), where g = f]
      by (simp only: pair_at_def Let_def at) (simp add: andThen_def ret_def)
    have unfold: "lookup_loop code table key dflt lo hi f =
       (if m = key then (Inr v, f)
        else if sint m < sint key then lookup_loop code table key dflt (?mid + 1) hi f
        else lookup_loop code table key dflt lo ?mid f)"
      using True by (subst lookup_loop.simps) (simp add: Let_def andThen_def pair ret_def)
    have andThen_eq: "m1 f = m2 f \<Longrightarrow> lands (andThen m2 k) f q \<Longrightarrow> lands (andThen m1 k) f q" for m1 m2
      by (simp add: lands_def andThen_def)
    show ?thesis
    proof (cases "m = key")
      case True
      then have "lookup_loop code table key dflt lo hi f = (Inr v, f)" using unfold by simp
      then show ?thesis by (rule lands_andThen) (rule k [OF mv(3)])
    next
      case False
      then show ?thesis
        using less.hyps [of hi "?mid + 1" f] less.hyps [of ?mid lo f] mid less.prems unfold
        by (cases "sint m < sint key")
          (auto intro: andThen_eq [of _ "lookup_loop code table key dflt (?mid + 1) hi"]
             andThen_eq [of _ "lookup_loop code table key dflt lo ?mid"])
    qed
  qed
qed

lemma lookupswitch_lands:
  assumes ct: "check_lookupswitch 64 code p = Some n" and len: "length code < 65536" and pc: "pc f = p + 1"
  shows "lands (op_lookupswitch code) f (inside code n)"
proof -
  let ?s = "aligned_start p"
  from ct obtain dflt npairs where words: "be32_at code ?s = Some dflt" "be32_at code (?s + 4) = Some npairs"
      and rest: "?s + 8 + 8 * unat npairs \<le> length code" "check_target code p (sint dflt)"
        "check_pairs code p (?s + 8) None [0..<unat npairs]"
    by (auto simp: check_lookupswitch_def Let_def table_end_def ac_simps split: option.splits if_splits)
  have pick: "lands (andThen (lookup_loop code (?s + 8) key dflt 0 (unat npairs))
       (\<lambda>offset. set_pc (jump_from (Suc p - 1) offset))) g (inside code n)" for key g
  proof (rule lookup_lands [OF rest(3) _ rest(2)])
    show "?s + 8 + 8 * unat npairs < 65536" using rest(1) len by linarith
    show "lands (set_pc (jump_from (Suc p - 1) v)) g (inside code n)" if "check_target code p (sint v)" for v g
      by (rule jump_lands [OF that len])
  qed simp
  show ?thesis
    unfolding op_lookupswitch_def
    apply (rule lands_get_pc)
    apply (rule lands_andThen, rule padded [OF pc])
    apply (rule lands_fetch32 [where v = dflt], simp add: words)
    apply (rule lands_fetch32 [where v = npairs], simp add: words add.commute)
    apply (rule lands_keeps_first [OF keeps_pop_int])
    apply (rule lands_get_pc)
    subgoal premises g for key g
    proof -
      have "pc g = ?s + 8" "pc f - 1 = Suc p - 1" using g pc by simp_all
      then show ?thesis using pick [of key g] by (simp only:)
    qed
    done
qed

section \<open>A turn of the run loop\<close>

text \<open>The same of the whole machine: and a handler that returns leaves the object heap alone.\<close>

definition mlands :: "unit op \<Rightarrow> machine \<Rightarrow> (nat \<Rightarrow> bool) \<Rightarrow> bool" where
  "mlands m s q \<longleftrightarrow>
     (case m s of (Inl e, _) \<Rightarrow> e \<noteq> Panic
      | (Inr _, s') \<Rightarrow> q (pc (vm_frame s')) \<and> vm_objects s' = vm_objects s)"

lemma on_frame_mlands: "lands m (vm_frame s) q \<Longrightarrow> mlands (on_frame m) s q"
  by (auto simp: lands_def mlands_def on_frame_run split: sum.splits prod.splits)

lemma throws_mlands: "throws cls s (m s) \<Longrightarrow> mlands m s q"
proof -
  assume "throws cls s (m s)"
  then have "\<exists>e s'. m s = (Inl e, s') \<and> e \<noteq> Panic"
    unfolding throws_def by (metis fault.distinct(1) prod.collapse)
  then show ?thesis by (auto simp: mlands_def)
qed

lemma mlands_on_frame_first:
  assumes m: "keeps_pc m" and k: "\<And>x g. pc g = pc (vm_frame s) \<Longrightarrow> mlands (k x) (s\<lparr>vm_frame := g\<rparr>) q"
  shows "mlands (andThen (on_frame m) k) s q"
proof -
  obtain r g where r: "m (vm_frame s) = (r, g)" by fastforce
  have g: "r \<noteq> Inl Panic" "pc g = pc (vm_frame s)"
    using m r unfolding keeps_pc_def by (metis fst_conv, metis snd_conv)
  show ?thesis
  proof (cases r)
    case (Inl e)
    then show ?thesis using r g by (simp add: mlands_def andThen_def on_frame_run)
  next
    case (Inr b)
    obtain r2 s2 where "k b (s\<lparr>vm_frame := g\<rparr>) = (r2, s2)" by fastforce
    then show ?thesis
      using r Inr k [OF g(2), of b] by (cases r2) (simp_all add: mlands_def andThen_def on_frame_run)
  qed
qed

lemma mlands_if: "(c \<Longrightarrow> mlands m s q) \<Longrightarrow> (\<not> c \<Longrightarrow> mlands n s q) \<Longrightarrow> mlands (if c then m else n) s q"
  by simp

lemma mlands_option:
  "mlands m s q \<Longrightarrow> (\<And>x. mlands (k x) s q) \<Longrightarrow> mlands (case r of None \<Rightarrow> m | Some x \<Rightarrow> k x) s q"
  by (cases r) simp_all

lemma mlands_throw: "mlands (throw (Err e)) s q"
  by (simp add: mlands_def throw_def)

lemma exception_mlands:
  assumes "heap_ready al (vm_objects s)"
  shows "mlands (arithmetic_exception al) s q" "mlands (null_pointer_exception al) s q"
  using runtime_fault_throws [OF assms] unfolding arithmetic_exception_def null_pointer_exception_def
  by (blast intro: throws_mlands)+

lemma athrow_mlands: assumes "heap_ready al (vm_objects s)" shows "mlands (op_athrow al) s q"
  unfolding op_athrow_def
  by (intro mlands_on_frame_first keeps) (use assms in \<open>auto split: jvm_value.splits intro!: mlands_throw exception_mlands\<close>)

lemma division_mlands:
  assumes "heap_ready al (vm_objects s)" and "q (pc (vm_frame s))"
  shows "mlands (int_division al g) s q" "mlands (long_division al g') s q"
  unfolding int_division_def long_division_def
  by (intro mlands_on_frame_first keeps; use assms in
    \<open>auto split: jvm_value.splits intro!: mlands_throw exception_mlands on_frame_mlands keeps_lands keeps\<close>)+

lemma math_mlands:
  assumes ci: "check_insn w code p = Some n" and op: "0x60 \<le> code ! p" "code ! p \<le> 0x84"
    and pc: "pc (vm_frame s) = p + 1" and ready: "heap_ready al (vm_objects s)"
  shows "mlands (op_math al lm (code ! p) code) s (\<lambda>q. q = n)"
proof (cases "code ! p = 0x84")
  case True
  have arms: "int_arm 0x84 = None" "long_arm 0x84 = None" "long_shift_arm 0x84 = None" "float_arm lm 0x84 = None"
    "double_arm lm 0x84 = None" "neg_arm 0x84 = None"
    by (simp_all add: int_arm_def long_arm_def long_shift_arm_def float_arm_def double_arm_def neg_arm_def)
  have "op_math al lm 0x84 code = on_frame (op_iinc al code)"
    unfolding op_math_def arms by simp
  then show ?thesis using op_iinc_lands [OF ci True pc] True by (simp add: on_frame_mlands)
next
  case False
  then have "code ! p \<le> 0x83" using op(2) by (simp add: u8_range word_unat_eq_iff)
  then have "operand_len (code ! p) = Some 0"
    using op(1) by (intro no_operand) (simp add: u8_range)
  then have n: "n = pc (vm_frame s)"
    using fixed_insn [OF ci] pc by (simp add: SPECIAL_def)
  have arms: "mlands (on_frame (binary al h)) s (\<lambda>q. q = n)" "mlands (on_frame (unary al h')) s (\<lambda>q. q = n)" for h h'
    using n by (auto intro!: on_frame_mlands keeps_lands keeps)
  show ?thesis
    unfolding op_math_def
    by (intro mlands_option mlands_if arms division_mlands mlands_throw) (use False n ready in simp_all)
qed

lemma control_mlands:
  assumes ci: "check_insn 64 code p = Some n" and len: "length code < 65536"
    and pc: "pc (vm_frame s) = p + 1" "inst_pc (vm_frame s) = p"
    and op: "0x99 \<le> code ! p \<and> code ! p \<le> 0xa7 \<or> code ! p \<in> {0xaa, 0xab, 0xc6, 0xc7, 0xc8}"
  shows "mlands (op_control (code ! p) code) s (inside code n)"
proof -
  have throw: "mlands (throw (Err e)) s (inside code n)" for e by (rule mlands_throw)
  have "0x99 \<le> code ! p \<and> code ! p \<le> 0xa8 \<or> code ! p = 0xc6 \<or> code ! p = 0xc7"
    if "unary_test (code ! p) = Some c" for c
    using that by (auto simp: unary_test_def split: if_splits)
  note unary = on_frame_mlands [OF branch_lands(1) [OF ci len pc(1) this]]
  have "0x99 \<le> code ! p \<and> code ! p \<le> 0xa8 \<or> code ! p = 0xc6 \<or> code ! p = 0xc7"
    if "binary_test (vm_strings s) (code ! p) = Some c" for c
    using that by (auto simp: binary_test_def split: if_splits)
  note binary = on_frame_mlands [OF branch_lands(2) [OF ci len pc(1) this]]
  have table: "check_tableswitch 64 code p = Some n" if "code ! p = 0xaa"
    using ci that by (simp add: check_insn_def operand_len_def SPECIAL_def)
  have lookup: "check_lookupswitch 64 code p = Some n" if "code ! p = 0xab"
    using ci that by (simp add: check_insn_def operand_len_def SPECIAL_def)
  note rest = on_frame_mlands [OF goto_lands(1) [OF ci len pc]] on_frame_mlands [OF goto_lands(2) [OF ci len pc]]
    on_frame_mlands [OF tableswitch_lands [OF table len pc(1)]]
    on_frame_mlands [OF lookupswitch_lands [OF lookup len pc(1)]]
  have other: "mlands (\<lambda>s. if code ! p = 0xa7 then on_frame (op_goto code) s
        else if code ! p = 0xc8 then on_frame (op_goto_w code) s
        else if code ! p = 0xaa then on_frame (op_tableswitch code) s
        else if code ! p = 0xab then on_frame (op_lookupswitch code) s
        else throw (Err (UnsupportedOpcode (code ! p))) s) s (inside code n)"
    using rest throw by (simp add: mlands_def)
  show ?thesis
  proof (cases "unary_test (code ! p)")
    case (Some c)
    then show ?thesis using unary [of c c] by (simp add: mlands_def op_control_def)
  next
    case None
    then show ?thesis
      using binary other by (cases "binary_test (vm_strings s) (code ! p)") (simp_all add: mlands_def op_control_def)
  qed
qed

lemma some_ifE:
  "(if c then Some a else r) = Some m \<Longrightarrow> (c \<Longrightarrow> m = a \<Longrightarrow> P) \<Longrightarrow> (r = Some m \<Longrightarrow> P) \<Longrightarrow> P"
  by (cases c) simp_all

lemma dispatch_mlands:
  assumes ci: "check_insn 64 code p = Some n" and p: "p < length code" and len: "length code < 65536"
    and pc: "pc (vm_frame s) = p + 1" "inst_pc (vm_frame s) = p" and ready: "heap_ready al (vm_objects s)"
    and d: "dispatch al lm (code ! p) code = Some m"
  shows "mlands m s (inside code n)"
proof -
  let ?c = "code ! p"
  have weaken: "mlands h s (inside code n)" if "mlands h s (\<lambda>q. q = n)" for h
    using that by (auto simp: mlands_def inside_def split: prod.splits sum.splits)
  have keep: "mlands (on_frame h) s (inside code n)" if "operand_len ?c = Some 0" "keeps_pc h" for h
    using fixed_insn [OF ci that(1)] pc(1) that(2)
    by (intro weaken on_frame_mlands keeps_lands) (simp_all add: SPECIAL_def)
  consider "?c \<le> 0x11" "m = on_frame (op_constants al ?c code)"
    | "0x15 \<le> ?c" "?c \<le> 0x2d" "m = on_frame (op_locals_load al ?c code)"
    | "0x36 \<le> ?c" "?c \<le> 0x4e" "m = on_frame (op_locals_store al ?c code)"
    | "0x57 \<le> ?c" "?c \<le> 0x5f" "m = on_frame (op_stack al ?c)"
    | "0x60 \<le> ?c" "?c \<le> 0x84" "m = op_math al lm ?c code"
    | "0x85 \<le> ?c" "?c \<le> 0x98" "m = on_frame (op_convert al lm ?c)"
    | "0x99 \<le> ?c \<and> ?c \<le> 0xa7 \<or> ?c \<in> {0xaa, 0xab, 0xc6, 0xc7, 0xc8}" "m = op_control ?c code"
    | "?c = 0xbf" "m = op_athrow al"
    | "?c = 0xc4" "m = on_frame (op_wide al code)"
    using d unfolding dispatch_def by (elim some_ifE conjE) ((rule that; assumption)+, simp)
  then show ?thesis
  proof cases
    case 1
    show ?thesis using op_constants_lands [OF ci p 1(1) pc(1)] 1(2) by (simp add: weaken on_frame_mlands)
  next
    case 2
    show ?thesis using op_locals_lands(1) [OF ci pc(1) 2(1,2)] 2(3) by (simp add: weaken on_frame_mlands)
  next
    case 3
    show ?thesis using op_locals_lands(2) [OF ci pc(1) 3(1,2)] 3(3) by (simp add: weaken on_frame_mlands)
  next
    case 4
    have "operand_len ?c = Some 0" using 4 by (intro no_operand) (simp add: u8_range)
    then show ?thesis unfolding 4(3) by (rule keep) (rule keeps_op_stack)
  next
    case 5
    show ?thesis unfolding 5(3) by (rule weaken [OF math_mlands [OF ci 5(1,2) pc(1) ready]])
  next
    case 6
    have "operand_len ?c = Some 0" using 6 by (intro no_operand) simp
    then show ?thesis unfolding 6(3) by (rule keep) (rule keeps_op_convert)
  next
    case 7
    show ?thesis unfolding 7(2) by (rule control_mlands [OF ci len pc 7(1)])
  next
    case 8
    show ?thesis unfolding 8(2) by (rule athrow_mlands [OF ready])
  next
    case 9
    show ?thesis using op_wide_lands [OF ci 9(1) pc(1)] 9(2) by (simp add: weaken on_frame_mlands)
  qed
qed

section \<open>Safety of a checked instruction\<close>


definition count_down :: "u8 list" where
  "count_down = [0x84, 0, 0xff, 0x1a, 0x9d, 0xff, 0xfc, 0xb1]"

lemma check_loop_next: "check_insn w code p = Some n \<Longrightarrow> p < length code \<Longrightarrow> check_loop w code p = check_loop w code n"
  by (subst check_loop.simps) simp

lemma check_loop_end: "length code \<le> p \<Longrightarrow> check_loop w code p = Inr ()"
  by (subst check_loop.simps) simp

lemma count_down_length: "length count_down = 8"
  by (simp add: count_down_def)

lemma count_down_checked: "check_code 64 count_down = Inr ()"
proof -
  have "check_insn 64 count_down 0 = Some 3" "check_insn 64 count_down 3 = Some 4"
    "check_insn 64 count_down 4 = Some 7" "check_insn 64 count_down 7 = Some 8"
    by code_simp+
  then show ?thesis
    by (simp add: check_code_def check_loop_next check_loop_end count_down_length)
qed


end
