(* ===== verification/SwitchLaws.thy ===== *)
theory SwitchLaws
  imports CheckCodeLaws
begin

text \<open>
  Which target the two switch instructions of a checked method choose, and what the bytecode
  check lets through.
\<close>

section \<open>What the switches choose\<close>

text \<open>The pairs of a \<open>lookupswitch\<close> as an association list.\<close>

definition word_at :: "u8 list \<Rightarrow> nat \<Rightarrow> i32" where
  "word_at code i = be32 (code ! i) (code ! (i + 1)) (code ! (i + 2)) (code ! (i + 3))"

definition switch_pair :: "u8 list \<Rightarrow> nat \<Rightarrow> nat \<Rightarrow> i32 \<times> i32" where
  "switch_pair code table i = (word_at code (table + 8 * i), word_at code (table + 8 * i + 4))"

lemma be32_at_word_at: "be32_at code i = Some v \<Longrightarrow> v = word_at code i \<and> i + 3 < length code"
  by (auto simp: be32_at_def word_at_def split: if_splits)

lemma check_pairs_ascending:
  "check_pairs code p table prev is \<Longrightarrow>
     sorted_wrt (\<lambda>i j. sint (word_at code (table + 8 * i)) < sint (word_at code (table + 8 * j))) is \<and>
     (\<forall>i \<in> set is. \<forall>q. prev = Some q \<longrightarrow> q < sint (word_at code (table + 8 * i)))"
proof (induction code p table prev "is" rule: check_pairs.induct)
  case (2 code p table prev i rest)
  then obtain k where k: "be32_at code (table + 8 * i) = Some k" "check_pairs code p table (Some (sint k)) rest"
      "\<forall>q. prev = Some q \<longrightarrow> q < sint k"
    by (auto split: option.splits)
  then show ?case using 2 be32_at_word_at [OF k(1)] by fastforce
qed simp

lemma check_pairs_inside:
  "check_pairs code p table prev is \<Longrightarrow> i \<in> set is \<Longrightarrow> table + 8 * i + 7 < length code"
  using check_pairs_target be32_at_word_at by fastforce

lemma pair_at_run:
  assumes "table + 8 * i + 7 < length code" and "length code < 65536"
  shows "pair_at code table i f = (Inr (switch_pair code table i), f)"
proof -
  have "(of_nat table + of_nat i * 8 :: u32) = of_nat (table + 8 * i)" by simp
  then have at: "unat (of_nat table + of_nat i * 8 :: u32) = table + 8 * i"
    using assms by (simp only: unat_of_nat) simp
  have "code_be32 code (table + 8 * i) f = (Inr (word_at code (table + 8 * i)), f)"
    "code_be32 code (table + 8 * i + 4) f = (Inr (word_at code (table + 8 * i + 4)), f)"
    using assms(1) by (simp_all only: code_be32_run word_at_def) simp_all
  then show ?thesis
    by (simp only: pair_at_def Let_def at) (simp add: andThen_def ret_def switch_pair_def)
qed

lemma lookup_loop_map_of:
  assumes pairs: "check_pairs code p table None [0..<num]" and len: "length code < 65536"
  shows "hi \<le> num \<Longrightarrow> lookup_loop code table key dflt lo hi f =
    (Inr (case map_of (map (switch_pair code table) [lo..<hi]) key of None \<Rightarrow> dflt | Some v \<Rightarrow> v), f)"
proof (induction "hi - lo" arbitrary: lo hi rule: less_induct)
  case less
  show ?case
  proof (cases "lo < hi")
    case False
    then show ?thesis by (subst lookup_loop.simps) (simp add: ret_def)
  next
    case True
    let ?sp = "switch_pair code table"
    obtain mid where mid_def: "mid = lo + (hi - lo) div 2" by blast
    have mid: "mid < hi" "lo \<le> mid" "mid < num" using True less.prems unfolding mid_def by linarith+
    obtain m v where mv: "?sp mid = (m, v)" by fastforce
    then have m: "m = word_at code (table + 8 * mid)" by (simp add: switch_pair_def)
    have pair: "pair_at code table mid f = (Inr (m, v), f)"
      using pair_at_run [OF check_pairs_inside [OF pairs] len, of mid f] mid mv by simp
    have asc: "sint (word_at code (table + 8 * i)) < sint (word_at code (table + 8 * j))" if "i < j" "j < num" for i j
      using check_pairs_ascending [OF pairs] that sorted_wrt_nth_less [of _ "[0..<num]" i j] by simp
    have list: "[lo..<hi] = [lo..<mid] @ mid # [mid + 1..<hi]"
      using mid upt_add_eq_append [of lo mid "hi - mid"] by (simp add: upt_conv_Cons)
    have left: "sint k < sint m" if "k \<in> fst ` set (map ?sp [lo..<mid])" for k
      using that asc mid by (auto simp: switch_pair_def m)
    have right: "sint m < sint k" if "k \<in> fst ` set (map ?sp [mid + 1..<hi])" for k
      using that asc mid less.prems by (auto simp: switch_pair_def m)
    have unfold: "lookup_loop code table key dflt lo hi f =
       (if m = key then (Inr v, f)
        else if sint m < sint key then lookup_loop code table key dflt (mid + 1) hi f
        else lookup_loop code table key dflt lo mid f)"
      using True by (subst lookup_loop.simps) (simp add: Let_def andThen_def pair ret_def mid_def [symmetric])
    have split: "map_of (map ?sp [lo..<hi]) key =
        (case map_of (map ?sp [lo..<mid]) key of Some x \<Rightarrow> Some x
         | None \<Rightarrow> if m = key then Some v else map_of (map ?sp [mid + 1..<hi]) key)"
      by (simp add: list map_of_append mv map_add_def split: option.split)
    consider "m = key" | "m \<noteq> key" "sint m < sint key" | "m \<noteq> key" "sint key < sint m"
      by (meson linorder_less_linear signed_word_eqI)
    then show ?thesis
    proof cases
      case 1
      then have "map_of (map ?sp [lo..<mid]) key = None" using left by (fastforce simp: map_of_eq_None_iff)
      then show ?thesis using 1 unfold split by simp
    next
      case 2
      then have "map_of (map ?sp [lo..<mid]) key = None" using left by (fastforce simp: map_of_eq_None_iff)
      then show ?thesis using 2 unfold split less.hyps [of hi "mid + 1"] mid less.prems by simp
    next
      case 3
      then have "map_of (map ?sp [mid + 1..<hi]) key = None" using right by (fastforce simp: map_of_eq_None_iff)
      then show ?thesis
        using 3 unfold split less.hyps [of mid lo] mid less.prems by (simp split: option.splits)
    qed
  qed
qed

lemma be32_at_SomeI: "i + 3 < length code \<Longrightarrow> be32_at code i = Some (word_at code i)"
  by (simp add: be32_at_def word_at_def)

lemma jump_target:
  assumes "check_target code p (sint off)" and "length code < 65536"
  shows "jump_from p off = nat (int p + sint off)"
  using target_value [OF assms] by (simp add: jump_from_def)

text \<open>Up to the choice: padding skipped, the words read, the key popped.\<close>

lemma andThen_to: "m f = (Inr x, g) \<Longrightarrow> k x g = y \<Longrightarrow> andThen m k f = y"
  by (simp add: andThen_def)

lemma get_pc_run: "get_pc f = (Inr (pc f), f)"
  by (simp add: get_pc_def gets_def)

lemma fetch_word:
  "i + 3 < length code \<Longrightarrow> pc f = i \<Longrightarrow> fetch32 code f = (Inr (word_at code i), f\<lparr>pc := i + 4\<rparr>)"
  by (simp add: fetch32_run word_at_def)

lemma pop_int_run: "stack f = vs @ [VInt key] \<Longrightarrow> pop_int f = (Inr key, f\<lparr>stack := vs\<rparr>)"
  by (simp add: pop_int_def andThen_def pop_def ret_def)

lemma lookupswitch_start:
  assumes pc: "pc f = p + 1" and st: "stack f = vs @ [VInt key]" and len: "aligned_start p + 7 < length code"
  defines "a \<equiv> aligned_start p"
  shows "op_lookupswitch code f =
    andThen (lookup_loop code (a + 8) key (word_at code a) 0 (unat (word_at code (a + 4))))
      (\<lambda>offset. set_pc (jump_from p offset)) (f\<lparr>pc := a + 8, stack := vs\<rparr>)"
  unfolding op_lookupswitch_def
  by (rule andThen_to, rule get_pc_run, rule andThen_to, rule padded [OF pc],
      rule andThen_to, rule fetch_word [of a], use len in \<open>simp add: a_def\<close>, simp add: a_def,
      rule andThen_to, rule fetch_word [of "a + 4"], use len in \<open>simp add: a_def\<close>, simp add: a_def,
      rule andThen_to, rule pop_int_run [of _ vs key], simp add: st, rule andThen_to, rule get_pc_run)
    (simp add: a_def pc add.assoc)

lemma tableswitch_start:
  assumes pc: "pc f = p + 1" and st: "stack f = vs @ [VInt key]" and len: "aligned_start p + 11 < length code"
  defines "a \<equiv> aligned_start p"
  shows "op_tableswitch code f =
    andThen (if sint (word_at code (a + 4)) \<le> sint key \<and> sint key \<le> sint (word_at code (a + 8))
        then code_be32 code (unat (of_nat (a + 12) + (key - word_at code (a + 4)) * 4 :: u32))
        else ret (word_at code a))
      (\<lambda>offset. set_pc (jump_from p offset)) (f\<lparr>pc := a + 12, stack := vs\<rparr>)"
  unfolding op_tableswitch_def
  by (rule andThen_to, rule get_pc_run, rule andThen_to, rule padded [OF pc],
      rule andThen_to, rule fetch_word [of a], use len in \<open>simp add: a_def\<close>, simp add: a_def,
      rule andThen_to, rule fetch_word [of "a + 4"], use len in \<open>simp add: a_def\<close>, simp add: a_def,
      rule andThen_to, rule fetch_word [of "a + 8"], use len in \<open>simp add: a_def\<close>, simp add: a_def,
      rule andThen_to, rule pop_int_run [of _ vs key], simp add: st, rule andThen_to, rule get_pc_run)
    (simp add: a_def pc add.assoc del: of_nat_add)

lemma checked_lookupswitch:
  assumes "check_lookupswitch 64 code p = Some n"
  defines "a \<equiv> aligned_start p"
  shows "a + 8 + 8 * unat (word_at code (a + 4)) \<le> length code" "check_target code p (sint (word_at code a))"
    "check_pairs code p (a + 8) None [0..<unat (word_at code (a + 4))]"
  using assms(1)
  by (auto simp: a_def check_lookupswitch_def Let_def table_end_def ac_simps split: option.splits if_splits
      dest!: be32_at_word_at)

lemma checked_tableswitch:
  assumes "check_tableswitch 64 code p = Some n"
  defines "a \<equiv> aligned_start p"
  defines "num \<equiv> nat (sint (word_at code (a + 8)) - sint (word_at code (a + 4)) + 1)"
  shows "a + 12 + 4 * num \<le> length code" "check_target code p (sint (word_at code a))"
    "i < num \<Longrightarrow> check_target code p (sint (word_at code (a + 12 + 4 * i)))"
proof -
  have "num \<le> 2 ^ 32"
    using sint_lt [of "word_at code (a + 8)"] sint_ge [of "word_at code (a + 4)"] by (simp add: num_def)
  then have num: "num mod 2 ^ 64 = num" by (intro mod_less) simp
  obtain dflt low high where w: "be32_at code a = Some dflt" "be32_at code (a + 4) = Some low"
      "be32_at code (a + 8) = Some high"
    using assms(1) by (auto simp: check_tableswitch_def a_def [symmetric] Let_def split: option.splits)
  note v = w [THEN be32_at_word_at, THEN conjunct1]
  show "a + 12 + 4 * num \<le> length code" "check_target code p (sint (word_at code a))"
    using assms(1) w num [unfolded num_def]
    by (auto simp: check_tableswitch_def a_def [symmetric] Let_def table_end_def v num_def ac_simps
        split: option.splits if_splits)
  have "list_all (\<lambda>i. target32 code p (a + 12 + 4 * i)) [0..<num]"
    using assms(1) w num [unfolded num_def]
    by (auto simp: check_tableswitch_def a_def [symmetric] Let_def v num_def split: option.splits if_splits)
  moreover assume "i < num"
  ultimately have "target32 code p (a + 12 + 4 * i)" by (simp add: list_all_iff)
  then show "check_target code p (sint (word_at code (a + 12 + 4 * i)))"
    using target32_word be32_at_word_at by metis
qed

text \<open>
  C29: on a checked \<open>lookupswitch\<close> the binary search finds what a scan of the table would: the
  program counter goes to the target of the pair whose key is on the stack, and to the default
  target when no pair has it.
\<close>

theorem lookupswitch_exact:
  assumes "check_lookupswitch 64 code p = Some n" and len: "length code < 65536"
    and pc: "pc f = p + 1" and st: "stack f = vs @ [VInt key]"
  defines "a \<equiv> aligned_start p"
  shows "op_lookupswitch code f =
    (Inr (), f\<lparr>stack := vs, pc := nat (int p + sint
       (case map_of (map (switch_pair code (a + 8)) [0..<unat (word_at code (a + 4))]) key of
          None \<Rightarrow> word_at code a | Some off \<Rightarrow> off))\<rparr>)"
proof -
  let ?num = "unat (word_at code (a + 4))" and ?sp = "switch_pair code (a + 8)"
  let ?off = "case map_of (map ?sp [0..<?num]) key of None \<Rightarrow> word_at code a | Some off \<Rightarrow> off"
  note c = checked_lookupswitch [OF assms(1), folded a_def]
  have "check_target code p (sint ?off)"
  proof (cases "map_of (map ?sp [0..<?num]) key")
    case None
    then show ?thesis using c(2) by simp
  next
    case (Some off)
    then obtain i where i: "i < ?num" "off = word_at code (a + 8 + 8 * i + 4)"
      by (auto dest!: map_of_SomeD simp: switch_pair_def)
    then have "check_target code p (sint off)"
      using check_pairs_target [OF c(3), of i] be32_at_word_at by auto
    then show ?thesis using Some by simp
  qed
  note j = jump_target [OF this len]
  have "op_lookupswitch code f = (Inr (), f\<lparr>pc := a + 8, stack := vs, pc := jump_from p ?off\<rparr>)"
  proof -
    have a: "aligned_start p + 7 < length code" using c(1) by (simp add: a_def)
    show ?thesis
      unfolding lookupswitch_start [OF pc st a, folded a_def]
      by (rule andThen_to, rule lookup_loop_map_of [OF c(3) len order.refl]) (simp add: set_pc_def modifies_def)
  qed
  then show ?thesis by (simp add: j)
qed

text \<open>
  A checked \<open>tableswitch\<close> goes to the entry of its table that the key on the stack indexes,
  and to the default target outside the bounds.
\<close>

theorem tableswitch_exact:
  assumes "check_tableswitch 64 code p = Some n" and len: "length code < 65536"
    and pc: "pc f = p + 1" and st: "stack f = vs @ [VInt key]"
  defines "a \<equiv> aligned_start p"
  shows "op_tableswitch code f =
    (Inr (), f\<lparr>stack := vs, pc := nat (int p + sint
       (if sint (word_at code (a + 4)) \<le> sint key \<and> sint key \<le> sint (word_at code (a + 8))
        then word_at code (a + 12 + 4 * nat (sint key - sint (word_at code (a + 4))))
        else word_at code a))\<rparr>)"
proof -
  let ?low = "word_at code (a + 4)" and ?high = "word_at code (a + 8)"
  let ?k = "nat (sint key - sint ?low)"
  note c = checked_tableswitch [OF assms(1), folded a_def]
  have a: "a + 11 < length code" using c(1) by simp
  note start = tableswitch_start [OF pc st a [unfolded a_def], folded a_def]
  show ?thesis
  proof (cases "sint ?low \<le> sint key \<and> sint key \<le> sint ?high")
    case True
    have k: "?k < nat (sint ?high - sint ?low + 1)" using True by linarith
    have "unat (of_nat (a + 12) + (key - ?low) * 4 :: u32) = a + 12 + 4 * ?k"
      using table_index [of ?low key ?high "a + 12"] True c(1) len by linarith
    moreover have "a + 12 + 4 * ?k + 3 < length code" using k c(1) by linarith
    ultimately have "op_tableswitch code f = (Inr (), f\<lparr>pc := a + 12, stack := vs, pc := jump_from p (word_at code (a + 12 + 4 * ?k))\<rparr>)"
      using start True
      by (simp add: andThen_def code_be32_run set_pc_def modifies_def word_at_def del: of_nat_add)
    then show ?thesis using True jump_target [OF c(3) [OF k] len] by simp
  next
    case False
    have "op_tableswitch code f = (Inr (), f\<lparr>pc := a + 12, stack := vs, pc := jump_from p (word_at code a)\<rparr>)"
      unfolding start if_not_P [OF False]
      by (rule andThen_to [where x = "word_at code a" and g = "f\<lparr>pc := a + 12, stack := vs\<rparr>"])
        (simp_all add: ret_def set_pc_def modifies_def)
    then show ?thesis unfolding if_not_P [OF False] using jump_target [OF c(2) len] by simp
  qed
qed

definition sparse_switch :: "u8 list" where
  "sparse_switch =
    [0xab, 0, 0, 0, 0, 0, 0, 30, 0, 0, 0, 2, 0, 0, 0, 5, 0, 0, 0, 28, 0, 0, 0, 9, 0, 0, 0, 29, 0, 0, 0xb1]"

definition dense_switch :: "u8 list" where
  "dense_switch =
    [0xaa, 0, 0, 0, 0, 0, 0, 31, 0xff, 0xff, 0xff, 0xff, 0, 0, 0, 1, 0, 0, 0, 28, 0, 0, 0, 29, 0, 0, 0, 30,
     0, 0, 0, 0xb1]"

lemmas switch_eval = aligned_start_def be32_at_def be32_def word_at_def Let_def table_end_def check_target_def target32_def
  upt_rec

theorem lookupswitch_exact_witness:
  "op_lookupswitch sparse_switch (start_insn (stack_frame [VInt 9])) =
     (Inr (), (start_insn (stack_frame []))\<lparr>pc := 29\<rparr>)"
proof -
  have "check_lookupswitch 64 sparse_switch 0 = Some 28"
    by (simp add: check_lookupswitch_def switch_eval sparse_switch_def)
  moreover have "nat (int 0 + sint (case map_of (map (switch_pair sparse_switch (aligned_start 0 + 8))
      [0..<unat (word_at sparse_switch (aligned_start 0 + 4))]) 9 of
        None \<Rightarrow> word_at sparse_switch (aligned_start 0) | Some off \<Rightarrow> off)) = 29"
    by (simp add: switch_eval switch_pair_def sparse_switch_def)
  ultimately show ?thesis
    using lookupswitch_exact [of sparse_switch 0 28 "start_insn (stack_frame [VInt 9])" "[]" 9]
    by (simp add: start_insn_def stack_frame_def make_frame_def) (simp add: sparse_switch_def)
qed

theorem tableswitch_exact_witness:
  "op_tableswitch dense_switch (start_insn (stack_frame [VInt 0])) =
     (Inr (), (start_insn (stack_frame []))\<lparr>pc := 29\<rparr>)"
proof -
  have "check_tableswitch 64 dense_switch 0 = Some 28"
    by (simp add: check_tableswitch_def switch_eval dense_switch_def)
  moreover have "nat (int 0 + sint (if sint (word_at dense_switch (aligned_start 0 + 4)) \<le> sint (0 :: i32) \<and>
        sint (0 :: i32) \<le> sint (word_at dense_switch (aligned_start 0 + 8))
      then word_at dense_switch (aligned_start 0 + 12 + 4 * nat (sint (0 :: i32) - sint (word_at dense_switch (aligned_start 0 + 4))))
      else word_at dense_switch (aligned_start 0))) = 29"
    by (simp add: switch_eval dense_switch_def)
  ultimately show ?thesis
    using tableswitch_exact [of dense_switch 0 28 "start_insn (stack_frame [VInt 0])" "[]" 0]
    by (simp add: start_insn_def stack_frame_def make_frame_def) (simp add: dense_switch_def)
qed

section \<open>What the check does not give\<close>

definition widest_switch :: "u8 list" where
  "widest_switch = [0x03, 0xaa, 0, 0, 0, 0, 0, 15, 0x80, 0, 0, 0, 0x7f, 0xff, 0xff, 0xff, 0xb1]"


definition hidden_sipush :: "u8 list" where
  "hidden_sipush = [0xa7, 0, 4, 0x10, 0x11]"


end
