(* ===== verification/Statics.thy ===== *)
theory Statics
  imports JvmTypes SideStores
begin

text \<open>
  Two of the tables that hold references outside the heap: the static fields,
  \<open>crates/jvm/src/static_fields.rs\<close>, and the cache of \<open>java.lang.Class\<close> objects,
  \<open>crates/jvm/src/class_objects.rs\<close> (its resolution tables are not modelled). Both are
  roots of the collector.
\<close>

section \<open>Static fields\<close>

definition UNPREPARED :: u16 where
  "UNPREPARED = 0xFFFF"

definition GROW_SLACK :: nat where
  "GROW_SLACK = 32"

record static_store =
  static_values :: "jvm_value vec"
  static_base :: "u16 vec"
  initialized :: "u32 vec"
  erroneous :: "u32 vec"

definition statics_new :: static_store where
  "statics_new = \<lparr>static_values = vec_new, static_base = vec_new, initialized = vec_new, erroneous = vec_new\<rparr>"

text \<open>\<open>try_reserve_exact(n - len).ok()?\<close> and \<open>resize(n, fill)\<close>, on a table shorter than \<open>n\<close>.\<close>

definition grow_table :: "(nat \<Rightarrow> bool) \<Rightarrow> nat \<Rightarrow> 'a \<Rightarrow> 'a vec \<Rightarrow> 'a vec option" where
  "grow_table mem n fill v =
     (if n \<le> length (items v) then Some v
      else map_option (\<lambda>c. \<lparr>items = resize (items v) n fill, vcap = c\<rparr>)
             (vec_reserve_exact mem (vcap v) (length (items v)) (n - length (items v))))"

text \<open>The base table may have grown when the bitset is refused.\<close>

definition reserve_classes :: "allocator \<Rightarrow> nat \<Rightarrow> static_store \<Rightarrow> unit option \<times> static_store" where
  "reserve_classes al n s =
     (case grow_table (al TableBuf) n UNPREPARED (static_base s) of
        None \<Rightarrow> (None, s)
      | Some b \<Rightarrow>
          (let s1 = s\<lparr>static_base := b\<rparr>
           in case grow_table (al TableBuf) ((n + 31) div 32) 0 (initialized s1) of
                None \<Rightarrow> (None, s1)
              | Some w \<Rightarrow> (Some (), s1\<lparr>initialized := w\<rparr>)))"

definition bit_at :: "u32 vec \<Rightarrow> nat \<Rightarrow> bool" where
  "bit_at t ci = (case vec_get t (ci div 32) of None \<Rightarrow> False | Some w \<Rightarrow> bit w (ci mod 32))"

definition set_bit_at :: "nat \<Rightarrow> u32 vec \<Rightarrow> u32 vec" where
  "set_bit_at ci t = vec_set (ci div 32) (items t ! (ci div 32) OR push_bit (ci mod 32) 1) t"

definition is_initialized :: "static_store \<Rightarrow> nat \<Rightarrow> bool" where
  "is_initialized s ci = bit_at (initialized s) ci"

definition mark_initialized :: "allocator \<Rightarrow> nat \<Rightarrow> static_store \<Rightarrow> unit option \<times> static_store" where
  "mark_initialized al ci s =
     (case reserve_classes al (ci + 1) s of
        (None, s1) \<Rightarrow> (None, s1)
      | (Some _, s1) \<Rightarrow> (Some (), s1\<lparr>initialized := set_bit_at ci (initialized s1)\<rparr>))"

definition is_erroneous :: "static_store \<Rightarrow> nat \<Rightarrow> bool" where
  "is_erroneous s ci = bit_at (erroneous s) ci"

definition mark_erroneous :: "allocator \<Rightarrow> nat \<Rightarrow> static_store \<Rightarrow> static_store" where
  "mark_erroneous al ci s =
     (case grow_table (al TableBuf) (ci div 32 + 1) 0 (erroneous s) of
        None \<Rightarrow> s
      | Some t \<Rightarrow> s\<lparr>erroneous := set_bit_at ci t\<rparr>)"

text \<open>
  Room for \<open>count\<close> values: the slack first, then the exact need. The value table holds at most
  65535 slots, so the addition cannot overflow a \<open>usize\<close>.
\<close>

definition values_room :: "(nat \<Rightarrow> bool) \<Rightarrow> nat \<Rightarrow> jvm_value vec \<Rightarrow> nat option" where
  "values_room mem num v =
     (let start = length (items v)
      in if vcap v - start < num
         then (case vec_reserve_exact mem (vcap v) start (max num GROW_SLACK) of
                 Some c \<Rightarrow> Some c
               | None \<Rightarrow> vec_reserve_exact mem (vcap v) start num)
         else Some (vcap v))"

definition prepare :: "allocator \<Rightarrow> nat \<Rightarrow> nat \<Rightarrow> static_store \<Rightarrow> u16 option \<times> static_store" where
  "prepare al ci num s =
     (case reserve_classes al (ci + 1) s of
        (None, s1) \<Rightarrow> (None, s1)
      | (Some _, s1) \<Rightarrow>
          (let base = items (static_base s1) ! ci; start = length (items (static_values s1))
           in if base \<noteq> UNPREPARED then (Some base, s1)
              else if unat UNPREPARED < start + num then (None, s1)
              else case values_room (al ValueBuf) num (static_values s1) of
                     None \<Rightarrow> (None, s1)
                   | Some c \<Rightarrow>
                       (Some (of_nat start),
                        s1\<lparr>static_values := \<lparr>items = resize (items (static_values s1)) (start + num) VNull, vcap = c\<rparr>,
                           static_base := vec_set ci (of_nat start) (static_base s1)\<rparr>)))"

definition static_slot :: "static_store \<Rightarrow> nat \<Rightarrow> nat \<Rightarrow> nat option" where
  "static_slot s ci fi =
     (case vec_get (static_base s) ci of
        None \<Rightarrow> None
      | Some base \<Rightarrow>
          if base = UNPREPARED then None
          else let idx = unat base + fi
               in if idx < length (items (static_values s)) then Some idx else None)"

definition get_by_index :: "static_store \<Rightarrow> nat \<Rightarrow> jvm_value" where
  "get_by_index s idx = (case vec_get (static_values s) idx of None \<Rightarrow> VNull | Some v \<Rightarrow> v)"

definition set_by_index :: "nat \<Rightarrow> jvm_value \<Rightarrow> static_store \<Rightarrow> static_store" where
  "set_by_index idx v s =
     (if idx < length (items (static_values s))
      then s\<lparr>static_values := vec_set idx v (static_values s)\<rparr> else s)"

definition static_len :: "static_store \<Rightarrow> nat" where
  "static_len s = length (items (static_values s))"

section \<open>Class objects\<close>

record class_objects =
  class_entries :: "(u16 \<times> u16) vec"

definition class_objects_new :: class_objects where
  "class_objects_new = \<lparr>class_entries = vec_new\<rparr>"

definition class_lookup :: "class_objects \<Rightarrow> u16 \<Rightarrow> u16 option" where
  "class_lookup c name_idx = find_key (class_entries c) name_idx"

definition class_insert :: "allocator \<Rightarrow> u16 \<Rightarrow> u16 \<Rightarrow> class_objects \<Rightarrow> unit option \<times> class_objects" where
  "class_insert al name_idx obj_ref c =
     (let v = class_entries c
      in case vec_reserve (al TableBuf) (vcap v) (length (items v)) 1 of
           None \<Rightarrow> (None, c)
         | Some cap \<Rightarrow> (Some (), \<lparr>class_entries = vec_push (name_idx, obj_ref) (v\<lparr>vcap := cap\<rparr>)\<rparr>))"

definition class_refs :: "class_objects \<Rightarrow> u16 list" where
  "class_refs c = map snd (items (class_entries c))"

section \<open>What the static fields promise\<close>

text \<open>
  The prepared classes: each has a base, and the runs of slots it was given do not overlap. The
  number of slots a class was given is not stored, so it is a parameter of the invariant.
\<close>

definition prepared_at :: "static_store \<Rightarrow> nat \<Rightarrow> nat option" where
  "prepared_at s ci =
     (case vec_get (static_base s) ci of
        None \<Rightarrow> None | Some b \<Rightarrow> if b = UNPREPARED then None else Some (unat b))"

definition statics_ok :: "(nat \<Rightarrow> nat) \<Rightarrow> static_store \<Rightarrow> bool" where
  "statics_ok num s \<longleftrightarrow>
     length (items (static_values s)) \<le> 65535 \<and>
     (\<forall>ci b. prepared_at s ci = Some b \<longrightarrow> b + num ci \<le> length (items (static_values s))) \<and>
     (\<forall>ci cj b c. ci \<noteq> cj \<longrightarrow> prepared_at s ci = Some b \<longrightarrow> prepared_at s cj = Some c \<longrightarrow>
        b + num ci \<le> c \<or> c + num cj \<le> b)"

lemma statics_new_ok: "statics_ok num statics_new"
  by (simp add: statics_ok_def statics_new_def prepared_at_def vec_get_def vec_new_def)

lemma grow_table_some:
  assumes "grow_table mem n fill v = Some w"
  shows "n \<le> length (items w) \<and> length (items v) \<le> length (items w) \<and>
    (\<forall>i < length (items w). items w ! i = (if i < length (items v) then items v ! i else fill))"
  using assms by (auto simp: grow_table_def nth_resize split: if_splits)

text \<open>Growing the class tables prepares nothing and moves nothing.\<close>

lemma reserve_classes_keeps:
  "prepared_at (snd (reserve_classes al n s)) = prepared_at s"
  "static_values (snd (reserve_classes al n s)) = static_values s"
  "fst (reserve_classes al n s) = Some () \<Longrightarrow> n \<le> length (items (static_base (snd (reserve_classes al n s))))"
proof -
  have base: "prepared_at (s\<lparr>static_base := b\<rparr>) = prepared_at s"
    if "grow_table mem n UNPREPARED (static_base s) = Some b" for mem b
    using grow_table_some [OF that] by (auto simp: prepared_at_def vec_get_def fun_eq_iff)
  have init: "prepared_at (t\<lparr>initialized := w\<rparr>) = prepared_at t" for t w
    by (auto simp: prepared_at_def fun_eq_iff)
  show "prepared_at (snd (reserve_classes al n s)) = prepared_at s"
    using base init by (auto simp: reserve_classes_def Let_def split: option.split)
  show "static_values (snd (reserve_classes al n s)) = static_values s"
    by (auto simp: reserve_classes_def Let_def split: option.split)
  show "n \<le> length (items (static_base (snd (reserve_classes al n s))))"
    if "fst (reserve_classes al n s) = Some ()"
    using that by (auto simp: reserve_classes_def Let_def dest: grow_table_some split: option.splits)
qed

lemma prepare_law:
  assumes ok: "statics_ok num s"
  shows "case prepare al ci (num ci) s of
      (None, t) \<Rightarrow> statics_ok num t \<and> prepared_at t = prepared_at s \<and> static_values t = static_values s
    | (Some b, t) \<Rightarrow> statics_ok num t \<and>
        (case prepared_at s ci of
           Some b' \<Rightarrow> unat b = b' \<and> prepared_at t = prepared_at s \<and> static_values t = static_values s
         | None \<Rightarrow> (b \<noteq> UNPREPARED \<longrightarrow> prepared_at t = (prepared_at s)(ci \<mapsto> unat b)) \<and>
             (b = UNPREPARED \<longrightarrow> num ci = 0 \<and> prepared_at t = prepared_at s) \<and>
             unat b = length (items (static_values s)) \<and>
             items (static_values t) = items (static_values s) @ replicate (num ci) VNull)"
proof -
  obtain r s1 where rc: "reserve_classes al (ci + 1) s = (r, s1)" by fastforce
  note keep = reserve_classes_keeps [of al "ci + 1" s, unfolded rc fst_conv snd_conv]
  have ok1: "statics_ok num s1" using ok keep(1,2) by (simp add: statics_ok_def)
  show ?thesis
  proof (cases r)
    case None
    then show ?thesis using rc ok1 keep by (simp add: prepare_def)
  next
    case (Some u)
    let ?base = "items (static_base s1) ! ci" and ?start = "length (items (static_values s1))"
    have ci: "ci < length (items (static_base s1))" using keep(3) Some by simp
    show ?thesis
    proof (cases "?base \<noteq> UNPREPARED")
      case True
      then have "prepared_at s1 ci = Some (unat ?base)"
        using ci by (simp add: prepared_at_def vec_get_def)
      then have "prepared_at s ci = Some (unat ?base)" using keep(1) by simp
      then show ?thesis using True rc Some ok1 keep(1,2) by (simp add: prepare_def Let_def)
    next
      case False
      then have new: "prepared_at s1 ci = None" using ci by (simp add: prepared_at_def vec_get_def)
      consider "unat UNPREPARED < ?start + num ci" | "values_room (al ValueBuf) (num ci) (static_values s1) = None"
        | c where "\<not> unat UNPREPARED < ?start + num ci" "values_room (al ValueBuf) (num ci) (static_values s1) = Some c"
        by fastforce
      then show ?thesis
      proof cases
        case 3
        let ?t = "s1\<lparr>static_values := \<lparr>items = resize (items (static_values s1)) (?start + num ci) VNull, vcap = c\<rparr>,
           static_base := vec_set ci (of_nat ?start) (static_base s1)\<rparr>"
        have run: "prepare al ci (num ci) s = (Some (of_nat ?start), ?t)"
          using False 3 rc Some by (simp add: prepare_def Let_def)
        have len: "?start + num ci \<le> 65535" using 3(1) by (simp add: UNPREPARED_def)
        then have b: "unat (of_nat ?start :: u16) = ?start" by (simp add: unat_of_nat)
        have vals: "items (static_values ?t) = items (static_values s1) @ replicate (num ci) VNull"
          by (simp add: resize_def)
        have base: "prepared_at ?t cj =
            (if cj = ci then if (of_nat ?start :: u16) = UNPREPARED then None else Some ?start else prepared_at s1 cj)" for cj
          using ci b by (auto simp: prepared_at_def vec_get_def vec_set_def)
        have full: "num ci = 0" if "(of_nat ?start :: u16) = UNPREPARED"
        proof -
          have "?start = 65535" using that b by (simp add: UNPREPARED_def)
          then show ?thesis using len by simp
        qed
        have "prepared_at ?t = (if (of_nat ?start :: u16) = UNPREPARED then prepared_at s else (prepared_at s)(ci \<mapsto> ?start))"
          using base new keep(1) by (auto simp: fun_eq_iff)
        moreover have "statics_ok num ?t"
          unfolding statics_ok_def vals
          using ok1 len base by (fastforce simp: statics_ok_def split: if_splits)
        ultimately show ?thesis
          using run b vals full new keep(1,2) by (auto split: if_splits)
      qed (use False rc Some ok1 keep new in \<open>simp_all add: prepare_def Let_def\<close>)
    qed
  qed
qed

lemma static_slot_at:
  assumes "statics_ok num s" and "prepared_at s ci = Some b" and "fi < num ci"
  shows "static_slot s ci fi = Some (b + fi)"
  using assms by (fastforce simp: statics_ok_def static_slot_def prepared_at_def Let_def split: option.splits if_splits)

text \<open>
  The static fields of the prepared classes are independent variables: each has a slot of
  its own, a write is read back through the same class and field, and through no other.
\<close>

theorem static_fields_independent:
  assumes ok: "statics_ok num s" and prep: "prepared_at s ci = Some b" "prepared_at s cj = Some c"
    and fi: "fi < num ci" and fj: "fj < num cj"
  shows "\<exists>i j. static_slot s ci fi = Some i \<and> static_slot s cj fj = Some j \<and>
    get_by_index (set_by_index i v s) j = (if (ci, fi) = (cj, fj) then v else get_by_index s j)"
proof -
  have len: "b + fi < length (items (static_values s))"
    using ok prep(1) fi by (fastforce simp: statics_ok_def)
  have "b + fi = c + fj \<longleftrightarrow> (ci, fi) = (cj, fj)"
  proof (cases "ci = cj")
    case False
    then have "b + num ci \<le> c \<or> c + num cj \<le> b" using ok prep by (simp add: statics_ok_def)
    then show ?thesis using fi fj False by auto
  qed (use prep in simp)
  then have "get_by_index (set_by_index (b + fi) v s) (c + fj) =
      (if (ci, fi) = (cj, fj) then v else get_by_index s (c + fj))"
    using len by (auto simp: get_by_index_def set_by_index_def vec_get_def vec_set_def)
  then show ?thesis
    using static_slot_at [OF ok prep(1) fi] static_slot_at [OF ok prep(2) fj] by blast
qed

definition two_statics :: static_store where
  "two_statics =
     \<lparr>static_values = \<lparr>items = [VInt 3, VNull, VNull], vcap = 3\<rparr>, static_base = \<lparr>items = [0, 1], vcap = 2\<rparr>,
      initialized = vec_new, erroneous = vec_new\<rparr>"

lemma two_statics_prepared: "prepared_at two_statics ci = (if ci = 0 then Some 0 else if ci = 1 then Some 1 else None)"
  by (simp add: prepared_at_def two_statics_def vec_get_def UNPREPARED_def)

theorem static_fields_independent_witness:
  "\<exists>i j. static_slot two_statics 0 0 = Some i \<and> static_slot two_statics 1 1 = Some j \<and>
    get_by_index (set_by_index i (VInt 7) two_statics) j = get_by_index two_statics j"
proof -
  let ?num = "\<lambda>ci. if ci = 0 then 1 else 2 :: nat"
  have "statics_ok ?num two_statics"
    unfolding statics_ok_def two_statics_prepared by (simp add: two_statics_def)
  then show ?thesis
    using static_fields_independent [of ?num two_statics 0 0 1 1 0 1 "VInt 7"] by (simp add: two_statics_prepared)
qed

end
