(* ===== verification/MapStore.thy ===== *)
theory MapStore
  imports Machine SideStores
begin

text \<open>
  The buffers of \<open>HashMap\<close> and \<open>HashSet\<close>, \<open>crates/jvm/src/object_heap/map_store.rs\<close>, and the
  equality of their keys (\<open>key_eq\<close> of \<open>object_heap/mod.rs\<close>): entries in insertion order,
  found by a scan with Java's \<open>equals\<close> of strings and boxes.
\<close>

section \<open>Key equality\<close>

definition is_box_class :: "string \<Rightarrow> bool" where
  "is_box_class cls \<longleftrightarrow>
     cls \<in> {java_lang_Integer, java_lang_Long, java_lang_Short, java_lang_Byte, java_lang_Character,
            java_lang_Boolean, java_lang_Float, java_lang_Double}"

text \<open>The payloads of two boxes: floating-point ones by their bits, any NaN equal to any other.\<close>

fun payload_eq :: "jvm_value \<Rightarrow> jvm_value \<Rightarrow> bool" where
  "payload_eq (VDouble x) (VDouble y) \<longleftrightarrow>
     x = y \<or> fp_is_nan 52 11 (unat x) \<and> fp_is_nan 52 11 (unat y)"
| "payload_eq (VFloat x) (VFloat y) \<longleftrightarrow>
     x = y \<or> fp_is_nan 23 8 (unat x) \<and> fp_is_nan 23 8 (unat y)"
| "payload_eq x y \<longleftrightarrow> value_eq x y"

definition box_eq :: "object_heap \<Rightarrow> u16 \<Rightarrow> u16 \<Rightarrow> bool" where
  "box_eq h a b \<longleftrightarrow>
     (case (ob_class_name h a, ob_class_name h b) of
        (Some ca, Some cb) \<Rightarrow>
          if ca \<noteq> cb \<or> \<not> is_box_class ca then False
          else (case (get_field h a 0, get_field h b 0) of
                  (Some x, Some y) \<Rightarrow> payload_eq x y
                | _ \<Rightarrow> False)
      | _ \<Rightarrow> False)"

definition key_eq :: "object_heap \<Rightarrow> string_table \<Rightarrow> jvm_value \<Rightarrow> jvm_value \<Rightarrow> fault + bool" where
  "key_eq h t a b =
     (case (a, b) of
        (VObjectRef x, VObjectRef y) \<Rightarrow> Inr (x = y \<or> box_eq h x y)
      | (VReference x, VReference y) \<Rightarrow> content_eq t x y
      | _ \<Rightarrow> Inr (value_eq a b))"

section \<open>Operations\<close>

type_synonym entry = "slot \<times> slot"

definition entry_values :: "entry \<Rightarrow> (jvm_value \<times> jvm_value) option" where
  "entry_values e =
     (case (to_value (fst e), to_value (snd e)) of (Some k, Some v) \<Rightarrow> Some (k, v) | _ \<Rightarrow> None)"

definition map_alloc :: "allocator \<Rightarrow> stores \<Rightarrow> u16 option \<times> stores" where
  "map_alloc al s =
     (case free_buf (map_bufs s) of
        Some i \<Rightarrow>
          (Some (of_nat i),
           s\<lparr>map_bufs := vec_set i (Some vec_new) (map_bufs s), map_mods := vec_set i 0 (map_mods s)\<rparr>)
      | None \<Rightarrow>
          if REF_TOP \<le> length (items (map_bufs s)) then (None, s)
          else (case vec_room (al TableBuf) 1 (map_bufs s) of
                  None \<Rightarrow> (None, s)
                | Some b \<Rightarrow>
                    (case vec_room (al TableBuf) 1 (map_mods s) of
                       None \<Rightarrow> (None, s\<lparr>map_bufs := b\<rparr>)
                     | Some m \<Rightarrow>
                         (Some (of_nat (length (items (map_bufs s)))),
                          s\<lparr>map_bufs := vec_push (Some vec_new) b, map_mods := vec_push 0 m\<rparr>))))"

definition map_mod_count :: "stores \<Rightarrow> u16 \<Rightarrow> u32" where
  "map_mod_count s idx = (case vec_get (map_mods s) (unat idx) of None \<Rightarrow> 0 | Some m \<Rightarrow> m)"

definition bump_map_mods :: "u16 \<Rightarrow> stores \<Rightarrow> stores" where
  "bump_map_mods idx s = s\<lparr>map_mods := bump_mods idx (map_mods s)\<rparr>"

definition map_free :: "u16 \<Rightarrow> stores \<Rightarrow> stores" where
  "map_free idx s = s\<lparr>map_bufs := set_buf idx None (map_bufs s)\<rparr>"

definition map_len :: "stores \<Rightarrow> u16 \<Rightarrow> nat" where
  "map_len s idx = (case buf_at (map_bufs s) idx of None \<Rightarrow> 0 | Some b \<Rightarrow> length (items b))"

definition map_slots :: "stores \<Rightarrow> u16 \<Rightarrow> entry list" where
  "map_slots s idx = (case buf_at (map_bufs s) idx of None \<Rightarrow> [] | Some b \<Rightarrow> items b)"

text \<open>The scan for a value among stored slots: the position of the first equal one.\<close>

primrec scan_for :: "(jvm_value \<Rightarrow> fault + bool) \<Rightarrow> slot list \<Rightarrow> nat \<Rightarrow> fault + nat option" where
  "scan_for eq [] i = Inr None"
| "scan_for eq (s # rest) i =
     (case to_value s of
        None \<Rightarrow> scan_for eq rest (i + 1)
      | Some k \<Rightarrow>
          (case eq k of
             Inl e \<Rightarrow> Inl e
           | Inr c \<Rightarrow> if c then Inr (Some i) else scan_for eq rest (i + 1)))"

definition map_find_key :: "object_heap \<Rightarrow> string_table \<Rightarrow> stores \<Rightarrow> u16 \<Rightarrow> jvm_value \<Rightarrow> fault + nat option" where
  "map_find_key h t s idx key = scan_for (\<lambda>k. key_eq h t k key) (map fst (map_slots s idx)) 0"

definition write_map :: "u16 \<Rightarrow> entry vec \<Rightarrow> stores \<Rightarrow> stores" where
  "write_map idx b s = s\<lparr>map_bufs := set_buf idx (Some b) (map_bufs s)\<rparr>"

text \<open>
  \<open>map_put\<close>. The key goes through its stored form and back before the lookup. The result is a
  fault, a refusal, or the value replaced.
\<close>

definition map_put ::
  "allocator \<Rightarrow> object_heap \<Rightarrow> string_table \<Rightarrow> u16 \<Rightarrow> jvm_value \<Rightarrow> jvm_value \<Rightarrow>
     (stores, fault, exhausted + jvm_value option) action" where
  "map_put al h t idx key v s =
     (case (from_narrow key, from_narrow v) of
        (Some k', Some v') \<Rightarrow>
          (case (case to_value k' of None \<Rightarrow> Inr None | Some k \<Rightarrow> map_find_key h t s idx k) of
             Inl e \<Rightarrow> (Inl e, s)
           | Inr pos \<Rightarrow>
               (case buf_at (map_bufs s) idx of
                  None \<Rightarrow> (Inr (Inr None), s)
                | Some b \<Rightarrow>
                    (case pos of
                       Some i \<Rightarrow>
                         if length (items b) \<le> i then (Inl Panic, s)
                         else (Inr (Inr (to_value (snd (items b ! i)))),
                               write_map idx (vec_set i (fst (items b ! i), v') b) s)
                     | None \<Rightarrow>
                         (case vec_room (al TableBuf) 1 b of
                            None \<Rightarrow> (Inr (Inl Exhausted), s)
                          | Some b' \<Rightarrow>
                              (Inr (Inr None), bump_map_mods idx (write_map idx (vec_push (k', v') b') s))))))
      | _ \<Rightarrow> (Inr (Inl Exhausted), s))"

definition map_entry_at :: "stores \<Rightarrow> u16 \<Rightarrow> nat \<Rightarrow> (jvm_value \<times> jvm_value) option" where
  "map_entry_at s idx i =
     Option.bind (buf_at (map_bufs s) idx) (\<lambda>b. Option.bind (vec_get b i) entry_values)"

definition map_set_value_at :: "u16 \<Rightarrow> nat \<Rightarrow> jvm_value \<Rightarrow> stores \<Rightarrow> jvm_value option \<times> stores" where
  "map_set_value_at idx i v s =
     (case (from_narrow v, buf_at (map_bufs s) idx) of
        (Some v', Some b) \<Rightarrow>
          if i < length (items b)
          then (to_value (snd (items b ! i)), write_map idx (vec_set i (fst (items b ! i), v') b) s)
          else (None, s)
      | _ \<Rightarrow> (None, s))"

definition map_push :: "allocator \<Rightarrow> u16 \<Rightarrow> jvm_value \<Rightarrow> jvm_value \<Rightarrow> (stores, exhausted, unit) action" where
  "map_push al idx key v s =
     (case (from_narrow key, from_narrow v) of
        (Some k', Some v') \<Rightarrow>
          (case buf_at (map_bufs s) idx of
             None \<Rightarrow> (Inr (), s)
           | Some b \<Rightarrow>
               (case vec_room (al TableBuf) 1 b of
                  None \<Rightarrow> (Inl Exhausted, s)
                | Some b' \<Rightarrow> (Inr (), bump_map_mods idx (write_map idx (vec_push (k', v') b') s))))
      | _ \<Rightarrow> (Inl Exhausted, s))"

definition map_get ::
  "object_heap \<Rightarrow> string_table \<Rightarrow> stores \<Rightarrow> u16 \<Rightarrow> jvm_value \<Rightarrow> fault + jvm_value option" where
  "map_get h t s idx key =
     (case map_find_key h t s idx key of
        Inl e \<Rightarrow> Inl e
      | Inr None \<Rightarrow> Inr None
      | Inr (Some i) \<Rightarrow> Inr (to_value (snd (map_slots s idx ! i))))"

definition map_remove ::
  "object_heap \<Rightarrow> string_table \<Rightarrow> u16 \<Rightarrow> jvm_value \<Rightarrow> (stores, fault, jvm_value option) action" where
  "map_remove h t idx key s =
     (case map_find_key h t s idx key of
        Inl e \<Rightarrow> (Inl e, s)
      | Inr None \<Rightarrow> (Inr None, s)
      | Inr (Some i) \<Rightarrow>
          (case buf_at (map_bufs s) idx of
             None \<Rightarrow> (Inr None, s)
           | Some b \<Rightarrow>
               (Inr (to_value (snd (items b ! i))),
                bump_map_mods idx (write_map idx (b\<lparr>items := remove_at i (items b)\<rparr>) s))))"

definition map_contains_key ::
  "object_heap \<Rightarrow> string_table \<Rightarrow> stores \<Rightarrow> u16 \<Rightarrow> jvm_value \<Rightarrow> fault + bool" where
  "map_contains_key h t s idx key =
     (case map_find_key h t s idx key of Inl e \<Rightarrow> Inl e | Inr r \<Rightarrow> Inr (r \<noteq> None))"

definition map_contains_value ::
  "object_heap \<Rightarrow> string_table \<Rightarrow> stores \<Rightarrow> u16 \<Rightarrow> jvm_value \<Rightarrow> fault + bool" where
  "map_contains_value h t s idx v =
     (case scan_for (\<lambda>x. key_eq h t x v) (map snd (map_slots s idx)) 0 of
        Inl e \<Rightarrow> Inl e | Inr r \<Rightarrow> Inr (r \<noteq> None))"

definition map_remove_at :: "u16 \<Rightarrow> nat \<Rightarrow> stores \<Rightarrow> bool \<times> stores" where
  "map_remove_at idx i s =
     (case buf_at (map_bufs s) idx of
        None \<Rightarrow> (False, s)
      | Some b \<Rightarrow>
          if i < length (items b)
          then (True, bump_map_mods idx (write_map idx (b\<lparr>items := remove_at i (items b)\<rparr>) s))
          else (False, s))"

definition map_clear :: "u16 \<Rightarrow> stores \<Rightarrow> stores" where
  "map_clear idx s =
     (case buf_at (map_bufs s) idx of
        None \<Rightarrow> s
      | Some _ \<Rightarrow> bump_map_mods idx (write_map idx vec_new s))"

definition map_iter :: "stores \<Rightarrow> u16 \<Rightarrow> (jvm_value \<times> jvm_value) list" where
  "map_iter s idx = List.map_filter entry_values (map_slots s idx)"

end
