(* ===== verification/MapStoreLaws.thy ===== *)
theory MapStoreLaws
  imports MapStore StringLaws
begin

text \<open>
  What the map buffers promise: an index names a buffer of its own, key equality is an
  equivalence, and a buffer whose keys are pairwise different acts as a finite map under it.
\<close>

section \<open>Buffers\<close>

definition map_view :: "stores \<Rightarrow> u16 \<Rightarrow> entry list option" where
  "map_view s idx = map_option items (buf_at (map_bufs s) idx)"

lemma map_alloc_law:
  assumes ok: "stores_ok s"
  shows "case map_alloc al s of
      (None, t) \<Rightarrow> stores_ok t \<and> map_view t = map_view s
    | (Some i, t) \<Rightarrow> stores_ok t \<and> map_view s i = None \<and> map_view t = (map_view s)(i \<mapsto> []) \<and> map_mod_count t i = 0"
proof (cases "free_buf (map_bufs s)")
  case (Some i)
  have le: "length (items (map_bufs s)) \<le> REF_TOP" using ok by (simp add: stores_ok_def)
  note r = buf_at_reuse [OF Some le]
  have i: "i < length (items (map_bufs s))" using position_Some [OF Some [unfolded free_buf_def]] by simp
  then have u: "unat (of_nat i :: u16) = i" using le by (simp add: small_index REF_TOP_def)
  have "stores_ok (s\<lparr>map_bufs := vec_set i (Some vec_new) (map_bufs s), map_mods := vec_set i 0 (map_mods s)\<rparr>)"
    using ok r(2) by (auto simp: stores_ok_def split: if_splits)
  with Some r i u ok show ?thesis
    by (auto simp: map_alloc_def map_view_def map_mod_count_def vec_get_def stores_ok_def fun_eq_iff)
next
  case None
  show ?thesis
  proof (cases "REF_TOP \<le> length (items (map_bufs s))")
    case True
    with None ok show ?thesis by (simp add: map_alloc_def)
  next
    case room: False
    show ?thesis
    proof (cases "vec_room (al TableBuf) 1 (map_bufs s)")
      case r1: None
      with None room ok show ?thesis by (simp add: map_alloc_def)
    next
      case b: (Some b)
      note bi = vec_room_items [OF b]
      have same: "buf_at b = buf_at (map_bufs s)" by (simp add: buf_at_eq bi fun_eq_iff)
      show ?thesis
      proof (cases "vec_room (al TableBuf) 1 (map_mods s)")
        case r2: None
        have "stores_ok (s\<lparr>map_bufs := b\<rparr>)" using ok bi same by (simp add: stores_ok_def)
        with None room b r2 same show ?thesis by (simp add: map_alloc_def map_view_def fun_eq_iff)
      next
        case m: (Some m)
        note mi = vec_room_items [OF m]
        let ?i = "of_nat (length (items (map_bufs s))) :: u16"
        have "length (items (map_bufs s)) < REF_TOP" using room by simp
        note ap = buf_at_append [OF this, of "vec_push (Some vec_new) b" "Some vec_new", simplified bi vec_ops_items, OF refl]
        have u: "unat ?i = length (items (map_bufs s))"
          using room by (simp add: small_index REF_TOP_def)
        have "stores_ok (s\<lparr>map_bufs := vec_push (Some vec_new) b, map_mods := vec_push 0 m\<rparr>)"
          using ok room ap(2) by (auto simp: stores_ok_def bi mi split: if_splits)
        moreover have "length (items (map_mods s)) = length (items (map_bufs s))"
          using ok by (simp add: stores_ok_def)
        ultimately show ?thesis
          using None room b m ap u mi
          by (auto simp: map_alloc_def map_view_def map_mod_count_def vec_get_def fun_eq_iff nth_append)
      qed
    qed
  qed
qed

lemma map_free_law:
  "stores_ok s \<Longrightarrow> stores_ok (map_free i s) \<and> map_view (map_free i s) = (map_view s)(i := None)"
  by (auto simp: map_free_def stores_ok_def map_view_def buf_at_clear fun_eq_iff)

interpretation maps: buffer_store stores_ok map_view map_alloc map_free
proof unfold_locales
  fix s al i t assume "stores_ok s" "map_alloc al s = (Some i, t)"
  then show "stores_ok t \<and> map_view s i = None \<and> map_view t = (map_view s)(i \<mapsto> [])"
    using map_alloc_law [of s al] by simp
next
  fix s al t assume "stores_ok s" "map_alloc al s = (None, t)"
  then show "stores_ok t \<and> map_view t = map_view s" using map_alloc_law [of s al] by simp
qed (rule map_free_law)

section \<open>The interface of a key equality\<close>

text \<open>
  What the lookups rely on: on the keys a collection can hold, equality is an equivalence.
  Under it an association list with pairwise different keys is a finite map.
\<close>

locale key_equality =
  fixes eq :: "'k \<Rightarrow> 'k \<Rightarrow> bool"
    and key :: "'k \<Rightarrow> bool"
  assumes eq_refl: "key a \<Longrightarrow> eq a a"
    and eq_sym: "key a \<Longrightarrow> key b \<Longrightarrow> eq a b \<Longrightarrow> eq b a"
    and eq_trans: "key a \<Longrightarrow> key b \<Longrightarrow> key c \<Longrightarrow> eq a b \<Longrightarrow> eq b c \<Longrightarrow> eq a c"

definition find_entry_of :: "('k \<Rightarrow> 'k \<Rightarrow> bool) \<Rightarrow> ('k \<times> 'v) list \<Rightarrow> 'k \<Rightarrow> nat option" where
  "find_entry_of eq es k = position (\<lambda>e. eq (fst e) k) es"

definition lookup_entry :: "('k \<Rightarrow> 'k \<Rightarrow> bool) \<Rightarrow> ('k \<times> 'v) list \<Rightarrow> 'k \<Rightarrow> 'v option" where
  "lookup_entry eq es k = map_option (\<lambda>i. snd (es ! i)) (find_entry_of eq es k)"

definition put_entry :: "('k \<Rightarrow> 'k \<Rightarrow> bool) \<Rightarrow> ('k \<times> 'v) list \<Rightarrow> 'k \<Rightarrow> 'v \<Rightarrow> ('k \<times> 'v) list" where
  "put_entry eq es k v =
     (case find_entry_of eq es k of None \<Rightarrow> es @ [(k, v)] | Some i \<Rightarrow> es[i := (fst (es ! i), v)])"

definition del_entry :: "('k \<Rightarrow> 'k \<Rightarrow> bool) \<Rightarrow> ('k \<times> 'v) list \<Rightarrow> 'k \<Rightarrow> ('k \<times> 'v) list" where
  "del_entry eq es k = (case find_entry_of eq es k of None \<Rightarrow> es | Some i \<Rightarrow> remove_at i es)"

definition keys_apart :: "('k \<Rightarrow> 'k \<Rightarrow> bool) \<Rightarrow> ('k \<Rightarrow> bool) \<Rightarrow> 'k list \<Rightarrow> bool" where
  "keys_apart eq key ks \<longleftrightarrow> (\<forall>k\<in>set ks. key k) \<and> sorted_wrt (\<lambda>a b. \<not> eq a b) ks"

lemma find_entry_keys: "find_entry_of eq es k = position (\<lambda>x. eq x k) (map fst es)"
  unfolding find_entry_of_def by (induction es) auto

lemma lookup_rec [simp]:
  "lookup_entry eq [] k = None"
  "lookup_entry eq ((a, v) # es) k = (if eq a k then Some v else lookup_entry eq es k)"
  by (auto simp: lookup_entry_def find_entry_of_def option.map_comp comp_def)

lemma put_rec [simp]:
  "put_entry eq [] k v = [(k, v)]"
  "put_entry eq ((a, w) # es) k v = (if eq a k then (a, v) # es else (a, w) # put_entry eq es k v)"
  by (auto simp: put_entry_def find_entry_of_def split: option.splits)

lemma del_rec [simp]:
  "del_entry eq [] k = []"
  "del_entry eq ((a, w) # es) k = (if eq a k then es else (a, w) # del_entry eq es k)"
  by (auto simp: del_entry_def find_entry_of_def remove_at_def split: option.splits)

lemma put_keys: "map fst (put_entry eq es k v) =
    (if lookup_entry eq es k = None then map fst es @ [k] else map fst es)"
  by (induction es) (auto split: if_splits)

lemma put_len: "length (put_entry eq es k v) = length es + (if lookup_entry eq es k = None then 1 else 0)"
  by (induction es) (auto split: if_splits)

lemma del_len: "length (del_entry eq es k) = length es - (if lookup_entry eq es k = None then 0 else 1)"
proof (induction es)
  case (Cons e es)
  then show ?case by (cases e; cases es) (auto split: if_splits)
qed simp

lemma del_sub: "set (del_entry eq es k) \<subseteq> set es"
  by (induction es) (auto split: if_splits)

lemma del_keys_sub: "set (map fst (del_entry eq es k)) \<subseteq> set (map fst es)"
  using image_mono [OF del_sub, of fst] by simp

lemma lookup_none_iff: "lookup_entry eq es k = None \<longleftrightarrow> (\<forall>a\<in>set (map fst es). \<not> eq a k)"
  by (induction es) (auto split: if_splits)

context key_equality begin

lemma eq_cong: "key a \<Longrightarrow> key b \<Longrightarrow> key c \<Longrightarrow> eq a b \<Longrightarrow> eq a c \<longleftrightarrow> eq b c"
  using eq_sym eq_trans by blast

lemma lookup_put:
  assumes "\<forall>a\<in>set (map fst es). key a" and "key k" and "key k'"
  shows "lookup_entry eq (put_entry eq es k v) k' = (if eq k k' then Some v else lookup_entry eq es k')"
  using assms(1)
proof (induction es)
  case (Cons e es)
  obtain a w where e: "e = (a, w)" by fastforce
  have ka: "key a" using Cons.prems e by simp
  show ?case
  proof (cases "eq a k")
    case True
    then show ?thesis using eq_cong [OF ka assms(2,3) True] by (simp add: e)
  next
    case False
    then have "\<not> (eq a k' \<and> eq k k')" using ka assms(2,3) eq_sym eq_trans by blast
    then show ?thesis using Cons False by (auto simp: e)
  qed
qed simp

lemma lookup_del:
  assumes "keys_apart eq key (map fst es)" and "key k" and "key k'"
  shows "lookup_entry eq (del_entry eq es k) k' = (if eq k k' then None else lookup_entry eq es k')"
  using assms(1)
proof (induction es)
  case (Cons e es)
  obtain a w where e: "e = (a, w)" by fastforce
  have ka: "key a" "keys_apart eq key (map fst es)" "\<forall>b\<in>set (map fst es). \<not> eq a b \<and> key b"
    using Cons.prems e by (auto simp: keys_apart_def)
  show ?case
  proof (cases "eq a k")
    case True
    note c = eq_cong [OF ka(1) assms(2,3) True]
    have "lookup_entry eq es k' = None" if "eq a k'"
      using that ka assms(3) eq_sym eq_trans unfolding lookup_none_iff by blast
    then show ?thesis using True c by (auto simp: e)
  next
    case False
    then have "\<not> (eq a k' \<and> eq k k')" using ka(1) assms(2,3) eq_sym eq_trans by blast
    then show ?thesis using Cons.IH [OF ka(2)] False by (auto simp: e)
  qed
qed simp

lemma put_apart:
  assumes "keys_apart eq key (map fst es)" and "key k"
  shows "keys_apart eq key (map fst (put_entry eq es k v))"
  using assms by (auto simp: put_keys keys_apart_def sorted_wrt_append lookup_none_iff)

lemma apart_Cons:
  "keys_apart eq key (a # ks) \<longleftrightarrow> key a \<and> (\<forall>b\<in>set ks. \<not> eq a b) \<and> keys_apart eq key ks"
  by (auto simp: keys_apart_def)

lemma del_apart:
  assumes "keys_apart eq key (map fst es)"
  shows "keys_apart eq key (map fst (del_entry eq es k))"
  using assms
proof (induction es)
  case (Cons e es)
  obtain a w where e: "e = (a, w)" by fastforce
  show ?case
  proof (cases "eq a k")
    case False
    then show ?thesis
      using Cons del_keys_sub [of eq es k] unfolding e del_rec(2) by (simp only: if_False list.map fst_conv apart_Cons) blast
  qed (use Cons.prems in \<open>simp add: e apart_Cons\<close>)
qed simp

end

section \<open>Java key equality\<close>

text \<open>The keys a collection holds: a primitive float is always boxed.\<close>

definition storable_key :: "jvm_value \<Rightarrow> bool" where
  "storable_key v \<longleftrightarrow> (case v of VFloat _ \<Rightarrow> False | VDouble _ \<Rightarrow> False | _ \<Rightarrow> True)"

definition key_same :: "object_heap \<Rightarrow> string_table \<Rightarrow> jvm_value \<Rightarrow> jvm_value \<Rightarrow> bool" where
  "key_same h t a b \<longleftrightarrow> key_eq h t a b = Inr True"

lemma payload_refl: "payload_eq x x"
  by (cases x) auto

lemma payload_sym: "payload_eq x y \<Longrightarrow> payload_eq y x"
  by (cases "(x, y)" rule: payload_eq.cases) auto

lemma payload_trans: "payload_eq x y \<Longrightarrow> payload_eq y z \<Longrightarrow> payload_eq x z"
  by (cases "(x, y)" rule: payload_eq.cases; cases "(y, z)" rule: payload_eq.cases) auto

lemma box_eq_sym: "box_eq h a b \<Longrightarrow> box_eq h b a"
  by (auto simp: box_eq_def payload_sym split: option.splits if_splits)

lemma box_eq_trans: "box_eq h a b \<Longrightarrow> box_eq h b c \<Longrightarrow> box_eq h a c"
  by (auto simp: box_eq_def split: option.splits if_splits dest: payload_trans)

lemma content_same:
  "content_eq t a b = Inr True \<longleftrightarrow> a = b \<or> (\<exists>x. resolve t a = Inr (Some x) \<and> resolve t b = Inr (Some x))"
  by (auto simp: content_eq_def split: sum.splits option.splits)

interpretation keys: key_equality "key_same h t" storable_key for h t
proof
  show "key_same h t a a" if "storable_key a" for a
    using that by (cases a) (auto simp: key_same_def key_eq_def storable_key_def content_same)
  show "key_same h t b a" if "storable_key a" "storable_key b" "key_same h t a b" for a b
    using that by (cases a; cases b) (auto simp: key_same_def key_eq_def storable_key_def content_same dest: box_eq_sym)
  show "key_same h t a c" if "storable_key a" "storable_key b" "storable_key c" "key_same h t a b" "key_same h t b c"
    for a b c
    using that
    by (cases a; cases b; cases c)
      (auto simp: key_same_def key_eq_def storable_key_def content_same dest: box_eq_trans)
qed

section \<open>Operations\<close>

definition value_pair :: "entry \<Rightarrow> jvm_value \<times> jvm_value" where
  "value_pair e = (the (to_value (fst e)), the (to_value (snd e)))"

definition map_vals :: "stores \<Rightarrow> u16 \<Rightarrow> (jvm_value \<times> jvm_value) list option" where
  "map_vals s idx = map_option (map value_pair) (map_view s idx)"

lemma key_eq_total:
  assumes "str_ok t"
  shows "key_eq h t a b = Inr (key_same h t a b)"
proof -
  have "\<exists>c. content_eq t i j = Inr c" for i j
    using resolve_law [OF assms] by (auto simp: content_eq_def split: option.splits)
  then have "\<exists>c. key_eq h t a b = Inr c" by (auto simp: key_eq_def split: jvm_value.split)
  then show ?thesis by (auto simp: key_same_def)
qed

lemma scan_law:
  assumes "\<And>v. eq v = Inr (P v)" and "\<forall>s\<in>set ss. to_value s \<noteq> None"
  shows "scan_for eq ss i = Inr (map_option (\<lambda>j. i + j) (position P (map (\<lambda>s. the (to_value s)) ss)))"
  using assms(2)
proof (induction ss arbitrary: i)
  case (Cons s ss)
  then show ?case
    using assms(1) by (cases "position P (map (\<lambda>s. the (to_value s)) ss)") auto
qed simp

lemma map_valsD:
  assumes "stores_ok s" and "map_vals s idx = Some es"
  obtains b where "buf_at (map_bufs s) idx = Some b" and "es = map value_pair (items b)"
    and "\<forall>e\<in>set (items b). to_value (fst e) \<noteq> None \<and> to_value (snd e) \<noteq> None"
    and "map_slots s idx = items b"
proof -
  obtain b where b: "buf_at (map_bufs s) idx = Some b" "es = map value_pair (items b)"
    using assms(2) by (auto simp: map_vals_def map_view_def)
  moreover have "\<forall>e\<in>set (items b). to_value (fst e) \<noteq> None \<and> to_value (snd e) \<noteq> None"
    using assms(1) b(1) unfolding stores_ok_def by fastforce
  ultimately show ?thesis using that by (simp add: map_slots_def)
qed

lemma map_find_law:
  assumes "stores_ok s" and "str_ok t" and "map_vals s idx = Some es"
  shows "map_find_key h t s idx k = Inr (find_entry_of (key_same h t) es k)"
proof -
  obtain b where "buf_at (map_bufs s) idx = Some b" and b: "es = map value_pair (items b)"
    "\<forall>e\<in>set (items b). to_value (fst e) \<noteq> None \<and> to_value (snd e) \<noteq> None" "map_slots s idx = items b"
    by (rule map_valsD [OF assms(1,3)])
  have "scan_for (\<lambda>a. key_eq h t a k) (map fst (items b)) 0 =
      Inr (map_option (\<lambda>j. 0 + j) (position (\<lambda>a. key_same h t a k) (map (\<lambda>s. the (to_value s)) (map fst (items b)))))"
    by (rule scan_law) (use b(2) key_eq_total [OF assms(2)] in auto)
  moreover have "map (\<lambda>s. the (to_value s)) (map fst (items b)) = map fst es"
    by (simp add: b(1) value_pair_def)
  ultimately show ?thesis by (simp add: map_find_key_def b(3) find_entry_keys option.map_ident)
qed

lemma found_entry:
  assumes "find_entry_of eq es k = Some i"
  shows "i < length es" "lookup_entry eq es k = Some (snd (es ! i))" "put_entry eq es k v = es[i := (fst (es ! i), v)]"
    "del_entry eq es k = remove_at i es"
  using assms position_Some [of _ es i] by (auto simp: find_entry_of_def lookup_entry_def put_entry_def del_entry_def)

lemma absent_entry:
  assumes "find_entry_of eq es k = None"
  shows "lookup_entry eq es k = None" "put_entry eq es k v = es @ [(k, v)]" "del_entry eq es k = es"
  using assms by (simp_all add: lookup_entry_def put_entry_def del_entry_def)

text \<open>Writing a map's buffer, with or without a bump of its count.\<close>

lemma map_write:
  assumes ok: "stores_ok s" and b: "buf_at (map_bufs s) idx = Some b"
    and c: "\<forall>e\<in>set (items c). to_value (fst e) \<noteq> None \<and> to_value (snd e) \<noteq> None"
    and t: "t = write_map idx c s"
  shows "stores_ok t \<and> stores_ok (bump_map_mods idx t)"
    and "map_vals t = (map_vals s)(idx \<mapsto> map value_pair (items c))"
    and "map_vals (bump_map_mods idx t) = (map_vals s)(idx \<mapsto> map value_pair (items c))"
    and "map_mod_count t j = map_mod_count s j"
    and "map_mod_count (bump_map_mods idx t) j = map_mod_count s j + (if j = idx then 1 else 0)"
proof -
  have mods: "length (items (bump_mods idx m)) = length (items m)" for m
    by (simp add: bump_mods_def split: option.splits)
  have "\<forall>(k, v)\<in>set (items c). to_value k \<noteq> None \<and> to_value v \<noteq> None" using c by auto
  then show "stores_ok t \<and> stores_ok (bump_map_mods idx t)"
    using ok buf_at_set [OF b, of "Some c"] by (simp add: t write_map_def stores_ok_def bump_map_mods_def mods)
  show "map_vals t = (map_vals s)(idx \<mapsto> map value_pair (items c))"
    "map_vals (bump_map_mods idx t) = (map_vals s)(idx \<mapsto> map value_pair (items c))"
    using buf_at_set [OF b, of "Some c"]
    by (auto simp: t write_map_def map_vals_def map_view_def bump_map_mods_def fun_eq_iff)
  show "map_mod_count t j = map_mod_count s j" by (simp add: t write_map_def map_mod_count_def)
  have "unat idx < length (items (map_mods s))"
    using ok b by (auto simp: stores_ok_def buf_at_eq split: if_splits)
  then show "map_mod_count (bump_map_mods idx t) j = map_mod_count s j + (if j = idx then 1 else 0)"
    by (auto simp: t write_map_def map_mod_count_def bump_map_mods_def bump_mods_def vec_get_def nth_list_update
        word_unat_eq_iff)
qed

lemma map_get_law:
  assumes "stores_ok s" and "str_ok t" and "map_vals s idx = Some es"
  shows "map_get h t s idx k = Inr (lookup_entry (key_same h t) es k)"
    and "map_contains_key h t s idx k = Inr (lookup_entry (key_same h t) es k \<noteq> None)"
    and "map_len s idx = length es" and "map_iter s idx = es"
    and "map_entry_at s idx i = (if i < length es then Some (es ! i) else None)"
    and "map_contains_value h t s idx v = Inr (\<exists>x\<in>set (map snd es). key_same h t x v)"
proof -
  obtain b where b: "buf_at (map_bufs s) idx = Some b" "es = map value_pair (items b)"
    "\<forall>e\<in>set (items b). to_value (fst e) \<noteq> None \<and> to_value (snd e) \<noteq> None" "map_slots s idx = items b"
    by (rule map_valsD [OF assms(1,3)])
  note f = map_find_law [OF assms]
  show "map_get h t s idx k = Inr (lookup_entry (key_same h t) es k)"
    using b found_entry(1,2) [of "key_same h t" es k] absent_entry(1) [of "key_same h t" es k]
    by (auto simp: map_get_def f value_pair_def split: option.splits)
  show "map_contains_key h t s idx k = Inr (lookup_entry (key_same h t) es k \<noteq> None)"
    by (simp add: map_contains_key_def f lookup_entry_def)
  show "map_len s idx = length es" using b by (simp add: map_len_def)
  have ev: "entry_values e = Some (value_pair e)" if "e \<in> set (items b)" for e
    using that b(3) by (auto simp: entry_values_def value_pair_def split: option.splits)
  have "List.map_filter entry_values xs = map value_pair xs" if "set xs \<subseteq> set (items b)" for xs
    using that ev by (induction xs) (auto simp: map_filter_simps)
  then show "map_iter s idx = es" using b by (simp add: map_iter_def)
  show "map_entry_at s idx i = (if i < length es then Some (es ! i) else None)"
    using b ev by (simp add: map_entry_at_def vec_get_def)
  have "scan_for (\<lambda>x. key_eq h t x v) (map snd (items b)) 0 =
      Inr (map_option (\<lambda>j. 0 + j) (position (\<lambda>x. key_same h t x v) (map (\<lambda>s. the (to_value s)) (map snd (items b)))))"
    by (rule scan_law) (use b(3) key_eq_total [OF assms(2)] in auto)
  moreover have "map (\<lambda>s. the (to_value s)) (map snd (items b)) = map snd es" by (simp add: b(2) value_pair_def)
  moreover have "position (\<lambda>x. key_same h t x v) (map snd es) \<noteq> None \<longleftrightarrow> (\<exists>x\<in>set (map snd es). key_same h t x v)"
    using position_None [of "\<lambda>x. key_same h t x v" "map snd es"] by auto
  ultimately show "map_contains_value h t s idx v = Inr (\<exists>x\<in>set (map snd es). key_same h t x v)"
    by (simp add: map_contains_value_def b(4) option.map_ident)
qed

lemma map_put_law:
  assumes ok: "stores_ok s" and t: "str_ok t" and vals: "map_vals s idx = Some es"
  shows "case map_put al h t idx k v s of
      (Inl _, _) \<Rightarrow> False
    | (Inr (Inl _), s') \<Rightarrow> s' = s \<and> \<not> (from_narrow k \<noteq> None \<and> from_narrow v \<noteq> None \<and> (\<forall>n. al TableBuf n))
    | (Inr (Inr old), s') \<Rightarrow> stores_ok s' \<and> old = lookup_entry (key_same h t) es k \<and>
        map_vals s' = (map_vals s)(idx \<mapsto> put_entry (key_same h t) es k v) \<and>
        (\<forall>j. map_mod_count s' j = map_mod_count s j + (if j = idx \<and> old = None then 1 else 0))"
proof (cases "from_narrow k = None \<or> from_narrow v = None")
  case True
  then show ?thesis by (auto simp: map_put_def split: option.splits)
next
  case False
  then obtain k' v' where kv: "from_narrow k = Some k'" "from_narrow v = Some v'" by auto
  note nv = narrow_value [OF kv(1)] narrow_value [OF kv(2)]
  obtain b where b: "buf_at (map_bufs s) idx = Some b" "es = map value_pair (items b)"
    "\<forall>e\<in>set (items b). to_value (fst e) \<noteq> None \<and> to_value (snd e) \<noteq> None" "map_slots s idx = items b"
    by (rule map_valsD [OF ok vals])
  note f = map_find_law [OF ok t vals, of h k]
  show ?thesis
  proof (cases "find_entry_of (key_same h t) es k")
    case (Some i)
    note e = found_entry [OF Some]
    let ?c = "vec_set i (fst (items b ! i), v') b"
    have i: "i < length (items b)" using e(1) b(2) by simp
    have dec: "\<forall>x\<in>set (items ?c). to_value (fst x) \<noteq> None \<and> to_value (snd x) \<noteq> None"
      using b(3) nv nth_mem [OF i] by (auto simp: vec_set_def dest!: set_update_subset_insert [THEN subsetD])
    note w = map_write [OF ok b(1) dec refl]
    have run: "map_put al h t idx k v s = (Inr (Inr (to_value (snd (items b ! i)))), write_map idx ?c s)"
      using kv nv f Some b(1) i by (simp add: map_put_def)
    have "map value_pair (items ?c) = put_entry (key_same h t) es k v"
      using e(3) i nv by (simp add: b(2) vec_set_def map_update value_pair_def)
    moreover have "to_value (snd (items b ! i)) = Some (snd (es ! i))"
      using b(2,3) i nth_mem [OF i] by (auto simp: value_pair_def)
    ultimately show ?thesis using w run e(2) by simp
  next
    case None
    note e = absent_entry [OF None]
    show ?thesis
    proof (cases "vec_room (al TableBuf) 1 b")
      case r: None
      have "\<not> (\<forall>n. al TableBuf n)" using r by (auto simp: vec_room_def reserve_fallible_def vec_reserve_def Let_def split: if_splits option.splits)
      then show ?thesis using kv nv f None b(1) r by (simp add: map_put_def)
    next
      case r: (Some b')
      let ?c = "vec_push (k', v') b'"
      have it: "items ?c = items b @ [(k', v')]" using vec_room_items [OF r] by simp
      have dec: "\<forall>x\<in>set (items ?c). to_value (fst x) \<noteq> None \<and> to_value (snd x) \<noteq> None" using b(3) nv it by auto
      note w = map_write [OF ok b(1) dec refl]
      have "map_put al h t idx k v s = (Inr (Inr None), bump_map_mods idx (write_map idx ?c s))"
        using kv nv f None b(1) r by (simp add: map_put_def)
      moreover have "map value_pair (items ?c) = put_entry (key_same h t) es k v"
        using e(2) nv by (simp add: vec_room_items [OF r] b(2) value_pair_def)
      ultimately show ?thesis using w e(1) by simp
    qed
  qed
qed

lemma map_remove_law:
  assumes ok: "stores_ok s" and t: "str_ok t" and vals: "map_vals s idx = Some es"
  shows "\<exists>s'. map_remove h t idx k s = (Inr (lookup_entry (key_same h t) es k), s') \<and> stores_ok s' \<and>
    map_vals s' = (map_vals s)(idx \<mapsto> del_entry (key_same h t) es k) \<and>
    (\<forall>j. map_mod_count s' j =
       map_mod_count s j + (if j = idx \<and> lookup_entry (key_same h t) es k \<noteq> None then 1 else 0))"
proof -
  obtain b where b: "buf_at (map_bufs s) idx = Some b" "es = map value_pair (items b)"
    "\<forall>e\<in>set (items b). to_value (fst e) \<noteq> None \<and> to_value (snd e) \<noteq> None" "map_slots s idx = items b"
    by (rule map_valsD [OF ok vals])
  note f = map_find_law [OF ok t vals, of h k]
  show ?thesis
  proof (cases "find_entry_of (key_same h t) es k")
    case None
    then show ?thesis
      using f absent_entry [OF None] ok vals by (simp add: map_remove_def fun_upd_idem)
  next
    case (Some i)
    note e = found_entry [OF Some]
    let ?c = "b\<lparr>items := remove_at i (items b)\<rparr>"
    have i: "i < length (items b)" using e(1) b(2) by simp
    have dec: "\<forall>x\<in>set (items ?c). to_value (fst x) \<noteq> None \<and> to_value (snd x) \<noteq> None"
      using b(3) by (auto simp: remove_at_def dest: in_set_takeD in_set_dropD)
    note w = map_write [OF ok b(1) dec refl]
    have "map value_pair (items ?c) = del_entry (key_same h t) es k"
      using e(4) by (simp add: b(2) remove_at_def take_map drop_map)
    moreover have "to_value (snd (items b ! i)) = Some (snd (es ! i))"
      using b(2,3) i nth_mem [OF i] by (auto simp: value_pair_def)
    ultimately show ?thesis using f Some b(1) e(2) w by (simp add: map_remove_def)
  qed
qed

lemma map_clear_law:
  assumes ok: "stores_ok s" and vals: "map_vals s idx = Some es"
  shows "stores_ok (map_clear idx s) \<and> map_vals (map_clear idx s) = (map_vals s)(idx \<mapsto> []) \<and>
    (\<forall>j. map_mod_count (map_clear idx s) j = map_mod_count s j + (if j = idx then 1 else 0))"
proof -
  obtain b where b: "buf_at (map_bufs s) idx = Some b" by (rule map_valsD [OF ok vals])
  have "\<forall>e\<in>set (items (vec_new :: entry vec)). to_value (fst e) \<noteq> None \<and> to_value (snd e) \<noteq> None"
    by (simp add: vec_new_def)
  note w = map_write [OF ok b this refl]
  have "map_clear idx s = bump_map_mods idx (write_map idx vec_new s)" using b by (simp add: map_clear_def)
  then show ?thesis using w by (simp add: vec_new_def)
qed

section \<open>Properties\<close>


definition demo_map_stores :: stores where
  "demo_map_stores = stores_new
     \<lparr>map_bufs := \<lparr>items = [Some \<lparr>items = [(SReference 3, SInt 7)], vcap = 4\<rparr>], vcap = 4\<rparr>,
      map_mods := \<lparr>items = [1], vcap = 4\<rparr>\<rparr>"

lemma demo_map_ok:
  "stores_ok demo_map_stores" "map_vals demo_map_stores 0 = Some [(VReference 3, VInt 7)]"
proof -
  have "buf_at (map_bufs demo_map_stores) i = Some b \<longleftrightarrow> i = 0 \<and> b = \<lparr>items = [(SReference 3, SInt 7)], vcap = 4\<rparr>" for i b
    by (auto simp: demo_map_stores_def buf_at_eq word_unat_eq_iff)
  moreover have "buf_at (list_bufs demo_map_stores) i = None" for i
    by (simp add: demo_map_stores_def stores_new_def buf_at_eq)
  ultimately show "stores_ok demo_map_stores" "map_vals demo_map_stores 0 = Some [(VReference 3, VInt 7)]"
    using stores_new_ok
    by (auto simp: stores_ok_def map_vals_def map_view_def value_pair_def)
      (auto simp: demo_map_stores_def REF_TOP_def)
qed


end
