(* ===== verification/Collector.thy ===== *)
theory Collector
  imports MapStore Statics
begin

text \<open>
  The mark-sweep collector, \<open>crates/jvm/src/gc/mod.rs\<close>: the mark bitmaps and the mark stack,
  the roots, the marking loop, the sweep of the three heaps and the compaction after it. The
  diagnostics build (poison checks, counters, the root audit) is left out. A frame stack
  registered by pointer is named by a number here; \<open>stacks\<close> says what the pointer reads.
\<close>

section \<open>Mark bitmaps\<close>

text \<open>\<open>Vec<u8>::try_reserve\<close>: a vector of bytes starts at a capacity of 8.\<close>

definition bytes_reserve :: "(nat \<Rightarrow> bool) \<Rightarrow> nat \<Rightarrow> u8 vec \<Rightarrow> u8 vec option" where
  "bytes_reserve mem n v =
     (if n \<le> vcap v - length (items v) then Some v
      else let cap = max 8 (max (2 * vcap v) (length (items v) + n))
           in if mem cap then Some (v\<lparr>vcap := cap\<rparr>) else None)"

definition reserve_marks :: "(nat \<Rightarrow> bool) \<Rightarrow> nat \<Rightarrow> u8 vec \<Rightarrow> u8 vec option" where
  "reserve_marks mem slots bits = bytes_reserve mem ((slots + 7) div 8) bits"

definition mark_bit :: "u16 \<Rightarrow> u8 vec \<Rightarrow> u8 vec" where
  "mark_bit idx bits =
     (let i = unat idx; byte = i div 8; b = i mod 8
      in if length (items bits) \<le> byte \<and> vcap bits \<le> byte then bits
         else let xs = (if length (items bits) \<le> byte then resize (items bits) (byte + 1) 0 else items bits)
              in bits\<lparr>items := xs[byte := xs ! byte OR push_bit b 1]\<rparr>)"

definition is_marked :: "u8 vec \<Rightarrow> u16 \<Rightarrow> bool" where
  "is_marked bits idx \<longleftrightarrow>
     (let i = unat idx; byte = i div 8; b = i mod 8
      in byte < length (items bits) \<and> items bits ! byte AND push_bit b 1 \<noteq> 0)"

section \<open>The mark stack\<close>

datatype gc_ref = GObject u16 | GArray u16 | GString u16

record work_stack =
  work_items :: "gc_ref vec"
  exhausted_work :: bool

definition work_new :: work_stack where
  "work_new = \<lparr>work_items = vec_new, exhausted_work = False\<rparr>"

definition work_push :: "allocator \<Rightarrow> gc_ref \<Rightarrow> work_stack \<Rightarrow> work_stack" where
  "work_push al r w =
     (let v = work_items w
      in case vec_reserve (al TableBuf) (vcap v) (length (items v)) 1 of
           None \<Rightarrow> w\<lparr>exhausted_work := True\<rparr>
         | Some c \<Rightarrow> w\<lparr>work_items := vec_push r (v\<lparr>vcap := c\<rparr>)\<rparr>)"

definition work_pop :: "work_stack \<Rightarrow> (gc_ref \<times> work_stack) option" where
  "work_pop w =
     (let v = work_items w
      in if items v = [] then None
         else Some (last (items v), w\<lparr>work_items := v\<lparr>items := butlast (items v)\<rparr>\<rparr>))"

definition work_clear :: "work_stack \<Rightarrow> work_stack" where
  "work_clear w = w\<lparr>work_items := (work_items w)\<lparr>items := []\<rparr>, exhausted_work := False\<rparr>"

text \<open>\<open>push_ref\<close> and \<open>push_ref_value\<close>: the item of a reference, none for anything else.\<close>

fun slot_ref :: "slot \<Rightarrow> gc_ref option" where
  "slot_ref (SObjectRef i) = Some (GObject i)"
| "slot_ref (SArrayRef i) = Some (GArray i)"
| "slot_ref (SReference i) = Some (GString i)"
| "slot_ref _ = None"

fun value_ref :: "jvm_value \<Rightarrow> gc_ref option" where
  "value_ref (VObjectRef i) = Some (GObject i)"
| "value_ref (VArrayRef i) = Some (GArray i)"
| "value_ref (VReference i) = Some (GString i)"
| "value_ref _ = None"

definition slot_refs :: "slot list \<Rightarrow> gc_ref list" where
  "slot_refs ss = List.map_filter slot_ref ss"

definition value_refs :: "jvm_value list \<Rightarrow> gc_ref list" where
  "value_refs vs = List.map_filter value_ref vs"

definition push_all :: "allocator \<Rightarrow> gc_ref list \<Rightarrow> work_stack \<Rightarrow> work_stack" where
  "push_all al rs w = fold (work_push al) rs w"

section \<open>State of the collector\<close>

record gc_state =
  obj_marks :: "u8 vec"
  arr_marks :: "u8 vec"
  str_marks :: "u8 vec"
  gc_work :: work_stack
  compact_cap :: nat
  parked_frames :: "nat list"
  shadow_roots :: "jvm_value list"
  gc_alloc_count :: u16
  need_gc :: bool

definition gc_new :: gc_state where
  "gc_new =
     \<lparr>obj_marks = vec_new, arr_marks = vec_new, str_marks = vec_new, gc_work = work_new, compact_cap = 0,
      parked_frames = [], shadow_roots = [], gc_alloc_count = 0, need_gc = False\<rparr>"

definition register_frames :: "nat \<Rightarrow> gc_state \<Rightarrow> gc_state" where
  "register_frames p gc = gc\<lparr>parked_frames := parked_frames gc @ [p]\<rparr>"

text \<open>\<open>rposition\<close>: the last occurrence is removed.\<close>

definition unregister_frames :: "nat \<Rightarrow> gc_state \<Rightarrow> bool \<times> gc_state" where
  "unregister_frames p gc =
     (case position (\<lambda>q. q = p) (rev (parked_frames gc)) of
        None \<Rightarrow> (False, gc)
      | Some i \<Rightarrow>
          (True, gc\<lparr>parked_frames := remove_at (length (parked_frames gc) - 1 - i) (parked_frames gc)\<rparr>))"

definition push_shadow_roots :: "jvm_value list \<Rightarrow> gc_state \<Rightarrow> nat \<times> gc_state" where
  "push_shadow_roots vs gc = (length (shadow_roots gc), gc\<lparr>shadow_roots := shadow_roots gc @ vs\<rparr>)"

definition truncate_shadow_roots :: "nat \<Rightarrow> gc_state \<Rightarrow> gc_state" where
  "truncate_shadow_roots mark gc = gc\<lparr>shadow_roots := take mark (shadow_roots gc)\<rparr>"

definition gc_clear :: "gc_state \<Rightarrow> gc_state" where
  "gc_clear gc =
     gc\<lparr>obj_marks := (obj_marks gc)\<lparr>items := []\<rparr>, arr_marks := (arr_marks gc)\<lparr>items := []\<rparr>,
        str_marks := (str_marks gc)\<lparr>items := []\<rparr>, gc_work := work_clear (gc_work gc)\<rparr>"

text \<open>The heaps a collection works on.\<close>

record heaps =
  h_objects :: object_heap
  h_stores :: stores
  h_arrays :: array_heap
  h_strings :: string_table

section \<open>Roots\<close>

definition frame_refs :: "frame list \<Rightarrow> gc_ref list" where
  "frame_refs fs = concat (map (\<lambda>f. value_refs (locals f) @ value_refs (stack f)) fs)"

definition root_refs ::
  "(nat \<Rightarrow> frame list) \<Rightarrow> frame list \<Rightarrow> static_store \<Rightarrow> class_objects \<Rightarrow> jvm_value list \<Rightarrow> stores \<Rightarrow> gc_state \<Rightarrow> gc_ref list"
  where
  "root_refs stacks frames statics classes extra st gc =
     frame_refs frames @ concat (map (\<lambda>p. frame_refs (stacks p)) (parked_frames gc)) @
     value_refs (shadow_roots gc) @ value_refs (items (static_values statics)) @
     map GObject (class_refs classes) @ map GObject (boxed_cache_roots st) @ value_refs extra"

section \<open>Marking\<close>

definition java_util_ArrayList :: string where "java_util_ArrayList = ''java/util/ArrayList''"
definition java_lang_StringBuilder :: string where "java_lang_StringBuilder = ''java/lang/StringBuilder''"

definition owns_map_buf :: "string option \<Rightarrow> bool" where
  "owns_map_buf cls \<longleftrightarrow>
     cls \<in> {Some ''java/util/HashMap'', Some ''java/util/HashSet'',
            Some ''java/util/LinkedHashMap'', Some ''java/util/LinkedHashSet''}"

text \<open>\<open>if let Some(Value::Int(buf_idx)) = objects.get_field(idx, 0)\<close>, the index cast to \<open>u16\<close>.\<close>

definition buf_field :: "object_heap \<Rightarrow> u16 \<Rightarrow> u16 option" where
  "buf_field h idx = (case get_field h idx 0 of Some (VInt n) \<Rightarrow> Some (ucast n) | _ \<Rightarrow> None)"

text \<open>What the marking of an object pushes, in order.\<close>

definition list_refs :: "heaps \<Rightarrow> u16 \<Rightarrow> gc_ref list" where
  "list_refs H idx =
     (if ob_class_name (h_objects H) idx = Some java_util_ArrayList
      then (case buf_field (h_objects H) idx of
              None \<Rightarrow> [] | Some b \<Rightarrow> slot_refs (list_slots (h_stores H) b))
      else [])"

definition map_refs :: "heaps \<Rightarrow> u16 \<Rightarrow> gc_ref list" where
  "map_refs H idx =
     (if owns_map_buf (ob_class_name (h_objects H) idx)
      then (case buf_field (h_objects H) idx of
              None \<Rightarrow> []
            | Some b \<Rightarrow> slot_refs (concat (map (\<lambda>(k, v). [k, v]) (map_slots (h_stores H) b))))
      else [])"

definition side_refs :: "stores \<Rightarrow> u16 \<Rightarrow> gc_ref list" where
  "side_refs st idx =
     (case get_lambda st idx of None \<Rightarrow> [] | Some l \<Rightarrow> slot_refs (captures l)) @
     (case iter_get st idx of None \<Rightarrow> [] | Some it \<Rightarrow> [GObject (iter_owner it)]) @
     (case get_exception_message st idx of None \<Rightarrow> [] | Some m \<Rightarrow> [GString m]) @
     map GObject (suppressed_list st idx) @
     (case get_exception_cause st idx of None \<Rightarrow> [] | Some c \<Rightarrow> [GObject c])"

definition object_refs :: "heaps \<Rightarrow> u16 \<Rightarrow> fault + gc_ref list" where
  "object_refs H idx =
     (case fst (fields_slice idx (h_objects H)) of
        Inl e \<Rightarrow> Inl e
      | Inr fs \<Rightarrow> Inr (slot_refs fs @ list_refs H idx @ map_refs H idx @ side_refs (h_stores H) idx))"

definition array_refs :: "heaps \<Rightarrow> u16 \<Rightarrow> fault + gc_ref list" where
  "array_refs H idx =
     (if ah_atype (h_arrays H) idx = Some ATYPE_REF
      then (case fst (data_slice idx (h_arrays H)) of
              Inl e \<Rightarrow> Inl e | Inr vs \<Rightarrow> Inr (value_refs (map decode_ref vs)))
      else Inr [])"

text \<open>One turn of the marking loop on an item taken from the stack.\<close>

definition mark_one :: "allocator \<Rightarrow> heaps \<Rightarrow> gc_ref \<Rightarrow> (gc_state, fault, unit) action" where
  "mark_one al H r gc =
     (case r of
        GObject idx \<Rightarrow>
          if is_marked (obj_marks gc) idx then (Inr (), gc)
          else let gc = gc\<lparr>obj_marks := mark_bit idx (obj_marks gc)\<rparr>
               in (case object_refs H idx of
                     Inl e \<Rightarrow> (Inl e, gc)
                   | Inr rs \<Rightarrow> (Inr (), gc\<lparr>gc_work := push_all al rs (gc_work gc)\<rparr>))
      | GArray idx \<Rightarrow>
          if is_marked (arr_marks gc) idx then (Inr (), gc)
          else let gc = gc\<lparr>arr_marks := mark_bit idx (arr_marks gc)\<rparr>
               in (case array_refs H idx of
                     Inl e \<Rightarrow> (Inl e, gc)
                   | Inr rs \<Rightarrow> (Inr (), gc\<lparr>gc_work := push_all al rs (gc_work gc)\<rparr>))
      | GString idx \<Rightarrow>
          if is_literal (h_strings H) idx then (Inr (), gc)
          else (Inr (), gc\<lparr>str_marks := mark_bit idx (str_marks gc)\<rparr>))"

text \<open>\<open>while let Some(r) = work.pop()\<close>: \<open>None\<close> when the loop does not end.\<close>

partial_function (option) mark_loop ::
  "allocator \<Rightarrow> heaps \<Rightarrow> gc_state \<Rightarrow> ((fault + unit) \<times> gc_state) option" where
  "mark_loop al H gc =
     (case work_pop (gc_work gc) of
        None \<Rightarrow> Some (Inr (), gc)
      | Some (r, w) \<Rightarrow>
          (case mark_one al H r (gc\<lparr>gc_work := w\<rparr>) of
             (Inl e, gc') \<Rightarrow> Some (Inl e, gc')
           | (Inr _, gc') \<Rightarrow> mark_loop al H gc'))"

section \<open>Sweeping\<close>

text \<open>The buffer that a swept object owned goes with it, and so do its entries in the side tables.\<close>

definition free_buffers :: "object_heap \<Rightarrow> u16 \<Rightarrow> stores \<Rightarrow> stores" where
  "free_buffers h i st =
     (let cn = ob_class_name h i; buf = buf_field h i;
          st1 = (if cn = Some java_util_ArrayList
                 then (case buf of None \<Rightarrow> st | Some b \<Rightarrow> list_free b st) else st);
          st2 = (if owns_map_buf cn then (case buf of None \<Rightarrow> st1 | Some b \<Rightarrow> map_free b st1) else st1)
      in if cn = Some java_lang_StringBuilder
         then (case buf of None \<Rightarrow> st2 | Some b \<Rightarrow> sb_free b st2) else st2)"

definition free_entries :: "u16 \<Rightarrow> stores \<Rightarrow> stores" where
  "free_entries i st =
     free_exception_cause i (free_suppressed i (free_exception_message i (iter_free i (free_lambda i st))))"

definition sweep_object :: "u8 vec \<Rightarrow> nat \<Rightarrow> nat \<times> object_heap \<times> stores \<Rightarrow> nat \<times> object_heap \<times> stores" where
  "sweep_object marks idx st =
     (case st of (freed, h, s) \<Rightarrow>
        let i = of_nat idx
        in if ob_is_live h i \<and> \<not> is_marked marks i
           then (freed + 1, ob_free i h, free_entries i (free_buffers h i s))
           else (freed, h, s))"

definition sweep_objects :: "u8 vec \<Rightarrow> nat \<times> object_heap \<times> stores \<Rightarrow> nat \<times> object_heap \<times> stores" where
  "sweep_objects marks st =
     (case st of (freed, h, s) \<Rightarrow> fold (sweep_object marks) [0..<ob_slot_count h] (freed, h, s))"

definition sweep_array :: "u8 vec \<Rightarrow> nat \<Rightarrow> nat \<times> array_heap \<Rightarrow> nat \<times> array_heap" where
  "sweep_array marks idx st =
     (case st of (freed, h) \<Rightarrow>
        let i = of_nat idx
        in if ah_is_live h i \<and> \<not> is_marked marks i then (freed + 1, ah_free i h) else (freed, h))"

definition sweep_arrays :: "u8 vec \<Rightarrow> nat \<times> array_heap \<Rightarrow> nat \<times> array_heap" where
  "sweep_arrays marks st =
     (case st of (freed, h) \<Rightarrow> fold (sweep_array marks) [0..<ah_slot_count h] (freed, h))"

primrec sweep_strings :: "u8 vec \<Rightarrow> nat list \<Rightarrow> nat \<Rightarrow> (string_table, fault, nat) action" where
  "sweep_strings marks [] freed t = (Inr freed, t)"
| "sweep_strings marks (idx # rest) freed t =
     (let i = of_nat idx
      in if is_dyn_live t i \<and> \<not> is_marked marks i
         then (case free_dyn i t of
                 (Inl e, t') \<Rightarrow> (Inl e, t')
               | (Inr _, t') \<Rightarrow> sweep_strings marks rest (freed + 1) t')
         else sweep_strings marks rest freed t)"

section \<open>A collection\<close>

definition total_len :: "string_table \<Rightarrow> nat" where
  "total_len t = length (items (ptrs t))"

text \<open>Room for the bitmaps; a refusal keeps what was reserved before it.\<close>

definition reserve_all_marks :: "allocator \<Rightarrow> heaps \<Rightarrow> gc_state \<Rightarrow> bool \<times> gc_state" where
  "reserve_all_marks al H gc =
     (case reserve_marks (al U8Buf) (ob_slot_count (h_objects H)) (obj_marks gc) of
        None \<Rightarrow> (False, gc)
      | Some o' \<Rightarrow>
          (let gc1 = gc\<lparr>obj_marks := o'\<rparr>
           in case reserve_marks (al U8Buf) (ah_slot_count (h_arrays H)) (arr_marks gc1) of
                None \<Rightarrow> (False, gc1)
              | Some a \<Rightarrow>
                  (let gc2 = gc1\<lparr>arr_marks := a\<rparr>
                   in case reserve_marks (al U8Buf) (total_len (h_strings H)) (str_marks gc2) of
                        None \<Rightarrow> (False, gc2)
                      | Some s \<Rightarrow> (True, gc2\<lparr>str_marks := s\<rparr>))))"

definition compact_all :: "allocator \<Rightarrow> (heaps \<times> gc_state, fault, unit) action" where
  "compact_all al s =
     (case s of (H, gc) \<Rightarrow>
        (case compact_arena al (compact_cap gc) (h_arrays H) of
           (Inl e, ah) \<Rightarrow> (Inl e, (H\<lparr>h_arrays := ah\<rparr>, gc))
         | (Inr cap, ah) \<Rightarrow>
             (case compact_fields_arena al cap (h_objects H) of
                (Inl e, ob) \<Rightarrow> (Inl e, (H\<lparr>h_arrays := ah, h_objects := ob\<rparr>, gc\<lparr>compact_cap := cap\<rparr>))
              | (Inr cap', ob) \<Rightarrow>
                  (Inr (), (H\<lparr>h_arrays := ah, h_objects := ob\<rparr>, gc\<lparr>compact_cap := cap'\<rparr>)))))"

definition sweep_all :: "(heaps \<times> gc_state, fault, nat) action" where
  "sweep_all s =
     (case s of (H, gc) \<Rightarrow>
        let (n1, ob, st) = sweep_objects (obj_marks gc) (0, h_objects H, h_stores H);
            (n2, ah) = sweep_arrays (arr_marks gc) (n1, h_arrays H);
            t = h_strings H;
            (r, t') = sweep_strings (str_marks gc) [dyn_start t..<total_len t] n2 t
        in (r, (H\<lparr>h_objects := ob, h_stores := st, h_arrays := ah, h_strings := t'\<rparr>, gc)))"

text \<open>\<open>collect\<close>: the number of entries freed; \<open>None\<close> when the marking does not end.\<close>

definition collect ::
  "allocator \<Rightarrow> (nat \<Rightarrow> frame list) \<Rightarrow> frame list \<Rightarrow> static_store \<Rightarrow> class_objects \<Rightarrow> jvm_value list \<Rightarrow>
     heaps \<times> gc_state \<Rightarrow> ((fault + nat) \<times> heaps \<times> gc_state) option" where
  "collect al stacks frames statics classes extra s =
     (case s of (H, gc0) \<Rightarrow>
        let (ok, gc) = reserve_all_marks al H (gc_clear gc0)
        in if \<not> ok then Some (Inr 0, (H, gc))
           else let roots = root_refs stacks frames statics classes extra (h_stores H) gc
                in (case mark_loop al H (gc\<lparr>gc_work := push_all al roots (gc_work gc)\<rparr>) of
                      None \<Rightarrow> None
                    | Some (Inl e, gc) \<Rightarrow> Some (Inl e, (H, gc))
                    | Some (Inr _, gc) \<Rightarrow>
                        if exhausted_work (gc_work gc) then Some (Inr 0, (H, gc))
                        else (case sweep_all (H, gc) of
                                (Inl e, s) \<Rightarrow> Some (Inl e, s)
                              | (Inr freed, s) \<Rightarrow>
                                  (case compact_all al s of
                                     (Inl e, s') \<Rightarrow> Some (Inl e, s')
                                   | (Inr _, s') \<Rightarrow> Some (Inr freed, s')))))"

section \<open>The collection cycle\<close>

text \<open>
  \<open>prune_monitors\<close> hands the handler the test of what is still live; the clock and the report
  to the handler are outside the model. \<open>gc_cycle\<close> resets the pacing counter after the sweep.
\<close>

definition monitor_live :: "heaps \<Rightarrow> monitor_key \<Rightarrow> bool" where
  "monitor_live H key \<longleftrightarrow>
     (case key of
        KObject i \<Rightarrow> ob_is_live (h_objects H) i
      | KArray i \<Rightarrow> ah_is_live (h_arrays H) i
      | KString i \<Rightarrow> unat i < dyn_start (h_strings H) \<or> is_literal (h_strings H) i \<or> is_dyn_live (h_strings H) i)"

definition gc_cycle ::
  "allocator \<Rightarrow> (nat \<Rightarrow> frame list) \<Rightarrow> frame list \<Rightarrow> static_store \<Rightarrow> class_objects \<Rightarrow> jvm_value list \<Rightarrow>
     heaps \<times> gc_state \<Rightarrow> ((fault + nat) \<times> heaps \<times> gc_state) option" where
  "gc_cycle al stacks frames statics classes extra s =
     (case collect al stacks frames statics classes extra s of
        None \<Rightarrow> None
      | Some (Inl e, s') \<Rightarrow> Some (Inl e, s')
      | Some (Inr freed, (H, gc)) \<Rightarrow> Some (Inr freed, (H, gc\<lparr>gc_alloc_count := 0\<rparr>)))"

text \<open>The frame stack of the executor itself sits out the collection: the slice roots it.\<close>

definition collect_garbage ::
  "allocator \<Rightarrow> (nat \<Rightarrow> frame list) \<Rightarrow> nat \<Rightarrow> frame list \<Rightarrow> static_store \<Rightarrow> class_objects \<Rightarrow> jvm_value list \<Rightarrow>
     heaps \<times> gc_state \<Rightarrow> ((fault + nat) \<times> heaps \<times> gc_state) option" where
  "collect_garbage al stacks own frames statics classes extra s =
     (case s of (H, gc0) \<Rightarrow>
        case unregister_frames own gc0 of (parked, gc) \<Rightarrow>
          (case gc_cycle al stacks frames statics classes extra (H, gc) of
             None \<Rightarrow> None
           | Some (Inl e, s') \<Rightarrow> Some (Inl e, s')
           | Some (Inr freed, (H', gc')) \<Rightarrow>
               Some (Inr freed, (H', if parked then register_frames own gc' else gc'))))"

text \<open>\<open>SharedJvmHeap::collect_now\<close>: a collection from a native call site, with no frames of its own.\<close>

definition collect_now ::
  "allocator \<Rightarrow> (nat \<Rightarrow> frame list) \<Rightarrow> static_store \<Rightarrow> class_objects \<Rightarrow> jvm_value list \<Rightarrow>
     heaps \<times> gc_state \<Rightarrow> ((fault + nat) \<times> heaps \<times> gc_state) option" where
  "collect_now al stacks statics classes extra s =
     (case gc_cycle al stacks [] statics classes extra s of
        None \<Rightarrow> None
      | Some (Inl e, s') \<Rightarrow> Some (Inl e, s')
      | Some (Inr freed, (H, gc)) \<Rightarrow> Some (Inr freed, (H, gc\<lparr>need_gc := False\<rparr>)))"

end
