(* ===== verification/CollectorLaws.thy ===== *)
theory CollectorLaws
  imports Collector ArrayHeapLaws ObjectHeapLaws SideStoreLaws StringLaws MapStoreLaws
begin

text \<open>
  What a collection promises. The references of the program form a graph over the views of the
  heaps; the marking loop ends and marks exactly what the roots reach; the sweep frees exactly
  the rest, with the buffers and table entries it owned; the compaction changes no view.
\<close>

section \<open>Marks\<close>

definition bits_ok :: "u8 vec \<Rightarrow> bool" where
  "bits_ok v \<longleftrightarrow> length (items v) \<le> vcap v"

text \<open>The bitmap has room for the bit of an index.\<close>

definition covers :: "u8 vec \<Rightarrow> u16 \<Rightarrow> bool" where
  "covers v i \<longleftrightarrow> unat i div 8 < vcap v"

lemma is_marked_bit:
  "is_marked v i \<longleftrightarrow> unat i div 8 < length (items v) \<and> bit (items v ! (unat i div 8)) (unat i mod 8)"
  by (simp add: is_marked_def Let_def bit_iff_and_push_bit_not_eq_0)

lemma vcap_mark_bit [simp]: "vcap (mark_bit i v) = vcap v"
  by (simp add: mark_bit_def Let_def)

lemma mark_bit_ok: "bits_ok v \<Longrightarrow> bits_ok (mark_bit i v)"
  by (auto simp: mark_bit_def bits_ok_def Let_def)

lemma same_index: "unat i div 8 = unat j div 8 \<and> unat i mod 8 = unat j mod 8 \<longleftrightarrow> i = (j :: u16)"
  by (metis div_mult_mod_eq word_unat_eq_iff)

lemma is_marked_mark_bit:
  assumes "bits_ok v"
  shows "is_marked (mark_bit i v) j \<longleftrightarrow> is_marked v j \<or> i = j \<and> covers v i"
proof (cases "covers v i")
  case False
  then have "mark_bit i v = v" using assms by (auto simp: mark_bit_def covers_def bits_ok_def Let_def)
  then show ?thesis using False by simp
next
  case True
  let ?k = "unat i div 8" and ?b = "unat i mod 8"
  let ?xs = "if length (items v) \<le> ?k then resize (items v) (?k + 1) 0 else items v"
  have m: "items (mark_bit i v) = ?xs[?k := ?xs ! ?k OR push_bit ?b 1]"
    using True by (simp add: mark_bit_def covers_def Let_def)
  have len: "?k < length ?xs" by simp
  have old: "bit (?xs ! n) b \<longleftrightarrow> n < length (items v) \<and> bit (items v ! n) b" if "n < length ?xs" for n b
    using that by (auto simp: nth_resize split: if_splits)
  show ?thesis
  proof (cases "unat j div 8 = ?k")
    case False
    then have "is_marked (mark_bit i v) j \<longleftrightarrow> unat j div 8 < length ?xs \<and> bit (?xs ! (unat j div 8)) (unat j mod 8)"
      unfolding is_marked_bit m by simp
    then show ?thesis using False old by (auto simp: is_marked_bit)
  next
    case same: True
    then have "is_marked (mark_bit i v) j \<longleftrightarrow> bit (?xs ! ?k OR push_bit ?b 1) (unat j mod 8)"
      unfolding is_marked_bit m using len by simp
    also have "\<dots> \<longleftrightarrow> is_marked v j \<or> unat j mod 8 = ?b"
      using old [OF len] same by (simp add: bit_or_iff bit_exp_iff is_marked_bit)
    also have "\<dots> \<longleftrightarrow> is_marked v j \<or> i = j \<and> covers v i"
      using same same_index [of i j] True by auto
    finally show ?thesis .
  qed
qed

lemma reserve_marks_covers:
  assumes "reserve_marks mem n v = Some w" and "unat i < n" and "bits_ok v"
  shows "covers w i" "bits_ok w"
proof -
  have "(n + 7) div 8 \<le> vcap w" "length (items w) \<le> vcap w"
    using assms(1,3) by (auto simp: reserve_marks_def bytes_reserve_def bits_ok_def Let_def split: if_splits)
  then show "covers w i" "bits_ok w" using assms(2) by (auto simp: covers_def bits_ok_def)
qed

section \<open>The mark stack\<close>

abbreviation waiting :: "work_stack \<Rightarrow> gc_ref list" where
  "waiting w \<equiv> items (work_items w)"

lemma push_all_law:
  "set (waiting (push_all al rs w)) \<subseteq> set (waiting w) \<union> set rs \<and>
   (\<not> exhausted_work (push_all al rs w) \<longrightarrow> \<not> exhausted_work w \<and> waiting (push_all al rs w) = waiting w @ rs)"
proof (induction rs arbitrary: w)
  case Nil
  then show ?case by (simp add: push_all_def)
next
  case (Cons r rs)
  have one: "exhausted_work (work_push al r w) \<and> waiting (work_push al r w) = waiting w \<or>
      exhausted_work (work_push al r w) = exhausted_work w \<and> waiting (work_push al r w) = waiting w @ [r]"
    by (auto simp: work_push_def Let_def vec_push_def split: option.split)
  have "push_all al (r # rs) w = push_all al rs (work_push al r w)" by (simp add: push_all_def)
  then show ?case using Cons.IH [of "work_push al r w"] one by auto
qed

lemma push_all_empty [simp]: "push_all al [] w = w"
  by (simp add: push_all_def)

lemma work_pop_some:
  "work_pop w = Some (r, w') \<Longrightarrow> waiting w = waiting w' @ [r] \<and> exhausted_work w' = exhausted_work w"
  by (auto simp: work_pop_def Let_def split: if_splits)

lemma work_pop_none: "work_pop w = None \<longleftrightarrow> waiting w = []"
  by (simp add: work_pop_def Let_def)

section \<open>The graph of references\<close>

text \<open>The buffer that an object of a builtin class names in its first field.\<close>

definition field_buf :: "slot list \<Rightarrow> u16 option" where
  "field_buf fs = (case fs of SInt n # _ \<Rightarrow> Some (ucast n) | _ \<Rightarrow> None)"

text \<open>What an object or array refers to, by its views and its entries in the side tables.\<close>

inductive points_to :: "heaps \<Rightarrow> gc_ref \<Rightarrow> gc_ref \<Rightarrow> bool" for H where
  field: "ob_abs (h_objects H) (unat i) = Some (cls, fs) \<Longrightarrow> s \<in> set fs \<Longrightarrow> slot_ref s = Some r \<Longrightarrow>
    points_to H (GObject i) r"
| list_element: "ob_abs (h_objects H) (unat i) = Some (java_util_ArrayList, fs) \<Longrightarrow> field_buf fs = Some b \<Longrightarrow>
    list_view (h_stores H) b = Some ss \<Longrightarrow> s \<in> set ss \<Longrightarrow> slot_ref s = Some r \<Longrightarrow> points_to H (GObject i) r"
| map_entry: "ob_abs (h_objects H) (unat i) = Some (cls, fs) \<Longrightarrow> owns_map_buf (Some cls) \<Longrightarrow> field_buf fs = Some b \<Longrightarrow>
    map_view (h_stores H) b = Some es \<Longrightarrow> (k, v) \<in> set es \<Longrightarrow> slot_ref k = Some r \<or> slot_ref v = Some r \<Longrightarrow>
    points_to H (GObject i) r"
| captured: "get_lambda (h_stores H) i = Some l \<Longrightarrow> s \<in> set (captures l) \<Longrightarrow> slot_ref s = Some r \<Longrightarrow>
    points_to H (GObject i) r"
| iterated: "iter_get (h_stores H) i = Some it \<Longrightarrow> points_to H (GObject i) (GObject (iter_owner it))"
| message: "get_exception_message (h_stores H) i = Some m \<Longrightarrow> points_to H (GObject i) (GString m)"
| suppressed_by: "t \<in> set (suppressed_list (h_stores H) i) \<Longrightarrow> points_to H (GObject i) (GObject t)"
| caused_by: "get_exception_cause (h_stores H) i = Some c \<Longrightarrow> points_to H (GObject i) (GObject c)"
| element: "ah_abs (h_arrays H) (unat a) = Some (ATYPE_REF, vs) \<Longrightarrow> v \<in> set vs \<Longrightarrow>
    value_ref (decode_ref v) = Some r \<Longrightarrow> points_to H (GArray a) r"

inductive reached :: "heaps \<Rightarrow> gc_ref set \<Rightarrow> gc_ref \<Rightarrow> bool" for H R where
  root: "r \<in> R \<Longrightarrow> reached H R r"
| edge: "reached H R r \<Longrightarrow> points_to H r r' \<Longrightarrow> reached H R r'"

inductive_simps points_to_object: "points_to H (GObject i) r"
inductive_simps points_to_array: "points_to H (GArray i) r"
inductive_cases points_to_stringE: "points_to H (GString i) r"

lemma ob_class_name_abs:
  assumes "ob_ok h"
  shows "ob_class_name h i = map_option fst (ob_abs h (unat i))"
proof (cases "ob_slot h (unat i)")
  case None
  then show ?thesis by (simp add: ob_class_name_def ob_abs_def)
next
  case (Some a)
  then have "good_object h a" using assms ob_slot_Some [OF ob_ok_cs [OF assms]] by (auto simp: ob_ok_def ob_inv_def)
  then show ?thesis using Some by (simp add: ob_class_name_def ob_abs_def obj_view_def good_object_def)
qed

lemma assemble_wide [simp]: "assemble s h \<noteq> Some (VInt n)"
  by (cases s; cases h; simp)

lemma buf_field_abs:
  assumes "ob_ok h"
  shows "buf_field h i = Option.bind (ob_abs h (unat i)) (\<lambda>(c, fs). field_buf fs)"
proof (cases "ob_abs h (unat i)")
  case None
  then show ?thesis using get_field_law [OF assms, of i 0] by (simp add: buf_field_def)
next
  case (Some x)
  obtain c fs where x: "x = (c, fs)" by fastforce
  have g: "get_field h i 0 = map_option fst (read_value fs)"
    using get_field_law [OF assms, of i 0] Some x by simp
  have "(case map_option fst (read_value fs) of Some (VInt n) \<Rightarrow> Some (ucast n) | _ \<Rightarrow> None) = field_buf fs"
  proof (cases fs)
    case (Cons s rest)
    then show ?thesis
      by (cases s; cases rest) (auto simp: field_buf_def assemble_wide split: option.splits jvm_value.splits)
  qed (simp add: field_buf_def)
  then show ?thesis using Some x g by (simp add: buf_field_def)
qed

lemma in_slot_refs: "r \<in> set (slot_refs ss) \<longleftrightarrow> (\<exists>s \<in> set ss. slot_ref s = Some r)"
  by (auto simp: slot_refs_def List.map_filter_def) force

lemma in_value_refs: "r \<in> set (value_refs vs) \<longleftrightarrow> (\<exists>v \<in> set vs. value_ref v = Some r)"
  by (auto simp: value_refs_def List.map_filter_def) force

lemma fields_slice_abs:
  assumes "ob_ok h"
  shows "fst (fields_slice i h) = Inr (case ob_abs h (unat i) of None \<Rightarrow> [] | Some (c, fs) \<Rightarrow> fs)"
proof (cases "ob_slot h (unat i)")
  case None
  then show ?thesis by (simp add: fields_slice_def ob_abs_def)
next
  case (Some a)
  note at = ob_slot_Some [OF ob_ok_cs [OF assms] Some]
  have good: "good_object h a" and spans: "spans_ok (field_spans h) (length (fields_arena h))"
    using assms at by (auto simp: ob_ok_def ob_inv_def)
  have cnt: "unat (field_count a) \<le> unat (fields_cap a)" using good by (simp add: good_object_def word_le_nat_alt)
  have "unat (fields_off a) + unat (field_count a) \<le> length (fields_arena h)"
  proof (cases "fields_cap a = 0")
    case True
    then have "fields_off a = 0" "unat (field_count a) = 0" using good cnt by (simp_all add: good_object_def)
    then show ?thesis by simp
  next
    case False
    then have "field_span a = Some (fields_off a, ucast (fields_cap a))" by (simp add: field_span_Some word_gt_0)
    moreover have "Option.bind (Some a) field_span \<in> set (field_spans h)"
      unfolding field_spans_def set_map using at(3) by (rule imageI)
    ultimately have "Some (fields_off a, ucast (fields_cap a)) \<in> set (field_spans h)" by simp
    then have "unat (fields_off a) + unat (ucast (fields_cap a) :: u16) \<le> length (fields_arena h)"
      using spans unfolding spans_ok_def spans_within_def by blast
    then have "unat (fields_off a) + unat (fields_cap a) \<le> length (fields_arena h)" by (simp only: unat_ucast8)
    then show ?thesis using cnt by linarith
  qed
  then show ?thesis
    using Some cnt
    by (simp add: fields_slice_def sub_slice_def ret_def ob_abs_def obj_view_def span_slots_def slice_def min_absorb1)
qed

lemma data_slice_abs:
  assumes ok: "ah_ok h" and abs: "ah_abs h (unat i) = Some (ATYPE_REF, vs)"
  shows "fst (data_slice i h) = Inr vs"
proof -
  obtain a where a: "ah_slot h (unat i) = Some a" "arr_atype a = ATYPE_REF" "vs = elems h (arr_data a)"
    using abs by (auto simp: ah_abs_def)
  have "(if is_packed (arr_atype a) then andThen (packed_slice i) (\<lambda>bs. ret (map scast bs)) else data_slice i) h =
      (Inr (elems h (arr_data a)), h)"
    by (rule clone_data [OF ok a(1)])
  moreover have "\<not> is_packed ATYPE_REF"
    by (simp add: is_packed_def ATYPE_REF_def ATYPE_BOOLEAN_def ATYPE_BYTE_def)
  ultimately show ?thesis using a by simp
qed

lemma ah_atype_abs: "ah_atype h i = map_option fst (ah_abs h (unat i))"
  by (simp add: ah_atype_def ah_abs_def option.map_comp comp_def)

lemma in_entry_slots:
  "s \<in> set (concat (map (\<lambda>(k, v). [k, v]) es)) \<longleftrightarrow> (\<exists>k v. (k, v) \<in> set es \<and> (s = k \<or> s = v))"
  by (induction es) auto

lemma in_entry_refs:
  "r \<in> set (slot_refs (concat (map (\<lambda>(k, v). [k, v]) es))) \<longleftrightarrow>
     (\<exists>k v. (k, v) \<in> set es \<and> (slot_ref k = Some r \<or> slot_ref v = Some r))"
  unfolding in_slot_refs Bex_def in_entry_slots by blast

lemma in_case_opt:
  "x \<in> set (case opt of None \<Rightarrow> [] | Some y \<Rightarrow> f y) \<longleftrightarrow> (\<exists>y. opt = Some y \<and> x \<in> set (f y))"
  by (cases opt) auto

lemma in_list_slots: "s \<in> set (list_slots st b) \<longleftrightarrow> (\<exists>ss. list_view st b = Some ss \<and> s \<in> set ss)"
  by (cases "buf_at (list_bufs st) b") (simp_all add: list_slots_def list_view_def)

lemma in_map_slots: "e \<in> set (map_slots st b) \<longleftrightarrow> (\<exists>es. map_view st b = Some es \<and> e \<in> set es)"
  by (cases "buf_at (map_bufs st) b") (simp_all add: map_slots_def map_view_def)

lemma in_side_refs:
  "r \<in> set (side_refs st i) \<longleftrightarrow>
     (\<exists>l s. get_lambda st i = Some l \<and> s \<in> set (captures l) \<and> slot_ref s = Some r) \<or>
     (\<exists>it. iter_get st i = Some it \<and> r = GObject (iter_owner it)) \<or>
     (\<exists>m. get_exception_message st i = Some m \<and> r = GString m) \<or>
     (\<exists>x \<in> set (suppressed_list st i). r = GObject x) \<or>
     (\<exists>c. get_exception_cause st i = Some c \<and> r = GObject c)"
  unfolding side_refs_def set_append Un_iff in_case_opt in_slot_refs set_map image_iff list.set by blast

lemma class_buf:
  assumes "ob_ok h"
  shows "ob_abs h (unat i) = None \<Longrightarrow> ob_class_name h i = None"
    and "ob_abs h (unat i) = Some (cls, fs) \<Longrightarrow> ob_class_name h i = Some cls \<and> buf_field h i = field_buf fs"
  by (simp_all add: ob_class_name_abs [OF assms] buf_field_abs [OF assms])

lemma in_list_refs:
  assumes "ob_ok (h_objects H)"
  shows "r \<in> set (list_refs H i) \<longleftrightarrow>
    (\<exists>fs b ss s. ob_abs (h_objects H) (unat i) = Some (java_util_ArrayList, fs) \<and> field_buf fs = Some b \<and>
       list_view (h_stores H) b = Some ss \<and> s \<in> set ss \<and> slot_ref s = Some r)"
proof (cases "ob_abs (h_objects H) (unat i)")
  case None
  then show ?thesis by (simp add: list_refs_def class_buf [OF assms])
next
  case (Some x)
  obtain cls fs where x: "ob_abs (h_objects H) (unat i) = Some (cls, fs)" using Some by (cases x) simp
  note cb = class_buf(2) [OF assms x]
  show ?thesis
  proof (cases "cls = java_util_ArrayList")
    case True
    then have "list_refs H i = (case field_buf fs of None \<Rightarrow> [] | Some b \<Rightarrow> slot_refs (list_slots (h_stores H) b))"
      using cb by (simp only: list_refs_def simp_thms if_True)
    then have "r \<in> set (list_refs H i) \<longleftrightarrow>
        (\<exists>b. field_buf fs = Some b \<and> (\<exists>ss s. list_view (h_stores H) b = Some ss \<and> s \<in> set ss \<and> slot_ref s = Some r))"
      unfolding in_slot_refs Bex_def by (simp only: in_case_opt in_slot_refs Bex_def in_list_slots) blast
    then show ?thesis using x True by simp
  next
    case False
    then show ?thesis using x cb by (simp add: list_refs_def)
  qed
qed

lemma in_map_refs:
  assumes "ob_ok (h_objects H)"
  shows "r \<in> set (map_refs H i) \<longleftrightarrow>
    (\<exists>cls fs b es k v. ob_abs (h_objects H) (unat i) = Some (cls, fs) \<and> owns_map_buf (Some cls) \<and>
       field_buf fs = Some b \<and> map_view (h_stores H) b = Some es \<and> (k, v) \<in> set es \<and>
       (slot_ref k = Some r \<or> slot_ref v = Some r))"
proof (cases "ob_abs (h_objects H) (unat i)")
  case None
  then show ?thesis by (simp add: map_refs_def class_buf [OF assms] owns_map_buf_def)
next
  case (Some x)
  obtain cls fs where x: "ob_abs (h_objects H) (unat i) = Some (cls, fs)" using Some by (cases x) simp
  note cb = class_buf(2) [OF assms x]
  show ?thesis
  proof (cases "owns_map_buf (Some cls)")
    case True
    then have "map_refs H i = (case field_buf fs of None \<Rightarrow> []
        | Some b \<Rightarrow> slot_refs (concat (map (\<lambda>(k, v). [k, v]) (map_slots (h_stores H) b))))"
      using cb by (simp only: map_refs_def simp_thms if_True)
    then have "r \<in> set (map_refs H i) \<longleftrightarrow>
        (\<exists>b. field_buf fs = Some b \<and> (\<exists>es k v. map_view (h_stores H) b = Some es \<and> (k, v) \<in> set es \<and>
           (slot_ref k = Some r \<or> slot_ref v = Some r)))"
      by (simp only: in_case_opt in_entry_refs in_map_slots) blast
    then show ?thesis using x True by simp
  next
    case False
    then show ?thesis using x cb by (simp add: map_refs_def)
  qed
qed

text \<open>What the collector scans is what the object or array refers to.\<close>

lemma object_refs_graph:
  assumes "ob_ok (h_objects H)"
  shows "\<exists>rs. object_refs H i = Inr rs \<and> (\<forall>r. r \<in> set rs \<longleftrightarrow> points_to H (GObject i) r)"
proof -
  define fs where "fs = (case ob_abs (h_objects H) (unat i) of None \<Rightarrow> [] | Some (c, fs) \<Rightarrow> fs)"
  let ?rs = "slot_refs fs @ list_refs H i @ map_refs H i @ side_refs (h_stores H) i"
  have "object_refs H i = Inr ?rs" by (simp add: object_refs_def fields_slice_abs [OF assms] fs_def)
  moreover have own: "r \<in> set (slot_refs fs) \<longleftrightarrow>
      (\<exists>cls gs s. ob_abs (h_objects H) (unat i) = Some (cls, gs) \<and> s \<in> set gs \<and> slot_ref s = Some r)" for r
    unfolding in_slot_refs by (cases "ob_abs (h_objects H) (unat i)") (auto simp: fs_def)
  have "r \<in> set ?rs \<longleftrightarrow> points_to H (GObject i) r" for r
    unfolding set_append Un_iff own in_list_refs [OF assms] in_map_refs [OF assms] in_side_refs points_to_object
    by blast
  ultimately show ?thesis by blast
qed

lemma array_refs_graph:
  assumes "ah_ok (h_arrays H)"
  shows "\<exists>rs. array_refs H i = Inr rs \<and> (\<forall>r. r \<in> set rs \<longleftrightarrow> points_to H (GArray i) r)"
proof (cases "\<exists>vs. ah_abs (h_arrays H) (unat i) = Some (ATYPE_REF, vs)")
  case True
  then obtain vs where vs: "ah_abs (h_arrays H) (unat i) = Some (ATYPE_REF, vs)" by blast
  then show ?thesis
    by (auto simp: array_refs_def ah_atype_abs data_slice_abs [OF assms vs] points_to_array in_value_refs)
next
  case False
  then show ?thesis by (auto simp: array_refs_def ah_atype_abs points_to_array)
qed

section \<open>The marking loop\<close>

text \<open>
  The heaps are sound and the side tables hold entries of live objects alone: a dead index has
  no references, so it does not matter whether the bitmap has room for it.
\<close>

definition no_entries :: "stores \<Rightarrow> u16 \<Rightarrow> bool" where
  "no_entries s i \<longleftrightarrow> get_lambda s i = None \<and> iter_get s i = None \<and> get_exception_message s i = None \<and>
     suppressed_list s i = [] \<and> get_exception_cause s i = None"

definition heap_ok :: "heaps \<Rightarrow> bool" where
  "heap_ok H \<longleftrightarrow> ob_ok (h_objects H) \<and> ah_ok (h_arrays H) \<and> str_ok (h_strings H) \<and> stores_ok (h_stores H) \<and>
     (\<forall>i. ob_abs (h_objects H) (unat i) = None \<longrightarrow> no_entries (h_stores H) i)"

definition marked :: "gc_state \<Rightarrow> gc_ref \<Rightarrow> bool" where
  "marked gc r =
     (case r of GObject i \<Rightarrow> is_marked (obj_marks gc) i | GArray i \<Rightarrow> is_marked (arr_marks gc) i
      | GString i \<Rightarrow> is_marked (str_marks gc) i)"

text \<open>The entries that a collection could free.\<close>

definition collectable :: "heaps \<Rightarrow> gc_ref \<Rightarrow> bool" where
  "collectable H r =
     (case r of GObject i \<Rightarrow> ob_abs (h_objects H) (unat i) \<noteq> None
      | GArray i \<Rightarrow> ah_abs (h_arrays H) (unat i) \<noteq> None
      | GString i \<Rightarrow> unat i < total_len (h_strings H) \<and> \<not> is_literal (h_strings H) i)"

definition room_for :: "gc_state \<Rightarrow> gc_ref \<Rightarrow> bool" where
  "room_for gc r =
     (case r of GObject i \<Rightarrow> covers (obj_marks gc) i | GArray i \<Rightarrow> covers (arr_marks gc) i
      | GString i \<Rightarrow> covers (str_marks gc) i)"

definition marks_ready :: "heaps \<Rightarrow> gc_state \<Rightarrow> bool" where
  "marks_ready H gc \<longleftrightarrow> bits_ok (obj_marks gc) \<and> bits_ok (arr_marks gc) \<and> bits_ok (str_marks gc) \<and>
     (\<forall>r. collectable H r \<longrightarrow> room_for gc r)"

lemma side_refs_live:
  "heap_ok H \<Longrightarrow> r \<in> set (side_refs (h_stores H) i) \<Longrightarrow> collectable H (GObject i)"
  by (cases "ob_abs (h_objects H) (unat i)") (auto simp: heap_ok_def collectable_def no_entries_def side_refs_def)

lemma points_from_live:
  assumes "heap_ok H" and "points_to H r r'"
  shows "collectable H r"
  using assms(2)
proof cases
  case (captured i l s)
  then show ?thesis using side_refs_live [OF assms(1), of r' i] unfolding in_side_refs by blast
next
  case (iterated i it)
  then show ?thesis using side_refs_live [OF assms(1), of r' i] unfolding in_side_refs by blast
next
  case (message i m)
  then show ?thesis using side_refs_live [OF assms(1), of r' i] unfolding in_side_refs by blast
next
  case (suppressed_by x i)
  then show ?thesis using side_refs_live [OF assms(1), of r' i] unfolding in_side_refs by blast
next
  case (caused_by i c)
  then show ?thesis using side_refs_live [OF assms(1), of r' i] unfolding in_side_refs by blast
qed (auto simp: collectable_def)

text \<open>
  What the loop keeps. Marks and waiting items are reached; as long as no push was refused,
  nothing between a marked item and an unmarked one is forgotten.
\<close>

definition mark_inv :: "heaps \<Rightarrow> gc_ref set \<Rightarrow> gc_state \<Rightarrow> bool" where
  "mark_inv H R gc \<longleftrightarrow> marks_ready H gc \<and> (\<forall>r. marked gc r \<longrightarrow> reached H R r) \<and>
     (\<forall>r \<in> set (waiting (gc_work gc)). reached H R r) \<and>
     (\<not> exhausted_work (gc_work gc) \<longrightarrow>
        (\<forall>r. collectable H r \<and> (r \<in> R \<or> (\<exists>p. marked gc p \<and> points_to H p r)) \<longrightarrow>
           marked gc r \<or> r \<in> set (waiting (gc_work gc))))"

definition unmarked :: "gc_state \<Rightarrow> nat" where
  "unmarked gc = card {i. \<not> is_marked (obj_marks gc) i} + card {i. \<not> is_marked (arr_marks gc) i}"

lemma unmarked_less:
  "is_marked v i \<or> covers v i \<Longrightarrow> bits_ok v \<Longrightarrow> \<not> is_marked v i \<Longrightarrow>
   card {j. \<not> is_marked (mark_bit i v) j} < card {j. \<not> is_marked v j}"
  by (rule psubset_card_mono) (auto simp: is_marked_mark_bit)

lemma mark_inv_step:
  assumes inv: "mark_inv H R gc" and ok: "heap_ok H"
    and here: "waiting (gc_work gc) = waiting w @ [r]" "exhausted_work w = exhausted_work (gc_work gc)"
    and marks: "\<And>x. marked gc' x \<longleftrightarrow> marked gc x \<or> x = r \<and> room_for gc r \<and> now"
    and work: "gc_work gc' = push_all al rs w"
    and succ: "\<And>x. x \<in> set rs \<Longrightarrow> points_to H r x" "\<And>x. points_to H r x \<Longrightarrow> x \<in> set rs \<or> marked gc r"
    and fin: "now \<or> marked gc r \<or> \<not> collectable H r"
    and ready: "marks_ready H gc'"
  shows "mark_inv H R gc'"
proof -
  note m = inv [unfolded mark_inv_def]
  have reach: "reached H R r" using m here(1) by simp
  have sub: "set (waiting (gc_work gc')) \<subseteq> set (waiting w) \<union> set rs"
    and full: "\<not> exhausted_work (gc_work gc') \<Longrightarrow>
      \<not> exhausted_work (gc_work gc) \<and> waiting (gc_work gc') = waiting w @ rs"
    using push_all_law [of al rs w] work here(2) by auto
  have room: "room_for gc x" if "collectable H x" for x using m that by (simp add: marks_ready_def)
  have one: "marked gc' x \<Longrightarrow> reached H R x" for x using marks m reach by blast
  have two: "x \<in> set (waiting (gc_work gc')) \<Longrightarrow> reached H R x" for x
    using sub succ(1) m here(1) reached.edge [OF reach] by fastforce
  have three: "marked gc' x \<or> x \<in> set (waiting (gc_work gc'))"
    if ne: "\<not> exhausted_work (gc_work gc')" and c: "collectable H x"
      and src: "x \<in> R \<or> (\<exists>p. marked gc' p \<and> points_to H p x)" for x
  proof -
    note f = full [OF ne]
    have "marked gc x \<or> x \<in> set (waiting w) \<or> x = r \<or> x \<in> set rs"
    proof (cases "x \<in> R \<or> (\<exists>p. marked gc p \<and> points_to H p x)")
      case True
      then have "marked gc x \<or> x \<in> set (waiting (gc_work gc))" using m f c by blast
      then show ?thesis using here(1) by auto
    next
      case False
      then have "points_to H r x" using src marks by blast
      then show ?thesis using succ(2) False by blast
    qed
    then show ?thesis using f marks fin room [OF c] c by auto
  qed
  show ?thesis unfolding mark_inv_def using ready one two three by blast
qed

text \<open>The rest of the collector's state does not change while it marks.\<close>

definition same_roots :: "gc_state \<Rightarrow> gc_state \<Rightarrow> bool" where
  "same_roots g g' \<longleftrightarrow> compact_cap g' = compact_cap g \<and> parked_frames g' = parked_frames g \<and>
     shadow_roots g' = shadow_roots g \<and> gc_alloc_count g' = gc_alloc_count g \<and> need_gc g' = need_gc g"

definition todo :: "gc_state \<Rightarrow> nat \<times> nat" where
  "todo gc = (unmarked gc, length (waiting (gc_work gc)))"

lemma todo_less:
  "unmarked g < unmarked gc \<or> unmarked g = unmarked gc \<and> length (waiting (gc_work g)) < length (waiting (gc_work gc)) \<Longrightarrow>
   (todo g, todo gc) \<in> less_than <*lex*> less_than"
  by (auto simp: todo_def)

lemma mark_one_law:
  assumes ok: "heap_ok H" and inv: "mark_inv H R gc" and pop: "work_pop (gc_work gc) = Some (r, w)"
  shows "\<exists>gc'. mark_one al H r (gc\<lparr>gc_work := w\<rparr>) = (Inr (), gc') \<and> mark_inv H R gc' \<and> same_roots gc gc' \<and>
    (todo gc', todo gc) \<in> less_than <*lex*> less_than"
proof -
  have here: "waiting (gc_work gc) = waiting w @ [r]" "exhausted_work w = exhausted_work (gc_work gc)"
    using work_pop_some [OF pop] by simp_all
  have ready: "marks_ready H gc" using inv by (simp add: mark_inv_def)
  note bits = ready [unfolded marks_ready_def]
  note step = mark_inv_step [OF inv ok here]
  let ?old = "gc\<lparr>gc_work := w\<rparr>"
  have old: "mark_inv H R ?old" "(todo ?old, todo gc) \<in> less_than <*lex*> less_than"
    if "marked gc r \<or> \<not> collectable H r"
  proof -
    show "mark_inv H R ?old"
      by (rule step [where rs = "[]" and now = False])
        (use that ready points_from_live [OF ok] in \<open>auto simp: marked_def marks_ready_def room_for_def split: gc_ref.split\<close>)
    show "(todo ?old, todo gc) \<in> less_than <*lex*> less_than"
      using here by (intro todo_less) (simp add: unmarked_def)
  qed
  show ?thesis
  proof (cases r)
    case (GObject i)
    obtain rs where rs: "object_refs H i = Inr rs" "\<And>x. x \<in> set rs \<longleftrightarrow> points_to H r x"
      using object_refs_graph ok GObject unfolding heap_ok_def by blast
    let ?new = "gc\<lparr>gc_work := push_all al rs w, obj_marks := mark_bit i (obj_marks gc)\<rparr>"
    show ?thesis
    proof (cases "is_marked (obj_marks gc) i")
      case True
      then show ?thesis using old GObject by (simp add: mark_one_def marked_def same_roots_def)
    next
      case False
      have new: "mark_one al H r (gc\<lparr>gc_work := w\<rparr>) = (Inr (), ?new)"
        using False GObject rs(1) by (simp add: mark_one_def)
      have "mark_inv H R ?new"
        by (rule step [where rs = rs and now = True])
          (use bits GObject in \<open>auto simp: marked_def marks_ready_def room_for_def rs(2) is_marked_mark_bit
             mark_bit_ok covers_def split: gc_ref.splits\<close>)
      moreover have "(todo ?new, todo gc) \<in> less_than <*lex*> less_than"
      proof (cases "covers (obj_marks gc) i")
        case True
        then show ?thesis using unmarked_less [of "obj_marks gc" i] False bits by (intro todo_less) (simp add: unmarked_def)
      next
        case no: False
        then have "\<not> collectable H r" using bits GObject by (auto simp: room_for_def)
        then have "rs = []" using rs(2) points_from_live [OF ok] by (cases rs) auto
        then show ?thesis using here no bits
          by (intro todo_less) (simp add: unmarked_def is_marked_mark_bit)
      qed
      ultimately show ?thesis using new by (simp add: same_roots_def)
    qed
  next
    case (GArray i)
    obtain rs where rs: "array_refs H i = Inr rs" "\<And>x. x \<in> set rs \<longleftrightarrow> points_to H r x"
      using array_refs_graph ok GArray unfolding heap_ok_def by blast
    let ?new = "gc\<lparr>gc_work := push_all al rs w, arr_marks := mark_bit i (arr_marks gc)\<rparr>"
    show ?thesis
    proof (cases "is_marked (arr_marks gc) i")
      case True
      then show ?thesis using old GArray by (simp add: mark_one_def marked_def same_roots_def)
    next
      case False
      have new: "mark_one al H r (gc\<lparr>gc_work := w\<rparr>) = (Inr (), ?new)"
        using False GArray rs(1) by (simp add: mark_one_def)
      have "mark_inv H R ?new"
        by (rule step [where rs = rs and now = True])
          (use bits GArray in \<open>auto simp: marked_def marks_ready_def room_for_def rs(2) is_marked_mark_bit
             mark_bit_ok covers_def split: gc_ref.splits\<close>)
      moreover have "(todo ?new, todo gc) \<in> less_than <*lex*> less_than"
      proof (cases "covers (arr_marks gc) i")
        case True
        then show ?thesis using unmarked_less [of "arr_marks gc" i] False bits by (intro todo_less) (simp add: unmarked_def)
      next
        case no: False
        then have "\<not> collectable H r" using bits GArray by (auto simp: room_for_def)
        then have "rs = []" using rs(2) points_from_live [OF ok] by (cases rs) auto
        then show ?thesis using here no bits
          by (intro todo_less) (simp add: unmarked_def is_marked_mark_bit)
      qed
      ultimately show ?thesis using new by (simp add: same_roots_def)
    qed
  next
    case (GString i)
    let ?new = "gc\<lparr>gc_work := w, str_marks := mark_bit i (str_marks gc)\<rparr>"
    show ?thesis
    proof (cases "is_literal (h_strings H) i")
      case True
      then show ?thesis using old GString by (simp add: mark_one_def collectable_def same_roots_def)
    next
      case False
      have "mark_inv H R ?new"
        by (rule step [where rs = "[]" and now = True])
          (use bits GString in \<open>auto simp: marked_def marks_ready_def room_for_def is_marked_mark_bit
             mark_bit_ok covers_def elim: points_to_stringE split: gc_ref.splits\<close>)
      moreover have "(todo ?new, todo gc) \<in> less_than <*lex*> less_than"
        using here by (intro todo_less) (simp add: unmarked_def)
      ultimately show ?thesis using False GString by (simp add: mark_one_def same_roots_def)
    qed
  qed
qed

text \<open>An allocator that never refuses never drops an item.\<close>

lemma push_all_granted:
  "\<forall>n. al TableBuf n \<Longrightarrow> exhausted_work (push_all al rs w) = exhausted_work w"
proof (induction rs arbitrary: w)
  case (Cons r rs)
  have "exhausted_work (work_push al r w) = exhausted_work w"
    using Cons.prems by (simp add: work_push_def Let_def vec_reserve_def)
  then show ?case using Cons by (simp add: push_all_def)
qed simp

lemma mark_one_granted:
  assumes "\<forall>n. al TableBuf n" and "mark_one al H r gc = (res, g)"
  shows "exhausted_work (gc_work g) = exhausted_work (gc_work gc)"
  using assms
  by (auto simp: mark_one_def Let_def push_all_granted split: gc_ref.splits if_splits sum.splits)

text \<open>The loop ends, and at its end everything reached is marked unless a push was refused.\<close>

lemma mark_loop_law:
  assumes "heap_ok H" and "mark_inv H R gc"
  shows "\<exists>gc'. mark_loop al H gc = Some (Inr (), gc') \<and> mark_inv H R gc' \<and> waiting (gc_work gc') = [] \<and>
    same_roots gc gc' \<and>
    ((\<forall>n. al TableBuf n) \<longrightarrow> exhausted_work (gc_work gc') = exhausted_work (gc_work gc))"
  using assms(2)
proof (induction "todo gc" arbitrary: gc rule: wf_induct_rule [OF wf_lex_prod [OF wf_less_than wf_less_than]])
  case 1
  show ?case
  proof (cases "work_pop (gc_work gc)")
    case None
    then have "mark_loop al H gc = Some (Inr (), gc)" by (subst mark_loop.simps) simp
    then show ?thesis using None 1(2) by (simp add: work_pop_none same_roots_def)
  next
    case (Some p)
    obtain r w where p: "work_pop (gc_work gc) = Some (r, w)" using Some by (cases p) simp
    obtain g where g: "mark_one al H r (gc\<lparr>gc_work := w\<rparr>) = (Inr (), g)" "mark_inv H R g" "same_roots gc g"
        "(todo g, todo gc) \<in> less_than <*lex*> less_than"
      using mark_one_law [OF assms(1) 1(2) p] by blast
    obtain gc' where gc': "mark_loop al H g = Some (Inr (), gc')" "mark_inv H R gc'" "waiting (gc_work gc') = []"
        "same_roots g gc'"
        "(\<forall>n. al TableBuf n) \<longrightarrow> exhausted_work (gc_work gc') = exhausted_work (gc_work g)"
      using 1(1) [OF g(4) g(2)] by blast
    have "mark_loop al H gc = mark_loop al H g" using p g(1) by (subst mark_loop.simps) simp
    moreover have "(\<forall>n. al TableBuf n) \<longrightarrow> exhausted_work (gc_work g) = exhausted_work (gc_work gc)"
      using mark_one_granted [OF _ g(1)] work_pop_some [OF p] by auto
    ultimately show ?thesis using gc' g(3) by (simp add: same_roots_def)
  qed
qed

lemma reached_marked:
  assumes ok: "heap_ok H" and inv: "mark_inv H R gc" and fin: "waiting (gc_work gc) = []"
    and full: "\<not> exhausted_work (gc_work gc)"
  shows "reached H R r \<Longrightarrow> collectable H r \<Longrightarrow> marked gc r"
proof (induction rule: reached.induct)
  case (root r)
  then show ?case using inv fin full by (simp add: mark_inv_def)
next
  case (edge r r')
  then have "marked gc r" using points_from_live [OF ok] by blast
  then show ?case using edge inv fin full unfolding mark_inv_def by fastforce
qed

end
