(* ===== verification/SweepLaws.thy ===== *)
theory SweepLaws
  imports CollectorLaws
begin

text \<open>
  What the sweep frees: every live entry without a mark, with the buffer its object owned and
  its entries in the side tables; every other view stays as it was.
\<close>

section \<open>Side stores\<close>

text \<open>Object \<open>i\<close>, of a class of the given kind, names buffer \<open>b\<close> in its first field.\<close>

definition owns :: "(string \<Rightarrow> bool) \<Rightarrow> object_heap \<Rightarrow> u16 \<Rightarrow> u16 \<Rightarrow> bool" where
  "owns P h i b \<longleftrightarrow> (\<exists>cls fs. ob_abs h (unat i) = Some (cls, fs) \<and> P cls \<and> field_buf fs = Some b)"

abbreviation "list_class \<equiv> (\<lambda>cls. cls = java_util_ArrayList)"
abbreviation "map_class \<equiv> (\<lambda>cls. owns_map_buf (Some cls))"
abbreviation "builder_class \<equiv> (\<lambda>cls. cls = java_lang_StringBuilder)"

text \<open>The stores after the objects of \<open>D\<close> have been swept from a heap.\<close>

definition swept_stores :: "object_heap \<Rightarrow> u16 set \<Rightarrow> stores \<Rightarrow> stores \<Rightarrow> bool" where
  "swept_stores h D s t \<longleftrightarrow> stores_ok t \<and>
     list_view t = (\<lambda>b. if \<exists>i\<in>D. owns list_class h i b then None else list_view s b) \<and>
     map_view t = (\<lambda>b. if \<exists>i\<in>D. owns map_class h i b then None else map_view s b) \<and>
     sb_view t = (\<lambda>b. if \<exists>i\<in>D. owns builder_class h i b then None else sb_view s b) \<and>
     get_lambda t = (\<lambda>i. if i \<in> D then None else get_lambda s i) \<and>
     iter_get t = (\<lambda>i. if i \<in> D then None else iter_get s i) \<and>
     get_exception_message t = (\<lambda>i. if i \<in> D then None else get_exception_message s i) \<and>
     suppressed_list t = (\<lambda>i. if i \<in> D then [] else suppressed_list s i) \<and>
     get_exception_cause t = (\<lambda>i. if i \<in> D then None else get_exception_cause s i) \<and>
     boxed_cache_roots t = boxed_cache_roots s"

lemma swept_none: "stores_ok s \<Longrightarrow> swept_stores h {} s s"
  by (simp add: swept_stores_def)

lemma free_views:
  "map_view (list_free b s) = map_view s" "sb_view (list_free b s) = sb_view s"
  "list_view (map_free b s) = list_view s" "sb_view (map_free b s) = sb_view s"
  "list_view (sb_free b s) = list_view s" "map_view (sb_free b s) = map_view s"
  by (simp_all add: list_free_def map_free_def sb_free_def list_view_def map_view_def sb_view_def fun_eq_iff)

text \<open>The tables that freeing a buffer leaves alone.\<close>

definition same_tables :: "stores \<Rightarrow> stores \<Rightarrow> bool" where
  "same_tables s t \<longleftrightarrow> lambda_proxies t = lambda_proxies s \<and> iter_states t = iter_states s \<and>
     exception_messages t = exception_messages s \<and> suppressed t = suppressed s \<and>
     exception_causes t = exception_causes s \<and> boxed_cache_roots t = boxed_cache_roots s"

lemma free_tables:
  "same_tables s (list_free b s)" "same_tables s (map_free b s)" "same_tables s (sb_free b s)"
  by (simp_all add: same_tables_def list_free_def map_free_def sb_free_def boxed_cache_roots_def)

lemma same_tables_trans: "same_tables s t \<Longrightarrow> same_tables t u \<Longrightarrow> same_tables s u"
  by (simp add: same_tables_def)

lemma same_tables_refl: "same_tables s s"
  by (simp add: same_tables_def)

lemma free_buffers_law:
  assumes h: "ob_ok h" and s: "stores_ok s" and live: "ob_abs h (unat i) \<noteq> None"
  shows "stores_ok (free_buffers h i s) \<and> same_tables s (free_buffers h i s) \<and>
    list_view (free_buffers h i s) = (\<lambda>b. if owns list_class h i b then None else list_view s b) \<and>
    map_view (free_buffers h i s) = (\<lambda>b. if owns map_class h i b then None else map_view s b) \<and>
    sb_view (free_buffers h i s) = (\<lambda>b. if owns builder_class h i b then None else sb_view s b)"
proof -
  obtain cls fs where x: "ob_abs h (unat i) = Some (cls, fs)" using live by auto
  note cb = class_buf(2) [OF h x]
  have own: "owns P h i b \<longleftrightarrow> P cls \<and> field_buf fs = Some b" for P b using x by (simp add: owns_def)
  show ?thesis
  proof (cases "field_buf fs")
    case None
    then show ?thesis
      using s cb by (simp add: free_buffers_def own same_tables_refl)
  next
    case (Some b)
    define s1 where "s1 = (if cls = java_util_ArrayList then list_free b s else s)"
    define s2 where "s2 = (if owns_map_buf (Some cls) then map_free b s1 else s1)"
    have eq: "free_buffers h i s = (if cls = java_lang_StringBuilder then sb_free b s2 else s2)"
      using cb Some by (simp add: free_buffers_def s1_def s2_def Let_def)
    have ok1: "stores_ok s1" and ok2: "stores_ok s2"
      using s list_free_law [OF s, of b] map_free_law [of s1 b] by (auto simp: s1_def s2_def)
    have v1: "list_view s1 = (\<lambda>c. if owns list_class h i c then None else list_view s c)" "map_view s1 = map_view s"
        "sb_view s1 = sb_view s" "same_tables s s1"
      using list_free_law [OF s, of b] Some
      by (auto simp: s1_def own free_views free_tables same_tables_refl fun_eq_iff)
    have v2: "list_view s2 = list_view s1" "map_view s2 = (\<lambda>c. if owns map_class h i c then None else map_view s c)"
        "sb_view s2 = sb_view s" "same_tables s s2"
      using map_free_law [OF ok1, of b] Some v1 same_tables_trans [OF v1(4) free_tables(2) [of s1 b]]
      by (auto simp: s2_def own free_views fun_eq_iff)
    show ?thesis
      unfolding eq
      using sb_free_law [OF ok2, of b] Some v1 v2 ok2 same_tables_trans [OF v2(4) free_tables(3) [of s2 b]]
      by (auto simp: own free_views fun_eq_iff)
  qed
qed

lemma free_entries_law:
  assumes "stores_ok s"
  shows "stores_ok (free_entries i s)" "list_view (free_entries i s) = list_view s"
    "map_view (free_entries i s) = map_view s" "sb_view (free_entries i s) = sb_view s"
    "get_lambda (free_entries i s) = (get_lambda s)(i := None)"
    "iter_get (free_entries i s) = (iter_get s)(i := None)"
    "get_exception_message (free_entries i s) = (get_exception_message s)(i := None)"
    "suppressed_list (free_entries i s) = (suppressed_list s)(i := [])"
    "get_exception_cause (free_entries i s) = (get_exception_cause s)(i := None)"
    "boxed_cache_roots (free_entries i s) = boxed_cache_roots s"
  using assms
  by (auto simp: free_entries_def free_exception_cause_def free_suppressed_def free_exception_message_def
      iter_free_def free_lambda_def stores_ok_def list_view_def map_view_def sb_view_def get_lambda_def iter_get_def
      get_exception_message_def suppressed_list_def get_exception_cause_def boxed_cache_roots_def find_key_drop fun_eq_iff)

lemma sweep_one_stores:
  assumes swept: "swept_stores h D s t" and h: "ob_ok h'" and same: "ob_abs h' (unat i) = ob_abs h (unat i)"
    and live: "ob_abs h (unat i) \<noteq> None"
  shows "swept_stores h (insert i D) s (free_entries i (free_buffers h' i t))"
proof -
  have ok: "stores_ok t" using swept by (simp add: swept_stores_def)
  have own: "owns P h' i = owns P h i" for P using same by (simp add: owns_def fun_eq_iff)
  note fb = free_buffers_law [OF h ok, of i, unfolded own]
  have ok': "stores_ok (free_buffers h' i t)" using fb same live by simp
  have eqs: "get_lambda (free_buffers h' i t) = get_lambda t" "iter_get (free_buffers h' i t) = iter_get t"
      "get_exception_message (free_buffers h' i t) = get_exception_message t"
      "suppressed_list (free_buffers h' i t) = suppressed_list t"
      "get_exception_cause (free_buffers h' i t) = get_exception_cause t"
      "boxed_cache_roots (free_buffers h' i t) = boxed_cache_roots t"
    using fb same live
    by (auto simp: same_tables_def get_lambda_def iter_get_def get_exception_message_def suppressed_list_def
        get_exception_cause_def fun_eq_iff)
  note fe = free_entries_law [OF ok', of i]
  show ?thesis
    using swept fb same live unfolding swept_stores_def fe(2-10) eqs
    by (auto simp: fe(1) fun_eq_iff)
qed

section \<open>Objects\<close>

definition dead_object :: "u8 vec \<Rightarrow> object_heap \<Rightarrow> nat \<Rightarrow> bool" where
  "dead_object marks h j \<longleftrightarrow> ob_abs h j \<noteq> None \<and> \<not> is_marked marks (of_nat j)"

lemma ob_count:
  assumes "ob_ok h"
  shows "ob_slot_count h \<le> REF_TOP" "ob_abs h j \<noteq> None \<Longrightarrow> j < ob_slot_count h"
proof -
  have "cs_len (objects h) = length (obs h)" using cs_len_iter [OF ob_ok_cs [OF assms]] by simp
  then show "ob_slot_count h \<le> REF_TOP" using assms by (simp add: ob_slot_count_def ob_ok_def ob_inv_def)
  show "j < ob_slot_count h" if "ob_abs h j \<noteq> None"
    using that ob_slot_Some(1) [OF ob_ok_cs [OF assms]] \<open>cs_len (objects h) = _\<close>
    by (auto simp: ob_abs_def ob_slot_count_def)
qed

lemma index_back: "j < REF_TOP \<Longrightarrow> unat (of_nat j :: u16) = j"
  by (simp add: REF_TOP_def unat_of_nat)

lemma ob_live_abs: "ob_is_live h i \<longleftrightarrow> ob_abs h (unat i) \<noteq> None"
  by (auto simp: ob_is_live_def ob_abs_def)

lemma ah_live_abs: "ah_is_live h i \<longleftrightarrow> ah_abs h (unat i) \<noteq> None"
  by (auto simp: ah_is_live_def ah_abs_def)

definition objects_swept ::
  "u8 vec \<Rightarrow> nat \<Rightarrow> object_heap \<Rightarrow> stores \<Rightarrow> nat \<Rightarrow> nat \<times> object_heap \<times> stores \<Rightarrow> bool" where
  "objects_swept marks n h s k r \<longleftrightarrow>
     (case r of (freed, h', s') \<Rightarrow>
        freed = n + card {j. j < k \<and> dead_object marks h j} \<and> ob_ok h' \<and>
        ob_abs h' = (\<lambda>j. if j < k \<and> dead_object marks h j then None else ob_abs h j) \<and>
        swept_stores h {i. unat i < k \<and> dead_object marks h (unat i)} s s')"

lemma below_Suc: "{j. j < Suc k \<and> P j} = (if P k then insert k {j. j < k \<and> P j} else {j. j < k \<and> P j})"
  by (auto simp: less_Suc_eq)

lemma sweep_object_step:
  assumes k: "k < ob_slot_count h" and h: "ob_ok h" and inv: "objects_swept marks n h s k r"
  shows "objects_swept marks n h s (Suc k) (sweep_object marks k r)"
proof -
  obtain freed h' s' where r: "r = (freed, h', s')" by (cases r) auto
  note i = inv [unfolded objects_swept_def r prod.case]
  have top: "k < REF_TOP" using k ob_count(1) [OF h] by simp
  have idx: "unat (of_nat k :: u16) = k" by (rule index_back [OF top])
  have live: "ob_is_live h' (of_nat k) \<longleftrightarrow> ob_abs h k \<noteq> None"
    using i idx by (simp add: ob_live_abs)
  have eqk: "i = of_nat k \<longleftrightarrow> unat i = k" for i :: u16 using idx by (simp only: word_unat_eq_iff)
  have sets: "{i :: u16. unat i < Suc k \<and> dead_object marks h (unat i)} =
      (if dead_object marks h k then insert (of_nat k) {i. unat i < k \<and> dead_object marks h (unat i)}
       else {i. unat i < k \<and> dead_object marks h (unat i)})"
    using eqk idx by (auto simp: less_Suc_eq)
  show ?thesis
  proof (cases "dead_object marks h k")
    case True
    have same: "ob_abs h' (unat (of_nat k :: u16)) = ob_abs h (unat (of_nat k :: u16))" using i idx by simp
    have lv: "ob_abs h (unat (of_nat k :: u16)) \<noteq> None" using True idx by (simp add: dead_object_def)
    have "sweep_object marks k r =
        (freed + 1, ob_free (of_nat k) h', free_entries (of_nat k) (free_buffers h' (of_nat k) s'))"
      using True live by (simp add: sweep_object_def r dead_object_def Let_def)
    moreover have "swept_stores h (insert (of_nat k) {i. unat i < k \<and> dead_object marks h (unat i)}) s
        (free_entries (of_nat k) (free_buffers h' (of_nat k) s'))"
      using i same lv by (intro sweep_one_stores) simp_all
    moreover have "ob_abs (ob_free (of_nat k) h') =
        (\<lambda>j. if j < Suc k \<and> dead_object marks h j then None else ob_abs h j)"
      using ob_free_law [of h' "of_nat k"] i True idx by (auto simp: fun_eq_iff less_Suc_eq)
    moreover have "ob_ok (ob_free (of_nat k) h')" using ob_free_law i by blast
    ultimately show ?thesis
      using True i by (simp add: objects_swept_def sets below_Suc)
  next
    case False
    then have "sweep_object marks k r = r"
      using live by (simp add: sweep_object_def r dead_object_def Let_def)
    moreover have "(\<lambda>j. if j < Suc k \<and> dead_object marks h j then None else ob_abs h j) =
        (\<lambda>j. if j < k \<and> dead_object marks h j then None else ob_abs h j)"
      using False by (auto simp: less_Suc_eq fun_eq_iff)
    ultimately show ?thesis using False i by (simp add: objects_swept_def sets below_Suc r)
  qed
qed

lemma sweep_objects_law:
  assumes h: "ob_ok h" and s: "stores_ok s"
  shows "\<exists>h' s'. sweep_objects marks (n, h, s) = (n + card {j. dead_object marks h j}, h', s') \<and> ob_ok h' \<and>
    ob_abs h' = (\<lambda>j. if dead_object marks h j then None else ob_abs h j) \<and>
    swept_stores h {i. dead_object marks h (unat i)} s s'"
proof -
  have "objects_swept marks n h s k (fold (sweep_object marks) [0..<k] (n, h, s))" if "k \<le> ob_slot_count h" for k
    using that
  proof (induction k)
    case 0
    then show ?case using h swept_none [OF s] by (simp add: objects_swept_def)
  next
    case (Suc k)
    then show ?case using sweep_object_step [OF _ h] by simp
  qed
  then have all: "objects_swept marks n h s (ob_slot_count h) (sweep_objects marks (n, h, s))"
    by (simp add: sweep_objects_def)
  have "j < ob_slot_count h \<and> dead_object marks h j \<longleftrightarrow> dead_object marks h j" for j
    using ob_count(2) [OF h] by (auto simp: dead_object_def)
  then show ?thesis using all by (auto simp: objects_swept_def)
qed

section \<open>Arrays and strings\<close>

definition dead_array :: "u8 vec \<Rightarrow> array_heap \<Rightarrow> nat \<Rightarrow> bool" where
  "dead_array marks h j \<longleftrightarrow> ah_abs h j \<noteq> None \<and> \<not> is_marked marks (of_nat j)"

lemma ah_count:
  assumes "ah_ok h"
  shows "ah_slot_count h \<le> REF_TOP" "ah_abs h j \<noteq> None \<Longrightarrow> j < ah_slot_count h"
proof -
  have cs: "cs_ok (arrays h)" "length (slots h) \<le> REF_TOP" using assms by (simp_all add: ah_ok_def ah_inv_def)
  then show "ah_slot_count h \<le> REF_TOP" using cs_len_iter [OF cs(1)] by (simp add: ah_slot_count_def)
  show "j < ah_slot_count h" if "ah_abs h j \<noteq> None"
    using that cs_len_iter [OF cs(1)] ah_slot_Some(1) [OF cs(1)] by (auto simp: ah_abs_def ah_slot_count_def)
qed

definition arrays_swept :: "u8 vec \<Rightarrow> nat \<Rightarrow> array_heap \<Rightarrow> nat \<Rightarrow> nat \<times> array_heap \<Rightarrow> bool" where
  "arrays_swept marks n h k r \<longleftrightarrow>
     (case r of (freed, h') \<Rightarrow>
        freed = n + card {j. j < k \<and> dead_array marks h j} \<and> ah_ok h' \<and>
        ah_abs h' = (\<lambda>j. if j < k \<and> dead_array marks h j then None else ah_abs h j))"

lemma sweep_array_step:
  assumes k: "k < ah_slot_count h" and h: "ah_ok h" and inv: "arrays_swept marks n h k r"
  shows "arrays_swept marks n h (Suc k) (sweep_array marks k r)"
proof -
  obtain freed h' where r: "r = (freed, h')" by (cases r) auto
  note i = inv [unfolded arrays_swept_def r prod.case]
  have idx: "unat (of_nat k :: u16) = k" using k ah_count(1) [OF h] by (intro index_back) simp
  have live: "ah_is_live h' (of_nat k) \<longleftrightarrow> ah_abs h k \<noteq> None"
    using i idx by (simp add: ah_live_abs)
  show ?thesis
  proof (cases "dead_array marks h k")
    case True
    have "sweep_array marks k r = (freed + 1, ah_free (of_nat k) h')"
      using True live by (simp add: sweep_array_def r dead_array_def Let_def)
    moreover have "ah_abs (ah_free (of_nat k) h') = (\<lambda>j. if j < Suc k \<and> dead_array marks h j then None else ah_abs h j)"
      using free_law [of h' "of_nat k"] i True idx by (auto simp: fun_eq_iff less_Suc_eq)
    moreover have "ah_ok (ah_free (of_nat k) h')" using free_law i by blast
    ultimately show ?thesis using True i by (simp add: arrays_swept_def below_Suc)
  next
    case False
    then have "sweep_array marks k r = r" using live by (simp add: sweep_array_def r dead_array_def Let_def)
    moreover have "(\<lambda>j. if j < Suc k \<and> dead_array marks h j then None else ah_abs h j) =
        (\<lambda>j. if j < k \<and> dead_array marks h j then None else ah_abs h j)"
      using False by (auto simp: less_Suc_eq fun_eq_iff)
    ultimately show ?thesis using False i by (simp add: arrays_swept_def below_Suc r)
  qed
qed

lemma sweep_arrays_law:
  assumes h: "ah_ok h"
  shows "\<exists>h'. sweep_arrays marks (n, h) = (n + card {j. dead_array marks h j}, h') \<and> ah_ok h' \<and>
    ah_abs h' = (\<lambda>j. if dead_array marks h j then None else ah_abs h j)"
proof -
  have "arrays_swept marks n h k (fold (sweep_array marks) [0..<k] (n, h))" if "k \<le> ah_slot_count h" for k
    using that
  proof (induction k)
    case 0
    then show ?case using h by (simp add: arrays_swept_def)
  next
    case (Suc k)
    then show ?case using sweep_array_step [OF _ h] by simp
  qed
  then have all: "arrays_swept marks n h (ah_slot_count h) (sweep_arrays marks (n, h))"
    by (simp add: sweep_arrays_def)
  have "j < ah_slot_count h \<and> dead_array marks h j \<longleftrightarrow> dead_array marks h j" for j
    using ah_count(2) [OF h] by (auto simp: dead_array_def)
  then show ?thesis using all by (auto simp: arrays_swept_def)
qed

definition dead_string :: "u8 vec \<Rightarrow> string_table \<Rightarrow> nat \<Rightarrow> bool" where
  "dead_string marks t j \<longleftrightarrow> dyn_start t \<le> j \<and> str_abs t j \<noteq> None \<and> \<not> is_marked marks (of_nat j)"

lemma is_dyn_live_abs:
  assumes ok: "str_ok t"
  shows "is_dyn_live t i \<longleftrightarrow> dyn_start t \<le> unat i \<and> str_abs t (unat i) \<noteq> None"
proof (cases "dyn_start t \<le> unat i \<and> unat i < length (items (ptrs t))")
  case True
  define di where "di = unat i - dyn_start t"
  note len = str_ok_len [OF ok]
  have di: "unat i = dyn_start t + di" "di < length (dyns t)" using True len by (auto simp: di_def)
  show ?thesis
    using entry_dyn [OF ok di(2)] True di len by (auto simp: is_dyn_live_def Let_def split: option.splits)
next
  case False
  then show ?thesis by (auto simp: is_dyn_live_def Let_def str_abs_def)
qed

lemma free_dyn_frame:
  assumes "free_dyn i t = (Inr u, t')"
  shows "dyn_start t' = dyn_start t" "total_len t' = total_len t" "lit_floor t' = lit_floor t"
  using assms
  by (auto simp: free_dyn_def Let_def total_len_def split: if_splits option.splits)

lemma sweep_strings_law:
  assumes "str_ok t" and "distinct xs" and "\<And>j. j \<in> set xs \<Longrightarrow> j < REF_TOP"
  shows "\<exists>t'. sweep_strings marks xs n t = (Inr (n + card {j \<in> set xs. dead_string marks t j}), t') \<and> str_ok t' \<and>
    dyn_start t' = dyn_start t \<and> total_len t' = total_len t \<and>
    str_abs t' = (\<lambda>j. if j \<in> set xs \<and> dead_string marks t j then None else str_abs t j)"
  using assms
proof (induction xs arbitrary: n t)
  case Nil
  then show ?case by simp
next
  case (Cons k xs)
  have idx: "unat (of_nat k :: u16) = k" using Cons.prems(3) by (intro index_back) simp
  have live: "is_dyn_live t (of_nat k) \<longleftrightarrow> dyn_start t \<le> k \<and> str_abs t k \<noteq> None"
    using is_dyn_live_abs [OF Cons.prems(1), of "of_nat k"] idx by simp
  show ?case
  proof (cases "dead_string marks t k")
    case True
    obtain t1 where t1: "free_dyn (of_nat k) t = (Inr (), t1)" "str_ok t1" "str_abs t1 = (str_abs t)(k := None)"
      using free_dyn_law [OF Cons.prems(1), of "of_nat k"] True idx by (auto simp: dead_string_def)
    note frame = free_dyn_frame [OF t1(1)]
    have others: "dead_string marks t1 j \<longleftrightarrow> dead_string marks t j" if "j \<in> set xs" for j
      using that Cons.prems(2) frame t1(3) by (auto simp: dead_string_def)
    have sets: "{j \<in> set (k # xs). dead_string marks t j} = insert k {j \<in> set xs. dead_string marks t1 j}"
      using True others by auto
    obtain t' where t': "sweep_strings marks xs (n + 1) t1 =
          (Inr (n + 1 + card {j \<in> set xs. dead_string marks t1 j}), t')" "str_ok t'"
        "dyn_start t' = dyn_start t1" "total_len t' = total_len t1"
        "str_abs t' = (\<lambda>j. if j \<in> set xs \<and> dead_string marks t1 j then None else str_abs t1 j)"
      using Cons.IH [OF t1(2), of "n + 1"] Cons.prems(2,3) by auto
    have "sweep_strings marks (k # xs) n t = sweep_strings marks xs (n + 1) t1"
      using True live t1(1) by (simp add: Let_def dead_string_def)
    moreover have "card {j \<in> set (k # xs). dead_string marks t j} = Suc (card {j \<in> set xs. dead_string marks t1 j})"
      unfolding sets using Cons.prems(2) by (subst card_insert_disjoint) auto
    moreover have "str_abs t' = (\<lambda>j. if j \<in> set (k # xs) \<and> dead_string marks t j then None else str_abs t j)"
      unfolding t'(5) t1(3) using True others Cons.prems(2) by (auto simp: fun_eq_iff)
    ultimately show ?thesis using t' frame by simp
  next
    case False
    have "sweep_strings marks (k # xs) n t = sweep_strings marks xs n t"
      using False live by (auto simp: Let_def dead_string_def)
    moreover have "{j \<in> set (k # xs). dead_string marks t j} = {j \<in> set xs. dead_string marks t j}"
      using False by auto
    moreover have "(\<lambda>j. if j \<in> set (k # xs) \<and> dead_string marks t j then None else str_abs t j) =
        (\<lambda>j. if j \<in> set xs \<and> dead_string marks t j then None else str_abs t j)"
      using False by (auto simp: fun_eq_iff)
    ultimately show ?thesis using Cons.IH [OF Cons.prems(1), of n] Cons.prems(2,3) by simp
  qed
qed

lemma sweep_all_strings:
  assumes ok: "str_ok t"
  shows "\<exists>t'. sweep_strings marks [dyn_start t..<total_len t] n t = (Inr (n + card {j. dead_string marks t j}), t') \<and>
    str_ok t' \<and> dyn_start t' = dyn_start t \<and> total_len t' = total_len t \<and>
    str_abs t' = (\<lambda>j. if dead_string marks t j then None else str_abs t j)"
proof -
  have "dead_string marks t j \<Longrightarrow> j < total_len t" for j
    by (auto simp: dead_string_def str_abs_def total_len_def split: if_splits)
  then have eq: "j \<in> set [dyn_start t..<total_len t] \<and> dead_string marks t j \<longleftrightarrow> dead_string marks t j" for j
    by (auto simp: dead_string_def)
  show ?thesis
    using sweep_strings_law [OF ok, of "[dyn_start t..<total_len t]" marks n] str_ok_len(5) [OF ok]
    unfolding eq by (auto simp: total_len_def)
qed

end
