(* ===== verification/CollectorSafety.thy ===== *)
theory CollectorSafety
  imports SweepLaws
begin

text \<open>
  A whole collection: it returns, it keeps everything the roots reach, and it frees either
  nothing or exactly the rest.
\<close>

section \<open>Before and after the marking\<close>

lemma reserve_marks_law:
  "reserve_marks mem n v = Some w \<Longrightarrow> items w = items v"
  by (auto simp: reserve_marks_def bytes_reserve_def Let_def split: if_splits)

lemma reserve_marks_granted: "\<forall>n. mem n \<Longrightarrow> reserve_marks mem n v = None \<Longrightarrow> False"
  by (simp add: reserve_marks_def bytes_reserve_def Let_def split: if_splits)

lemma collectable_below:
  assumes "heap_ok H" and "collectable H r"
  shows "case r of GObject i \<Rightarrow> unat i < ob_slot_count (h_objects H) | GArray i \<Rightarrow> unat i < ah_slot_count (h_arrays H)
    | GString i \<Rightarrow> unat i < total_len (h_strings H)"
  using assms ob_count(2) ah_count(2) by (auto simp: collectable_def heap_ok_def split: gc_ref.splits)

lemma reserve_all_law:
  assumes "reserve_all_marks al H (gc_clear gc) = (ok, g)" and "heap_ok H"
  shows "same_roots gc g" "gc_work g = work_clear (gc_work gc)" "\<not> marked g r"
    "ok \<Longrightarrow> marks_ready H g" "\<forall>n. al U8Buf n \<Longrightarrow> ok"
proof -
  have empty: "items (obj_marks (gc_clear gc)) = []" "items (arr_marks (gc_clear gc)) = []"
      "items (str_marks (gc_clear gc)) = []" "gc_work (gc_clear gc) = work_clear (gc_work gc)"
      "same_roots gc (gc_clear gc)"
    by (simp_all add: gc_clear_def same_roots_def)
  have kept: "items (obj_marks g) = []" "items (arr_marks g) = []" "items (str_marks g) = []"
      "gc_work g = work_clear (gc_work gc)" "same_roots gc g"
    using assms(1) empty
    by (auto simp: reserve_all_marks_def Let_def same_roots_def dest!: reserve_marks_law split: option.splits)
  then show "same_roots gc g" "gc_work g = work_clear (gc_work gc)" "\<not> marked g r"
    by (simp_all add: marked_def is_marked_def split: gc_ref.split)
  show "ok" if "\<forall>n. al U8Buf n"
    using assms(1)
    by (auto simp: reserve_all_marks_def Let_def split: option.splits dest: reserve_marks_granted [OF that])
  show "marks_ready H g" if granted: ok
  proof -
    have bits: "bits_ok (obj_marks (gc_clear gc))" "bits_ok (arr_marks (gc_clear gc))" "bits_ok (str_marks (gc_clear gc))"
      using empty by (simp_all add: bits_ok_def)
    obtain o' a s where r:
        "reserve_marks (al U8Buf) (ob_slot_count (h_objects H)) (obj_marks (gc_clear gc)) = Some o'"
        "reserve_marks (al U8Buf) (ah_slot_count (h_arrays H)) (arr_marks (gc_clear gc)) = Some a"
        "reserve_marks (al U8Buf) (total_len (h_strings H)) (str_marks (gc_clear gc)) = Some s"
        "obj_marks g = o'" "arr_marks g = a" "str_marks g = s"
      using assms(1) granted by (auto simp: reserve_all_marks_def Let_def split: option.splits)
    have "room_for g x" if "collectable H x" for x
      using collectable_below [OF assms(2) that] reserve_marks_covers(1) [OF r(1) _ bits(1)]
        reserve_marks_covers(1) [OF r(2) _ bits(2)] reserve_marks_covers(1) [OF r(3) _ bits(3)] r(4-6)
      by (auto simp: room_for_def split: gc_ref.splits)
    then show ?thesis using kept(1-3) by (simp add: marks_ready_def bits_ok_def)
  qed
qed

lemma root_refs_same:
  "same_roots gc g \<Longrightarrow> root_refs stacks fs statics classes extra st g = root_refs stacks fs statics classes extra st gc"
  by (simp add: root_refs_def same_roots_def)

lemma mark_inv_start:
  assumes "marks_ready H g" and "\<And>r. \<not> marked g r" and "gc_work g = work_clear w"
  shows "mark_inv H (set rs) (g\<lparr>gc_work := push_all al rs (gc_work g)\<rparr>)"
proof -
  have "waiting (gc_work g) = []" "\<not> exhausted_work (gc_work g)" using assms(3) by (simp_all add: work_clear_def)
  moreover have "marked (g\<lparr>gc_work := x\<rparr>) r = marked g r" "room_for (g\<lparr>gc_work := x\<rparr>) r = room_for g r" for x r
    by (simp_all add: marked_def room_for_def split: gc_ref.split)
  ultimately show ?thesis
    using assms(1,2) push_all_law [of al rs "gc_work g"]
    by (auto simp: mark_inv_def marks_ready_def intro: reached.root)
qed

section \<open>What a collection frees\<close>

definition garbage :: "heaps \<Rightarrow> gc_ref set \<Rightarrow> gc_ref \<Rightarrow> bool" where
  "garbage H R r \<longleftrightarrow> \<not> reached H R r \<and>
     (case r of GObject i \<Rightarrow> ob_abs (h_objects H) (unat i) \<noteq> None
      | GArray i \<Rightarrow> ah_abs (h_arrays H) (unat i) \<noteq> None
      | GString i \<Rightarrow> dyn_start (h_strings H) \<le> unat i \<and> str_abs (h_strings H) (unat i) \<noteq> None)"

text \<open>The garbage is gone, with the buffers and table entries it owned; nothing else changed.\<close>

definition collected :: "heaps \<Rightarrow> gc_ref set \<Rightarrow> heaps \<Rightarrow> bool" where
  "collected H R H' \<longleftrightarrow>
     (let old = h_stores H; new = h_stores H';
          gone = (\<lambda>P b. \<exists>i. garbage H R (GObject i) \<and> owns P (h_objects H) i b)
      in (\<forall>i. ob_abs (h_objects H') (unat i) =
                (if garbage H R (GObject i) then None else ob_abs (h_objects H) (unat i))) \<and>
         (\<forall>i. ah_abs (h_arrays H') (unat i) =
                (if garbage H R (GArray i) then None else ah_abs (h_arrays H) (unat i))) \<and>
         (\<forall>i. str_abs (h_strings H') (unat i) =
                (if garbage H R (GString i) then None else str_abs (h_strings H) (unat i))) \<and>
         list_view new = (\<lambda>b. if gone list_class b then None else list_view old b) \<and>
         map_view new = (\<lambda>b. if gone map_class b then None else map_view old b) \<and>
         sb_view new = (\<lambda>b. if gone builder_class b then None else sb_view old b) \<and>
         (\<forall>i. if garbage H R (GObject i) then no_entries new i
              else get_lambda new i = get_lambda old i \<and> iter_get new i = iter_get old i \<and>
                get_exception_message new i = get_exception_message old i \<and>
                suppressed_list new i = suppressed_list old i \<and>
                get_exception_cause new i = get_exception_cause old i) \<and>
         boxed_cache_roots new = boxed_cache_roots old \<and>
         dyn_start (h_strings H') = dyn_start (h_strings H))"

lemma dead_garbage:
  assumes ok: "heap_ok H" and marks: "\<And>r. collectable H r \<Longrightarrow> marked g r \<longleftrightarrow> reached H R r"
  shows "dead_object (obj_marks g) (h_objects H) (unat i) \<longleftrightarrow> garbage H R (GObject i)"
    and "dead_array (arr_marks g) (h_arrays H) (unat i) \<longleftrightarrow> garbage H R (GArray i)"
    and "dead_string (str_marks g) (h_strings H) (unat i) \<longleftrightarrow> garbage H R (GString i)"
proof -
  show "dead_object (obj_marks g) (h_objects H) (unat i) \<longleftrightarrow> garbage H R (GObject i)"
    using marks [of "GObject i"] by (auto simp: dead_object_def garbage_def collectable_def marked_def)
  show "dead_array (arr_marks g) (h_arrays H) (unat i) \<longleftrightarrow> garbage H R (GArray i)"
    using marks [of "GArray i"] by (auto simp: dead_array_def garbage_def collectable_def marked_def)
  have "str_abs (h_strings H) (unat i) \<noteq> None \<Longrightarrow> collectable H (GString i)"
    using ok by (auto simp: heap_ok_def str_ok_def collectable_def str_abs_def total_len_def is_literal_def
        split: if_splits)
  then show "dead_string (str_marks g) (h_strings H) (unat i) \<longleftrightarrow> garbage H R (GString i)"
    using marks [of "GString i"] by (auto simp: dead_string_def garbage_def marked_def)
qed

lemma card_indices:
  fixes P :: "nat \<Rightarrow> bool"
  assumes "\<And>j. P j \<Longrightarrow> j < REF_TOP" and "\<And>i. P (unat i) \<longleftrightarrow> Q (f (i :: u16))" and "inj f"
  shows "card {j. P j} = card {r \<in> range f. Q r}"
proof -
  have "{r \<in> range f. Q r} = f ` {i. P (unat i)}" using assms(2) by auto
  moreover have "{j. P j} = unat ` {i :: u16. P (unat i)}"
  proof
    show "{j. P j} \<subseteq> unat ` {i :: u16. P (unat i)}"
    proof
      fix j assume "j \<in> {j. P j}"
      then have "unat (of_nat j :: u16) = j" "P j" using assms(1) index_back by auto
      then show "j \<in> unat ` {i :: u16. P (unat i)}" by (intro image_eqI [of _ _ "of_nat j"]) simp_all
    qed
  qed auto
  moreover have "card (f ` {i. P (unat i)}) = card {i :: u16. P (unat i)}"
    using assms(3) by (intro card_image) (simp add: inj_on_def)
  moreover have "card (unat ` {i :: u16. P (unat i)}) = card {i :: u16. P (unat i)}"
    by (intro card_image) (simp add: inj_on_def word_unat_eq_iff)
  ultimately show ?thesis by simp
qed

lemma all_refs: "(UNIV :: gc_ref set) = range GObject \<union> range GArray \<union> range GString"
proof -
  have "x \<in> range GObject \<union> range GArray \<union> range GString" for x by (cases x) auto
  then show ?thesis by blast
qed

lemma card_garbage:
  assumes ok: "heap_ok H" and marks: "\<And>r. collectable H r \<Longrightarrow> marked g r \<longleftrightarrow> reached H R r"
  shows "card {j. dead_object (obj_marks g) (h_objects H) j} + card {j. dead_array (arr_marks g) (h_arrays H) j} +
    card {j. dead_string (str_marks g) (h_strings H) j} = card {r. garbage H R r}"
proof -
  note dg = dead_garbage [OF assms]
  let ?G = "\<lambda>f. {r \<in> range f. garbage H R r}"
  have o': "card {j. dead_object (obj_marks g) (h_objects H) j} = card (?G GObject)"
    using ob_count ok dg(1)
    by (intro card_indices) (fastforce simp: dead_object_def heap_ok_def inj_on_def)+
  have a: "card {j. dead_array (arr_marks g) (h_arrays H) j} = card (?G GArray)"
    using ah_count ok dg(2)
    by (intro card_indices) (fastforce simp: dead_array_def heap_ok_def inj_on_def)+
  have "str_abs (h_strings H) j \<noteq> None \<Longrightarrow> j < REF_TOP" for j
    using ok by (auto simp: heap_ok_def str_ok_def str_abs_def split: if_splits)
  then have s: "card {j. dead_string (str_marks g) (h_strings H) j} = card (?G GString)"
    using dg(3) by (intro card_indices) (auto simp: dead_string_def inj_on_def)
  have fin: "finite (?G f)" for f :: "u16 \<Rightarrow> gc_ref" by (rule finite_subset [of _ "range f"]) auto
  have "{r. garbage H R r} = ?G GObject \<union> ?G GArray \<union> ?G GString" using all_refs by blast
  also have "card \<dots> = card (?G GObject) + card (?G GArray) + card (?G GString)"
    using fin by (subst card_Un_disjoint; (subst card_Un_disjoint)?) auto
  finally show ?thesis using o' a s by simp
qed

section \<open>The whole collection\<close>

lemma swept_collected:
  assumes ok: "heap_ok H" and marks: "\<And>r. collectable H r \<Longrightarrow> marked g r \<longleftrightarrow> reached H R r"
    and o': "ob_abs (h_objects H') =
      (\<lambda>j. if dead_object (obj_marks g) (h_objects H) j then None else ob_abs (h_objects H) j)"
    and a: "ah_abs (h_arrays H') = (\<lambda>j. if dead_array (arr_marks g) (h_arrays H) j then None else ah_abs (h_arrays H) j)"
    and s: "str_abs (h_strings H') =
      (\<lambda>j. if dead_string (str_marks g) (h_strings H) j then None else str_abs (h_strings H) j)"
    and start: "dyn_start (h_strings H') = dyn_start (h_strings H)"
    and st: "swept_stores (h_objects H) {i. dead_object (obj_marks g) (h_objects H) (unat i)} (h_stores H) (h_stores H')"
  shows "collected H R H'"
proof -
  note dg = dead_garbage [OF ok marks]
  have D: "i \<in> {i. dead_object (obj_marks g) (h_objects H) (unat i)} \<longleftrightarrow> garbage H R (GObject i)" for i
    using dg(1) marks by simp
  show ?thesis
    unfolding collected_def Let_def
    using st marks
    by (auto simp: o' a s dg start swept_stores_def D no_entries_def)
qed

lemma collected_entries:
  assumes ok: "heap_ok H" and col: "collected H R H'" and dead: "ob_abs (h_objects H') (unat i) = None"
  shows "no_entries (h_stores H') i"
proof (cases "garbage H R (GObject i)")
  case True
  then show ?thesis using col by (simp add: collected_def Let_def)
next
  case False
  then have "ob_abs (h_objects H) (unat i) = None" using col dead by (simp add: collected_def Let_def)
  then have "no_entries (h_stores H) i" using ok by (simp add: heap_ok_def)
  then show ?thesis using col False by (simp add: collected_def Let_def no_entries_def)
qed

lemma sweep_all_law:
  assumes ok: "heap_ok H" and marks: "\<And>r. collectable H r \<Longrightarrow> marked g r \<longleftrightarrow> reached H R r"
  shows "\<exists>H'. sweep_all (H, g) = (Inr (card {r. garbage H R r}), (H', g)) \<and> heap_ok H' \<and> collected H R H'"
proof -
  note parts = ok [unfolded heap_ok_def]
  define no na ns where "no = card {j. dead_object (obj_marks g) (h_objects H) j}"
    and "na = card {j. dead_array (arr_marks g) (h_arrays H) j}"
    and "ns = card {j. dead_string (str_marks g) (h_strings H) j}"
  obtain ob st where o': "sweep_objects (obj_marks g) (0, h_objects H, h_stores H) = (no, ob, st)" "ob_ok ob"
      "ob_abs ob = (\<lambda>j. if dead_object (obj_marks g) (h_objects H) j then None else ob_abs (h_objects H) j)"
      "swept_stores (h_objects H) {i. dead_object (obj_marks g) (h_objects H) (unat i)} (h_stores H) st"
    using sweep_objects_law [of "h_objects H" "h_stores H" "obj_marks g" 0] parts by (auto simp: no_def)
  obtain ah where a: "sweep_arrays (arr_marks g) (no, h_arrays H) = (no + na, ah)" "ah_ok ah"
      "ah_abs ah = (\<lambda>j. if dead_array (arr_marks g) (h_arrays H) j then None else ah_abs (h_arrays H) j)"
    using sweep_arrays_law [of "h_arrays H" "arr_marks g" no] parts by (auto simp: na_def)
  obtain t where s: "sweep_strings (str_marks g) [dyn_start (h_strings H)..<total_len (h_strings H)] (no + na) (h_strings H) =
        (Inr (no + na + ns), t)" "str_ok t" "dyn_start t = dyn_start (h_strings H)"
      "str_abs t = (\<lambda>j. if dead_string (str_marks g) (h_strings H) j then None else str_abs (h_strings H) j)"
    using sweep_all_strings [of "h_strings H" "str_marks g" "no + na"] parts by (auto simp: ns_def)
  define H' where "H' = H\<lparr>h_objects := ob, h_stores := st, h_arrays := ah, h_strings := t\<rparr>"
  have "sweep_all (H, g) = (Inr (no + na + ns), (H', g))"
    using o'(1) a(1) s(1) by (simp add: sweep_all_def Let_def H'_def)
  moreover have "no + na + ns = card {r. garbage H R r}"
    unfolding no_def na_def ns_def by (rule card_garbage [OF ok marks])
  moreover have col: "collected H R H'"
    by (rule swept_collected [OF ok marks]) (use o' a s in \<open>simp_all add: H'_def\<close>)
  moreover have "heap_ok H'"
    using o' a s collected_entries [OF ok col] by (simp add: heap_ok_def H'_def swept_stores_def)
  ultimately show ?thesis by simp
qed

lemma compact_all_law:
  assumes ok: "heap_ok H"
  shows "\<exists>H' cap. compact_all al (H, g) = (Inr (), (H', g\<lparr>compact_cap := cap\<rparr>)) \<and> heap_ok H' \<and>
    ob_abs (h_objects H') = ob_abs (h_objects H) \<and> ah_abs (h_arrays H') = ah_abs (h_arrays H) \<and>
    h_strings H' = h_strings H \<and> h_stores H' = h_stores H"
proof -
  obtain cap ah where a: "compact_arena al (compact_cap g) (h_arrays H) = (Inr cap, ah)" "ah_ok ah"
      "ah_abs ah = ah_abs (h_arrays H)"
    using compact_law [of "h_arrays H" al "compact_cap g"] ok unfolding heap_ok_def by blast
  obtain cap' ob where o': "compact_fields_arena al cap (h_objects H) = (Inr cap', ob)" "ob_ok ob"
      "ob_abs ob = ob_abs (h_objects H)"
    using compact_fields_law [of "h_objects H" al cap] ok unfolding heap_ok_def by blast
  have "compact_all al (H, g) = (Inr (), (H\<lparr>h_arrays := ah, h_objects := ob\<rparr>, g\<lparr>compact_cap := cap'\<rparr>))"
    using a(1) o'(1) by (simp add: compact_all_def)
  then show ?thesis using ok a o' by (auto simp: heap_ok_def)
qed

lemma collected_cong:
  assumes "collected H R H1" and "ob_abs (h_objects H2) = ob_abs (h_objects H1)"
    and "ah_abs (h_arrays H2) = ah_abs (h_arrays H1)" and "h_strings H2 = h_strings H1" and "h_stores H2 = h_stores H1"
  shows "collected H R H2"
  using assms by (simp add: collected_def Let_def)

text \<open>The frames, shadow roots and counters stay as they were.\<close>

definition kept_roots :: "gc_state \<Rightarrow> gc_state \<Rightarrow> bool" where
  "kept_roots g g' \<longleftrightarrow> parked_frames g' = parked_frames g \<and> shadow_roots g' = shadow_roots g \<and>
     gc_alloc_count g' = gc_alloc_count g \<and> need_gc g' = need_gc g"

lemma collect_law:
  assumes ok: "heap_ok H" and R: "R = set (root_refs stacks frames statics classes extra (h_stores H) gc)"
  shows "\<exists>n H' gc'. collect al stacks frames statics classes extra (H, gc) = Some (Inr n, (H', gc')) \<and>
    heap_ok H' \<and> kept_roots gc gc' \<and>
    (collected H R H' \<and> n = card {r. garbage H R r} \<or>
     H' = H \<and> n = 0 \<and> \<not> (\<forall>n. al U8Buf n \<and> al TableBuf n))"
proof -
  obtain granted g where g: "reserve_all_marks al H (gc_clear gc) = (granted, g)" by fastforce
  note rl = reserve_all_law [OF g ok]
  show ?thesis
  proof (cases granted)
    case False
    then have "collect al stacks frames statics classes extra (H, gc) = Some (Inr 0, (H, g))"
      using g by (simp add: collect_def)
    moreover have "\<not> (\<forall>n. al U8Buf n \<and> al TableBuf n)" using rl(5) False by blast
    ultimately show ?thesis using ok rl(1) by (simp add: kept_roots_def same_roots_def)
  next
    case True
    let ?rs = "root_refs stacks frames statics classes extra (h_stores H) g"
    let ?g = "g\<lparr>gc_work := push_all al ?rs (gc_work g)\<rparr>"
    have RS: "set ?rs = R" using R root_refs_same [OF rl(1)] by simp
    have inv: "mark_inv H R ?g" unfolding RS [symmetric] by (rule mark_inv_start [OF rl(4) [OF True] rl(3) rl(2)])
    obtain g2 where g2: "mark_loop al H ?g = Some (Inr (), g2)" "mark_inv H R g2" "waiting (gc_work g2) = []"
        "same_roots ?g g2" "(\<forall>n. al TableBuf n) \<longrightarrow> exhausted_work (gc_work g2) = exhausted_work (gc_work ?g)"
      using mark_loop_law [OF ok inv] by blast
    have kept: "kept_roots gc (g2\<lparr>compact_cap := cap\<rparr>)" "kept_roots gc g2" for cap
      using g2(4) rl(1) by (simp_all add: kept_roots_def same_roots_def)
    show ?thesis
    proof (cases "exhausted_work (gc_work g2)")
      case True
      have "collect al stacks frames statics classes extra (H, gc) = Some (Inr 0, (H, g2))"
        using g g2(1) \<open>granted\<close> True by (simp add: collect_def)
      moreover have "\<not> (\<forall>n. al U8Buf n \<and> al TableBuf n)"
      proof
        assume all: "\<forall>n. al U8Buf n \<and> al TableBuf n"
        then have "exhausted_work (gc_work ?g) = exhausted_work (gc_work g)" by (simp add: push_all_granted)
        then show False using g2(5) all True rl(2) by (simp add: work_clear_def)
      qed
      ultimately show ?thesis using ok kept(2) by simp
    next
      case False
      have marks: "marked g2 r \<longleftrightarrow> reached H R r" if "collectable H r" for r
        using that g2(2) reached_marked [OF ok g2(2,3) False] by (auto simp: mark_inv_def)
      obtain H1 where H1: "sweep_all (H, g2) = (Inr (card {r. garbage H R r}), (H1, g2))" "heap_ok H1"
          "collected H R H1"
        using sweep_all_law [OF ok marks] by blast
      obtain H2 cap where H2: "compact_all al (H1, g2) = (Inr (), (H2, g2\<lparr>compact_cap := cap\<rparr>))" "heap_ok H2"
          "ob_abs (h_objects H2) = ob_abs (h_objects H1)" "ah_abs (h_arrays H2) = ah_abs (h_arrays H1)"
          "h_strings H2 = h_strings H1" "h_stores H2 = h_stores H1"
        using compact_all_law [OF H1(2)] by blast
      have "collect al stacks frames statics classes extra (H, gc) =
          Some (Inr (card {r. garbage H R r}), (H2, g2\<lparr>compact_cap := cap\<rparr>))"
        using g g2(1) \<open>granted\<close> False H1(1) H2(1) by (simp add: collect_def)
      then show ?thesis using H2(2) kept(1) collected_cong [OF H1(3) H2(3-6)] by auto
    qed
  qed
qed

section \<open>The graph afterwards\<close>

text \<open>No buffer belongs to two live objects.\<close>

definition sole_owners :: "heaps \<Rightarrow> bool" where
  "sole_owners H \<longleftrightarrow>
     (\<forall>P \<in> {list_class, map_class, builder_class}. \<forall>i j b. owns P (h_objects H) i b \<and> owns P (h_objects H) j b \<longrightarrow> i = j)"

definition unchanged :: "heaps \<Rightarrow> heaps \<Rightarrow> gc_ref \<Rightarrow> bool" where
  "unchanged H H' r \<longleftrightarrow>
     (case r of
        GObject i \<Rightarrow>
          ob_abs (h_objects H') (unat i) = ob_abs (h_objects H) (unat i) \<and>
          (\<forall>b. owns list_class (h_objects H) i b \<longrightarrow> list_view (h_stores H') b = list_view (h_stores H) b) \<and>
          (\<forall>b. owns map_class (h_objects H) i b \<longrightarrow> map_view (h_stores H') b = map_view (h_stores H) b) \<and>
          (\<forall>b. owns builder_class (h_objects H) i b \<longrightarrow> sb_view (h_stores H') b = sb_view (h_stores H) b) \<and>
          get_lambda (h_stores H') i = get_lambda (h_stores H) i \<and> iter_get (h_stores H') i = iter_get (h_stores H) i \<and>
          get_exception_message (h_stores H') i = get_exception_message (h_stores H) i \<and>
          suppressed_list (h_stores H') i = suppressed_list (h_stores H) i \<and>
          get_exception_cause (h_stores H') i = get_exception_cause (h_stores H) i
      | GArray i \<Rightarrow> ah_abs (h_arrays H') (unat i) = ah_abs (h_arrays H) (unat i)
      | GString i \<Rightarrow> str_abs (h_strings H') (unat i) = str_abs (h_strings H) (unat i))"

lemma kept_buffer:
  assumes sole: "sole_owners H" and P: "P \<in> {list_class, map_class, builder_class}"
    and reach: "reached H R (GObject i)" and own: "owns P (h_objects H) i b"
  shows "\<not> (\<exists>j. garbage H R (GObject j) \<and> owns P (h_objects H) j b)"
  using assms unfolding sole_owners_def garbage_def by blast

lemma collected_unchanged:
  assumes col: "collected H R H'" and sole: "sole_owners H" and reach: "reached H R r"
  shows "unchanged H H' r"
proof (cases r)
  case (GObject i)
  have g: "\<not> garbage H R (GObject i)" using reach GObject by (simp add: garbage_def)
  note c = col [unfolded collected_def Let_def]
  note kb = kept_buffer [OF sole _ reach [unfolded GObject]]
  have lv: "list_view (h_stores H') = (\<lambda>b. if \<exists>j. garbage H R (GObject j) \<and> owns list_class (h_objects H) j b
        then None else list_view (h_stores H) b)"
    and mv: "map_view (h_stores H') = (\<lambda>b. if \<exists>j. garbage H R (GObject j) \<and> owns map_class (h_objects H) j b
        then None else map_view (h_stores H) b)"
    and sv: "sb_view (h_stores H') = (\<lambda>b. if \<exists>j. garbage H R (GObject j) \<and> owns builder_class (h_objects H) j b
        then None else sb_view (h_stores H) b)"
    using c by blast+
  have "owns list_class (h_objects H) i b \<longrightarrow> list_view (h_stores H') b = list_view (h_stores H) b"
    "owns map_class (h_objects H) i b \<longrightarrow> map_view (h_stores H') b = map_view (h_stores H) b"
    "owns builder_class (h_objects H) i b \<longrightarrow> sb_view (h_stores H') b = sb_view (h_stores H) b" for b
    by (rule impI, subst lv mv sv, rule if_not_P, rule kb, simp, assumption)+
  then show ?thesis using c g GObject by (simp add: unchanged_def)
next
  case (GArray i)
  then show ?thesis using reach col by (simp add: unchanged_def collected_def Let_def garbage_def)
next
  case (GString i)
  then show ?thesis using reach col by (simp add: unchanged_def collected_def Let_def garbage_def)
qed

lemma unchanged_edges:
  assumes "unchanged H H' r"
  shows "points_to H' r x \<longleftrightarrow> points_to H r x"
proof (cases r)
  case (GObject i)
  note u = assms [unfolded GObject unchanged_def gc_ref.case]
  have l: "list_view (h_stores H') b = list_view (h_stores H) b"
    if "ob_abs (h_objects H) (unat i) = Some (java_util_ArrayList, fs)" "field_buf fs = Some b" for fs b
    using u that by (simp add: owns_def)
  have m: "map_view (h_stores H') b = map_view (h_stores H) b"
    if "ob_abs (h_objects H) (unat i) = Some (cls, fs)" "owns_map_buf (Some cls)" "field_buf fs = Some b" for cls fs b
    using u that by (simp add: owns_def)
  show ?thesis
    unfolding GObject points_to_object using u l m by (smt (verit))
next
  case (GArray i)
  then show ?thesis using assms by (simp add: points_to_array unchanged_def)
next
  case (GString i)
  then show ?thesis by (auto elim: points_to_stringE)
qed

lemma unchanged_reached:
  assumes "\<And>r. reached H R r \<Longrightarrow> unchanged H H' r"
  shows "reached H' R r \<longleftrightarrow> reached H R r"
proof
  show "reached H R r" if "reached H' R r"
    using that
    by (induction rule: reached.induct) (auto intro: reached.intros simp: unchanged_edges [OF assms])
  show "reached H' R r" if "reached H R r"
    using that
    by (induction rule: reached.induct) (auto intro: reached.intros simp: unchanged_edges [OF assms])
qed

lemma sole_owners_kept:
  assumes "collected H R H'" and "sole_owners H"
  shows "sole_owners H'"
proof -
  have "owns P (h_objects H) i b" if "owns P (h_objects H') i b" for P i b
    using assms(1) that by (auto simp: owns_def collected_def Let_def split: if_splits)
  then show ?thesis using assms(2) unfolding sole_owners_def by blast
qed

text \<open>The roots of \<open>collect_garbage\<close>: its own stack among the parked ones changes nothing.\<close>

definition all_roots ::
  "(nat \<Rightarrow> frame list) \<Rightarrow> frame list \<Rightarrow> static_store \<Rightarrow> class_objects \<Rightarrow> jvm_value list \<Rightarrow> stores \<Rightarrow> gc_state \<Rightarrow> gc_ref set"
  where
  "all_roots stacks frames statics classes extra st gc =
     set (root_refs stacks frames statics classes extra st gc)"

lemma remove_at_set: "i < length xs \<Longrightarrow> insert (xs ! i) (set (remove_at i xs)) = set xs"
proof -
  assume i: "i < length xs"
  have "set (take i xs @ xs ! i # drop (i + 1) xs) = set xs" using id_take_nth_drop [OF i] by simp
  then show ?thesis by (auto simp: remove_at_def)
qed

lemma unregister_law:
  assumes "unregister_frames p gc = (b, g)"
  shows "shadow_roots g = shadow_roots gc" "set (parked_frames gc) = (if b then insert p else id) (set (parked_frames g))"
    "parked_frames (register_frames p g) = parked_frames g @ [p]"
proof -
  let ?xs = "parked_frames gc"
  show "set ?xs = (if b then insert p else id) (set (parked_frames g))"
  proof (cases "position (\<lambda>q. q = p) (rev ?xs)")
    case (Some i)
    then have i: "i < length ?xs" "rev ?xs ! i = p" using position_Some [OF Some] by simp_all
    define k where "k = length ?xs - 1 - i"
    have k: "?xs ! k = p" "k < length ?xs" using i by (simp_all add: rev_nth k_def)
    have "b" "parked_frames g = remove_at k ?xs" using assms Some by (auto simp: unregister_frames_def k_def)
    then show ?thesis using remove_at_set [OF k(2)] k(1) by simp
  qed (use assms in \<open>auto simp: unregister_frames_def\<close>)
qed (use assms in \<open>auto simp: unregister_frames_def register_frames_def split: option.splits\<close>)

lemma all_roots_unregistered:
  assumes "unregister_frames p gc = (b, g)" and "stacks p = frames"
  shows "all_roots stacks frames statics classes extra st g = all_roots stacks frames statics classes extra st gc"
proof -
  have "set (concat (map (\<lambda>q. frame_refs (stacks q)) (parked_frames gc))) \<union> set (frame_refs frames) =
      set (concat (map (\<lambda>q. frame_refs (stacks q)) (parked_frames g))) \<union> set (frame_refs frames)"
    using unregister_law(2) [OF assms(1)] assms(2) by (cases b) auto
  then show ?thesis using unregister_law(1) [OF assms(1)] unfolding all_roots_def root_refs_def set_append by auto
qed

lemma collect_garbage_law:
  assumes ok: "heap_ok H" and own: "stacks own = frames"
    and R: "R = all_roots stacks frames statics classes extra (h_stores H) gc"
  shows "\<exists>n H' gc'. collect_garbage al stacks own frames statics classes extra (H, gc) = Some (Inr n, (H', gc')) \<and>
    heap_ok H' \<and> set (parked_frames gc') = set (parked_frames gc) \<and> shadow_roots gc' = shadow_roots gc \<and>
    gc_alloc_count gc' = 0 \<and>
    (collected H R H' \<and> n = card {r. garbage H R r} \<or> H' = H \<and> n = 0 \<and> \<not> (\<forall>n. al U8Buf n \<and> al TableBuf n))"
proof -
  obtain b g where g: "unregister_frames own gc = (b, g)" by fastforce
  have R': "R = set (root_refs stacks frames statics classes extra (h_stores H) g)"
    using R all_roots_unregistered [OF g, of stacks frames] own by (simp add: all_roots_def)
  obtain n H' g' where c: "collect al stacks frames statics classes extra (H, g) = Some (Inr n, (H', g'))" "heap_ok H'"
      "kept_roots g g'"
      "collected H R H' \<and> n = card {r. garbage H R r} \<or> H' = H \<and> n = 0 \<and> \<not> (\<forall>n. al U8Buf n \<and> al TableBuf n)"
    using collect_law [OF ok R'] by blast
  let ?g = "g'\<lparr>gc_alloc_count := 0\<rparr>"
  have "collect_garbage al stacks own frames statics classes extra (H, gc) =
      Some (Inr n, (H', if b then register_frames own ?g else ?g))"
    using g c(1) by (simp add: collect_garbage_def gc_cycle_def)
  moreover have "set (parked_frames (if b then register_frames own ?g else ?g)) = set (parked_frames gc)"
      "shadow_roots (if b then register_frames own ?g else ?g) = shadow_roots gc"
      "gc_alloc_count (if b then register_frames own ?g else ?g) = 0"
    using unregister_law(1,2) [OF g] c(3) by (auto simp: kept_roots_def register_frames_def)
  ultimately show ?thesis using c(2,4) by blast
qed

lemma collect_garbage_result:
  assumes "heap_ok H" and own: "stacks own = frames"
    and run: "collect_garbage al stacks own frames statics classes extra (H, gc) = Some (Inr n, (H', gc'))"
    and "R = all_roots stacks frames statics classes extra (h_stores H) gc"
  shows "collected H R H' \<and> n = card {r. garbage H R r} \<or> H' = H \<and> n = 0 \<and> \<not> (\<forall>n. al U8Buf n \<and> al TableBuf n)"
proof -
  obtain m K g where "collect_garbage al stacks own frames statics classes extra (H, gc) = Some (Inr m, (K, g))"
      "collected H R K \<and> m = card {r. garbage H R r} \<or> K = H \<and> m = 0 \<and> \<not> (\<forall>n. al U8Buf n \<and> al TableBuf n)"
    using collect_garbage_law [where stacks = stacks and own = own and frames = frames and al = al,
        OF assms(1) own assms(4)] by blast
  then show ?thesis using run by simp
qed

section \<open>Properties\<close>

text \<open>A heap of three objects: the first refers to the second, nothing to the third.\<close>

definition demo_heap :: heaps where
  "demo_heap =
     \<lparr>h_objects = \<lparr>objects = \<lparr>chunk_shift = 2,
          chunks = [[Some \<lparr>fields_off = 0, obj_class = 0, field_count = 1, fields_cap = 2\<rparr>,
                     Some \<lparr>fields_off = 2, obj_class = 0, field_count = 1, fields_cap = 2\<rparr>,
                     Some \<lparr>fields_off = 0, obj_class = 0, field_count = 0, fields_cap = 0\<rparr>, None]], cs_len = 4\<rparr>,
        fields_arena = [SObjectRef 1, SNull, SInt 7, SNull], fields_arena_cap = 8, ob_first_free = 3,
        class_table = [''A''], class_table_cap = 4, ob_alloc_events = 0\<rparr>,
      h_stores = stores_new, h_arrays = ah_new 2 2, h_strings = st_new 2\<rparr>"

definition demo_stack :: "frame list" where
  "demo_stack =
     [\<lparr>class_idx = 0, method_idx = 0, pc = 0, inst_pc = 0, locals = [VObjectRef 0], stack = [], locals_cap = 1,
       stack_cap = 0, box_return = 0, monitor = None\<rparr>]"

abbreviation "demo_roots \<equiv> all_roots (\<lambda>_. demo_stack) demo_stack statics_new class_objects_new [] stores_new gc_new"

lemma all_less_34:
  "(\<forall>k<3::nat. P k) \<longleftrightarrow> P 0 \<and> P 1 \<and> P 2" "(\<forall>k<4::nat. P k) \<longleftrightarrow> P 0 \<and> P 1 \<and> P 2 \<and> P 3"
  by (auto simp: numeral_eq_Suc All_less_Suc)

lemma demo_stores: "h_stores demo_heap = stores_new"
  by (simp add: demo_heap_def)

lemma demo_objects_ok: "ob_ok (h_objects demo_heap)"
  by (simp add: ob_ok_def ob_inv_def demo_heap_def cs_ok_def chunk_size_def cs_iter_def REF_TOP_def
      good_object_def span_slots_def slice_def spans_ok_def spans_apart_def spans_within_def
      field_spans_def field_span_def All_less_Suc all_less_2 all_less_34)

lemma demo_objects:
  "ob_abs (h_objects demo_heap) j =
     (if j = 0 then Some (''A'', [SObjectRef 1]) else if j = 1 then Some (''A'', [SInt 7])
      else if j = 2 then Some (''A'', []) else None)"
proof -
  consider "j = 0" | "j = 1" | "j = 2" | "j = 3" | "4 \<le> j" by linarith
  then show ?thesis
    by cases (simp_all add: demo_heap_def ob_abs_def ob_slot_def cs_get_def split_index_def chunk_size_def
        obj_view_def span_slots_def slice_def)
qed

lemma demo_entries: "no_entries stores_new i"
  by (simp add: no_entries_def stores_new_def vec_new_def get_lambda_def iter_get_def get_exception_message_def
      suppressed_list_def get_exception_cause_def find_key_def)

lemma demo_heap_ok: "heap_ok demo_heap"
  using demo_objects_ok demo_entries
  by (simp add: heap_ok_def stores_new_ok st_new_ok ah_new_ok) (simp add: demo_heap_def stores_new_ok st_new_ok ah_new_ok)

lemma demo_sole_owners: "sole_owners demo_heap"
  by (auto simp: sole_owners_def owns_def demo_objects java_util_ArrayList_def java_lang_StringBuilder_def
      owns_map_buf_def split: if_splits)

text \<open>
  C3: A collection returns, whatever the state of the heaps' contents, the roots and the
  allocator: the marking loop ends, no slice is out of bounds, and every heap is sound
  afterwards. The stack the executor runs is still rooted and the pacing counter is zero.
\<close>

theorem collect_garbage_ends:
  assumes "heap_ok H" and "stacks own = frames"
  shows "\<exists>n H' gc'. collect_garbage al stacks own frames statics classes extra (H, gc) = Some (Inr n, (H', gc')) \<and>
    heap_ok H' \<and> set (parked_frames gc') = set (parked_frames gc) \<and> shadow_roots gc' = shadow_roots gc \<and>
    gc_alloc_count gc' = 0"
  using collect_garbage_law [where stacks = stacks and own = own and frames = frames, OF assms refl] by blast

theorem collect_garbage_ends_witness:
  "\<exists>n H' gc'. collect_garbage (\<lambda>k n. n < 100) (\<lambda>_. demo_stack) 0 demo_stack statics_new class_objects_new []
     (demo_heap, gc_new) = Some (Inr n, (H', gc')) \<and> gc_alloc_count gc' = 0"
  using collect_garbage_ends [OF demo_heap_ok, of "\<lambda>_. demo_stack" 0 demo_stack] by fastforce

text \<open>
  C1: A collection never touches what the program can still reach. From the frames of every
  registered stack, the shadow roots, the statics, the class objects, the box cache and the
  handler's roots, along fields, elements, the contents of lists and maps, and the side
  tables: every entry reached keeps its contents, its buffer and its table entries, and refers
  to the same entries as before. Buffers keep having one owner.
\<close>

theorem collect_keeps_reachable:
  assumes "heap_ok H" and "sole_owners H" and "stacks own = frames"
    and "collect_garbage al stacks own frames statics classes extra (H, gc) = Some (Inr n, (H', gc'))"
    and "reached H (all_roots stacks frames statics classes extra (h_stores H) gc) r"
  shows "unchanged H H' r \<and> (\<forall>r'. points_to H' r r' \<longleftrightarrow> points_to H r r') \<and> sole_owners H'"
proof -
  let ?R = "all_roots stacks frames statics classes extra (h_stores H) gc"
  have "collected H ?R H' \<or> H' = H"
    using collect_garbage_result [where stacks = stacks, OF assms(1,3,4) refl] by blast
  then show ?thesis
  proof
    assume col: "collected H ?R H'"
    have u: "unchanged H H' r" by (rule collected_unchanged [OF col assms(2,5)])
    then show ?thesis using unchanged_edges [OF u] sole_owners_kept [OF col assms(2)] by blast
  next
    assume "H' = H"
    then show ?thesis using assms(2) by (auto simp: unchanged_def split: gc_ref.split)
  qed
qed

theorem collect_keeps_reachable_witness:
  "\<exists>n H' gc'. collect_garbage (\<lambda>k n. n < 100) (\<lambda>_. demo_stack) 0 demo_stack statics_new class_objects_new []
     (demo_heap, gc_new) = Some (Inr n, (H', gc')) \<and> ob_abs (h_objects H') 1 = Some (''A'', [SInt 7])"
proof -
  obtain n H' gc' where run: "collect_garbage (\<lambda>k n. n < 100) (\<lambda>_. demo_stack) 0 demo_stack statics_new
      class_objects_new [] (demo_heap, gc_new) = Some (Inr n, (H', gc'))"
    using collect_garbage_law [OF demo_heap_ok, of "\<lambda>_. demo_stack" 0 demo_stack] by fastforce
  have root: "reached demo_heap demo_roots (GObject 0)"
    by (rule reached.root) (simp add: all_roots_def root_refs_def frame_refs_def demo_stack_def value_refs_def
        List.map_filter_def)
  have "points_to demo_heap (GObject 0) (GObject 1)"
    by (rule points_to.field [where s = "SObjectRef 1" and fs = "[SObjectRef 1]"]) (simp_all add: demo_objects)
  then have "reached demo_heap demo_roots (GObject 1)" by (rule reached.edge [OF root])
  then have "unchanged demo_heap H' (GObject 1)"
    using collect_keeps_reachable [where stacks = "\<lambda>_. demo_stack", OF demo_heap_ok demo_sole_owners refl run]
    by (simp add: demo_heap_def)
  then show ?thesis using run by (simp add: unchanged_def demo_objects)
qed

text \<open>
  C2: A collection frees all garbage. When the bitmaps and the mark stack get the memory they
  ask for, every live object, array or dynamic string that the roots do not reach is freed,
  none is left, and the result counts exactly the entries freed.
\<close>

theorem collect_frees_garbage:
  assumes "heap_ok H" and "sole_owners H" and "stacks own = frames" and "\<And>n. al U8Buf n \<and> al TableBuf n"
    and "collect_garbage al stacks own frames statics classes extra (H, gc) = Some (Inr n, (H', gc'))"
    and "R = all_roots stacks frames statics classes extra (h_stores H) gc"
  shows "n = card {r. garbage H R r} \<and> (\<forall>r. \<not> garbage H' R r)"
proof -
  have col: "collected H R H'" and n: "n = card {r. garbage H R r}"
    using collect_garbage_result [where stacks = stacks, OF assms(1,3,5,6)] assms(4) by blast+
  have reach: "reached H' R r \<longleftrightarrow> reached H R r" for r
    by (rule unchanged_reached) (rule collected_unchanged [OF col assms(2)])
  have "\<not> garbage H' R r" for r
    using col unfolding garbage_def [of H'] reach
    by (cases r) (auto simp: collected_def Let_def garbage_def split: if_splits)
  then show ?thesis using n by blast
qed

lemma demo_reached: "reached demo_heap demo_roots r \<Longrightarrow> r \<in> {GObject 0, GObject 1}"
proof (induction rule: reached.induct)
  case (root r)
  then show ?case
    by (simp add: all_roots_def root_refs_def frame_refs_def demo_stack_def value_refs_def List.map_filter_def
        gc_new_def statics_new_def class_objects_new_def class_refs_def stores_new_def boxed_cache_roots_def vec_new_def)
next
  case (edge r r')
  then show ?case
    using demo_entries [unfolded no_entries_def]
    by (auto simp: points_to_object demo_objects demo_stores java_util_ArrayList_def owns_map_buf_def)
qed

theorem collect_frees_garbage_witness:
  "\<exists>n H' gc'. collect_garbage (\<lambda>k n. True) (\<lambda>_. demo_stack) 0 demo_stack statics_new class_objects_new []
     (demo_heap, gc_new) = Some (Inr n, (H', gc')) \<and> n = card {r. garbage demo_heap demo_roots r} \<and>
     garbage demo_heap demo_roots (GObject 2)"
proof -
  obtain n H' gc' where run: "collect_garbage (\<lambda>k n. True) (\<lambda>_. demo_stack) 0 demo_stack statics_new
      class_objects_new [] (demo_heap, gc_new) = Some (Inr n, (H', gc'))"
    using collect_garbage_law [OF demo_heap_ok, of "\<lambda>_. demo_stack" 0 demo_stack] by fastforce
  have "garbage demo_heap demo_roots (GObject 2)"
    using demo_reached [of "GObject 2"] by (auto simp: garbage_def demo_objects)
  then show ?thesis
    using collect_frees_garbage [where stacks = "\<lambda>_. demo_stack", OF demo_heap_ok demo_sole_owners refl _ run refl] run
    by (simp add: demo_heap_def)
qed

end
