(* ===== verification/Heap4.thy ===== *)
theory Heap4
  imports Prelude
begin

text \<open>
  The allocator of the simulator, \<open>crates/heap4/src/lib.rs\<close>: FreeRTOS \<open>heap_4\<close> with the block
  headers inside the arena, at the widths of the 32-bit device. Offsets are relative to the
  base of the arena; the arena is a memory of 32-bit words, at a quarter of their byte offset
  (every offset a caller may pass to \<open>free\<close> is a multiple of eight). A loop that would run
  forever on a corrupt free list has no result. The counters wrap, as in a release build.
\<close>

definition HEAP_STRUCT_SIZE :: u32 where "HEAP_STRUCT_SIZE = 8"
definition MIN_BLOCK_SIZE :: u32 where "MIN_BLOCK_SIZE = 16"
definition ALLOC_BIT :: u32 where "ALLOC_BIT = 0x80000000"
definition NONE :: u32 where "NONE = 0xFFFFFFFF"
definition START :: u32 where "START = 0xFFFFFFFE"

record heap_stats =
  hs_free_bytes :: u32
  hs_min_ever_free_bytes :: u32
  hs_largest_free_block :: u32
  hs_free_blocks :: u32
  hs_successful_allocs :: u32
  hs_successful_frees :: u32

record heap4 =
  h4_words :: "nat \<Rightarrow> u32"
  h4_size :: u32
  start_next :: u32
  end_off :: u32
  free_bytes :: u32
  min_ever_free :: u32
  h4_allocs :: u32
  h4_frees :: u32

section \<open>Headers\<close>

definition next_free :: "heap4 \<Rightarrow> u32 \<Rightarrow> u32" where
  "next_free h off = h4_words h (unat off div 4)"

definition set_next :: "u32 \<Rightarrow> u32 \<Rightarrow> heap4 \<Rightarrow> heap4" where
  "set_next off v h = h\<lparr>h4_words := (h4_words h)(unat off div 4 := v)\<rparr>"

definition bsize :: "heap4 \<Rightarrow> u32 \<Rightarrow> u32" where
  "bsize h off = h4_words h (unat off div 4 + 1)"

definition set_bsize :: "u32 \<Rightarrow> u32 \<Rightarrow> heap4 \<Rightarrow> heap4" where
  "set_bsize off v h = h\<lparr>h4_words := (h4_words h)(unat off div 4 + 1 := v)\<rparr>"

definition next_of :: "heap4 \<Rightarrow> u32 \<Rightarrow> u32" where
  "next_of h iter = (if iter = START then start_next h else next_free h iter)"

definition set_next_of :: "u32 \<Rightarrow> u32 \<Rightarrow> heap4 \<Rightarrow> heap4" where
  "set_next_of iter v h = (if iter = START then h\<lparr>start_next := v\<rparr> else set_next iter v h)"

section \<open>Operations\<close>

text \<open>\<open>init\<close>, over an arena at address \<open>base\<close> with contents \<open>w\<close>; \<open>None\<close> when an assertion fails.\<close>

definition heap4_init :: "nat \<Rightarrow> u32 \<Rightarrow> (nat \<Rightarrow> u32) \<Rightarrow> heap4 option" where
  "heap4_init base sz w =
     (if base mod 8 \<noteq> 0 \<or> sz < 64 then None
      else let e = (sz - HEAP_STRUCT_SIZE) AND NOT 7
           in Some (set_next 0 e (set_bsize 0 e (set_next e NONE (set_bsize e 0
                \<lparr>h4_words = w, h4_size = sz, start_next = 0, end_off = e, free_bytes = e, min_ever_free = e,
                 h4_allocs = 0, h4_frees = 0\<rparr>)))))"

text \<open>The size of the block that a request needs; 0 when it cannot be had.\<close>

definition block_size :: "u32 \<Rightarrow> u32" where
  "block_size wanted =
     (if 0 < wanted
      then (case checked_add wanted HEAP_STRUCT_SIZE of
              None \<Rightarrow> 0
            | Some w \<Rightarrow>
                if w AND 7 \<noteq> 0
                then (case checked_add w (8 - (w AND 7)) of None \<Rightarrow> 0 | Some w' \<Rightarrow> w')
                else w)
      else 0)"

text \<open>The traversal: the block it stops at and the one before.\<close>

partial_function (option) first_fit :: "heap4 \<Rightarrow> u32 \<Rightarrow> u32 \<Rightarrow> u32 \<Rightarrow> (u32 \<times> u32) option" where
  "first_fit h want prev blk =
     (if bsize h blk < want \<and> next_free h blk \<noteq> NONE then first_fit h want blk (next_free h blk)
      else Some (prev, blk))"

text \<open>What \<open>malloc\<close> does with the block found: unlink it, split it, mark it.\<close>

definition split_block :: "u32 \<Rightarrow> u32 \<Rightarrow> u32 \<Rightarrow> heap4 \<Rightarrow> heap4" where
  "split_block want prev blk h =
     (let bs = bsize h blk
      in if MIN_BLOCK_SIZE < bs - want
         then let newb = blk + want;
                  h' = set_bsize blk want (set_bsize newb (bs - want) h)
              in set_next_of prev newb (set_next newb (next_of h' prev) h')
         else h)"

definition mark_block :: "u32 \<Rightarrow> heap4 \<Rightarrow> heap4" where
  "mark_block blk h =
     (let final_size = bsize h blk;
          h1 = h\<lparr>free_bytes := free_bytes h - final_size\<rparr>;
          h2 = (if free_bytes h1 < min_ever_free h1 then h1\<lparr>min_ever_free := free_bytes h1\<rparr> else h1);
          h3 = set_next blk NONE (set_bsize blk (final_size OR ALLOC_BIT) h2)
      in h3\<lparr>h4_allocs := h4_allocs h3 + 1\<rparr>)"

definition take_block :: "u32 \<Rightarrow> u32 \<Rightarrow> u32 \<Rightarrow> heap4 \<Rightarrow> heap4" where
  "take_block want prev blk h =
     mark_block blk (split_block want prev blk (set_next_of prev (next_free h blk) h))"

definition malloc :: "u32 \<Rightarrow> heap4 \<Rightarrow> (u32 option \<times> heap4) option" where
  "malloc wanted h =
     (let want = block_size wanted
      in if want AND ALLOC_BIT \<noteq> 0 then Some (None, h)
         else if want = 0 \<or> free_bytes h < want then Some (None, h)
         else (case first_fit h want START (start_next h) of
                 None \<Rightarrow> None
               | Some (prev, blk) \<Rightarrow>
                   if blk = end_off h then Some (None, h)
                   else Some (Some (blk + HEAP_STRUCT_SIZE), take_block want prev blk h)))"

partial_function (option) insert_after :: "heap4 \<Rightarrow> u32 \<Rightarrow> u32 \<Rightarrow> u32 option" where
  "insert_after h off iter =
     (if next_of h iter < off then insert_after h off (next_of h iter) else Some iter)"

text \<open>The insertion behind \<open>iter\<close>: a merge with the block before, then one with the block after.\<close>

definition merge_left :: "u32 \<Rightarrow> u32 \<Rightarrow> heap4 \<Rightarrow> u32 \<times> heap4" where
  "merge_left iter off h =
     (if iter \<noteq> START \<and> iter + bsize h iter = off then (iter, set_bsize iter (bsize h iter + bsize h off) h)
      else (off, h))"

definition merge_right :: "u32 \<Rightarrow> u32 \<Rightarrow> heap4 \<Rightarrow> heap4" where
  "merge_right ins iter_next h =
     (if ins + bsize h ins = iter_next
      then if iter_next \<noteq> end_off h
           then let h' = set_bsize ins (bsize h ins + bsize h iter_next) h
                in set_next ins (next_free h' iter_next) h'
           else set_next ins (end_off h) h
      else set_next ins iter_next h)"

definition insert_at :: "u32 \<Rightarrow> u32 \<Rightarrow> heap4 \<Rightarrow> heap4" where
  "insert_at iter off h =
     (let (ins, h1) = merge_left iter off h; h2 = merge_right ins (next_of h1 iter) h1
      in if iter \<noteq> ins then set_next_of iter ins h2 else h2)"

definition insert_free :: "u32 \<Rightarrow> heap4 \<Rightarrow> heap4 option" where
  "insert_free off h = map_option (\<lambda>iter. insert_at iter off h) (insert_after h off START)"

datatype free_error = OutsideArena | NotAllocated | HeaderCorrupt

definition heap4_free :: "u32 \<Rightarrow> heap4 \<Rightarrow> ((free_error + unit) \<times> heap4) option" where
  "heap4_free payload_off h =
     (if payload_off < HEAP_STRUCT_SIZE \<or> h4_size h \<le> payload_off then Some (Inl OutsideArena, h)
      else let blk = payload_off - HEAP_STRUCT_SIZE; bs = bsize h blk
           in if bs AND ALLOC_BIT = 0 then Some (Inl NotAllocated, h)
              else if next_free h blk \<noteq> NONE then Some (Inl HeaderCorrupt, h)
              else let sz = bs AND NOT ALLOC_BIT; h1 = set_bsize blk sz h;
                       h2 = h1\<lparr>free_bytes := free_bytes h1 + sz\<rparr>
                   in map_option (\<lambda>h3. (Inr (), h3\<lparr>h4_frees := h4_frees h3 + 1\<rparr>)) (insert_free blk h2))"

text \<open>The walk of \<open>stats\<close>: the largest free block and the number of free blocks.\<close>

partial_function (option) stats_walk :: "heap4 \<Rightarrow> u32 \<Rightarrow> u32 \<Rightarrow> u32 \<Rightarrow> (u32 \<times> u32) option" where
  "stats_walk h blk largest num =
     (if blk \<noteq> end_off h \<and> blk \<noteq> NONE
      then stats_walk h (next_free h blk) (if largest < bsize h blk then bsize h blk else largest) (num + 1)
      else Some (largest, num))"

definition heap4_stats :: "heap4 \<Rightarrow> heap_stats option" where
  "heap4_stats h =
     map_option
       (\<lambda>(largest, num).
          \<lparr>hs_free_bytes = free_bytes h, hs_min_ever_free_bytes = min_ever_free h, hs_largest_free_block = largest,
           hs_free_blocks = num, hs_successful_allocs = h4_allocs h, hs_successful_frees = h4_frees h\<rparr>)
       (stats_walk h (start_next h) 0 0)"

end
