(* ===== verification/Heap4Laws.thy ===== *)
theory Heap4Laws
  imports Heap4
begin

text \<open>
  The allocator against its specification: a tiling of the arena by blocks, free or used, with
  no two free neighbours. Sizes and offsets of the specification are in granules of eight bytes.
  The header words hold the tiling, \<open>malloc\<close> is first fit with a split, \<open>free\<close> is release with a
  merge on both sides, and the loops end on every reachable heap.
\<close>

section \<open>Tilings\<close>

type_synonym tiling = "(nat \<times> bool) list"

fun span :: "tiling \<Rightarrow> nat" where
  "span [] = 0"
| "span ((g, u) # bs) = g + span bs"

fun free_span :: "tiling \<Rightarrow> nat" where
  "free_span [] = 0"
| "free_span ((g, u) # bs) = (if u then free_span bs else g + free_span bs)"

text \<open>The first free offset of a tiling that starts at \<open>o\<close>, \<open>e\<close> when it has none.\<close>

fun first_free :: "nat \<Rightarrow> tiling \<Rightarrow> nat \<Rightarrow> nat" where
  "first_free p [] e = e"
| "first_free p ((g, u) # bs) e = (if u then first_free (p + g) bs e else p)"

fun apart :: "tiling \<Rightarrow> bool" where
  "apart ((g, u) # (k, v) # bs) = ((u \<or> v) \<and> apart ((k, v) # bs))"
| "apart bs = True"

text \<open>First fit for \<open>n\<close> granules; the rest of a block of more than two granules is split off.\<close>

fun fit :: "nat \<Rightarrow> nat \<Rightarrow> tiling \<Rightarrow> (nat \<times> tiling) option" where
  "fit n p [] = None"
| "fit n p ((g, u) # bs) =
     (if \<not> u \<and> n \<le> g
      then Some (p, if 2 < g - n then (n, True) # (g - n, False) # bs else (g, True) # bs)
      else map_option (\<lambda>(q, cs). (q, (g, u) # cs)) (fit n (p + g) bs))"

text \<open>Release of the used block at offset \<open>t\<close>.\<close>

fun put_free :: "nat \<Rightarrow> tiling \<Rightarrow> tiling" where
  "put_free g ((k, False) # bs) = (g + k, False) # bs"
| "put_free g bs = (g, False) # bs"

fun release :: "nat \<Rightarrow> tiling \<Rightarrow> tiling option" where
  "release t [] = None"
| "release t ((g, u) # bs) =
     (if t = 0 then (if u then Some (put_free g bs) else None)
      else if t < g then None
      else map_option (if u then (#) (g, True) else put_free g) (release (t - g) bs))"

fun used_at :: "nat \<Rightarrow> tiling \<Rightarrow> nat set" where
  "used_at p [] = {}"
| "used_at p ((g, u) # bs) = (if u then insert p (used_at (p + g) bs) else used_at (p + g) bs)"

lemma span_append [simp]: "span (as @ bs) = span as + span bs"
  by (induction as rule: span.induct) auto

lemma free_span_append [simp]: "free_span (as @ bs) = free_span as + free_span bs"
  by (induction as rule: span.induct) auto

lemma first_free_append: "first_free p (as @ bs) e = first_free p as (first_free (p + span as) bs e)"
  by (induction p as e rule: first_free.induct) (auto simp: add.assoc)

lemma free_span_le: "free_span bs \<le> span bs"
  by (induction bs rule: span.induct) auto

lemma first_free_le: "p + span bs \<le> e \<Longrightarrow> first_free p bs e \<le> e"
  by (induction p bs e rule: first_free.induct) auto

lemma first_free_ge: "p + span bs \<le> e \<Longrightarrow> p \<le> first_free p bs e"
  by (induction p bs e rule: first_free.induct) auto

lemma blocks_apart_Cons: "apart (x # bs) \<longleftrightarrow> apart bs \<and> (bs \<noteq> [] \<longrightarrow> snd x \<or> snd (hd bs))"
  by (cases x; cases bs; cases "hd bs") auto

lemma apart_append:
  "apart (as @ bs) \<longleftrightarrow> apart as \<and> apart bs \<and> (as \<noteq> [] \<and> bs \<noteq> [] \<longrightarrow> snd (last as) \<or> snd (hd bs))"
  by (induction as) (simp, auto simp: blocks_apart_Cons hd_append)

section \<open>Offsets\<close>

definition off8 :: "nat \<Rightarrow> u32" where "off8 k = of_nat (8 * k)"

lemma off8_add: "off8 (a + b) = off8 a + off8 b"
  by (simp add: off8_def algebra_simps)

lemma unat_off8 [simp]: "8 * k < 2 ^ 31 \<Longrightarrow> unat (off8 k) = 8 * k"
  by (simp add: off8_def unat_of_nat del: of_nat_mult)

lemma off8_eq: "8 * a < 2 ^ 31 \<Longrightarrow> 8 * b < 2 ^ 31 \<Longrightarrow> off8 a = off8 b \<longleftrightarrow> a = b"
  by (metis unat_off8 mult_cancel1 zero_neq_numeral)

lemma off8_less: "8 * a < 2 ^ 31 \<Longrightarrow> 8 * b < 2 ^ 31 \<Longrightarrow> off8 a < off8 b \<longleftrightarrow> a < b"
  by (simp add: word_less_nat_alt)

lemma off8_lt_top: "8 * k < 2 ^ 31 \<Longrightarrow> off8 k < 0x80000000"
  by (simp add: word_less_nat_alt)

lemma off8_marks [simp]:
  assumes "8 * k < 2 ^ 31"
  shows "off8 k \<noteq> NONE" "off8 k \<noteq> START" "NONE \<noteq> off8 k" "START \<noteq> off8 k"
  using off8_lt_top [OF assms] by (auto simp: NONE_def START_def)

lemma alloc_bit_off8:
  assumes "8 * k < 2 ^ 31"
  shows "off8 k AND ALLOC_BIT = 0" "(off8 k OR ALLOC_BIT) AND ALLOC_BIT = ALLOC_BIT"
    "(off8 k OR ALLOC_BIT) AND NOT ALLOC_BIT = off8 k"
proof -
  have b: "bit ALLOC_BIT i \<longleftrightarrow> i = 31" for i
    using bit_exp_iff [where 'a=u32 and m=31 and n=i] by (auto simp: ALLOC_BIT_def)
  have "bit (unat (off8 k)) 31 \<longleftrightarrow> bit (off8 k) 31"
    by (simp only: bit_unsigned_iff) simp
  moreover have "\<not> bit (8 * k) 31"
    using assms by (simp add: bit_iff_odd)
  ultimately have z: "\<not> bit (off8 k) 31"
    by (metis unat_off8 [OF assms])
  show "off8 k AND ALLOC_BIT = 0" "(off8 k OR ALLOC_BIT) AND ALLOC_BIT = ALLOC_BIT"
    "(off8 k OR ALLOC_BIT) AND NOT ALLOC_BIT = off8 k"
    by (rule bit_word_eqI; use z b in \<open>auto simp: bit_simps\<close>)+
qed

section \<open>The header words of a tiling\<close>

definition tag :: "nat \<Rightarrow> bool \<Rightarrow> u32" where
  "tag g u = (if u then off8 g OR ALLOC_BIT else off8 g)"

fun headers :: "(nat \<Rightarrow> u32) \<Rightarrow> nat \<Rightarrow> tiling \<Rightarrow> nat \<Rightarrow> bool" where
  "headers w p [] e = True"
| "headers w p ((g, u) # bs) e =
     (w (2 * p + 1) = tag g u \<and> w (2 * p) = (if u then NONE else off8 (first_free (p + g) bs e)) \<and>
      headers w (p + g) bs e)"

lemma headers_append:
  "headers w p (as @ bs) e \<longleftrightarrow>
     headers w p as (first_free (p + span as) bs e) \<and> headers w (p + span as) bs e"
  by (induction w p as e rule: headers.induct) (auto simp: first_free_append add.assoc)

definition solid :: "tiling \<Rightarrow> bool" where
  "solid bs \<longleftrightarrow> (\<forall>b\<in>set bs. 2 \<le> fst b)"

lemma solid_simps [simp]:
  "solid []" "solid ((g, u) # bs) \<longleftrightarrow> 2 \<le> g \<and> solid bs" "solid (as @ cs) \<longleftrightarrow> solid as \<and> solid cs"
  by (auto simp: solid_def)

lemma headers_frame:
  assumes "solid bs" "i < 2 * p \<or> 2 * (p + span bs) \<le> i"
  shows "headers (w(i := v)) p bs e = headers w p bs e"
  using assms by (induction w p bs e rule: headers.induct) auto

text \<open>The last free block, which is where the list is relinked.\<close>

fun last_free :: "nat \<Rightarrow> tiling \<Rightarrow> u32 \<Rightarrow> u32" where
  "last_free p [] d = d"
| "last_free p ((g, u) # bs) d = last_free (p + g) bs (if u then d else off8 p)"

lemma last_free_append: "last_free p (as @ bs) d = last_free (p + span as) bs (last_free p as d)"
  by (induction p as d rule: last_free.induct) (auto simp: add.assoc)

lemma all_used_last: "(\<forall>b\<in>set bs. snd b) \<Longrightarrow> last_free p bs d = d"
  by (induction p bs d rule: last_free.induct) auto

lemma all_used_first: "(\<forall>b\<in>set bs. snd b) \<Longrightarrow> first_free p bs e = e"
  by (induction p bs e rule: first_free.induct) auto

lemma all_used_headers: "(\<forall>b\<in>set bs. snd b) \<Longrightarrow> headers w p bs e = headers w p bs e'"
  by (induction w p bs e rule: headers.induct) auto

lemma split_last_free:
  obtains (used) "\<forall>b\<in>set bs. snd b"
    | (free) as g us where "bs = as @ (g, False) # us" "\<forall>b\<in>set us. snd b"
proof (cases "\<forall>b\<in>set bs. snd b")
  case False
  then have "\<exists>b\<in>set bs. \<not> snd b" by simp
  then obtain as b us where "bs = as @ b # us" "\<not> snd b" "\<forall>c\<in>set us. \<not> \<not> snd c"
    by (rule split_list_last_propE) blast
  then show ?thesis using free [of as "fst b" us] by (cases b) auto
qed (rule used)

section \<open>The free list\<close>

text \<open>The blocks \<open>as\<close> at the bottom of the arena, with \<open>e\<close> the free offset behind them.\<close>

definition chain :: "heap4 \<Rightarrow> tiling \<Rightarrow> nat \<Rightarrow> bool" where
  "chain h as e \<longleftrightarrow> solid as \<and> headers (h4_words h) 0 as e \<and> start_next h = off8 (first_free 0 as e)"

abbreviation link :: "tiling \<Rightarrow> u32" where
  "link as \<equiv> last_free 0 as START"

lemma header_words:
  assumes "8 * p < 2 ^ 31"
  shows "next_free h (off8 p) = h4_words h (2 * p)" "bsize h (off8 p) = h4_words h (2 * p + 1)"
    "set_next (off8 p) v h = h\<lparr>h4_words := (h4_words h)(2 * p := v)\<rparr>"
    "set_bsize (off8 p) v h = h\<lparr>h4_words := (h4_words h)(2 * p + 1 := v)\<rparr>"
  using assms by (simp_all add: next_free_def bsize_def set_next_def set_bsize_def)

lemma chain_next:
  assumes "chain h as e" "8 * (span as) < 2 ^ 31"
  shows "next_of h (link as) = off8 e"
proof (cases as rule: split_last_free)
  case used
  then show ?thesis
    using assms by (simp add: chain_def next_of_def all_used_last all_used_first)
next
  case (free bs g us)
  then have b: "8 * span bs < 2 ^ 31" using assms by simp
  show ?thesis
    using assms free b
    by (simp add: chain_def next_of_def last_free_append all_used_last all_used_first headers_append header_words)
qed

lemma chain_relink:
  assumes "chain h as e" "8 * (span as) < 2 ^ 31"
  obtains w s where "set_next_of (link as) (off8 e') h = h\<lparr>h4_words := w, start_next := s\<rparr>"
    "chain (h\<lparr>h4_words := w, start_next := s\<rparr>) as e'" "\<And>i. 2 * span as \<le> i \<Longrightarrow> w i = h4_words h i"
proof (cases as rule: split_last_free)
  case used
  have l: "link as = START" using used by (simp add: all_used_last)
  have "chain (h\<lparr>h4_words := h4_words h, start_next := off8 e'\<rparr>) as e'"
    using assms used by (simp add: chain_def all_used_first all_used_headers [where bs = as and e = e and e' = e'])
  then show ?thesis
    by (intro that [where w = "h4_words h" and s = "off8 e'"]) (simp_all add: set_next_of_def l)
next
  case (free bs g us)
  then have b: "8 * span bs < 2 ^ 31" using assms by simp
  have l: "link as = off8 (span bs)" using free by (simp add: last_free_append all_used_last)
  let ?w = "(h4_words h)(2 * span bs := off8 e')"
  have s: "solid bs" "2 \<le> g" "solid us" using assms free by (auto simp: chain_def)
  have fb: "headers ?w 0 bs (span bs) = headers (h4_words h) 0 bs (span bs)"
    by (rule headers_frame) (use s in auto)
  have fu: "headers ?w (span bs + g) us e' = headers (h4_words h) (span bs + g) us e'"
    by (rule headers_frame) (use s in auto)
  have "chain (h\<lparr>h4_words := ?w, start_next := start_next h\<rparr>) as e'"
    using assms free s fb fu all_used_headers [where bs = us and e = e and e' = e']
    by (simp add: chain_def headers_append first_free_append all_used_first)
  then show ?thesis
  proof (rule that [where w = ?w and s = "start_next h", rotated])
    show "set_next_of (link as) (off8 e') h = h\<lparr>h4_words := ?w, start_next := start_next h\<rparr>"
      using b by (simp add: set_next_of_def l header_words)
  qed (use free s in auto)
qed

section \<open>The loops\<close>

text \<open>The heap \<open>h\<close> holds the tiling \<open>bs\<close>.\<close>

definition holds :: "heap4 \<Rightarrow> tiling \<Rightarrow> bool" where
  "holds h bs \<longleftrightarrow>
     chain h bs (span bs) \<and> apart bs \<and> 8 * span bs < 2 ^ 31 \<and> 8 * span bs + 8 \<le> unat (h4_size h) \<and>
     end_off h = off8 (span bs) \<and> h4_words h (2 * span bs) = NONE \<and> h4_words h (2 * span bs + 1) = 0 \<and>
     free_bytes h = off8 (free_span bs) \<and> min_ever_free h \<le> free_bytes h"

lemma fit_None: "fit n p bs = None \<longleftrightarrow> (\<forall>b\<in>set bs. snd b \<or> fst b < n)"
  by (induction n p bs rule: fit.induct) (auto simp: not_le)

lemma fit_Some:
  assumes "fit n p bs = Some (q, cs)"
  obtains as g rest where "bs = as @ (g, False) # rest" "n \<le> g" "q = p + span as"
    "\<forall>b\<in>set as. snd b \<or> fst b < n"
    "cs = as @ (if 2 < g - n then (n, True) # (g - n, False) # rest else (g, True) # rest)"
proof -
  have "\<exists>as g rest. bs = as @ (g, False) # rest \<and> n \<le> g \<and> q = p + span as \<and>
      (\<forall>b\<in>set as. snd b \<or> fst b < n) \<and>
      cs = as @ (if 2 < g - n then (n, True) # (g - n, False) # rest else (g, True) # rest)"
    using assms
  proof (induction n p bs arbitrary: q cs rule: fit.induct)
    case (2 n p g u bs)
    show ?case
    proof (cases "\<not> u \<and> n \<le> g")
      case True
      then show ?thesis using 2(2) by (intro exI [of _ "[]"]) auto
    next
      case False
      then obtain ds where f: "fit n (p + g) bs = Some (q, ds)" "cs = (g, u) # ds"
        using 2(2) by auto
      from 2(1) [OF False f(1)] obtain as k rest where
        "bs = as @ (k, False) # rest" "n \<le> k" "q = p + g + span as" "\<forall>b\<in>set as. snd b \<or> fst b < n"
        "ds = as @ (if 2 < k - n then (n, True) # (k - n, False) # rest else (k, True) # rest)" by blast
      then show ?thesis
        using f False by (intro exI [of _ "(g, u) # as"] exI [of _ k] exI [of _ rest]) auto
    qed
  qed simp
  then show ?thesis using that by blast
qed

lemma chain_block:
  assumes "chain h (as @ (g, u) # cs) e" "8 * span as < 2 ^ 31"
  shows "bsize h (off8 (span as)) = tag g u"
    "next_free h (off8 (span as)) = (if u then NONE else off8 (first_free (span as + g) cs e))"
  using assms by (auto simp: chain_def headers_append header_words)

lemma first_fit_skip:
  assumes "chain h (as @ bs @ cs) e" "e = span (as @ bs @ cs)" "8 * e < 2 ^ 31" "8 * n < 2 ^ 31"
    "\<forall>b\<in>set bs. snd b \<or> fst b < n"
  shows "first_fit h (off8 n) (link as) (off8 (first_free (span as) (bs @ cs) e)) =
     first_fit h (off8 n) (link (as @ bs)) (off8 (first_free (span (as @ bs)) cs e))"
  using assms
proof (induction bs arbitrary: as)
  case (Cons b bs)
  obtain g u where b: "b = (g, u)" by (cases b)
  have ih: "first_fit h (off8 n) (link (as @ [b])) (off8 (first_free (span (as @ [b])) (bs @ cs) e)) =
     first_fit h (off8 n) (link (as @ b # bs)) (off8 (first_free (span (as @ b # bs)) cs e))"
    using Cons.IH [of "as @ [b]"] Cons.prems by simp
  show ?case
  proof (cases u)
    case True
    then show ?thesis using ih by (simp add: b last_free_append)
  next
    case False
    have l: "8 * span as < 2 ^ 31" "8 * g < 2 ^ 31" using Cons.prems b by auto
    have f: "first_free (span as + g) (bs @ cs) e \<le> e"
      using Cons.prems b by (intro first_free_le) auto
    have "chain h (as @ (g, u) # bs @ cs) e" using Cons.prems(1) b by simp
    from chain_block [OF this l(1)] have w: "bsize h (off8 (span as)) < off8 n"
      "next_free h (off8 (span as)) = off8 (first_free (span as + g) (bs @ cs) e)"
      using False Cons.prems b l by (auto simp: tag_def off8_less)
    have "first_fit h (off8 n) (link as) (off8 (span as)) =
      first_fit h (off8 n) (off8 (span as)) (off8 (first_free (span as + g) (bs @ cs) e))"
      using w f Cons.prems(3) by (subst first_fit.simps) (simp del: first_fit.simps)
    then show ?thesis using ih False by (simp add: b last_free_append)
  qed
qed simp

lemma first_fit_law:
  assumes "holds h bs" "8 * n < 2 ^ 31" "0 < n"
  shows "fit n 0 bs = None \<Longrightarrow> first_fit h (off8 n) START (start_next h) = Some (link bs, end_off h)"
    "bs = as @ (g, False) # rest \<Longrightarrow> n \<le> g \<Longrightarrow> \<forall>b\<in>set as. snd b \<or> fst b < n \<Longrightarrow>
      first_fit h (off8 n) START (start_next h) = Some (link as, off8 (span as))"
proof -
  assume "fit n 0 bs = None"
  then have "\<forall>b\<in>set bs. snd b \<or> fst b < n" by (simp add: fit_None)
  moreover have e: "next_free h (off8 (span bs)) = NONE" "end_off h = off8 (span bs)"
    "start_next h = off8 (first_free 0 bs (span bs))" "chain h bs (span bs)" "8 * span bs < 2 ^ 31"
    using assms by (auto simp: holds_def header_words chain_def)
  moreover have "first_fit h (off8 n) (link bs) (off8 (span bs)) = Some (link bs, off8 (span bs))"
    by (subst first_fit.simps) (simp only: e simp_thms if_False)
  moreover have "first_fit h (off8 n) (link []) (off8 (first_free (span []) (bs @ []) (span bs))) =
      first_fit h (off8 n) (link ([] @ bs)) (off8 (first_free (span ([] @ bs)) [] (span bs)))"
    by (rule first_fit_skip) (use assms(2) e \<open>\<forall>b\<in>set bs. snd b \<or> fst b < n\<close> in simp_all)
  ultimately show "first_fit h (off8 n) START (start_next h) = Some (link bs, end_off h)"
    by (simp only: append_Nil append_Nil2 span.simps first_free.simps last_free.simps)
next
  assume b: "bs = as @ (g, False) # rest" and n: "n \<le> g" and s: "\<forall>b\<in>set as. snd b \<or> fst b < n"
  have c: "chain h (as @ (g, False) # rest) (span bs)" "8 * span bs < 2 ^ 31"
    using assms b by (auto simp: holds_def)
  have w: "\<not> bsize h (off8 (span as)) < off8 n"
    using chain_block [OF c(1)] c(2) b n assms by (auto simp: tag_def off8_less)
  have "first_fit h (off8 n) (link as) (off8 (span as)) = Some (link as, off8 (span as))"
    by (subst first_fit.simps) (simp only: w simp_thms if_False)
  moreover have "start_next h = off8 (first_free 0 (as @ (g, False) # rest) (span bs))"
    using assms b by (simp add: holds_def chain_def)
  moreover have "first_fit h (off8 n) (link []) (off8 (first_free (span []) (as @ (g, False) # rest) (span bs))) =
      first_fit h (off8 n) (link ([] @ as)) (off8 (first_free (span ([] @ as)) ((g, False) # rest) (span bs)))"
    by (rule first_fit_skip) (use assms(2) c b s in simp_all)
  ultimately show "first_fit h (off8 n) START (start_next h) = Some (link as, off8 (span as))"
    by (simp only: append_Nil span.simps first_free.simps last_free.simps if_False)
qed

section \<open>Allocation\<close>

text \<open>The granules of a request: its header and its bytes, rounded up.\<close>

definition request :: "u32 \<Rightarrow> nat" where
  "request w = (unat w + 15) div 8"

lemma and_7: "unat ((x :: u32) AND 7) = unat x mod 8"
proof -
  have "x AND 7 = x mod 8" using take_bit_eq_mask [of 3 x] by (simp add: take_bit_eq_mod mask_eq_exp_minus_1)
  then show ?thesis by (simp add: unat_mod_distrib)
qed

lemma round_up8:
  fixes u :: nat
  shows "(u + 8) mod 8 = 0 \<Longrightarrow> 8 * ((u + 15) div 8) = u + 8"
    "(u + 8) mod 8 \<noteq> 0 \<Longrightarrow> 8 * ((u + 15) div 8) = u + 8 + (8 - (u + 8) mod 8)"
proof -
  define q r where "q = u div 8" and "r = u mod 8"
  have u: "u = 8 * q + r" "r < 8" by (simp_all add: q_def r_def)
  have m: "(u + 8) mod 8 = r" by (simp add: r_def)
  have d: "(u + 15) div 8 = (if r = 0 then q + 1 else q + 2)"
    by (rule div_nat_eqI) (use u in \<open>auto split: if_splits\<close>)
  show "(u + 8) mod 8 = 0 \<Longrightarrow> 8 * ((u + 15) div 8) = u + 8"
    "(u + 8) mod 8 \<noteq> 0 \<Longrightarrow> 8 * ((u + 15) div 8) = u + 8 + (8 - (u + 8) mod 8)"
    unfolding m d using u by (auto split: if_splits)
qed

lemma block_size_law:
  assumes "w \<noteq> 0"
  shows "block_size w = (if unat w + 8 < 2 ^ 32 \<and> 8 * request w < 2 ^ 32 then off8 (request w) else 0)"
proof -
  have p: "0 < w" using assms by (simp add: word_gt_0)
  show ?thesis
  proof (cases "unat w + 8 < 2 ^ 32")
    case False
    then have "checked_add w HEAP_STRUCT_SIZE = None" by (simp add: checked_add_def HEAP_STRUCT_SIZE_def)
    then show ?thesis using p False by (simp add: block_size_def)
  next
    case True
    define v where "v = w + 8"
    have v: "unat v = unat w + 8" unfolding v_def using True by (simp add: unat_word_ariths)
    have c: "checked_add w HEAP_STRUCT_SIZE = Some v"
      using True by (simp add: checked_add_def HEAP_STRUCT_SIZE_def v_def)
    have m: "v AND 7 = 0 \<longleftrightarrow> unat v mod 8 = 0" using and_7 [of v] by (metis unat_eq_zero)
    show ?thesis
    proof (cases "unat v mod 8 = 0")
      case z: True
      then have r: "8 * request w = unat v" using round_up8(1) [of "unat w"] v z by (simp add: request_def)
      have "(of_nat (unat v) :: u32) = v" by simp
      then have "off8 (request w) = v" by (simp only: off8_def r)
      then show ?thesis using p c m z r True v unsigned_less [of v, where 'a=nat] by (simp add: block_size_def)
    next
      case z: False
      have l: "unat (8 - (v AND 7)) = 8 - unat v mod 8"
        using and_7 [of v] by (subst unat_sub) (auto simp: word_le_nat_alt)
      have r: "8 * request w = unat v + (8 - unat v mod 8)" using round_up8(2) [of "unat w"] v z by (simp add: request_def)
      have "off8 (request w) = of_nat (unat v) + of_nat (unat (8 - (v AND 7)))"
        unfolding off8_def r l by simp
      then have "off8 (request w) = v + (8 - (v AND 7))" by simp
      moreover have "checked_add v (8 - (v AND 7)) =
          (if 8 * request w < 2 ^ 32 then Some (v + (8 - (v AND 7))) else None)"
        unfolding checked_add_def l r by simp
      moreover have v7: "v AND 7 \<noteq> 0" using m z by blast
      moreover have "block_size w = (case checked_add v (8 - (v AND 7)) of None \<Rightarrow> 0 | Some w' \<Rightarrow> w')"
        by (simp only: block_size_def p c v7 if_True option.case not_False_eq_True)
      ultimately show ?thesis using True by (cases "8 * request w < 2 ^ 32") (simp_all only: if_True if_False simp_thms option.case)
    qed
  qed
qed

lemma headers_cong:
  "solid bs \<Longrightarrow> (\<And>i. 2 * p \<le> i \<Longrightarrow> i < 2 * (p + span bs) \<Longrightarrow> w i = w' i) \<Longrightarrow>
     headers w p bs e = headers w' p bs e"
  by (induction w p bs e rule: headers.induct) auto

lemma chain_cong:
  assumes "\<And>i. i < 2 * span as \<Longrightarrow> h4_words h i = h4_words h' i" "start_next h = start_next h'"
  shows "chain h as e = chain h' as e"
  using assms headers_cong [of as 0 "h4_words h" "h4_words h'" e] by (auto simp: chain_def)

lemma chain_append:
  "chain h (as @ bs) e \<longleftrightarrow>
     chain h as (first_free (span as) bs e) \<and> solid bs \<and> headers (h4_words h) (span as) bs e"
  by (auto simp: chain_def headers_append first_free_append)

text \<open>The fields that a single allocation changes besides the words.\<close>

definition charge :: "nat \<Rightarrow> heap4 \<Rightarrow> heap4" where
  "charge g h =
     h\<lparr>free_bytes := free_bytes h - off8 g,
       min_ever_free := min (min_ever_free h) (free_bytes h - off8 g), h4_allocs := h4_allocs h + 1\<rparr>"

lemma mark_block_law:
  assumes "8 * p < 2 ^ 31" "8 * g < 2 ^ 31" "h4_words h (2 * p + 1) = off8 g"
  shows "mark_block (off8 p) h =
    charge g (h\<lparr>h4_words := (h4_words h)(2 * p + 1 := tag g True, 2 * p := NONE), start_next := start_next h\<rparr>)"
  using assms(3)
  by (simp add: mark_block_def Let_def header_words [OF assms(1)] charge_def tag_def min_def not_less)

lemma granules_minus:
  assumes "n \<le> g" "8 * g < 2 ^ 31"
  shows "off8 g - off8 n = off8 (g - n)" "MIN_BLOCK_SIZE < off8 (g - n) \<longleftrightarrow> 2 < g - n"
proof -
  show "off8 g - off8 n = off8 (g - n)" using off8_add [of "g - n" n] assms by simp
  show "MIN_BLOCK_SIZE < off8 (g - n) \<longleftrightarrow> 2 < g - n"
    using off8_less [of 2 "g - n"] assms by (simp add: MIN_BLOCK_SIZE_def off8_def)
qed

lemma take_whole:
  assumes h: "holds h (as @ (g, False) # cs)" and n: "n \<le> g" "\<not> 2 < g - n"
  obtains w s where "take_block (off8 n) (link as) (off8 (span as)) h = charge g (h\<lparr>h4_words := w, start_next := s\<rparr>)"
    "chain (h\<lparr>h4_words := w, start_next := s\<rparr>) (as @ (g, True) # cs) (span (as @ (g, False) # cs))"
    "\<And>i. 2 * span (as @ (g, False) # cs) \<le> i \<Longrightarrow> w i = h4_words h i"
proof -
  let ?e = "span (as @ (g, False) # cs)" and ?p = "span as"
  let ?f = "first_free (?p + g) cs ?e"
  have c: "chain h as ?p" "8 * ?e < 2 ^ 31" "2 \<le> g" "solid cs" "headers (h4_words h) (?p + g) cs ?e"
    "h4_words h (2 * ?p) = off8 ?f" "h4_words h (2 * ?p + 1) = off8 g"
    using h by (auto simp: holds_def chain_append tag_def)
  have b: "8 * ?p < 2 ^ 31" "8 * g < 2 ^ 31" using c(2) by auto
  obtain w s where r: "set_next_of (link as) (off8 ?f) h = h\<lparr>h4_words := w, start_next := s\<rparr>"
    "chain (h\<lparr>h4_words := w, start_next := s\<rparr>) as ?f" "\<And>i. 2 * ?p \<le> i \<Longrightarrow> w i = h4_words h i"
    using chain_relink [OF c(1) b(1), of ?f] by blast
  let ?h = "h\<lparr>h4_words := w, start_next := s\<rparr>" and ?w = "w(2 * ?p + 1 := tag g True, 2 * ?p := NONE)"
  have wg: "w (2 * ?p + 1) = off8 g" using r(3) [of "2 * ?p + 1"] c(7) by simp
  have "split_block (off8 n) (link as) (off8 ?p) ?h = ?h"
    using n wg by (simp add: split_block_def Let_def header_words [OF b(1)] granules_minus [OF n(1) b(2)])
  then have t: "take_block (off8 n) (link as) (off8 ?p) h = charge g (h\<lparr>h4_words := ?w, start_next := s\<rparr>)"
    using wg mark_block_law [OF b, of ?h]
    unfolding take_block_def header_words(1) [OF b(1)] c(6) r(1) by simp
  have "headers ?w (?p + g) cs ?e = headers (h4_words h) (?p + g) cs ?e"
    by (rule headers_cong) (use c r(3) in auto)
  moreover have "chain (h\<lparr>h4_words := ?w, start_next := s\<rparr>) as ?f = chain ?h as ?f"
    by (rule chain_cong) auto
  ultimately have "chain (h\<lparr>h4_words := ?w, start_next := s\<rparr>) (as @ (g, True) # cs) ?e"
    using c r(2) by (simp add: chain_append)
  then show ?thesis by (rule that [OF t]) (use r(3) c in auto)
qed

lemma take_split:
  assumes h: "holds h (as @ (g, False) # cs)" and n: "2 \<le> n" "n \<le> g" "2 < g - n"
  obtains w s where "take_block (off8 n) (link as) (off8 (span as)) h = charge n (h\<lparr>h4_words := w, start_next := s\<rparr>)"
    "chain (h\<lparr>h4_words := w, start_next := s\<rparr>) (as @ (n, True) # (g - n, False) # cs) (span (as @ (g, False) # cs))"
    "\<And>i. 2 * span (as @ (g, False) # cs) \<le> i \<Longrightarrow> w i = h4_words h i"
proof -
  let ?e = "span (as @ (g, False) # cs)" and ?p = "span as"
  let ?f = "first_free (?p + g) cs ?e"
  have c: "chain h as ?p" "8 * ?e < 2 ^ 31" "2 \<le> g" "solid cs" "headers (h4_words h) (?p + g) cs ?e"
    "h4_words h (2 * ?p) = off8 ?f" "h4_words h (2 * ?p + 1) = off8 g"
    using h by (auto simp: holds_def chain_append tag_def)
  have b: "8 * ?p < 2 ^ 31" "8 * g < 2 ^ 31" "8 * n < 2 ^ 31" "8 * (?p + n) < 2 ^ 31" using c(2) n by auto
  obtain w s where r: "set_next_of (link as) (off8 ?f) h = h\<lparr>h4_words := w, start_next := s\<rparr>"
    "chain (h\<lparr>h4_words := w, start_next := s\<rparr>) as ?f" "\<And>i. 2 * ?p \<le> i \<Longrightarrow> w i = h4_words h i"
    using chain_relink [OF c(1) b(1), of ?f] by blast
  let ?h = "h\<lparr>h4_words := w, start_next := s\<rparr>"
  let ?v = "w(2 * (?p + n) + 1 := off8 (g - n), 2 * ?p + 1 := off8 n)"
  let ?k = "?h\<lparr>h4_words := ?v\<rparr>" and ?l = "?h\<lparr>h4_words := ?v(2 * (?p + n) := off8 ?f)\<rparr>"
  have wg: "w (2 * ?p + 1) = off8 g" using r(3) [of "2 * ?p + 1"] c(7) by simp
  have k: "chain ?k as ?f" using r(2) chain_cong [of as ?h ?k ?f] by simp
  have l: "chain ?l as ?f" using r(2) chain_cong [of as ?h ?l ?f] by simp
  obtain x t where q: "set_next_of (link as) (off8 (?p + n)) ?l = ?l\<lparr>h4_words := x, start_next := t\<rparr>"
    "chain (?l\<lparr>h4_words := x, start_next := t\<rparr>) as (?p + n)" "\<And>i. 2 * ?p \<le> i \<Longrightarrow> x i = h4_words ?l i"
    using chain_relink [OF l b(1), of "?p + n"] by blast
  have a: "off8 ?p + off8 n = off8 (?p + n)" by (simp add: off8_add)
  have sp: "split_block (off8 n) (link as) (off8 ?p) ?h = ?l\<lparr>h4_words := x, start_next := t\<rparr>"
    using n wg chain_next [OF k b(1)] q(1)
    by (simp add: split_block_def Let_def a header_words [OF b(1)] header_words [OF b(4)]
        granules_minus [OF n(2) b(2)] del: One_nat_def)
  let ?x = "x(2 * ?p + 1 := tag n True, 2 * ?p := NONE)"
  have t: "take_block (off8 n) (link as) (off8 ?p) h = charge n (h\<lparr>h4_words := ?x, start_next := t\<rparr>)"
    using sp q(3) [of "2 * ?p + 1"] mark_block_law [OF b(1,3), of "?l\<lparr>h4_words := x, start_next := t\<rparr>"] n
    unfolding take_block_def header_words(1) [OF b(1)] c(6) r(1) by simp
  have xw: "?x i = h4_words h i" if "2 * (?p + g) \<le> i" for i
    using that q(3) [of i] r(3) [of i] n by auto
  have "headers ?x (?p + g) cs ?e = headers (h4_words h) (?p + g) cs ?e"
    by (rule headers_cong) (use c xw in auto)
  moreover have "chain (h\<lparr>h4_words := ?x, start_next := t\<rparr>) as (?p + n) = chain (?l\<lparr>h4_words := x, start_next := t\<rparr>) as (?p + n)"
    by (rule chain_cong) auto
  moreover have "x (2 * (?p + n) + 1) = off8 (g - n)" "x (2 * (?p + n)) = off8 ?f"
    using q(3) [of "2 * (?p + n) + 1"] q(3) [of "2 * (?p + n)"] n by auto
  ultimately have "chain (h\<lparr>h4_words := ?x, start_next := t\<rparr>) (as @ (n, True) # (g - n, False) # cs) ?e"
    using c n q(2) by (simp add: chain_append tag_def add.assoc)
  then show ?thesis by (rule that [OF t]) (use xw in auto)
qed

lemma request_ge: "w \<noteq> 0 \<Longrightarrow> 2 \<le> request w"
proof -
  assume "w \<noteq> 0"
  then have "1 \<le> unat w" by (simp add: unat_gt_0 Suc_leI)
  then show ?thesis by (simp add: request_def)
qed

lemma fit_free_span: "fit n p bs = Some x \<Longrightarrow> n \<le> free_span bs"
  by (cases x) (auto elim!: fit_Some)

lemma high_bit:
  assumes "2 ^ 31 \<le> unat (x :: u32)" shows "x AND ALLOC_BIT \<noteq> 0"
proof -
  have "bit (unat x) 31" using assms unsigned_less [of x, where 'a=nat]
    by (simp add: bit_iff_odd div_nat_eqI [of "2 ^ 31" 1, simplified])
  then have "bit x 31" by (simp only: bit_unsigned_iff)
  moreover have "bit ALLOC_BIT 31"
    using bit_exp_iff [where 'a=u32 and m=31 and n=31] by (simp add: ALLOC_BIT_def)
  ultimately have "bit (x AND ALLOC_BIT) 31" by (simp only: bit_and_iff)
  then show ?thesis by auto
qed

lemma block_size_big:
  assumes "2 ^ 31 \<le> 8 * request w" shows "block_size w AND ALLOC_BIT \<noteq> 0 \<or> block_size w = 0"
proof (cases "w = 0")
  case True
  then show ?thesis by (simp add: block_size_def)
next
  case False
  show ?thesis
  proof (cases "8 * request w < 2 ^ 32")
    case True
    have "unat (off8 (request w)) = 8 * request w"
      using True by (simp add: off8_def unat_of_nat del: of_nat_mult)
    then have "off8 (request w) AND ALLOC_BIT \<noteq> 0" using assms by (intro high_bit) simp
    then show ?thesis using block_size_law [OF False] by auto
  qed (simp add: block_size_law [OF False])
qed

lemma block_size_0 [simp]: "block_size 0 = 0"
  by (simp add: block_size_def)

lemma malloc_refused:
  assumes "holds h bs" "w = 0 \<or> 2 ^ 31 \<le> 8 * request w \<or> fit (request w) 0 bs = None"
  shows "malloc w h = Some (None, h)"
proof (cases "w = 0 \<or> 2 ^ 31 \<le> 8 * request w")
  case True
  then have "block_size w AND ALLOC_BIT \<noteq> 0 \<or> block_size w = 0"
    using block_size_big by fastforce
  then show ?thesis by (auto simp: malloc_def Let_def)
next
  case False
  then have r: "block_size w = off8 (request w)" "8 * request w < 2 ^ 31" "0 < request w" "fit (request w) 0 bs = None"
    using block_size_law [of w] request_ge [of w] assms(2) by (auto simp: request_def)
  have "block_size w AND ALLOC_BIT = 0" using alloc_bit_off8(1) [OF r(2)] r by simp
  then show ?thesis
    using first_fit_law(1) [OF assms(1) r(2,3,4)] r by (simp add: malloc_def Let_def)
qed

lemma malloc_granted:
  assumes h: "holds h bs" and w: "w \<noteq> 0" "8 * request w < 2 ^ 31" "fit (request w) 0 bs = Some (p, cs)"
  obtains h' where "malloc w h = Some (Some (off8 (p + 1)), h')" "holds h' cs"
    "h4_size h' = h4_size h" "end_off h' = end_off h" "h4_allocs h' = h4_allocs h + 1" "h4_frees h' = h4_frees h"
    "min_ever_free h' = min (min_ever_free h) (free_bytes h')" "span cs = span bs"
proof -
  let ?n = "request w"
  obtain as g rest where f: "bs = as @ (g, False) # rest" "?n \<le> g" "p = span as" "\<forall>b\<in>set as. snd b \<or> fst b < ?n"
    "cs = as @ (if 2 < g - ?n then (?n, True) # (g - ?n, False) # rest else (g, True) # rest)"
    using fit_Some [OF w(3)] by auto
  define k where "k = (if 2 < g - ?n then ?n else g)"
  have n: "2 \<le> ?n" "block_size w = off8 ?n" "block_size w AND ALLOC_BIT = 0" "off8 ?n \<noteq> 0"
    using request_ge [OF w(1)] block_size_law [OF w(1)] w alloc_bit_off8(1) [OF w(2)] off8_eq [of ?n 0]
    by (auto simp: request_def off8_def)
  have b: "8 * span bs < 2 ^ 31" "free_bytes h = off8 (free_span bs)" "8 * free_span bs < 2 ^ 31"
    using h free_span_le [of bs] by (auto simp: holds_def)
  have fr: "\<not> free_bytes h < off8 ?n" using fit_free_span [OF w(3)] b w(2) by (simp add: off8_less)
  have ne: "off8 (span as) \<noteq> end_off h" using h f(1,2) n(1) by (auto simp: holds_def off8_eq)
  have hb: "holds h (as @ (g, False) # rest)" using h f by simp
  obtain v s where t: "take_block (off8 ?n) (link as) (off8 (span as)) h = charge k (h\<lparr>h4_words := v, start_next := s\<rparr>)"
    "chain (h\<lparr>h4_words := v, start_next := s\<rparr>) cs (span bs)" "\<And>i. 2 * span bs \<le> i \<Longrightarrow> v i = h4_words h i"
  proof (cases "2 < g - ?n")
    case True
    show ?thesis using take_split [OF hb n(1) f(2) True] that f True by (auto simp: k_def)
  next
    case False
    show ?thesis using take_whole [OF hb f(2) False] that f False by (auto simp: k_def)
  qed
  define h' where "h' = charge k (h\<lparr>h4_words := v, start_next := s\<rparr>)"
  have m: "malloc w h = Some (Some (off8 (p + 1)), h')"
    using first_fit_law(2) [OF h w(2) _ f(1,2,4)] n fr ne t(1) f(3)
    by (simp add: malloc_def Let_def h'_def off8_add HEAP_STRUCT_SIZE_def) (simp add: off8_def)
  have s: "span cs = span bs" "free_span bs = free_span cs + k" "k \<le> free_span bs"
    using f by (auto simp: k_def)
  have a: "apart cs" using h f by (auto simp: holds_def apart_append blocks_apart_Cons split: if_splits)
  have "chain h' cs (span bs)" using t(2) chain_cong [of cs "h\<lparr>h4_words := v, start_next := s\<rparr>" h'] by (simp add: h'_def charge_def)
  moreover have "off8 (free_span bs) - off8 k = off8 (free_span cs)" using s(2) by (simp add: off8_add)
  ultimately have "holds h' cs" using h t(3) s a by (simp add: holds_def h'_def charge_def)
  then show ?thesis using that [OF m] s by (simp add: h'_def charge_def)
qed

section \<open>Release\<close>

lemma insert_after_skip:
  assumes "chain h (as @ bs) e" "t = span (as @ bs)" "t \<le> e" "8 * e < 2 ^ 31"
  shows "insert_after h (off8 t) (link as) = insert_after h (off8 t) (link (as @ bs))"
  using assms
proof (induction bs arbitrary: as)
  case (Cons b bs)
  obtain g u where b: "b = (g, u)" by (cases b)
  have ih: "insert_after h (off8 t) (link (as @ [b])) = insert_after h (off8 t) (link (as @ b # bs))"
    using Cons.IH [of "as @ [b]"] Cons.prems by simp
  show ?case
  proof (cases u)
    case True
    then show ?thesis using ih by (simp add: b last_free_append)
  next
    case False
    have "8 * span as < 2 ^ 31" "chain h as (span as)" "span as < t"
      using Cons.prems b False by (auto simp: chain_append)
    moreover from this have "next_of h (link as) = off8 (span as)" by (intro chain_next)
    ultimately have "insert_after h (off8 t) (link as) = insert_after h (off8 t) (off8 (span as))"
      using Cons.prems by (subst insert_after.simps) (simp add: off8_less del: insert_after.simps)
    then show ?thesis using ih False by (simp add: b last_free_append)
  qed
qed simp

lemma insert_after_law:
  assumes "chain h as e" "span as \<le> e" "8 * e < 2 ^ 31"
  shows "insert_after h (off8 (span as)) START = Some (link as)"
proof -
  have "next_of h (link as) = off8 e" using assms by (intro chain_next) auto
  then have "\<not> next_of h (link as) < off8 (span as)" using assms by (simp add: off8_less)
  then have "insert_after h (off8 (span as)) (link as) = Some (link as)"
    by (subst insert_after.simps) (simp only: if_False)
  moreover have "insert_after h (off8 (span as)) (link []) = insert_after h (off8 (span as)) (link ([] @ as))"
    by (rule insert_after_skip) (use assms in auto)
  ultimately show ?thesis by simp
qed

lemma merge_right_law:
  assumes e: "e = q + m + span cs" "8 * e < 2 ^ 31" "end_off h = off8 e"
    and w: "h4_words h (2 * q + 1) = off8 m" "headers (h4_words h) (q + m) cs e" "solid cs" "2 \<le> m"
  obtains w' where "merge_right (off8 q) (off8 (first_free (q + m) cs e)) h = h\<lparr>h4_words := w'\<rparr>"
    "headers w' q (put_free m cs) e" "\<And>i. i < 2 * q \<or> 2 * e \<le> i \<Longrightarrow> w' i = h4_words h i"
proof -
  have b: "8 * q < 2 ^ 31" "8 * (q + m) < 2 ^ 31" using e by auto
  have a: "off8 q + off8 m = off8 (q + m)" by (simp add: off8_add)
  show ?thesis
  proof (cases "\<exists>k ds. cs = (k, False) # ds")
    case True
    then obtain k ds where cs: "cs = (k, False) # ds" by blast
    let ?w = "(h4_words h)(2 * q + 1 := off8 (m + k), 2 * q := off8 (first_free (q + m + k) ds e))"
    have ne: "off8 (q + m) \<noteq> off8 e" using e w cs by (subst off8_eq) auto
    have k: "h4_words h (2 * (q + m) + 1) = off8 k"
      "h4_words h (2 * (q + m)) = off8 (first_free (q + m + k) ds e)"
      using w cs by (auto simp: tag_def)
    have t: "merge_right (off8 q) (off8 (first_free (q + m) cs e)) h = h\<lparr>h4_words := ?w\<rparr>"
      using w(1,4) k ne e(3)
      by (simp add: merge_right_def cs Let_def a header_words [OF b(1)] header_words [OF b(2)] off8_add [of m k] del: One_nat_def)
    have "headers ?w (q + m + k) ds e = headers (h4_words h) (q + m + k) ds e"
      by (rule headers_cong) (use w cs in auto)
    then have "headers ?w q (put_free m cs) e" using w cs by (simp add: tag_def add.assoc)
    then show ?thesis by (rule that [OF t]) (use e w in auto)
  next
    case False
    let ?f = "first_free (q + m) cs e" and ?w = "(h4_words h)(2 * q := off8 (first_free (q + m) cs e))"
    have p: "put_free m cs = (m, False) # cs"
      using False by (cases "(m, cs)" rule: put_free.cases) auto
    have f: "?f \<le> e" by (rule first_free_le) (use e in simp)
    have "q + m = ?f \<Longrightarrow> ?f = e"
    proof (cases cs)
      case (Cons c ds)
      assume "q + m = ?f"
      moreover have "q + m + fst c \<le> first_free (q + m + fst c) ds e"
        by (rule first_free_ge) (use e Cons in \<open>cases c; simp\<close>)
      ultimately show ?thesis using False Cons w(3) by (cases c) auto
    qed simp
    then have t: "merge_right (off8 q) (off8 ?f) h = h\<lparr>h4_words := ?w\<rparr>"
      using w(1) e f by (auto simp: merge_right_def a header_words [OF b(1)] off8_eq)
    have "headers ?w (q + m) cs e = headers (h4_words h) (q + m) cs e"
      by (rule headers_cong) (use w in auto)
    then have "headers ?w q (put_free m cs) e" using w p by (simp add: tag_def)
    then show ?thesis by (rule that [OF t]) (use e w in auto)
  qed
qed

definition joined :: "tiling \<Rightarrow> nat \<Rightarrow> tiling \<Rightarrow> tiling" where
  "joined as g cs =
     (if as \<noteq> [] \<and> \<not> snd (last as) then butlast as @ put_free (fst (last as) + g) cs else as @ put_free g cs)"

lemma put_free_facts:
  "span (put_free g cs) = g + span cs" "free_span (put_free g cs) = g + free_span cs"
  "first_free p (put_free g cs) e = p" "put_free g cs \<noteq> []" "\<not> snd (hd (put_free g cs))"
  "solid cs \<Longrightarrow> 2 \<le> g \<Longrightarrow> solid (put_free g cs)" "put_free p (put_free g cs) = put_free (p + g) cs"
  "apart cs \<Longrightarrow> apart (put_free g cs)" "used_at q (put_free g cs) = used_at (q + g) cs"
  by (cases "(g, cs)" rule: put_free.cases; auto simp: blocks_apart_Cons add.assoc)+

lemma last_free_bound:
  assumes "solid as" "8 * span as < 2 ^ 31"
  shows "link as = START \<or> (\<exists>q < span as. link as = off8 q)"
proof (cases as rule: split_last_free)
  case (free a p us)
  then have "span a < span as" using assms by simp
  moreover have "link as = off8 (span a)" using free by (simp add: last_free_append all_used_last)
  ultimately show ?thesis by blast
qed (simp add: all_used_last)

lemma no_left_neighbour:
  assumes "chain h as f" "8 * span as < 2 ^ 31" "as = [] \<or> snd (last as)" "link as \<noteq> START"
  shows "link as + bsize h (link as) \<noteq> off8 (span as)"
proof (cases as rule: split_last_free)
  case (free a p us)
  then have "us \<noteq> []" using assms(3) by auto
  then have l: "span a + p < span as" using free assms(1) by (cases us) (auto simp: chain_def)
  have "link as = off8 (span a)" using free by (simp add: last_free_append all_used_last)
  moreover have "bsize h (off8 (span a)) = off8 p"
    using chain_block(1) [of h a p False us f] assms free by (simp add: tag_def)
  moreover have "off8 (span a + p) \<noteq> off8 (span as)" using l assms(2) by (subst off8_eq) auto
  ultimately show ?thesis by (simp add: off8_add)
qed (use assms in \<open>simp add: all_used_last\<close>)

lemma insert_joined:
  assumes c: "chain h (a @ [(p, False)]) (first_free (span a + p + g) cs e)"
    and e: "e = span a + p + g + span cs" "8 * e < 2 ^ 31" "end_off h = off8 e"
    and w: "h4_words h (2 * (span a + p) + 1) = off8 g" "headers (h4_words h) (span a + p + g) cs e" "solid cs" "2 \<le> g"
  obtains w s where "insert_at (off8 (span a)) (off8 (span a + p)) h = h\<lparr>h4_words := w, start_next := s\<rparr>"
    "chain (h\<lparr>h4_words := w, start_next := s\<rparr>) (a @ put_free (p + g) cs) e"
    "\<And>i. 2 * e \<le> i \<Longrightarrow> w i = h4_words h i"
proof -
  let ?q = "span a" and ?f = "first_free (span a + p + g) cs e"
  have b: "8 * ?q < 2 ^ 31" "8 * (?q + p) < 2 ^ 31" using e by auto
  have k: "chain h a ?q" "2 \<le> p" "h4_words h (2 * ?q + 1) = off8 p" "h4_words h (2 * ?q) = off8 ?f"
    using c by (auto simp: chain_append tag_def)
  let ?v = "(h4_words h)(2 * ?q + 1 := off8 (p + g))" and ?h = "h\<lparr>h4_words := (h4_words h)(2 * span a + 1 := off8 (p + g))\<rparr>"
  have l: "merge_left (off8 ?q) (off8 (?q + p)) h = (off8 ?q, ?h)"
    using b w(1) k
    by (simp add: merge_left_def header_words [OF b(1)] header_words [OF b(2)] flip: off8_add del: One_nat_def)
  have n: "next_of ?h (off8 ?q) = off8 ?f"
    using b k by (simp add: next_of_def header_words [OF b(1)])
  have hv: "headers (h4_words ?h) (?q + (p + g)) cs e"
    using w(2) headers_cong [of cs "?q + (p + g)" "h4_words ?h" "h4_words h" e] w(3) k(2) by (simp add: add.assoc)
  obtain x where x: "merge_right (off8 ?q) (off8 (first_free (?q + (p + g)) cs e)) ?h = ?h\<lparr>h4_words := x\<rparr>"
    "headers x ?q (put_free (p + g) cs) e" "\<And>i. i < 2 * ?q \<or> 2 * e \<le> i \<Longrightarrow> x i = h4_words ?h i"
    using merge_right_law [of e ?q "p + g" cs ?h] e hv w k by auto
  have t: "insert_at (off8 ?q) (off8 (?q + p)) h = h\<lparr>h4_words := x, start_next := start_next h\<rparr>"
    using x(1) unfolding insert_at_def l case_prod_conv Let_def n by (simp add: add.assoc)
  have "chain (h\<lparr>h4_words := x, start_next := start_next h\<rparr>) a ?q = chain h a ?q"
    by (rule chain_cong) (use x(3) in auto)
  then have "chain (h\<lparr>h4_words := x, start_next := start_next h\<rparr>) (a @ put_free (p + g) cs) e"
    using k x(2) w by (simp add: chain_append put_free_facts)
  then show ?thesis by (rule that [OF t]) (use x(3) e w in auto)
qed

lemma insert_apart:
  assumes c: "chain h as (first_free (span as + g) cs e)" "as = [] \<or> snd (last as)"
    and e: "e = span as + g + span cs" "8 * e < 2 ^ 31" "end_off h = off8 e"
    and w: "h4_words h (2 * span as + 1) = off8 g" "headers (h4_words h) (span as + g) cs e" "solid cs" "2 \<le> g"
  obtains w s where "insert_at (link as) (off8 (span as)) h = h\<lparr>h4_words := w, start_next := s\<rparr>"
    "chain (h\<lparr>h4_words := w, start_next := s\<rparr>) (as @ put_free g cs) e"
    "\<And>i. 2 * e \<le> i \<Longrightarrow> w i = h4_words h i"
proof -
  let ?q = "span as" and ?f = "first_free (span as + g) cs e"
  have b: "8 * ?q < 2 ^ 31" using e by auto
  have l: "merge_left (link as) (off8 ?q) h = (off8 ?q, h)"
    using no_left_neighbour [OF c(1) b c(2)] by (auto simp: merge_left_def)
  have n: "next_of h (link as) = off8 ?f" by (rule chain_next [OF c(1) b])
  obtain x where x: "merge_right (off8 ?q) (off8 ?f) h = h\<lparr>h4_words := x\<rparr>"
    "headers x ?q (put_free g cs) e" "\<And>i. i < 2 * ?q \<or> 2 * e \<le> i \<Longrightarrow> x i = h4_words h i"
    using merge_right_law [OF e w] by blast
  have "chain (h\<lparr>h4_words := x\<rparr>) as ?f = chain h as ?f"
    by (rule chain_cong) (use x(3) in auto)
  then obtain v s where v: "set_next_of (link as) (off8 ?q) (h\<lparr>h4_words := x\<rparr>) = h\<lparr>h4_words := v, start_next := s\<rparr>"
    "chain (h\<lparr>h4_words := v, start_next := s\<rparr>) as ?q" "\<And>i. 2 * ?q \<le> i \<Longrightarrow> v i = x i"
    using chain_relink [of "h\<lparr>h4_words := x\<rparr>" as ?f ?q] c(1) b that by simp blast
  have ne: "link as \<noteq> off8 ?q"
    using last_free_bound [of as] c(1) b by (auto simp: chain_def off8_eq)
  have t: "insert_at (link as) (off8 ?q) h = h\<lparr>h4_words := v, start_next := s\<rparr>"
    using v(1) ne by (simp add: insert_at_def l n x(1))
  have "headers v ?q (put_free g cs) e = headers x ?q (put_free g cs) e"
    by (rule headers_cong) (use w v(3) in \<open>auto simp: put_free_facts\<close>)
  then have "chain (h\<lparr>h4_words := v, start_next := s\<rparr>) (as @ put_free g cs) e"
    using v(2) x(2) w by (simp add: chain_append put_free_facts)
  then show ?thesis by (rule that [OF t]) (use x(3) v(3) e in auto)
qed

lemma insert_free_law:
  assumes c: "chain h as (first_free (span as + g) cs e)"
    and e: "e = span as + g + span cs" "8 * e < 2 ^ 31" "end_off h = off8 e"
    and w: "h4_words h (2 * span as + 1) = off8 g" "headers (h4_words h) (span as + g) cs e" "solid cs" "2 \<le> g"
  obtains w s where "insert_free (off8 (span as)) h = Some (h\<lparr>h4_words := w, start_next := s\<rparr>)"
    "chain (h\<lparr>h4_words := w, start_next := s\<rparr>) (joined as g cs) e"
    "\<And>i. 2 * e \<le> i \<Longrightarrow> w i = h4_words h i"
proof -
  have f: "span as \<le> first_free (span as + g) cs e"
    using first_free_ge [of "span as + g" cs e] e by simp
  have i: "insert_after h (off8 (span as)) START = Some (link as)"
    using insert_after_law [OF c f] first_free_le [of "span as + g" cs e] e by simp
  show ?thesis
  proof (cases "as = [] \<or> snd (last as)")
    case True
    obtain v s where r: "insert_at (link as) (off8 (span as)) h = h\<lparr>h4_words := v, start_next := s\<rparr>"
      "chain (h\<lparr>h4_words := v, start_next := s\<rparr>) (as @ put_free g cs) e"
      "\<And>i. 2 * e \<le> i \<Longrightarrow> v i = h4_words h i"
      using insert_apart [OF c True e w] by blast
    show ?thesis
      by (rule that [where w = v and s = s]) (use True i r in \<open>auto simp: insert_free_def joined_def\<close>)
  next
    case False
    then have "as = butlast as @ [(fst (last as), False)]"
      using append_butlast_last_id [of as] by (metis (full_types) prod.collapse)
    then obtain a p where a: "as = a @ [(p, False)]" by blast
    obtain v s where r: "insert_at (off8 (span a)) (off8 (span a + p)) h = h\<lparr>h4_words := v, start_next := s\<rparr>"
      "chain (h\<lparr>h4_words := v, start_next := s\<rparr>) (a @ put_free (p + g) cs) e"
      "\<And>i. 2 * e \<le> i \<Longrightarrow> v i = h4_words h i"
      using insert_joined [of h a p g cs e] c e w a that by simp blast
    show ?thesis
      by (rule that [where w = v and s = s]) (use a i r in \<open>auto simp: insert_free_def joined_def last_free_append\<close>)
  qed
qed

lemma used_at_append: "used_at p (as @ bs) = used_at p as \<union> used_at (p + span as) bs"
  by (induction p as rule: used_at.induct) (auto simp: add.assoc)

lemma used_at_range: "solid bs \<Longrightarrow> q \<in> used_at p bs \<Longrightarrow> p \<le> q \<and> q + 2 \<le> p + span bs"
  by (induction p bs rule: used_at.induct) (fastforce split: if_splits)+

lemma used_at_split:
  assumes "q \<in> used_at p bs"
  obtains as g cs where "bs = as @ (g, True) # cs" "q = p + span as"
proof -
  have "\<exists>as g cs. bs = as @ (g, True) # cs \<and> q = p + span as"
    using assms
  proof (induction p bs rule: used_at.induct)
    case (2 p g u bs)
    show ?case
    proof (cases "u \<and> q = p")
      case True
      then show ?thesis by (intro exI [of _ "[]"]) auto
    next
      case False
      then have "q \<in> used_at (p + g) bs" using 2(3) by (auto split: if_splits)
      then obtain as k cs where "bs = as @ (k, True) # cs" "q = p + g + span as"
        using 2(1,2) by (cases u) blast+
      then show ?thesis by (intro exI [of _ "(g, u) # as"]) auto
    qed
  qed simp
  then show ?thesis using that by blast
qed

lemma joined_facts:
  assumes "apart (as @ (g, True) # cs)" "solid (as @ (g, True) # cs)"
  shows "span (joined as g cs) = span (as @ (g, True) # cs)"
    "free_span (joined as g cs) = g + free_span (as @ (g, True) # cs)"
    "apart (joined as g cs)"
    "used_at 0 (joined as g cs) = used_at 0 (as @ (g, True) # cs) - {span as}"
proof -
  have u: "span as \<notin> used_at 0 as" "\<And>p. p \<le> span as \<Longrightarrow> p \<notin> used_at (span as + g) cs" "\<And>q. q \<in> used_at 0 as \<Longrightarrow> q < span as"
    using used_at_range [of as "span as" 0] used_at_range [of cs _ "span as + g"] used_at_range [of as _ 0] assms(2)
    by fastforce+
  have "span (joined as g cs) = span (as @ (g, True) # cs) \<and>
    free_span (joined as g cs) = g + free_span (as @ (g, True) # cs) \<and> apart (joined as g cs) \<and>
    used_at 0 (joined as g cs) = used_at 0 (as @ (g, True) # cs) - {span as}"
  proof (cases "as = [] \<or> snd (last as)")
    case True
    then show ?thesis using assms u
      by (auto simp: joined_def put_free_facts apart_append blocks_apart_Cons used_at_append)
  next
    case False
    then have "as = butlast as @ [(fst (last as), False)]"
      using append_butlast_last_id [of as] by (metis (full_types) prod.collapse)
    then obtain a p where a: "as = a @ [(p, False)]" by blast
    show ?thesis using assms u
      by (auto simp: a joined_def put_free_facts apart_append blocks_apart_Cons used_at_append add.assoc)
  qed
  then show "span (joined as g cs) = span (as @ (g, True) # cs)"
    "free_span (joined as g cs) = g + free_span (as @ (g, True) # cs)" "apart (joined as g cs)"
    "used_at 0 (joined as g cs) = used_at 0 (as @ (g, True) # cs) - {span as}" by blast+
qed

lemma release_joined:
  assumes "apart (as @ (g, True) # cs)" "solid (as @ (g, True) # cs)"
  shows "release (span as) (as @ (g, True) # cs) = Some (joined as g cs)"
  using assms
proof (induction as)
  case Nil
  then show ?case by (simp add: joined_def)
next
  case (Cons b as)
  obtain k u where b: "b = (k, u)" by (cases b)
  have ih: "release (span as) (as @ (g, True) # cs) = Some (joined as g cs)"
    using Cons by (auto simp: b blocks_apart_Cons)
  show ?case
  proof (cases as)
    case Nil
    then show ?thesis using ih Cons.prems by (cases u) (auto simp: b joined_def put_free_facts)
  next
    case as: (Cons c ds)
    have "u \<or> snd c" using Cons.prems(1) by (auto simp: b as blocks_apart_Cons)
    moreover have "joined (b # as) g cs = b # joined as g cs"
      using as by (simp add: joined_def)
    moreover have "u \<or> put_free k (joined as g cs) = (k, False) # joined as g cs"
    proof (cases u)
      case False
      then have c: "snd c" using \<open>u \<or> snd c\<close> by blast
      have "\<exists>x ys. joined as g cs = (x, True) # ys"
        using c as by (cases c; cases ds) (auto simp: joined_def)
      then show ?thesis by auto
    qed simp
    ultimately show ?thesis using ih Cons.prems(2) by (cases u) (auto simp: b)
  qed
qed

lemma alloc_bit_nonzero: "ALLOC_BIT \<noteq> 0"
  by (simp add: ALLOC_BIT_def)

lemma heap_free_law:
  assumes h: "holds h bs" and q: "q \<in> used_at 0 bs"
  obtains h' cs where "release q bs = Some cs" "heap4_free (off8 (q + 1)) h = Some (Inr (), h')" "holds h' cs"
    "used_at 0 cs = used_at 0 bs - {q}" "span cs = span bs" "h4_size h' = h4_size h" "end_off h' = end_off h"
    "h4_allocs h' = h4_allocs h" "h4_frees h' = h4_frees h + 1" "min_ever_free h' = min_ever_free h"
proof -
  obtain as g cs where b: "bs = as @ (g, True) # cs" "q = span as"
    using used_at_split [OF q] by auto
  let ?e = "span bs" and ?f = "first_free (span as + g) cs (span bs)"
  have c: "chain h as ?f" "8 * ?e < 2 ^ 31" "2 \<le> g" "solid cs" "headers (h4_words h) (q + g) cs ?e"
    "h4_words h (2 * q) = NONE" "h4_words h (2 * q + 1) = off8 g OR ALLOC_BIT" "8 * ?e + 8 \<le> unat (h4_size h)"
    "end_off h = off8 ?e" "apart (as @ (g, True) # cs)" "free_bytes h = off8 (free_span bs)"
    using h b by (auto simp: holds_def chain_append tag_def)
  have s: "solid (as @ (g, True) # cs)" using h b by (simp add: holds_def chain_def)
  have w: "8 * q < 2 ^ 31" "8 * g < 2 ^ 31" "8 * (q + 1) < 2 ^ 31" using c(2,3) b by auto
  have o: "off8 (q + 1) - HEAP_STRUCT_SIZE = off8 q" "\<not> off8 (q + 1) < HEAP_STRUCT_SIZE" "\<not> h4_size h \<le> off8 (q + 1)"
  proof -
    show "off8 (q + 1) - HEAP_STRUCT_SIZE = off8 q" by (simp add: off8_def HEAP_STRUCT_SIZE_def)
    show "\<not> off8 (q + 1) < HEAP_STRUCT_SIZE"
      using unat_off8 [OF w(3)] by (simp add: word_less_nat_alt HEAP_STRUCT_SIZE_def)
    show "\<not> h4_size h \<le> off8 (q + 1)"
      using unat_off8 [OF w(3)] c(3,8) b by (simp add: word_le_nat_alt)
  qed
  let ?v = "(h4_words h)(2 * q + 1 := off8 g)"
  let ?h = "h\<lparr>h4_words := ?v, free_bytes := free_bytes h + off8 g\<rparr>"
  have k: "chain ?h as ?f" using chain_cong [of as ?h h ?f] c(1) b by simp
  have hv: "headers (h4_words ?h) (span as + g) cs ?e"
    using headers_cong [of cs "span as + g" "h4_words ?h" "h4_words h" ?e] c b by auto
  obtain x t where x: "insert_free (off8 q) ?h = Some (?h\<lparr>h4_words := x, start_next := t\<rparr>)"
    "chain (?h\<lparr>h4_words := x, start_next := t\<rparr>) (joined as g cs) ?e"
    "\<And>i. 2 * ?e \<le> i \<Longrightarrow> x i = h4_words ?h i"
    using insert_free_law [OF k _ _ _ _ hv c(4,3)] b c(2,9) that by simp blast
  define h' where "h' = ?h\<lparr>h4_words := x, start_next := t, h4_frees := h4_frees h + 1\<rparr>"
  have f: "heap4_free (off8 (q + 1)) h = Some (Inr (), h')"
    using o c(6,7) x(1) alloc_bit_off8 [OF w(2)] alloc_bit_nonzero
    by (simp add: heap4_free_def Let_def header_words [OF w(1)] h'_def del: One_nat_def)
  have "chain h' (joined as g cs) ?e"
    using x(2) chain_cong [of "joined as g cs" h' "?h\<lparr>h4_words := x, start_next := t\<rparr>" ?e] by (simp add: h'_def)
  moreover have "off8 (free_span bs) + off8 g = off8 (free_span (joined as g cs))"
    using joined_facts(2) [OF c(10) s] b by (simp add: off8_add add.commute)
  moreover have "free_bytes h \<le> free_bytes h'"
    using joined_facts(2) [OF c(10) s] c(2,11) b free_span_le [of bs] free_span_le [of "joined as g cs"]
      joined_facts(1) [OF c(10) s] off8_less [of "free_span (joined as g cs)" "free_span bs"]
    by (simp add: h'_def off8_add add.commute not_less [symmetric])
  ultimately have "holds h' (joined as g cs)"
    using h x(3) joined_facts [OF c(10) s] b c(3) by (auto simp: holds_def h'_def)
  then show ?thesis
    using that [OF _ f] release_joined [OF c(10) s] joined_facts [OF c(10) s] b by (simp add: h'_def)
qed

lemma free_refused:
  assumes "holds h bs" "p < HEAP_STRUCT_SIZE \<or> h4_size h \<le> p"
  shows "heap4_free p h = Some (Inl OutsideArena, h)"
  using assms(2) by (simp add: heap4_free_def)

text \<open>A block that is free already is reported, whether it stands alone or not.\<close>

lemma free_twice:
  assumes h: "holds h bs" and b: "bs = as @ (g, False) # cs"
  shows "heap4_free (off8 (span as + 1)) h = Some (Inl NotAllocated, h)"
proof -
  have c: "8 * span bs < 2 ^ 31" "2 \<le> g" "h4_words h (2 * span as + 1) = off8 g" "8 * span bs + 8 \<le> unat (h4_size h)"
    using h b by (auto simp: holds_def chain_append tag_def)
  have w: "8 * span as < 2 ^ 31" "8 * g < 2 ^ 31" "8 * (span as + 1) < 2 ^ 31" using c b by auto
  have "off8 (span as + 1) - HEAP_STRUCT_SIZE = off8 (span as)" by (simp add: off8_def HEAP_STRUCT_SIZE_def)
  then show ?thesis
    using c(3) alloc_bit_off8(1) [OF w(2)] unat_off8 [OF w(3)] c(2,4) b
    by (simp add: heap4_free_def Let_def header_words [OF w(1)] word_less_nat_alt word_le_nat_alt HEAP_STRUCT_SIZE_def
        del: One_nat_def)
qed

section \<open>Statistics\<close>

fun free_sizes :: "tiling \<Rightarrow> nat list" where
  "free_sizes [] = []"
| "free_sizes ((g, u) # bs) = (if u then free_sizes bs else g # free_sizes bs)"

lemma stats_walk_law:
  assumes "headers (h4_words h) p bs e" "e = p + span bs" "8 * e < 2 ^ 31" "end_off h = off8 e" "solid bs" "8 * m < 2 ^ 31"
  shows "stats_walk h (off8 (first_free p bs e)) (off8 m) n =
    Some (off8 (fold max (free_sizes bs) m), n + of_nat (length (free_sizes bs)))"
  using assms
proof (induction bs arbitrary: p m n)
  case Nil
  then show ?case by (subst stats_walk.simps) simp
next
  case (Cons b bs)
  obtain g u where b: "b = (g, u)" by (cases b)
  show ?case
  proof (cases u)
    case True
    then show ?thesis using Cons by (simp add: b add.assoc)
  next
    case False
    have w: "8 * p < 2 ^ 31" "8 * g < 2 ^ 31" "8 * max m g < 2 ^ 31" using Cons.prems b by auto
    have ne: "off8 p \<noteq> end_off h" using Cons.prems b w by (simp add: off8_eq)
    have mx: "(if off8 m < off8 g then off8 g else off8 m) = off8 (max m g)"
      using Cons.prems(6) w by (simp add: off8_less max_def)
    have "stats_walk h (off8 p) (off8 m) n =
        stats_walk h (off8 (first_free (p + g) bs e)) (off8 (max m g)) (n + 1)"
      using Cons.prems(1) False ne mx w
      by (subst stats_walk.simps) (simp add: b header_words [OF w(1)] tag_def del: One_nat_def flip: mx)
    also have "\<dots> = Some (off8 (fold max (free_sizes bs) (max m g)), n + 1 + of_nat (length (free_sizes bs)))"
      using Cons.IH [of "p + g" "max m g" "n + 1"] Cons.prems w(3) b by (simp add: add.assoc)
    finally show ?thesis using False by (simp add: b max.commute add.assoc)
  qed
qed

lemma stats_law:
  assumes "holds h bs"
  shows "heap4_stats h = Some
    \<lparr>hs_free_bytes = off8 (free_span bs), hs_min_ever_free_bytes = min_ever_free h,
     hs_largest_free_block = off8 (fold max (free_sizes bs) 0), hs_free_blocks = of_nat (length (free_sizes bs)),
     hs_successful_allocs = h4_allocs h, hs_successful_frees = h4_frees h\<rparr>"
  using assms stats_walk_law [of h 0 bs "span bs" 0 0]
  by (simp add: holds_def chain_def heap4_stats_def off8_def)

section \<open>Initialisation\<close>

lemma round_down:
  "(x :: u32) AND NOT 7 = off8 (unat x div 8)"
proof -
  have "(x AND 7) + (x AND NOT 7) = (x AND 7) OR (x AND NOT 7)"
    by (rule disjunctive_add) (simp only: bit_and_iff bit_not_iff, blast)
  also have "\<dots> = x"
    by (rule bit_word_eqI) (simp only: bit_or_iff bit_and_iff bit_not_iff, auto)
  finally have "x AND NOT 7 = x - (x AND 7)" by (metis add_diff_cancel_left')
  also have "\<dots> = of_nat (unat x) - of_nat (unat x mod 8)"
    by (simp only: flip: and_7) simp
  also have "\<dots> = of_nat (unat x - unat x mod 8)" by (simp only: of_nat_diff mod_less_eq_dividend)
  also have "unat x - unat x mod 8 = 8 * (unat x div 8)" by (simp add: minus_mod_eq_mult_div)
  finally show ?thesis by (simp only: off8_def)
qed

lemma init_law:
  assumes "heap4_init base sz w = Some h" "unat sz < 2 ^ 31"
  shows "holds h [((unat sz - 8) div 8, False)]" "h4_size h = sz"
proof -
  let ?k = "(unat sz - 8) div 8"
  have s: "64 \<le> unat sz" using assms(1) by (auto simp: heap4_init_def word_less_nat_alt Let_def split: if_splits)
  then have "unat (sz - HEAP_STRUCT_SIZE) = unat sz - 8"
    by (simp add: HEAP_STRUCT_SIZE_def unat_sub word_le_nat_alt)
  then have e: "(sz - HEAP_STRUCT_SIZE) AND NOT 7 = off8 ?k" by (simp only: round_down)
  have k: "8 * ?k + 8 \<le> unat sz" "2 \<le> ?k" "8 * ?k < 2 ^ 31" "8 * 0 < (2 :: nat) ^ 31" using s assms(2) by auto
  have z: "(0 :: u32) = off8 0" by (simp add: off8_def)
  have "h = set_next (off8 0) (off8 ?k) (set_bsize (off8 0) (off8 ?k) (set_next (off8 ?k) NONE (set_bsize (off8 ?k) 0
                \<lparr>h4_words = w, h4_size = sz, start_next = 0, end_off = off8 ?k, free_bytes = off8 ?k, min_ever_free = off8 ?k,
                 h4_allocs = 0, h4_frees = 0\<rparr>)))"
    using assms(1) unfolding heap4_init_def Let_def e by (auto simp: off8_def split: if_splits)
  then have h: "h = \<lparr>h4_words = w(2 * ?k + 1 := 0, 2 * ?k := NONE, 1 := off8 ?k, 0 := off8 ?k),
     h4_size = sz, start_next = off8 0, end_off = off8 ?k, free_bytes = off8 ?k, min_ever_free = off8 ?k,
                 h4_allocs = 0, h4_frees = 0\<rparr>"
    using k(3) by (simp add: set_next_def set_bsize_def off8_def [of 0])
  show "holds h [((unat sz - 8) div 8, False)]" "h4_size h = sz"
    using k by (auto simp: h holds_def chain_def tag_def)
qed

section \<open>Reachable heaps\<close>

text \<open>
  A client that keeps the contract of \<open>free\<close>: it frees the payload offsets that \<open>malloc\<close>
  returned and that it has not freed yet. The set holds those it has.
\<close>

inductive heap_reach :: "nat \<Rightarrow> u32 \<Rightarrow> (nat \<Rightarrow> u32) \<Rightarrow> heap4 \<Rightarrow> u32 set \<Rightarrow> bool"
  for base :: nat and sz :: u32 and w :: "nat \<Rightarrow> u32"
where
  started: "heap4_init base sz w = Some h \<Longrightarrow> heap_reach base sz w h {}"
| granted: "heap_reach base sz w h L \<Longrightarrow> malloc n h = Some (Some p, h') \<Longrightarrow> heap_reach base sz w h' (insert p L)"
| refused: "heap_reach base sz w h L \<Longrightarrow> malloc n h = Some (None, h') \<Longrightarrow> heap_reach base sz w h' L"
| freed: "heap_reach base sz w h L \<Longrightarrow> p \<in> L \<Longrightarrow> heap4_free p h = Some (Inr (), h') \<Longrightarrow> heap_reach base sz w h' (L - {p})"

definition payloads :: "tiling \<Rightarrow> u32 set" where
  "payloads bs = (\<lambda>q. off8 (q + 1)) ` used_at 0 bs"

lemma malloc_cases:
  assumes "holds h bs"
  obtains (no) "malloc w h = Some (None, h)" "w = 0 \<or> 2 ^ 31 \<le> 8 * request w \<or> fit (request w) 0 bs = None"
    | (yes) q cs h' where "fit (request w) 0 bs = Some (q, cs)" "malloc w h = Some (Some (off8 (q + 1)), h')"
        "holds h' cs" "h4_size h' = h4_size h" "span cs = span bs"
proof (cases "w = 0 \<or> 2 ^ 31 \<le> 8 * request w \<or> fit (request w) 0 bs = None")
  case True
  then show ?thesis using malloc_refused [OF assms] no by blast
next
  case False
  then obtain q cs where f: "w \<noteq> 0" "8 * request w < 2 ^ 31" "fit (request w) 0 bs = Some (q, cs)" by force
  show ?thesis using malloc_granted [OF assms f] yes [OF f(3)] by blast
qed

lemma fit_used: "fit n p bs = Some (q, cs) \<Longrightarrow> used_at p cs = insert q (used_at p bs)"
  by (erule fit_Some) (auto simp: used_at_append add.assoc)

lemma payloads_minus:
  assumes "solid bs" "8 * span bs < 2 ^ 31" "q \<in> used_at 0 bs" "used_at 0 cs = used_at 0 bs - {q}"
  shows "payloads cs = payloads bs - {off8 (q + 1)}"
proof -
  have "8 * (r + 1) < 2 ^ 31" if "r \<in> used_at 0 bs" for r
    using used_at_range [OF assms(1) that] assms(2) by simp
  then have "inj_on (\<lambda>q. off8 (q + 1)) (used_at 0 bs)"
    by (intro inj_onI) (metis off8_eq add_right_cancel)
  then show ?thesis
    unfolding payloads_def assms(4) using assms(3) by (simp add: inj_on_image_set_diff [where C = "used_at 0 bs"])
qed

lemma reach_holds:
  assumes "heap_reach base sz w h L" "unat sz < 2 ^ 31"
  shows "\<exists>bs. holds h bs \<and> L = payloads bs \<and> span bs = (unat sz - 8) div 8 \<and> h4_size h = sz"
  using assms
proof (induction rule: heap_reach.induct)
  case (started h)
  then show ?case using init_law [OF started(1)]
    by (intro exI [of _ "[((unat sz - 8) div 8, False)]"]) (simp add: payloads_def)
next
  case (granted h L n p h')
  then obtain bs where b: "holds h bs" "L = payloads bs" "span bs = (unat sz - 8) div 8" "h4_size h = sz" by blast
  show ?case
    using malloc_cases [OF b(1), of n]
  proof cases
    case (2 q cs k)
    then show ?thesis
      using granted.hyps(2) b fit_used [OF 2(1)] by (intro exI [of _ cs]) (auto simp: payloads_def)
  qed (use granted.hyps(2) in simp)
next
  case (refused h L n h')
  then obtain bs where b: "holds h bs" "L = payloads bs" "span bs = (unat sz - 8) div 8" "h4_size h = sz" by blast
  show ?case
    using malloc_cases [OF b(1), of n] refused.hyps(2) b by cases auto
next
  case (freed h L p h')
  then obtain bs where b: "holds h bs" "L = payloads bs" "span bs = (unat sz - 8) div 8" "h4_size h = sz" by blast
  then obtain q where q: "q \<in> used_at 0 bs" "p = off8 (q + 1)" using freed.hyps(2) by (auto simp: payloads_def)
  from heap_free_law [OF b(1) q(1)] obtain k cs where f: "heap4_free (off8 (q + 1)) h = Some (Inr (), k)" "holds k cs"
    "used_at 0 cs = used_at 0 bs - {q}" "span cs = span bs" "h4_size k = h4_size h" by metis
  have "solid bs" "8 * span bs < 2 ^ 31" using b by (auto simp: holds_def chain_def)
  then show ?case using f q freed.hyps(3) b payloads_minus [OF _ _ q(1) f(3)] by (intro exI [of _ cs]) auto
qed

section \<open>Results\<close>

text \<open>C25: On a heap whose header words hold a tiling, \<open>malloc\<close> returns, and does first fit: the lowest free
  block that takes the request with its header, rounded up to eight bytes, split when the rest is larger than
  the minimum block; otherwise it returns nothing and changes nothing. The new words hold the new tiling and the
  counters follow.\<close>

theorem malloc_first_fit:
  assumes "holds h bs"
  shows "case (if w = 0 \<or> 2 ^ 31 \<le> 8 * request w then None else fit (request w) 0 bs) of
      None \<Rightarrow> malloc w h = Some (None, h)
    | Some (q, cs) \<Rightarrow>
        \<exists>h'. malloc w h = Some (Some (off8 (q + 1)), h') \<and> holds h' cs \<and>
          min_ever_free h' = min (min_ever_free h) (free_bytes h') \<and> h4_allocs h' = h4_allocs h + 1 \<and>
          h4_frees h' = h4_frees h"
proof (cases "w = 0 \<or> 2 ^ 31 \<le> 8 * request w \<or> fit (request w) 0 bs = None")
  case True
  then show ?thesis using malloc_refused [OF assms True] by (auto split: option.split)
next
  case False
  then obtain q cs where f: "w \<noteq> 0" "8 * request w < 2 ^ 31" "fit (request w) 0 bs = Some (q, cs)" by force
  obtain h' where "malloc w h = Some (Some (off8 (q + 1)), h')" "holds h' cs" "h4_allocs h' = h4_allocs h + 1"
    "h4_frees h' = h4_frees h" "min_ever_free h' = min (min_ever_free h) (free_bytes h')"
    using malloc_granted [OF assms f] by blast
  then show ?thesis using f by auto
qed

definition small_heap :: heap4 where
  "small_heap = the (heap4_init 0 128 (\<lambda>_. 0))"

lemma small_heap_init: "heap4_init 0 128 (\<lambda>_. 0) = Some small_heap"
  by (simp add: small_heap_def heap4_init_def Let_def)

lemma small_heap_holds: "holds small_heap [(15, False)]" "h4_size small_heap = 128"
  using init_law [OF small_heap_init] by simp_all

theorem malloc_first_fit_witness:
  "\<exists>h'. malloc 10 small_heap = Some (Some 8, h') \<and> holds h' [(3, True), (12, False)] \<and> malloc 113 small_heap = Some (None, small_heap)"
  using malloc_first_fit [OF small_heap_holds(1), of 10] malloc_first_fit [OF small_heap_holds(1), of 113]
  by (auto simp: request_def off8_def)



text \<open>C27: In every heap that a client can reach by allocating and freeing what it was given, the header words hold a
  tiling of the whole arena by blocks of which no two free ones are neighbours; the client's payloads are exactly the
  used blocks; every further \<open>malloc\<close> returns, every one of the client's payloads can be freed, and the statistics
  are those of the tiling.\<close>

theorem reachable_heap_sound:
  assumes "heap_reach base sz w h L" "unat sz < 2 ^ 31"
  shows "\<exists>bs. holds h bs \<and> span bs = (unat sz - 8) div 8 \<and> L = payloads bs \<and>
      (\<forall>n. malloc n h \<noteq> None) \<and> (\<forall>p\<in>L. \<exists>h'. heap4_free p h = Some (Inr (), h')) \<and>
      map_option hs_largest_free_block (heap4_stats h) = Some (off8 (fold max (free_sizes bs) 0))"
proof -
  obtain bs where b: "holds h bs" "L = payloads bs" "span bs = (unat sz - 8) div 8"
    using reach_holds [OF assms] by blast
  have "malloc n h \<noteq> None" for n using malloc_cases [OF b(1), of n] by cases auto
  moreover have "\<exists>h'. heap4_free p h = Some (Inr (), h')" if pl: "p \<in> L" for p
  proof -
    obtain q where "q \<in> used_at 0 bs" "p = off8 (q + 1)" using pl b(2) unfolding payloads_def by blast
    then show ?thesis using heap_free_law [OF b(1)] by blast
  qed
  ultimately show ?thesis using b stats_law [OF b(1)] by (intro exI [of _ bs]) auto
qed

theorem reachable_heap_sound_witness:
  "\<exists>h. malloc 10 small_heap = Some (Some 8, h) \<and> (\<exists>h'. heap4_free 8 h = Some (Inr (), h')) \<and> malloc 60 h \<noteq> None"
proof -
  obtain h where h: "malloc 10 small_heap = Some (Some (off8 (0 + 1)), h)"
    using malloc_granted [OF small_heap_holds(1), of 10 0 "[(3, True), (12, False)]"] by (auto simp: request_def)
  have r: "heap_reach 0 128 (\<lambda>_. 0) h {off8 1}"
    using granted [OF started [OF small_heap_init] h] by simp
  have "unat (128 :: u32) < 2 ^ 31" by simp
  from reachable_heap_sound [OF r this] have "malloc 60 h \<noteq> None" "\<exists>h'. heap4_free (off8 1) h = Some (Inr (), h')"
    by blast+
  moreover have "off8 1 = 8" by (simp add: off8_def)
  ultimately show ?thesis using h by auto
qed

end
