(* ===== verification/LinkTable.thy ===== *)
theory LinkTable
  imports CheckCode Literals
begin

text \<open>
  The link table of a class, \<open>crates/class-link/src/layout.rs\<close>: a header of 26 words and seven
  regions behind it, read in place. A \<open>Link\<close> is only made by \<open>new\<close> (and \<open>from_raw\<close>, from what
  \<open>new\<close> accepted), which checks that the regions tile the table. A read of a region that would
  be outside the table is \<open>Panic\<close>; that it never happens on a table that \<open>new\<close> accepted is proved
  at the end. The header words are read at constant places inside the 26 words.
\<close>

section \<open>Layout\<close>

definition LINK_MAGIC :: u16 where "LINK_MAGIC = 0x4B03"
definition HEADER_WORDS :: nat where "HEADER_WORDS = 26"
definition LIT_NONE :: u16 where "LIT_NONE = 0xFFFF"
definition SUPER_NONE :: u16 where "SUPER_NONE = 0xFFFF"
definition MREF_INTERFACE :: u8 where "MREF_INTERFACE = 1"
definition POOL_ALIGN :: nat where "POOL_ALIGN = 4"

definition TAG_UTF8 :: u8 where "TAG_UTF8 = 1"
definition TAG_CLASS :: u8 where "TAG_CLASS = 7"
definition TAG_STRING :: u8 where "TAG_STRING = 8"
definition TAG_FIELDREF :: u8 where "TAG_FIELDREF = 9"
definition TAG_METHODREF :: u8 where "TAG_METHODREF = 10"
definition TAG_INTERFACE_METHODREF :: u8 where "TAG_INTERFACE_METHODREF = 11"
definition TAG_NAME_AND_TYPE :: u8 where "TAG_NAME_AND_TYPE = 12"

definition is_methodref :: "u8 \<Rightarrow> bool" where
  "is_methodref tag \<longleftrightarrow> tag = TAG_METHODREF \<or> tag = TAG_INTERFACE_METHODREF"

text \<open>The words that \<open>n\<close> tags take, two to a word.\<close>

definition tag_words :: "nat \<Rightarrow> nat" where
  "tag_words n = (n + 1) div 2"

definition field_kind :: "u8 list \<Rightarrow> u8" where
  "field_kind desc =
     (case desc of
        [] \<Rightarrow> KIND_REF
      | c # _ \<Rightarrow>
          if c \<in> {0x49, 0x53, 0x42, 0x43, 0x5A} then KIND_INT
          else if c = 0x46 then KIND_FLOAT
          else if c = 0x4A then KIND_LONG
          else if c = 0x44 then KIND_DOUBLE
          else KIND_REF)"

definition kind_slots :: "u8 \<Rightarrow> nat" where
  "kind_slots kind = (if kind = KIND_LONG \<or> kind = KIND_DOUBLE then 2 else 1)"

section \<open>Records\<close>

record field_info =
  name_index :: u16
  descriptor_index :: u16
  slot_kind :: u16

definition fi_slot :: "field_info \<Rightarrow> nat" where
  "fi_slot f = unat (slot_kind f AND 0x0FFF)"

definition fi_kind :: "field_info \<Rightarrow> u8" where
  "fi_kind f = ucast (drop_bit 12 (slot_kind f))"

record iface_info =
  utf8_ref :: u16
  hash_lo :: u16
  hash_hi :: u16

definition words32 :: "u16 \<Rightarrow> u16 \<Rightarrow> u32" where
  "words32 lo hi = ucast lo OR push_bit 16 (ucast hi)"

definition iface_hash :: "iface_info \<Rightarrow> u32" where
  "iface_hash f = words32 (hash_lo f) (hash_hi f)"

record method_info =
  info_offset :: u16
  code_offset :: u16
  method_flags :: u16
  lnt_offset :: u16
  sig_lo :: u16
  sig_hi :: u16

definition method_sig_hash :: "method_info \<Rightarrow> u32" where
  "method_sig_hash m = words32 (sig_lo m) (sig_hi m)"

definition has_code :: "method_info \<Rightarrow> bool" where
  "has_code m \<longleftrightarrow> code_offset m \<noteq> 0"

record methodref_desc =
  mref_cp_off :: u16
  argc_flags :: u16

definition mref_argc :: "methodref_desc \<Rightarrow> u8" where
  "mref_argc d = ucast (argc_flags d)"

definition mref_flags :: "methodref_desc \<Rightarrow> u8" where
  "mref_flags d = ucast (drop_bit 8 (argc_flags d))"

definition mref_is_interface :: "methodref_desc \<Rightarrow> bool" where
  "mref_is_interface d \<longleftrightarrow> mref_flags d AND MREF_INTERFACE \<noteq> 0"

record string_desc =
  str_cp_off :: u16
  str_lit :: u16

text \<open>\<open>words_as\<close>: a region viewed as records, whose words are read in order.\<close>

fun field_records :: "u16 list \<Rightarrow> field_info list" where
  "field_records (a # b # c # ws) =
     \<lparr>name_index = a, descriptor_index = b, slot_kind = c\<rparr> # field_records ws"
| "field_records ws = []"

fun iface_records :: "u16 list \<Rightarrow> iface_info list" where
  "iface_records (a # b # c # ws) = \<lparr>utf8_ref = a, hash_lo = b, hash_hi = c\<rparr> # iface_records ws"
| "iface_records ws = []"

fun method_records :: "u16 list \<Rightarrow> method_info list" where
  "method_records (a # b # c # d # e # f # ws) =
     \<lparr>info_offset = a, code_offset = b, method_flags = c, lnt_offset = d, sig_lo = e, sig_hi = f\<rparr> # method_records ws"
| "method_records ws = []"

fun mref_records :: "u16 list \<Rightarrow> methodref_desc list" where
  "mref_records (a # b # ws) = \<lparr>mref_cp_off = a, argc_flags = b\<rparr> # mref_records ws"
| "mref_records ws = []"

fun string_records :: "u16 list \<Rightarrow> string_desc list" where
  "string_records (a # b # ws) = \<lparr>str_cp_off = a, str_lit = b\<rparr> # string_records ws"
| "string_records ws = []"

section \<open>The header\<close>

record link =
  link_words :: "u16 list"
  link_pool :: "u8 list"

definition hdr :: "link \<Rightarrow> nat \<Rightarrow> u16" where
  "hdr l i = link_words l ! i"

definition word32 :: "link \<Rightarrow> nat \<Rightarrow> u32" where
  "word32 l w = words32 (hdr l w) (hdr l (w + 1))"

definition total_words :: "link \<Rightarrow> nat" where "total_words l = unat (hdr l 1)"
definition class_len :: "link \<Rightarrow> nat" where "class_len l = unat (hdr l 2)"
definition cp_count :: "link \<Rightarrow> nat" where "cp_count l = unat (hdr l 3)"
definition fields_len :: "link \<Rightarrow> nat" where "fields_len l = unat (hdr l 4)"
definition statics_len :: "link \<Rightarrow> nat" where "statics_len l = unat (hdr l 5)"
definition ifaces_len :: "link \<Rightarrow> nat" where "ifaces_len l = unat (hdr l 6)"
definition methods_len :: "link \<Rightarrow> nat" where "methods_len l = unat (hdr l 7)"
definition mrefs_len :: "link \<Rightarrow> nat" where "mrefs_len l = unat (hdr l 8)"
definition methods_off :: "link \<Rightarrow> nat" where "methods_off l = unat (hdr l 9)"
definition mrefs_off :: "link \<Rightarrow> nat" where "mrefs_off l = unat (hdr l 10)"
definition bsm_off :: "link \<Rightarrow> nat" where "bsm_off l = unat (hdr l 11)"
definition access_flags :: "link \<Rightarrow> u16" where "access_flags l = hdr l 12"
definition name_ref :: "link \<Rightarrow> nat" where "name_ref l = unat (hdr l 13)"
definition super_ref :: "link \<Rightarrow> nat" where "super_ref l = unat (hdr l 14)"
definition source_file_idx :: "link \<Rightarrow> u16" where "source_file_idx l = hdr l 15"
definition link_name_hash :: "link \<Rightarrow> u32" where "link_name_hash l = word32 l 16"
definition super_hash :: "link \<Rightarrow> u32" where "super_hash l = word32 l 18"
definition strs_len :: "link \<Rightarrow> nat" where "strs_len l = unat (hdr l 20)"
definition own_slots :: "link \<Rightarrow> nat" where "own_slots l = unat (hdr l 21)"
definition pool_rel :: "link \<Rightarrow> nat" where "pool_rel l = unat (word32 l 23)"
definition pool_len :: "link \<Rightarrow> nat" where "pool_len l = POOL_ALIGN * unat (hdr l 25)"

definition super_idx :: "link \<Rightarrow> nat option" where
  "super_idx l = (if hdr l 22 \<noteq> SUPER_NONE then Some (unat (hdr l 22)) else None)"

definition strs_off :: "link \<Rightarrow> nat" where
  "strs_off l = mrefs_off l + 2 * mrefs_len l"

definition fields_off :: "link \<Rightarrow> nat" where
  "fields_off l = HEADER_WORDS + cp_count l + tag_words (cp_count l)"

definition statics_off :: "link \<Rightarrow> nat" where
  "statics_off l = fields_off l + 3 * fields_len l"

definition ifaces_off :: "link \<Rightarrow> nat" where
  "ifaces_off l = statics_off l + 3 * statics_len l"

text \<open>\<open>Link::new\<close>. The sums are at most a few hundred thousand, far below a 32-bit \<open>usize\<close>.\<close>

definition link_new :: "u16 list \<Rightarrow> u8 list \<Rightarrow> link_error + link" where
  "link_new ws p =
     (let l = \<lparr>link_words = ws, link_pool = p\<rparr>
      in if length ws < HEADER_WORDS \<or> hdr l 0 \<noteq> LINK_MAGIC \<or> total_words l \<noteq> length ws then Inl BadHeader
         else let cp_end = HEADER_WORDS + cp_count l + tag_words (cp_count l);
                  members_end = cp_end + 3 * fields_len l + 3 * statics_len l + 3 * ifaces_len l
              in if members_end \<noteq> methods_off l \<or> methods_off l + 6 * methods_len l \<noteq> mrefs_off l \<or>
                    length ws < strs_off l + 2 * strs_len l
                 then Inl BadHeader else Inr l)"

section \<open>Regions\<close>

text \<open>\<open>words[i]\<close> and \<open>words[off..off + n]\<close>.\<close>

definition word_at :: "link \<Rightarrow> nat \<Rightarrow> fault + u16" where
  "word_at l i = (if i < length (link_words l) then Inr (link_words l ! i) else Inl Panic)"

definition region :: "link \<Rightarrow> nat \<Rightarrow> nat \<Rightarrow> fault + u16 list" where
  "region l off n =
     (if off + n \<le> length (link_words l) then Inr (take n (drop off (link_words l))) else Inl Panic)"

definition on_ok :: "('a \<Rightarrow> 'b) \<Rightarrow> fault + 'a \<Rightarrow> fault + 'b" where
  "on_ok f r = (case r of Inl e \<Rightarrow> Inl e | Inr x \<Rightarrow> Inr (f x))"

definition and_ok :: "fault + 'a \<Rightarrow> ('a \<Rightarrow> fault + 'b) \<Rightarrow> fault + 'b" where
  "and_ok r k = (case r of Inl e \<Rightarrow> Inl e | Inr x \<Rightarrow> k x)"

definition link_fields :: "link \<Rightarrow> fault + field_info list" where
  "link_fields l = on_ok field_records (region l (fields_off l) (3 * fields_len l))"

definition link_statics :: "link \<Rightarrow> fault + field_info list" where
  "link_statics l = on_ok field_records (region l (statics_off l) (3 * statics_len l))"

definition link_interfaces :: "link \<Rightarrow> fault + iface_info list" where
  "link_interfaces l = on_ok iface_records (region l (ifaces_off l) (3 * ifaces_len l))"

definition link_methods :: "link \<Rightarrow> fault + method_info list" where
  "link_methods l = on_ok method_records (region l (methods_off l) (6 * methods_len l))"

definition link_methodrefs :: "link \<Rightarrow> fault + methodref_desc list" where
  "link_methodrefs l = on_ok mref_records (region l (mrefs_off l) (2 * mrefs_len l))"

definition link_strings :: "link \<Rightarrow> fault + string_desc list" where
  "link_strings l = on_ok string_records (region l (strs_off l) (2 * strs_len l))"

section \<open>The constant pool\<close>

definition cp_tag :: "link \<Rightarrow> nat \<Rightarrow> fault + u8 option" where
  "cp_tag l i =
     (if cp_count l \<le> i then Inr None
      else on_ok (\<lambda>w. Some (if even i then ucast w else ucast (drop_bit 8 w)))
             (word_at l (HEADER_WORDS + cp_count l + i div 2)))"

definition cp_word :: "link \<Rightarrow> nat \<Rightarrow> fault + u16 option" where
  "cp_word l i = (if cp_count l \<le> i then Inr None else on_ok Some (word_at l (HEADER_WORDS + i)))"

definition string_at_word :: "link \<Rightarrow> nat \<Rightarrow> fault + string_desc option" where
  "string_at_word l w =
     (if w < strs_off l \<or> odd (w - strs_off l) \<or> strs_len l \<le> (w - strs_off l) div 2 then Inr None
      else and_ok (word_at l w) (\<lambda>a. on_ok (\<lambda>b. Some \<lparr>str_cp_off = a, str_lit = b\<rparr>) (word_at l (w + 1))))"

definition desc_at_word :: "link \<Rightarrow> nat \<Rightarrow> fault + methodref_desc option" where
  "desc_at_word l w =
     (if w < mrefs_off l \<or> odd (w - mrefs_off l) then Inr None
      else on_ok (\<lambda>ds. if (w - mrefs_off l) div 2 < length ds then Some (ds ! ((w - mrefs_off l) div 2)) else None)
             (link_methodrefs l))"

text \<open>The \<open>?\<close> of an accessor: what reads nothing is \<open>None\<close>.\<close>

definition ask :: "fault + 'a option \<Rightarrow> ('a \<Rightarrow> fault + 'b option) \<Rightarrow> fault + 'b option" where
  "ask r k = and_ok r (\<lambda>v. case v of None \<Rightarrow> Inr None | Some x \<Rightarrow> k x)"

definition cp_offset :: "link \<Rightarrow> nat \<Rightarrow> fault + nat option" where
  "cp_offset l i =
     ask (cp_tag l i) (\<lambda>tag. and_ok (word_at l (HEADER_WORDS + i)) (\<lambda>w.
       if is_methodref tag then ask (desc_at_word l (unat w)) (\<lambda>d. Inr (Some (unat (mref_cp_off d))))
       else if tag = TAG_STRING then ask (string_at_word l (unat w)) (\<lambda>d. Inr (Some (unat (str_cp_off d))))
       else Inr (Some (unat w))))"

definition link_string_desc :: "link \<Rightarrow> nat \<Rightarrow> fault + string_desc option" where
  "link_string_desc l i =
     ask (cp_tag l i) (\<lambda>tag. if tag \<noteq> TAG_STRING then Inr None
       else and_ok (word_at l (HEADER_WORDS + i)) (\<lambda>w. string_at_word l (unat w)))"

definition link_methodref_desc :: "link \<Rightarrow> nat \<Rightarrow> fault + methodref_desc option" where
  "link_methodref_desc l i =
     ask (cp_tag l i) (\<lambda>tag. if \<not> is_methodref tag then Inr None
       else and_ok (word_at l (HEADER_WORDS + i)) (\<lambda>w. desc_at_word l (unat w)))"

section \<open>Names\<close>

text \<open>\<open>utf8_at\<close>: the length, then the bytes.\<close>

definition utf8_at :: "u8 list \<Rightarrow> nat \<Rightarrow> u8 list option" where
  "utf8_at data off =
     (case be16_at data off of
        None \<Rightarrow> None
      | Some n \<Rightarrow> get_range data (off + 2) (unat n))"

definition pool_utf8 :: "u8 list \<Rightarrow> nat \<Rightarrow> u8 list option" where
  "pool_utf8 p r = utf8_at p (POOL_ALIGN * r)"

definition link_utf8_ref :: "link \<Rightarrow> nat \<Rightarrow> u8 list option" where
  "link_utf8_ref l r = pool_utf8 (link_pool l) r"

text \<open>A class: its bytes and the table over them.\<close>

record linked =
  class_bytes :: "u8 list"
  class_link :: link

definition lk_utf8 :: "linked \<Rightarrow> nat \<Rightarrow> fault + u8 list option" where
  "lk_utf8 c i =
     ask (cp_tag (class_link c) i) (\<lambda>tag. if tag \<noteq> TAG_UTF8 then Inr None
       else ask (cp_word (class_link c) i) (\<lambda>w. Inr (link_utf8_ref (class_link c) (unat w))))"

definition lk_name :: "linked \<Rightarrow> u8 list option" where
  "lk_name c = link_utf8_ref (class_link c) (name_ref (class_link c))"

definition lk_super_name :: "linked \<Rightarrow> u8 list option" where
  "lk_super_name c =
     (if super_ref (class_link c) = 0 then None
      else link_utf8_ref (class_link c) (super_ref (class_link c)))"

definition lk_interface_name :: "linked \<Rightarrow> iface_info \<Rightarrow> u8 list option" where
  "lk_interface_name c f = link_utf8_ref (class_link c) (unat (utf8_ref f))"

definition lk_cp_class_name :: "linked \<Rightarrow> nat \<Rightarrow> fault + u8 list option" where
  "lk_cp_class_name c i =
     ask (cp_tag (class_link c) i) (\<lambda>tag. if tag \<noteq> TAG_CLASS then Inr None
       else ask (cp_offset (class_link c) i) (\<lambda>off.
            ask (Inr (be16_at (class_bytes c) off)) (\<lambda>ui. lk_utf8 c (unat ui))))"

definition lk_cp_name_and_type :: "linked \<Rightarrow> nat \<Rightarrow> fault + (u8 list \<times> u8 list) option" where
  "lk_cp_name_and_type c i =
     ask (cp_tag (class_link c) i) (\<lambda>tag. if tag \<noteq> TAG_NAME_AND_TYPE then Inr None
       else ask (cp_offset (class_link c) i) (\<lambda>off.
            ask (Inr (be16_at (class_bytes c) off)) (\<lambda>ni.
            ask (Inr (be16_at (class_bytes c) (off + 2))) (\<lambda>di.
            ask (lk_utf8 c (unat ni)) (\<lambda>nm. ask (lk_utf8 c (unat di)) (\<lambda>desc. Inr (Some (nm, desc))))))))"

definition lk_cp_member_ref :: "linked \<Rightarrow> nat \<Rightarrow> fault + (u8 list \<times> u8 list \<times> u8 list) option" where
  "lk_cp_member_ref c i =
     ask (cp_tag (class_link c) i) (\<lambda>tag. if tag \<noteq> TAG_FIELDREF \<and> \<not> is_methodref tag then Inr None
       else ask (cp_offset (class_link c) i) (\<lambda>off.
            ask (Inr (be16_at (class_bytes c) off)) (\<lambda>ci.
            ask (Inr (be16_at (class_bytes c) (off + 2))) (\<lambda>nt.
            ask (lk_cp_class_name c (unat ci)) (\<lambda>cls.
            ask (lk_cp_name_and_type c (unat nt)) (\<lambda>(nm, desc). Inr (Some (cls, nm, desc))))))))"

definition lk_cp_string_utf8 :: "linked \<Rightarrow> nat \<Rightarrow> fault + u8 list option" where
  "lk_cp_string_utf8 c i =
     ask (link_string_desc (class_link c) i) (\<lambda>d.
       ask (Inr (be16_at (class_bytes c) (unat (str_cp_off d)))) (\<lambda>ui. lk_utf8 c (unat ui)))"

definition lk_string_bytes :: "linked \<Rightarrow> string_desc \<Rightarrow> fault + u8 list option" where
  "lk_string_bytes c d =
     ask (Inr (be16_at (class_bytes c) (unat (str_cp_off d)))) (\<lambda>ui. lk_utf8 c (unat ui))"

section \<open>Members\<close>

definition method_name_index :: "linked \<Rightarrow> method_info \<Rightarrow> u16 option" where
  "method_name_index c m = be16_at (class_bytes c) (unat (info_offset m) + 2)"

definition method_descriptor_index :: "linked \<Rightarrow> method_info \<Rightarrow> u16 option" where
  "method_descriptor_index c m = be16_at (class_bytes c) (unat (info_offset m) + 4)"

definition lk_method_name :: "linked \<Rightarrow> method_info \<Rightarrow> fault + u8 list option" where
  "lk_method_name c m = ask (Inr (method_name_index c m)) (\<lambda>i. lk_utf8 c (unat i))"

definition lk_method_descriptor :: "linked \<Rightarrow> method_info \<Rightarrow> fault + u8 list option" where
  "lk_method_descriptor c m = ask (Inr (method_descriptor_index c m)) (\<lambda>i. lk_utf8 c (unat i))"

text \<open>
  The numbers in front of the bytecode. An offset smaller than the distance wraps to one past
  every class, which reads nothing.
\<close>

definition before_code :: "method_info \<Rightarrow> nat \<Rightarrow> nat option" where
  "before_code m k = (if k \<le> unat (code_offset m) then Some (unat (code_offset m) - k) else None)"

definition method_max_stack :: "linked \<Rightarrow> method_info \<Rightarrow> u16" where
  "method_max_stack c m =
     (if code_offset m = 0 then 0
      else case Option.bind (before_code m 8) (be16_at (class_bytes c)) of None \<Rightarrow> 0 | Some v \<Rightarrow> v)"

definition method_max_locals :: "linked \<Rightarrow> method_info \<Rightarrow> u16" where
  "method_max_locals c m =
     (if code_offset m = 0 then 0
      else case Option.bind (before_code m 6) (be16_at (class_bytes c)) of None \<Rightarrow> 0 | Some v \<Rightarrow> v)"

definition method_code_len :: "linked \<Rightarrow> method_info \<Rightarrow> nat" where
  "method_code_len c m =
     (if code_offset m = 0 then 0
      else case Option.bind (before_code m 4) (be32_at (class_bytes c)) of None \<Rightarrow> 0 | Some v \<Rightarrow> unat v)"

text \<open>A sum past a \<open>usize\<close> would read nothing, as would the range it stands for.\<close>

definition method_code :: "linked \<Rightarrow> method_info \<Rightarrow> u8 list" where
  "method_code c m =
     (let start = unat (code_offset m)
      in case get_range (class_bytes c) start (method_code_len c m) of None \<Rightarrow> [] | Some code \<Rightarrow> code)"

definition lk_field_name :: "linked \<Rightarrow> field_info \<Rightarrow> fault + u8 list option" where
  "lk_field_name c f = lk_utf8 c (unat (name_index f))"

definition lk_field_descriptor :: "linked \<Rightarrow> field_info \<Rightarrow> fault + u8 list option" where
  "lk_field_descriptor c f = lk_utf8 c (unat (descriptor_index f))"

section \<open>Reads of an accepted table\<close>

definition reads :: "fault + 'a \<Rightarrow> bool" where
  "reads r \<longleftrightarrow> (\<exists>x. r = Inr x)"

named_theorems reads_intros "reads that do not fault"

lemma reads_Inr [reads_intros]: "reads (Inr x)"
  by (simp add: reads_def)

lemma reads_on_ok [reads_intros]: "reads r \<Longrightarrow> reads (on_ok f r)"
  by (auto simp: reads_def on_ok_def)

lemma reads_and_ok [reads_intros]: "reads r \<Longrightarrow> (\<And>x. r = Inr x \<Longrightarrow> reads (k x)) \<Longrightarrow> reads (and_ok r k)"
  by (auto simp: reads_def and_ok_def)

lemma reads_ask [reads_intros]: "reads r \<Longrightarrow> (\<And>x. r = Inr (Some x) \<Longrightarrow> reads (k x)) \<Longrightarrow> reads (ask r k)"
  unfolding ask_def by (intro reads_intros) (auto split: option.splits intro: reads_intros)

lemma reads_if [reads_intros]: "(b \<Longrightarrow> reads r) \<Longrightarrow> (\<not> b \<Longrightarrow> reads s) \<Longrightarrow> reads (if b then r else s)"
  by simp

lemma length_field_records [simp]: "length (field_records ws) = length ws div 3"
  by (induction ws rule: field_records.induct) auto

lemma length_iface_records [simp]: "length (iface_records ws) = length ws div 3"
  by (induction ws rule: iface_records.induct) auto

lemma length_method_records [simp]: "length (method_records ws) = length ws div 6"
  by (induction ws rule: method_records.induct) auto

lemma length_mref_records [simp]: "length (mref_records ws) = length ws div 2"
  by (induction ws rule: mref_records.induct) auto

lemma length_string_records [simp]: "length (string_records ws) = length ws div 2"
  by (induction ws rule: string_records.induct) auto

text \<open>What \<open>new\<close> leaves: the regions lie behind each other inside the table.\<close>

definition tiles :: "link \<Rightarrow> bool" where
  "tiles l \<longleftrightarrow> HEADER_WORDS \<le> length (link_words l) \<and> ifaces_off l + 3 * ifaces_len l = methods_off l \<and>
     methods_off l + 6 * methods_len l = mrefs_off l \<and> strs_off l + 2 * strs_len l \<le> length (link_words l)"

lemma link_new_tiles: "link_new ws p = Inr l \<Longrightarrow> tiles l"
  by (auto simp: link_new_def Let_def tiles_def ifaces_off_def statics_off_def fields_off_def split: if_splits)

lemma tiles_bounds:
  assumes "tiles l"
  shows "fields_off l + 3 * fields_len l \<le> length (link_words l)" "statics_off l + 3 * statics_len l \<le> length (link_words l)"
    "ifaces_off l + 3 * ifaces_len l \<le> length (link_words l)" "methods_off l + 6 * methods_len l \<le> length (link_words l)"
    "mrefs_off l + 2 * mrefs_len l \<le> length (link_words l)"
  using assms by (auto simp: tiles_def ifaces_off_def statics_off_def strs_off_def)

lemma region_law: "off + n \<le> length (link_words l) \<Longrightarrow> \<exists>ws. region l off n = Inr ws \<and> length ws = n"
  by (simp add: region_def)

lemma link_regions_law:
  assumes "tiles l"
  shows "\<exists>fs. link_fields l = Inr fs \<and> length fs = fields_len l"
    "\<exists>fs. link_statics l = Inr fs \<and> length fs = statics_len l"
    "\<exists>fs. link_interfaces l = Inr fs \<and> length fs = ifaces_len l"
    "\<exists>ms. link_methods l = Inr ms \<and> length ms = methods_len l"
    "\<exists>ds. link_methodrefs l = Inr ds \<and> length ds = mrefs_len l"
    "\<exists>ds. link_strings l = Inr ds \<and> length ds = strs_len l"
  using region_law [OF tiles_bounds(1) [OF assms]] region_law [OF tiles_bounds(2) [OF assms]]
    region_law [OF tiles_bounds(3) [OF assms]] region_law [OF tiles_bounds(4) [OF assms]]
    region_law [OF tiles_bounds(5) [OF assms]] assms region_law [of "strs_off l" "2 * strs_len l" l]
  by (auto simp: link_fields_def link_statics_def link_interfaces_def link_methods_def link_methodrefs_def
      link_strings_def on_ok_def tiles_def)

lemma tag_words_bound: "i < n \<Longrightarrow> i div 2 < tag_words n"
  by (simp add: tag_words_def)

lemma cp_room:
  assumes "tiles l" "i < cp_count l"
  shows "HEADER_WORDS + i < length (link_words l)" "HEADER_WORDS + cp_count l + i div 2 < length (link_words l)"
  using tiles_bounds(1) [OF assms(1)] assms(2) tag_words_bound [OF assms(2)] by (auto simp: fields_off_def)

lemma reads_word: "i < length (link_words l) \<Longrightarrow> reads (word_at l i)"
  by (simp add: word_at_def reads_def)

lemma cp_tag_in: "cp_tag l i = Inr (Some t) \<Longrightarrow> i < cp_count l"
  by (simp add: cp_tag_def split: if_splits)

lemma reads_cp_tag: "tiles l \<Longrightarrow> reads (cp_tag l i)"
  unfolding cp_tag_def by (intro reads_intros reads_word) (use cp_room [of l i] in auto)

lemma reads_cp_word: "tiles l \<Longrightarrow> reads (cp_word l i)"
  unfolding cp_word_def by (intro reads_intros reads_word) (use cp_room [of l i] in auto)

lemma reads_string_at_word:
  assumes "tiles l" shows "reads (string_at_word l w)"
proof -
  have "w + 1 < length (link_words l)" if "strs_off l \<le> w" "even (w - strs_off l)" "(w - strs_off l) div 2 < strs_len l"
  proof -
    from that(2) obtain k where "w - strs_off l = 2 * k" by (elim evenE)
    moreover from this have "w = strs_off l + 2 * k" "k < strs_len l" using that(1,3) by auto
    ultimately show ?thesis using assms by (simp add: tiles_def)
  qed
  then show ?thesis unfolding string_at_word_def by (intro reads_intros reads_word) auto
qed

lemma reads_desc_at_word: "tiles l \<Longrightarrow> reads (desc_at_word l w)"
  unfolding desc_at_word_def using link_regions_law(5) [of l] by (intro reads_intros) (auto simp: reads_def)

lemma reads_cp_offset: "tiles l \<Longrightarrow> reads (cp_offset l i)"
  unfolding cp_offset_def
  by (intro reads_intros reads_cp_tag reads_word reads_desc_at_word reads_string_at_word)
    (auto dest: cp_tag_in cp_room)

lemma reads_descs: "tiles l \<Longrightarrow> reads (link_string_desc l i)" "tiles l \<Longrightarrow> reads (link_methodref_desc l i)"
  unfolding link_string_desc_def link_methodref_desc_def
  by (intro reads_intros reads_cp_tag reads_word reads_desc_at_word reads_string_at_word; auto dest: cp_tag_in cp_room)+

lemmas reads_pool = reads_cp_tag reads_cp_word reads_cp_offset reads_descs

lemma reads_utf8: "tiles (class_link c) \<Longrightarrow> reads (lk_utf8 c i)"
  unfolding lk_utf8_def by (intro reads_intros reads_pool)

lemma reads_names:
  assumes "tiles (class_link c)"
  shows "reads (lk_cp_class_name c i)" "reads (lk_cp_name_and_type c i)" "reads (lk_cp_member_ref c i)"
    "reads (lk_cp_string_utf8 c i)" "reads (lk_string_bytes c d)" "reads (lk_method_name c m)"
    "reads (lk_method_descriptor c m)" "reads (lk_field_name c f)" "reads (lk_field_descriptor c f)"
proof -
  show cn: "reads (lk_cp_class_name c i)" for i
    unfolding lk_cp_class_name_def by (intro reads_intros reads_pool reads_utf8 assms)
  show nt: "reads (lk_cp_name_and_type c i)" for i
    unfolding lk_cp_name_and_type_def by (intro reads_intros reads_pool reads_utf8 assms)
  show "reads (lk_cp_member_ref c i)"
    unfolding lk_cp_member_ref_def
    by (intro reads_intros reads_pool cn nt assms) (auto intro: reads_intros split: prod.splits)
qed (unfold lk_cp_string_utf8_def lk_string_bytes_def lk_method_name_def lk_method_descriptor_def lk_field_name_def
    lk_field_descriptor_def, (intro reads_intros reads_pool reads_utf8 assms)+)

text \<open>C19: On a table that \<open>Link::new\<close> accepts, no accessor reads outside the table, whatever the words of the
  regions are: every region has as many records as the header says, and every constant-pool read, by index, of a
  member and of a name returns.\<close>

theorem link_reads_in_bounds:
  assumes "link_new ws p = Inr l"
  shows "(\<exists>fs sfs ifs ms. link_fields l = Inr fs \<and> length fs = fields_len l \<and> link_statics l = Inr sfs \<and>
        length sfs = statics_len l \<and> link_interfaces l = Inr ifs \<and> length ifs = ifaces_len l \<and>
        link_methods l = Inr ms \<and> length ms = methods_len l) \<and>
    reads (link_methodrefs l) \<and> reads (link_strings l) \<and> reads (cp_tag l i) \<and> reads (cp_word l i) \<and>
    reads (cp_offset l i) \<and> reads (link_string_desc l i) \<and> reads (link_methodref_desc l i) \<and>
    (let c = \<lparr>class_bytes = bs, class_link = l\<rparr>
     in reads (lk_cp_class_name c i) \<and> reads (lk_cp_member_ref c i) \<and> reads (lk_cp_string_utf8 c i) \<and>
        reads (lk_method_name c m) \<and> reads (lk_method_descriptor c m) \<and> reads (lk_field_name c f) \<and>
        reads (lk_field_descriptor c f))"
proof -
  note t = link_new_tiles [OF assms]
  have n: "tiles (class_link \<lparr>class_bytes = bs, class_link = l\<rparr>)" using t by simp
  show ?thesis
    using link_regions_law [OF t] reads_pool [OF t] reads_names [OF n] unfolding Let_def by (auto simp: reads_def)
qed

definition small_table :: "u16 list" where
  "small_table = [0x4B03, 26, 0, 0, 0, 0, 0, 0, 0, 26, 26, 0, 0, 0, 0, 0, 0, 0, 0, 0, 0, 0, 0, 0, 0, 0]"

lemma small_table_new: "link_new small_table [] = Inr \<lparr>link_words = small_table, link_pool = []\<rparr>"
  by (simp add: link_new_def small_table_def Let_def HEADER_WORDS_def LINK_MAGIC_def hdr_def total_words_def cp_count_def
      tag_words_def fields_len_def statics_len_def ifaces_len_def methods_len_def methods_off_def mrefs_off_def
      strs_off_def mrefs_len_def strs_len_def nth_Cons_numeral)

theorem link_reads_in_bounds_witness:
  "reads (cp_offset \<lparr>link_words = small_table, link_pool = []\<rparr> 3) \<and>
   reads (lk_cp_member_ref \<lparr>class_bytes = [], class_link = \<lparr>link_words = small_table, link_pool = []\<rparr>\<rparr> 1)"
  using link_reads_in_bounds [OF small_table_new, of 3] link_reads_in_bounds [OF small_table_new, of 1 "[]"]
  unfolding Let_def by blast

end
