(* ===== verification/ClassFiles.thy ===== *)
theory ClassFiles
  imports LinkTable Strings
begin

text \<open>
  The class files of the JVM, \<open>crates/jvm/src/class_file/\<close>: what is read of a class through its
  link table, and the lookup of a class by name. A \<open>ClassFile\<close> is only made by \<open>linked\<close> from a
  table that \<open>Link::new\<close> accepted, of which no read faults (\<open>link_reads_in_bounds\<close>): the readers
  here give the values read.
\<close>

section \<open>Classes\<close>

record class_file =
  cf_data :: "u8 list"
  cf_link :: link
  cf_name_hash :: u32

definition cf_view :: "class_file \<Rightarrow> linked" where
  "cf_view cf = \<lparr>class_bytes = cf_data cf, class_link = cf_link cf\<rparr>"

definition cf_linked :: "linked \<Rightarrow> link_error + class_file" where
  "cf_linked l =
     (if class_len (class_link l) \<noteq> length (class_bytes l) then Inl (WordMismatch 2)
      else if lk_name l = None then Inl (BadOffset 13)
      else Inr \<lparr>cf_data = class_bytes l, cf_link = class_link l, cf_name_hash = link_name_hash (class_link l)\<rparr>)"

text \<open>The value of a read that does not fault.\<close>

definition got :: "fault + 'a option \<Rightarrow> 'a option" where
  "got r = (case r of Inl _ \<Rightarrow> None | Inr x \<Rightarrow> x)"

definition listed :: "fault + 'a list \<Rightarrow> 'a list" where
  "listed r = (case r of Inl _ \<Rightarrow> [] | Inr xs \<Rightarrow> xs)"

definition scanned_name :: "class_file \<Rightarrow> u8 list" where
  "scanned_name cf = (case lk_name (cf_view cf) of None \<Rightarrow> [] | Some n \<Rightarrow> n)"

definition cf_class_name :: "class_file \<Rightarrow> u8 list option" where
  "cf_class_name cf = Some (scanned_name cf)"

definition nth_opt :: "'a list \<Rightarrow> nat \<Rightarrow> 'a option" where
  "nth_opt xs i = (if i < length xs then Some (xs ! i) else None)"

text \<open>\<open>name_eq\<close>: a loop over names of up to 16 bytes, the library's comparison over longer ones.\<close>

fun name_eq_loop :: "u8 list \<Rightarrow> u8 list \<Rightarrow> bool" where
  "name_eq_loop (a # as) (b # bs) = (if a \<noteq> b then False else name_eq_loop as bs)"
| "name_eq_loop as bs = True"

definition name_eq :: "u8 list \<Rightarrow> u8 list \<Rightarrow> bool" where
  "name_eq a b = (if length a \<noteq> length b then False else if length a \<le> 16 then name_eq_loop a b else a = b)"

definition is_named :: "class_file \<Rightarrow> u8 list \<Rightarrow> u32 \<Rightarrow> bool" where
  "is_named cf n h \<longleftrightarrow> cf_name_hash cf = h \<and> name_eq (scanned_name cf) n"

section \<open>Members\<close>

definition cf_methods :: "class_file \<Rightarrow> method_info list" where
  "cf_methods cf = listed (link_methods (cf_link cf))"

definition cf_fields :: "class_file \<Rightarrow> field_info list" where
  "cf_fields cf = listed (link_fields (cf_link cf))"

definition cf_static_fields :: "class_file \<Rightarrow> field_info list" where
  "cf_static_fields cf = listed (link_statics (cf_link cf))"

definition cf_interfaces :: "class_file \<Rightarrow> iface_info list" where
  "cf_interfaces cf = listed (link_interfaces (cf_link cf))"

definition cp_utf8 :: "class_file \<Rightarrow> u16 \<Rightarrow> u8 list option" where
  "cp_utf8 cf i = got (lk_utf8 (cf_view cf) (unat i))"

definition cf_field_descriptor :: "class_file \<Rightarrow> field_info \<Rightarrow> u8 list option" where
  "cf_field_descriptor cf f = cp_utf8 cf (descriptor_index f)"

definition iface_name :: "class_file \<Rightarrow> iface_info \<Rightarrow> u8 list option" where
  "iface_name cf f = lk_interface_name (cf_view cf) f"

definition interface_name :: "class_file \<Rightarrow> nat \<Rightarrow> u8 list option" where
  "interface_name cf pos = Option.bind (nth_opt (cf_interfaces cf) pos) (iface_name cf)"

definition cf_access_flags :: "class_file \<Rightarrow> u16" where
  "cf_access_flags cf = access_flags (cf_link cf)"

definition is_interface :: "class_file \<Rightarrow> bool" where
  "is_interface cf \<longleftrightarrow> cf_access_flags cf AND 0x0200 \<noteq> 0"

definition is_abstract :: "class_file \<Rightarrow> bool" where
  "is_abstract cf \<longleftrightarrow> cf_access_flags cf AND 0x0400 \<noteq> 0"

definition cf_method_name :: "class_file \<Rightarrow> method_info \<Rightarrow> u8 list option" where
  "cf_method_name cf m = got (lk_method_name (cf_view cf) m)"

definition cf_method_descriptor :: "class_file \<Rightarrow> method_info \<Rightarrow> u8 list option" where
  "cf_method_descriptor cf m = got (lk_method_descriptor (cf_view cf) m)"

definition cf_field_name :: "class_file \<Rightarrow> nat \<Rightarrow> u8 list option" where
  "cf_field_name cf pos = Option.bind (nth_opt (cf_fields cf) pos) (\<lambda>f. cp_utf8 cf (name_index f))"

definition cf_super_hash :: "class_file \<Rightarrow> u32" where
  "cf_super_hash cf = super_hash (cf_link cf)"

text \<open>A string as the bytes that spell it, and back.\<close>

definition bytes_of :: "string \<Rightarrow> u8 list" where
  "bytes_of s = map (\<lambda>c. of_nat (of_char c)) s"

definition text_of :: "u8 list \<Rightarrow> string" where
  "text_of bs = map (\<lambda>b. char_of (unat b)) bs"

definition java_lang_Object :: string where
  "java_lang_Object = ''java/lang/Object''"

definition OBJECT_HASH :: u32 where
  "OBJECT_HASH = name_hash (bytes_of java_lang_Object)"

definition super_class_name :: "class_file \<Rightarrow> u8 list option" where
  "super_class_name cf =
     (case lk_super_name (cf_view cf) of
        None \<Rightarrow> None
      | Some n \<Rightarrow>
          if cf_super_hash cf = OBJECT_HASH \<and> n = bytes_of java_lang_Object then None else Some n)"

section \<open>Exception tables\<close>

record exception_entry =
  start_pc :: u16
  end_pc :: u16
  handler_pc :: u16
  catch_type_index :: u16

text \<open>The entries that are left of a table, as its iterator gives them.\<close>

fun exception_entries :: "u8 list \<Rightarrow> nat \<Rightarrow> nat \<Rightarrow> exception_entry list" where
  "exception_entries data pos 0 = []"
| "exception_entries data pos (Suc n) =
     (case get_range data pos 8 of
        None \<Rightarrow> []
      | Some e \<Rightarrow>
          \<lparr>start_pc = be16 (e ! 0) (e ! 1), end_pc = be16 (e ! 2) (e ! 3), handler_pc = be16 (e ! 4) (e ! 5),
           catch_type_index = be16 (e ! 6) (e ! 7)\<rparr> # exception_entries data (pos + 8) n)"

definition exception_table :: "class_file \<Rightarrow> method_info \<Rightarrow> exception_entry list" where
  "exception_table cf m =
     (if code_offset m = 0 then []
      else let base = unat (code_offset m) + method_code_len (cf_view cf) m
           in case be16_at (cf_data cf) base of
                None \<Rightarrow> []
              | Some num \<Rightarrow>
                  exception_entries (cf_data cf) (base + 2) (min (unat num) ((length (cf_data cf) - base - 2) div 8)))"

section \<open>Constants\<close>

definition TAG_INTEGER :: u8 where "TAG_INTEGER = 3"
definition TAG_FLOAT :: u8 where "TAG_FLOAT = 4"
definition TAG_LONG :: u8 where "TAG_LONG = 5"
definition TAG_DOUBLE :: u8 where "TAG_DOUBLE = 6"
definition TAG_METHOD_HANDLE :: u8 where "TAG_METHOD_HANDLE = 15"
definition TAG_INVOKE_DYNAMIC :: u8 where "TAG_INVOKE_DYNAMIC = 18"

definition cp_class_name :: "class_file \<Rightarrow> u16 \<Rightarrow> u8 list option" where
  "cp_class_name cf i = got (lk_cp_class_name (cf_view cf) (unat i))"

definition cp_string_literal :: "class_file \<Rightarrow> u16 \<Rightarrow> u16 option" where
  "cp_string_literal cf i = map_option str_lit (got (link_string_desc (cf_link cf) (unat i)))"

definition cp_string_utf8 :: "class_file \<Rightarrow> u16 \<Rightarrow> u8 list option" where
  "cp_string_utf8 cf i = got (lk_cp_string_utf8 (cf_view cf) (unat i))"

definition cp_methodref :: "class_file \<Rightarrow> u16 \<Rightarrow> (u8 list \<times> u8 list \<times> u8 list) option" where
  "cp_methodref cf i =
     (case got (cp_tag (cf_link cf) (unat i)) of
        None \<Rightarrow> None
      | Some tag \<Rightarrow> if \<not> is_methodref tag then None else got (lk_cp_member_ref (cf_view cf) (unat i)))"

definition cp_fieldref :: "class_file \<Rightarrow> u16 \<Rightarrow> (u8 list \<times> u8 list \<times> u8 list) option" where
  "cp_fieldref cf i =
     (case got (cp_tag (cf_link cf) (unat i)) of
        None \<Rightarrow> None
      | Some tag \<Rightarrow> if tag \<noteq> TAG_FIELDREF then None else got (lk_cp_member_ref (cf_view cf) (unat i)))"

definition cp_data :: "class_file \<Rightarrow> u16 \<Rightarrow> u8 \<Rightarrow> nat option" where
  "cp_data cf i tag =
     (case got (cp_tag (cf_link cf) (unat i)) of
        None \<Rightarrow> None
      | Some t \<Rightarrow> if t \<noteq> tag then None else got (cp_offset (cf_link cf) (unat i)))"

definition cp_integer :: "class_file \<Rightarrow> u16 \<Rightarrow> i32 option" where
  "cp_integer cf i = Option.bind (cp_data cf i TAG_INTEGER) (be32_at (cf_data cf))"

definition cp_float :: "class_file \<Rightarrow> u16 \<Rightarrow> f32 option" where
  "cp_float cf i = Option.bind (cp_data cf i TAG_FLOAT) (be32_at (cf_data cf))"

definition be64_at :: "u8 list \<Rightarrow> nat \<Rightarrow> u64 option" where
  "be64_at data off =
     Option.bind (be32_at data off) (\<lambda>hi. Option.bind (be32_at data (off + 4)) (\<lambda>lo.
       Some (push_bit 32 (ucast hi) OR ucast lo)))"

definition cp_long :: "class_file \<Rightarrow> u16 \<Rightarrow> i64 option" where
  "cp_long cf i = Option.bind (cp_data cf i TAG_LONG) (be64_at (cf_data cf))"

definition cp_double :: "class_file \<Rightarrow> u16 \<Rightarrow> f64 option" where
  "cp_double cf i = Option.bind (cp_data cf i TAG_DOUBLE) (be64_at (cf_data cf))"

definition cp_method_handle :: "class_file \<Rightarrow> u16 \<Rightarrow> (u8 \<times> u16) option" where
  "cp_method_handle cf i =
     Option.bind (cp_data cf i TAG_METHOD_HANDLE) (\<lambda>off.
       Option.bind (nth_opt (cf_data cf) off) (\<lambda>k. map_option (Pair k) (be16_at (cf_data cf) (off + 1))))"

definition cp_invoke_dynamic :: "class_file \<Rightarrow> u16 \<Rightarrow> (u16 \<times> u16) option" where
  "cp_invoke_dynamic cf i =
     Option.bind (cp_data cf i TAG_INVOKE_DYNAMIC) (\<lambda>off.
       Option.bind (be16_at (cf_data cf) off) (\<lambda>b. map_option (Pair b) (be16_at (cf_data cf) (off + 2))))"

record bootstrap_method =
  method_ref :: u16
  args_off :: u16
  num_args :: u16

text \<open>The walk over the entries before the one asked for.\<close>

fun skip_bootstraps :: "u8 list \<Rightarrow> nat \<Rightarrow> nat \<Rightarrow> nat option" where
  "skip_bootstraps data 0 pos = Some pos"
| "skip_bootstraps data (Suc n) pos =
     (case be16_at data (pos + 2) of
        None \<Rightarrow> None
      | Some k \<Rightarrow> skip_bootstraps data n (pos + (4 + 2 * unat k)))"

definition cf_bootstrap_method :: "class_file \<Rightarrow> u16 \<Rightarrow> bootstrap_method option" where
  "cf_bootstrap_method cf idx =
     (let base = bsm_off (cf_link cf); data = cf_data cf
      in if base = 0 then None
         else Option.bind (be16_at data base) (\<lambda>num.
           if num \<le> idx then None
           else Option.bind (skip_bootstraps data (unat idx) (base + 2)) (\<lambda>pos.
                Option.bind (be16_at data pos) (\<lambda>r. Option.bind (be16_at data (pos + 2)) (\<lambda>k.
                  if pos + 4 < 2 ^ 16
                  then Some \<lparr>method_ref = r, args_off = of_nat (pos + 4), num_args = k\<rparr> else None)))))"

definition bootstrap_argument :: "class_file \<Rightarrow> bootstrap_method \<Rightarrow> nat \<Rightarrow> u16 option" where
  "bootstrap_argument cf b k =
     (if unat (num_args b) \<le> k then None else be16_at (cf_data cf) (unat (args_off b) + 2 * k))"

section \<open>Line numbers\<close>

text \<open>The scan stops at the first entry past the program counter.\<close>

fun line_scan :: "u8 list \<Rightarrow> nat \<Rightarrow> nat \<Rightarrow> nat \<Rightarrow> u16 option \<Rightarrow> u16 option" where
  "line_scan data base 0 at best = best"
| "line_scan data base (Suc n) at best =
     (if unat (be16 (data ! base) (data ! (base + 1))) \<le> at
      then line_scan data (base + 4) n at (Some (be16 (data ! (base + 2)) (data ! (base + 3))))
      else best)"

definition pc_to_line :: "class_file \<Rightarrow> method_info \<Rightarrow> nat \<Rightarrow> u16 option" where
  "pc_to_line cf m at =
     (let off = unat (lnt_offset m); data = cf_data cf
      in if off = 0 \<or> length data < off + 2 then None
         else line_scan data (off + 2)
                (min (unat (be16 (data ! off) (data ! (off + 1)))) ((length data - (off + 2)) div 4)) at None)"

section \<open>The class set\<close>

record class_index =
  ix_fw :: "index_entry list"
  ix_app :: "index_entry list"
  app_base :: nat
  tail_from :: nat

definition LINEAR :: class_index where
  "LINEAR = \<lparr>ix_fw = [], ix_app = [], app_base = 0, tail_from = 0\<rparr>"

text \<open>A section counts as the number of its classes and its index.\<close>

definition index_new :: "(nat \<times> index_entry list) option \<Rightarrow> (nat \<times> index_entry list) option \<Rightarrow> class_index" where
  "index_new fw app =
     (let n = (case fw of None \<Rightarrow> 0 | Some s \<Rightarrow> fst s); k = (case app of None \<Rightarrow> 0 | Some s \<Rightarrow> fst s)
      in \<lparr>ix_fw = (case fw of None \<Rightarrow> [] | Some s \<Rightarrow> snd s), ix_app = (case app of None \<Rightarrow> [] | Some s \<Rightarrow> snd s),
          app_base = n, tail_from = n + k\<rparr>)"

text \<open>\<open>binary_search_by_key\<close> of the standard library.\<close>

function bsearch :: "index_entry list \<Rightarrow> u32 \<Rightarrow> nat \<Rightarrow> nat \<Rightarrow> nat" where
  "bsearch es h base size' =
     (if 1 < size'
      then let half = size' div 2; mid = base + half
           in bsearch es h (if h < ie_hash (es ! mid) then base else mid) (size' - half)
      else base)"
  by pat_completeness auto

termination bsearch
  by (relation "measure (\<lambda>(es, h, base, n). n)") auto

declare bsearch.simps [simp del]

definition probe :: "index_entry list \<Rightarrow> u32 \<Rightarrow> nat option" where
  "probe es h =
     (if es = [] then None
      else let i = bsearch es h 0 (length es)
           in if ie_hash (es ! i) = h then Some (unat (ie_idx (es ! i))) else None)"

record classes =
  files :: "class_file list"
  cl_index :: class_index

definition classes_linear :: "class_file list \<Rightarrow> classes" where
  "classes_linear fs = \<lparr>files = fs, cl_index = LINEAR\<rparr>"

definition named_at :: "classes \<Rightarrow> nat \<Rightarrow> u8 list \<Rightarrow> u32 \<Rightarrow> bool" where
  "named_at cs i n h = (case nth_opt (files cs) i of None \<Rightarrow> False | Some cf \<Rightarrow> is_named cf n h)"

definition tail_scan :: "classes \<Rightarrow> u32 \<Rightarrow> u8 list \<Rightarrow> nat option" where
  "tail_scan cs h n =
     (let t = tail_from (cl_index cs)
      in if length (files cs) < t then None
         else map_option (\<lambda>p. p + t) (position (\<lambda>cf. is_named cf n h) (drop t (files cs))))"

definition app_scan :: "classes \<Rightarrow> u32 \<Rightarrow> u8 list \<Rightarrow> nat option" where
  "app_scan cs h n =
     (case probe (ix_app (cl_index cs)) h of
        None \<Rightarrow> tail_scan cs h n
      | Some i \<Rightarrow>
          let i = app_base (cl_index cs) + i in if named_at cs i n h then Some i else tail_scan cs h n)"

definition find_class_hashed :: "classes \<Rightarrow> u32 \<Rightarrow> u8 list \<Rightarrow> nat option" where
  "find_class_hashed cs h n =
     (case probe (ix_fw (cl_index cs)) h of
        None \<Rightarrow> app_scan cs h n
      | Some i \<Rightarrow> if named_at cs i n h then Some i else app_scan cs h n)"

definition find_class :: "classes \<Rightarrow> u8 list \<Rightarrow> nat option" where
  "find_class cs n = find_class_hashed cs (name_hash n) n"

definition super_of :: "classes \<Rightarrow> nat \<Rightarrow> nat option" where
  "super_of cs ci =
     (case nth_opt (files cs) ci of
        None \<Rightarrow> None
      | Some cf \<Rightarrow>
          let ix = cl_index cs; by_name =
                (case super_class_name cf of
                   None \<Rightarrow> None
                 | Some nm \<Rightarrow> find_class_hashed cs (super_hash (cf_link cf)) nm)
          in if ci < tail_from ix
             then let base = (if ci < app_base ix then 0 else app_base ix)
                  in case super_idx (cf_link cf) of
                       Some loc \<Rightarrow> Some (base + loc)
                     | None \<Rightarrow> if base = 0 then None else by_name
             else by_name)"

end
