(* ===== verification/ClassFileLaws.thy ===== *)
theory ClassFileLaws
  imports ClassFiles
begin

text \<open>
  The lookup of a class by name, which probes two sorted hash indexes before it scans what no
  index covers, is the scan of the whole class table.
\<close>

section \<open>Names\<close>

lemma name_eq_loop_iff: "length a = length b \<Longrightarrow> name_eq_loop a b \<longleftrightarrow> a = b"
  by (induction a b rule: name_eq_loop.induct) auto

lemma name_eq_iff [simp]: "name_eq a b \<longleftrightarrow> a = b"
  by (auto simp: name_eq_def name_eq_loop_iff)

lemma byte_char: "of_nat (of_char (char_of (unat b))) = (b :: u8)"
  using unsigned_less [of b, where 'a=nat] by simp

lemma bytes_text [simp]: "bytes_of (text_of bs) = bs"
  by (simp add: bytes_of_def text_of_def map_idI comp_def byte_char del: of_char_of)

lemma text_bytes [simp]: "text_of (bytes_of s) = s"
  by (induction s) (auto simp: bytes_of_def text_of_def unat_of_nat)

lemma bytes_of_inj: "bytes_of a = bytes_of b \<longleftrightarrow> a = b"
  by (metis text_bytes)

section \<open>The binary search\<close>

lemma bsearch_law:
  assumes "sorted_wrt (<) (map ie_hash es)" "base + n \<le> length es" "0 < n"
  shows "base \<le> bsearch es h base n \<and> bsearch es h base n < base + n \<and>
    (\<forall>k. base \<le> k \<longrightarrow> k < base + n \<longrightarrow> ie_hash (es ! k) = h \<longrightarrow> bsearch es h base n = k)"
  using assms
proof (induction es h base n rule: bsearch.induct)
  case (1 es h base n)
  show ?case
  proof (cases "1 < n")
    case False
    then have "n = 1" using 1(4) by simp
    then show ?thesis by (simp add: bsearch.simps)
  next
    case True
    let ?half = "n div 2" and ?mid = "base + n div 2"
    define b where "b = (if h < ie_hash (es ! ?mid) then base else ?mid)"
    have ih: "b \<le> bsearch es h b (n - ?half) \<and> bsearch es h b (n - ?half) < b + (n - ?half) \<and>
      (\<forall>k. b \<le> k \<longrightarrow> k < b + (n - ?half) \<longrightarrow> ie_hash (es ! k) = h \<longrightarrow> bsearch es h b (n - ?half) = k)"
      using 1(1) [OF True refl refl] 1(2,3) True unfolding b_def by auto
    have eq: "bsearch es h base n = bsearch es h b (n - ?half)"
      using True by (subst bsearch.simps) (simp add: Let_def b_def)
    have s: "i < j \<Longrightarrow> j < length es \<Longrightarrow> ie_hash (es ! i) < ie_hash (es ! j)" for i j
      using 1(2) by (simp add: sorted_wrt_iff_nth_less)
    have mid: "?mid < length es" "?mid < base + n" using 1(3) True by simp_all
    have c: "b \<le> k \<and> k < b + (n - ?half)" if k: "base \<le> k" "k < base + n" "ie_hash (es ! k) = h" for k
    proof (cases "h < ie_hash (es ! ?mid)")
      case less: True
      have "\<not> ?mid \<le> k" using s [of ?mid k] k less 1(3) by (cases "?mid = k") auto
      then show ?thesis using less k(1) by (simp add: b_def)
    next
      case False
      have "\<not> k < ?mid" using s [of k ?mid] k(3) False mid(1) by auto
      then show ?thesis using False k by (simp add: b_def)
    qed
    have r: "base \<le> b" "b + (n - ?half) \<le> base + n" by (simp_all add: b_def)
    show ?thesis unfolding eq
    proof (intro conjI allI impI)
      show "base \<le> bsearch es h b (n - ?half)" "bsearch es h b (n - ?half) < base + n" using ih r by linarith+
      fix k assume "base \<le> k" "k < base + n" "ie_hash (es ! k) = h"
      with c ih show "bsearch es h b (n - ?half) = k" by blast
    qed
  qed
qed

lemma probe_law:
  assumes "sorted_wrt (<) (map ie_hash es)"
  shows "probe es h = Some i \<longleftrightarrow> (\<exists>e\<in>set es. ie_hash e = h \<and> i = unat (ie_idx e))"
proof (cases "es = []")
  case False
  let ?k = "bsearch es h 0 (length es)"
  have k: "?k < length es" "\<And>j. j < length es \<Longrightarrow> ie_hash (es ! j) = h \<Longrightarrow> ?k = j"
    using bsearch_law [OF assms, of 0 "length es" h] False by auto
  have p: "probe es h = (if ie_hash (es ! ?k) = h then Some (unat (ie_idx (es ! ?k))) else None)"
    using False by (simp add: probe_def Let_def)
  show ?thesis
  proof
    assume "probe es h = Some i"
    then have "ie_hash (es ! ?k) = h" "i = unat (ie_idx (es ! ?k))" using p by (simp_all split: if_splits)
    then show "\<exists>e\<in>set es. ie_hash e = h \<and> i = unat (ie_idx e)" using k(1) nth_mem by blast
  next
    assume "\<exists>e\<in>set es. ie_hash e = h \<and> i = unat (ie_idx e)"
    then obtain j where j: "j < length es" "ie_hash (es ! j) = h" "i = unat (ie_idx (es ! j))"
      by (metis in_set_conv_nth)
    then show "probe es h = Some i" using p k(2) [OF j(1,2)] by simp
  qed
qed (simp add: probe_def)

section \<open>Sections\<close>

text \<open>
  What the validation of a section establishes of its index: sorted by hash, without two equal
  hashes, and one entry for each class.
\<close>

definition section_ok :: "index_entry list \<Rightarrow> class_file list \<Rightarrow> bool" where
  "section_ok es fs \<longleftrightarrow> sorted_wrt (<) (map ie_hash es) \<and>
     (\<forall>e\<in>set es. unat (ie_idx e) < length fs \<and> cf_name_hash (fs ! unat (ie_idx e)) = ie_hash e) \<and>
     (\<forall>i<length fs. \<exists>e\<in>set es. unat (ie_idx e) = i)"

definition classes_ok :: "classes \<Rightarrow> bool" where
  "classes_ok cs \<longleftrightarrow> app_base (cl_index cs) \<le> tail_from (cl_index cs) \<and> tail_from (cl_index cs) \<le> length (files cs) \<and>
     section_ok (ix_fw (cl_index cs)) (take (app_base (cl_index cs)) (files cs)) \<and>
     section_ok (ix_app (cl_index cs))
       (take (tail_from (cl_index cs) - app_base (cl_index cs)) (drop (app_base (cl_index cs)) (files cs))) \<and>
     (\<forall>cf\<in>set (files cs). cf_name_hash cf = name_hash (scanned_name cf))"

lemma linear_ok: "(\<forall>cf\<in>set fs. cf_name_hash cf = name_hash (scanned_name cf)) \<Longrightarrow> classes_ok (classes_linear fs)"
  by (simp add: classes_ok_def classes_linear_def LINEAR_def section_ok_def)

lemma section_unique:
  assumes "section_ok es fs" "i < length fs" "j < length fs" "cf_name_hash (fs ! i) = cf_name_hash (fs ! j)"
  shows "i = j"
proof -
  obtain a b where a: "a \<in> set es" "unat (ie_idx a) = i" and b: "b \<in> set es" "unat (ie_idx b) = j"
    using assms(1-3) unfolding section_ok_def by blast
  then have "ie_hash a = ie_hash b" using assms(1,4) by (auto simp: section_ok_def)
  moreover have "inj_on ie_hash (set es)"
    using assms(1) unfolding section_ok_def
    by (metis distinct_map strict_sorted_iff)
  ultimately show ?thesis using a b by (auto dest: inj_onD)
qed

text \<open>The class that a section's index finds is the only one of the section with that hash.\<close>

lemma section_probe:
  assumes "section_ok es fs" "\<forall>cf\<in>set fs. cf_name_hash cf = name_hash (scanned_name cf)"
  shows "(case probe es (name_hash n) of None \<Rightarrow> None | Some i \<Rightarrow> if is_named (fs ! i) n (name_hash n) then Some i else None) =
      position (\<lambda>cf. scanned_name cf = n) fs"
    "probe es (name_hash n) = Some i \<Longrightarrow> i < length fs"
proof -
  have so: "sorted_wrt (<) (map ie_hash es)" using assms(1) by (simp add: section_ok_def)
  show p: "probe es (name_hash n) = Some i \<Longrightarrow> i < length fs" for i
    using assms(1) probe_law [OF so] by (auto simp: section_ok_def)
  have hash: "cf_name_hash (fs ! i) = name_hash n" if "probe es (name_hash n) = Some i" for i
    using assms(1) that probe_law [OF so] by (auto simp: section_ok_def)
  show "(case probe es (name_hash n) of None \<Rightarrow> None | Some i \<Rightarrow> if is_named (fs ! i) n (name_hash n) then Some i else None) =
      position (\<lambda>cf. scanned_name cf = n) fs"
  proof (cases "position (\<lambda>cf. scanned_name cf = n) fs")
    case None
    then have "scanned_name (fs ! i) \<noteq> n" if "i < length fs" for i
      using that by (auto simp: position_None)
    then show ?thesis using None p by (auto simp: is_named_def split: option.splits)
  next
    case (Some j)
    then have j: "j < length fs" "scanned_name (fs ! j) = n" using position_Some [OF Some] by auto
    then have hj: "cf_name_hash (fs ! j) = name_hash n" using assms(2) by auto
    obtain e where e: "e \<in> set es" "unat (ie_idx e) = j" using assms(1) j by (auto simp: section_ok_def)
    then have "probe es (name_hash n) = Some j"
      using probe_law [OF so] assms(1) hj by (auto simp: section_ok_def)
    then show ?thesis using Some j hj by (simp add: is_named_def)
  qed
qed

section \<open>The lookup\<close>

lemma position_append:
  "position P (xs @ ys) = (case position P xs of Some i \<Rightarrow> Some i | None \<Rightarrow> map_option ((+) (length xs)) (position P ys))"
proof (induction xs)
  case Nil
  then show ?case by (cases "position P ys") auto
next
  case (Cons x xs)
  then show ?case by (cases "position P xs"; cases "position P ys") auto
qed

lemma position_cong: "(\<And>x. x \<in> set xs \<Longrightarrow> P x = Q x) \<Longrightarrow> position P xs = position Q xs"
  by (induction xs) auto

lemma find_class_law:
  assumes "classes_ok cs"
  shows "find_class_hashed cs (name_hash n) n = position (\<lambda>cf. scanned_name cf = n) (files cs)"
proof -
  let ?ix = "cl_index cs"
  define F where "F = take (app_base ?ix) (files cs)"
  define A where "A = take (tail_from ?ix - app_base ?ix) (drop (app_base ?ix) (files cs))"
  define T where "T = drop (tail_from ?ix) (files cs)"
  let ?P = "\<lambda>cf. scanned_name cf = n"
  have ok: "section_ok (ix_fw ?ix) F" "section_ok (ix_app ?ix) A" "\<forall>cf\<in>set (files cs). cf_name_hash cf = name_hash (scanned_name cf)"
    "app_base ?ix \<le> tail_from ?ix" "tail_from ?ix \<le> length (files cs)"
    using assms by (auto simp: classes_ok_def F_def A_def)
  have FAT: "files cs = F @ A @ T" and l: "length F = app_base ?ix" "length A = tail_from ?ix - app_base ?ix"
    using ok(4,5) by (auto simp: F_def A_def T_def) (metis append_take_drop_id drop_drop le_add_diff_inverse2)
  have sub: "\<forall>cf\<in>set F. cf_name_hash cf = name_hash (scanned_name cf)" "\<forall>cf\<in>set A. cf_name_hash cf = name_hash (scanned_name cf)"
    "\<forall>cf\<in>set T. cf_name_hash cf = name_hash (scanned_name cf)"
    using ok(3) FAT by auto
  have "position (\<lambda>cf. is_named cf n (name_hash n)) T = position ?P T"
    by (rule position_cong) (use sub(3) in \<open>auto simp: is_named_def\<close>)
  then have t: "tail_scan cs (name_hash n) n = map_option ((+) (length F + length A)) (position ?P T)"
    using ok(4,5) l by (cases "position ?P T") (simp_all add: tail_scan_def Let_def T_def [symmetric] add.commute)
  have na: "named_at cs (app_base ?ix + i) n (name_hash n) = is_named (A ! i) n (name_hash n)" if "i < length A" for i
  proof -
    have "app_base ?ix + i < tail_from ?ix + length T" using that l ok(4) by linarith
    then show ?thesis using that l FAT by (simp add: named_at_def nth_opt_def nth_append)
  qed
  have nf: "named_at cs i n (name_hash n) = is_named (F ! i) n (name_hash n)" if "i < length F" for i
    using that l FAT by (simp add: named_at_def nth_opt_def nth_append)
  have a: "app_scan cs (name_hash n) n = map_option ((+) (length F)) (position ?P (A @ T))"
  proof (cases "probe (ix_app ?ix) (name_hash n)")
    case None
    then have "position ?P A = None" using section_probe(1) [OF ok(2) sub(2), of n] by simp
    then show ?thesis using None t
      by (cases "position ?P T") (simp_all add: app_scan_def position_append add.assoc)
  next
    case (Some i)
    then have "i < length A" "position ?P A = (if is_named (A ! i) n (name_hash n) then Some i else None)"
      using section_probe [OF ok(2) sub(2), of n] by simp_all
    then show ?thesis using Some t na l
      by (cases "position ?P T") (simp_all add: app_scan_def position_append add.assoc Let_def)
  qed
  show ?thesis
  proof (cases "probe (ix_fw ?ix) (name_hash n)")
    case None
    then have "position ?P F = None" using section_probe(1) [OF ok(1) sub(1), of n] by simp
    then show ?thesis using None a FAT by (simp add: find_class_hashed_def position_append)
  next
    case (Some i)
    then have "i < length F" "position ?P F = (if is_named (F ! i) n (name_hash n) then Some i else None)"
      using section_probe [OF ok(1) sub(1), of n] by simp_all
    then show ?thesis using Some a nf FAT by (simp add: find_class_hashed_def position_append)
  qed
qed

text \<open>C18: The indexed lookup of a class by name, two binary searches by hash and a scan of what no section
  indexes, finds what a scan of the whole class table by name finds: the first class with that name, or none.\<close>

theorem find_class_is_scan:
  assumes "classes_ok cs"
  shows "find_class cs n = position (\<lambda>cf. scanned_name cf = n) (files cs) \<and>
    find_class cs n = find_class (classes_linear (files cs)) n"
proof -
  have "classes_ok (classes_linear (files cs))"
    by (rule linear_ok) (use assms in \<open>simp add: classes_ok_def\<close>)
  from find_class_law [OF assms] find_class_law [OF this] show ?thesis
    by (simp add: find_class_def classes_linear_def)
qed

text \<open>A class \<open>A\<close> without a superclass, with a method named and typed \<open>A\<close>.\<close>

definition sig_A :: u32 where "sig_A = sig_hash [0x41] [0x41]"

definition link_A :: link where
  "link_A = \<lparr>link_words = [0x4B03, 35, 6, 2, 0, 0, 0, 1, 0, 29, 35, 0, 0, 1, 0, 0, 0, 0, 0, 0, 0, 0, 0xFFFF, 0, 0, 0,
       0, 1, 0x0100, 0, 0, 0, 0, ucast sig_A, ucast (drop_bit 16 sig_A)],
     link_pool = [0, 0, 0, 0, 0, 1, 0x41, 0]\<rparr>"

definition class_A :: class_file where
  "class_A = \<lparr>cf_data = [0, 0, 0, 1, 0, 1], cf_link = link_A, cf_name_hash = name_hash [0x41]\<rparr>"

definition classes_A :: classes where
  "classes_A = \<lparr>files = [class_A], cl_index =
     \<lparr>ix_fw = [\<lparr>ie_hash = name_hash [0x41], ie_idx = 0\<rparr>], ix_app = [], app_base = 1, tail_from = 1\<rparr>\<rparr>"

lemmas link_A_reads = link_A_def hdr_def nth_Cons_numeral word_at_def HEADER_WORDS_def cp_count_def on_ok_def and_ok_def ask_def

lemma class_A_name: "scanned_name class_A = [0x41]"
  by (simp add: scanned_name_def lk_name_def cf_view_def class_A_def name_ref_def link_A_reads
      link_utf8_ref_def pool_utf8_def POOL_ALIGN_def utf8_at_def be16_at_def get_range_def be16_def)

lemma words32_halves: "words32 (ucast h) (ucast (drop_bit 16 h)) = h"
proof (rule bit_word_eqI)
  fix n assume "n < LENGTH(32)"
  then show "bit (words32 (ucast h) (ucast (drop_bit 16 h))) n = bit h n"
    by (auto simp: words32_def bit_simps)
qed

lemma class_A_methods:
  "cf_methods class_A = [\<lparr>info_offset = 0, code_offset = 0, method_flags = 0, lnt_offset = 0,
     sig_lo = ucast sig_A, sig_hi = ucast (drop_bit 16 sig_A)\<rparr>]"
  by (simp add: cf_methods_def listed_def class_A_def link_methods_def region_def methods_off_def methods_len_def
      link_A_reads)

lemma class_A_utf8: "lk_utf8 (cf_view class_A) 1 = Inr (Some [0x41])"
  by (simp add: lk_utf8_def cf_view_def class_A_def link_A_reads cp_tag_def TAG_UTF8_def cp_word_def
      link_utf8_ref_def pool_utf8_def POOL_ALIGN_def utf8_at_def be16_at_def get_range_def be16_def)

lemma classes_A_ok: "classes_ok classes_A"
  by (simp add: classes_ok_def classes_A_def section_ok_def class_A_name) (simp add: class_A_def)

theorem find_class_is_scan_witness: "find_class classes_A [0x41] = Some 0 \<and> find_class classes_A [0x42] = None"
  using find_class_is_scan [OF classes_A_ok] by (simp add: classes_A_def class_A_name)

end
