(* ===== verification/Hierarchy.thy ===== *)
theory Hierarchy
  imports ClassFiles SideStores
begin

text \<open>
  Resolution over the class set, \<open>crates/jvm/src/interpreter/helpers.rs\<close>: methods, fields, and
  the instance-of relation, along superclasses and superinterfaces, through the class files and
  through the tables of the classes that have no class file. The names are those of a build
  without a shrink map. A loop along superclasses has no value when the chain is a cycle.
\<close>

definition utf8_text :: "u8 list \<Rightarrow> string option" where
  "utf8_text bs = map_option text_of (from_utf8 bs)"

section \<open>Methods of a class\<close>

definition method_at :: "classes \<Rightarrow> nat \<Rightarrow> nat \<Rightarrow> method_info" where
  "method_at cs ci mi = cf_methods (files cs ! ci) ! mi"

definition method_matches :: "classes \<Rightarrow> nat \<Rightarrow> nat \<Rightarrow> string \<Rightarrow> string \<Rightarrow> bool" where
  "method_matches cs ci mi nm desc =
     (case nth_opt (files cs) ci of
        None \<Rightarrow> False
      | Some cf \<Rightarrow>
          (case nth_opt (cf_methods cf) mi of
             None \<Rightarrow> False
           | Some m \<Rightarrow>
               (case cf_method_name cf m of None \<Rightarrow> False | Some n \<Rightarrow> name_eq n (bytes_of nm)) \<and>
               (case cf_method_descriptor cf m of None \<Rightarrow> False | Some d \<Rightarrow> name_eq d (bytes_of desc))))"

text \<open>The methods from position \<open>mi\<close> on, by signature hash first.\<close>

fun method_scan :: "class_file \<Rightarrow> u32 \<Rightarrow> u8 list \<Rightarrow> u8 list \<Rightarrow> nat \<Rightarrow> method_info list \<Rightarrow> nat option" where
  "method_scan cf sig nm desc mi [] = None"
| "method_scan cf sig nm desc mi (m # ms) =
     (if method_sig_hash m \<noteq> sig then method_scan cf sig nm desc (mi + 1) ms
      else if (case cf_method_name cf m of None \<Rightarrow> False | Some n \<Rightarrow> name_eq n nm) \<and>
              (case cf_method_descriptor cf m of None \<Rightarrow> False | Some d \<Rightarrow> name_eq d desc)
      then Some mi
      else method_scan cf sig nm desc (mi + 1) ms)"

text \<open>\<open>classes[ci]\<close> is in range wherever this is called: \<open>ci\<close> comes from a lookup.\<close>

definition find_method_in :: "classes \<Rightarrow> nat \<Rightarrow> string \<Rightarrow> string \<Rightarrow> nat option" where
  "find_method_in cs ci nm desc =
     (let cf = files cs ! ci
      in method_scan cf (sig_hash (bytes_of nm) (bytes_of desc)) (bytes_of nm) (bytes_of desc) 0 (cf_methods cf))"

definition find_method :: "classes \<Rightarrow> string \<Rightarrow> string \<Rightarrow> string \<Rightarrow> (nat \<times> nat) option" where
  "find_method cs cls nm desc =
     Option.bind (find_class cs (bytes_of cls)) (\<lambda>ci. map_option (Pair ci) (find_method_in cs ci nm desc))"

definition super_index :: "classes \<Rightarrow> nat \<Rightarrow> nat option" where
  "super_index cs ci = super_of cs ci"

definition clinit_name :: "u8 list" where
  "clinit_name = bytes_of ''<clinit>''"

definition find_clinit_in :: "class_file \<Rightarrow> nat option" where
  "find_clinit_in cf = position (\<lambda>m. cf_method_name cf m = Some clinit_name) (cf_methods cf)"

section \<open>Descriptors\<close>

text \<open>\<open>chars.by_ref()\<close> up to and past a semicolon, and past further brackets.\<close>

definition past_semicolon :: "string \<Rightarrow> string" where
  "past_semicolon s = drop 1 (dropWhile (\<lambda>c. c \<noteq> CHR '';'') s)"

definition past_element :: "string \<Rightarrow> string" where
  "past_element s =
     (case dropWhile (\<lambda>c. c = CHR ''['') s of
        [] \<Rightarrow> []
      | c # r \<Rightarrow> if c = CHR ''L'' then past_semicolon r else r)"

lemma length_past_semicolon: "length (past_semicolon s) \<le> length s"
  unfolding past_semicolon_def using length_dropWhile_le [of _ s] by (simp add: le_diff_conv le_SucI)

lemma length_past_element: "length (past_element s) \<le> length s"
proof -
  have d: "length (dropWhile (\<lambda>c. c = CHR ''['') s) \<le> length s" by (rule length_dropWhile_le)
  show ?thesis
  proof (cases "dropWhile (\<lambda>c. c = CHR ''['') s")
    case (Cons c r)
    then show ?thesis using d length_past_semicolon [of r] by (simp add: past_element_def)
  qed (simp add: past_element_def del: dropWhile_eq_Nil_conv)
qed

function count_params :: "string \<Rightarrow> nat" where
  "count_params [] = 0"
| "count_params (c # r) =
     (if c = CHR ''L'' then 1 + count_params (past_semicolon r)
      else if c = CHR ''['' then 1 + count_params (past_element r)
      else 1 + count_params r)"
  by pat_completeness auto

termination count_params
  by (relation "measure length")
    (auto simp: le_imp_less_Suc length_past_semicolon length_past_element)

text \<open>\<open>strip_prefix('(')\<close> and the part up to the first \<open>)\<close>; empty without either.\<close>

definition param_part :: "string \<Rightarrow> string" where
  "param_part s =
     (case s of
        [] \<Rightarrow> []
      | c # r \<Rightarrow> if c = CHR ''('' \<and> CHR '')'' \<in> set r then takeWhile (\<lambda>c. c \<noteq> CHR '')'') r else [])"

definition helper_count_args :: "string \<Rightarrow> nat" where
  "helper_count_args desc = count_params (param_part desc)"

definition return_kind :: "u8 list \<Rightarrow> u8" where
  "return_kind desc =
     (let i = (case position (\<lambda>c. c = 0x29) desc of None \<Rightarrow> 0 | Some i \<Rightarrow> i + 1);
          k = (case nth_opt desc i of None \<Rightarrow> 0x56 | Some k \<Rightarrow> k)
      in if k = 0x5B \<or> k = 0x4C then 0x4C else k)"

text \<open>\<open>ParamKinds\<close>: the kind that comes next and what is left, \<open>None\<close> at the end.\<close>

fun skip_dims :: "u8 \<Rightarrow> u8 list \<Rightarrow> (u8 \<times> u8 list) option" where
  "skip_dims c bs = (if c = 0x5B then (case bs of [] \<Rightarrow> None | d # r \<Rightarrow> skip_dims d r) else Some (c, bs))"

declare skip_dims.simps [simp del]

fun next_kind :: "u8 list \<Rightarrow> (u8 \<times> u8 list) option" where
  "next_kind [] = None"
| "next_kind (b # r) =
     (if b = 0x28 then next_kind r
      else if b = 0x29 then None
      else if b = 0x5B \<or> b = 0x4C
      then (case skip_dims b r of
              None \<Rightarrow> None
            | Some (c, q) \<Rightarrow>
                if c = 0x4C
                then (if 0x3B \<in> set q then Some (0x4C, drop 1 (dropWhile (\<lambda>x. x \<noteq> 0x3B) q)) else None)
                else Some (0x4C, q))
      else Some (b, r))"

definition descriptor_return_class :: "string \<Rightarrow> string option" where
  "descriptor_return_class desc =
     (case position (\<lambda>c. c = CHR '')'') desc of
        None \<Rightarrow> None
      | Some i \<Rightarrow>
          (let rest = drop (i + 1) desc
           in if rest \<noteq> [] \<and> hd rest = CHR ''L'' \<and> last rest = CHR '';'' then Some (butlast (tl rest)) else None))"

section \<open>Boxes\<close>

definition box_class :: "u8 \<Rightarrow> string option" where
  "box_class kind =
     (if kind = 0x49 then Some java_lang_Integer
      else if kind = 0x4A then Some java_lang_Long
      else if kind = 0x46 then Some java_lang_Float
      else if kind = 0x44 then Some java_lang_Double
      else if kind = 0x5A then Some java_lang_Boolean
      else if kind = 0x43 then Some java_lang_Character
      else if kind = 0x42 then Some java_lang_Byte
      else if kind = 0x53 then Some java_lang_Short
      else None)"

section \<open>Classes without a class file\<close>

definition BUILTIN_SUPER :: "(string \<times> string) list" where
  "BUILTIN_SUPER = [
     (''java/lang/Throwable'', ''java/lang/Object''),
     (''java/lang/Exception'', ''java/lang/Throwable''),
     (''java/lang/Error'', ''java/lang/Throwable''),
     (''java/lang/RuntimeException'', ''java/lang/Exception''),
     (''java/lang/InterruptedException'', ''java/lang/Exception''),
     (''java/lang/IllegalThreadStateException'', ''java/lang/IllegalArgumentException''),
     (''java/lang/IllegalMonitorStateException'', ''java/lang/RuntimeException''),
     (''java/lang/ReflectiveOperationException'', ''java/lang/Exception''),
     (''java/lang/ClassNotFoundException'', ''java/lang/ReflectiveOperationException''),
     (''java/lang/InstantiationException'', ''java/lang/ReflectiveOperationException''),
     (''java/lang/IllegalAccessException'', ''java/lang/ReflectiveOperationException''),
     (''java/util/concurrent/ExecutionException'', ''java/lang/Exception''),
     (''java/util/concurrent/CancellationException'', ''java/lang/IllegalStateException''),
     (''java/util/concurrent/TimeoutException'', ''java/lang/Exception''),
     (''java/util/concurrent/RejectedExecutionException'', ''java/lang/RuntimeException''),
     (''java/lang/IllegalArgumentException'', ''java/lang/RuntimeException''),
     (''java/lang/NullPointerException'', ''java/lang/RuntimeException''),
     (''java/lang/IllegalStateException'', ''java/lang/RuntimeException''),
     (''java/lang/ArithmeticException'', ''java/lang/RuntimeException''),
     (''java/lang/ClassCastException'', ''java/lang/RuntimeException''),
     (''java/lang/UnsupportedOperationException'', ''java/lang/RuntimeException''),
     (''java/lang/IndexOutOfBoundsException'', ''java/lang/RuntimeException''),
     (''java/util/NoSuchElementException'', ''java/lang/RuntimeException''),
     (''java/lang/NumberFormatException'', ''java/lang/IllegalArgumentException''),
     (''java/util/IllegalFormatException'', ''java/lang/IllegalArgumentException''),
     (''java/util/IllegalFormatConversionException'', ''java/util/IllegalFormatException''),
     (''java/util/IllegalFormatPrecisionException'', ''java/util/IllegalFormatException''),
     (''java/util/MissingFormatArgumentException'', ''java/util/IllegalFormatException''),
     (''java/util/UnknownFormatConversionException'', ''java/util/IllegalFormatException''),
     (''java/io/IOException'', ''java/lang/Exception''),
     (''java/io/InterruptedIOException'', ''java/io/IOException''),
     (''java/io/UnsupportedEncodingException'', ''java/io/IOException''),
     (''java/net/SocketTimeoutException'', ''java/io/InterruptedIOException''),
     (''java/net/SocketException'', ''java/io/IOException''),
     (''java/net/ConnectException'', ''java/net/SocketException''),
     (''java/net/NoRouteToHostException'', ''java/net/SocketException''),
     (''java/net/BindException'', ''java/net/SocketException''),
     (''java/net/UnknownHostException'', ''java/io/IOException''),
     (''java/net/ProtocolException'', ''java/io/IOException''),
     (''javax/net/ssl/SSLException'', ''java/io/IOException''),
     (''javax/net/ssl/SSLHandshakeException'', ''javax/net/ssl/SSLException''),
     (''javax/net/ssl/SSLPeerUnverifiedException'', ''javax/net/ssl/SSLException''),
     (''java/lang/ArrayIndexOutOfBoundsException'', ''java/lang/IndexOutOfBoundsException''),
     (''java/lang/ArrayStoreException'', ''java/lang/RuntimeException''),
     (''java/lang/StringIndexOutOfBoundsException'', ''java/lang/IndexOutOfBoundsException''),
     (''java/lang/NegativeArraySizeException'', ''java/lang/RuntimeException''),
     (''java/util/ConcurrentModificationException'', ''java/lang/RuntimeException''),
     (''java/lang/OutOfMemoryError'', ''java/lang/Error''),
     (''java/lang/ExceptionInInitializerError'', ''java/lang/Error''),
     (''java/lang/StackOverflowError'', ''java/lang/Error''),
     (''java/lang/NoClassDefFoundError'', ''java/lang/Error''),
     (''java/lang/Integer'', ''java/lang/Number''),
     (''java/lang/Long'', ''java/lang/Number''),
     (''java/lang/Float'', ''java/lang/Number''),
     (''java/lang/Double'', ''java/lang/Number''),
     (''java/lang/Short'', ''java/lang/Number''),
     (''java/lang/Byte'', ''java/lang/Number''),
     (''java/util/LinkedHashMap'', ''java/util/HashMap''),
     (''java/util/LinkedHashSet'', ''java/util/HashSet'')]"

definition BUILTIN_INTERFACES :: "(string \<times> string list) list" where
  "BUILTIN_INTERFACES = [
     (''java/io/Closeable'', [''java/lang/AutoCloseable'']),
     (''java/util/function/UnaryOperator'', [''java/util/function/Function'']),
     (''java/util/function/BinaryOperator'', [''java/util/function/BiFunction'']),
     (''java/util/ArrayList'', [''java/util/List'', ''java/util/Collection'', ''java/lang/Iterable'']),
     (''java/util/HashMap'', [''java/util/Map'']),
     (''java/util/HashSet'', [''java/util/Set'', ''java/util/Collection'', ''java/lang/Iterable'']),
     (''java/util/HashMap$KeySet'', [''java/util/Set'', ''java/util/Collection'', ''java/lang/Iterable'']),
     (''java/util/HashMap$Values'', [''java/util/Collection'', ''java/lang/Iterable'']),
     (''java/util/HashMap$EntrySet'', [''java/util/Set'', ''java/util/Collection'', ''java/lang/Iterable'']),
     (''java/lang/String'', [''java/lang/CharSequence'', ''java/lang/Comparable'']),
     (''java/lang/StringBuilder'', [''java/lang/CharSequence'', ''java/lang/Appendable'']),
     (''java/lang/Integer'', [''java/lang/Comparable'']),
     (''java/lang/Long'', [''java/lang/Comparable'']),
     (''java/lang/Float'', [''java/lang/Comparable'']),
     (''java/lang/Double'', [''java/lang/Comparable'']),
     (''java/lang/Short'', [''java/lang/Comparable'']),
     (''java/lang/Byte'', [''java/lang/Comparable'']),
     (''java/lang/Boolean'', [''java/lang/Comparable'']),
     (''java/lang/Character'', [''java/lang/Comparable'']),
     (''java/lang/Enum'', [''java/lang/Comparable'']),
     (''java/util/List'', [''java/util/Collection'', ''java/lang/Iterable'']),
     (''java/util/Set'', [''java/util/Collection'', ''java/lang/Iterable'']),
     (''java/util/Collection'', [''java/lang/Iterable''])]"

definition table_lookup :: "(string \<times> 'v) list \<Rightarrow> string \<Rightarrow> 'v option" where
  "table_lookup table nm = map_of table nm"

definition builtin_super :: "string \<Rightarrow> string option" where
  "builtin_super nm = table_lookup BUILTIN_SUPER nm"

definition builtin_interfaces :: "string \<Rightarrow> string list" where
  "builtin_interfaces nm = (case table_lookup BUILTIN_INTERFACES nm of None \<Rightarrow> [] | Some is \<Rightarrow> is)"

section \<open>Instance-of\<close>

definition MAX_IFACE_DEPTH :: nat where "MAX_IFACE_DEPTH = 8"

fun iface_reaches_hashed :: "classes \<Rightarrow> u32 \<Rightarrow> u8 list \<Rightarrow> u32 \<Rightarrow> u8 list \<Rightarrow> nat \<Rightarrow> bool" where
  "iface_reaches_hashed cs ih i th t 0 = (ih = th \<and> i = t)"
| "iface_reaches_hashed cs ih i th t (Suc d) =
     (if ih = th \<and> i = t then True
      else if (case utf8_text i of None \<Rightarrow> False | Some nm \<Rightarrow> list_ex (\<lambda>x. bytes_of x = t) (builtin_interfaces nm)) then True
      else case find_class_hashed cs ih i of
             None \<Rightarrow> False
           | Some k \<Rightarrow>
               list_ex (\<lambda>f. case iface_name (files cs ! k) f of
                              None \<Rightarrow> False
                            | Some s \<Rightarrow> iface_reaches_hashed cs (iface_hash f) s th t d)
                 (cf_interfaces (files cs ! k)))"

definition iface_reaches :: "classes \<Rightarrow> u8 list \<Rightarrow> u8 list \<Rightarrow> nat \<Rightarrow> bool" where
  "iface_reaches cs i t d = iface_reaches_hashed cs (name_hash i) i (name_hash t) t d"

text \<open>The interfaces that a class file declares.\<close>

definition level_reaches :: "classes \<Rightarrow> class_file \<Rightarrow> u32 \<Rightarrow> u8 list \<Rightarrow> bool" where
  "level_reaches cs cf th t =
     list_ex (\<lambda>f. case iface_name cf f of
                    None \<Rightarrow> False
                  | Some i \<Rightarrow> iface_reaches_hashed cs (iface_hash f) i th t MAX_IFACE_DEPTH)
       (cf_interfaces cf)"

partial_function (option) instance_loop :: "classes \<Rightarrow> string \<Rightarrow> u32 \<Rightarrow> string \<Rightarrow> u32 \<Rightarrow> bool option" where
  "instance_loop cs target th current ch =
     (if ch = th \<and> current = target then Some True
      else if target \<in> set (builtin_interfaces current) then Some True
      else case find_class_hashed cs ch (bytes_of current) of
             None \<Rightarrow>
               (case builtin_super current of
                  Some s \<Rightarrow> instance_loop cs target th s (name_hash (bytes_of s))
                | None \<Rightarrow> Some False)
           | Some ci \<Rightarrow>
               if level_reaches cs (files cs ! ci) th (bytes_of target) then Some True
               else case super_class_name (files cs ! ci) of
                      None \<Rightarrow> Some False
                    | Some b \<Rightarrow>
                        (case utf8_text b of
                           None \<Rightarrow> Some False
                         | Some s \<Rightarrow> instance_loop cs target th s (cf_super_hash (files cs ! ci))))"

definition is_instance_of :: "classes \<Rightarrow> string \<Rightarrow> string \<Rightarrow> bool option" where
  "is_instance_of cs runtime_class target =
     (if target = java_lang_Object then Some True
      else instance_loop cs target (name_hash (bytes_of target)) runtime_class (name_hash (bytes_of runtime_class)))"

definition java_lang_String :: string where "java_lang_String = ''java/lang/String''"
definition java_lang_Cloneable :: string where "java_lang_Cloneable = ''java/lang/Cloneable''"

definition array_class_name :: "u8 \<Rightarrow> string" where
  "array_class_name atype =
     (if atype = ATYPE_BOOLEAN then ''[Z''
      else if atype = ATYPE_CHAR then ''[C''
      else if atype = ATYPE_FLOAT then ''[F''
      else if atype = ATYPE_DOUBLE then ''[D''
      else if atype = ATYPE_BYTE then ''[B''
      else if atype = ATYPE_SHORT then ''[S''
      else if atype = ATYPE_INT then ''[I''
      else if atype = ATYPE_LONG then ''[J''
      else ''[Ljava/lang/Object;'')"

definition value_is_instance :: "classes \<Rightarrow> object_heap \<Rightarrow> array_heap \<Rightarrow> jvm_value \<Rightarrow> string \<Rightarrow> bool option" where
  "value_is_instance cs os as v target =
     (case v of
        VObjectRef idx \<Rightarrow> is_instance_of cs (case ob_class_name os idx of None \<Rightarrow> [] | Some c \<Rightarrow> c) target
      | VReference _ \<Rightarrow> is_instance_of cs java_lang_String target
      | VArrayRef idx \<Rightarrow>
          if target \<noteq> [] \<and> hd target = CHR ''[''
          then let at = (case ah_atype as idx of None \<Rightarrow> ATYPE_REF | Some a \<Rightarrow> a)
               in if at = ATYPE_REF
                  then Some (case nth_opt target 1 of None \<Rightarrow> False | Some c \<Rightarrow> c = CHR ''L'' \<or> c = CHR ''['')
                  else Some (array_class_name at = target)
          else Some (target = java_lang_Object \<or> target = java_lang_Cloneable)
      | _ \<Rightarrow> Some False)"

section \<open>Method resolution\<close>

definition MAX_IFACES :: nat where "MAX_IFACES = 16"

definition push_interface :: "class_file \<Rightarrow> iface_info \<Rightarrow> (u32 \<times> u8 list) list \<Rightarrow> (u32 \<times> u8 list) list" where
  "push_interface cf f q =
     (case iface_name cf f of
        None \<Rightarrow> q
      | Some n \<Rightarrow> if length q < MAX_IFACES \<and> \<not> list_ex (\<lambda>e. snd e = n) q then q @ [(iface_hash f, n)] else q)"

definition push_interfaces :: "class_file \<Rightarrow> (u32 \<times> u8 list) list \<Rightarrow> (u32 \<times> u8 list) list" where
  "push_interfaces cf q = fold (push_interface cf) (cf_interfaces cf) q"

lemma length_push_interfaces: "length (push_interfaces cf q) \<le> max MAX_IFACES (length q)"
proof -
  have "length (fold (push_interface cf) fs q) \<le> max MAX_IFACES (length q)" for fs
  proof (induction fs arbitrary: q)
    case (Cons f fs)
    have "length (push_interface cf f q) \<le> max MAX_IFACES (length q)"
      by (auto simp: push_interface_def split: option.splits)
    with Cons [of "push_interface cf f q"] show ?case by auto
  qed simp
  then show ?thesis by (simp add: push_interfaces_def)
qed

partial_function (option) chain_interfaces :: "classes \<Rightarrow> nat option \<Rightarrow> (u32 \<times> u8 list) list \<Rightarrow> (u32 \<times> u8 list) list option" where
  "chain_interfaces cs current q =
     (case current of
        None \<Rightarrow> Some q
      | Some ci \<Rightarrow> chain_interfaces cs (super_index cs ci) (push_interfaces (files cs ! ci) q))"

lemma queue_decreases:
  assumes "i < length (q :: 'a list)" "length (q' :: 'a list) \<le> max MAX_IFACES (length q)"
  shows "max MAX_IFACES (length q') - Suc i < max MAX_IFACES (length q) - i"
  using assms by (auto simp: max_def split: if_splits)

function default_loop :: "classes \<Rightarrow> string \<Rightarrow> string \<Rightarrow> nat \<Rightarrow> (u32 \<times> u8 list) list \<Rightarrow>
    (u8 list \<times> nat \<times> nat) option \<Rightarrow> (u8 list \<times> nat \<times> nat) option" where
  "default_loop cs nm desc i q best =
     (if i < length q
      then case q ! i of (h, n) \<Rightarrow>
        (case find_class_hashed cs h n of
           None \<Rightarrow> default_loop cs nm desc (i + 1) q best
         | Some ci \<Rightarrow>
             let q' = push_interfaces (files cs ! ci) q
             in case find_method_in cs ci nm desc of
                  None \<Rightarrow> default_loop cs nm desc (i + 1) q' best
                | Some mi \<Rightarrow>
                    if code_offset (method_at cs ci mi) = 0 then default_loop cs nm desc (i + 1) q' best
                    else case best of
                           Some (held, x) \<Rightarrow>
                             if \<not> iface_reaches cs n held MAX_IFACE_DEPTH then default_loop cs nm desc (i + 1) q' best
                             else default_loop cs nm desc (i + 1) q' (Some (n, ci, mi))
                         | None \<Rightarrow> default_loop cs nm desc (i + 1) q' (Some (n, ci, mi)))
      else best)"
  by pat_completeness auto

termination default_loop
  by (relation "measure (\<lambda>(cs, nm, desc, i, q, best). max MAX_IFACES (length q) - i)")
    (auto intro: queue_decreases length_push_interfaces)

declare default_loop.simps [simp del]

definition find_default_method :: "classes \<Rightarrow> u8 list \<Rightarrow> string \<Rightarrow> string \<Rightarrow> (nat \<times> nat) option option" where
  "find_default_method cs start nm desc =
     map_option (\<lambda>q. map_option snd (default_loop cs nm desc 0 q None))
       (chain_interfaces cs (find_class cs start) [])"

text \<open>The superclass chain: the first class on it that has what is looked for.\<close>

partial_function (option) first_on_chain :: "classes \<Rightarrow> (nat \<Rightarrow> nat option) \<Rightarrow> nat option \<Rightarrow> (nat \<times> nat) option option" where
  "first_on_chain cs has current =
     (case current of
        None \<Rightarrow> Some None
      | Some ci \<Rightarrow>
          (case has ci of
             None \<Rightarrow> first_on_chain cs has (super_index cs ci)
           | Some mi \<Rightarrow> Some (Some (ci, mi))))"

definition method_walk :: "classes \<Rightarrow> string \<Rightarrow> string \<Rightarrow> nat option \<Rightarrow> (nat \<times> nat) option option" where
  "method_walk cs nm desc current = first_on_chain cs (\<lambda>ci. find_method_in cs ci nm desc) current"

definition find_method_walking :: "classes \<Rightarrow> string \<Rightarrow> string \<Rightarrow> string \<Rightarrow> (nat \<times> nat) option option" where
  "find_method_walking cs start nm desc =
     Option.bind (method_walk cs nm desc (find_class cs (bytes_of start))) (\<lambda>r. case r of
       Some hit \<Rightarrow> Some (Some hit)
     | None \<Rightarrow> find_default_method cs (bytes_of start) nm desc)"

text \<open>\<open>superclass_chain_indices\<close>: a vector that grows by one place at a time.\<close>

partial_function (option) chain_loop :: "(nat \<Rightarrow> bool) \<Rightarrow> classes \<Rightarrow> nat option \<Rightarrow> nat \<Rightarrow> nat list \<Rightarrow> (jvm_error + nat list) option" where
  "chain_loop mem cs current cap chain =
     (case current of
        None \<Rightarrow> Some (Inr chain)
      | Some i \<Rightarrow>
          (case vec_reserve mem cap (length chain) 1 of
             None \<Rightarrow> Some (Inl StackOverflow)
           | Some cap' \<Rightarrow> chain_loop mem cs (super_index cs i) cap' (chain @ [i])))"

definition superclass_chain_indices :: "(nat \<Rightarrow> bool) \<Rightarrow> classes \<Rightarrow> nat \<Rightarrow> (jvm_error + nat list) option" where
  "superclass_chain_indices mem cs ci = chain_loop mem cs (Some ci) 0 []"

section \<open>Static fields\<close>

definition declared_in :: "class_file \<Rightarrow> u8 list \<Rightarrow> nat option" where
  "declared_in cf nm =
     position (\<lambda>f. case cp_utf8 cf (name_index f) of None \<Rightarrow> False | Some n \<Rightarrow> name_eq n nm) (cf_static_fields cf)"

text \<open>The superinterfaces in the queue: the declaring one, or the queue when none is.\<close>

function static_queue :: "classes \<Rightarrow> u8 list \<Rightarrow> nat \<Rightarrow> (u32 \<times> u8 list) list \<Rightarrow> (nat \<times> nat) + (u32 \<times> u8 list) list" where
  "static_queue cs nm i q =
     (if i < length q
      then case q ! i of (h, n) \<Rightarrow>
        (case find_class_hashed cs h n of
           None \<Rightarrow> static_queue cs nm (i + 1) q
         | Some ici \<Rightarrow>
             (case declared_in (files cs ! ici) nm of
                Some fi \<Rightarrow> Inl (ici, fi)
              | None \<Rightarrow> static_queue cs nm (i + 1) (push_interfaces (files cs ! ici) q)))
      else Inr q)"
  by pat_completeness auto

termination static_queue
  by (relation "measure (\<lambda>(cs, nm, i, q). max MAX_IFACES (length q) - i)")
    (auto intro: queue_decreases length_push_interfaces)

declare static_queue.simps [simp del]

partial_function (option) static_walk :: "classes \<Rightarrow> u8 list \<Rightarrow> nat option \<Rightarrow> (u32 \<times> u8 list) list \<Rightarrow> (nat \<times> nat) option option" where
  "static_walk cs nm current q =
     (case current of
        None \<Rightarrow> Some None
      | Some ci \<Rightarrow>
          (case declared_in (files cs ! ci) nm of
             Some fi \<Rightarrow> Some (Some (ci, fi))
           | None \<Rightarrow>
               (case static_queue cs nm 0 (push_interfaces (files cs ! ci) q) of
                  Inl hit \<Rightarrow> Some (Some hit)
                | Inr q' \<Rightarrow> static_walk cs nm (super_index cs ci) q')))"

definition resolve_static_field :: "classes \<Rightarrow> u8 list \<Rightarrow> u8 list \<Rightarrow> (nat \<times> nat) option option" where
  "resolve_static_field cs cls nm = static_walk cs nm (find_class cs cls) []"

section \<open>Instance fields\<close>

definition field_width :: "class_file \<Rightarrow> field_info \<Rightarrow> nat" where
  "field_width cf f = (case cf_field_descriptor cf f of None \<Rightarrow> 1 | Some d \<Rightarrow> descriptor_slot_width d)"

partial_function (option) slot_count_walk :: "classes \<Rightarrow> nat \<Rightarrow> nat \<Rightarrow> nat option" where
  "slot_count_walk cs ci slots =
     (let cf = files cs ! ci; slots' = slots + sum_list (map (field_width cf) (cf_fields cf))
      in case super_class_name cf of
           None \<Rightarrow> Some slots'
         | Some b \<Rightarrow>
             (case find_class_hashed cs (cf_super_hash cf) b of
                Some k \<Rightarrow> slot_count_walk cs k slots'
              | None \<Rightarrow> Some (if b = bytes_of java_lang_Enum then slots' + ENUM_IMPLICIT_FIELDS else slots')))"

text \<open>\<open>Some None\<close> for a class that is not loaded.\<close>

definition instance_slot_count :: "classes \<Rightarrow> string \<Rightarrow> nat option option" where
  "instance_slot_count cs cls =
     (case find_class cs (bytes_of cls) of
        None \<Rightarrow> Some None
      | Some ci \<Rightarrow> map_option Some (slot_count_walk cs ci 0))"

text \<open>
  The declaring class of a field, from the named class upward; the outer option is the loop, the
  next one a name that is not UTF-8, the inner one that no loaded class declares it.
\<close>

partial_function (option) declaring_walk :: "classes \<Rightarrow> u8 list \<Rightarrow> string \<Rightarrow> string option option option" where
  "declaring_walk cs nm current =
     (case find_class cs (bytes_of current) of
        None \<Rightarrow> Some (Some None)
      | Some ci \<Rightarrow>
          (if list_ex (\<lambda>fi. cf_field_name (files cs ! ci) fi = Some nm) [0..<length (cf_fields (files cs ! ci))]
           then Some (Some (Some current))
           else case super_class_name (files cs ! ci) of
                  None \<Rightarrow> Some (Some None)
                | Some b \<Rightarrow> (case utf8_text b of None \<Rightarrow> Some None | Some s \<Rightarrow> declaring_walk cs nm s)))"

text \<open>The chain from the class to its root, and whether it ends in \<open>java/lang/Enum\<close>.\<close>

partial_function (option) field_chain :: "classes \<Rightarrow> string \<Rightarrow> nat list \<Rightarrow> (nat list \<times> bool) option option" where
  "field_chain cs current chain =
     (case find_class cs (bytes_of current) of
        None \<Rightarrow> Some (Some (chain, current = java_lang_Enum))
      | Some ci \<Rightarrow>
          (case super_class_name (files cs ! ci) of
             None \<Rightarrow> Some (Some (chain @ [ci], False))
           | Some b \<Rightarrow> (case utf8_text b of None \<Rightarrow> Some None | Some s \<Rightarrow> field_chain cs s (chain @ [ci]))))"

text \<open>The fields of one class: the slot of the one looked for, or the slot behind them all.\<close>

fun class_slots :: "class_file \<Rightarrow> bool \<Rightarrow> u8 list \<Rightarrow> nat list \<Rightarrow> nat \<Rightarrow> (nat + nat) option" where
  "class_slots cf this_declares nm [] slot = Some (Inr slot)"
| "class_slots cf this_declares nm (fi # fis) slot =
     (if this_declares
      then (case cf_field_name cf fi of
              None \<Rightarrow> None
            | Some n \<Rightarrow>
                if n = nm then Some (Inl slot)
                else class_slots cf this_declares nm fis (slot + field_width cf (cf_fields cf ! fi)))
      else class_slots cf this_declares nm fis (slot + field_width cf (cf_fields cf ! fi)))"

fun chain_slots :: "classes \<Rightarrow> string option \<Rightarrow> u8 list \<Rightarrow> nat list \<Rightarrow> nat \<Rightarrow> nat option" where
  "chain_slots cs declaring nm [] slot = None"
| "chain_slots cs declaring nm (ci # cis) slot =
     (let cf = files cs ! ci;
          this_declares = (case declaring of
            Some d \<Rightarrow> (case cf_class_name cf of None \<Rightarrow> False | Some n \<Rightarrow> name_eq n (bytes_of d))
          | None \<Rightarrow> True)
      in case class_slots cf this_declares nm [0..<length (cf_fields cf)] slot of
           None \<Rightarrow> None
         | Some (Inl s) \<Rightarrow> Some s
         | Some (Inr slot') \<Rightarrow> chain_slots cs declaring nm cis slot')"

definition field_slot_in :: "classes \<Rightarrow> string \<Rightarrow> string option \<Rightarrow> string \<Rightarrow> nat option option" where
  "field_slot_in cs cls declaring nm =
     map_option (\<lambda>r. case r of
         None \<Rightarrow> None
       | Some (chain, enum_base) \<Rightarrow>
           chain_slots cs declaring (bytes_of nm) (rev chain) (if enum_base then ENUM_IMPLICIT_FIELDS else 0))
       (field_chain cs cls [])"

definition field_slot_declared :: "classes \<Rightarrow> string \<Rightarrow> string \<Rightarrow> string \<Rightarrow> nat option option" where
  "field_slot_declared cs runtime_class declared_class nm =
     Option.bind (declaring_walk cs (bytes_of nm) declared_class) (\<lambda>r. case r of
       None \<Rightarrow> Some None
     | Some declaring \<Rightarrow> field_slot_in cs runtime_class declaring nm)"

definition field_slot :: "classes \<Rightarrow> string \<Rightarrow> string \<Rightarrow> nat option option" where
  "field_slot cs cls nm = field_slot_declared cs cls cls nm"

end
