(* ===== verification/HierarchyLaws.thy ===== *)
theory HierarchyLaws
  imports Hierarchy ClassFileLaws
begin

text \<open>
  The walks of the resolution against what they are for: the lineage of a class and the first
  class of it with a member, and the subtype relation. On a class set whose superclass chains end,
  every walk ends.
\<close>

section \<open>The lineage of a class\<close>

inductive lineage :: "classes \<Rightarrow> nat option \<Rightarrow> nat list \<Rightarrow> bool" for cs :: classes where
  root: "lineage cs None []"
| up: "lineage cs (super_of cs ci) l \<Longrightarrow> lineage cs (Some ci) (ci # l)"

inductive_cases lineage_NoneE: "lineage cs None l"
inductive_cases lineage_SomeE: "lineage cs (Some ci) l"

lemma lineage_unique: "lineage cs c l \<Longrightarrow> lineage cs c m \<Longrightarrow> l = m"
  by (induction arbitrary: m rule: lineage.induct) (blast elim: lineage_NoneE lineage_SomeE)+

text \<open>Superclass chains end: what the validation of a section checks of its own chains.\<close>

definition ends_by :: "(nat \<Rightarrow> nat) \<Rightarrow> classes \<Rightarrow> bool" where
  "ends_by r cs \<longleftrightarrow> (\<forall>ci k. super_of cs ci = Some k \<longrightarrow> r k < r ci \<and> k < length (files cs))"

lemma lineage_exists:
  assumes "ends_by r cs" shows "\<exists>l. lineage cs c l"
proof -
  have "\<exists>l. lineage cs (Some ci) l" for ci
  proof (induction "r ci" arbitrary: ci rule: less_induct)
    case less
    show ?case
    proof (cases "super_of cs ci")
      case None
      then show ?thesis using up [of cs ci "[]"] root by auto
    next
      case (Some k)
      then have "r k < r ci" using assms by (simp add: ends_by_def)
      from less [OF this] show ?thesis using Some up [of cs ci] by auto
    qed
  qed
  then show ?thesis using root by (cases c) auto
qed

text \<open>The first class of a list that has something, and what it has.\<close>

fun first_hit :: "(nat \<Rightarrow> nat option) \<Rightarrow> nat list \<Rightarrow> (nat \<times> nat) option" where
  "first_hit f [] = None"
| "first_hit f (c # l) = (case f c of Some x \<Rightarrow> Some (c, x) | None \<Rightarrow> first_hit f l)"

lemma first_hit_Some:
  "first_hit f l = Some (c, x) \<longleftrightarrow> (\<exists>pre post. l = pre @ c # post \<and> f c = Some x \<and> (\<forall>d\<in>set pre. f d = None))"
proof (induction l)
  case (Cons d l)
  show ?case
  proof (cases "f d")
    case None
    then show ?thesis using Cons
      by (auto simp: Cons_eq_append_conv) (metis append_Cons list.set_intros set_ConsD)+
  next
    case (Some y)
    then show ?thesis by (auto simp: Cons_eq_append_conv)
  qed
qed simp

lemma first_hit_None: "first_hit f l = None \<longleftrightarrow> (\<forall>c\<in>set l. f c = None)"
  by (induction l) (auto split: option.splits)

lemma first_on_chain_law: "lineage cs c l \<Longrightarrow> first_on_chain cs f c = Some (first_hit f l)"
proof (induction rule: lineage.induct)
  case root
  then show ?case by (subst first_on_chain.simps) simp
next
  case (up ci l)
  then show ?case by (subst first_on_chain.simps) (simp add: super_index_def split: option.split)
qed

lemma chain_interfaces_law:
  "lineage cs c l \<Longrightarrow> chain_interfaces cs c q = Some (fold (\<lambda>ci. push_interfaces (files cs ! ci)) l q)"
proof (induction arbitrary: q rule: lineage.induct)
  case root
  then show ?case by (subst chain_interfaces.simps) simp
next
  case (up ci l)
  then show ?case by (subst chain_interfaces.simps) (simp add: super_index_def)
qed

lemma chain_loop_law:
  assumes "lineage cs c l" "\<And>n. mem n"
  shows "chain_loop mem cs c cap done = Some (Inr (done @ l))"
  using assms(1)
proof (induction arbitrary: cap "done" rule: lineage.induct)
  case root
  then show ?case by (subst chain_loop.simps) simp
next
  case (up ci l)
  have "\<exists>k. vec_reserve mem cap (length done) 1 = Some k"
    using assms(2) by (simp add: vec_reserve_def Let_def)
  then show ?case using up by (subst chain_loop.simps) (auto simp: super_index_def)
qed

lemma chain_loop_ends:
  assumes "lineage cs c l"
  shows "chain_loop mem cs c cap acc \<in> {Some (Inr (acc @ l)), Some (Inl StackOverflow)}"
  using assms
proof (induction arbitrary: cap acc rule: lineage.induct)
  case root
  then show ?case by (subst chain_loop.simps) simp
next
  case (up ci l)
  show ?case
  proof (cases "vec_reserve mem cap (length acc) 1")
    case None
    then show ?thesis by (subst chain_loop.simps) simp
  next
    case (Some k)
    then show ?thesis using up.IH [of k "acc @ [ci]"] by (subst chain_loop.simps) (simp add: super_index_def)
  qed
qed

section \<open>Methods\<close>

definition declares :: "class_file \<Rightarrow> u8 list \<Rightarrow> u8 list \<Rightarrow> method_info \<Rightarrow> bool" where
  "declares cf nm desc m \<longleftrightarrow> cf_method_name cf m = Some nm \<and> cf_method_descriptor cf m = Some desc"

text \<open>The link table stores the hash of each method's signature.\<close>

definition sigs_ok :: "class_file \<Rightarrow> bool" where
  "sigs_ok cf \<longleftrightarrow> (\<forall>m\<in>set (cf_methods cf). \<forall>n d. cf_method_name cf m = Some n \<longrightarrow> cf_method_descriptor cf m = Some d \<longrightarrow>
     method_sig_hash m = sig_hash n d)"

lemma method_scan_law:
  assumes "\<forall>m\<in>set ms. \<forall>n d. cf_method_name cf m = Some n \<longrightarrow> cf_method_descriptor cf m = Some d \<longrightarrow>
     method_sig_hash m = sig_hash n d"
  shows "method_scan cf (sig_hash nm desc) nm desc k ms = map_option ((+) k) (position (declares cf nm desc) ms)"
  using assms
proof (induction ms arbitrary: k)
  case (Cons m ms)
  have ih: "method_scan cf (sig_hash nm desc) nm desc (Suc k) ms = map_option ((+) (Suc k)) (position (declares cf nm desc) ms)"
    using Cons.IH [of "Suc k"] Cons.prems by (cases "position (declares cf nm desc) ms") simp_all
  show ?case
  proof (cases "declares cf nm desc m")
    case True
    then show ?thesis using Cons.prems by (simp add: declares_def)
  next
    case False
    then have "method_scan cf (sig_hash nm desc) nm desc k (m # ms) = method_scan cf (sig_hash nm desc) nm desc (Suc k) ms"
      by (auto simp: declares_def split: option.splits)
    then show ?thesis using ih False by (cases "position (declares cf nm desc) ms") auto
  qed
qed simp

lemma find_method_in_law:
  "sigs_ok (files cs ! ci) \<Longrightarrow>
    find_method_in cs ci nm desc = position (declares (files cs ! ci) (bytes_of nm) (bytes_of desc)) (cf_methods (files cs ! ci))"
  using method_scan_law [of "cf_methods (files cs ! ci)" "files cs ! ci" "bytes_of nm" "bytes_of desc" 0]
  by (simp add: find_method_in_def Let_def sigs_ok_def option.map_ident_strong)

lemma find_class_range: "find_class_hashed cs h n = Some i \<Longrightarrow> i < length (files cs)"
proof -
  have n: "named_at cs i n h \<Longrightarrow> i < length (files cs)" for i
    by (auto simp: named_at_def nth_opt_def split: if_splits)
  have t: "tail_scan cs h n = Some i \<Longrightarrow> i < length (files cs)" for i
    using position_Some [of "\<lambda>cf. is_named cf n h" "drop (tail_from (cl_index cs)) (files cs)"]
    by (auto simp: tail_scan_def Let_def split: if_splits)
  have "app_scan cs h n = Some i \<Longrightarrow> i < length (files cs)" for i
    using n t by (auto simp: app_scan_def Let_def split: option.splits if_splits)
  then show "find_class_hashed cs h n = Some i \<Longrightarrow> i < length (files cs)"
    using n by (auto simp: find_class_hashed_def split: option.splits if_splits)
qed

lemma lineage_range:
  "lineage cs c l \<Longrightarrow> ends_by r cs \<Longrightarrow> (\<And>ci. c = Some ci \<Longrightarrow> ci < length (files cs)) \<Longrightarrow> \<forall>ci\<in>set l. ci < length (files cs)"
  by (induction rule: lineage.induct) (auto simp: ends_by_def)

text \<open>C16: A method is resolved, in any class set whose superclass chains end, to the declaration in the nearest class
  of the lineage that spells its name and descriptor; only when no class of the lineage does, to a default method
  of a superinterface, if there is one. The signature hashes do not change that, and the resolution returns.\<close>

theorem method_resolution_nearest:
  assumes "ends_by r cs" "\<forall>cf\<in>set (files cs). sigs_ok cf"
  shows "\<exists>l d. lineage cs (find_class cs (bytes_of start)) l \<and>
      find_default_method cs (bytes_of start) nm desc = Some d \<and>
      find_method_walking cs start nm desc =
        Some (case first_hit (\<lambda>ci. position (declares (files cs ! ci) (bytes_of nm) (bytes_of desc)) (cf_methods (files cs ! ci))) l of
                Some hit \<Rightarrow> Some hit
              | None \<Rightarrow> d)"
proof -
  obtain l where l: "lineage cs (find_class cs (bytes_of start)) l" using lineage_exists [OF assms(1)] by blast
  have "\<forall>ci\<in>set l. ci < length (files cs)"
    using lineage_range [OF l assms(1)] find_class_range by (auto simp: find_class_def)
  let ?f = "\<lambda>ci. find_method_in cs ci nm desc"
  let ?g = "\<lambda>ci. position (declares (files cs ! ci) (bytes_of nm) (bytes_of desc)) (cf_methods (files cs ! ci))"
  have fg: "?f ci = ?g ci" if "ci \<in> set l" for ci
    using find_method_in_law assms(2) \<open>\<forall>ci\<in>set l. ci < length (files cs)\<close> that by simp
  then have e: "first_hit ?f l = first_hit ?g l" by (induction l) (auto split: option.splits)
  obtain d where d: "find_default_method cs (bytes_of start) nm desc = Some d"
    using chain_interfaces_law [OF l] by (auto simp: find_default_method_def)
  have "find_method_walking cs start nm desc = Some (case first_hit ?g l of Some hit \<Rightarrow> Some hit | None \<Rightarrow> d)"
    using first_on_chain_law [OF l, of ?f] e d
    by (simp add: find_method_walking_def method_walk_def split: option.split)
  then show ?thesis using l d by blast
qed

lemma class_A_super: "super_of classes_A ci = None"
proof (cases ci)
  case 0
  have "super_class_name class_A = None"
    by (simp add: super_class_name_def lk_super_name_def cf_view_def class_A_def super_ref_def link_A_reads)
  moreover have "super_idx (cf_link class_A) = None"
    by (simp add: super_idx_def class_A_def SUPER_NONE_def link_A_reads)
  ultimately show ?thesis using 0 by (simp add: super_of_def classes_A_def nth_opt_def Let_def)
qed (simp add: super_of_def classes_A_def nth_opt_def)

lemma class_A_declares:
  assumes "info_offset m = 0"
  shows "cf_method_name class_A m = Some [0x41]" "cf_method_descriptor class_A m = Some [0x41]"
proof -
  have "method_name_index (cf_view class_A) m = Some 1" "method_descriptor_index (cf_view class_A) m = Some 1"
    using assms by (simp_all add: method_name_index_def method_descriptor_index_def cf_view_def class_A_def be16_at_def be16_def)
  then show "cf_method_name class_A m = Some [0x41]" "cf_method_descriptor class_A m = Some [0x41]"
    using class_A_utf8
    by (simp_all add: cf_method_name_def cf_method_descriptor_def lk_method_name_def lk_method_descriptor_def
        ask_def and_ok_def got_def)
qed

lemma class_A_sigs: "sigs_ok class_A"
  by (simp add: sigs_ok_def class_A_methods method_sig_hash_def words32_halves class_A_declares sig_A_def)

theorem method_resolution_nearest_witness:
  "find_method_walking classes_A ''A'' ''A'' ''A'' = Some (Some (0, 0)) \<and> find_method_walking classes_A ''A'' ''B'' ''A'' \<noteq> None"
proof -
  have A: "bytes_of ''A'' = [0x41]" by (simp add: bytes_of_def)
  have e: "ends_by (\<lambda>_. 0) classes_A" by (simp add: ends_by_def class_A_super)
  have s: "\<forall>cf\<in>set (files classes_A). sigs_ok cf" by (simp add: classes_A_def class_A_sigs)
  have f: "find_class classes_A (bytes_of ''A'') = Some 0"
    using find_class_law [OF classes_A_ok] by (simp add: A find_class_def classes_A_def class_A_name)
  have "lineage classes_A (Some 0) [0]" using lineage.up [of classes_A 0 "[]"] lineage.root by (simp add: class_A_super)
  then have l: "lineage classes_A (Some 0) l \<Longrightarrow> l = [0]" for l using lineage_unique by blast
  obtain k d where k: "lineage classes_A (Some 0) k" "find_method_walking classes_A ''A'' ''A'' ''A'' =
        Some (case first_hit (\<lambda>ci. position (declares (files classes_A ! ci) (bytes_of ''A'') (bytes_of ''A'')) (cf_methods (files classes_A ! ci))) k of
                Some hit \<Rightarrow> Some hit | None \<Rightarrow> d)"
    using method_resolution_nearest [OF e s, of "''A''" "''A''" "''A''"] f by auto
  have "position (declares (files classes_A ! 0) (bytes_of ''A'') (bytes_of ''A'')) (cf_methods (files classes_A ! 0)) = Some 0"
    by (simp add: classes_A_def class_A_methods declares_def class_A_declares A)
  then show ?thesis
    using k l [OF k(1)] method_resolution_nearest [OF e s, of "''A''" "''B''" "''A''"] by auto
qed

section \<open>The subtype relation\<close>

text \<open>The classes that have subclasses without a class file, by their distance from the root.\<close>

definition builtin_levels :: "(string \<times> nat) list" where
  "builtin_levels = [
     (''java/lang/Object'', 0),
     (''java/lang/Throwable'', 1),
     (''java/lang/Exception'', 2),
     (''java/lang/IllegalArgumentException'', 4),
     (''java/lang/RuntimeException'', 3),
     (''java/lang/ReflectiveOperationException'', 3),
     (''java/lang/IllegalStateException'', 4),
     (''java/util/IllegalFormatException'', 5),
     (''java/io/IOException'', 3),
     (''java/io/InterruptedIOException'', 4),
     (''java/net/SocketException'', 4),
     (''javax/net/ssl/SSLException'', 4),
     (''java/lang/IndexOutOfBoundsException'', 4),
     (''java/lang/Error'', 2),
     (''java/lang/Number'', 0),
     (''java/util/HashMap'', 0),
     (''java/util/HashSet'', 0)]"

definition builtin_rank :: "string \<Rightarrow> nat" where
  "builtin_rank a = (case map_of builtin_levels a of None \<Rightarrow> 9 | Some n \<Rightarrow> n)"

lemma builtin_rows_end: "list_all (\<lambda>(k, v). builtin_rank v < builtin_rank k) BUILTIN_SUPER"
  by (simp add: BUILTIN_SUPER_def builtin_rank_def builtin_levels_def)

lemma builtin_super_ends: "builtin_super a = Some s \<Longrightarrow> builtin_rank s < builtin_rank a"
  using builtin_rows_end by (auto simp: builtin_super_def table_lookup_def list_all_iff dest!: map_of_SomeD)

lemma builtin_rank_max: "builtin_rank a \<le> 9"
  by (simp add: builtin_rank_def builtin_levels_def)

inductive subtype :: "classes \<Rightarrow> string \<Rightarrow> string \<Rightarrow> bool" for cs :: classes and t :: string where
  same: "subtype cs t t"
| tabled: "t \<in> set (builtin_interfaces a) \<Longrightarrow> subtype cs t a"
| implements: "find_class cs (bytes_of a) = Some ci \<Longrightarrow>
    level_reaches cs (files cs ! ci) (name_hash (bytes_of t)) (bytes_of t) \<Longrightarrow> subtype cs t a"
| extends: "find_class cs (bytes_of a) = Some ci \<Longrightarrow> super_class_name (files cs ! ci) = Some b \<Longrightarrow>
    utf8_text b = Some s \<Longrightarrow> subtype cs t s \<Longrightarrow> subtype cs t a"
| inherits: "find_class cs (bytes_of a) = None \<Longrightarrow> builtin_super a = Some s \<Longrightarrow> subtype cs t s \<Longrightarrow> subtype cs t a"

text \<open>
  What loading guarantees: the tables hold the hashes of the names they refer to, superclass
  chains end, and no loaded class has the name of a class that the table of builtins extends.
\<close>

definition hierarchy_ok :: "(nat \<Rightarrow> nat) \<Rightarrow> classes \<Rightarrow> bool" where
  "hierarchy_ok r cs \<longleftrightarrow>
     (\<forall>ci<length (files cs). \<forall>b. super_class_name (files cs ! ci) = Some b \<longrightarrow>
        cf_super_hash (files cs ! ci) = name_hash b \<and>
        (\<forall>k. find_class cs b = Some k \<longrightarrow> r k < r ci)) \<and>
     (\<forall>ci<length (files cs). \<forall>f\<in>set (cf_interfaces (files cs ! ci)). \<forall>i. iface_name (files cs ! ci) f = Some i \<longrightarrow>
        iface_hash f = name_hash i) \<and>
     (\<forall>s\<in>snd ` set BUILTIN_SUPER. find_class cs (bytes_of s) = None)"

definition name_rank :: "(nat \<Rightarrow> nat) \<Rightarrow> classes \<Rightarrow> string \<Rightarrow> nat" where
  "name_rank r cs a = (case find_class cs (bytes_of a) of Some ci \<Rightarrow> 10 + r ci | None \<Rightarrow> builtin_rank a)"

lemma utf8_text_bytes: "utf8_text b = Some s \<Longrightarrow> bytes_of s = b"
  by (auto simp: utf8_text_def from_utf8_def split: if_splits)

lemma instance_loop_law:
  assumes "hierarchy_ok r cs"
  shows "instance_loop cs t (name_hash (bytes_of t)) a (name_hash (bytes_of a)) = Some (subtype cs t a)"
proof (induction "name_rank r cs a" arbitrary: a rule: less_induct)
  case less
  let ?T = "name_hash (bytes_of t)" and ?A = "name_hash (bytes_of a)"
  have fc: "find_class_hashed cs ?A (bytes_of a) = find_class cs (bytes_of a)" by (simp add: find_class_def)
  show ?case
  proof (cases "a = t \<or> t \<in> set (builtin_interfaces a)")
    case True
    then show ?thesis
      by (subst instance_loop.simps) (auto intro: subtype.same subtype.tabled)
  next
    case False
    show ?thesis
    proof (cases "find_class cs (bytes_of a)")
      case None
      show ?thesis
      proof (cases "builtin_super a")
        case bn: None
        have "\<not> subtype cs t a" using False None bn by (auto elim: subtype.cases)
        then show ?thesis using False None bn fc by (subst instance_loop.simps) simp
      next
        case (Some s)
        have "find_class cs (bytes_of s) = None"
          using assms Some by (force simp: hierarchy_ok_def builtin_super_def table_lookup_def dest: map_of_SomeD)
        then have "name_rank r cs s < name_rank r cs a"
          using builtin_super_ends [OF Some] None by (simp add: name_rank_def)
        from less [OF this] have "instance_loop cs t ?T s (name_hash (bytes_of s)) = Some (subtype cs t s)" .
        moreover have "subtype cs t a \<longleftrightarrow> subtype cs t s"
          using False None Some by (auto intro: subtype.inherits elim: subtype.cases)
        ultimately show ?thesis using False None Some fc by (subst instance_loop.simps) simp
      qed
    next
      case (Some ci)
      have ci: "ci < length (files cs)" using find_class_range Some by (simp add: find_class_def)
      let ?cf = "files cs ! ci"
      show ?thesis
      proof (cases "level_reaches cs ?cf ?T (bytes_of t)")
        case True
        then show ?thesis using False Some fc
          by (subst instance_loop.simps) (auto intro: subtype.implements)
      next
        case lr: False
        show ?thesis
        proof (cases "Option.bind (super_class_name ?cf) utf8_text")
          case bn: None
          then have "\<not> subtype cs t a" using False Some lr by (auto elim: subtype.cases)
          then show ?thesis using False Some lr bn fc
            by (subst instance_loop.simps) (auto split: option.splits)
        next
          case ss: (Some s)
          then obtain b where b: "super_class_name ?cf = Some b" "utf8_text b = Some s"
            by (cases "super_class_name ?cf") auto
          then have bs: "bytes_of s = b" by (simp add: utf8_text_bytes)
          then have h: "cf_super_hash ?cf = name_hash (bytes_of s)" "\<And>k. find_class cs (bytes_of s) = Some k \<Longrightarrow> r k < r ci"
            using assms ci b by (auto simp: hierarchy_ok_def)
          then have "name_rank r cs s < name_rank r cs a"
            using Some builtin_rank_max [of s] by (simp add: name_rank_def split: option.split)
          from less [OF this] have "instance_loop cs t ?T s (name_hash (bytes_of s)) = Some (subtype cs t s)" .
          moreover have "subtype cs t a \<longleftrightarrow> subtype cs t s"
            using False Some lr b by (auto intro: subtype.extends elim: subtype.cases)
          ultimately show ?thesis using False Some lr b fc h(1) by (subst instance_loop.simps) simp
        qed
      qed
    qed
  qed
qed

section \<open>Superinterfaces\<close>

definition extends_iface :: "classes \<Rightarrow> u8 list \<Rightarrow> u8 list \<Rightarrow> bool" where
  "extends_iface cs i j \<longleftrightarrow> (\<exists>k f. find_class cs i = Some k \<and> f \<in> set (cf_interfaces (files cs ! k)) \<and>
     iface_name (files cs ! k) f = Some j)"

definition tabled_iface :: "u8 list \<Rightarrow> u8 list \<Rightarrow> bool" where
  "tabled_iface i t \<longleftrightarrow> (\<exists>nm x. utf8_text i = Some nm \<and> x \<in> set (builtin_interfaces nm) \<and> bytes_of x = t)"

lemma iface_reaches_law:
  assumes "hierarchy_ok r cs"
  shows "iface_reaches_hashed cs (name_hash i) i (name_hash t) t d \<longleftrightarrow>
    (\<exists>k\<le>d. \<exists>j. (extends_iface cs ^^ k) i j \<and> (j = t \<or> k < d \<and> tabled_iface j t))"
proof (induction d arbitrary: i)
  case 0
  show ?case by auto
next
  case (Suc d)
  let ?up = "\<lambda>k. list_ex (\<lambda>f. case iface_name (files cs ! k) f of None \<Rightarrow> False
      | Some s \<Rightarrow> iface_reaches_hashed cs (iface_hash f) s (name_hash t) t d) (cf_interfaces (files cs ! k))"
  let ?P = "\<lambda>d i. \<exists>k\<le>d. \<exists>j. (extends_iface cs ^^ k) i j \<and> (j = t \<or> k < d \<and> tabled_iface j t)"
  have tab: "(case utf8_text i of None \<Rightarrow> False | Some nm \<Rightarrow> list_ex (\<lambda>x. bytes_of x = t) (builtin_interfaces nm)) \<longleftrightarrow> tabled_iface i t"
    by (auto simp: tabled_iface_def list_ex_iff split: option.splits)
  have up: "?up k \<longleftrightarrow> (\<exists>s. extends_iface cs i s \<and> ?P d s)" if k: "find_class cs i = Some k" for k
  proof -
    have kr: "k < length (files cs)" using find_class_range k by (simp add: find_class_def)
    have "?up k \<longleftrightarrow> (\<exists>f\<in>set (cf_interfaces (files cs ! k)). \<exists>s. iface_name (files cs ! k) f = Some s \<and> ?P d s)"
      using assms kr Suc.IH unfolding list_ex_iff hierarchy_ok_def by (intro bex_cong refl) (auto split: option.splits)
    then show ?thesis using k by (auto simp: extends_iface_def)
  qed
  have step: "?P (Suc d) i \<longleftrightarrow> i = t \<or> tabled_iface i t \<or> (\<exists>s. extends_iface cs i s \<and> ?P d s)"
  proof
    assume "?P (Suc d) i"
    then obtain k j where k: "k \<le> Suc d" "(extends_iface cs ^^ k) i j" "j = t \<or> k < Suc d \<and> tabled_iface j t" by blast
    show "i = t \<or> tabled_iface i t \<or> (\<exists>s. extends_iface cs i s \<and> ?P d s)"
    proof (cases k)
      case (Suc m)
      then show ?thesis using k by (metis Suc_le_mono Suc_less_eq relpowp_Suc_D2)
    qed (use k in auto)
  next
    assume "i = t \<or> tabled_iface i t \<or> (\<exists>s. extends_iface cs i s \<and> ?P d s)"
    then show "?P (Suc d) i"
    proof (elim disjE exE conjE)
      fix s k j assume "extends_iface cs i s" "k \<le> d" "(extends_iface cs ^^ k) s j" "j = t"
      then have "Suc k \<le> Suc d" "(extends_iface cs ^^ Suc k) i j" "j = t" by (simp_all only: Suc_le_mono relpowp_Suc_I2)
      then show ?thesis by blast
    next
      fix s k j assume "extends_iface cs i s" "k \<le> d" "(extends_iface cs ^^ k) s j" "k < d" "tabled_iface j t"
      then have "Suc k \<le> Suc d" "(extends_iface cs ^^ Suc k) i j" "Suc k < Suc d" "tabled_iface j t"
        by (simp_all only: Suc_le_mono Suc_less_eq relpowp_Suc_I2)
      then show ?thesis by blast
    qed (intro exI [of _ 0]; auto)+
  qed
  have nf: "\<not> (\<exists>s. extends_iface cs i s \<and> ?P d s)" if "find_class cs i = None"
    using that by (simp add: extends_iface_def)
  show ?case
    unfolding step using tab up nf
    by (simp add: find_class_def [symmetric] split: option.split) blast
qed

lemma level_reaches_law:
  assumes "hierarchy_ok r cs" "ci < length (files cs)"
  shows "level_reaches cs (files cs ! ci) (name_hash t) t \<longleftrightarrow>
      (\<exists>f\<in>set (cf_interfaces (files cs ! ci)). \<exists>i k j. iface_name (files cs ! ci) f = Some i \<and> k \<le> 8 \<and>
         (extends_iface cs ^^ k) i j \<and> (j = t \<or> k < 8 \<and> tabled_iface j t))"
  unfolding level_reaches_def list_ex_iff MAX_IFACE_DEPTH_def
  using assms iface_reaches_law [OF assms(1), of _ t 8]
  unfolding hierarchy_ok_def by (intro bex_cong refl) (auto split: option.splits)

text \<open>C17: The instance-of test of a \<open>catch\<close>, a cast and an \<open>instanceof\<close> returns on every class set as loading leaves it,
  and decides the subtype relation: a class is a subtype of \<open>Object\<close>, of itself, of what its superclasses are,
  and of the interfaces that it and they declare, with the superinterfaces of those up to eight steps away, through
  class files and through the tables of the classes that have none.\<close>

theorem instance_of_is_subtype:
  assumes "hierarchy_ok r cs"
  shows "is_instance_of cs a t = Some (t = java_lang_Object \<or> subtype cs t a) \<and>
    (\<forall>ci<length (files cs). level_reaches cs (files cs ! ci) (name_hash (bytes_of t)) (bytes_of t) \<longleftrightarrow>
      (\<exists>f\<in>set (cf_interfaces (files cs ! ci)). \<exists>i k j. iface_name (files cs ! ci) f = Some i \<and> k \<le> 8 \<and>
         (extends_iface cs ^^ k) i j \<and> (j = bytes_of t \<or> k < 8 \<and> tabled_iface j (bytes_of t))))"
  using instance_loop_law [OF assms] level_reaches_law [OF assms] by (simp add: is_instance_of_def)

lemma class_A_alone:
  "super_class_name class_A = None" "cf_interfaces class_A = []" "length (files classes_A) = 1" "files classes_A ! 0 = class_A"
proof -
  show "super_class_name class_A = None"
    by (simp add: super_class_name_def lk_super_name_def cf_view_def class_A_def super_ref_def link_A_reads)
  show "cf_interfaces class_A = []"
    by (simp add: cf_interfaces_def listed_def class_A_def link_interfaces_def region_def ifaces_off_def ifaces_len_def link_A_reads)
qed (simp_all add: classes_A_def)

lemma class_A_only: "find_class classes_A (bytes_of s) = (if s = ''A'' then Some 0 else None)"
proof -
  have "bytes_of s = [0x41] \<longleftrightarrow> s = ''A''" using bytes_of_inj [of s "''A''"] by (simp add: bytes_of_def)
  then show ?thesis
    using find_class_law [OF classes_A_ok] by (auto simp: find_class_def classes_A_def class_A_name)
qed

lemma classes_A_hierarchy: "hierarchy_ok (\<lambda>_. 0) classes_A"
  by (simp add: hierarchy_ok_def class_A_alone class_A_only BUILTIN_SUPER_def)

theorem instance_of_is_subtype_witness:
  "is_instance_of classes_A ''A'' ''A'' = Some True \<and> is_instance_of classes_A ''A'' ''B'' = Some False"
proof -
  have "\<not> level_reaches classes_A class_A h t" for h t by (simp add: level_reaches_def class_A_alone)
  moreover have "builtin_interfaces ''A'' = []"
    by (simp add: builtin_interfaces_def table_lookup_def BUILTIN_INTERFACES_def)
  ultimately have "\<not> subtype classes_A ''B'' ''A''"
    by (subst subtype.simps) (simp add: class_A_only class_A_alone)
  then show ?thesis
    using instance_of_is_subtype [OF classes_A_hierarchy, of "''A''"]
    by (simp add: subtype.same java_lang_Object_def)
qed

end
