(* ===== verification/Unwind.thy ===== *)
theory Unwind
  imports Hierarchy Machine Collector
begin

text \<open>
  What the run loop of \<open>crates/jvm/src/interpreter/mod.rs\<close> does between opcodes: it pops
  frames and releases their monitors, delivers a Java exception to the innermost handler of the
  run, wraps what escapes a class initializer, prepares and initializes classes, and takes the
  monitor of a synchronized method (with \<open>ops_monitor.rs\<close> for the monitor opcodes). The
  monitors are the native handler's: an argument of the definitions that use them.
  An outer option is a walk over a class hierarchy that may not end.
\<close>

section \<open>The executor\<close>

text \<open>The frames are kept as the \<open>Vec\<close> keeps them, the running one last.\<close>

record 'h executor =
  ex_frames :: "frame list"
  ex_frames_cap :: nat
  ex_heaps :: heaps
  ex_gc :: gc_state
  ex_statics :: static_store
  ex_class_objects :: class_objects
  ex_pool :: frame_pool
  ex_pending :: "frame option"
  ex_clinits :: "frame list"
  ex_insns :: u8
  ex_own :: nat
  ex_handler :: 'h

text \<open>
  What the loop asks of the \<open>NativeMethodHandler\<close>: the monitors, the roots that native code holds,
  the pruning of what it keys by heap slots, and whether a stop was requested.
\<close>

record 'h handler_ops =
  mo_enter :: "monitor_key \<Rightarrow> 'h \<Rightarrow> (jvm_error + unit) \<times> 'h"
  mo_exit :: "monitor_key \<Rightarrow> 'h \<Rightarrow> (jvm_error + unit) \<times> 'h"
  native_roots :: "'h \<Rightarrow> jvm_value list"
  native_prune :: "(monitor_key \<Rightarrow> bool) \<Rightarrow> 'h \<Rightarrow> 'h"
  stop_asked :: "'h \<Rightarrow> bool"

type_synonym ('h, 'a) ex = "('h executor, fault, 'a) action"

abbreviation ex_objects :: "'h executor \<Rightarrow> object_heap" where "ex_objects v \<equiv> h_objects (ex_heaps v)"
abbreviation ex_stores :: "'h executor \<Rightarrow> stores" where "ex_stores v \<equiv> h_stores (ex_heaps v)"
abbreviation ex_strings :: "'h executor \<Rightarrow> string_table" where "ex_strings v \<equiv> h_strings (ex_heaps v)"

definition set_objects :: "object_heap \<Rightarrow> 'h executor \<Rightarrow> 'h executor" where
  "set_objects h v = v\<lparr>ex_heaps := ex_heaps v\<lparr>h_objects := h\<rparr>\<rparr>"

definition set_stores :: "stores \<Rightarrow> 'h executor \<Rightarrow> 'h executor" where
  "set_stores st v = v\<lparr>ex_heaps := ex_heaps v\<lparr>h_stores := st\<rparr>\<rparr>"

definition set_strings :: "string_table \<Rightarrow> 'h executor \<Rightarrow> 'h executor" where
  "set_strings t v = v\<lparr>ex_heaps := ex_heaps v\<lparr>h_strings := t\<rparr>\<rparr>"

lemmas heap_setters = set_objects_def set_stores_def set_strings_def

definition ex_alloc :: "allocator \<Rightarrow> string \<Rightarrow> ('h, u16 option) ex" where
  "ex_alloc al cls v = (case ob_alloc al cls (ex_objects v) of (r, h) \<Rightarrow> (r, set_objects h v))"

text \<open>\<open>classes[f.class_idx]\<close> and \<open>methods()[f.method_idx]\<close>, which panic out of range.\<close>

definition frame_method :: "classes \<Rightarrow> frame \<Rightarrow> fault + class_file \<times> method_info" where
  "frame_method cs f =
     (case nth_opt (files cs) (class_idx f) of
        None \<Rightarrow> Inl Panic
      | Some cf \<Rightarrow> (case nth_opt (cf_methods cf) (method_idx f) of None \<Rightarrow> Inl Panic | Some m \<Rightarrow> Inr (cf, m)))"

section \<open>Popping frames\<close>

definition ex_exit :: "'h handler_ops \<Rightarrow> monitor_key \<Rightarrow> ('h, unit) ex" where
  "ex_exit mo k v =
     (case mo_exit mo k (ex_handler v) of
        (Inl e, h) \<Rightarrow> (Inl (Err e), v\<lparr>ex_handler := h\<rparr>) | (Inr _, h) \<Rightarrow> (Inr (), v\<lparr>ex_handler := h\<rparr>))"

definition pop_frame :: "allocator \<Rightarrow> 'h handler_ops \<Rightarrow> ('h, unit) ex" where
  "pop_frame al mo v =
     (if ex_frames v = [] then (Inr (), v)
      else let f = last (ex_frames v);
               v' = v\<lparr>ex_frames := butlast (ex_frames v), ex_pool := recycle (al ValueBuf) f (ex_pool v)\<rparr>
           in case monitor f of None \<Rightarrow> (Inr (), v') | Some k \<Rightarrow> ex_exit mo k v')"

lemma pop_frame_frames: "ex_frames (snd (pop_frame al mo v)) = butlast (ex_frames v)"
  by (auto simp: pop_frame_def ex_exit_def Let_def split: option.split sum.split prod.split)

text \<open>A release that fails must not displace the exception in flight: its error is dropped.\<close>

function truncate_frames :: "allocator \<Rightarrow> 'h handler_ops \<Rightarrow> nat \<Rightarrow> 'h executor \<Rightarrow> 'h executor" where
  "truncate_frames al mo n v =
     (if n < length (ex_frames v) then truncate_frames al mo n (snd (pop_frame al mo v)) else v)"
  by pat_completeness auto

termination
  by (relation "measure (\<lambda>(al, mo, n, v). length (ex_frames v))") (auto simp: pop_frame_frames)

declare truncate_frames.simps [simp del]

section \<open>Exception tables\<close>

text \<open>Whether an entry that covers the program counter catches the class; index 0 catches all.\<close>

definition entry_catches :: "classes \<Rightarrow> class_file \<Rightarrow> string \<Rightarrow> exception_entry \<Rightarrow> bool option" where
  "entry_catches cs cf exc e =
     (if catch_type_index e = 0 then Some True
      else case Option.bind (cp_class_name cf (catch_type_index e)) utf8_text of
             None \<Rightarrow> Some False
           | Some c \<Rightarrow> is_instance_of cs exc c)"

fun handler_scan :: "classes \<Rightarrow> class_file \<Rightarrow> string \<Rightarrow> nat \<Rightarrow> exception_entry list \<Rightarrow> nat option option" where
  "handler_scan cs cf exc at [] = Some None"
| "handler_scan cs cf exc at (e # es) =
     (if unat (start_pc e) \<le> at \<and> at < unat (end_pc e)
      then (case entry_catches cs cf exc e of
              None \<Rightarrow> None
            | Some True \<Rightarrow> Some (Some (unat (handler_pc e)))
            | Some False \<Rightarrow> handler_scan cs cf exc at es)
      else handler_scan cs cf exc at es)"

definition find_exception_handler ::
  "classes \<Rightarrow> object_heap \<Rightarrow> u16 \<Rightarrow> class_file \<Rightarrow> method_info \<Rightarrow> nat \<Rightarrow> nat option option" where
  "find_exception_handler cs os obj cf m at =
     (case ob_class_name os obj of
        None \<Rightarrow> Some None
      | Some exc \<Rightarrow> handler_scan cs cf exc at (exception_table cf m))"

definition frame_handler :: "classes \<Rightarrow> object_heap \<Rightarrow> u16 \<Rightarrow> frame \<Rightarrow> (fault + nat option) option" where
  "frame_handler cs os obj f =
     (case frame_method cs f of
        Inl e \<Rightarrow> Some (Inl e)
      | Inr (cf, m) \<Rightarrow> map_option Inr (find_exception_handler cs os obj cf m (inst_pc f)))"

text \<open>The first pass: the frames of the run from the top down, none popped.\<close>

primrec handler_frame :: "(frame \<Rightarrow> (fault + nat option) option) \<Rightarrow> nat \<Rightarrow> frame list \<Rightarrow> nat \<Rightarrow>
    (fault + nat option) option" where
  "handler_frame has lo fs 0 = Some (Inr None)"
| "handler_frame has lo fs (Suc n) =
     (if n < lo then Some (Inr None)
      else case has (fs ! n) of
             None \<Rightarrow> None
           | Some (Inl e) \<Rightarrow> Some (Inl e)
           | Some (Inr None) \<Rightarrow> handler_frame has lo fs n
           | Some (Inr (Some _)) \<Rightarrow> Some (Inr (Some n)))"

section \<open>Initializers that fail\<close>

definition java_lang_Error :: string where "java_lang_Error = ''java/lang/Error''"
definition java_lang_ExceptionInInitializerError :: string where
  "java_lang_ExceptionInInitializerError = ''java/lang/ExceptionInInitializerError''"

definition is_clinit :: "classes \<Rightarrow> frame \<Rightarrow> bool" where
  "is_clinit cs f =
     (case frame_method cs f of Inl _ \<Rightarrow> False | Inr (cf, m) \<Rightarrow> cf_method_name cf m = Some clinit_name)"

text \<open>Every initializer that the unwind crosses has failed: its class is erroneous from here on.\<close>

definition mark_crossed :: "allocator \<Rightarrow> classes \<Rightarrow> frame list \<Rightarrow> static_store \<Rightarrow> static_store" where
  "mark_crossed al cs fs s = fold (\<lambda>f s. if is_clinit cs f then mark_erroneous al (class_idx f) s else s) fs s"

text \<open>The wrapper, if it can be allocated and can record the cause.\<close>

definition alloc_wrapper :: "allocator \<Rightarrow> u16 \<Rightarrow> ('h, u16 option) ex" where
  "alloc_wrapper al obj v =
     (case ex_alloc al java_lang_ExceptionInInitializerError v of
        (Inl e, v1) \<Rightarrow> (Inl e, v1)
      | (Inr None, v1) \<Rightarrow> (Inr None, v1)
      | (Inr (Some w), v1) \<Rightarrow>
          (case register_exception_cause al w obj (ex_stores v1) of
             (Inl _, st) \<Rightarrow> (Inr None, set_stores st v1)
           | (Inr _, st) \<Rightarrow> (Inr (Some w), set_stores st v1)))"

text \<open>\<open>Vec::with_capacity\<close> and \<open>extend_from_slice\<close>, which abort when refused: a \<open>Panic\<close> here.\<close>

definition extend_bytes :: "allocator \<Rightarrow> u8 list \<Rightarrow> u8 vec \<Rightarrow> fault + u8 vec" where
  "extend_bytes al bs b =
     (case vec_reserve (al U8Buf) (vcap b) (length (items b)) (length bs) of
        None \<Rightarrow> Inl Panic
      | Some c \<Rightarrow> Inr \<lparr>items = items b @ bs, vcap = c\<rparr>)"

definition wrapper_text :: "allocator \<Rightarrow> string \<Rightarrow> u16 \<Rightarrow> 'h executor \<Rightarrow> fault + u8 vec" where
  "wrapper_text al exc obj v =
     (if \<not> al U8Buf (length exc + 32) then Inl Panic
      else case extend_bytes al (bytes_of exc) \<lparr>items = [], vcap = length exc + 32\<rparr> of
             Inl e \<Rightarrow> Inl e
           | Inr b \<Rightarrow>
               (case get_exception_message (ex_stores v) obj of
                  None \<Rightarrow> Inr b
                | Some mi \<Rightarrow>
                    (case resolve (ex_strings v) mi of
                       Inl e \<Rightarrow> Inl e
                     | Inr None \<Rightarrow> Inr b
                     | Inr (Some s) \<Rightarrow>
                         (case extend_bytes al (bytes_of '': '') b of
                            Inl e \<Rightarrow> Inl e | Inr b1 \<Rightarrow> extend_bytes al s b1))))"

text \<open>The text goes to the wrapper if it can be interned and registered; if not, there is none.\<close>

definition describe_wrapper :: "allocator \<Rightarrow> string \<Rightarrow> u16 \<Rightarrow> u16 \<Rightarrow> ('h, unit) ex" where
  "describe_wrapper al exc obj w v =
     (case wrapper_text al exc obj v of
        Inl e \<Rightarrow> (Inl e, v)
      | Inr b \<Rightarrow>
          (case intern_dyn_owned al b (ex_strings v) of
             (Inl e, t) \<Rightarrow> (Inl e, set_strings t v)
           | (Inr None, t) \<Rightarrow> (Inr (), set_strings t v)
           | (Inr (Some i), t) \<Rightarrow>
               (Inr (), set_stores (snd (register_exception_message al w i (ex_stores v))) (set_strings t v))))"

section \<open>Delivery\<close>

definition unknown_class :: string where "unknown_class = ''<unknown>''"

text \<open>The names of a frame as text; the line numbers of the debug build are left out.\<close>

definition trace_entry :: "classes \<Rightarrow> frame \<Rightarrow> stack_trace_entry option" where
  "trace_entry cs f =
     (case frame_method cs f of
        Inl _ \<Rightarrow> None
      | Inr (cf, m) \<Rightarrow>
          Option.bind (Option.bind (cf_class_name cf) utf8_text) (\<lambda>cn.
          map_option (\<lambda>mn. \<lparr>ste_class_name = cn, ste_method_name = mn, ste_pc = inst_pc f\<rparr>)
            (Option.bind (cf_method_name cf m) utf8_text)))"

definition uncaught :: "allocator \<Rightarrow> 'h handler_ops \<Rightarrow> classes \<Rightarrow> u16 \<Rightarrow> ('h, unit) ex" where
  "uncaught al mo cs obj v =
     (let fs = ex_frames v;
          room = vec_reserve_exact (al TableBuf) 0 0 (length fs) \<noteq> None;
          trace = (if room then List.map_filter (trace_entry cs) (rev fs) else []);
          exc = (case ob_class_name (ex_objects v) obj of None \<Rightarrow> unknown_class | Some c \<Rightarrow> c)
      in case (case get_exception_message (ex_stores v) obj of
                 None \<Rightarrow> Inr None | Some mi \<Rightarrow> resolve_static (ex_strings v) mi) of
           Inl e \<Rightarrow> (Inl e, v)
         | Inr msg \<Rightarrow> (Inl (Err (UncaughtException exc (map_option text_of msg) trace)), truncate_frames al mo 0 v))"

definition deliver_exception ::
  "allocator \<Rightarrow> 'h handler_ops \<Rightarrow> classes \<Rightarrow> u16 \<Rightarrow> nat option \<Rightarrow> nat \<Rightarrow> 'h executor \<Rightarrow>
     ((fault + unit) \<times> 'h executor) option" where
  "deliver_exception al mo cs obj at lo v =
     (case at of
        Some i \<Rightarrow>
          (let v1 = truncate_frames al mo (i + 1) v; fs = ex_frames v1
           in if fs = [] then Some (Inl Panic, v1)
              else let f = last fs
                   in case frame_handler cs (ex_objects v1) obj f of
                        None \<Rightarrow> None
                      | Some (Inl e) \<Rightarrow> Some (Inl e, v1)
                      | Some (Inr None) \<Rightarrow> Some (Inl Panic, v1)
                      | Some (Inr (Some h)) \<Rightarrow>
                          Some (case push (al ValueBuf) (VObjectRef obj) (f\<lparr>stack := []\<rparr>) of
                                  (Inl e, f') \<Rightarrow> (Inl e, v1\<lparr>ex_frames := butlast fs @ [f']\<rparr>)
                                | (Inr _, f') \<Rightarrow> (Inr (), v1\<lparr>ex_frames := butlast fs @ [f'\<lparr>pc := h\<rparr>]\<rparr>)))
      | None \<Rightarrow>
          if 0 < lo then Some (Inl (Err (Exception obj)), truncate_frames al mo lo v)
          else Some (uncaught al mo cs obj v))"

section \<open>Handling an exception\<close>

datatype unwinding = Wrapped u16 | Deliver "nat option"

text \<open>
  One turn of the loop. A wrapper takes over from the outermost initializer that the unwind would
  cross; a wrap that fails leaves the original exception to be delivered as it is.
\<close>

definition unwind_turn ::
  "allocator \<Rightarrow> 'h handler_ops \<Rightarrow> classes \<Rightarrow> nat \<Rightarrow> u16 \<Rightarrow> 'h executor \<Rightarrow>
     ((fault + unwinding) \<times> 'h executor) option" where
  "unwind_turn al mo cs lo obj v =
     (case handler_frame (frame_handler cs (ex_objects v) obj) lo (ex_frames v) (length (ex_frames v)) of
        None \<Rightarrow> None
      | Some (Inl e) \<Rightarrow> Some (Inl e, v)
      | Some (Inr at) \<Rightarrow>
          (let from = (case at of None \<Rightarrow> lo | Some i \<Rightarrow> i + 1); cut = drop from (ex_frames v);
               v1 = v\<lparr>ex_statics := mark_crossed al cs cut (ex_statics v)\<rparr>
           in if length (ex_frames v) < from then Some (Inl Panic, v)
              else case position (is_clinit cs) cut of
                     None \<Rightarrow> Some (Inr (Deliver at), v1)
                   | Some k \<Rightarrow>
                       (let exc = (case ob_class_name (ex_objects v) obj of None \<Rightarrow> '''' | Some c \<Rightarrow> c)
                        in case is_instance_of cs exc java_lang_Error of
                             None \<Rightarrow> None
                           | Some True \<Rightarrow> Some (Inr (Deliver at), v1)
                           | Some False \<Rightarrow>
                               Some (case alloc_wrapper al obj v1 of
                                       (Inl e, v2) \<Rightarrow> (Inl e, v2)
                                     | (Inr None, v2) \<Rightarrow> (Inr (Deliver at), v2)
                                     | (Inr (Some w), v2) \<Rightarrow>
                                         (case describe_wrapper al exc obj w v2 of
                                            (Inl e, v3) \<Rightarrow> (Inl e, v3)
                                          | (Inr _, v3) \<Rightarrow>
                                              (Inr (Wrapped w), truncate_frames al mo (from + k) v3))))))"

lemma truncate_frames_frames: "ex_frames (truncate_frames al mo n v) = take n (ex_frames v)"
proof (induction al mo n v rule: truncate_frames.induct)
  case (1 al mo n v)
  show ?case
  proof (cases "n < length (ex_frames v)")
    case True
    then have "ex_frames (truncate_frames al mo n v) = take n (butlast (ex_frames v))"
      using 1 by (simp add: truncate_frames.simps [of al mo n v] pop_frame_frames)
    then show ?thesis using True by (simp add: take_butlast)
  qed (simp add: truncate_frames.simps)
qed

lemma alloc_wrapper_frames: "alloc_wrapper al obj v = (r, v') \<Longrightarrow> ex_frames v' = ex_frames v"
  by (auto simp: alloc_wrapper_def ex_alloc_def heap_setters split: prod.splits sum.splits option.splits)

lemma describe_wrapper_frames: "describe_wrapper al exc obj w v = (r, v') \<Longrightarrow> ex_frames v' = ex_frames v"
  by (auto simp: describe_wrapper_def heap_setters split: prod.splits sum.splits option.splits)

lemma wrapped_cuts:
  assumes "unwind_turn al mo cs lo obj v = Some (Inr (Wrapped w), v')"
  shows "length (ex_frames v') < length (ex_frames v)"
  using assms
  by (auto simp: unwind_turn_def Let_def truncate_frames_frames dest!: position_Some describe_wrapper_frames
      alloc_wrapper_frames split: option.splits sum.splits prod.splits if_splits bool.splits)

function handle_exception ::
  "allocator \<Rightarrow> 'h handler_ops \<Rightarrow> classes \<Rightarrow> nat \<Rightarrow> u16 \<Rightarrow> 'h executor \<Rightarrow>
     ((fault + unit) \<times> 'h executor) option" where
  "handle_exception al mo cs lo obj v =
     (case unwind_turn al mo cs lo obj v of
        None \<Rightarrow> None
      | Some (Inl e, v') \<Rightarrow> Some (Inl e, v')
      | Some (Inr (Deliver at), v') \<Rightarrow> deliver_exception al mo cs obj at lo v'
      | Some (Inr (Wrapped w), v') \<Rightarrow> handle_exception al mo cs lo w v')"
  by pat_completeness auto

termination
  by (relation "measure (\<lambda>(al, mo, cs, lo, obj, v). length (ex_frames v))") (auto dest: wrapped_cuts)

declare handle_exception.simps [simp del]

end
