(* ===== verification/UnwindLaws.thy ===== *)
theory UnwindLaws
  imports Unwind HierarchyLaws ObjectHeapLaws SideStoreLaws
begin

text \<open>
  What the delivery of exceptions promises: it ends, it never touches a frame of a caller of the
  run, every frame it drops has its monitor released once and from the top down, the handler it
  finds is the innermost, and an initializer that fails leaves its class erroneous.
\<close>

section \<open>Popping\<close>

definition release :: "'h handler_ops \<Rightarrow> frame \<Rightarrow> 'h \<Rightarrow> 'h" where
  "release mo f h = (case monitor f of None \<Rightarrow> h | Some k \<Rightarrow> snd (mo_exit mo k h))"

lemma pop_frame_law:
  assumes "ex_frames v = fs @ [f]"
  shows "\<exists>p. snd (pop_frame al mo v) = v\<lparr>ex_frames := fs, ex_pool := p, ex_handler := release mo f (ex_handler v)\<rparr>"
  using assms
  by (auto simp: pop_frame_def ex_exit_def Let_def release_def split: option.split sum.split prod.split)

lemma truncate_law:
  "\<exists>p. truncate_frames al mo n v = v\<lparr>ex_frames := take n (ex_frames v), ex_pool := p,
     ex_handler := fold (release mo) (rev (drop n (ex_frames v))) (ex_handler v)\<rparr>"
proof (induction al mo n v rule: truncate_frames.induct)
  case (1 al mo n v)
  show ?case
  proof (cases "n < length (ex_frames v)")
    case True
    then obtain fs f where fs: "ex_frames v = fs @ [f]" by (cases "ex_frames v" rule: rev_cases) auto
    then have n: "n \<le> length fs" using True by simp
    obtain p where p: "snd (pop_frame al mo v) = v\<lparr>ex_frames := fs, ex_pool := p, ex_handler := release mo f (ex_handler v)\<rparr>"
      using pop_frame_law [OF fs] by blast
    show ?thesis
      using 1 [OF True] True n unfolding truncate_frames.simps [of al mo n v] p
      by (simp add: fs)
  next
    case False
    then show ?thesis by (intro exI [of _ "ex_pool v"]) (simp add: truncate_frames.simps)
  qed
qed

section \<open>The search for a handler\<close>

text \<open>An entry of a method catches a class at a program counter.\<close>

definition covers :: "classes \<Rightarrow> class_file \<Rightarrow> string \<Rightarrow> nat \<Rightarrow> exception_entry \<Rightarrow> bool" where
  "covers cs cf exc at e \<longleftrightarrow> unat (start_pc e) \<le> at \<and> at < unat (end_pc e) \<and>
     (catch_type_index e = 0 \<or>
      (\<exists>b c. cp_class_name cf (catch_type_index e) = Some b \<and> utf8_text b = Some c \<and>
         (c = java_lang_Object \<or> subtype cs c exc)))"

lemma instance_decided: "hierarchy_ok r cs \<Longrightarrow> is_instance_of cs a t = Some (t = java_lang_Object \<or> subtype cs t a)"
  using instance_loop_law by (simp add: is_instance_of_def)

lemma handler_scan_law:
  assumes "hierarchy_ok r cs"
  shows "handler_scan cs cf exc at es = Some (map_option (\<lambda>e. unat (handler_pc e)) (find (covers cs cf exc at) es))"
proof (induction es)
  case (Cons e es)
  then show ?case
    using instance_decided [OF assms, of exc]
    by (auto simp: covers_def entry_catches_def bind_eq_Some_conv split: option.splits bool.splits)
qed simp

text \<open>Where a frame would take the exception over.\<close>

definition handler_at :: "classes \<Rightarrow> object_heap \<Rightarrow> u16 \<Rightarrow> frame \<Rightarrow> nat option" where
  "handler_at cs os obj f =
     (case frame_method cs f of
        Inl _ \<Rightarrow> None
      | Inr (cf, m) \<Rightarrow>
          Option.bind (ob_class_name os obj) (\<lambda>exc.
            map_option (\<lambda>e. unat (handler_pc e)) (find (covers cs cf exc (inst_pc f)) (exception_table cf m))))"

definition frame_valid :: "classes \<Rightarrow> frame \<Rightarrow> bool" where
  "frame_valid cs f \<longleftrightarrow> (\<exists>cf m. frame_method cs f = Inr (cf, m))"

lemma frame_handler_law:
  assumes "hierarchy_ok r cs" "frame_valid cs f"
  shows "frame_handler cs os obj f = Some (Inr (handler_at cs os obj f))"
  using assms handler_scan_law [OF assms(1)]
  by (auto simp: frame_handler_def frame_valid_def handler_at_def find_exception_handler_def split: option.split)

lemma frame_handler_invalid:
  assumes "hierarchy_ok r cs" shows "\<exists>x. frame_handler cs os obj f = Some x"
  using handler_scan_law [OF assms]
  by (auto simp: frame_handler_def find_exception_handler_def split: option.split sum.split prod.split)

text \<open>The topmost frame of a run with a property, by its position.\<close>

definition topmost :: "(frame \<Rightarrow> bool) \<Rightarrow> nat \<Rightarrow> frame list \<Rightarrow> nat option \<Rightarrow> bool" where
  "topmost P lo fs at \<longleftrightarrow>
     (case at of
        None \<Rightarrow> \<forall>j. lo \<le> j \<and> j < length fs \<longrightarrow> \<not> P (fs ! j)
      | Some i \<Rightarrow> lo \<le> i \<and> i < length fs \<and> P (fs ! i) \<and> (\<forall>j. i < j \<and> j < length fs \<longrightarrow> \<not> P (fs ! j)))"

lemma handler_frame_law:
  assumes "\<forall>j. lo \<le> j \<and> j < n \<longrightarrow> has (fs ! j) = Some (Inr (h (fs ! j)))" "n \<le> length fs"
  shows "\<exists>at. handler_frame has lo fs n = Some (Inr at) \<and> topmost (\<lambda>f. h f \<noteq> None) lo (take n fs) at"
  using assms
proof (induction n)
  case 0
  then show ?case by (simp add: topmost_def)
next
  case (Suc n)
  consider "n < lo" | "lo \<le> n" "h (fs ! n) = None" | x where "lo \<le> n" "h (fs ! n) = Some x" by fastforce
  then show ?case
  proof cases
    case 1
    then show ?thesis by (auto simp: topmost_def)
  next
    case 2
    obtain at where at: "handler_frame has lo fs n = Some (Inr at)" "topmost (\<lambda>f. h f \<noteq> None) lo (take n fs) at"
      using Suc by auto
    moreover have "topmost (\<lambda>f. h f \<noteq> None) lo (take (Suc n) fs) at"
      using at(2) 2 Suc.prems(2) unfolding topmost_def
      by (auto split: option.splits simp: less_Suc_eq)
    ultimately show ?thesis using 2 Suc.prems(1) by simp
  next
    case 3
    then show ?thesis using Suc.prems by (auto simp: topmost_def)
  qed
qed

section \<open>What an unwinding leaves\<close>

definition resumed :: "frame \<Rightarrow> frame \<Rightarrow> bool" where
  "resumed f g \<longleftrightarrow> class_idx g = class_idx f \<and> method_idx g = method_idx f \<and> inst_pc g = inst_pc f \<and>
     locals g = locals f \<and> box_return g = box_return f \<and> monitor g = monitor f"

text \<open>
  Down to some frame, at or above the floor: the frames from there on are gone, their monitors
  released from the top down, and the one below may be set up to run its handler.
\<close>

definition unwound :: "'h handler_ops \<Rightarrow> nat \<Rightarrow> 'h executor \<Rightarrow> 'h executor \<Rightarrow> bool" where
  "unwound mo lo v v' \<longleftrightarrow> (let fs = ex_frames v in \<exists>n. lo \<le> n \<and> n \<le> length fs \<and>
     ex_handler v' = fold (release mo) (rev (drop n fs)) (ex_handler v) \<and>
     (ex_frames v' = take n fs \<or>
      (\<exists>i g. n = Suc i \<and> lo \<le> i \<and> resumed (fs ! i) g \<and> ex_frames v' = take i fs @ [g])))"

lemma unwound_cut:
  assumes "lo \<le> n" "n \<le> length (ex_frames v)" "ex_frames v' = take n (ex_frames v)"
    "ex_handler v' = fold (release mo) (rev (drop n (ex_frames v))) (ex_handler v)"
  shows "unwound mo lo v v'"
  using assms unfolding unwound_def Let_def by blast

lemma unwound_same: "lo \<le> length (ex_frames v) \<Longrightarrow> ex_frames v' = ex_frames v \<Longrightarrow> ex_handler v' = ex_handler v \<Longrightarrow> unwound mo lo v v'"
  by (rule unwound_cut [of _ "length (ex_frames v)"]) auto

lemma unwound_truncate:
  assumes "lo \<le> n" "n \<le> length (ex_frames v)" "ex_frames u = ex_frames v" "ex_handler u = ex_handler v"
  shows "unwound mo lo v (truncate_frames al mo n u)"
  using truncate_law [of al mo n u] assms by (auto intro: unwound_cut)

lemma unwound_trans:
  assumes "unwound mo lo u w" "lo \<le> m" "m \<le> length (ex_frames v)" "ex_frames u = take m (ex_frames v)"
    "ex_handler u = fold (release mo) (rev (drop m (ex_frames v))) (ex_handler v)"
  shows "unwound mo lo v w"
proof -
  obtain n where n: "lo \<le> n" "n \<le> m" "ex_handler w = fold (release mo) (rev (drop n (take m (ex_frames v)))) (ex_handler u)"
      "ex_frames w = take n (take m (ex_frames v)) \<or>
        (\<exists>i g. n = Suc i \<and> lo \<le> i \<and> resumed (take m (ex_frames v) ! i) g \<and> ex_frames w = take i (take m (ex_frames v)) @ [g])"
    using assms unfolding unwound_def Let_def by auto
  have "drop n (ex_frames v) = drop n (take m (ex_frames v)) @ drop m (ex_frames v)"
    using n(2) assms(3) by (metis append_take_drop_id drop_take le_add_diff_inverse drop_drop add.commute)
  then have h: "ex_handler w = fold (release mo) (rev (drop n (ex_frames v))) (ex_handler v)"
    using n(3) assms(5) by simp
  from n(4) show ?thesis
  proof (elim disjE exE conjE)
    assume "ex_frames w = take n (take m (ex_frames v))"
    then show ?thesis using n(1,2) assms(3) h by (intro unwound_cut [of lo n]) (auto simp: min_absorb1)
  next
    fix i g assume "n = Suc i" "lo \<le> i" "resumed (take m (ex_frames v) ! i) g" "ex_frames w = take i (take m (ex_frames v)) @ [g]"
    then show ?thesis using n(1,2) assms(3) h unfolding unwound_def Let_def
      by (intro exI [of _ n]) (auto simp: min_absorb1)
  qed
qed

lemma push_resumed: "push mem x (f\<lparr>stack := []\<rparr>) = (r, g) \<Longrightarrow> resumed f g \<and> resumed f (g\<lparr>pc := h\<rparr>)"
  by (auto simp: push_def grow_and_push_def resumed_def split: if_splits option.splits)

lemma uncaught_unwinds:
  assumes "uncaught al mo cs obj v = (r, w)" shows "unwound mo 0 v w"
  using assms unwound_truncate [of 0 0 v v mo al] unwound_same [of 0 v v mo]
  by (auto simp: uncaught_def Let_def split: sum.splits option.splits)

lemma deliver_unwinds:
  assumes "deliver_exception al mo cs obj at lo v = Some (r, w)" "lo \<le> length (ex_frames v)"
    "\<forall>i. at = Some i \<longrightarrow> lo \<le> i \<and> i < length (ex_frames v)"
  shows "unwound mo lo v w"
proof (cases at)
  case None
  then show ?thesis
    using assms uncaught_unwinds [of al mo cs obj v r w] unwound_truncate [of lo lo v v mo al]
    by (auto simp: deliver_exception_def split: if_splits)
next
  case (Some i)
  then have i: "lo \<le> i" "i < length (ex_frames v)" using assms(3) by auto
  define v1 where "v1 = truncate_frames al mo (Suc i) v"
  obtain p where v1: "v1 = v\<lparr>ex_frames := take (Suc i) (ex_frames v), ex_pool := p,
     ex_handler := fold (release mo) (rev (drop (Suc i) (ex_frames v))) (ex_handler v)\<rparr>"
    using truncate_law [of al mo "Suc i" v] unfolding v1_def by auto
  have fs: "ex_frames v1 = take i (ex_frames v) @ [ex_frames v ! i]"
    using i(2) by (simp add: v1 take_Suc_conv_app_nth)
  have cut: "unwound mo lo v v1"
    using i by (intro unwound_cut [of _ "Suc i"]) (simp_all add: v1)
  have res: "unwound mo lo v (v1\<lparr>ex_frames := take i (ex_frames v) @ [g]\<rparr>)" if "resumed (ex_frames v ! i) g" for g
    using i that unfolding unwound_def Let_def by (intro exI [of _ "Suc i"]) (auto simp: v1)
  show ?thesis
    using assms(1) Some fs cut res
    by (auto simp: deliver_exception_def v1_def [symmetric] Let_def dest!: push_resumed
        split: option.splits sum.splits prod.splits)
qed

lemma alloc_wrapper_keeps:
  "alloc_wrapper al obj v = (r, v') \<Longrightarrow> ex_frames v' = ex_frames v \<and> ex_handler v' = ex_handler v \<and> ex_statics v' = ex_statics v"
  by (auto simp: alloc_wrapper_def ex_alloc_def heap_setters split: prod.splits sum.splits option.splits)

lemma describe_wrapper_keeps:
  "describe_wrapper al exc obj w v = (r, v') \<Longrightarrow> ex_frames v' = ex_frames v \<and> ex_handler v' = ex_handler v \<and> ex_statics v' = ex_statics v"
  by (auto simp: describe_wrapper_def heap_setters split: prod.splits sum.splits option.splits)

lemma handler_frame_range:
  "handler_frame has lo fs n = Some (Inr (Some i)) \<Longrightarrow> lo \<le> i \<and> i < n"
  by (induction n) (auto split: if_splits option.splits sum.splits)

text \<open>The frames a turn leaves, and what it decided.\<close>

definition turned :: "'h handler_ops \<Rightarrow> nat \<Rightarrow> 'h executor \<Rightarrow> fault + unwinding \<Rightarrow> 'h executor \<Rightarrow> bool" where
  "turned mo lo v r w \<longleftrightarrow>
     (case r of
        Inr (Wrapped x) \<Rightarrow> \<exists>m. lo \<le> m \<and> m < length (ex_frames v) \<and> ex_frames w = take m (ex_frames v) \<and>
          ex_handler w = fold (release mo) (rev (drop m (ex_frames v))) (ex_handler v)
      | Inr (Deliver at) \<Rightarrow> ex_frames w = ex_frames v \<and> ex_handler w = ex_handler v \<and>
          (\<forall>i. at = Some i \<longrightarrow> lo \<le> i \<and> i < length (ex_frames v))
      | Inl e \<Rightarrow> ex_frames w = ex_frames v \<and> ex_handler w = ex_handler v)"

lemma turn_law:
  assumes "unwind_turn al mo cs lo obj v = Some (r, w)" "lo \<le> length (ex_frames v)"
  shows "turned mo lo v r w"
proof (cases "handler_frame (frame_handler cs (ex_objects v) obj) lo (ex_frames v) (length (ex_frames v))")
  case None
  then show ?thesis using assms by (simp add: unwind_turn_def)
next
  case (Some q)
  show ?thesis
  proof (cases q)
    case (Inl e)
    then show ?thesis using assms Some by (auto simp: unwind_turn_def turned_def)
  next
    case (Inr at)
    define base where "base = (case at of None \<Rightarrow> lo | Some i \<Rightarrow> i + 1)"
    define cut where "cut = drop base (ex_frames v)"
    define v1 where "v1 = v\<lparr>ex_statics := mark_crossed al cs cut (ex_statics v)\<rparr>"
    have rng: "at = Some i \<Longrightarrow> lo \<le> i \<and> i < length (ex_frames v)" for i
      using handler_frame_range Some Inr by blast
    then have base: "lo \<le> base" "base \<le> length (ex_frames v)" using assms(2) by (auto simp: base_def split: option.split)
    show ?thesis
    proof (cases "position (is_clinit cs) cut")
      case None
      then show ?thesis
        using assms(1) Some Inr base rng by (auto simp: unwind_turn_def turned_def Let_def base_def [symmetric] cut_def [symmetric])
    next
      case k: (Some k)
      then have k': "base + k < length (ex_frames v)" using position_Some [OF k] by (auto simp: cut_def)
      have t: "turned mo lo v (Inr (Wrapped x)) (truncate_frames al mo (base + k) u)"
        if u: "ex_frames u = ex_frames v" "ex_handler u = ex_handler v" for x u
        using truncate_law [of al mo "base + k" u] k' base u unfolding turned_def
        by (auto intro!: exI [of _ "base + k"])
      show ?thesis
        using assms(1) Some Inr base k t rng
        by (auto simp: unwind_turn_def Let_def base_def [symmetric] cut_def [symmetric] turned_def
            dest!: alloc_wrapper_keeps describe_wrapper_keeps split: option.splits sum.splits prod.splits bool.splits)
    qed
  qed
qed

lemma handle_unwinds:
  assumes "handle_exception al mo cs lo obj v = Some (r, w)" "lo \<le> length (ex_frames v)"
  shows "unwound mo lo v w"
  using assms
proof (induction al mo cs lo obj v rule: handle_exception.induct)
  case (1 al mo cs lo obj v)
  obtain q u where q: "unwind_turn al mo cs lo obj v = Some (q, u)"
    using 1(2) by (auto simp: handle_exception.simps [of al mo cs lo obj v] split: option.splits)
  have t: "turned mo lo v q u" using turn_law [OF q 1(3)] .
  show ?case
  proof (cases q)
    case (Inl e)
    then show ?thesis
      using 1(2,3) q t by (auto simp: handle_exception.simps [of al mo cs lo obj v] turned_def intro: unwound_same)
  next
    case (Inr d)
    show ?thesis
    proof (cases d)
      case (Deliver at)
      then have "deliver_exception al mo cs obj at lo u = Some (r, w)"
        using 1(2) q Inr by (simp add: handle_exception.simps [of al mo cs lo obj v])
      then have "unwound mo lo u w"
        using deliver_unwinds t Deliver Inr 1(3) by (force simp: turned_def)
      then show ?thesis
        using t Deliver Inr 1(3) unfolding turned_def unwound_def by simp
    next
      case (Wrapped x)
      then have h: "handle_exception al mo cs lo x u = Some (r, w)"
        using 1(2) q Inr by (simp add: handle_exception.simps [of al mo cs lo obj v])
      obtain m where m: "lo \<le> m" "m < length (ex_frames v)" "ex_frames u = take m (ex_frames v)"
          "ex_handler u = fold (release mo) (rev (drop m (ex_frames v))) (ex_handler v)"
        using t Wrapped Inr by (auto simp: turned_def)
      have "unwound mo lo u w"
        using 1(1) [OF q refl Inr Wrapped h] m by simp
      then show ?thesis using unwound_trans [of mo lo u w m v] m by simp
    qed
  qed
qed

section \<open>Delivery ends\<close>

lemma handler_frame_ends:
  assumes "\<And>f. \<exists>x. has f = Some x" shows "\<exists>x. handler_frame has lo fs n = Some x"
proof (induction n)
  case (Suc n)
  then show ?case using assms [of "fs ! n"] by (auto split: option.splits sum.splits)
qed simp

lemma turn_ends:
  assumes "hierarchy_ok r cs" shows "\<exists>x. unwind_turn al mo cs lo obj v = Some x"
proof -
  obtain q where "handler_frame (frame_handler cs (ex_objects v) obj) lo (ex_frames v) (length (ex_frames v)) = Some q"
    using handler_frame_ends frame_handler_invalid [OF assms] by meson
  then show ?thesis
    by (auto simp: unwind_turn_def Let_def instance_decided [OF assms] split: option.split sum.split bool.split)
qed

lemma deliver_ends:
  assumes "hierarchy_ok r cs" shows "\<exists>x. deliver_exception al mo cs obj at lo v = Some x"
proof (cases at)
  case (Some i)
  define v1 where "v1 = truncate_frames al mo (Suc i) v"
  obtain x where "frame_handler cs (ex_objects v1) obj (last (ex_frames v1)) = Some x"
    using frame_handler_invalid [OF assms] by blast
  then show ?thesis using Some
    by (auto simp: deliver_exception_def v1_def [symmetric] Let_def split: option.split sum.split)
qed (simp add: deliver_exception_def)

lemma handle_ends:
  assumes "hierarchy_ok r cs" shows "\<exists>x. handle_exception al mo cs lo obj v = Some x"
proof (induction "length (ex_frames v)" arbitrary: v obj rule: less_induct)
  case less
  obtain q u where q: "unwind_turn al mo cs lo obj v = Some (q, u)"
    using turn_ends [OF assms, of al mo lo obj v] by auto
  show ?case
  proof (cases "\<exists>w. q = Inr (Wrapped w)")
    case True
    then obtain w where w: "q = Inr (Wrapped w)" by blast
    then have "length (ex_frames u) < length (ex_frames v)" using wrapped_cuts q by blast
    from less [OF this] show ?thesis using q w by (simp add: handle_exception.simps [of al mo cs lo obj v])
  next
    case False
    then show ?thesis
      using q deliver_ends [OF assms, of al mo _ _ lo u]
      by (auto simp: handle_exception.simps [of al mo cs lo obj v] split: sum.split unwinding.split)
  qed
qed

section \<open>The innermost handler\<close>

lemma turn_search:
  assumes "hierarchy_ok r cs" "lo \<le> length (ex_frames v)" "\<forall>f\<in>set (drop lo (ex_frames v)). frame_valid cs f"
  shows "\<exists>at. handler_frame (frame_handler cs (ex_objects v) obj) lo (ex_frames v) (length (ex_frames v)) = Some (Inr at) \<and>
    topmost (\<lambda>f. handler_at cs (ex_objects v) obj f \<noteq> None) lo (ex_frames v) at"
proof -
  have "frame_valid cs (ex_frames v ! j)" if "lo \<le> j" "j < length (ex_frames v)" for j
  proof -
    have "ex_frames v ! j = drop lo (ex_frames v) ! (j - lo)" using that by simp
    then show ?thesis using assms(3) that by (metis diff_less_mono length_drop nth_mem)
  qed
  then show ?thesis
    using handler_frame_law [where has = "frame_handler cs (ex_objects v) obj" and h = "handler_at cs (ex_objects v) obj"
        and fs = "ex_frames v" and n = "length (ex_frames v)" and lo = lo] frame_handler_law [OF assms(1)] by simp
qed

lemma topmost_unique: "topmost P lo fs a \<Longrightarrow> topmost P lo fs b \<Longrightarrow> a = b"
  unfolding topmost_def by (auto split: option.splits) (metis linorder_neqE_nat)

definition above :: "nat \<Rightarrow> nat option \<Rightarrow> nat" where
  "above lo at = (case at of None \<Rightarrow> lo | Some i \<Rightarrow> i + 1)"

definition thrown_class :: "object_heap \<Rightarrow> u16 \<Rightarrow> string" where
  "thrown_class os obj = (case ob_class_name os obj of None \<Rightarrow> '''' | Some c \<Rightarrow> c)"

lemma topmost_above: "topmost P lo fs at \<Longrightarrow> lo \<le> length fs \<Longrightarrow> above lo at \<le> length fs \<and> lo \<le> above lo at"
  by (auto simp: topmost_def above_def split: option.splits)

text \<open>An unwinding that crosses no initializer, or carries an error, delivers the exception itself.\<close>

lemma turn_delivers:
  assumes "hierarchy_ok r cs" "lo \<le> length (ex_frames v)" "\<forall>f\<in>set (drop lo (ex_frames v)). frame_valid cs f"
    "topmost (\<lambda>f. handler_at cs (ex_objects v) obj f \<noteq> None) lo (ex_frames v) at"
    "(\<forall>f\<in>set (drop (above lo at) (ex_frames v)). \<not> is_clinit cs f) \<or> subtype cs java_lang_Error (thrown_class (ex_objects v) obj)"
  shows "unwind_turn al mo cs lo obj v =
    Some (Inr (Deliver at), v\<lparr>ex_statics := mark_crossed al cs (drop (above lo at) (ex_frames v)) (ex_statics v)\<rparr>)"
proof -
  have s: "handler_frame (frame_handler cs (ex_objects v) obj) lo (ex_frames v) (length (ex_frames v)) = Some (Inr at)"
    using turn_search [OF assms(1-3), of obj] topmost_unique [OF assms(4)] by blast
  have b: "\<not> length (ex_frames v) < above lo at" using topmost_above [OF assms(4,2)] by simp
  show ?thesis
  proof (cases "position (is_clinit cs) (drop (above lo at) (ex_frames v))")
    case None
    then show ?thesis using s b by (simp add: unwind_turn_def above_def [symmetric] Let_def)
  next
    case (Some k)
    then have "subtype cs java_lang_Error (thrown_class (ex_objects v) obj)"
      using assms(5) position_None by (metis option.distinct(1))
    then show ?thesis using s b Some instance_decided [OF assms(1)]
      by (simp add: unwind_turn_def above_def [symmetric] thrown_class_def [symmetric] Let_def)
  qed
qed

lemma caught_law:
  assumes "hierarchy_ok r cs" "lo \<le> length (ex_frames v)" "\<forall>f\<in>set (drop lo (ex_frames v)). frame_valid cs f"
    "topmost (\<lambda>f. handler_at cs (ex_objects v) obj f \<noteq> None) lo (ex_frames v) (Some i)"
    "(\<forall>f\<in>set (drop (i + 1) (ex_frames v)). \<not> is_clinit cs f) \<or> subtype cs java_lang_Error (thrown_class (ex_objects v) obj)"
    "0 < stack_cap (ex_frames v ! i)"
  shows "\<exists>w. handle_exception al mo cs lo obj v = Some (Inr (), w) \<and> ex_heaps w = ex_heaps v \<and>
    ex_frames w = take i (ex_frames v) @
      [(ex_frames v ! i)\<lparr>stack := [VObjectRef obj], pc := the (handler_at cs (ex_objects v) obj (ex_frames v ! i))\<rparr>]"
proof -
  let ?fs = "ex_frames v"
  have i: "lo \<le> i" "i < length ?fs" "handler_at cs (ex_objects v) obj (?fs ! i) \<noteq> None"
    using assms(4) by (auto simp: topmost_def)
  define u where "u = v\<lparr>ex_statics := mark_crossed al cs (drop (i + 1) ?fs) (ex_statics v)\<rparr>"
  have t: "unwind_turn al mo cs lo obj v = Some (Inr (Deliver (Some i)), u)"
    using turn_delivers [OF assms(1-4)] assms(5) by (simp add: above_def u_def)
  define v1 where "v1 = truncate_frames al mo (Suc i) u"
  have v1: "ex_frames v1 = take i ?fs @ [?fs ! i]" "ex_heaps v1 = ex_heaps v"
    using truncate_law [of al mo "Suc i" u] i(2) by (auto simp: v1_def u_def take_Suc_conv_app_nth)
  have "?fs ! i = drop lo ?fs ! (i - lo)" using i by simp
  then have "frame_valid cs (?fs ! i)" using assms(3) i by (metis diff_less_mono length_drop nth_mem)
  then have h: "frame_handler cs (ex_objects v) obj (?fs ! i) = Some (Inr (handler_at cs (ex_objects v) obj (?fs ! i)))"
    using frame_handler_law [OF assms(1)] by blast
  have p: "push (al ValueBuf) (VObjectRef obj) ((?fs ! i)\<lparr>stack := []\<rparr>) = (Inr (), (?fs ! i)\<lparr>stack := [VObjectRef obj]\<rparr>)"
    using assms(6) by (simp add: push_room)
  have "handle_exception al mo cs lo obj v = deliver_exception al mo cs obj (Some i) lo u"
    using t by (simp add: handle_exception.simps [of al mo cs lo obj v])
  then show ?thesis
    using v1 h p i(3) by (auto simp: deliver_exception_def v1_def [symmetric] Let_def)
qed

lemma uncaught_law:
  assumes "hierarchy_ok r cs" "lo \<le> length (ex_frames v)" "\<forall>f\<in>set (drop lo (ex_frames v)). frame_valid cs f"
    "topmost (\<lambda>f. handler_at cs (ex_objects v) obj f \<noteq> None) lo (ex_frames v) None"
    "(\<forall>f\<in>set (drop lo (ex_frames v)). \<not> is_clinit cs f) \<or> subtype cs java_lang_Error (thrown_class (ex_objects v) obj)"
  shows "0 < lo \<Longrightarrow> \<exists>w. handle_exception al mo cs lo obj v = Some (Inl (Err (Exception obj)), w) \<and>
      ex_heaps w = ex_heaps v \<and> ex_frames w = take lo (ex_frames v)"
    "lo = 0 \<Longrightarrow> get_exception_message (ex_stores v) obj = None \<Longrightarrow>
      \<exists>w trace. handle_exception al mo cs lo obj v =
        Some (Inl (Err (UncaughtException (case ob_class_name (ex_objects v) obj of None \<Rightarrow> unknown_class | Some c \<Rightarrow> c) None trace)), w) \<and>
        ex_heaps w = ex_heaps v \<and> ex_frames w = []"
proof -
  define u where "u = v\<lparr>ex_statics := mark_crossed al cs (drop lo (ex_frames v)) (ex_statics v)\<rparr>"
  have "unwind_turn al mo cs lo obj v = Some (Inr (Deliver None), u)"
    using turn_delivers [OF assms(1-4)] assms(5) by (simp add: above_def u_def)
  then have d: "handle_exception al mo cs lo obj v = deliver_exception al mo cs obj None lo u"
    by (simp add: handle_exception.simps [of al mo cs lo obj v])
  show "\<exists>w. handle_exception al mo cs lo obj v = Some (Inl (Err (Exception obj)), w) \<and>
      ex_heaps w = ex_heaps v \<and> ex_frames w = take lo (ex_frames v)" if "0 < lo"
    using that truncate_law [of al mo lo u] unfolding d by (auto simp: deliver_exception_def u_def)
  show "\<exists>w trace. handle_exception al mo cs lo obj v =
        Some (Inl (Err (UncaughtException (case ob_class_name (ex_objects v) obj of None \<Rightarrow> unknown_class | Some c \<Rightarrow> c) None trace)), w) \<and>
        ex_heaps w = ex_heaps v \<and> ex_frames w = []"
    if "lo = 0" "get_exception_message (ex_stores v) obj = None"
    using that truncate_law [of al mo 0 u] unfolding d
    by (auto simp: deliver_exception_def uncaught_def Let_def u_def)
qed

section \<open>Initializers that fail\<close>

lemma erroneous_marks:
  assumes "al TableBuf (ci div 32 + 1) \<or> ci div 32 < length (items (erroneous s))"
  shows "is_erroneous (mark_erroneous al ci s) ci"
proof -
  obtain t where t: "grow_table (al TableBuf) (ci div 32 + 1) 0 (erroneous s) = Some t" "ci div 32 < length (items t)"
  proof -
    have "\<exists>t. grow_table (al TableBuf) (ci div 32 + 1) 0 (erroneous s) = Some t"
      using assms by (auto simp: grow_table_def vec_reserve_exact_def)
    then show ?thesis using that grow_table_some by fastforce
  qed
  then show ?thesis
    by (simp add: is_erroneous_def mark_erroneous_def bit_at_def set_bit_at_def vec_set_def vec_get_def bit_simps)
qed

lemma erroneous_stays:
  assumes "is_erroneous s cj" shows "is_erroneous (mark_erroneous al ci s) cj"
proof (cases "grow_table (al TableBuf) (ci div 32 + 1) 0 (erroneous s)")
  case (Some t)
  note g = grow_table_some [OF Some]
  have "cj div 32 < length (items (erroneous s))" "bit (items (erroneous s) ! (cj div 32)) (cj mod 32)"
    using assms by (auto simp: is_erroneous_def bit_at_def vec_get_def split: if_splits)
  then have "cj div 32 < length (items t)" "bit (items t ! (cj div 32)) (cj mod 32)" using g by auto
  then show ?thesis using Some
    by (cases "cj div 32 = ci div 32")
      (simp_all add: is_erroneous_def mark_erroneous_def bit_at_def set_bit_at_def vec_set_def vec_get_def bit_simps)
qed (simp add: mark_erroneous_def assms)

lemma crossed_marked:
  assumes "f \<in> set fs" "is_clinit cs f" "al TableBuf (class_idx f div 32 + 1)"
  shows "is_erroneous (mark_crossed al cs fs s) (class_idx f)"
proof -
  have stays: "is_erroneous s ci \<Longrightarrow> is_erroneous (mark_crossed al cs gs s) ci" for gs s ci
    by (induction gs arbitrary: s) (auto simp: mark_crossed_def erroneous_stays)
  obtain as bs where "fs = as @ f # bs" using assms(1) by (meson split_list)
  then show ?thesis
    using stays erroneous_marks assms(2,3) by (simp add: mark_crossed_def)
qed

lemma class_name_view:
  assumes "ob_ok h" shows "ob_class_name h i = map_option fst (ob_abs h (unat i))"
proof (cases "ob_slot h (unat i)")
  case (Some a)
  then have "good_object h a" using good_of ob_ok_inv [OF assms] by blast
  then show ?thesis using Some by (simp add: ob_class_name_def ob_abs_def obj_view_def good_object_def)
qed (simp add: ob_class_name_def ob_abs_def)

lemma wrapper_law:
  assumes "alloc_wrapper al obj v = (Inr (Some w), u)" "ob_ok (ex_objects v)" "small_allocator al"
    "length (class_table (ex_objects v)) < 2 ^ 16"
  shows "ob_class_name (ex_objects u) w = Some java_lang_ExceptionInInitializerError"
    "get_exception_cause (ex_stores u) = (get_exception_cause (ex_stores v))(w \<mapsto> obj)"
    "ob_abs (ex_objects v) (unat w) = None"
proof -
  let ?n = java_lang_ExceptionInInitializerError
  obtain h where h: "alloc_with_field_count al ?n 0 (ex_objects v) = (Inr (Some w), h)" "ex_objects u = h"
      "\<exists>st. register_exception_cause al w obj (ex_stores v) = (Inr (), st) \<and> ex_stores u = st"
    using assms(1)
    by (auto simp: alloc_wrapper_def ex_alloc_def heap_setters ob_alloc_def default_field_count_for_native_def
        java_lang_ExceptionInInitializerError_def java_lang_Long_def java_lang_Double_def java_lang_Integer_def
        java_lang_Boolean_def java_lang_Float_def java_lang_Character_def java_lang_Byte_def java_lang_Short_def
        split: prod.splits sum.splits option.splits)
  have "allocated (ex_objects v) ?n 0 w h" using ob_alloc_law [OF assms(2-4), where name = ?n and n = 0] h(1) by simp
  then have "ob_ok h" "ob_abs (ex_objects v) (unat w) = None" "ob_abs h = (ob_abs (ex_objects v))(unat w \<mapsto> (?n, []))"
    by (simp_all add: allocated_def)
  then show "ob_class_name (ex_objects u) w = Some ?n" "ob_abs (ex_objects v) (unat w) = None"
    using class_name_view h(2) by simp_all
  show "get_exception_cause (ex_stores u) = (get_exception_cause (ex_stores v))(w \<mapsto> obj)"
    using h(3) causes.put_get by blast
qed

lemma describe_keeps_cause:
  assumes "describe_wrapper al exc obj w v = (Inr (), u)"
  shows "ex_objects u = ex_objects v" "get_exception_cause (ex_stores u) = get_exception_cause (ex_stores v)"
proof -
  have "get_exception_cause (snd (register_exception_message al w i s)) = get_exception_cause s" for i s
    by (auto simp: register_exception_message_def get_exception_cause_def fun_eq_iff split: prod.split)
  then show "ex_objects u = ex_objects v" "get_exception_cause (ex_stores u) = get_exception_cause (ex_stores v)"
    using assms by (auto simp: describe_wrapper_def heap_setters split: prod.splits sum.splits option.splits)
qed

lemma alloc_wrapper_statics:
  "alloc_wrapper al obj (v\<lparr>ex_statics := s\<rparr>) = (case alloc_wrapper al obj v of (r, u) \<Rightarrow> (r, u\<lparr>ex_statics := s\<rparr>))"
  by (auto simp: alloc_wrapper_def ex_alloc_def heap_setters split: prod.split sum.split option.split)

lemma describe_wrapper_statics:
  "describe_wrapper al exc obj w (v\<lparr>ex_statics := s\<rparr>) = (case describe_wrapper al exc obj w v of (r, u) \<Rightarrow> (r, u\<lparr>ex_statics := s\<rparr>))"
  by (auto simp: describe_wrapper_def wrapper_text_def heap_setters split: prod.split sum.split option.split)

lemma wrapped_law:
  assumes "hierarchy_ok r cs" "lo \<le> length (ex_frames v)" "\<forall>f\<in>set (drop lo (ex_frames v)). frame_valid cs f"
    "topmost (\<lambda>f. handler_at cs (ex_objects v) obj f \<noteq> None) lo (ex_frames v) at"
    "position (is_clinit cs) (drop (above lo at) (ex_frames v)) = Some k"
    "\<not> subtype cs java_lang_Error (thrown_class (ex_objects v) obj)"
    "alloc_wrapper al obj v = (Inr (Some w), v1)"
    "describe_wrapper al (thrown_class (ex_objects v) obj) obj w v1 = (Inr (), v2)"
  shows "handle_exception al mo cs lo obj v = handle_exception al mo cs lo w (truncate_frames al mo (above lo at + k)
    (v2\<lparr>ex_statics := mark_crossed al cs (drop (above lo at) (ex_frames v)) (ex_statics v)\<rparr>))"
proof -
  have s: "handler_frame (frame_handler cs (ex_objects v) obj) lo (ex_frames v) (length (ex_frames v)) = Some (Inr at)"
    using turn_search [OF assms(1-3), of obj] topmost_unique [OF assms(4)] by blast
  have b: "\<not> length (ex_frames v) < above lo at" using topmost_above [OF assms(4,2)] by simp
  have "java_lang_Error \<noteq> java_lang_Object" by (simp add: java_lang_Error_def java_lang_Object_def)
  then have "unwind_turn al mo cs lo obj v = Some (Inr (Wrapped w), truncate_frames al mo (above lo at + k)
      (v2\<lparr>ex_statics := mark_crossed al cs (drop (above lo at) (ex_frames v)) (ex_statics v)\<rparr>))"
    using s b assms(5-8) instance_decided [OF assms(1)]
    by (simp add: unwind_turn_def above_def [symmetric] thrown_class_def [symmetric] Let_def
        alloc_wrapper_statics describe_wrapper_statics)
  then show ?thesis by (simp add: handle_exception.simps [of al mo cs lo obj v])
qed

section \<open>What the run loop relies on\<close>

text \<open>C6: Handling an exception always ends: the search of the frames, the walk over the class hierarchy for each
  entry of each exception table, and the rounds in which a failed initializer's exception is wrapped.\<close>

theorem exception_handling_ends:
  assumes "hierarchy_ok r cs"
  shows "\<exists>res w. handle_exception al mo cs lo obj v = Some (res, w)"
  using handle_ends [OF assms, of al mo lo obj v] by auto

text \<open>C7: Whatever becomes of an exception, the frames of the callers of the run, below its floor, stay as they were.
  Of the frames of the run a prefix stays, the last of it possibly set up to run its handler; every frame above has
  its monitor released exactly once, the topmost first, and no monitor of a frame that stays is released.\<close>

theorem unwinding_keeps_callers:
  assumes "handle_exception al mo cs lo obj v = Some (res, w)" "lo \<le> length (ex_frames v)"
  shows "take lo (ex_frames w) = take lo (ex_frames v) \<and>
    (\<exists>n. lo \<le> n \<and> n \<le> length (ex_frames v) \<and> length (ex_frames w) = n \<and>
       ex_handler w = fold (release mo) (rev (drop n (ex_frames v))) (ex_handler v) \<and>
       (ex_frames w = take n (ex_frames v) \<or>
        (\<exists>i g. n = Suc i \<and> lo \<le> i \<and> resumed (ex_frames v ! i) g \<and> ex_frames w = take i (ex_frames v) @ [g])))"
proof -
  obtain n where n: "lo \<le> n" "n \<le> length (ex_frames v)"
      "ex_handler w = fold (release mo) (rev (drop n (ex_frames v))) (ex_handler v)"
      "ex_frames w = take n (ex_frames v) \<or>
        (\<exists>i g. n = Suc i \<and> lo \<le> i \<and> resumed (ex_frames v ! i) g \<and> ex_frames w = take i (ex_frames v) @ [g])"
    using handle_unwinds [OF assms] unfolding unwound_def Let_def by blast
  from n(4) have "take lo (ex_frames w) = take lo (ex_frames v)" "length (ex_frames w) = n"
    using n(1,2) by (auto simp: min_absorb1)
  then show ?thesis using n by blast
qed

text \<open>C5: An exception that crosses no class initializer on its way, or is an \<open>Error\<close>, goes to the topmost frame of
  the run that has an entry covering its program counter and catching the class: that frame continues at the handler
  with the exception alone on its stack, and the heaps are as they were. Without such a frame, a nested run hands the
  exception to its caller, and the outermost run reports it with its class.\<close>

theorem exception_reaches_innermost_handler:
  assumes "hierarchy_ok r cs" "lo \<le> length (ex_frames v)" "\<forall>f\<in>set (drop lo (ex_frames v)). frame_valid cs f"
    "topmost (\<lambda>f. handler_at cs (ex_objects v) obj f \<noteq> None) lo (ex_frames v) at"
    "(\<forall>f\<in>set (drop (above lo at) (ex_frames v)). \<not> is_clinit cs f) \<or> subtype cs java_lang_Error (thrown_class (ex_objects v) obj)"
  shows "case at of
      Some i \<Rightarrow> 0 < stack_cap (ex_frames v ! i) \<longrightarrow>
        (\<exists>w. handle_exception al mo cs lo obj v = Some (Inr (), w) \<and> ex_heaps w = ex_heaps v \<and>
          ex_frames w = take i (ex_frames v) @
            [(ex_frames v ! i)\<lparr>stack := [VObjectRef obj], pc := the (handler_at cs (ex_objects v) obj (ex_frames v ! i))\<rparr>])
    | None \<Rightarrow>
        (0 < lo \<longrightarrow> (\<exists>w. handle_exception al mo cs lo obj v = Some (Inl (Err (Exception obj)), w) \<and>
          ex_heaps w = ex_heaps v \<and> ex_frames w = take lo (ex_frames v))) \<and>
        (lo = 0 \<and> get_exception_message (ex_stores v) obj = None \<longrightarrow>
          (\<exists>w trace. handle_exception al mo cs lo obj v = Some (Inl (Err (UncaughtException
              (case ob_class_name (ex_objects v) obj of None \<Rightarrow> unknown_class | Some c \<Rightarrow> c) None trace)), w) \<and>
            ex_heaps w = ex_heaps v \<and> ex_frames w = []))"
proof (cases at)
  case None
  have c: "(\<forall>f\<in>set (drop lo (ex_frames v)). \<not> is_clinit cs f) \<or> subtype cs java_lang_Error (thrown_class (ex_objects v) obj)"
    using assms(5) None by (simp add: above_def)
  note law = uncaught_law [OF assms(1-3) assms(4) [unfolded None] c, of al mo]
  show ?thesis unfolding None option.case
    by (intro conjI impI) (rule law(1), assumption, elim conjE, rule law(2), assumption+)
next
  case (Some i)
  then show ?thesis using caught_law [OF assms(1-3), of obj i] assms(4,5) by (simp add: above_def)
qed


section \<open>An example\<close>

text \<open>
  A class \<open>A\<close> with a method whose first instruction is guarded by a catch-all handler at 1, and
  an initializer.
\<close>

definition link_H :: link where
  "link_H = \<lparr>link_words = [0x4B03, 43, 32, 3, 0, 0, 0, 2, 0, 31, 43, 0, 0, 1, 0, 0, 0, 0, 0, 0, 0, 0, 0xFFFF, 0, 0, 0,
       0, 1, 2, 0x0100, 0x0001, 0, 20, 0, 0, 0, 0, 6, 0, 0, 0, 0, 0],
     link_pool = [0, 0, 0, 0, 0, 1, 0x41, 0, 0, 8, 0x3C, 0x63, 0x6C, 0x69, 0x6E, 0x69, 0x74, 0x3E, 0, 0]\<rparr>"

definition class_H :: class_file where
  "class_H = \<lparr>cf_data = [0, 0, 0, 1, 0, 1, 0, 0, 0, 2, 0, 1, 0, 1, 0, 1, 0, 0, 0, 2, 0x00, 0xB1,
       0, 1, 0, 0, 0, 1, 0, 1, 0, 0], cf_link = link_H, cf_name_hash = name_hash [0x41]\<rparr>"

definition classes_H :: classes where "classes_H = classes_linear [class_H]"

lemmas link_H_reads = link_H_def hdr_def nth_Cons_numeral word_at_def HEADER_WORDS_def cp_count_def on_ok_def and_ok_def ask_def

lemma class_H_name: "scanned_name class_H = [0x41]"
  by (simp add: scanned_name_def lk_name_def cf_view_def class_H_def name_ref_def link_H_reads
      link_utf8_ref_def pool_utf8_def POOL_ALIGN_def utf8_at_def be16_at_def get_range_def be16_def)

definition guarded_method :: method_info where
  "guarded_method = \<lparr>info_offset = 0, code_offset = 20, method_flags = 0, lnt_offset = 0, sig_lo = 0, sig_hi = 0\<rparr>"

definition initializer_method :: method_info where
  "initializer_method = \<lparr>info_offset = 6, code_offset = 0, method_flags = 0, lnt_offset = 0, sig_lo = 0, sig_hi = 0\<rparr>"

lemma class_H_methods: "cf_methods class_H = [guarded_method, initializer_method]"
  by (simp add: cf_methods_def listed_def class_H_def link_methods_def region_def methods_off_def methods_len_def
      link_H_reads guarded_method_def initializer_method_def)

lemma class_H_utf8: "lk_utf8 (cf_view class_H) 1 = Inr (Some [0x41])"
    "lk_utf8 (cf_view class_H) 2 = Inr (Some [0x3C, 0x63, 0x6C, 0x69, 0x6E, 0x69, 0x74, 0x3E])"
  by (simp_all add: lk_utf8_def cf_view_def class_H_def link_H_reads cp_tag_def TAG_UTF8_def cp_word_def
      link_utf8_ref_def pool_utf8_def POOL_ALIGN_def utf8_at_def be16_at_def get_range_def be16_def)

lemma class_H_method_names:
  "cf_method_name class_H guarded_method = Some [0x41]" "cf_method_name class_H initializer_method = Some clinit_name"
proof -
  have "method_name_index (cf_view class_H) guarded_method = Some 1" "method_name_index (cf_view class_H) initializer_method = Some 2"
    by (simp_all add: method_name_index_def guarded_method_def initializer_method_def cf_view_def class_H_def be16_at_def
        get_range_def be16_def)
  then show "cf_method_name class_H guarded_method = Some [0x41]" "cf_method_name class_H initializer_method = Some clinit_name"
    using class_H_utf8 by (simp_all add: cf_method_name_def lk_method_name_def got_def clinit_name_def bytes_of_def ask_def and_ok_def)
qed

lemma class_H_exceptions:
  "exception_table class_H guarded_method = [\<lparr>start_pc = 0, end_pc = 1, handler_pc = 1, catch_type_index = 0\<rparr>]"
proof -
  have "method_code_len (cf_view class_H) guarded_method = 2"
    by (simp add: method_code_len_def guarded_method_def before_code_def cf_view_def class_H_def be32_at_def get_range_def be32_def)
  moreover have "be16_at (cf_data class_H) 22 = Some 1" "length (cf_data class_H) = 32"
      "get_range (cf_data class_H) 24 8 = Some [0, 0, 0, 1, 0, 1, 0, 0]"
    by (simp_all add: class_H_def be16_at_def get_range_def be16_def)
  moreover have "exception_entries (cf_data class_H) 24 (Suc 0) = [\<lparr>start_pc = 0, end_pc = 1, handler_pc = 1, catch_type_index = 0\<rparr>]"
    using calculation(4) by (simp add: be16_def)
  ultimately show ?thesis by (simp add: exception_table_def guarded_method_def)
qed

lemma classes_H_ok: "classes_ok classes_H"
  unfolding classes_H_def by (rule linear_ok) (simp add: class_H_name, simp add: class_H_def)

lemma class_H_alone:
  "super_class_name class_H = None" "cf_interfaces class_H = []" "length (files classes_H) = 1" "files classes_H ! 0 = class_H"
proof -
  show "super_class_name class_H = None"
    by (simp add: super_class_name_def lk_super_name_def cf_view_def class_H_def super_ref_def link_H_reads)
  show "cf_interfaces class_H = []"
    by (simp add: cf_interfaces_def listed_def class_H_def link_interfaces_def region_def ifaces_off_def ifaces_len_def link_H_reads)
qed (simp_all add: classes_H_def classes_linear_def)

lemma class_H_only: "find_class classes_H (bytes_of s) = (if s = ''A'' then Some 0 else None)"
proof -
  have "bytes_of s = [0x41] \<longleftrightarrow> s = ''A''" using bytes_of_inj [of s "''A''"] by (simp add: bytes_of_def)
  then show ?thesis
    using find_class_law [OF classes_H_ok] by (auto simp: find_class_def classes_H_def classes_linear_def class_H_name)
qed

lemma classes_H_hierarchy: "hierarchy_ok (\<lambda>_. 0) classes_H"
  by (simp add: hierarchy_ok_def class_H_alone class_H_only BUILTIN_SUPER_def)

text \<open>The guarded frame, a frame of the same method past the guard that holds a monitor, and an initializer's frame.\<close>

definition guarded_frame :: frame where "guarded_frame = make_frame 0 0 [] 0 4"
definition synchronized_frame :: frame where
  "synchronized_frame = (make_frame 0 0 [] 0 4)\<lparr>inst_pc := 1, monitor := Some (KObject 7)\<rparr>"
definition initializer_frame :: frame where "initializer_frame = make_frame 0 1 [] 0 4"

lemmas frames_H = guarded_frame_def synchronized_frame_def initializer_frame_def make_frame_def

lemma frames_H_methods:
  "frame_method classes_H guarded_frame = Inr (class_H, guarded_method)"
  "frame_method classes_H synchronized_frame = Inr (class_H, guarded_method)"
  "frame_method classes_H initializer_frame = Inr (class_H, initializer_method)"
  using class_H_alone class_H_methods by (simp_all add: frame_method_def frames_H nth_opt_def)

lemma frames_H_clinit:
  "\<not> is_clinit classes_H guarded_frame" "\<not> is_clinit classes_H synchronized_frame" "is_clinit classes_H initializer_frame"
  by (simp_all add: is_clinit_def frames_H_methods class_H_method_names) (simp_all add: clinit_name_def bytes_of_def)

lemma frames_H_handlers:
  "handler_at classes_H small_object_heap 1 guarded_frame = Some 1"
  "handler_at classes_H small_object_heap 1 synchronized_frame = None"
  "handler_at classes_H small_object_heap 1 initializer_frame = None"
proof -
  have n: "ob_class_name small_object_heap 1 = Some ''A''"
    using class_name_view [OF small_object_heap_ok(1), of 1] small_object_heap_abs by simp
  have e: "exception_table class_H initializer_method = []" by (simp add: exception_table_def initializer_method_def)
  show "handler_at classes_H small_object_heap 1 guarded_frame = Some 1"
    "handler_at classes_H small_object_heap 1 synchronized_frame = None"
    by (simp_all add: handler_at_def frames_H_methods n class_H_exceptions covers_def) (simp_all add: frames_H)
  show "handler_at classes_H small_object_heap 1 initializer_frame = None"
    by (simp add: handler_at_def frames_H_methods n e)
qed

definition executor_H :: "frame list \<Rightarrow> monitor_key list executor" where
  "executor_H fs = \<lparr>ex_frames = fs, ex_frames_cap = 4,
     ex_heaps = \<lparr>h_objects = small_object_heap, h_stores = stores_new, h_arrays = ah_new 2 0, h_strings = st_new 2\<rparr>,
     ex_gc = gc_new, ex_statics = statics_new, ex_class_objects = class_objects_new, ex_pool = pool_new,
     ex_pending = None, ex_clinits = [], ex_insns = 0, ex_own = 0, ex_handler = []\<rparr>"

text \<open>A handler that records the monitors released.\<close>

definition recorder :: "monitor_key list handler_ops" where
  "recorder = \<lparr>mo_enter = (\<lambda>k h. (Inr (), h)), mo_exit = (\<lambda>k h. (Inr (), h @ [k])), native_roots = (\<lambda>_. []),
     native_prune = (\<lambda>_ h. h), stop_asked = (\<lambda>_. False)\<rparr>"

lemma H_topmost:
  "topmost (\<lambda>f. handler_at classes_H (ex_objects (executor_H [guarded_frame, synchronized_frame])) 1 f \<noteq> None) 0
     (ex_frames (executor_H [guarded_frame, synchronized_frame])) (Some 0)"
  "topmost (\<lambda>f. handler_at classes_H (ex_objects (executor_H [guarded_frame, initializer_frame])) 1 f \<noteq> None) 0
     (ex_frames (executor_H [guarded_frame, initializer_frame])) (Some 0)"
  by (auto simp: topmost_def executor_H_def frames_H_handlers less_Suc_eq)

lemma H_valid:
  "\<forall>f\<in>set (drop 0 (ex_frames (executor_H [guarded_frame, synchronized_frame]))). frame_valid classes_H f"
  "\<forall>f\<in>set (drop 0 (ex_frames (executor_H [guarded_frame, initializer_frame]))). frame_valid classes_H f"
  by (auto simp: executor_H_def frame_valid_def frames_H_methods)

theorem exception_handling_ends_witness:
  "\<exists>res w. handle_exception (\<lambda>_ _. True) recorder classes_H 0 1 (executor_H [guarded_frame, synchronized_frame]) = Some (res, w)"
  by (rule exception_handling_ends [OF classes_H_hierarchy])

theorem exception_reaches_innermost_handler_witness:
  "\<exists>w. handle_exception (\<lambda>_ _. True) recorder classes_H 0 1 (executor_H [guarded_frame, synchronized_frame]) = Some (Inr (), w) \<and>
     ex_frames w = [guarded_frame\<lparr>stack := [VObjectRef 1], pc := 1\<rparr>]"
proof -
  have "(\<forall>f\<in>set (drop (above 0 (Some 0)) (ex_frames (executor_H [guarded_frame, synchronized_frame]))). \<not> is_clinit classes_H f)"
    by (simp add: above_def executor_H_def frames_H_clinit)
  with exception_reaches_innermost_handler [OF classes_H_hierarchy _ H_valid(1) H_topmost(1), of "\<lambda>_ _. True" recorder]
  show ?thesis by (auto simp: executor_H_def frames_H_handlers) (simp add: guarded_frame_def make_frame_def)
qed

theorem unwinding_keeps_callers_witness:
  "\<exists>w. handle_exception (\<lambda>_ _. True) recorder classes_H 0 1 (executor_H [guarded_frame, synchronized_frame]) = Some (Inr (), w) \<and>
     length (ex_frames w) = 1 \<and> ex_handler w = [KObject 7]"
proof -
  let ?v = "executor_H [guarded_frame, synchronized_frame]"
  have c: "(\<forall>f\<in>set (drop (0 + 1) (ex_frames ?v)). \<not> is_clinit classes_H f)"
    by (simp add: executor_H_def frames_H_clinit)
  then obtain w where w: "handle_exception (\<lambda>_ _. True) recorder classes_H 0 1 ?v = Some (Inr (), w)" "length (ex_frames w) = 1"
    using caught_law [OF classes_H_hierarchy _ H_valid(1) H_topmost(1), of "\<lambda>_ _. True" recorder]
    by (auto simp: executor_H_def guarded_frame_def make_frame_def)
  with unwinding_keeps_callers [OF w(1)] show ?thesis
    by (auto simp: executor_H_def release_def recorder_def synchronized_frame_def make_frame_def)
qed

lemma scan_small: "scan_free (objects small_object_heap) 0 = 0"
  by (subst scan_free.simps) (simp add: cs_get_def small_object_heap_def split_index_def chunk_size_def)
lemma alloc_small: "\<exists>h. ob_alloc (\<lambda>k n. n < 100) java_lang_ExceptionInInitializerError small_object_heap = (Inr (Some 0), h)"
  using scan_small
  by (simp add: ob_alloc_def default_field_count_for_native_def java_lang_ExceptionInInitializerError_def java_lang_Long_def java_lang_Double_def java_lang_Integer_def
        java_lang_Boolean_def java_lang_Float_def java_lang_Character_def java_lang_Byte_def java_lang_Short_def alloc_with_field_count_def intern_class_def alloc_span_def place_in_slot_def Let_def small_object_heap_def reserve_fallible_def cs_update_def split_index_def chunk_size_def)
lemma cause_new: "\<exists>st. register_exception_cause (\<lambda>k n. n < 100) 0 1 stores_new = (Inr (), st) \<and> exception_messages st = vec_new"
  by (simp add: register_exception_cause_def put_key_def register_def stores_new_def vec_room_def vec_new_def reserve_fallible_def vec_reserve_def)
lemma wrap_H: "\<exists>v1. alloc_wrapper (\<lambda>k n. n < 100) 1 (executor_H fs) = (Inr (Some 0), v1) \<and>
    exception_messages (ex_stores v1) = vec_new \<and> ex_strings v1 = st_new 2"
  using alloc_small cause_new by (auto simp: alloc_wrapper_def ex_alloc_def executor_H_def heap_setters)
lemma intern_new: "\<exists>t. intern_dyn_owned (\<lambda>k n. n < 100) b (st_new 2) = (Inr (Some 0), t)"
  by (simp add: intern_dyn_owned_def st_new_def cs_new_def cs_iter_def st_room_def vec_room_def vec_new_def reserve_fallible_def vec_reserve_def
     REF_TOP_def cs_try_push_def split_index_def chunk_size_def Let_def)
lemma describe_H: assumes "exception_messages (ex_stores v1) = vec_new" "ex_strings v1 = st_new 2"
  shows "\<exists>v2. describe_wrapper (\<lambda>k n. n < 100) ''A'' 1 0 v1 = (Inr (), v2)"
proof -
  have "get_exception_message (ex_stores v1) 1 = None" using assms(1) by (simp add: get_exception_message_def find_key_def vec_new_def)
  moreover obtain t where "intern_dyn_owned (\<lambda>k n. n < 100) \<lparr>items = [65], vcap = 33\<rparr> (st_new 2) = (Inr (Some 0), t)"
    using intern_new by blast
  ultimately show ?thesis using assms(2)
    by (auto simp: describe_wrapper_def wrapper_text_def extend_bytes_def vec_reserve_def bytes_of_def)
qed


end
