(* ===== verification/RunLoop.thy ===== *)
theory RunLoop
  imports Unwind CheckCode
begin

text \<open>
  The run loop, \<open>crates/jvm/src/interpreter/mod.rs\<close>: the preparation and initialization of
  classes, the monitor of a synchronized method, the return opcodes with the boxing of a
  result, the monitor opcodes of \<open>ops_monitor.rs\<close>, and one turn of \<open>run\<close> around the dispatch
  of an opcode: pending frames and initializers, the depth cap, the collection that a full heap or the
  pacing asks for, and the errors that become Java exceptions. The opcodes that resolve
  constant-pool entries are an argument of the turn, \<open>rest\<close>.
\<close>

section \<open>Exceptions that the loop throws\<close>

definition ex_fault :: "allocator \<Rightarrow> string \<Rightarrow> ('h, 'a) ex" where
  "ex_fault al cls =
     andThen (ex_alloc al cls) (\<lambda>r. case r of Some exc \<Rightarrow> throw (Err (Exception exc)) | None \<Rightarrow> throw (Err StackOverflow))"

definition runtime_fault_obj :: "allocator \<Rightarrow> string \<Rightarrow> ('h, u16) ex" where
  "runtime_fault_obj al cls = andThen (ex_alloc al cls) (ok_or (Err StackOverflow))"

text \<open>A fresh \<open>OutOfMemoryError\<close>, else the reserve that was set aside.\<close>

definition oom_object :: "allocator \<Rightarrow> ('h, u16) ex" where
  "oom_object al =
     andThen (ex_alloc al java_lang_OutOfMemoryError) (\<lambda>r v. ok_or (Err StackOverflow)
       (case r of Some e \<Rightarrow> Some e | None \<Rightarrow> the_oom_reserve (ex_stores v)) v)"

definition java_lang_StackOverflowError :: string where
  "java_lang_StackOverflowError = ''java/lang/StackOverflowError''"
definition java_lang_NoClassDefFoundError :: string where
  "java_lang_NoClassDefFoundError = ''java/lang/NoClassDefFoundError''"
definition java_lang_ArrayIndexOutOfBoundsException :: string where
  "java_lang_ArrayIndexOutOfBoundsException = ''java/lang/ArrayIndexOutOfBoundsException''"
definition java_lang_NegativeArraySizeException :: string where
  "java_lang_NegativeArraySizeException = ''java/lang/NegativeArraySizeException''"
definition java_lang_Class :: string where "java_lang_Class = ''java/lang/Class''"

definition stack_overflow_error :: "allocator \<Rightarrow> ('h, u16) ex" where
  "stack_overflow_error al = andThen (ex_alloc al java_lang_StackOverflowError) (ok_or (Err StackOverflow))"

section \<open>Class initialization\<close>

text \<open>The typed defaults of the static fields of a class, from the first slot of its table.\<close>

fun static_defaults :: "class_file \<Rightarrow> field_info list \<Rightarrow> nat \<Rightarrow> static_store \<Rightarrow> static_store" where
  "static_defaults cf [] idx s = s"
| "static_defaults cf (f # fs) idx s =
     static_defaults cf fs (idx + 1)
       (case cf_field_descriptor cf f of None \<Rightarrow> s | Some d \<Rightarrow> set_by_index idx (default_for_descriptor d) s)"

text \<open>The initializer's frame, for a class that has one with code.\<close>

definition clinit_frame :: "allocator \<Rightarrow> class_file \<Rightarrow> nat \<Rightarrow> jvm_error + frame option" where
  "clinit_frame al cf c =
     (case find_clinit_in cf of
        None \<Rightarrow> Inr None
      | Some mi \<Rightarrow>
          (let m = cf_methods cf ! mi
           in if code_offset m = 0 then Inr None
              else map_sum id Some (frame_new (al ValueBuf) c mi [] (method_max_locals (cf_view cf) m)
                     (method_max_stack (cf_view cf) m))))"

text \<open>
  One class of the chain: marked first, so that its initializer cannot start it again, then
  prepared. The list of frames is a vector, given with its capacity.
\<close>

definition init_class :: "allocator \<Rightarrow> classes \<Rightarrow> nat \<Rightarrow> frame vec \<Rightarrow> (static_store, fault, frame vec) action" where
  "init_class al cs c frs s =
     (if is_initialized s c then (Inr frs, s)
      else case mark_initialized al c s of
             (None, s1) \<Rightarrow> (Inl (Err StackOverflow), s1)
           | (Some _, s1) \<Rightarrow>
               (case nth_opt (files cs) c of
                  None \<Rightarrow> (Inl Panic, s1)
                | Some cf \<Rightarrow>
                    (case prepare al c (length (cf_static_fields cf)) s1 of
                       (None, s2) \<Rightarrow> (Inl (Err StackOverflow), s2)
                     | (Some base, s2) \<Rightarrow>
                         (let s3 = static_defaults cf (cf_static_fields cf) (unat base) s2
                          in case clinit_frame al cf c of
                               Inl e \<Rightarrow> (Inl (Err e), s3)
                             | Inr None \<Rightarrow> (Inr frs, s3)
                             | Inr (Some f) \<Rightarrow>
                                 (case vec_reserve (al TableBuf) (vcap frs) (length (items frs)) 1 of
                                    None \<Rightarrow> (Inl (Err StackOverflow), s3)
                                  | Some cap \<Rightarrow> (Inr \<lparr>items = items frs @ [f], vcap = cap\<rparr>, s3))))))"

fun init_chain :: "allocator \<Rightarrow> classes \<Rightarrow> nat list \<Rightarrow> frame vec \<Rightarrow> (static_store, fault, frame vec) action" where
  "init_chain al cs [] frs = ret frs"
| "init_chain al cs (c # chain) frs = andThen (init_class al cs c frs) (init_chain al cs chain)"

text \<open>
  \<open>true\<close> when initializers are queued: the caller rewinds its instruction and lets them run.
  The option is the walk up a class hierarchy that may not end.
\<close>

definition ensure_class_initialized_at ::
  "allocator \<Rightarrow> classes \<Rightarrow> nat \<Rightarrow> 'h executor \<Rightarrow> ((fault + bool) \<times> 'h executor) option" where
  "ensure_class_initialized_at al cs ci v =
     (if is_erroneous (ex_statics v) ci then Some (ex_fault al java_lang_NoClassDefFoundError v)
      else if is_initialized (ex_statics v) ci then Some (Inr False, v)
      else case superclass_chain_indices (al TableBuf) cs ci of
             None \<Rightarrow> None
           | Some (Inl e) \<Rightarrow> Some (Inl (Err e), v)
           | Some (Inr chain) \<Rightarrow>
               Some (if list_ex (is_erroneous (ex_statics v)) chain
                     then ex_fault al java_lang_NoClassDefFoundError (v\<lparr>ex_statics := mark_erroneous al ci (ex_statics v)\<rparr>)
                     else case init_chain al cs chain vec_new (ex_statics v) of
                            (Inl e, s) \<Rightarrow> (Inl e, v\<lparr>ex_statics := s\<rparr>)
                          | (Inr frs, s) \<Rightarrow>
                              if items frs = [] then (Inr False, v\<lparr>ex_statics := s\<rparr>)
                              else (Inr True, v\<lparr>ex_statics := s, ex_clinits := items frs\<rparr>)))"

text \<open>A class without a class file counts as initialized.\<close>

definition ensure_class_initialized ::
  "allocator \<Rightarrow> classes \<Rightarrow> u8 list \<Rightarrow> 'h executor \<Rightarrow> ((fault + bool) \<times> 'h executor) option" where
  "ensure_class_initialized al cs nm v =
     (case find_class cs nm of None \<Rightarrow> Some (Inr False, v) | Some ci \<Rightarrow> ensure_class_initialized_at al cs ci v)"

section \<open>Class objects\<close>

text \<open>What the link tables say of the instances of the loaded classes.\<close>

definition class_infos :: "classes \<Rightarrow> class_info list" where
  "class_infos cs = map (\<lambda>ci. let cf = files cs ! ci in
     \<lparr>ci_name = text_of (scanned_name cf), ci_own_slots = own_slots (cf_link cf),
      ci_fields = map (\<lambda>f. (fi_slot f, fi_kind f)) (cf_fields cf), ci_super = super_of cs ci,
      ci_super_name = map_option text_of (super_class_name cf)\<rparr>) [0..<length (files cs)]"

definition alloc_named :: "allocator \<Rightarrow> classes \<Rightarrow> string \<Rightarrow> (object_heap, fault, u16 option) action" where
  "alloc_named al cs cls =
     (case find_class cs (bytes_of cls) of
        Some ci \<Rightarrow> alloc_instance al (class_infos cs) ci
      | None \<Rightarrow> alloc_with_field_count al cls (if cls = java_lang_Enum then ENUM_IMPLICIT_FIELDS else 0))"

definition ex_on_objects :: "(object_heap, fault, 'a) action \<Rightarrow> ('h, 'a) ex" where
  "ex_on_objects m v = (case m (ex_objects v) of (r, h) \<Rightarrow> (r, set_objects h v))"

definition ex_on_strings :: "(string_table, fault, 'a) action \<Rightarrow> ('h, 'a) ex" where
  "ex_on_strings m v = (case m (ex_strings v) of (r, t) \<Rightarrow> (r, set_strings t v))"

definition insert_class_object :: "allocator \<Rightarrow> u16 \<Rightarrow> u16 \<Rightarrow> ('h, jvm_value) ex" where
  "insert_class_object al name_idx obj v =
     (case class_insert al name_idx obj (ex_class_objects v) of
        (None, c) \<Rightarrow> (Inl (Err StackOverflow), v\<lparr>ex_class_objects := c\<rparr>)
      | (Some _, c) \<Rightarrow> (Inr (VObjectRef obj), v\<lparr>ex_class_objects := c\<rparr>))"

definition class_object_for_name :: "allocator \<Rightarrow> classes \<Rightarrow> u8 list \<Rightarrow> ('h, jvm_value) ex" where
  "class_object_for_name al cs nm =
     andThen (andThen (ex_on_strings (intern al nm)) (ok_or (Err StackOverflow))) (\<lambda>name_idx v.
       case class_lookup (ex_class_objects v) name_idx of
         Some obj \<Rightarrow> (Inr (VObjectRef obj), v)
       | None \<Rightarrow>
           andThen (andThen (ex_on_objects (alloc_named al cs java_lang_Class)) (ok_or (Err StackOverflow))) (\<lambda>obj.
           andThen (andThen (ex_on_objects (set_field al obj 0 (VReference name_idx))) (ok_or (Err InvalidReference)))
             (\<lambda>_. insert_class_object al name_idx obj)) v)"

section \<open>Monitors\<close>

definition value_to_monitor_key :: "jvm_value \<Rightarrow> jvm_error + monitor_key" where
  "value_to_monitor_key v =
     (case v of
        VObjectRef i \<Rightarrow> Inr (KObject i)
      | VArrayRef i \<Rightarrow> Inr (KArray i)
      | VReference i \<Rightarrow> Inr (KString i)
      | VNull \<Rightarrow> Inl InvalidReference
      | _ \<Rightarrow> Inl InvalidBytecode)"

definition ex_enter :: "'h handler_ops \<Rightarrow> monitor_key \<Rightarrow> ('h, unit) ex" where
  "ex_enter mo k v =
     (case mo_enter mo k (ex_handler v) of
        (Inl e, h) \<Rightarrow> (Inl (Err e), v\<lparr>ex_handler := h\<rparr>) | (Inr _, h) \<Rightarrow> (Inr (), v\<lparr>ex_handler := h\<rparr>))"

definition ACC_STATIC :: u16 where "ACC_STATIC = 0x0008"
definition ACC_SYNCHRONIZED :: u16 where "ACC_SYNCHRONIZED = 0x0020"

text \<open>The monitor that an activation of the method holds.\<close>

definition synchronized_key :: "allocator \<Rightarrow> classes \<Rightarrow> class_file \<Rightarrow> method_info \<Rightarrow> frame \<Rightarrow> ('h, monitor_key) ex" where
  "synchronized_key al cs cf m f =
     (if method_flags m AND ACC_STATIC \<noteq> 0
      then andThen (ok_or (Err InvalidBytecode) (cf_class_name cf)) (\<lambda>nm.
             andThen (class_object_for_name al cs nm) (\<lambda>c. case c of
               VObjectRef o' \<Rightarrow> ret (KObject o') | _ \<Rightarrow> throw (Err InvalidBytecode)))
      else (case locals f of
              [] \<Rightarrow> throw (Err InvalidBytecode)
            | this # _ \<Rightarrow> (case value_to_monitor_key this of Inl e \<Rightarrow> throw (Err e) | Inr k \<Rightarrow> ret k)))"

definition enter_synchronized :: "allocator \<Rightarrow> 'h handler_ops \<Rightarrow> classes \<Rightarrow> frame \<Rightarrow> ('h, frame) ex" where
  "enter_synchronized al mo cs f =
     (case frame_method cs f of
        Inl e \<Rightarrow> throw e
      | Inr (cf, m) \<Rightarrow>
          if method_flags m AND ACC_SYNCHRONIZED = 0 then ret f
          else andThen (synchronized_key al cs cf m f) (\<lambda>k.
                 andThen (ex_enter mo k) (\<lambda>_. ret (f\<lparr>monitor := Some k\<rparr>))))"

text \<open>The running frame is the last of the vector.\<close>

definition on_top :: "(frame, fault, 'a) action \<Rightarrow> ('h, 'a) ex" where
  "on_top m v =
     (if ex_frames v = [] then (Inl Panic, v)
      else case m (last (ex_frames v)) of (r, f) \<Rightarrow> (r, v\<lparr>ex_frames := butlast (ex_frames v) @ [f]\<rparr>))"

definition monitor_operand :: "allocator \<Rightarrow> ('h, monitor_key) ex" where
  "monitor_operand al =
     andThen (on_top pop) (\<lambda>x.
       if x = VNull then ex_fault al java_lang_NullPointerException
       else case value_to_monitor_key x of Inl e \<Rightarrow> throw (Err e) | Inr k \<Rightarrow> ret k)"

definition op_monitorenter :: "allocator \<Rightarrow> 'h handler_ops \<Rightarrow> ('h, unit) ex" where
  "op_monitorenter al mo = andThen (monitor_operand al) (ex_enter mo)"

definition op_monitorexit :: "allocator \<Rightarrow> 'h handler_ops \<Rightarrow> ('h, unit) ex" where
  "op_monitorexit al mo = andThen (monitor_operand al) (ex_exit mo)"

section \<open>Collection\<close>

definition sat_add16 :: "u16 \<Rightarrow> u16 \<Rightarrow> u16" where
  "sat_add16 a b = (case checked_add a b of None \<Rightarrow> -1 | Some c \<Rightarrow> c)"

text \<open>The allocations the heaps counted since the last fold go to the pacing counter.\<close>

definition fold_native_alloc_events :: "'h executor \<Rightarrow> 'h executor" where
  "fold_native_alloc_events v =
     (let H = ex_heaps v; (a, ob) = ob_take_alloc_events (h_objects H); (b, ah) = ah_take_alloc_events (h_arrays H);
          (c, st) = st_take_alloc_events (h_strings H); n = sat_add16 (sat_add16 a b) c;
          w = v\<lparr>ex_heaps := H\<lparr>h_objects := ob, h_arrays := ah, h_strings := st\<rparr>\<rparr>
      in if 0 < n then w\<lparr>ex_gc := (ex_gc w)\<lparr>gc_alloc_count := sat_add16 (gc_alloc_count (ex_gc w)) n\<rparr>\<rparr> else w)"

text \<open>
  A collection from the loop; the handler prunes what it keys by freed slots. \<open>stacks\<close> reads
  the frame stacks that other executors of the heap have parked.
\<close>

definition ex_collect ::
  "allocator \<Rightarrow> 'h handler_ops \<Rightarrow> (nat \<Rightarrow> frame list) \<Rightarrow> 'h executor \<Rightarrow> ((fault + nat) \<times> 'h executor) option" where
  "ex_collect al mo stacks v =
     (case collect_garbage al stacks (ex_own v) (ex_frames v) (ex_statics v) (ex_class_objects v)
             (native_roots mo (ex_handler v)) (ex_heaps v, ex_gc v) of
        None \<Rightarrow> None
      | Some (Inl e, (H, gc)) \<Rightarrow> Some (Inl e, v\<lparr>ex_heaps := H, ex_gc := gc\<rparr>)
      | Some (Inr freed, (H, gc)) \<Rightarrow>
          Some (Inr freed, v\<lparr>ex_heaps := H, ex_gc := gc, ex_handler := native_prune mo (monitor_live H) (ex_handler v)\<rparr>))"

section \<open>Returning\<close>

datatype turn = Again | Returned "jvm_value option"

text \<open>\<open>handle_exception(..)?; continue\<close>, for an exception object that may itself fail to be made.\<close>

definition raise ::
  "allocator \<Rightarrow> 'h handler_ops \<Rightarrow> classes \<Rightarrow> nat \<Rightarrow> ('h, u16) ex \<Rightarrow> 'h executor \<Rightarrow> ((fault + turn) \<times> 'h executor) option" where
  "raise al mo cs lo m v =
     (case m v of
        (Inl e, v') \<Rightarrow> Some (Inl e, v')
      | (Inr obj, v') \<Rightarrow> map_option (\<lambda>(r, w). (map_sum id (\<lambda>_. Again) r, w)) (handle_exception al mo cs lo obj v'))"

text \<open>A box of the cached range is shared; \<open>None\<close> when a new one cannot be allocated.\<close>

definition box_primitive :: "allocator \<Rightarrow> u8 \<Rightarrow> jvm_value \<Rightarrow> ('h, jvm_value option) ex" where
  "box_primitive al kind x v =
     (case box_class kind of
        None \<Rightarrow> (Inr (Some x), v)
      | Some cls \<Rightarrow>
          (case cached_box (ex_stores v) cls x of
             Some i \<Rightarrow> (Inr (Some (VObjectRef i)), v)
           | None \<Rightarrow>
               (case ex_alloc al cls v of
                  (Inl e, v1) \<Rightarrow> (Inl e, v1)
                | (Inr None, v1) \<Rightarrow> (Inr None, v1)
                | (Inr (Some i), v1) \<Rightarrow>
                    (case ex_on_objects (set_field al i 0 x) v1 of
                       (Inl e, v2) \<Rightarrow> (Inl e, v2)
                     | (Inr _, v2) \<Rightarrow>
                         (Inr (Some (VObjectRef i)), set_stores (cache_box al cls x i (ex_stores v2)) v2)))))"

text \<open>One collection and one more try when the box is refused.\<close>

definition box_result ::
  "allocator \<Rightarrow> 'h handler_ops \<Rightarrow> (nat \<Rightarrow> frame list) \<Rightarrow> u8 \<Rightarrow> jvm_value \<Rightarrow> 'h executor \<Rightarrow>
     ((fault + jvm_value option) \<times> 'h executor) option" where
  "box_result al mo stacks kind x v =
     (case box_primitive al kind x v of
        (Inr None, v1) \<Rightarrow>
          (case ex_collect al mo stacks v1 of
             None \<Rightarrow> None
           | Some (Inl e, v2) \<Rightarrow> Some (Inl e, v2)
           | Some (Inr freed, v2) \<Rightarrow> Some (if freed = 0 then (Inr None, v2) else box_primitive al kind x v2))
      | r \<Rightarrow> Some r)"

definition finish_return :: "allocator \<Rightarrow> 'h handler_ops \<Rightarrow> nat \<Rightarrow> jvm_value option \<Rightarrow> ('h, turn) ex" where
  "finish_return al mo lo x =
     andThen (pop_frame al mo) (\<lambda>_ v.
       if length (ex_frames v) = lo then (Inr (Returned x), v)
       else case x of
              None \<Rightarrow> (Inr Again, v)
            | Some y \<Rightarrow> andThen (on_top (push (al ValueBuf) y)) (\<lambda>_. ret Again) v)"

definition return_value ::
  "allocator \<Rightarrow> 'h handler_ops \<Rightarrow> (nat \<Rightarrow> frame list) \<Rightarrow> classes \<Rightarrow> nat \<Rightarrow> 'h executor \<Rightarrow>
     ((fault + turn) \<times> 'h executor) option" where
  "return_value al mo stacks cs lo v =
     (case on_top pop v of
        (Inl e, v1) \<Rightarrow> Some (Inl e, v1)
      | (Inr x, v1) \<Rightarrow>
          (let kind = box_return (last (ex_frames v1))
           in if kind = 0 then Some (finish_return al mo lo (Some x) v1)
              else case box_result al mo stacks kind x v1 of
                     None \<Rightarrow> None
                   | Some (Inl e, v2) \<Rightarrow> Some (Inl e, v2)
                   | Some (Inr (Some y), v2) \<Rightarrow> Some (finish_return al mo lo (Some y) v2)
                   | Some (Inr None, v2) \<Rightarrow> raise al mo cs lo (oom_object al) v2))"

section \<open>Dispatch\<close>

definition on_machine :: "unit op \<Rightarrow> ('h, unit) ex" where
  "on_machine m v =
     (if ex_frames v = [] then (Inl Panic, v)
      else let H = ex_heaps v
           in case m \<lparr>vm_frame = last (ex_frames v), vm_objects = h_objects H, vm_arrays = h_arrays H, vm_strings = h_strings H\<rparr> of
                (r, s) \<Rightarrow> (r, v\<lparr>ex_frames := butlast (ex_frames v) @ [vm_frame s],
                  ex_heaps := H\<lparr>h_objects := vm_objects s, h_arrays := vm_arrays s, h_strings := vm_strings s\<rparr>\<rparr>))"

text \<open>The opcodes that resolve a constant-pool entry or touch an array.\<close>

definition resolving_opcode :: "u8 \<Rightarrow> bool" where
  "resolving_opcode c \<longleftrightarrow> 0x12 \<le> c \<and> c \<le> 0x14 \<or> 0x2e \<le> c \<and> c \<le> 0x35 \<or> 0x4f \<le> c \<and> c \<le> 0x56 \<or>
     0xb2 \<le> c \<and> c \<le> 0xbe \<or> c = 0xc0 \<or> c = 0xc1 \<or> c = 0xc5"

definition is_invoke :: "u8 \<Rightarrow> bool" where "is_invoke c \<longleftrightarrow> 0xb6 \<le> c \<and> c \<le> 0xba"

type_synonym 'h opcodes = "u8 \<Rightarrow> u8 list \<Rightarrow> 'h executor \<Rightarrow> ((fault + unit) \<times> 'h executor) option"

definition run_opcode :: "allocator \<Rightarrow> libm \<Rightarrow> 'h handler_ops \<Rightarrow> 'h opcodes \<Rightarrow> 'h opcodes" where
  "run_opcode al lm mo rest c code v =
     (case dispatch al lm c code of
        Some m \<Rightarrow> Some (on_machine m v)
      | None \<Rightarrow>
          if c = 0xc2 then Some (op_monitorenter al mo v)
          else if c = 0xc3 then Some (op_monitorexit al mo v)
          else if resolving_opcode c
          then map_option (\<lambda>(r, w). (r, if is_invoke c then fold_native_alloc_events w else w)) (rest c code v)
          else Some (Inl (Err (UnsupportedOpcode c)), v))"

section \<open>After an opcode\<close>

definition MAX_FRAME_DEPTH :: nat where "MAX_FRAME_DEPTH = 256"

text \<open>\<open>frames.try_reserve(n)\<close>, which ends the run when refused, and the push.\<close>

definition push_frames :: "allocator \<Rightarrow> frame list \<Rightarrow> ('h, turn) ex" where
  "push_frames al fs v =
     (case vec_reserve (al TableBuf) (ex_frames_cap v) (length (ex_frames v)) (length fs) of
        None \<Rightarrow> (Inl (Err StackOverflow), v)
      | Some cap \<Rightarrow> (Inr Again, v\<lparr>ex_frames := ex_frames v @ fs, ex_frames_cap := cap\<rparr>))"

text \<open>What the opcode's error becomes: a Java exception, or the end of the run.\<close>

definition opcode_result ::
  "allocator \<Rightarrow> 'h handler_ops \<Rightarrow> classes \<Rightarrow> nat \<Rightarrow> fault + unit \<Rightarrow> 'h executor \<Rightarrow> ((fault + turn) \<times> 'h executor) option" where
  "opcode_result al mo cs lo r v =
     (case r of
        Inr _ \<Rightarrow> Some (Inr Again, v)
      | Inl (Err (Exception obj)) \<Rightarrow> raise al mo cs lo (ret obj) v
      | Inl (Err ArrayIndexOutOfBounds) \<Rightarrow> raise al mo cs lo (runtime_fault_obj al java_lang_ArrayIndexOutOfBoundsException) v
      | Inl (Err NegativeArraySize) \<Rightarrow> raise al mo cs lo (runtime_fault_obj al java_lang_NegativeArraySizeException) v
      | Inl (Err StackOverflow) \<Rightarrow> raise al mo cs lo (oom_object al) v
      | Inl e \<Rightarrow> Some (Inl e, v))"

text \<open>
  A collection after an opcode that succeeded; one that a failed allocation asked for and that
  frees nothing is the \<open>OutOfMemoryError\<close>, as the rewound opcode would fail for ever.
\<close>

definition pace ::
  "allocator \<Rightarrow> 'h handler_ops \<Rightarrow> (nat \<Rightarrow> frame list) \<Rightarrow> u16 \<Rightarrow> classes \<Rightarrow> nat \<Rightarrow> 'h executor \<Rightarrow>
     ((fault + turn) \<times> 'h executor) option" where
  "pace al mo stacks threshold cs lo v =
     (if threshold \<le> gc_alloc_count (ex_gc v) \<or> need_gc (ex_gc v)
      then case ex_collect al mo stacks (v\<lparr>ex_gc := (ex_gc v)\<lparr>need_gc := False\<rparr>\<rparr>) of
             None \<Rightarrow> None
           | Some (Inl e, v1) \<Rightarrow> Some (Inl e, v1)
           | Some (Inr freed, v1) \<Rightarrow>
               if need_gc (ex_gc v) \<and> freed = 0 then raise al mo cs lo (oom_object al) v1 else Some (Inr Again, v1)
      else Some (Inr Again, v))"

definition push_initializers ::
  "allocator \<Rightarrow> 'h handler_ops \<Rightarrow> classes \<Rightarrow> nat \<Rightarrow> 'h executor \<Rightarrow> ((fault + turn) \<times> 'h executor) option" where
  "push_initializers al mo cs lo v =
     (let fs = ex_clinits v; w = v\<lparr>ex_clinits := []\<rparr>
      in if MAX_FRAME_DEPTH < length (ex_frames v) + length fs
         then raise al mo cs lo (stack_overflow_error al)
                (w\<lparr>ex_statics := fold (\<lambda>f. mark_erroneous al (class_idx f)) fs (ex_statics w)\<rparr>)
         else case push_frames al fs v of
                (Inl e, v') \<Rightarrow> Some (Inl e, v') | (Inr t, v') \<Rightarrow> Some (Inr t, v'\<lparr>ex_clinits := []\<rparr>))"

definition after_opcode ::
  "allocator \<Rightarrow> 'h handler_ops \<Rightarrow> (nat \<Rightarrow> frame list) \<Rightarrow> u16 \<Rightarrow> classes \<Rightarrow> nat \<Rightarrow> fault + unit \<Rightarrow> 'h executor \<Rightarrow>
     ((fault + turn) \<times> 'h executor) option" where
  "after_opcode al mo stacks threshold cs lo r v =
     (case r of
        Inl _ \<Rightarrow> opcode_result al mo cs lo r v
      | Inr _ \<Rightarrow> if ex_clinits v \<noteq> [] then push_initializers al mo cs lo v
                 else pace al mo stacks threshold cs lo v)"

text \<open>The frame of a call that the opcode resolved; an error of the opcode drops it.\<close>

definition push_pending ::
  "allocator \<Rightarrow> 'h handler_ops \<Rightarrow> (nat \<Rightarrow> frame list) \<Rightarrow> u16 \<Rightarrow> classes \<Rightarrow> nat \<Rightarrow> fault + unit \<Rightarrow> 'h executor \<Rightarrow>
     ((fault + turn) \<times> 'h executor) option" where
  "push_pending al mo stacks threshold cs lo r v =
     (case ex_pending v of
        None \<Rightarrow> after_opcode al mo stacks threshold cs lo r v
      | Some f \<Rightarrow>
          (let w = v\<lparr>ex_pending := None\<rparr>
           in case r of
                Inl _ \<Rightarrow> after_opcode al mo stacks threshold cs lo r w
              | Inr _ \<Rightarrow>
                  if MAX_FRAME_DEPTH \<le> length (ex_frames w) then raise al mo cs lo (stack_overflow_error al) w
                  else case enter_synchronized al mo cs f w of
                         (Inl e, w1) \<Rightarrow> after_opcode al mo stacks threshold cs lo (Inl e) w1
                       | (Inr g, w1) \<Rightarrow> Some (push_frames al [g] w1)))"

section \<open>The loop\<close>

text \<open>The stop request and the pacing are looked at every 256 instructions.\<close>

definition checkpoint :: "'h handler_ops \<Rightarrow> ('h, unit) ex" where
  "checkpoint mo v =
     (let w = v\<lparr>ex_insns := ex_insns v + 1\<rparr>
      in if ex_insns w = 0
         then if stop_asked mo (ex_handler w) then (Inl (Err Interrupted), w) else (Inr (), fold_native_alloc_events w)
         else (Inr (), w))"

definition fetch_and_run ::
  "allocator \<Rightarrow> libm \<Rightarrow> 'h handler_ops \<Rightarrow> (nat \<Rightarrow> frame list) \<Rightarrow> u16 \<Rightarrow> classes \<Rightarrow> 'h opcodes \<Rightarrow> nat \<Rightarrow>
     u8 list \<Rightarrow> 'h executor \<Rightarrow> ((fault + turn) \<times> 'h executor) option" where
  "fetch_and_run al lm mo stacks threshold cs rest lo code v =
     (let f = last (ex_frames v); c = code ! pc f;
          w = v\<lparr>ex_frames := butlast (ex_frames v) @ [start_insn f]\<rparr>
      in if 0xac \<le> c \<and> c \<le> 0xb0 then return_value al mo stacks cs lo w
         else if c = 0xb1 then Some (finish_return al mo lo None w)
         else case run_opcode al lm mo rest c code w of
                None \<Rightarrow> None
              | Some (r, w1) \<Rightarrow> push_pending al mo stacks threshold cs lo r w1)"

definition run_turn ::
  "allocator \<Rightarrow> libm \<Rightarrow> 'h handler_ops \<Rightarrow> (nat \<Rightarrow> frame list) \<Rightarrow> u16 \<Rightarrow> classes \<Rightarrow> 'h opcodes \<Rightarrow> nat \<Rightarrow>
     'h executor \<Rightarrow> ((fault + turn) \<times> 'h executor) option" where
  "run_turn al lm mo stacks threshold cs rest lo v0 =
     (case checkpoint mo v0 of
        (Inl e, v) \<Rightarrow> Some (Inl e, v)
      | (Inr _, v) \<Rightarrow>
          if length (ex_frames v) \<le> lo then Some (Inr (Returned None), v)
          else case frame_method cs (last (ex_frames v)) of
                 Inl e \<Rightarrow> Some (Inl e, v)
               | Inr (cf, m) \<Rightarrow>
                   let code = method_code (cf_view cf) m
                   in if length code \<le> pc (last (ex_frames v)) then Some (finish_return al mo lo None v)
                      else fetch_and_run al lm mo stacks threshold cs rest lo code v)"

partial_function (option) run ::
  "allocator \<Rightarrow> libm \<Rightarrow> 'h handler_ops \<Rightarrow> (nat \<Rightarrow> frame list) \<Rightarrow> u16 \<Rightarrow> classes \<Rightarrow> 'h opcodes \<Rightarrow> nat \<Rightarrow>
     'h executor \<Rightarrow> ((fault + jvm_value option) \<times> 'h executor) option" where
  "run al lm mo stacks threshold cs rest lo v =
     (case run_turn al lm mo stacks threshold cs rest lo v of
        None \<Rightarrow> None
      | Some (r, w) \<Rightarrow>
          (case r of
             Inl e \<Rightarrow> Some (Inl e, w)
           | Inr t \<Rightarrow> (case t of Returned x \<Rightarrow> Some (Inr x, w)
                       | Again \<Rightarrow> run al lm mo stacks threshold cs rest lo w)))"

end
