(* ===== verification/RunLoopLaws.thy ===== *)
theory RunLoopLaws
  imports RunLoop UnwindLaws
begin

text \<open>
  What the run loop promises: a run leaves the frames below its floor as they were, gives control
  back with exactly those frames, and never holds more than the depth cap; classes are initialized
  once, superclasses first.
\<close>

section \<open>Frames left alone\<close>

definition same_frames :: "('h, 'a) ex \<Rightarrow> bool" where
  "same_frames m \<longleftrightarrow> (\<forall>v. ex_frames (snd (m v)) = ex_frames v)"

named_theorems same "actions that leave the frames alone"

lemma same_ret [same]: "same_frames (ret x)" and same_throw [same]: "same_frames (throw e)"
  and same_ok_or [same]: "same_frames (ok_or e q)"
  by (auto simp: same_frames_def ret_def throw_def ok_or_def split: option.split)

lemma same_andThen [same]: "same_frames m \<Longrightarrow> (\<And>x. same_frames (k x)) \<Longrightarrow> same_frames (andThen m k)"
  unfolding same_frames_def andThen_def by (auto split: prod.split sum.split) (metis snd_conv)+

lemma same_alloc [same]: "same_frames (ex_alloc al cls)"
  by (auto simp: same_frames_def ex_alloc_def heap_setters split: prod.split)

lemma same_on_objects [same]: "same_frames (ex_on_objects m)" and same_on_strings [same]: "same_frames (ex_on_strings n)"
  by (auto simp: same_frames_def ex_on_objects_def ex_on_strings_def heap_setters split: prod.split)

lemma same_enter [same]: "same_frames (ex_enter mo k)" and same_exit [same]: "same_frames (ex_exit mo k)"
  by (auto simp: same_frames_def ex_enter_def ex_exit_def split: prod.split sum.split)

lemma same_insert [same]: "same_frames (insert_class_object al n i)"
  by (auto simp: same_frames_def insert_class_object_def split: prod.split option.split)

lemma same_option [same]: "(\<And>x. same_frames (f x)) \<Longrightarrow> same_frames g \<Longrightarrow> same_frames (case q of None \<Rightarrow> g | Some x \<Rightarrow> f x)"
  by (cases q) auto

lemma same_sum [same]: "(\<And>x. same_frames (f x)) \<Longrightarrow> (\<And>x. same_frames (g x)) \<Longrightarrow> same_frames (case q of Inl x \<Rightarrow> f x | Inr x \<Rightarrow> g x)"
  by (cases q) auto

lemma same_run: "same_frames m \<Longrightarrow> m v = (r, w) \<Longrightarrow> ex_frames w = ex_frames v"
  unfolding same_frames_def by (metis snd_conv)

lemma same_at: "same_frames m \<Longrightarrow> ex_frames (snd (m v)) = ex_frames v"
  unfolding same_frames_def by blast

lemma same_frames_I: "(\<And>v. ex_frames (snd (m v)) = ex_frames v) \<Longrightarrow> same_frames m"
  unfolding same_frames_def by blast

lemma same_fault [same]: "same_frames (ex_fault al cls)"
  unfolding ex_fault_def by (intro same)

lemma same_exceptions [same]: "same_frames (runtime_fault_obj al cls)" "same_frames (stack_overflow_error al)"
  unfolding runtime_fault_obj_def stack_overflow_error_def by (intro same)+

lemma same_oom [same]: "same_frames (oom_object al)"
  unfolding oom_object_def
proof (intro same_andThen same_alloc same_frames_I)
  show "ex_frames (snd (ok_or (Err StackOverflow) (case r of Some e \<Rightarrow> Some e | None \<Rightarrow> the_oom_reserve (ex_stores v)) v)) =
      ex_frames v" for r :: "u16 option" and v :: "'h executor"
    by (rule same_at [OF same_ok_or])
qed

lemma same_class_object [same]: "same_frames (class_object_for_name al cs nm)"
  unfolding class_object_for_name_def
proof (intro same_andThen same_on_strings same_ok_or same_frames_I)
  fix name_idx and v :: "'h executor"
  have "same_frames (andThen (andThen (ex_on_objects (alloc_named al cs java_lang_Class)) (ok_or (Err StackOverflow))) (\<lambda>obj.
           andThen (andThen (ex_on_objects (set_field al obj 0 (VReference name_idx))) (ok_or (Err InvalidReference)))
             (\<lambda>_. insert_class_object al name_idx obj)) :: ('h, jvm_value) ex)"
    by (intro same)
  then show "ex_frames (snd (case class_lookup (ex_class_objects v) name_idx of
         Some obj \<Rightarrow> (Inr (VObjectRef obj), v)
       | None \<Rightarrow>
           andThen (andThen (ex_on_objects (alloc_named al cs java_lang_Class)) (ok_or (Err StackOverflow))) (\<lambda>obj.
           andThen (andThen (ex_on_objects (set_field al obj 0 (VReference name_idx))) (ok_or (Err InvalidReference)))
             (\<lambda>_. insert_class_object al name_idx obj)) v)) = ex_frames v"
    by (cases "class_lookup (ex_class_objects v) name_idx") (simp_all add: same_at)
qed

lemma same_synchronized [same]: "same_frames (synchronized_key al cs cf m f)"
proof -
  have "same_frames (case c of VObjectRef o' \<Rightarrow> ret (KObject o') | _ \<Rightarrow> throw (Err InvalidBytecode))" for c
    by (cases c) (simp_all add: same_ret same_throw)
  moreover have "same_frames (case locals f of [] \<Rightarrow> throw (Err InvalidBytecode)
            | this # _ \<Rightarrow> (case value_to_monitor_key this of Inl e \<Rightarrow> throw (Err e) | Inr k \<Rightarrow> ret k))"
    by (cases "locals f") (auto intro: same)
  ultimately show ?thesis unfolding synchronized_key_def by (auto intro!: same)
qed

lemma same_enter_synchronized [same]: "same_frames (enter_synchronized al mo cs f)"
  unfolding enter_synchronized_def by (auto intro!: same split: sum.split prod.split)

lemma same_box [same]: "same_frames (box_primitive al kind x)"
proof (rule same_frames_I)
  fix v :: "'h executor"
  show "ex_frames (snd (box_primitive al kind x v)) = ex_frames v"
    by (auto simp: box_primitive_def set_stores_def dest!: same_run [OF same_alloc] same_run [OF same_on_objects]
        split: option.split prod.split sum.split)
qed

lemma collect_frames: "ex_collect al mo stacks v = Some (r, w) \<Longrightarrow> ex_frames w = ex_frames v"
  by (auto simp: ex_collect_def split: option.splits sum.splits prod.splits)

lemma fold_frames [simp]: "ex_frames (fold_native_alloc_events v) = ex_frames v"
  by (simp add: fold_native_alloc_events_def Let_def split: prod.split)

lemma box_result_frames: "box_result al mo stacks kind x v = Some (r, w) \<Longrightarrow> ex_frames w = ex_frames v"
  by (auto simp: box_result_def dest!: same_run [OF same_box] collect_frames
      split: prod.splits sum.splits option.splits if_splits)

section \<open>Frames above the floor\<close>

text \<open>At most the top frame is another one.\<close>

definition top_only :: "frame list \<Rightarrow> frame list \<Rightarrow> bool" where
  "top_only fs gs \<longleftrightarrow> length gs = length fs \<and> butlast gs = butlast fs"

lemma top_only_refl [simp]: "top_only fs fs" by (simp add: top_only_def)

lemma top_only_trans: "top_only fs gs \<Longrightarrow> top_only gs hs \<Longrightarrow> top_only fs hs" by (simp add: top_only_def)

lemma top_only_snoc: "fs \<noteq> [] \<Longrightarrow> top_only fs (butlast fs @ [f])"
  by (simp add: top_only_def)

definition within :: "nat \<Rightarrow> frame list \<Rightarrow> frame list \<Rightarrow> bool" where
  "within lo fs gs \<longleftrightarrow> lo \<le> length gs \<and> take lo gs = take lo fs \<and> length gs \<le> MAX_FRAME_DEPTH"

lemma within_top_only: "lo < length fs \<Longrightarrow> length fs \<le> MAX_FRAME_DEPTH \<Longrightarrow> top_only fs gs \<Longrightarrow> within lo fs gs"
  unfolding within_def top_only_def by (metis less_imp_le_nat take_butlast)

lemma within_trans: "within lo fs gs \<Longrightarrow> within lo gs hs \<Longrightarrow> within lo fs hs"
  by (simp add: within_def)

definition steady :: "nat \<Rightarrow> 'h executor \<Rightarrow> ((fault + turn) \<times> 'h executor) option \<Rightarrow> bool" where
  "steady lo v res \<longleftrightarrow> (\<forall>r w. res = Some (r, w) \<longrightarrow> within lo (ex_frames v) (ex_frames w) \<and>
     (\<forall>x. r = Inr (Returned x) \<longrightarrow> length (ex_frames w) = lo))"

lemma steady_None [simp]: "steady lo v None" by (simp add: steady_def)

lemma steady_keep: "within lo (ex_frames v) (ex_frames w) \<Longrightarrow> \<forall>x. r \<noteq> Inr (Returned x) \<Longrightarrow> steady lo v (Some (r, w))"
  by (simp add: steady_def)

lemma steady_from: "within lo (ex_frames v) (ex_frames u) \<Longrightarrow> steady lo u res \<Longrightarrow> steady lo v res"
  unfolding steady_def using within_trans by blast

lemma handle_within:
  assumes "handle_exception al mo cs lo obj v = Some (r, w)" "lo \<le> length (ex_frames v)" "length (ex_frames v) \<le> MAX_FRAME_DEPTH"
  shows "within lo (ex_frames v) (ex_frames w)"
proof -
  obtain n where n: "lo \<le> n" "n \<le> length (ex_frames v)"
      "ex_frames w = take n (ex_frames v) \<or>
        (\<exists>i g. n = Suc i \<and> lo \<le> i \<and> resumed (ex_frames v ! i) g \<and> ex_frames w = take i (ex_frames v) @ [g])"
    using handle_unwinds [OF assms(1,2)] unfolding unwound_def Let_def by blast
  then show ?thesis using assms(3) by (auto simp: within_def min_absorb1)
qed

lemma steady_raise:
  assumes "same_frames m" "lo \<le> length (ex_frames v)" "length (ex_frames v) \<le> MAX_FRAME_DEPTH"
  shows "steady lo v (raise al mo cs lo m v)"
proof -
  obtain r u where u: "m v = (r, u)" by fastforce
  have f: "ex_frames u = ex_frames v" using same_run [OF assms(1) u] .
  show ?thesis
  proof (cases r)
    case (Inl e)
    then show ?thesis using u f assms(2,3) by (simp add: raise_def steady_def within_def)
  next
    case (Inr obj)
    show ?thesis
    proof (cases "handle_exception al mo cs lo obj u")
      case None
      then show ?thesis using u Inr by (simp add: raise_def)
    next
      case (Some qw)
      obtain q w where q: "qw = (q, w)" by fastforce
      have "within lo (ex_frames v) (ex_frames w)"
        using handle_within [OF Some [unfolded q]] f assms(2,3) by simp
      then show ?thesis using u Inr Some q by (cases q) (auto simp: raise_def intro: steady_keep)
    qed
  qed
qed

section \<open>One turn\<close>

lemma steady_same:
  assumes "ex_frames w = ex_frames v" "lo \<le> length (ex_frames v)" "length (ex_frames v) \<le> MAX_FRAME_DEPTH" "\<forall>x. r \<noteq> Inr (Returned x)"
  shows "steady lo v (Some (r, w))"
  using assms by (intro steady_keep) (simp_all add: within_def)

lemma steady_opcode_result:
  assumes "lo \<le> length (ex_frames v)" "length (ex_frames v) \<le> MAX_FRAME_DEPTH"
  shows "steady lo v (opcode_result al mo cs lo r v)"
proof -
  have s: "steady lo v (Some (q, v))" if "\<forall>x. q \<noteq> Inr (Returned x)" for q
    using steady_same [OF refl assms that] .
  show ?thesis
  proof (cases r)
    case (Inr u)
    then show ?thesis using s by (simp add: opcode_result_def)
  next
    case (Inl e)
    then show ?thesis
      by (cases e; cases "case e of Err x \<Rightarrow> x")
        (simp_all add: opcode_result_def s steady_raise [OF _ assms] same)
  qed
qed

lemma steady_pace:
  assumes "lo \<le> length (ex_frames v)" "length (ex_frames v) \<le> MAX_FRAME_DEPTH"
  shows "steady lo v (pace al mo stacks threshold cs lo v)"
proof -
  let ?u = "v\<lparr>ex_gc := (ex_gc v)\<lparr>need_gc := False\<rparr>\<rparr>"
  show ?thesis
  proof (cases "threshold \<le> gc_alloc_count (ex_gc v) \<or> need_gc (ex_gc v)")
    case False
    then show ?thesis using assms by (simp add: pace_def steady_same)
  next
    case True
    show ?thesis
    proof (cases "ex_collect al mo stacks ?u")
      case None
      then show ?thesis using True by (simp add: pace_def)
    next
      case (Some rw)
      obtain r w where rw: "rw = (r, w)" by fastforce
      have f: "ex_frames w = ex_frames v" using collect_frames [OF Some [unfolded rw]] by simp
      have "steady lo v (raise al mo cs lo (oom_object al) w)"
        using steady_from [OF _ steady_raise [OF same_oom, of lo w]] f assms by (simp add: within_def)
      then show ?thesis using True Some rw f assms by (cases r) (simp_all add: pace_def steady_same)
    qed
  qed
qed

lemma steady_push:
  assumes "lo \<le> length (ex_frames v)" "length (ex_frames v) + length fs \<le> MAX_FRAME_DEPTH"
  shows "steady lo v (Some (push_frames al fs v))"
  using assms by (auto simp: push_frames_def steady_def within_def split: option.split)

lemma steady_initializers:
  assumes "lo \<le> length (ex_frames v)" "length (ex_frames v) \<le> MAX_FRAME_DEPTH"
  shows "steady lo v (push_initializers al mo cs lo v)"
proof (cases "MAX_FRAME_DEPTH < length (ex_frames v) + length (ex_clinits v)")
  case True
  then show ?thesis using assms
    by (simp add: push_initializers_def Let_def)
      (rule steady_from [OF _ steady_raise [OF same_exceptions(2)]]; simp add: within_def)
next
  case False
  then show ?thesis using assms
    by (auto simp: push_initializers_def push_frames_def Let_def steady_def within_def split: option.split)
qed

lemma steady_after:
  assumes "lo \<le> length (ex_frames v)" "length (ex_frames v) \<le> MAX_FRAME_DEPTH"
  shows "steady lo v (after_opcode al mo stacks threshold cs lo r v)"
  using assms by (cases r) (simp_all add: after_opcode_def steady_opcode_result steady_initializers steady_pace)

lemma steady_pending:
  assumes "lo \<le> length (ex_frames v)" "length (ex_frames v) \<le> MAX_FRAME_DEPTH"
  shows "steady lo v (push_pending al mo stacks threshold cs lo r v)"
proof (cases "ex_pending v")
  case None
  then show ?thesis using assms by (simp add: push_pending_def steady_after)
next
  case (Some f)
  define w where "w = v\<lparr>ex_pending := None\<rparr>"
  have w: "ex_frames w = ex_frames v" "within lo (ex_frames v) (ex_frames w)" using assms by (simp_all add: w_def within_def)
  show ?thesis
  proof (cases r)
    case (Inl e)
    then show ?thesis using Some steady_from [OF w(2) steady_after] w(1) assms
      by (simp add: push_pending_def Let_def flip: w_def)
  next
    case (Inr u)
    show ?thesis
    proof (cases "MAX_FRAME_DEPTH \<le> length (ex_frames w)")
      case True
      then show ?thesis using Some Inr steady_from [OF w(2) steady_raise [OF same_exceptions(2)]] w(1) assms
        by (simp add: push_pending_def Let_def flip: w_def)
    next
      case False
      obtain q x where x: "enter_synchronized al mo cs f w = (q, x)" by fastforce
      have f: "ex_frames x = ex_frames v" using same_run [OF same_enter_synchronized x] w(1) by simp
      have i: "within lo (ex_frames v) (ex_frames x)" using f assms by (simp add: within_def)
      have "steady lo v (after_opcode al mo stacks threshold cs lo y x)" for y
        using steady_from [OF i steady_after] f assms by simp
      moreover have "steady lo v (Some (push_frames al [g] x))" for g
        using steady_from [OF i steady_push] f assms False w(1) by simp
      ultimately show ?thesis using Some Inr False x
        by (cases q) (simp_all add: push_pending_def Let_def flip: w_def)
    qed
  qed
qed

lemma on_top_top: "ex_frames v \<noteq> [] \<Longrightarrow> on_top m v = (r, w) \<Longrightarrow> top_only (ex_frames v) (ex_frames w)"
  by (auto simp: on_top_def top_only_snoc split: prod.splits)

lemma steady_finish:
  assumes "lo < length (ex_frames v)" "length (ex_frames v) \<le> MAX_FRAME_DEPTH"
  shows "steady lo v (Some (finish_return al mo lo x v))"
proof -
  obtain p u where u: "pop_frame al mo v = (p, u)" by fastforce
  have f: "ex_frames u = butlast (ex_frames v)" using pop_frame_frames [of al mo v] u by simp
  have i: "within lo (ex_frames v) (ex_frames u)" using f assms by (auto simp: within_def take_butlast)
  have "steady lo u (Some (andThen (on_top (push (al ValueBuf) y)) (\<lambda>_. ret Again) u))"
    if l: "length (ex_frames u) \<noteq> lo" for y
  proof -
    obtain q w where w: "on_top (push (al ValueBuf) y) u = (q, w)" by fastforce
    have l: "lo < length (ex_frames u)" using f assms l by simp
    have "top_only (ex_frames u) (ex_frames w)" using l by (intro on_top_top [OF _ w]) auto
    then have "within lo (ex_frames u) (ex_frames w)" using l f assms by (intro within_top_only) auto
    then show ?thesis using w by (cases q) (simp_all add: andThen_def ret_def steady_keep)
  qed
  then have again: "steady lo v (Some (andThen (on_top (push (al ValueBuf) y)) (\<lambda>_. ret Again) u))"
    if "length (ex_frames u) \<noteq> lo" for y
    using that by (intro steady_from [OF i])
  have stop: "steady lo v (Some (q, u))" if "\<forall>x. q = Inr (Returned x) \<longrightarrow> length (ex_frames u) = lo" for q
    using i that by (simp add: steady_def)
  show ?thesis
  proof (cases p)
    case (Inl e)
    then show ?thesis using u stop by (simp add: finish_return_def andThen_def)
  next
    case (Inr w)
    then have "finish_return al mo lo x v = (if length (ex_frames u) = lo then (Inr (Returned x), u)
       else case x of None \<Rightarrow> (Inr Again, u) | Some y \<Rightarrow> andThen (on_top (push (al ValueBuf) y)) (\<lambda>_. ret Again) u)"
      using u by (simp add: finish_return_def andThen_def [of "pop_frame al mo"])
    then show ?thesis using again stop by (cases x) auto
  qed
qed

lemma steady_return_value:
  assumes "lo < length (ex_frames v)" "length (ex_frames v) \<le> MAX_FRAME_DEPTH"
  shows "steady lo v (return_value al mo stacks cs lo v)"
proof -
  obtain r u where u: "on_top pop v = (r, u)" by fastforce
  have t: "top_only (ex_frames v) (ex_frames u)" using assms by (intro on_top_top [OF _ u]) auto
  have i: "within lo (ex_frames v) (ex_frames u)" using within_top_only [OF assms t] .
  have l: "length (ex_frames u) = length (ex_frames v)" using t by (simp add: top_only_def)
  show ?thesis
  proof (cases r)
    case (Inl e)
    then show ?thesis using u i by (simp add: return_value_def steady_keep)
  next
    case (Inr x)
    let ?kind = "box_return (last (ex_frames u))"
    have fin: "steady lo v (Some (finish_return al mo lo y w))" if "ex_frames w = ex_frames u" for y w
      using steady_from [OF i [folded that] steady_finish] l assms that by simp
    show ?thesis
    proof (cases "?kind = 0 \<or> box_result al mo stacks ?kind x u = None")
      case True
      then show ?thesis using u Inr fin [OF refl] by (auto simp: return_value_def Let_def)
    next
      case False
      then obtain q w where q: "box_result al mo stacks ?kind x u = Some (q, w)" by fastforce
      have f: "ex_frames w = ex_frames u" using box_result_frames [OF q] .
      have "steady lo v (raise al mo cs lo (oom_object al) w)"
        using steady_from [OF i [folded f] steady_raise [OF same_oom]] l f assms by simp
      moreover have "steady lo v (Some (Inl e, w))" for e using i f by (simp add: steady_keep)
      ultimately show ?thesis using u Inr False q fin [OF f]
        by (auto simp: return_value_def Let_def split: sum.split option.split)
    qed
  qed
qed

definition opcodes_on_top :: "'h opcodes \<Rightarrow> bool" where
  "opcodes_on_top rest \<longleftrightarrow> (\<forall>c code v r w. rest c code v = Some (r, w) \<and> ex_frames v \<noteq> [] \<longrightarrow> top_only (ex_frames v) (ex_frames w))"

lemma on_machine_top: "ex_frames v \<noteq> [] \<Longrightarrow> on_machine m v = (r, w) \<Longrightarrow> top_only (ex_frames v) (ex_frames w)"
  by (auto simp: on_machine_def Let_def top_only_snoc split: prod.splits)

text \<open>Actions that change at most the top frame.\<close>

definition tops :: "('h, 'a) ex \<Rightarrow> bool" where
  "tops m \<longleftrightarrow> (\<forall>v. ex_frames v \<noteq> [] \<longrightarrow> top_only (ex_frames v) (ex_frames (snd (m v))))"

lemma tops_same: "same_frames m \<Longrightarrow> tops m"
  by (simp add: tops_def same_frames_def)

lemma tops_on_top: "tops (on_top m)"
  unfolding tops_def using on_top_top by (metis prod.collapse)

lemma tops_andThen: "tops m \<Longrightarrow> (\<And>x. tops (k x)) \<Longrightarrow> tops (andThen m k)"
  unfolding tops_def
proof (intro allI impI)
  fix v :: "'a executor"
  assume m: "\<forall>v. ex_frames v \<noteq> [] \<longrightarrow> top_only (ex_frames v) (ex_frames (snd (m v)))"
    and k: "\<And>x. \<forall>v. ex_frames v \<noteq> [] \<longrightarrow> top_only (ex_frames v) (ex_frames (snd (k x v)))" and v: "ex_frames v \<noteq> []"
  obtain r w where w: "m v = (r, w)" by fastforce
  have t: "top_only (ex_frames v) (ex_frames w)" using m v w by (metis snd_conv)
  then have "ex_frames w \<noteq> []" using v by (auto simp: top_only_def)
  then show "top_only (ex_frames v) (ex_frames (snd (andThen m k v)))"
    using t k top_only_trans w by (cases r) (auto simp: andThen_def)
qed

lemma monitor_operand_tops: "tops (monitor_operand al)"
proof -
  have "same_frames (if x = VNull then ex_fault al java_lang_NullPointerException
       else case value_to_monitor_key x of Inl e \<Rightarrow> throw (Err e) | Inr k \<Rightarrow> ret k)" for x
    by (auto intro!: same)
  then show ?thesis unfolding monitor_operand_def by (intro tops_andThen tops_on_top tops_same)
qed

lemma monitor_ops_tops: "tops (op_monitorenter al mo)" "tops (op_monitorexit al mo)"
  unfolding op_monitorenter_def op_monitorexit_def
  by (intro tops_andThen monitor_operand_tops tops_same same_enter same_exit)+

lemma run_opcode_top:
  assumes "opcodes_on_top rest" "ex_frames v \<noteq> []" "run_opcode al lm mo rest c code v = Some (r, w)"
  shows "top_only (ex_frames v) (ex_frames w)"
proof (cases "dispatch al lm c code")
  case (Some m)
  then show ?thesis using assms(2,3) on_machine_top by (simp add: run_opcode_def)
next
  case None
  consider "c = 0xc2" | "c = 0xc3" | "c \<noteq> 0xc2" "c \<noteq> 0xc3" by blast
  then show ?thesis
  proof cases
    case 3
    then show ?thesis using assms None unfolding opcodes_on_top_def
      by (auto simp: run_opcode_def split: if_splits)
  qed (use assms None monitor_ops_tops [of al mo] in \<open>auto simp: run_opcode_def tops_def dest!: spec [of _ v]\<close>)
qed

lemma steady_fetch:
  assumes "opcodes_on_top rest" "lo < length (ex_frames v)" "length (ex_frames v) \<le> MAX_FRAME_DEPTH"
  shows "steady lo v (fetch_and_run al lm mo stacks threshold cs rest lo code v)"
proof -
  define w where "w = v\<lparr>ex_frames := butlast (ex_frames v) @ [start_insn (last (ex_frames v))]\<rparr>"
  let ?c = "code ! pc (last (ex_frames v))"
  have ne: "ex_frames v \<noteq> []" using assms(2) by auto
  have t: "top_only (ex_frames v) (ex_frames w)" using top_only_snoc [OF ne] by (simp add: w_def)
  have l: "length (ex_frames w) = length (ex_frames v)" using t by (simp add: top_only_def)
  have i: "within lo (ex_frames v) (ex_frames w)" using within_top_only [OF assms(2,3) t] .
  have ops: "steady lo w (case run_opcode al lm mo rest ?c code w of
                None \<Rightarrow> None | Some (r, w1) \<Rightarrow> push_pending al mo stacks threshold cs lo r w1)"
  proof (cases "run_opcode al lm mo rest ?c code w")
    case (Some q)
    obtain r x where q: "q = (r, x)" by fastforce
    have "top_only (ex_frames w) (ex_frames x)" 
      by (rule run_opcode_top [OF assms(1) _ Some [unfolded q]]) (use ne l in auto)
    then have "within lo (ex_frames w) (ex_frames x)" using within_top_only l assms(2,3) by auto
    then show ?thesis using Some q steady_from [OF _ steady_pending, of lo w x] by (simp add: within_def)
  qed simp
  show ?thesis
    using steady_from [OF i ops] steady_from [OF i steady_return_value] steady_from [OF i steady_finish] l assms(2,3)
    by (simp add: fetch_and_run_def Let_def flip: w_def)
qed

lemma steady_turn:
  assumes "opcodes_on_top rest" "lo \<le> length (ex_frames v)" "length (ex_frames v) \<le> MAX_FRAME_DEPTH"
  shows "steady lo v (run_turn al lm mo stacks threshold cs rest lo v)"
proof -
  obtain r u where u: "checkpoint mo v = (r, u)" by fastforce
  have f: "ex_frames u = ex_frames v" using u by (auto simp: checkpoint_def Let_def split: if_splits)
  have i: "within lo (ex_frames v) (ex_frames u)" using f assms by (simp add: within_def)
  have n: "steady lo v (Some (Inl e, u))" for e using i by (simp add: steady_keep)
  show ?thesis
  proof (cases "r \<noteq> Inr () \<or> length (ex_frames u) \<le> lo")
    case True
    then show ?thesis using u n i f assms(2) by (cases r) (simp_all add: run_turn_def steady_def)
  next
    case False
    then have l: "lo < length (ex_frames u)" "length (ex_frames u) \<le> MAX_FRAME_DEPTH" using f assms by auto
    show ?thesis using False u n steady_from [OF i steady_finish [OF l]] steady_from [OF i steady_fetch [OF assms(1) l]]
      by (auto simp: run_turn_def Let_def split: sum.split)
  qed
qed

section \<open>A run\<close>

definition run_keeps :: "'h opcodes \<Rightarrow> nat \<Rightarrow> 'h executor \<Rightarrow> fault + jvm_value option \<Rightarrow> 'h executor \<Rightarrow> bool" where
  "run_keeps rest lo v r w \<longleftrightarrow>
     (opcodes_on_top rest \<and> lo \<le> length (ex_frames v) \<and> length (ex_frames v) \<le> MAX_FRAME_DEPTH \<longrightarrow>
      within lo (ex_frames v) (ex_frames w) \<and> (\<forall>x. r = Inr x \<longrightarrow> ex_frames w = take lo (ex_frames v)))"

lemma run_keeps_run: "run al lm mo stacks threshold cs rest lo v = Some rw \<Longrightarrow> run_keeps rest lo v (fst rw) (snd rw)"
proof (induction rule: run.raw_induct
    [where P = "\<lambda>al lm mo stacks threshold cs rest lo v rw. run_keeps rest lo v (fst rw) (snd rw)", rotated, consumes 1, case_names turn])
  case (turn again al lm mo stacks threshold cs rest lo v rw)
  obtain r w where rw: "rw = (r, w)" by fastforce
  obtain t u where t: "run_turn al lm mo stacks threshold cs rest lo v = Some (t, u)"
    using turn(2) by (auto split: option.splits)
  have body: "(case t of Inl e \<Rightarrow> Some (Inl e, u) | Inr (Returned x) \<Rightarrow> Some (Inr x, u)
      | Inr Again \<Rightarrow> again al lm mo stacks threshold cs rest lo u) = Some (r, w)"
    using turn(2) t rw by (simp split: sum.splits turn.splits)
  show ?case unfolding run_keeps_def rw fst_conv snd_conv
  proof (intro impI)
    assume h: "opcodes_on_top rest \<and> lo \<le> length (ex_frames v) \<and> length (ex_frames v) \<le> MAX_FRAME_DEPTH"
    then have st: "steady lo v (Some (t, u))" using steady_turn [of rest lo v al lm mo stacks threshold cs] t by simp
    then have i: "within lo (ex_frames v) (ex_frames u)" by (simp add: steady_def)
    show "within lo (ex_frames v) (ex_frames w) \<and> (\<forall>x. r = Inr x \<longrightarrow> ex_frames w = take lo (ex_frames v))"
    proof (cases "t = Inr Again")
      case True
      then have "run_keeps rest lo u r w" using turn(1) [of al lm mo stacks threshold cs rest lo u "(r, w)"] body by simp
      then show ?thesis using h i within_trans [OF i] by (auto simp: run_keeps_def within_def)
    next
      case False
      then show ?thesis using body st i
        by (cases t; cases "case t of Inr q \<Rightarrow> q") (auto simp: steady_def within_def)
    qed
  qed
qed

section \<open>Class initialization\<close>

lemma lineage_distinct: "lineage cs c l \<Longrightarrow> distinct l"
proof -
  have suffix: "\<exists>m. lineage cs (Some i) m \<and> length m \<le> length l" if "lineage cs c l" "i \<in> set l" for c l i
    using that by (induction rule: lineage.induct) (auto intro: lineage.up le_SucI)
  show "lineage cs c l \<Longrightarrow> distinct l"
  proof (induction rule: lineage.induct)
    case (up ci l)
    have "ci \<notin> set l"
    proof
      assume "ci \<in> set l"
      then obtain m where "lineage cs (Some ci) m" "length m \<le> length l" using suffix up.hyps by blast
      then show False using lineage_unique [OF lineage.up [OF up.hyps]] by fastforce
    qed
    then show ?case using up.IH by simp
  qed simp
qed

lemma bit_at_grown: "grow_table mem n 0 t = Some u \<Longrightarrow> bit_at u c = bit_at t c"
  using grow_table_some [of mem n 0 t u] by (auto simp: bit_at_def vec_get_def)

lemma bit_at_set:
  assumes "i div 32 < length (items t)"
  shows "bit_at (set_bit_at i t) c \<longleftrightarrow> c = i \<or> bit_at t c"
proof -
  have "c = i \<longleftrightarrow> c div 32 = i div 32 \<and> c mod 32 = i mod 32"
    using div_mult_mod_eq [of c 32] div_mult_mod_eq [of i 32] by metis
  then show ?thesis using assms
    by (auto simp: bit_at_def set_bit_at_def vec_get_def vec_set_def bit_or_iff bit_push_bit_iff bit_1_iff bit_exp_iff nth_list_update)
qed

lemma marked:
  assumes "mark_initialized al ci s = (Some u, t)"
  shows "is_initialized t c \<longleftrightarrow> c = ci \<or> is_initialized s c" "is_erroneous t = is_erroneous s"
proof -
  obtain b w where w: "grow_table (al TableBuf) ((ci + 1 + 31) div 32) 0 (initialized s) = Some w"
    and t: "t = s\<lparr>static_base := b, initialized := set_bit_at ci w\<rparr>"
    using assms by (auto simp: mark_initialized_def reserve_classes_def Let_def split: option.splits)
  have "(ci + 1 + 31) div 32 \<le> length (items w)" using grow_table_some [OF w] by simp
  then have "ci div 32 < length (items w)" by simp
  then show "is_initialized t c \<longleftrightarrow> c = ci \<or> is_initialized s c"
    using bit_at_set bit_at_grown [OF w] t by (simp add: is_initialized_def)
  show "is_erroneous t = is_erroneous s" using t by (simp add: is_erroneous_def fun_eq_iff)
qed

lemma prepared_marks:
  assumes "prepare al ci n s = (r, t)"
  shows "is_initialized t = is_initialized s" "is_erroneous t = is_erroneous s"
  using assms bit_at_grown
  by (auto simp: prepare_def reserve_classes_def Let_def is_initialized_def is_erroneous_def fun_eq_iff
      split: option.splits if_splits)

lemma defaults_marks: "initialized (static_defaults cf fs i s) = initialized s" "erroneous (static_defaults cf fs i s) = erroneous s"
  by (induction fs arbitrary: i s) (auto simp: set_by_index_def split: option.split)

text \<open>The classes with an initializer that has code.\<close>

definition has_clinit :: "classes \<Rightarrow> nat \<Rightarrow> bool" where
  "has_clinit cs c \<longleftrightarrow>
     (case find_clinit_in (files cs ! c) of None \<Rightarrow> False | Some mi \<Rightarrow> code_offset (cf_methods (files cs ! c) ! mi) \<noteq> 0)"

lemma clinit_frame_law:
  assumes "clinit_frame al (files cs ! c) c = Inr q"
  shows "q = None \<longleftrightarrow> \<not> has_clinit cs c" "\<And>f. q = Some f \<Longrightarrow> class_idx f = c"
  using assms
  by (auto simp: clinit_frame_def has_clinit_def Let_def map_sum_def frame_new_def make_frame_def
      split: option.splits if_splits sum.splits)

lemma init_class_law:
  assumes "init_class al cs c frs s = (Inr frs', t)"
  shows "(\<forall>d. is_initialized t d \<longleftrightarrow> d = c \<or> is_initialized s d) \<and> is_erroneous t = is_erroneous s \<and>
    map class_idx (items frs') =
      map class_idx (items frs) @ filter (\<lambda>d. \<not> is_initialized s d \<and> has_clinit cs d) [c]"
proof (cases "is_initialized s c")
  case True
  then show ?thesis using assms by (auto simp: init_class_def)
next
  case False
  obtain u s1 where m: "mark_initialized al c s = (Some u, s1)"
    using assms False by (auto simp: init_class_def split: prod.splits option.splits)
  obtain cf where cf: "nth_opt (files cs) c = Some cf"
    using assms False m by (auto simp: init_class_def split: prod.splits option.splits)
  have c: "cf = files cs ! c" using cf by (auto simp: nth_opt_def split: if_splits)
  obtain base s2 where p: "prepare al c (length (cf_static_fields cf)) s1 = (Some base, s2)"
    using assms False m cf by (auto simp: init_class_def split: prod.splits option.splits)
  obtain q where q: "clinit_frame al cf c = Inr q"
    using assms False m cf p by (auto simp: init_class_def Let_def split: sum.splits)
  have t: "t = static_defaults cf (cf_static_fields cf) (unat base) s2"
    and f: "case q of None \<Rightarrow> frs' = frs | Some f \<Rightarrow> items frs' = items frs @ [f]"
    using assms False m cf p q by (auto simp: init_class_def Let_def split: option.splits)
  have i: "is_initialized t = is_initialized s1" "is_erroneous t = is_erroneous s1"
    using prepared_marks [OF p] defaults_marks t by (simp_all add: is_initialized_def is_erroneous_def fun_eq_iff)
  show ?thesis using i marked [OF m] f False clinit_frame_law [OF q [unfolded c]] by (cases q) auto
qed

lemma init_chain_law:
  assumes "init_chain al cs l frs s = (Inr frs', t)" "distinct l"
  shows "(\<forall>d. is_initialized t d \<longleftrightarrow> d \<in> set l \<or> is_initialized s d) \<and> is_erroneous t = is_erroneous s \<and>
    map class_idx (items frs') =
      map class_idx (items frs) @ filter (\<lambda>d. \<not> is_initialized s d \<and> has_clinit cs d) l"
  using assms
proof (induction l arbitrary: frs s)
  case Nil
  then show ?case by (simp add: ret_def)
next
  case (Cons c l)
  obtain frs1 s1 where 1: "init_class al cs c frs s = (Inr frs1, s1)"
    using Cons.prems by (auto simp: andThen_def split: prod.splits sum.splits)
  note law = init_class_law [OF 1]
  have "init_chain al cs l frs1 s1 = (Inr frs', t)" using Cons.prems 1 by (simp add: andThen_def)
  note rest = Cons.IH [OF this]
  have "filter (\<lambda>d. \<not> is_initialized s1 d \<and> has_clinit cs d) l = filter (\<lambda>d. \<not> is_initialized s d \<and> has_clinit cs d) l"
    using law Cons.prems by (intro filter_cong) auto
  then show ?case using law rest Cons.prems by auto
qed

lemma push_initializers_law:
  assumes "push_initializers al mo cs lo w = Some (Inr Again, u)"
    "length (ex_frames w) + length (ex_clinits w) \<le> MAX_FRAME_DEPTH"
  shows "ex_frames u = ex_frames w @ ex_clinits w \<and> ex_clinits u = []"
  using assms by (auto simp: push_initializers_def push_frames_def Let_def split: option.splits)

lemma ex_fault_fails [simp]: "ex_fault al cls x \<noteq> (Inr y, z)"
  by (auto simp: ex_fault_def andThen_def throw_def split: prod.splits sum.splits option.splits)

lemma initialization_law:
  assumes l: "lineage cs (Some ci) l" and e: "ensure_class_initialized_at al cs ci v = Some (Inr b, w)"
    and new: "\<not> is_initialized (ex_statics v) ci"
  shows "(\<forall>c. is_initialized (ex_statics w) c \<longleftrightarrow> c \<in> set l \<or> is_initialized (ex_statics v) c) \<and>
    (\<forall>c\<in>set l. \<not> is_erroneous (ex_statics w) c) \<and>
    b = (\<exists>c\<in>set l. \<not> is_initialized (ex_statics v) c \<and> has_clinit cs c) \<and>
    (b \<longrightarrow> map class_idx (ex_clinits w) = filter (\<lambda>c. \<not> is_initialized (ex_statics v) c \<and> has_clinit cs c) l) \<and>
    ex_frames w = ex_frames v"
proof -
  have ch: "superclass_chain_indices (al TableBuf) cs ci = Some (Inr l) \<or>
      superclass_chain_indices (al TableBuf) cs ci = Some (Inl StackOverflow)"
    using chain_loop_ends [OF l, of "al TableBuf" 0 "[]"] by (auto simp: superclass_chain_indices_def)
  have ok: "\<not> list_ex (is_erroneous (ex_statics v)) l"
    and run: "(case init_chain al cs l vec_new (ex_statics v) of
                (Inl e, s) \<Rightarrow> (Inl e, v\<lparr>ex_statics := s\<rparr>)
              | (Inr frs, s) \<Rightarrow> if items frs = [] then (Inr False, v\<lparr>ex_statics := s\<rparr>)
                              else (Inr True, v\<lparr>ex_statics := s, ex_clinits := items frs\<rparr>)) = (Inr b, w)"
    using e new ch by (auto simp: ensure_class_initialized_at_def split: if_splits)
  obtain frs s where i: "init_chain al cs l vec_new (ex_statics v) = (Inr frs, s)"
    using run by (auto split: prod.splits sum.splits)
  note law = init_chain_law [OF i lineage_distinct [OF l]]
  have w: "ex_statics w = s" "ex_frames w = ex_frames v" "b = (items frs \<noteq> [])" "b \<Longrightarrow> ex_clinits w = items frs"
    using run i by (auto split: if_splits)
  have m: "map class_idx (items frs) = filter (\<lambda>c. \<not> is_initialized (ex_statics v) c \<and> has_clinit cs c) l"
    using law by (simp add: vec_new_def)
  have "items frs \<noteq> [] \<longleftrightarrow> (\<exists>c\<in>set l. \<not> is_initialized (ex_statics v) c \<and> has_clinit cs c)"
    using arg_cong [OF m, of "\<lambda>x. x = []"] by (auto simp: filter_empty_conv)
  then show ?thesis using law w m ok by (auto simp: list_ex_iff)
qed

text \<open>A step of the chain that fails keeps the marks it made.\<close>

lemma init_class_after:
  assumes "init_class al cs c frs s = (r, t)" "\<not> is_initialized s c" "mark_initialized al c s = (Some u, s1)"
  shows "is_initialized t = is_initialized s1" "is_erroneous t = is_erroneous s1"
proof -
  have d: "is_initialized (static_defaults cf fs i x) = is_initialized x" "is_erroneous (static_defaults cf fs i x) = is_erroneous x"
    for cf fs i x by (simp_all add: is_initialized_def is_erroneous_def defaults_marks fun_eq_iff)
  have p: "is_initialized y = is_initialized x \<and> is_erroneous y = is_erroneous x" if "prepare al ci n x = (q, y)" for ci n x q y
    using prepared_marks [OF that] by simp
  show "is_initialized t = is_initialized s1" "is_erroneous t = is_erroneous s1"
    using assms by (auto simp: init_class_def Let_def d dest!: p split: option.splits prod.splits sum.splits)
qed

lemma init_class_marks:
  assumes "init_class al cs c frs s = (r, t)"
  shows "is_erroneous t = is_erroneous s \<and> (\<forall>d. is_initialized s d \<longrightarrow> is_initialized t d)"
proof (cases "is_initialized s c")
  case True
  then show ?thesis using assms by (simp add: init_class_def)
next
  case False
  obtain q s1 where m: "mark_initialized al c s = (q, s1)" by fastforce
  show ?thesis
  proof (cases q)
    case None
    then have "t = s1" using assms False m by (simp add: init_class_def)
    then show ?thesis using m None bit_at_grown
      by (auto simp: mark_initialized_def reserve_classes_def Let_def is_initialized_def is_erroneous_def fun_eq_iff
          split: option.splits prod.splits)
  next
    case (Some u)
    then show ?thesis using init_class_after [OF assms False] marked m by simp
  qed
qed

lemma init_chain_marks:
  assumes "init_chain al cs l frs s = (r, t)"
  shows "is_erroneous t = is_erroneous s \<and> (\<forall>d. is_initialized s d \<longrightarrow> is_initialized t d)"
  using assms
proof (induction l arbitrary: frs s)
  case Nil
  then show ?case by (simp add: ret_def)
next
  case (Cons c l)
  obtain q s1 where 1: "init_class al cs c frs s = (q, s1)" by fastforce
  note one = init_class_marks [OF 1]
  show ?case
  proof (cases q)
    case (Inl e)
    then show ?thesis using Cons.prems 1 one by (simp add: andThen_def)
  next
    case (Inr frs1)
    then have "init_chain al cs l frs1 s1 = (r, t)" using Cons.prems 1 by (simp add: andThen_def)
    from Cons.IH [OF this] one show ?thesis by auto
  qed
qed

lemma init_class_marks_it:
  assumes "init_class al cs c frs s = (r, t)" "fst (mark_initialized al c s) \<noteq> None"
  shows "is_initialized t c"
proof (cases "is_initialized s c")
  case True
  then show ?thesis using init_class_marks [OF assms(1)] by blast
next
  case False
  obtain u s1 where m: "mark_initialized al c s = (Some u, s1)" using assms(2) by (cases "mark_initialized al c s") auto
  then show ?thesis using init_class_after [OF assms(1) False m] marked [OF m] by simp
qed

section \<open>Properties\<close>


text \<open>
  C9: starting the initialization of a class marks the class and all its superclasses, and no other class,
  and fails if one of them is erroneous; it asks for initializers exactly when one that was not marked before has
  one, and then queues them in the order from the class up, so that the topmost superclass runs
  first; the frames of the running code are not touched, and asking again finds nothing to do.
\<close>

theorem initialization_covers_the_chain:
  assumes "lineage cs (Some ci) l" and "ensure_class_initialized_at al cs ci v = Some (Inr b, w)"
    and "\<not> is_initialized (ex_statics v) ci"
  shows "(\<forall>c. is_initialized (ex_statics w) c \<longleftrightarrow> c \<in> set l \<or> is_initialized (ex_statics v) c) \<and>
    (\<forall>c\<in>set l. \<not> is_erroneous (ex_statics w) c) \<and>
    b = (\<exists>c\<in>set l. \<not> is_initialized (ex_statics v) c \<and> has_clinit cs c) \<and>
    (b \<longrightarrow> map class_idx (ex_clinits w) = filter (\<lambda>c. \<not> is_initialized (ex_statics v) c \<and> has_clinit cs c) l) \<and>
    ex_frames w = ex_frames v \<and> ensure_class_initialized_at al cs ci w = Some (Inr False, w)"
proof -
  note law = initialization_law [OF assms]
  have "ci \<in> set l" using assms(1) by (auto elim: lineage_SomeE)
  then have "ensure_class_initialized_at al cs ci w = Some (Inr False, w)"
    using law by (simp add: ensure_class_initialized_at_def)
  then show ?thesis using law by blast
qed

text \<open>
  C10: an initialization that runs out of memory after it has marked its class is forgotten: the code tells the caller
  of an exhausted heap, no initializer is queued, and the next request finds the class
  initialized, so that its initializer never runs.
\<close>

theorem exhausted_initialization_is_forgotten:
  assumes "ensure_class_initialized_at al cs ci v = Some (Inl (Err StackOverflow), w)"
    and "superclass_chain_indices (al TableBuf) cs ci = Some (Inr l)" and "lineage cs (Some ci) l"
    and "\<not> is_initialized (ex_statics v) ci" and "\<forall>c\<in>set l. \<not> is_erroneous (ex_statics v) c"
    and "fst (mark_initialized al ci (ex_statics v)) \<noteq> None"
  shows "ensure_class_initialized_at al cs ci w = Some (Inr False, w) \<and> ex_clinits w = ex_clinits v \<and>
    ex_frames w = ex_frames v"
proof -
  obtain m where l: "l = ci # m" using assms(3) by (auto elim: lineage_SomeE)
  then have e: "\<not> is_erroneous (ex_statics v) ci" using assms(5) by simp
  obtain r t where c: "init_chain al cs l vec_new (ex_statics v) = (r, t)" by fastforce
  have "\<not> list_ex (is_erroneous (ex_statics v)) l" using assms(5) by (auto simp: list_ex_iff)
  then have w: "w = v\<lparr>ex_statics := t\<rparr>"
    using assms(1,2,4) e c by (auto simp: ensure_class_initialized_at_def split: sum.splits if_splits)
  obtain q s1 where 1: "init_class al cs ci vec_new (ex_statics v) = (q, s1)" by fastforce
  have i: "is_initialized s1 ci" using init_class_marks_it [OF 1 assms(6)] .
  have "is_initialized t ci"
  proof (cases q)
    case (Inl e)
    then show ?thesis using c 1 i l by (simp add: andThen_def)
  next
    case (Inr frs)
    then have "init_chain al cs m frs s1 = (r, t)" using c 1 l by (simp add: andThen_def)
    then show ?thesis using init_chain_marks i by blast
  qed
  moreover have "\<not> is_erroneous t ci" using init_chain_marks [OF c] e by simp
  ultimately show ?thesis using w by (simp add: ensure_class_initialized_at_def)
qed

section \<open>An example\<close>

text \<open>A frame of the synchronized activation at \<open>nop; return\<close>, above a caller.\<close>

definition nop_frame :: frame where "nop_frame = (make_frame 0 0 [] 0 4)\<lparr>monitor := Some (KObject 7)\<rparr>"

definition no_opcodes :: "'h opcodes" where "no_opcodes = (\<lambda>c code v. Some (Inl (Err (UnsupportedOpcode c)), v))"

lemma class_H_code: "method_code (cf_view class_H) guarded_method = [0x00, 0xB1]"
  by (simp add: method_code_def method_code_len_def guarded_method_def before_code_def cf_view_def class_H_def
      be32_at_def get_range_def be32_def)

lemma nop_turn:
  "run_turn (\<lambda>_ _. True) lm recorder (\<lambda>_. []) 64 classes_H no_opcodes 1 (executor_H [guarded_frame, nop_frame]) =
     Some (Inr Again, (executor_H [guarded_frame, nop_frame\<lparr>pc := 1\<rparr>])\<lparr>ex_insns := 1\<rparr>)"
  by (simp add: run_turn_def checkpoint_def executor_H_def nop_frame_def guarded_frame_def make_frame_def frame_method_def
      nth_opt_def class_H_alone class_H_methods class_H_code fetch_and_run_def start_insn_def run_opcode_def dispatch_def
      on_machine_def on_frame_def op_constants_def ret_def push_pending_def after_opcode_def pace_def gc_new_def Let_def)

lemma return_turn:
  "\<exists>w. run_turn (\<lambda>_ _. True) lm recorder (\<lambda>_. []) 64 classes_H no_opcodes 1
      ((executor_H [guarded_frame, nop_frame\<lparr>pc := 1\<rparr>])\<lparr>ex_insns := 1\<rparr>) = Some (Inr (Returned None), w) \<and>
    ex_frames w = [guarded_frame] \<and> ex_handler w = [KObject 7]"
  by (simp add: run_turn_def checkpoint_def executor_H_def nop_frame_def guarded_frame_def make_frame_def frame_method_def
      nth_opt_def class_H_alone class_H_methods class_H_code fetch_and_run_def start_insn_def finish_return_def
      andThen_def pop_frame_def ex_exit_def recorder_def Let_def)

lemma nop_run:
  "\<exists>w. run (\<lambda>_ _. True) lm recorder (\<lambda>_. []) 64 classes_H no_opcodes 1 (executor_H [guarded_frame, nop_frame]) =
      Some (Inr None, w) \<and> ex_handler w = [KObject 7]"
proof -
  have r: "run al lm mo stacks n cs rest lo v = run al lm mo stacks n cs rest lo w"
    if "run_turn al lm mo stacks n cs rest lo v = Some (Inr Again, w)"
    for al mo stacks n cs rest lo and v w :: "monitor_key list executor"
    by (subst run.simps) (simp add: that)
  have f: "run al lm mo stacks n cs rest lo v = Some (Inr x, w)"
    if "run_turn al lm mo stacks n cs rest lo v = Some (Inr (Returned x), w)"
    for al mo stacks n cs rest lo x and v w :: "monitor_key list executor"
    by (subst run.simps) (simp add: that)
  show ?thesis unfolding r [OF nop_turn] using return_turn [of lm] f by blast
qed


text \<open>The class \<open>A\<close> again, its initializer with code.\<close>

definition link_I :: link where "link_I = link_H\<lparr>link_words := (link_words link_H)[38 := 20]\<rparr>"

definition class_I :: class_file where "class_I = class_H\<lparr>cf_link := link_I\<rparr>"

definition classes_I :: classes where "classes_I = classes_linear [class_I]"

lemma class_I_methods: "cf_methods class_I = [guarded_method, initializer_method\<lparr>code_offset := 20\<rparr>]"
  by (simp add: cf_methods_def listed_def class_I_def link_I_def link_methods_def region_def methods_off_def methods_len_def
      link_H_reads guarded_method_def initializer_method_def)


lemma class_I_reads:
  "scanned_name class_I = [0x41]" "super_class_name class_I = None" "cf_static_fields class_I = []"
  by (simp_all add: scanned_name_def lk_name_def cf_view_def class_I_def class_H_def link_I_def name_ref_def link_H_reads
      link_utf8_ref_def pool_utf8_def POOL_ALIGN_def utf8_at_def be16_at_def get_range_def be16_def
      super_class_name_def lk_super_name_def super_ref_def)
    (simp add: cf_static_fields_def listed_def link_statics_def region_def statics_off_def statics_len_def link_H_reads)

lemma class_I_names:
  "cf_method_name class_I guarded_method = Some [0x41]"
  "cf_method_name class_I (initializer_method\<lparr>code_offset := 20\<rparr>) = Some clinit_name"
proof -
  have "method_name_index (cf_view class_I) guarded_method = Some 1"
      "method_name_index (cf_view class_I) (initializer_method\<lparr>code_offset := 20\<rparr>) = Some 2"
    by (simp_all add: method_name_index_def guarded_method_def initializer_method_def cf_view_def class_I_def class_H_def be16_at_def
        get_range_def be16_def)
  moreover have "lk_utf8 (cf_view class_I) 1 = Inr (Some [0x41])"
      "lk_utf8 (cf_view class_I) 2 = Inr (Some [0x3C, 0x63, 0x6C, 0x69, 0x6E, 0x69, 0x74, 0x3E])"
    by (simp_all add: lk_utf8_def cf_view_def class_I_def class_H_def link_I_def link_H_reads cp_tag_def TAG_UTF8_def cp_word_def
        link_utf8_ref_def pool_utf8_def POOL_ALIGN_def utf8_at_def be16_at_def get_range_def be16_def)
  ultimately show "cf_method_name class_I guarded_method = Some [0x41]"
      "cf_method_name class_I (initializer_method\<lparr>code_offset := 20\<rparr>) = Some clinit_name"
    by (simp_all add: cf_method_name_def lk_method_name_def got_def clinit_name_def bytes_of_def ask_def and_ok_def)
qed

lemma class_I_clinit: "find_clinit_in class_I = Some 1"
  by (simp add: find_clinit_in_def class_I_methods class_I_names) (simp add: clinit_name_def bytes_of_def)

lemma classes_I_file: "files classes_I = [class_I]"
  by (simp add: classes_I_def classes_linear_def)

lemma classes_I_lineage: "lineage classes_I (Some 0) [0]"
proof -
  have "super_of classes_I 0 = None" by (simp add: super_of_def classes_I_def classes_linear_def LINEAR_def nth_opt_def class_I_reads Let_def)
  then show ?thesis by (metis lineage.root lineage.up)
qed

lemma I_initializes:
  "\<exists>w. ensure_class_initialized_at (\<lambda>_ _. True) classes_I 0 (executor_H []) = Some (Inr True, w)"
proof -
  have c: "superclass_chain_indices (\<lambda>_. True) classes_I 0 = Some (Inr [0])"
    unfolding superclass_chain_indices_def using chain_loop_law [OF classes_I_lineage, of "\<lambda>_. True" 0 "[]"] by simp
  obtain s1 c where m: "mark_initialized (\<lambda>_ _. True) 0 statics_new = (Some (), s1)" "static_values s1 = vec_new"
      "static_base s1 = \<lparr>items = [UNPREPARED], vcap = c\<rparr>" "length (items (initialized s1)) = 1"
    by (simp add: mark_initialized_def reserve_classes_def statics_new_def grow_table_def vec_new_def resize_def
        vec_reserve_exact_def set_bit_at_def vec_set_def)
  have r: "reserve_classes (\<lambda>_ _. True) (0 + 1) s1 = (Some (), s1)"
    using m(3,4) by (simp add: reserve_classes_def grow_table_def)
  obtain b s2 where p: "prepare (\<lambda>_ _. True) 0 0 s1 = (Some b, s2)"
    unfolding prepare_def r using m(2,3) by (simp add: UNPREPARED_def values_room_def vec_new_def Let_def)
  have room: "\<exists>c. vec_reserve (\<lambda>_. True) 0 0 n = Some c" for n by (simp add: vec_reserve_def Let_def)
  have new: "\<exists>f. frame_new (\<lambda>_. True) ci mi args ml ms = Inr f" for ci mi args ml ms
    using room by (metis (no_types, lifting) frame_new_def option.simps(5))
  obtain g where g: "frame_new (\<lambda>_. True) 0 1 []
      (method_max_locals (cf_view class_I) (initializer_method\<lparr>code_offset := 20\<rparr>))
      (method_max_stack (cf_view class_I) (initializer_method\<lparr>code_offset := 20\<rparr>)) = Inr g"
    using new by blast
  then have f: "clinit_frame (\<lambda>_ _. True) class_I 0 = Inr (Some g)"
    by (simp add: clinit_frame_def class_I_clinit class_I_methods)
  show ?thesis
    using m p f c
    by (simp add: ensure_class_initialized_at_def executor_H_def is_erroneous_def is_initialized_def bit_at_def vec_get_def
        statics_new_def vec_new_def andThen_def init_class_def classes_I_file nth_opt_def class_I_reads vec_reserve_def ret_def)
qed

theorem initialization_covers_the_chain_witness:
  "\<exists>w. ensure_class_initialized_at (\<lambda>_ _. True) classes_I 0 (executor_H []) = Some (Inr True, w) \<and>
    is_initialized (ex_statics w) 0 \<and> map class_idx (ex_clinits w) = [0] \<and>
    ensure_class_initialized_at (\<lambda>_ _. True) classes_I 0 w = Some (Inr False, w)"
proof -
  obtain w where w: "ensure_class_initialized_at (\<lambda>_ _. True) classes_I 0 (executor_H []) = Some (Inr True, w)"
    using I_initializes by blast
  have "\<not> is_initialized (ex_statics (executor_H [])) 0"
    by (simp add: executor_H_def is_initialized_def bit_at_def vec_get_def statics_new_def vec_new_def)
  from initialization_covers_the_chain [OF classes_I_lineage w this] this w show ?thesis by simp
qed


text \<open>A heap that refuses value buffers has no room for the frame of the initializer.\<close>

lemma I_exhausted:
  "\<exists>w. ensure_class_initialized_at (\<lambda>k _. k \<noteq> ValueBuf) classes_I 0 (executor_H []) = Some (Inl (Err StackOverflow), w)"
  "superclass_chain_indices (\<lambda>_. True) classes_I 0 = Some (Inr [0])"
  "fst (mark_initialized (\<lambda>k _. k \<noteq> ValueBuf) 0 statics_new) \<noteq> None"
proof -
  show c: "superclass_chain_indices (\<lambda>_. True) classes_I 0 = Some (Inr [0])"
    unfolding superclass_chain_indices_def using chain_loop_law [OF classes_I_lineage, of "\<lambda>_. True" 0 "[]"] by simp
  let ?al = "\<lambda>k (_ :: nat). k \<noteq> ValueBuf"
  obtain s1 c where m: "mark_initialized ?al 0 statics_new = (Some (), s1)" "static_values s1 = vec_new"
      "static_base s1 = \<lparr>items = [UNPREPARED], vcap = c\<rparr>" "length (items (initialized s1)) = 1"
    by (simp add: mark_initialized_def reserve_classes_def statics_new_def grow_table_def vec_new_def resize_def
        vec_reserve_exact_def set_bit_at_def vec_set_def)
  then show "fst (mark_initialized ?al 0 statics_new) \<noteq> None" by simp
  have r: "reserve_classes ?al (0 + 1) s1 = (Some (), s1)"
    using m(3,4) by (simp add: reserve_classes_def grow_table_def)
  obtain b s2 where p: "prepare ?al 0 0 s1 = (Some b, s2)"
    unfolding prepare_def r using m(2,3) by (simp add: UNPREPARED_def values_room_def vec_new_def Let_def)
  have "method_max_locals (cf_view class_I) (initializer_method\<lparr>code_offset := 20\<rparr>) = 1"
    by (simp add: method_max_locals_def before_code_def initializer_method_def cf_view_def class_I_def class_H_def be16_at_def
        get_range_def be16_def)
  then have "frame_new (?al ValueBuf) 0 1 []
      (method_max_locals (cf_view class_I) (initializer_method\<lparr>code_offset := 20\<rparr>))
      (method_max_stack (cf_view class_I) (initializer_method\<lparr>code_offset := 20\<rparr>)) = Inl StackOverflow"
    by (simp add: frame_new_def vec_reserve_def)
  then have f: "clinit_frame ?al class_I 0 = Inl StackOverflow"
    by (simp add: clinit_frame_def class_I_clinit class_I_methods)
  show "\<exists>w. ensure_class_initialized_at ?al classes_I 0 (executor_H []) = Some (Inl (Err StackOverflow), w)"
    using m p f c
    by (simp add: ensure_class_initialized_at_def executor_H_def is_erroneous_def is_initialized_def bit_at_def vec_get_def
        statics_new_def vec_new_def andThen_def init_class_def classes_I_file nth_opt_def class_I_reads)
qed

theorem exhausted_initialization_is_forgotten_witness:
  "\<exists>w. ensure_class_initialized_at (\<lambda>k _. k \<noteq> ValueBuf) classes_I 0 (executor_H []) = Some (Inl (Err StackOverflow), w) \<and>
    ensure_class_initialized_at (\<lambda>k _. k \<noteq> ValueBuf) classes_I 0 w = Some (Inr False, w) \<and> ex_clinits w = [] \<and>
    has_clinit classes_I 0"
proof -
  obtain w where w: "ensure_class_initialized_at (\<lambda>k _. k \<noteq> ValueBuf) classes_I 0 (executor_H []) = Some (Inl (Err StackOverflow), w)"
    using I_exhausted(1) by blast
  have s: "ex_statics (executor_H []) = statics_new" "ex_clinits (executor_H []) = []" by (simp_all add: executor_H_def)
  have n: "\<not> is_initialized statics_new 0" "\<not> is_erroneous statics_new 0"
    by (simp_all add: is_initialized_def is_erroneous_def bit_at_def vec_get_def statics_new_def vec_new_def)
  have "has_clinit classes_I 0" by (simp add: has_clinit_def classes_I_file class_I_clinit class_I_methods)
  then show ?thesis
    using exhausted_initialization_is_forgotten [OF w _ classes_I_lineage] I_exhausted(2,3) w s n by simp
qed

end
