(* ===== verification/Monitors.thy ===== *)
theory Monitors
  imports Machine
begin

text \<open>
  The Java monitors, \<open>crates/picodroid-core/src/monitor_store.rs\<close>, over the recursive mutexes
  of the simulator kernel, \<open>crates/picodroid-core/src/hal/sim/rtos.rs\<close>, and the tasks that use them: a
  step relation whose steps are the code's atomic sections and kernel calls, interleaved.
  A task is the number of its handle, 0 for none.
\<close>

section \<open>Recursive mutexes\<close>

record sim_mutex =
  sm_owner :: "nat option"
  sm_count :: u32

type_synonym kernel = "nat \<rightharpoonup> sim_mutex"

definition fresh_mutex :: sim_mutex where "fresh_mutex = \<lparr>sm_owner = None, sm_count = 0\<rparr>"

text \<open>\<open>None\<close> while another task owns it: the caller waits or gives up.\<close>

definition mutex_recursive_lock :: "nat \<Rightarrow> sim_mutex \<Rightarrow> sim_mutex option" where
  "mutex_recursive_lock me st =
     (case sm_owner st of
        None \<Rightarrow> Some \<lparr>sm_owner = Some me, sm_count = 1\<rparr>
      | Some t \<Rightarrow> if t = me then Some (st\<lparr>sm_count := sm_count st + 1\<rparr>) else None)"

definition mutex_recursive_unlock :: "sim_mutex \<Rightarrow> sim_mutex" where
  "mutex_recursive_unlock st =
     (if 1 < sm_count st then st\<lparr>sm_count := sm_count st - 1\<rparr> else \<lparr>sm_owner = None, sm_count = 0\<rparr>)"

section \<open>The table\<close>

record monitor =
  mon_key :: monitor_key
  mon_mutex :: nat
  mon_owner :: nat
  mon_depth :: u16

record monitor_store =
  mon_table :: "monitor list"
  mon_kernel :: kernel

definition find_monitor :: "monitor_key \<Rightarrow> monitor list \<Rightarrow> nat option" where
  "find_monitor k ms = position (\<lambda>m. mon_key m = k) ms"

text \<open>An unlock through the handle of an entry; a handle that was deleted is the undefined behaviour of the kernel.\<close>

definition unlock_handle :: "nat \<Rightarrow> kernel \<Rightarrow> kernel" where
  "unlock_handle x ks = ks(x := map_option mutex_recursive_unlock (ks x))"

text \<open>The first section of \<open>enter_with\<close>; \<open>created\<close> is what the creation of a mutex answers.\<close>

definition enter_lookup :: "monitor_key \<Rightarrow> nat option \<Rightarrow> monitor_store \<Rightarrow> (jvm_error + nat) \<times> monitor_store" where
  "enter_lookup k created s =
     (case find_monitor k (mon_table s) of
        Some i \<Rightarrow> (Inr (mon_mutex (mon_table s ! i)), s)
      | None \<Rightarrow>
          (case created of
             None \<Rightarrow> (Inl StackOverflow, s)
           | Some x \<Rightarrow>
               (Inr x, s\<lparr>mon_table := mon_table s @ [\<lparr>mon_key = k, mon_mutex = x, mon_owner = 0, mon_depth = 0\<rparr>],
                  mon_kernel := (mon_kernel s)(x \<mapsto> fresh_mutex)\<rparr>)))"

text \<open>What a wait that ended without the mutex answers; \<open>bounded\<close> tells a timeout from \<open>Forever\<close>.\<close>

definition enter_failed :: "bool \<Rightarrow> bool \<Rightarrow> jvm_error + bool" where
  "enter_failed bounded stop = (if bounded then Inr False else if stop then Inl Interrupted else Inl IllegalMonitorState)"

text \<open>The second section, with the mutex \<open>x\<close> taken.\<close>

definition enter_record :: "nat \<Rightarrow> monitor_key \<Rightarrow> nat \<Rightarrow> monitor_store \<Rightarrow> (jvm_error + bool) \<times> monitor_store" where
  "enter_record me k x s =
     (case find_monitor k (mon_table s) of
        Some i \<Rightarrow>
          (Inr True, s\<lparr>mon_table := (mon_table s)[i := (mon_table s ! i)\<lparr>mon_owner := me, mon_depth := mon_depth (mon_table s ! i) + 1\<rparr>]\<rparr>)
      | None \<Rightarrow> (Inl IllegalMonitorState, s\<lparr>mon_kernel := unlock_handle x (mon_kernel s)\<rparr>))"

text \<open>\<open>Object.wait\<close> and the tests enter a monitor that is free or their own in one go; \<open>None\<close> is a wait.\<close>

definition enter_now :: "nat \<Rightarrow> monitor_key \<Rightarrow> nat option \<Rightarrow> monitor_store \<Rightarrow> ((jvm_error + bool) \<times> monitor_store) option" where
  "enter_now me k created s =
     (case enter_lookup k created s of
        (Inl e, s1) \<Rightarrow> Some (Inl e, s1)
      | (Inr x, s1) \<Rightarrow>
          (case mon_kernel s1 x of
             None \<Rightarrow> None
           | Some st \<Rightarrow>
               (case mutex_recursive_lock me st of
                  None \<Rightarrow> None
                | Some st' \<Rightarrow> Some (enter_record me k x (s1\<lparr>mon_kernel := (mon_kernel s1)(x \<mapsto> st')\<rparr>)))))"

text \<open>The entry of the key if the task holds it.\<close>

definition held_entry :: "nat \<Rightarrow> monitor_key \<Rightarrow> monitor list \<Rightarrow> nat option" where
  "held_entry me k ms =
     (case find_monitor k ms of
        None \<Rightarrow> None
      | Some i \<Rightarrow> if mon_owner (ms ! i) \<noteq> me \<or> mon_depth (ms ! i) = 0 then None else Some i)"

definition monitor_exit :: "nat \<Rightarrow> monitor_key \<Rightarrow> monitor_store \<Rightarrow> (jvm_error + unit) \<times> monitor_store" where
  "monitor_exit me k s =
     (case held_entry me k (mon_table s) of
        None \<Rightarrow> (Inl IllegalMonitorState, s)
      | Some i \<Rightarrow>
          (let m = mon_table s ! i; d = mon_depth m - 1
           in (Inr (), s\<lparr>mon_table := (mon_table s)[i := m\<lparr>mon_depth := d, mon_owner := if d = 0 then 0 else mon_owner m\<rparr>],
                 mon_kernel := unlock_handle (mon_mutex m) (mon_kernel s)\<rparr>)))"

definition held_by_current :: "nat \<Rightarrow> monitor_key \<Rightarrow> monitor_store \<Rightarrow> bool" where
  "held_by_current me k s \<longleftrightarrow> list_ex (\<lambda>m. mon_key m = k \<and> mon_owner m = me \<and> 0 < mon_depth m) (mon_table s)"

text \<open>The mutex is unlocked once for each level.\<close>

definition unlock_levels :: "u16 \<Rightarrow> nat \<Rightarrow> kernel \<Rightarrow> kernel" where
  "unlock_levels d x ks = (unlock_handle x ^^ unat d) ks"

definition save_and_release :: "nat \<Rightarrow> monitor_key \<Rightarrow> monitor_store \<Rightarrow> (jvm_error + u16) \<times> monitor_store" where
  "save_and_release me k s =
     (case held_entry me k (mon_table s) of
        None \<Rightarrow> (Inl IllegalMonitorState, s)
      | Some i \<Rightarrow>
          (let m = mon_table s ! i
           in (Inr (mon_depth m), s\<lparr>mon_table := (mon_table s)[i := m\<lparr>mon_depth := 0, mon_owner := 0\<rparr>],
                 mon_kernel := unlock_levels (mon_depth m) (mon_mutex m) (mon_kernel s)\<rparr>)))"

fun reacquire :: "nat \<Rightarrow> monitor_key \<Rightarrow> nat option \<Rightarrow> nat \<Rightarrow> monitor_store \<Rightarrow> ((jvm_error + unit) \<times> monitor_store) option" where
  "reacquire me k created 0 s = Some (Inr (), s)"
| "reacquire me k created (Suc n) s =
     (case enter_now me k created s of
        None \<Rightarrow> None
      | Some (Inl e, s') \<Rightarrow> Some (Inl e, s')
      | Some (Inr _, s') \<Rightarrow> reacquire me k created n s')"

text \<open>All that a leaving task still holds, with the number of levels.\<close>

fun release_loop :: "nat \<Rightarrow> monitor list \<Rightarrow> kernel \<Rightarrow> nat \<times> monitor list \<times> kernel" where
  "release_loop me [] ks = (0, [], ks)"
| "release_loop me (m # ms) ks =
     (if mon_owner m = me \<and> 0 < mon_depth m
      then case release_loop me ms (unlock_levels (mon_depth m) (mon_mutex m) ks) of
             (n, ms', ks') \<Rightarrow> (unat (mon_depth m) + n, m\<lparr>mon_depth := 0, mon_owner := 0\<rparr> # ms', ks')
      else case release_loop me ms ks of (n, ms', ks') \<Rightarrow> (n, m # ms', ks'))"

definition release_all_held_by_current :: "nat \<Rightarrow> monitor_store \<Rightarrow> nat \<times> monitor_store" where
  "release_all_held_by_current me s =
     (case release_loop me (mon_table s) (mon_kernel s) of (n, ms, ks) \<Rightarrow> (n, \<lparr>mon_table = ms, mon_kernel = ks\<rparr>))"

text \<open>The last entry takes the place of a removed one and is looked at next.\<close>

function prune_loop :: "(monitor_key \<Rightarrow> bool) \<Rightarrow> nat \<Rightarrow> monitor list \<Rightarrow> kernel \<Rightarrow> monitor list \<times> kernel" where
  "prune_loop live i ms ks =
     (if i < length ms
      then if mon_depth (ms ! i) = 0 \<and> \<not> live (mon_key (ms ! i))
           then case swap_remove ms i of (dead, rest) \<Rightarrow> prune_loop live i rest (ks(mon_mutex dead := None))
           else prune_loop live (i + 1) ms ks
      else (ms, ks))"
  by pat_completeness auto

termination
  by (relation "measure (\<lambda>(live, i, ms, ks). 2 * length ms - i)") (auto simp: swap_remove_def)

declare prune_loop.simps [simp del]

definition prune_dead :: "(monitor_key \<Rightarrow> bool) \<Rightarrow> monitor_store \<Rightarrow> monitor_store" where
  "prune_dead live s = (case prune_loop live 0 (mon_table s) (mon_kernel s) of (ms, ks) \<Rightarrow> \<lparr>mon_table = ms, mon_kernel = ks\<rparr>)"

definition monitors_clear :: "monitor_store \<Rightarrow> monitor_store" where
  "monitors_clear s = \<lparr>mon_table = [], mon_kernel = fold (\<lambda>m ks. ks(mon_mutex m := None)) (mon_table s) (mon_kernel s)\<rparr>"

definition monitors_new :: monitor_store where
  "monitors_new = \<lparr>mon_table = [], mon_kernel = Map.empty\<rparr>"

section \<open>Tasks\<close>

text \<open>What a task has under way: nothing, a wait for a mutex outside the sections, or a mutex it has taken but not recorded.\<close>

datatype activity = Idle | Waiting monitor_key nat | Taken monitor_key nat

record monitor_world =
  mw_store :: monitor_store
  activity_of :: "nat \<Rightarrow> activity"

definition entering :: "monitor_world \<Rightarrow> nat \<Rightarrow> monitor_key \<Rightarrow> nat \<Rightarrow> bool" where
  "entering w t k x \<longleftrightarrow> activity_of w t = Waiting k x \<or> activity_of w t = Taken k x"

text \<open>
  The steps. A mutex is created at an address that no mutex has; a collection keeps the keys that tasks are entering,
  which is what the module asks of its callers; the table is cleared when no task is under way.
\<close>

inductive mstep :: "monitor_world \<Rightarrow> monitor_world \<Rightarrow> bool" where
  look: "activity_of w t = Idle \<Longrightarrow> t \<noteq> 0 \<Longrightarrow> (\<forall>x. created = Some x \<longrightarrow> x \<noteq> 0 \<and> mon_kernel (mw_store w) x = None) \<Longrightarrow>
     enter_lookup k created (mw_store w) = (Inr x, s) \<Longrightarrow>
     mstep w \<lparr>mw_store = s, activity_of = (activity_of w)(t := Waiting k x)\<rparr>"
| taken: "activity_of w t = Waiting k x \<Longrightarrow> mon_kernel (mw_store w) x = Some st \<Longrightarrow> mutex_recursive_lock t st = Some st' \<Longrightarrow>
     mstep w \<lparr>mw_store = (mw_store w)\<lparr>mon_kernel := (mon_kernel (mw_store w))(x \<mapsto> st')\<rparr>, activity_of = (activity_of w)(t := Taken k x)\<rparr>"
| give_up: "activity_of w t = Waiting k x \<Longrightarrow> mstep w (w\<lparr>activity_of := (activity_of w)(t := Idle)\<rparr>)"
| noted: "activity_of w t = Taken k x \<Longrightarrow> enter_record t k x (mw_store w) = (r, s) \<Longrightarrow>
     mstep w \<lparr>mw_store = s, activity_of = (activity_of w)(t := Idle)\<rparr>"
| leave: "activity_of w t = Idle \<Longrightarrow> monitor_exit t k (mw_store w) = (r, s) \<Longrightarrow> mstep w (w\<lparr>mw_store := s\<rparr>)"
| save: "activity_of w t = Idle \<Longrightarrow> save_and_release t k (mw_store w) = (r, s) \<Longrightarrow> mstep w (w\<lparr>mw_store := s\<rparr>)"
| release_all: "activity_of w t = Idle \<Longrightarrow> release_all_held_by_current t (mw_store w) = (n, s) \<Longrightarrow> mstep w (w\<lparr>mw_store := s\<rparr>)"
| prune: "\<forall>t k x. entering w t k x \<longrightarrow> live k \<Longrightarrow> mstep w (w\<lparr>mw_store := prune_dead live (mw_store w)\<rparr>)"
| clear: "\<forall>t. activity_of w t = Idle \<Longrightarrow> mstep w (w\<lparr>mw_store := monitors_clear (mw_store w)\<rparr>)"

text \<open>What tasks reach as long as no monitor is entered 65535 levels deep.\<close>

definition shallow :: "monitor_world \<Rightarrow> bool" where
  "shallow w \<longleftrightarrow> (\<forall>m\<in>set (mon_table (mw_store w)). unat (mon_depth m) < 65535)"

inductive mreach :: "monitor_world \<Rightarrow> bool" where
  start: "mreach \<lparr>mw_store = monitors_new, activity_of = (\<lambda>_. Idle)\<rparr>"
| step: "mreach w \<Longrightarrow> shallow w \<Longrightarrow> mstep w w' \<Longrightarrow> mreach w'"

end
