(* ===== verification/MonitorLaws.thy ===== *)
theory MonitorLaws
  imports Monitors UnwindLaws
begin

text \<open>
  What the monitors promise: in every interleaving the table and the kernel agree on who
  holds what, no task touches a deleted mutex or finds its entry gone, two tasks never hold a monitor at
  once, and the operations are those of a map from keys to an owner and a depth. The contract the run
  loop needs is a locale, interpreted on the store.
\<close>

section \<open>Agreement of table and kernel\<close>

definition level_taken :: "(nat \<Rightarrow> activity) \<Rightarrow> monitor \<Rightarrow> nat \<Rightarrow> nat" where
  "level_taken act m t = (if act t = Taken (mon_key m) (mon_mutex m) then 1 else 0)"

definition agrees :: "(nat \<Rightarrow> activity) \<Rightarrow> monitor \<Rightarrow> sim_mutex \<Rightarrow> bool" where
  "agrees act m st \<longleftrightarrow>
     (case sm_owner st of
        None \<Rightarrow> sm_count st = 0 \<and> mon_owner m = 0 \<and> mon_depth m = 0 \<and> (\<forall>t. level_taken act m t = 0)
      | Some t \<Rightarrow> t \<noteq> 0 \<and> 0 < sm_count st \<and> mon_owner m = (if mon_depth m = 0 then 0 else t) \<and>
          unat (sm_count st) = unat (mon_depth m) + level_taken act m t \<and> (\<forall>u. u \<noteq> t \<longrightarrow> level_taken act m u = 0))"

definition enters :: "activity \<Rightarrow> monitor_key \<Rightarrow> nat \<Rightarrow> bool" where
  "enters a k x \<longleftrightarrow> a = Waiting k x \<or> a = Taken k x"

definition mon_ok :: "monitor list \<Rightarrow> kernel \<Rightarrow> (nat \<Rightarrow> activity) \<Rightarrow> bool" where
  "mon_ok ms ks act \<longleftrightarrow> distinct (map mon_key ms) \<and> distinct (map mon_mutex ms) \<and>
     (\<forall>m\<in>set ms. \<exists>st. ks (mon_mutex m) = Some st \<and> agrees act m st) \<and>
     (\<forall>t k x. enters (act t) k x \<longrightarrow> t \<noteq> 0 \<and> (\<exists>m\<in>set ms. mon_key m = k \<and> mon_mutex m = x))"

definition world_ok :: "monitor_world \<Rightarrow> bool" where
  "world_ok w \<longleftrightarrow> mon_ok (mon_table (mw_store w)) (mon_kernel (mw_store w)) (activity_of w)"

lemma entering_enters: "entering w t k x \<longleftrightarrow> enters (activity_of w t) k x"
  by (simp add: entering_def enters_def)

lemma mon_ok_mset: "mset ms = mset ms' \<Longrightarrow> mon_ok ms ks act \<longleftrightarrow> mon_ok ms' ks act"
proof -
  assume e: "mset ms = mset ms'"
  have "distinct (map mon_key ms) \<longleftrightarrow> distinct (map mon_key ms')" "distinct (map mon_mutex ms) \<longleftrightarrow> distinct (map mon_mutex ms')"
    using e by (intro mset_eq_imp_distinct_iff; simp)+
  moreover have "set ms = set ms'" using e by (rule mset_eq_setD)
  ultimately show ?thesis unfolding mon_ok_def by (simp only:)
qed

lemma mon_ok_entry:
  assumes "mon_ok ms ks act" "m \<in> set ms"
  obtains st where "ks (mon_mutex m) = Some st" "agrees act m st"
  using assms unfolding mon_ok_def by blast

lemma mon_ok_unique:
  assumes "mon_ok ms ks act" "m \<in> set ms" "m' \<in> set ms" "mon_key m = mon_key m' \<or> mon_mutex m = mon_mutex m'"
  shows "m = m'"
  using assms unfolding mon_ok_def by (metis distinct_map inj_onD)

lemma find_monitor_Some: "find_monitor k ms = Some i \<Longrightarrow> i < length ms \<and> mon_key (ms ! i) = k"
  unfolding find_monitor_def by (auto dest: position_Some)

lemma find_monitor_None: "find_monitor k ms = None \<longleftrightarrow> (\<forall>m\<in>set ms. mon_key m \<noteq> k)"
  unfolding find_monitor_def by (induction ms) auto

lemma find_monitor_entry:
  assumes "distinct (map mon_key ms)" "m \<in> set ms"
  obtains i where "find_monitor (mon_key m) ms = Some i" "i < length ms" "ms ! i = m"
proof (cases "find_monitor (mon_key m) ms")
  case None
  then show ?thesis using assms(2) by (auto simp: find_monitor_None)
next
  case (Some i)
  then have "i < length ms" "mon_key (ms ! i) = mon_key m" using find_monitor_Some by blast+
  then have "ms ! i = m" using assms by (metis distinct_map inj_onD nth_mem)
  then show ?thesis using that Some \<open>i < length ms\<close> by blast
qed

text \<open>An entry changes with its mutex, and the activity of one task that is about it.\<close>

lemma mon_ok_update:
  assumes ok: "mon_ok ms ks act" and i: "i < length ms"
    and same: "mon_key m' = mon_key (ms ! i)" "mon_mutex m' = mon_mutex (ms ! i)"
    and old: "\<forall>k x. act t = Taken k x \<longrightarrow> k = mon_key (ms ! i) \<and> x = mon_mutex (ms ! i)"
    and new: "\<forall>k x. enters a k x \<longrightarrow> t \<noteq> 0 \<and> k = mon_key (ms ! i) \<and> x = mon_mutex (ms ! i)"
    and st: "agrees (act(t := a)) m' st"
  shows "mon_ok (ms[i := m']) (ks(mon_mutex (ms ! i) \<mapsto> st)) (act(t := a))"
proof -
  have keys: "map mon_key (ms[i := m']) = map mon_key ms" "map mon_mutex (ms[i := m']) = map mon_mutex ms"
    using same i by (simp_all add: map_update list_update_same_conv)
  have other: "agrees (act(t := a)) m st' \<longleftrightarrow> agrees act m st'" if "m \<in> set ms" "mon_key m \<noteq> mon_key (ms ! i)" for m st'
  proof -
    have "level_taken (act(t := a)) m = level_taken act m"
      using that old new by (auto simp: level_taken_def enters_def fun_eq_iff)
    then show ?thesis by (simp add: agrees_def split: option.split)
  qed
  have "\<exists>st'. (ks(mon_mutex (ms ! i) \<mapsto> st)) (mon_mutex m) = Some st' \<and> agrees (act(t := a)) m st'"
    if mem: "m \<in> set (ms[i := m'])" for m
  proof (cases "m = m'")
    case True
    then show ?thesis using st same by simp
  next
    case False
    obtain j where "j < length (ms[i := m'])" "ms[i := m'] ! j = m" using mem unfolding in_set_conv_nth by blast
    with False have j: "j < length ms" "j \<noteq> i" "m = ms ! j" by (cases "j = i"; simp)+
    have distinct: "ms ! j \<noteq> ms ! i" using ok i j by (metis distinct_map mon_ok_def nth_eq_iff_index_eq)
    from j have m: "m \<in> set ms" "mon_key m \<noteq> mon_key (ms ! i)" "mon_mutex m \<noteq> mon_mutex (ms ! i)"
      using mon_ok_unique [OF ok, of "ms ! j" "ms ! i"] i distinct by auto
    obtain st' where "ks (mon_mutex m) = Some st'" "agrees act m st'" using mon_ok_entry [OF ok m(1)] by blast
    then show ?thesis using other [OF m(1,2)] m(3) by auto
  qed
  moreover have "t' \<noteq> 0 \<and> (\<exists>m\<in>set (ms[i := m']). mon_key m = k \<and> mon_mutex m = x)"
    if e: "enters ((act(t := a)) t') k x" for t' k x
  proof -
    have "\<exists>j<length ms. mon_key (ms ! j) = k \<and> mon_mutex (ms ! j) = x \<and> t' \<noteq> 0"
    proof (cases "t' = t")
      case True
      then have "enters a k x" using e by simp
      then show ?thesis using new i True by blast
    next
      case False
      then have "enters (act t') k x" using e by simp
      then have "t' \<noteq> 0 \<and> (\<exists>m\<in>set ms. mon_key m = k \<and> mon_mutex m = x)" using ok unfolding mon_ok_def by blast
      then show ?thesis by (metis in_set_conv_nth)
    qed
    then obtain j where j: "j < length ms" "mon_key (ms ! j) = k" "mon_mutex (ms ! j) = x" "t' \<noteq> 0" by blast
    have "mon_key (ms[i := m'] ! j) = k \<and> mon_mutex (ms[i := m'] ! j) = x"
      using j same by (cases "j = i") auto
    then show ?thesis using j(1,4) by (metis length_list_update nth_mem)
  qed
  ultimately show ?thesis using ok keys unfolding mon_ok_def by metis
qed

section \<open>Mutexes\<close>

lemma unat_suc: "unat c + 1 < 2 ^ LENGTH('a) \<Longrightarrow> unat (c + 1) = unat c + 1" for c :: "'a::len word"
  using unat_add_lem [of c 1] by (cases "LENGTH('a) = 0") simp_all

lemma unlock_levels_law:
  "unlock_levels d x ks = ks(x := map_option (mutex_recursive_unlock ^^ unat d) (ks x))"
proof -
  have "(unlock_handle x ^^ n) ks = ks(x := map_option (mutex_recursive_unlock ^^ n) (ks x))" for n
    by (induction n) (auto simp: unlock_handle_def option.map_comp comp_def option.map_ident)
  then show ?thesis by (simp add: unlock_levels_def)
qed

lemma unlock_all:
  assumes "unat (sm_count st) = n" "0 < n"
  shows "(mutex_recursive_unlock ^^ n) st = fresh_mutex"
  using assms
proof (induction n arbitrary: st)
  case (Suc n)
  show ?case
  proof (cases "n = 0")
    case True
    then have "\<not> 1 < sm_count st" using Suc.prems(1) by (simp add: word_less_nat_alt)
    then show ?thesis using True by (simp add: mutex_recursive_unlock_def fresh_mutex_def)
  next
    case False
    then have "1 < sm_count st" using Suc.prems(1) by (simp add: word_less_nat_alt)
    then have "unat (sm_count (mutex_recursive_unlock st)) = n"
      using Suc.prems(1) unat_minus_one [of "sm_count st"] by (cases "sm_count st = 0") (simp_all add: mutex_recursive_unlock_def)
    then show ?thesis using Suc.IH [of "mutex_recursive_unlock st"] False by (simp add: funpow_swap1)
  qed
qed simp

section \<open>The operations keep the agreement\<close>

lemma update_quiet:
  assumes "mon_ok ms ks act" "act t = Idle" "i < length ms" "mon_key m' = mon_key (ms ! i)" "mon_mutex m' = mon_mutex (ms ! i)"
    "agrees act m' st"
  shows "mon_ok (ms[i := m']) (ks(mon_mutex (ms ! i) \<mapsto> st)) act"
proof -
  have "act(t := Idle) = act" using assms(2) by (auto simp: fun_eq_iff)
  then show ?thesis
    using mon_ok_update [OF assms(1,3,4,5), of t Idle st] assms(2,6) by (simp add: enters_def)
qed

lemma level_taken_idle [simp]: "act t = Idle \<Longrightarrow> level_taken act m t = 0"
  by (simp add: level_taken_def)

text \<open>The kernel's side of an entry that the task holds.\<close>

lemma owned_mutex:
  assumes "mon_ok ms ks act" "act t = Idle" "m \<in> set ms" "mon_owner m = t" "mon_depth m \<noteq> 0"
  obtains st where "ks (mon_mutex m) = Some st" "sm_owner st = Some t" "sm_count st \<noteq> 0"
    "unat (sm_count st) = unat (mon_depth m)" "t \<noteq> 0" "\<forall>u. level_taken act m u = 0"
proof -
  obtain st where st: "ks (mon_mutex m) = Some st" "agrees act m st" using mon_ok_entry [OF assms(1,3)] by blast
  then have "sm_owner st = Some t" using assms(4,5) by (auto simp: agrees_def split: option.splits)
  moreover have "\<forall>u. level_taken act m u = 0"
  proof
    fix u
    show "level_taken act m u = 0" using st(2) calculation assms(2) by (cases "u = t") (auto simp: agrees_def)
  qed
  ultimately show ?thesis using that st assms(2,5) by (auto simp: agrees_def)
qed

lemma held_entry_Some:
  assumes "held_entry t k ms = Some i"
  shows "i < length ms" "mon_key (ms ! i) = k" "mon_owner (ms ! i) = t" "mon_depth (ms ! i) \<noteq> 0"
  using assms by (auto simp: held_entry_def dest: find_monitor_Some split: option.splits if_splits)

lemma exit_ok:
  assumes ok: "mon_ok (mon_table s) (mon_kernel s) act" and idle: "act t = Idle" and run: "monitor_exit t k s = (r, s')"
  shows "mon_ok (mon_table s') (mon_kernel s') act"
proof (cases "held_entry t k (mon_table s)")
  case None
  then show ?thesis using run ok by (simp add: monitor_exit_def)
next
  case (Some i)
  note h = held_entry_Some [OF Some]
  define m where "m = mon_table s ! i"
  define m' where "m' = m\<lparr>mon_depth := mon_depth m - 1, mon_owner := if mon_depth m - 1 = 0 then 0 else mon_owner m\<rparr>"
  obtain st where st: "mon_kernel s (mon_mutex m) = Some st" "sm_owner st = Some t" "sm_count st \<noteq> 0"
      "unat (sm_count st) = unat (mon_depth m)" "t \<noteq> 0" "\<forall>u. level_taken act m u = 0"
    using owned_mutex [OF ok idle nth_mem [OF h(1)] h(3,4)] unfolding m_def by blast
  have s': "mon_table s' = (mon_table s)[i := m']" "mon_kernel s' = (mon_kernel s)(mon_mutex m \<mapsto> mutex_recursive_unlock st)"
    using run Some st(1) by (auto simp: monitor_exit_def Let_def unlock_handle_def m_def m'_def)
  have d: "mon_depth m \<noteq> 0" "mon_owner m = t" using h by (simp_all add: m_def)
  have c: "unat (mon_depth m - 1) = unat (mon_depth m) - 1" "unat (sm_count st - 1) = unat (sm_count st) - 1"
    using d st(3) by (simp_all add: unat_minus_one)
  have lv: "level_taken act m' u = 0" for u using st(6) by (simp add: level_taken_def m'_def)
  have ag: "agrees act m' (mutex_recursive_unlock st)"
  proof (cases "1 < sm_count st")
    case True
    then have "1 < unat (mon_depth m)" using st(4) by (simp add: word_less_nat_alt)
    moreover from this have "mon_depth m - 1 \<noteq> 0" using c by (metis diff_is_0_eq not_less unat_0)
    moreover have "0 < sm_count st - 1" using True c(2) by (simp add: word_less_nat_alt)
    ultimately show ?thesis using True st c d lv
      by (simp add: agrees_def mutex_recursive_unlock_def m'_def [symmetric]) (simp add: m'_def)
  next
    case False
    then have "unat (sm_count st) = 1" using st(3) by (metis One_nat_def le_neq_implies_less linorder_not_less unat_1 unat_eq_zero word_less_nat_alt less_one)
    then have "mon_depth m - 1 = 0" using st(4) c by (metis diff_self_eq_0 unat_0 unat_eq_zero)
    then show ?thesis using False lv by (simp add: agrees_def mutex_recursive_unlock_def) (simp add: m'_def)
  qed
  show ?thesis
    unfolding s' m_def using update_quiet [OF ok idle h(1), of m'] ag by (simp add: m'_def m_def)
qed

text \<open>An entry given up completely.\<close>

lemma freed_ok:
  assumes ok: "mon_ok ms ks act" and idle: "act t = Idle" and i: "i < length ms"
    and h: "mon_owner (ms ! i) = t" "mon_depth (ms ! i) \<noteq> 0"
  shows "mon_ok (ms[i := (ms ! i)\<lparr>mon_depth := 0, mon_owner := 0\<rparr>]) (unlock_levels (mon_depth (ms ! i)) (mon_mutex (ms ! i)) ks) act"
proof -
  obtain st where st: "ks (mon_mutex (ms ! i)) = Some st" "unat (sm_count st) = unat (mon_depth (ms ! i))"
      "\<forall>u. level_taken act (ms ! i) u = 0"
    using owned_mutex [OF ok idle nth_mem [OF i] h] by blast
  have "unlock_levels (mon_depth (ms ! i)) (mon_mutex (ms ! i)) ks = ks(mon_mutex (ms ! i) \<mapsto> fresh_mutex)"
    using unlock_all [OF st(2)] h(2) st(1) by (simp add: unlock_levels_law unat_gt_0)
  moreover have "agrees act ((ms ! i)\<lparr>mon_depth := 0, mon_owner := 0\<rparr>) fresh_mutex"
    using st(3) by (simp add: agrees_def fresh_mutex_def level_taken_def)
  ultimately show ?thesis using update_quiet [OF ok idle i, of "(ms ! i)\<lparr>mon_depth := 0, mon_owner := 0\<rparr>" fresh_mutex] by simp
qed

lemma save_ok:
  assumes "mon_ok (mon_table s) (mon_kernel s) act" "act t = Idle" "save_and_release t k s = (r, s')"
  shows "mon_ok (mon_table s') (mon_kernel s') act"
proof (cases "held_entry t k (mon_table s)")
  case None
  then show ?thesis using assms by (simp add: save_and_release_def)
next
  case (Some i)
  note h = held_entry_Some [OF Some]
  show ?thesis using freed_ok [OF assms(1,2) h(1,3,4)] Some assms(3) by (auto simp: save_and_release_def Let_def)
qed

lemma release_loop_ok:
  assumes "mon_ok (pre @ ms) ks act" "act t = Idle" "release_loop t ms ks = (n, ms', ks')"
  shows "mon_ok (pre @ ms') ks' act"
  using assms
proof (induction ms arbitrary: pre ks n ms' ks')
  case (Cons m ms)
  show ?case
  proof (cases "mon_owner m = t \<and> 0 < mon_depth m")
    case True
    define m1 where "m1 = m\<lparr>mon_depth := 0, mon_owner := 0\<rparr>"
    let ?ks = "unlock_levels (mon_depth m) (mon_mutex m) ks"
    obtain n1 ms1 where r: "release_loop t ms ?ks = (n1, ms1, ks')" "ms' = m1 # ms1"
      using Cons.prems(3) True by (auto simp: m1_def split: prod.splits)
    have "mon_ok ((pre @ m # ms)[length pre := m1]) ?ks act"
      using freed_ok [OF Cons.prems(1,2), of "length pre"] True by (auto simp: m1_def)
    then have "mon_ok ((pre @ [m1]) @ ms) ?ks act" by (simp add: list_update_append)
    from Cons.IH [OF this Cons.prems(2) r(1)] r(2) show ?thesis by simp
  next
    case False
    then obtain n1 ms1 where r: "release_loop t ms ks = (n1, ms1, ks')" "ms' = m # ms1"
      using Cons.prems(3) by (auto split: prod.splits)
    have "mon_ok ((pre @ [m]) @ ms) ks act" using Cons.prems(1) by simp
    from Cons.IH [OF this Cons.prems(2) r(1)] r(2) show ?thesis by simp
  qed
qed simp

lemma release_all_ok:
  assumes "mon_ok (mon_table s) (mon_kernel s) act" "act t = Idle" "release_all_held_by_current t s = (n, s')"
  shows "mon_ok (mon_table s') (mon_kernel s') act"
  using release_loop_ok [of "[]" "mon_table s" "mon_kernel s" act t] assms
  by (auto simp: release_all_held_by_current_def split: prod.splits)

text \<open>Entering: the lookup adds at most a free entry, the kernel takes a level, and the second section records it.\<close>

lemma mon_ok_added:
  assumes ok: "mon_ok ms ks act" and new: "\<forall>m\<in>set ms. mon_key m \<noteq> k" "ks x = None"
  shows "mon_ok (ms @ [\<lparr>mon_key = k, mon_mutex = x, mon_owner = 0, mon_depth = 0\<rparr>]) (ks(x \<mapsto> fresh_mutex)) act"
proof -
  let ?m = "\<lparr>mon_key = k, mon_mutex = x, mon_owner = 0, mon_depth = 0\<rparr>"
  have x: "mon_mutex m \<noteq> x" if "m \<in> set ms" for m using mon_ok_entry [OF ok that] new(2) by force
  have lv: "level_taken act ?m t = 0" for t
  proof -
    have "act t \<noteq> Taken k x" using ok x unfolding mon_ok_def enters_def by blast
    then show ?thesis by (simp add: level_taken_def)
  qed
  have "agrees act ?m fresh_mutex" using lv by (simp add: agrees_def fresh_mutex_def)
  then have "\<exists>st. (ks(x \<mapsto> fresh_mutex)) (mon_mutex m) = Some st \<and> agrees act m st" if "m \<in> set (ms @ [?m])" for m
    using that x mon_ok_entry [OF ok] by (cases "m = ?m") (auto, metis)
  moreover have "distinct (map mon_key (ms @ [?m]))" "distinct (map mon_mutex (ms @ [?m]))"
    using ok new x by (auto simp: mon_ok_def)
  ultimately show ?thesis using ok unfolding mon_ok_def by (metis UnCI set_append)
qed

lemma mon_ok_activity:
  assumes "mon_ok ms ks act" "\<forall>k x. act t \<noteq> Taken k x" "\<forall>k x. a \<noteq> Taken k x"
    "\<forall>k x. a = Waiting k x \<longrightarrow> t \<noteq> 0 \<and> (\<exists>m\<in>set ms. mon_key m = k \<and> mon_mutex m = x)"
  shows "mon_ok ms ks (act(t := a))"
proof -
  have "level_taken (act(t := a)) m = level_taken act m" for m
    using assms(2,3) by (auto simp: level_taken_def fun_eq_iff)
  then have "agrees (act(t := a)) m st = agrees act m st" for m st by (simp add: agrees_def split: option.split)
  moreover have "enters ((act(t := a)) u) k x \<Longrightarrow> u \<noteq> 0 \<and> (\<exists>m\<in>set ms. mon_key m = k \<and> mon_mutex m = x)" for u k x
    using assms by (cases "u = t") (auto simp: enters_def mon_ok_def)
  ultimately show ?thesis using assms(1) unfolding mon_ok_def by blast
qed

lemma look_ok:
  assumes ok: "mon_ok (mon_table s) (mon_kernel s) act" and "act t = Idle" "t \<noteq> 0"
    "\<forall>x. created = Some x \<longrightarrow> mon_kernel s x = None" and run: "enter_lookup k created s = (Inr x, s')"
  shows "mon_ok (mon_table s') (mon_kernel s') (act(t := Waiting k x))"
proof -
  have "mon_ok (mon_table s') (mon_kernel s') act \<and> (\<exists>m\<in>set (mon_table s'). mon_key m = k \<and> mon_mutex m = x)"
  proof (cases "find_monitor k (mon_table s)")
    case None
    then obtain c where "created = Some c" "s' = s\<lparr>mon_table := mon_table s @ [\<lparr>mon_key = k, mon_mutex = x, mon_owner = 0, mon_depth = 0\<rparr>],
        mon_kernel := (mon_kernel s)(x \<mapsto> fresh_mutex)\<rparr>" "c = x"
      using run by (auto simp: enter_lookup_def split: option.splits)
    then show ?thesis using mon_ok_added [OF ok, of k x] None assms(4) by (simp add: find_monitor_None)
  next
    case (Some i)
    then show ?thesis using run ok find_monitor_Some [OF Some] by (auto simp: enter_lookup_def)
  qed
  then show ?thesis using assms(2,3) by (intro mon_ok_activity) auto
qed

lemma take_ok:
  assumes ok: "mon_ok ms ks act" and w: "act t = Waiting k x" and st: "ks x = Some st" "mutex_recursive_lock t st = Some st'"
    and shallow: "\<forall>m\<in>set ms. unat (mon_depth m) < 65535"
  shows "mon_ok ms (ks(x \<mapsto> st')) (act(t := Taken k x))"
proof -
  obtain i where i: "i < length ms" "mon_key (ms ! i) = k" "mon_mutex (ms ! i) = x" and t: "t \<noteq> 0"
    using ok w unfolding mon_ok_def by (metis enters_def in_set_conv_nth)
  let ?m = "ms ! i"
  have m: "?m \<in> set ms" using i by simp
  have ag: "agrees act ?m st" using mon_ok_entry [OF ok m] st(1) i(3) by auto
  have lv: "level_taken (act(t := Taken k x)) ?m t = 1" "level_taken act ?m t = 0"
    "u \<noteq> t \<Longrightarrow> level_taken (act(t := Taken k x)) ?m u = level_taken act ?m u" for u
    using w i by (simp_all add: level_taken_def)
  have "agrees (act(t := Taken k x)) ?m st'"
  proof (cases "sm_owner st")
    case None
    then have "st' = \<lparr>sm_owner = Some t, sm_count = 1\<rparr>" using st(2) by (simp add: mutex_recursive_lock_def)
    then show ?thesis using None ag lv t by (simp add: agrees_def)
  next
    case (Some u)
    then have u: "u = t" "st' = st\<lparr>sm_count := sm_count st + 1\<rparr>" using st(2) by (auto simp: mutex_recursive_lock_def split: if_splits)
    have c: "unat (sm_count st) = unat (mon_depth ?m)" using ag Some u lv by (simp add: agrees_def)
    then have "unat (sm_count st) < 65535" using shallow m by simp
    then have "unat (sm_count st + 1) = unat (sm_count st) + 1" by (intro unat_suc) simp
    moreover from this have "0 < sm_count st + 1" by (metis Suc_eq_plus1 nat.simps(3) unat_0 word_neq_0_conv)
    ultimately show ?thesis using Some u c lv ag t by (simp add: agrees_def)
  qed
  then show ?thesis
    using mon_ok_update [OF ok i(1), of ?m t "Taken k x" st'] w i t by (simp add: enters_def)
qed

lemma record_ok:
  assumes ok: "mon_ok (mon_table s) (mon_kernel s) act" and w: "act t = Taken k x" and run: "enter_record t k x s = (r, s')"
    and shallow: "\<forall>m\<in>set (mon_table s). unat (mon_depth m) < 65535"
  shows "mon_ok (mon_table s') (mon_kernel s') (act(t := Idle)) \<and> r = Inr True"
proof -
  obtain m where m: "m \<in> set (mon_table s)" "mon_key m = k" "mon_mutex m = x" and t: "t \<noteq> 0"
    using ok w unfolding mon_ok_def by (metis enters_def)
  have "distinct (map mon_key (mon_table s))" using ok by (simp add: mon_ok_def)
  then obtain i where i: "find_monitor k (mon_table s) = Some i" "i < length (mon_table s)" "mon_table s ! i = m"
    using find_monitor_entry m(1,2) by blast
  define m' where "m' = m\<lparr>mon_owner := t, mon_depth := mon_depth m + 1\<rparr>"
  have s': "mon_table s' = (mon_table s)[i := m']" "mon_kernel s' = mon_kernel s" "r = Inr True"
    using run i by (auto simp: enter_record_def m'_def)
  obtain st where st: "mon_kernel s x = Some st" "agrees act m st" using mon_ok_entry [OF ok m(1)] m(3) by auto
  have lv: "level_taken act m t = 1" using w m by (simp add: level_taken_def)
  then have own: "sm_owner st = Some t" "unat (sm_count st) = unat (mon_depth m) + 1" "\<forall>u. u \<noteq> t \<longrightarrow> level_taken act m u = 0"
  proof -
    obtain u where u: "sm_owner st = Some u" using st(2) lv by (cases "sm_owner st") (auto simp: agrees_def)
    moreover from this have "u = t" using st(2) lv by (auto simp: agrees_def)
    ultimately show "sm_owner st = Some t" "unat (sm_count st) = unat (mon_depth m) + 1" "\<forall>u. u \<noteq> t \<longrightarrow> level_taken act m u = 0"
      using st(2) lv by (simp_all add: agrees_def)
  qed
  have d: "unat (mon_depth m + 1) = unat (mon_depth m) + 1"
    using shallow m(1) by (intro unat_suc) auto
  have lv': "level_taken (act(t := Idle)) m' u = 0" for u using own(3) by (auto simp: level_taken_def m'_def split: if_splits)
  have "mon_depth m + 1 \<noteq> 0" using d by (metis Suc_eq_plus1 nat.simps(3) unat_0)
  then have "agrees (act(t := Idle)) m' st" using own d lv' st(2) t by (simp add: agrees_def m'_def)
  then have "mon_ok ((mon_table s)[i := m']) ((mon_kernel s)(x \<mapsto> st)) (act(t := Idle))"
    using mon_ok_update [OF ok i(2), of m' t Idle st] w m i by (simp add: enters_def m'_def)
  moreover have "(mon_kernel s)(x \<mapsto> st) = mon_kernel s" using st(1) by (auto simp: fun_eq_iff)
  ultimately show ?thesis using s' by simp
qed

text \<open>Pruning drops free entries that no task is about.\<close>

lemma mon_ok_dropped:
  assumes ok: "mon_ok (m # ms) ks act" and quiet: "\<forall>t x. \<not> enters (act t) (mon_key m) x"
  shows "mon_ok ms (ks(mon_mutex m := None)) act"
proof -
  have "mon_mutex m' \<noteq> mon_mutex m" if "m' \<in> set ms" for m'
  proof -
    have "mon_mutex m \<notin> mon_mutex ` set ms" using ok by (simp add: mon_ok_def)
    then show ?thesis using that by (metis imageI)
  qed
  then show ?thesis using ok quiet unfolding mon_ok_def by (fastforce simp: fun_upd_def)
qed

lemma swap_remove_mset: "i < length xs \<Longrightarrow> mset (xs ! i # snd (swap_remove xs i)) = mset xs"
  using mset_swap_remove [of i xs] by (simp add: swap_remove_def)

definition kept :: "(monitor_key \<Rightarrow> bool) \<Rightarrow> monitor \<Rightarrow> bool" where
  "kept live m \<longleftrightarrow> mon_depth m \<noteq> 0 \<or> live (mon_key m)"

lemma prune_loop_law:
  assumes "prune_loop live i ms ks = (ms', ks')" "mon_ok ms ks act" "\<forall>t k x. enters (act t) k x \<longrightarrow> live k"
    "\<forall>j<i. j < length ms \<longrightarrow> kept live (ms ! j)"
  shows "mon_ok ms' ks' act \<and> mset ms' = filter_mset (kept live) (mset ms)"
  using assms
proof (induction live i ms ks arbitrary: ms' ks' rule: prune_loop.induct)
  case (1 live i ms ks)
  consider "\<not> i < length ms" | "i < length ms" "\<not> kept live (ms ! i)" | "i < length ms" "kept live (ms ! i)" by blast
  then show ?case
  proof cases
    case 1
    then have "filter_mset (kept live) (mset ms) = mset ms" using "1.prems"(4)
      by (auto simp: filter_mset_eq_conv in_set_conv_nth)
    then show ?thesis using 1 "1.prems" by (subst (asm) prune_loop.simps) simp
  next
    case 2
    obtain rest where rest: "swap_remove ms i = (ms ! i, rest)" by (simp add: swap_remove_def)
    have dead: "mon_depth (ms ! i) = 0 \<and> \<not> live (mon_key (ms ! i))" using 2(2) by (simp add: kept_def)
    have run: "prune_loop live i rest (ks(mon_mutex (ms ! i) := None)) = (ms', ks')"
      using "1.prems"(1) 2(1) rest dead by (subst (asm) prune_loop.simps) simp
    have m: "mset (ms ! i # rest) = mset ms" using swap_remove_mset [OF 2(1)] rest by simp
    then have ok: "mon_ok rest (ks(mon_mutex (ms ! i) := None)) act"
      using "1.prems"(2,3) dead by (intro mon_ok_dropped) (metis mon_ok_mset, blast)
    have "\<forall>j<i. j < length rest \<longrightarrow> kept live (rest ! j)"
      using "1.prems"(4) 2(1) rest by (auto simp: swap_remove_def nth_butlast)
    from "1.IH"(1) [OF 2(1) dead rest [symmetric] run ok "1.prems"(3) this] have
      "mon_ok ms' ks' act \<and> mset ms' = filter_mset (kept live) (mset rest)" by simp
    moreover have "filter_mset (kept live) (mset ms) = filter_mset (kept live) (mset rest)"
      using arg_cong [OF m, of "filter_mset (kept live)"] 2(2) by simp
    ultimately show ?thesis by simp
  next
    case 3
    have "\<forall>j<i + 1. j < length ms \<longrightarrow> kept live (ms ! j)" using "1.prems"(4) 3 by (auto simp: less_Suc_eq)
    moreover have "prune_loop live (i + 1) ms ks = (ms', ks')"
      using "1.prems"(1) 3 by (subst (asm) prune_loop.simps) (auto simp: kept_def split: if_splits)
    ultimately show ?thesis using "1.IH"(2) 3 "1.prems"(2,3) by (auto simp: kept_def)
  qed
qed

lemma prune_law:
  assumes "mon_ok (mon_table s) (mon_kernel s) act" "\<forall>t k x. enters (act t) k x \<longrightarrow> live k"
  shows "mon_ok (mon_table (prune_dead live s)) (mon_kernel (prune_dead live s)) act \<and>
    set (mon_table (prune_dead live s)) = {m \<in> set (mon_table s). kept live m}"
proof -
  obtain ms ks where r: "prune_loop live 0 (mon_table s) (mon_kernel s) = (ms, ks)" by fastforce
  have law: "mon_ok ms ks act \<and> mset ms = filter_mset (kept live) (mset (mon_table s))"
    using prune_loop_law [OF r assms] by simp
  then have "set_mset (mset ms) = set_mset (filter_mset (kept live) (mset (mon_table s)))" by simp
  then have "set ms = {m \<in> set (mon_table s). kept live m}" by simp
  then show ?thesis using law r by (simp add: prune_dead_def)
qed

lemma clear_ok: "\<forall>t. act t = Idle \<Longrightarrow> mon_ok (mon_table (monitors_clear s)) (mon_kernel (monitors_clear s)) act"
  by (simp add: mon_ok_def monitors_clear_def enters_def)

section \<open>Reachable worlds\<close>

lemma step_ok:
  assumes "mstep w w'" "world_ok w" "shallow w"
  shows "world_ok w'"
  using assms(1)
proof cases
  case (look t created k x s)
  then show ?thesis using assms look_ok [of "mw_store w" "activity_of w" t created k x s] by (simp add: world_ok_def)
next
  case (taken t k x st st')
  then show ?thesis using assms take_ok [of _ "mon_kernel (mw_store w)" "activity_of w" t k x st st'] by (simp add: world_ok_def shallow_def)
next
  case (give_up t k x)
  then show ?thesis using assms mon_ok_activity [of _ _ "activity_of w" t Idle] by (simp add: world_ok_def)
next
  case (noted t k x r s)
  then show ?thesis using assms record_ok [of "mw_store w" "activity_of w" t k x r s] by (simp add: world_ok_def shallow_def)
next
  case (leave t k r s)
  then show ?thesis using assms exit_ok [of "mw_store w" "activity_of w" t k r s] by (simp add: world_ok_def)
next
  case (save t k r s)
  then show ?thesis using assms save_ok [of "mw_store w" "activity_of w" t k r s] by (simp add: world_ok_def)
next
  case (release_all t n s)
  then show ?thesis using assms release_all_ok [of "mw_store w" "activity_of w" t n s] by (simp add: world_ok_def)
next
  case (prune live)
  then show ?thesis using assms prune_law [of "mw_store w" "activity_of w" live] by (auto simp: world_ok_def entering_enters)
next
  case clear
  then show ?thesis using clear_ok [of "activity_of w" "mw_store w"] by (simp add: world_ok_def)
qed

lemma reach_ok: "mreach w \<Longrightarrow> world_ok w"
proof (induction rule: mreach.induct)
  case start
  show ?case by (simp add: world_ok_def mon_ok_def monitors_new_def enters_def)
qed (blast intro: step_ok)

section \<open>Who holds what\<close>

text \<open>The table as a map from keys to an owner and a depth.\<close>

definition holder :: "monitor list \<Rightarrow> monitor_key \<Rightarrow> (nat \<times> nat) option" where
  "holder ms k =
     (case find_monitor k ms of
        None \<Rightarrow> None
      | Some i \<Rightarrow> if mon_depth (ms ! i) = 0 then None else Some (mon_owner (ms ! i), unat (mon_depth (ms ! i))))"

lemma holder_entry:
  assumes "distinct (map mon_key ms)" "m \<in> set ms"
  shows "holder ms (mon_key m) = (if mon_depth m = 0 then None else Some (mon_owner m, unat (mon_depth m)))"
proof -
  obtain i where "find_monitor (mon_key m) ms = Some i" "ms ! i = m" using find_monitor_entry [OF assms] by blast
  then show ?thesis by (simp add: holder_def)
qed

lemma holder_Some:
  assumes "distinct (map mon_key ms)"
  shows "holder ms k = Some (t, n) \<longleftrightarrow> (\<exists>m\<in>set ms. mon_key m = k \<and> mon_depth m \<noteq> 0 \<and> mon_owner m = t \<and> unat (mon_depth m) = n)"
proof
  assume "holder ms k = Some (t, n)"
  then show "\<exists>m\<in>set ms. mon_key m = k \<and> mon_depth m \<noteq> 0 \<and> mon_owner m = t \<and> unat (mon_depth m) = n"
    by (auto simp: holder_def dest: find_monitor_Some split: option.splits if_splits intro!: bexI nth_mem)
next
  assume "\<exists>m\<in>set ms. mon_key m = k \<and> mon_depth m \<noteq> 0 \<and> mon_owner m = t \<and> unat (mon_depth m) = n"
  then show "holder ms k = Some (t, n)" using holder_entry [OF assms] by force
qed

lemma holder_update:
  assumes "distinct (map mon_key ms)" "i < length ms" "mon_key m = mon_key (ms ! i)"
  shows "holder (ms[i := m]) = (holder ms)(mon_key m := if mon_depth m = 0 then None else Some (mon_owner m, unat (mon_depth m)))"
proof -
  have keys: "map mon_key (ms[i := m]) = map mon_key ms"
    using assms by (metis list_update_id map_update)
  then have d: "distinct (map mon_key (ms[i := m]))" using assms(1) by simp
  have "find_monitor k (ms[i := m]) = find_monitor k ms" for k
  proof -
    have "position (\<lambda>m. mon_key m = k) xs = position (\<lambda>y. y = k) (map mon_key xs)" for xs :: "monitor list"
      by (induction xs) auto
    then show ?thesis using keys by (simp add: find_monitor_def)
  qed
  moreover have "find_monitor (mon_key m) ms = Some i"
    using find_monitor_entry [OF assms(1) nth_mem [OF assms(2)]] assms
    by (metis distinct_map find_monitor_Some length_map nth_eq_iff_index_eq nth_map)
  moreover have "j \<noteq> i" if "find_monitor k ms = Some j" "k \<noteq> mon_key m" for k j
    using that find_monitor_Some assms(3) by metis
  ultimately show ?thesis using assms(2)
  proof (intro ext)
    fix k
    assume f: "\<And>k. find_monitor k (ms[i := m]) = find_monitor k ms" "find_monitor (mon_key m) ms = Some i"
      and n: "\<And>k j. find_monitor k ms = Some j \<Longrightarrow> k \<noteq> mon_key m \<Longrightarrow> j \<noteq> i" and i: "i < length ms"
    show "holder (ms[i := m]) k =
        ((holder ms)(mon_key m := if mon_depth m = 0 then None else Some (mon_owner m, unat (mon_depth m)))) k"
    proof (cases "k = mon_key m")
      case True
      then show ?thesis using f i by (simp add: holder_def)
    next
      case False
      then show ?thesis using f n [of k] by (cases "find_monitor k ms") (auto simp: holder_def)
    qed
  qed
qed

lemma held_holder:
  assumes "distinct (map mon_key ms)"
  shows "held_entry t k ms = Some i \<Longrightarrow> holder ms k = Some (t, unat (mon_depth (ms ! i)))"
    "held_entry t k ms = None \<Longrightarrow> holder ms k = Some (u, n) \<Longrightarrow> u \<noteq> t"
  by (auto simp: held_entry_def holder_def split: option.splits if_splits)

lemma held_by_holder:
  assumes "distinct (map mon_key (mon_table s))"
  shows "held_by_current t k s \<longleftrightarrow> (\<exists>n. holder (mon_table s) k = Some (t, n))"
  using holder_Some [OF assms] by (auto simp: held_by_current_def list_ex_iff word_neq_0_conv)

lemma exit_law:
  assumes d: "distinct (map mon_key (mon_table s))"
  shows "case holder (mon_table s) k of
      Some (u, n) \<Rightarrow> if u = t
        then \<exists>s'. monitor_exit t k s = (Inr (), s') \<and>
          holder (mon_table s') = (holder (mon_table s))(k := if n = 1 then None else Some (t, n - 1))
        else monitor_exit t k s = (Inl IllegalMonitorState, s)
    | None \<Rightarrow> monitor_exit t k s = (Inl IllegalMonitorState, s)"
proof (cases "held_entry t k (mon_table s)")
  case None
  then show ?thesis using held_holder(2) [OF d None] by (auto simp: monitor_exit_def split: option.split)
next
  case (Some i)
  note h = held_entry_Some [OF Some]
  let ?m = "mon_table s ! i"
  have n: "unat (mon_depth ?m - 1) = unat (mon_depth ?m) - 1" "unat (mon_depth ?m) \<noteq> 0"
    using h(4) by (simp add: unat_minus_one, simp add: unat_eq_zero)
  then have "mon_depth ?m - 1 = 0 \<longleftrightarrow> unat (mon_depth ?m) = 1"
    by (metis One_nat_def Suc_pred diff_self_eq_0 not_gr_zero unat_eq_zero)
  then show ?thesis using held_holder(1) [OF d Some] Some h n
    by (auto simp: monitor_exit_def Let_def holder_update [OF d] fun_eq_iff)
qed

lemma save_law:
  assumes d: "distinct (map mon_key (mon_table s))"
  shows "case holder (mon_table s) k of
      Some (u, n) \<Rightarrow> if u = t
        then \<exists>s' r. save_and_release t k s = (Inr r, s') \<and> unat r = n \<and> holder (mon_table s') = (holder (mon_table s))(k := None)
        else save_and_release t k s = (Inl IllegalMonitorState, s)
    | None \<Rightarrow> save_and_release t k s = (Inl IllegalMonitorState, s)"
proof (cases "held_entry t k (mon_table s)")
  case None
  then show ?thesis using held_holder(2) [OF d None] by (auto simp: save_and_release_def split: option.split)
next
  case (Some i)
  then show ?thesis using held_holder(1) [OF d Some] held_entry_Some [OF Some]
    by (auto simp: save_and_release_def Let_def holder_update [OF d])
qed

lemma record_law:
  assumes d: "distinct (map mon_key (mon_table s))" and m: "m \<in> set (mon_table s)" "mon_key m = k"
    and n: "unat (mon_depth m) < 65535" and run: "enter_record t k x s = (r, s')"
  shows "holder (mon_table s') = (holder (mon_table s))(k \<mapsto> (t, unat (mon_depth m) + 1))"
proof -
  obtain i where i: "find_monitor k (mon_table s) = Some i" "i < length (mon_table s)" "mon_table s ! i = m"
    using find_monitor_entry [OF d m(1)] m(2) by blast
  have "unat (mon_depth m + 1) = unat (mon_depth m) + 1" using n by (intro unat_suc) simp
  moreover from this have "mon_depth m + 1 \<noteq> 0" by (metis Suc_eq_plus1 nat.simps(3) unat_0)
  ultimately show ?thesis using run i m(2) by (auto simp: enter_record_def holder_update [OF d])
qed

lemma release_loop_table:
  "release_loop t ms ks = (n, ms', ks') \<Longrightarrow>
     ms' = map (\<lambda>m. if mon_owner m = t \<and> mon_depth m \<noteq> 0 then m\<lparr>mon_depth := 0, mon_owner := 0\<rparr> else m) ms \<and>
     n = sum_list (map (\<lambda>m. if mon_owner m = t then unat (mon_depth m) else 0) ms)"
proof (induction ms arbitrary: ks n ms' ks')
  case (Cons m ms)
  show ?case
  proof (cases "mon_owner m = t \<and> 0 < mon_depth m")
    case True
    obtain q where q: "release_loop t ms (unlock_levels (mon_depth m) (mon_mutex m) ks) = q" by blast
    with Cons.prems True Cons.IH [of "unlock_levels (mon_depth m) (mon_mutex m) ks"] show ?thesis
      by (cases q) (auto simp: word_neq_0_conv)
  next
    case False
    obtain q where q: "release_loop t ms ks = q" by blast
    have "mon_owner m = t \<Longrightarrow> mon_depth m = 0" using False by (metis word_neq_0_conv)
    with q Cons.prems False Cons.IH [of ks] show ?thesis by (cases q) auto
  qed
qed simp

lemma release_all_law:
  assumes d: "distinct (map mon_key (mon_table s))" and run: "release_all_held_by_current t s = (n, s')"
  shows "holder (mon_table s') k =
    (case holder (mon_table s) k of Some (u, j) \<Rightarrow> if u = t then None else Some (u, j) | None \<Rightarrow> None)"
proof -
  define g :: "monitor \<Rightarrow> monitor" where "g = (\<lambda>m. if mon_owner m = t \<and> mon_depth m \<noteq> 0 then m\<lparr>mon_depth := 0, mon_owner := 0\<rparr> else m)"
  have t: "mon_table s' = map g (mon_table s)"
    using run release_loop_table by (auto simp: release_all_held_by_current_def g_def split: prod.splits)
  have "map mon_key (map g (mon_table s)) = map mon_key (mon_table s)" by (simp add: g_def)
  then have d': "distinct (map mon_key (mon_table s'))" using d t by metis
  have "holder (mon_table s') k = Some (u, j) \<longleftrightarrow> holder (mon_table s) k = Some (u, j) \<and> u \<noteq> t" for u j
    by (subst holder_Some [OF d'], subst holder_Some [OF d]) (auto simp: t g_def split: if_splits)
  then show ?thesis
    by (cases "holder (mon_table s') k"; cases "holder (mon_table s) k") (auto split: if_splits, metis)
qed

section \<open>The contract of the run loop\<close>

text \<open>How many of the frames hold the monitor.\<close>

definition frame_levels :: "frame list \<Rightarrow> monitor_key \<Rightarrow> nat" where
  "frame_levels fs k = length (filter (\<lambda>f. monitor f = Some k) fs)"

lemma frame_levels_simps [simp]:
  "frame_levels [] k = 0"
  "frame_levels (f # fs) k = (if monitor f = Some k then 1 else 0) + frame_levels fs k"
  "frame_levels (fs @ gs) k = frame_levels fs k + frame_levels gs k"
  by (simp_all add: frame_levels_def)

lemma frame_levels_rev [simp]: "frame_levels (rev fs) k = frame_levels fs k"
  by (induction fs) auto

text \<open>What unwinding needs of the monitors: a release of a held level succeeds and gives back exactly that level.\<close>

locale monitor_contract =
  fixes mo :: "'h handler_ops"
    and sound :: "'h \<Rightarrow> bool"
    and levels :: "'h \<Rightarrow> monitor_key \<Rightarrow> nat"
  assumes exit_held: "sound h \<Longrightarrow> 0 < levels h k \<Longrightarrow>
    \<exists>h'. mo_exit mo k h = (Inr (), h') \<and> sound h' \<and> levels h' = (levels h)(k := levels h k - 1)"
begin

lemma release_frames:
  assumes "sound h" "\<forall>k. frame_levels fs k \<le> levels h k"
  shows "sound (fold (release mo) fs h) \<and> (\<forall>k. levels (fold (release mo) fs h) k = levels h k - frame_levels fs k)"
  using assms
proof (induction fs arbitrary: h)
  case (Cons f fs)
  show ?case
  proof (cases "monitor f")
    case None
    then have "\<forall>k. frame_levels fs k \<le> levels h k" using Cons.prems(2) by simp
    from Cons.IH [OF Cons.prems(1) this] None show ?thesis by (simp add: release_def)
  next
    case (Some k)
    then have "0 < levels h k" using Cons.prems(2) [rule_format, of k] by simp
    then obtain h' where h': "mo_exit mo k h = (Inr (), h')" "sound h'" "levels h' = (levels h)(k := levels h k - 1)"
      using exit_held [OF Cons.prems(1)] by blast
    have "frame_levels fs j \<le> levels h' j" for j
      using Cons.prems(2)[rule_format, of j] Some h'(3) by (cases "j = k") auto
    from Cons.IH [OF h'(2)] this Some h' show ?thesis by (auto simp: release_def)
  qed
qed simp

text \<open>The levels that are not those of frames on the stack stay, and every frame left keeps its level.\<close>

lemma unwound_balance:
  assumes u: "unwound mo lo v w" and s: "sound (ex_handler v)" and b: "\<forall>k. frame_levels (ex_frames v) k \<le> levels (ex_handler v) k"
  shows "sound (ex_handler w) \<and> (\<forall>k. frame_levels (ex_frames w) k \<le> levels (ex_handler w) k \<and>
    levels (ex_handler w) k + frame_levels (ex_frames v) k = levels (ex_handler v) k + frame_levels (ex_frames w) k)"
proof -
  obtain n where n: "n \<le> length (ex_frames v)" "ex_handler w = fold (release mo) (rev (drop n (ex_frames v))) (ex_handler v)"
    "ex_frames w = take n (ex_frames v) \<or>
      (\<exists>i g. n = Suc i \<and> resumed (ex_frames v ! i) g \<and> ex_frames w = take i (ex_frames v) @ [g])"
    using u unfolding unwound_def Let_def by blast
  have split: "frame_levels (ex_frames v) k = frame_levels (take n (ex_frames v)) k + frame_levels (drop n (ex_frames v)) k" for k
    using frame_levels_simps(3) [of "take n (ex_frames v)" "drop n (ex_frames v)"] by simp
  have kept: "frame_levels (ex_frames w) k = frame_levels (take n (ex_frames v)) k" for k
    using n(3)
  proof (elim disjE exE conjE)
    fix i g
    assume i: "n = Suc i" "resumed (ex_frames v ! i) g" "ex_frames w = take i (ex_frames v) @ [g]"
    then have "take n (ex_frames v) = take i (ex_frames v) @ [ex_frames v ! i]" using n(1) by (simp add: take_Suc_conv_app_nth)
    then show ?thesis using i by (simp add: resumed_def)
  qed simp
  have "\<forall>k. frame_levels (rev (drop n (ex_frames v))) k \<le> levels (ex_handler v) k" using b split by (metis add_leD2 frame_levels_rev)
  from release_frames [OF s this] n(2) have r: "sound (ex_handler w)"
    "levels (ex_handler w) k = levels (ex_handler v) k - frame_levels (drop n (ex_frames v)) k" for k by simp_all
  have "frame_levels (ex_frames w) k \<le> levels (ex_handler w) k \<and>
      levels (ex_handler w) k + frame_levels (ex_frames v) k = levels (ex_handler v) k + frame_levels (ex_frames w) k" for k
    using b [rule_format, of k] split [of k] kept [of k] r(2) [of k] by simp
  then show ?thesis using r(1) by blast
qed

end

text \<open>The store provides it to any task that is not in the middle of an entry.\<close>

definition store_sound :: "nat \<Rightarrow> monitor_store \<Rightarrow> bool" where
  "store_sound t s \<longleftrightarrow> (\<exists>act. mon_ok (mon_table s) (mon_kernel s) act \<and> act t = Idle)"

definition task_levels :: "nat \<Rightarrow> monitor_store \<Rightarrow> monitor_key \<Rightarrow> nat" where
  "task_levels t s k = (case holder (mon_table s) k of None \<Rightarrow> 0 | Some (u, n) \<Rightarrow> if u = t then n else 0)"

definition with_store :: "nat \<Rightarrow> monitor_store handler_ops \<Rightarrow> monitor_store handler_ops" where
  "with_store t mo = mo\<lparr>mo_exit := monitor_exit t\<rparr>"

interpretation store: monitor_contract "with_store t mo" "store_sound t" "task_levels t" for t mo
proof
  fix h k
  assume s: "store_sound t h" and l: "0 < task_levels t h k"
  obtain act where act: "mon_ok (mon_table h) (mon_kernel h) act" "act t = Idle" using s by (auto simp: store_sound_def)
  have d: "distinct (map mon_key (mon_table h))" using act(1) by (simp add: mon_ok_def)
  obtain n where n: "holder (mon_table h) k = Some (t, n)"
    using l by (auto simp: task_levels_def split: option.splits if_splits)
  with exit_law [OF d, where k = k and t = t] obtain h' where h': "monitor_exit t k h = (Inr (), h')"
    "holder (mon_table h') = (holder (mon_table h))(k := if n = 1 then None else Some (t, n - 1))" by auto
  have "store_sound t h'" using exit_ok [OF act h'(1)] act(2) by (auto simp: store_sound_def)
  moreover have "task_levels t h' = (task_levels t h)(k := task_levels t h k - 1)"
    using h'(2) n by (auto simp: task_levels_def fun_eq_iff)
  ultimately show "\<exists>h'. mo_exit (with_store t mo) k h = (Inr (), h') \<and> store_sound t h' \<and>
      task_levels t h' = (task_levels t h)(k := task_levels t h k - 1)"
    using h'(1) by (simp add: with_store_def)
qed

section \<open>Properties\<close>



text \<open>
  C13: seen as a map from keys to an owner and a depth, the table changes exactly as the operations say: an exit by the
  owner takes one level off, anyone else's fails and changes nothing; a wait gives the monitor up with its depth;
  recording a level sets the owner and adds one; a leaving task loses all its monitors and no
  one else's; and a collection changes nothing that is held.
\<close>

theorem monitor_ops_refine:
  assumes "mreach w"
  shows "let s = mw_store w; held = holder (mon_table s) in
    (\<forall>t k x s' r. shallow w \<and> activity_of w t = Taken k x \<and> enter_record t k x s = (r, s') \<longrightarrow>
      holder (mon_table s') = held(k \<mapsto> (t, 1 + (case held k of Some (u, n) \<Rightarrow> n | None \<Rightarrow> 0)))) \<and>
    (\<forall>t k s' r. monitor_exit t k s = (r, s') \<longrightarrow>
      (case held k of
         Some (u, n) \<Rightarrow> if u = t then r = Inr () \<and> holder (mon_table s') = held(k := if n = 1 then None else Some (t, n - 1))
           else r = Inl IllegalMonitorState \<and> s' = s
       | None \<Rightarrow> r = Inl IllegalMonitorState \<and> s' = s)) \<and>
    (\<forall>t k s' r. save_and_release t k s = (r, s') \<longrightarrow>
      (case held k of
         Some (u, n) \<Rightarrow> if u = t then map_sum id unat r = Inr n \<and> holder (mon_table s') = held(k := None)
           else r = Inl IllegalMonitorState \<and> s' = s
       | None \<Rightarrow> r = Inl IllegalMonitorState \<and> s' = s)) \<and>
    (\<forall>t s' n k. release_all_held_by_current t s = (n, s') \<longrightarrow>
      holder (mon_table s') k = (case held k of Some (u, j) \<Rightarrow> if u = t then None else Some (u, j) | None \<Rightarrow> None)) \<and>
    (\<forall>live. (\<forall>u k x. entering w u k x \<longrightarrow> live k) \<longrightarrow> holder (mon_table (prune_dead live s)) = held)"
proof -
  let ?s = "mw_store w" and ?h = "holder (mon_table (mw_store w))"
  have ok: "mon_ok (mon_table ?s) (mon_kernel ?s) (activity_of w)" using reach_ok [OF assms(1)] by (simp add: world_ok_def)
  then have d: "distinct (map mon_key (mon_table ?s))" by (simp add: mon_ok_def)
  have pr: "holder (mon_table (prune_dead live ?s)) = ?h"
    if l: "\<forall>u k x. entering w u k x \<longrightarrow> live k" for live
  proof
    fix k
    have p: "mon_ok (mon_table (prune_dead live ?s)) (mon_kernel (prune_dead live ?s)) (activity_of w)"
      "set (mon_table (prune_dead live ?s)) = {m \<in> set (mon_table ?s). kept live m}"
      using prune_law [OF ok] l by (auto simp: entering_enters)
    then have d': "distinct (map mon_key (mon_table (prune_dead live ?s)))" by (simp add: mon_ok_def)
    have "holder (mon_table (prune_dead live ?s)) k = Some (u, n) \<longleftrightarrow> holder (mon_table ?s) k = Some (u, n)" for u n
      unfolding holder_Some [OF d] holder_Some [OF d'] p(2) kept_def by blast
    then show "holder (mon_table (prune_dead live ?s)) k = holder (mon_table ?s) k"
      by (cases "holder (mon_table ?s) k"; cases "holder (mon_table (prune_dead live ?s)) k") auto
  qed
  have rc: "holder (mon_table s') = ?h(k \<mapsto> (t, 1 + (case ?h k of Some (u, n) \<Rightarrow> n | None \<Rightarrow> 0)))"
    if e: "shallow w" "activity_of w t = Taken k x" "enter_record t k x ?s = (r, s')" for t k x s' r
  proof -
    obtain m where m: "m \<in> set (mon_table ?s)" "mon_key m = k"
      using ok e(2) unfolding mon_ok_def by (metis enters_def)
    have "unat (mon_depth m) < 65535" using e(1) m(1) by (simp add: shallow_def)
    from record_law [OF d m this e(3)] show ?thesis using holder_entry [OF d m(1)] m(2) by simp
  qed
  have ex: "case ?h k of
         Some (u, n) \<Rightarrow> if u = t then r = Inr () \<and> holder (mon_table s') = ?h(k := if n = 1 then None else Some (t, n - 1))
           else r = Inl IllegalMonitorState \<and> s' = ?s
       | None \<Rightarrow> r = Inl IllegalMonitorState \<and> s' = ?s"
    if "monitor_exit t k ?s = (r, s')" for t k s' r
    using exit_law [OF d, where k = k and t = t] that by (cases "?h k") (auto split: if_splits)
  have sv: "case ?h k of
         Some (u, n) \<Rightarrow> if u = t then map_sum id unat r = Inr n \<and> holder (mon_table s') = ?h(k := None)
           else r = Inl IllegalMonitorState \<and> s' = ?s
       | None \<Rightarrow> r = Inl IllegalMonitorState \<and> s' = ?s"
    if "save_and_release t k ?s = (r, s')" for t k s' r
    using save_law [OF d, where k = k and t = t] that by (cases "?h k") (auto split: if_splits)
  show ?thesis
    unfolding Let_def
    by (intro conjI allI impI; (elim conjE)?; rule rc ex sv pr release_all_law [OF d]; assumption)
qed

text \<open>
  C14: unwinding is balanced: if a task holds at least the monitors of its synchronized frames when an exception is
  handled, then afterwards it holds those of the frames that are left, and of every monitor
  exactly as many levels fewer as frames that held it are gone.
\<close>

theorem unwinding_balances_monitors:
  assumes "handle_exception al (with_store t mo) cs lo obj v = Some (r, w)" and "lo \<le> length (ex_frames v)"
    and "store_sound t (ex_handler v)" and "\<forall>k. frame_levels (ex_frames v) k \<le> task_levels t (ex_handler v) k"
  shows "store_sound t (ex_handler w) \<and>
    (\<forall>k. frame_levels (ex_frames w) k \<le> task_levels t (ex_handler w) k \<and>
      task_levels t (ex_handler w) k + frame_levels (ex_frames v) k = task_levels t (ex_handler v) k + frame_levels (ex_frames w) k)"
  by (rule store.unwound_balance [OF handle_unwinds [OF assms(1,2)] assms(3,4)])

text \<open>
  C15: the depth is a 16-bit count that wraps: the 65536th level of a monitor that a task enters makes it look
  free, although the task still owns the mutex, and the exits that balance the entries fail.
\<close>

theorem depth_wraps_at_65536:
  assumes "distinct (map mon_key (mon_table s))" and "m \<in> set (mon_table s)" and "mon_depth m = 0xFFFF"
    and "enter_record t (mon_key m) x s = (r, s')"
  shows "r = Inr True \<and> \<not> held_by_current t (mon_key m) s' \<and>
    monitor_exit t (mon_key m) s' = (Inl IllegalMonitorState, s')"
proof -
  obtain i where i: "find_monitor (mon_key m) (mon_table s) = Some i" "i < length (mon_table s)" "mon_table s ! i = m"
    using find_monitor_entry [OF assms(1,2)] by blast
  let ?m = "m\<lparr>mon_owner := t, mon_depth := mon_depth m + 1\<rparr>"
  have s': "r = Inr True" "mon_table s' = (mon_table s)[i := ?m]" using assms(4) i by (auto simp: enter_record_def)
  have h: "holder (mon_table s') (mon_key m) = None"
    unfolding s'(2) using holder_update [OF assms(1) i(2), of ?m] i(3) assms(3) by simp
  have "map mon_key (mon_table s') = map mon_key (mon_table s)"
    unfolding s'(2) map_update using i(2,3) by (simp add: list_update_same_conv)
  then have d: "distinct (map mon_key (mon_table s'))" using assms(1) by simp
  show ?thesis using s'(1) h held_by_holder [OF d] exit_law [OF d, where k = "mon_key m" and t = t] by simp
qed

section \<open>An example\<close>

text \<open>Task 1 has entered the monitor of the object 7, and task 2 waits for it.\<close>

definition monitor_7 :: monitor where
  "monitor_7 = \<lparr>mon_key = KObject 7, mon_mutex = 1, mon_owner = 1, mon_depth = 1\<rparr>"

definition held_store :: monitor_store where
  "held_store = \<lparr>mon_table = [monitor_7], mon_kernel = [1 \<mapsto> \<lparr>sm_owner = Some 1, sm_count = 1\<rparr>]\<rparr>"

definition held_world :: monitor_world where
  "held_world = \<lparr>mw_store = held_store, activity_of = (\<lambda>_. Idle)(2 := Waiting (KObject 7) 1)\<rparr>"

lemma held_world_reached: "mreach held_world"
proof -
  let ?k = "KObject 7"
  define free where "free = \<lparr>mon_key = ?k, mon_mutex = 1, mon_owner = 0, mon_depth = 0\<rparr>"
  define s1 where "s1 = \<lparr>mon_table = [free], mon_kernel = [1 \<mapsto> fresh_mutex]\<rparr>"
  define s2 where "s2 = s1\<lparr>mon_kernel := [1 \<mapsto> \<lparr>sm_owner = Some 1, sm_count = 1\<rparr>]\<rparr>"
  have 1: "mreach \<lparr>mw_store = s1, activity_of = (\<lambda>_. Idle)(1 := Waiting ?k 1)\<rparr>"
    using mreach.step [OF mreach.start _ mstep.look [where t = 1 and created = "Some 1" and k = ?k and x = 1 and s = s1]]
    by (simp add: shallow_def monitors_new_def enter_lookup_def find_monitor_def s1_def free_def)
  have 2: "mreach \<lparr>mw_store = s2, activity_of = (\<lambda>_. Idle)(1 := Taken ?k 1)\<rparr>"
    using mreach.step [OF 1 _ mstep.taken [where t = 1 and k = ?k and x = 1 and st = fresh_mutex and st' = "\<lparr>sm_owner = Some 1, sm_count = 1\<rparr>"]]
    by (simp add: shallow_def s1_def s2_def free_def mutex_recursive_lock_def fresh_mutex_def)
  have 3: "mreach \<lparr>mw_store = held_store, activity_of = (\<lambda>_. Idle)\<rparr>"
    using mreach.step [OF 2 _ mstep.noted [where t = 1 and k = ?k and x = 1 and r = "Inr True" and s = held_store]]
    by (simp add: shallow_def s1_def s2_def free_def held_store_def monitor_7_def enter_record_def find_monitor_def fun_upd_idem)
  show ?thesis
    unfolding held_world_def
    using mreach.step [OF 3 _ mstep.look [where t = 2 and created = None and k = ?k and x = 1 and s = held_store]]
    by (simp add: shallow_def held_store_def monitor_7_def enter_lookup_def find_monitor_def)
qed



lemma held_holder_7: "holder (mon_table held_store) = [KObject 7 \<mapsto> (1, 1)]"
  by (auto simp: fun_eq_iff holder_def find_monitor_def held_store_def monitor_7_def)

theorem monitor_ops_refine_witness:
  "(\<exists>s'. monitor_exit 1 (KObject 7) held_store = (Inr (), s') \<and> holder (mon_table s') = Map.empty) \<and>
    monitor_exit 2 (KObject 7) held_store = (Inl IllegalMonitorState, held_store)"
proof -
  have w: "mw_store held_world = held_store" by (simp add: held_world_def)
  obtain r s' where r: "monitor_exit 1 (KObject 7) held_store = (r, s')" by fastforce
  obtain r2 s2 where r2: "monitor_exit 2 (KObject 7) held_store = (r2, s2)" by fastforce
  have "\<forall>t k s' r. monitor_exit t k held_store = (r, s') \<longrightarrow>
      (case holder (mon_table held_store) k of
         Some (u, n) \<Rightarrow> if u = t then r = Inr () \<and> holder (mon_table s') = (holder (mon_table held_store))(k := if n = 1 then None else Some (t, n - 1))
           else r = Inl IllegalMonitorState \<and> s' = held_store
       | None \<Rightarrow> r = Inl IllegalMonitorState \<and> s' = held_store)"
    using monitor_ops_refine [OF held_world_reached] unfolding Let_def w by (elim conjE)
  from this [rule_format, OF r] this [rule_format, OF r2] show ?thesis using r r2 by (simp add: held_holder_7)
qed

text \<open>Task 1 again, its synchronized frame unwound.\<close>

definition executor_M :: "monitor_store executor" where
  "executor_M = \<lparr>ex_frames = [guarded_frame, synchronized_frame], ex_frames_cap = 4,
     ex_heaps = \<lparr>h_objects = small_object_heap, h_stores = stores_new, h_arrays = ah_new 2 0, h_strings = st_new 2\<rparr>,
     ex_gc = gc_new, ex_statics = statics_new, ex_class_objects = class_objects_new, ex_pool = pool_new,
     ex_pending = None, ex_clinits = [], ex_insns = 0, ex_own = 0, ex_handler = held_store\<rparr>"

definition quiet_ops :: "monitor_store handler_ops" where
  "quiet_ops = \<lparr>mo_enter = (\<lambda>k h. (Inr (), h)), mo_exit = (\<lambda>k h. (Inr (), h)), native_roots = (\<lambda>_. []),
     native_prune = (\<lambda>_ h. h), stop_asked = (\<lambda>_. False)\<rparr>"

theorem unwinding_balances_monitors_witness:
  "\<exists>w. handle_exception (\<lambda>_ _. True) (with_store 1 quiet_ops) classes_H 0 1 executor_M = Some (Inr (), w) \<and>
    task_levels 1 held_store (KObject 7) = 1 \<and> task_levels 1 (ex_handler w) (KObject 7) = 0"
proof -
  have v: "ex_frames executor_M = [guarded_frame, synchronized_frame]" "ex_objects executor_M = small_object_heap"
    "ex_handler executor_M = held_store"
    by (simp_all add: executor_M_def)
  have t: "topmost (\<lambda>f. handler_at classes_H (ex_objects executor_M) 1 f \<noteq> None) 0 (ex_frames executor_M) (Some 0)"
    and f: "\<forall>f\<in>set (drop 0 (ex_frames executor_M)). frame_valid classes_H f"
    and c: "\<forall>f\<in>set (drop (0 + 1) (ex_frames executor_M)). \<not> is_clinit classes_H f"
    by (auto simp: topmost_def v frames_H_handlers less_Suc_eq frame_valid_def frames_H_methods frames_H_clinit)
  obtain w where w: "handle_exception (\<lambda>_ _. True) (with_store 1 quiet_ops) classes_H 0 1 executor_M = Some (Inr (), w)"
      "ex_frames w = [guarded_frame\<lparr>stack := [VObjectRef 1], pc := the (handler_at classes_H (ex_objects executor_M) 1 guarded_frame)\<rparr>]"
    using caught_law [OF classes_H_hierarchy _ f t, of "\<lambda>_ _. True" "with_store 1 quiet_ops"] c
    by (auto simp: v) (auto simp: guarded_frame_def make_frame_def)
  have l: "task_levels 1 held_store k = (if k = KObject 7 then 1 else 0)" for k
    by (simp add: task_levels_def held_holder_7)
  note l' = l [unfolded One_nat_def]
  have "store_sound 1 held_store"
    using reach_ok [OF held_world_reached]
    by (auto simp: store_sound_def world_ok_def held_world_def intro!: exI [of _ "(\<lambda>_. Idle)(2 := Waiting (KObject 7) 1)"])
  moreover have "\<forall>k. frame_levels (ex_frames executor_M) k \<le> task_levels 1 held_store k"
    by (simp add: v l l' guarded_frame_def synchronized_frame_def make_frame_def)
  ultimately have b: "frame_levels (ex_frames w) (KObject 7) \<le> task_levels 1 (ex_handler w) (KObject 7) \<and>
      task_levels 1 (ex_handler w) (KObject 7) + frame_levels (ex_frames executor_M) (KObject 7) =
      task_levels 1 held_store (KObject 7) + frame_levels (ex_frames w) (KObject 7)"
    using unwinding_balances_monitors [OF w(1)] by (simp add: v)
  have "frame_levels (ex_frames w) (KObject 7) = 0"
    by (simp add: w(2) guarded_frame_def make_frame_def)
  then show ?thesis using w(1) b l l' by (auto simp: v guarded_frame_def synchronized_frame_def make_frame_def)
qed

text \<open>A store in which task 1 has entered the object 7 at every level the count has.\<close>

theorem depth_wraps_at_65536_witness:
  "\<exists>s'. enter_record 1 (KObject 7) 1 (held_store\<lparr>mon_table := [monitor_7\<lparr>mon_depth := 0xFFFF\<rparr>]\<rparr>) = (Inr True, s') \<and>
    monitor_exit 1 (KObject 7) s' = (Inl IllegalMonitorState, s')"
proof -
  let ?m = "monitor_7\<lparr>mon_depth := 0xFFFF\<rparr>" and ?s = "held_store\<lparr>mon_table := [monitor_7\<lparr>mon_depth := 0xFFFF\<rparr>]\<rparr>"
  obtain r s' where r: "enter_record 1 (mon_key ?m) 1 ?s = (r, s')" by fastforce
  from depth_wraps_at_65536 [OF _ _ _ r] show ?thesis using r by (simp add: monitor_7_def)
qed

end
