(* ===== verification/Spec2Isabelle.thy ===== *)
theory Spec2Isabelle
  imports Prelude JvmTypes JvmFrame ChunkedSlots SortKeys CompactSlice Compaction ArrayHeap ArrayHeapLaws ObjectHeap ObjectHeapLaws SideStores SideStoreLaws
    Literals NumFmt Strings StringLaws Floats Machine OpsStack OpsMath OpsMathLaws OpsFlow CheckCode CheckCodeLaws SwitchLaws
    Statics MapStore MapStoreLaws Collector CollectorLaws SweepLaws CollectorSafety Heap4 Heap4Laws
    LinkTable ClassFiles ClassFileLaws Hierarchy HierarchyLaws Unwind UnwindLaws RunLoop RunLoopLaws Monitors MonitorLaws
begin

text \<open>
  A model of the Java virtual machine of picodroid, a JVM for microcontrollers written in Rust, with
  the theorems that make its parts correct.

  The program. Classes are linked when an application is packed: \<open>crates/class-link\<close> derives a table
  per class, read in place from flash, and checks the bytecode; an install checks again. The runtime,
  \<open>crates/jvm\<close>, interprets the bytecode over one shared heap in three parts (objects, arrays and
  strings) with side stores for the buffers of collections, builders, iterators, lambdas and
  exceptions. A mark-sweep collector runs when an allocation is refused, when it is asked for, and by pacing;
  it also compacts the arenas. Java threads are kernel tasks that share the heap and take turns under
  a run lock; monitors are kernel mutexes behind a table (\<open>crates/picodroid-core\<close>). The host
  simulator reproduces the allocator of the device (\<open>crates/heap4\<close>).

  The theories, in the order of the code. A theory named \<open>...Laws\<close> holds the invariants, the
  abstraction and the properties of the one it is named after.

  \<^item> \<open>Prelude\<close>: machine words, actions (a state and a \<open>Result\<close>: the state survives an error, as after an
    early return), fallible vectors, the global allocator.
  \<^item> \<open>JvmTypes\<close> (\<open>types.rs\<close>), \<open>JvmFrame\<close> (\<open>frame.rs\<close>): values, their storage slots, call frames and
    the pool of their buffers. Encoding values in slots and decoding them gives them back.
  \<^item> \<open>ChunkedSlots\<close> (\<open>chunked_slots.rs\<close>): the slot table of all three heaps; locale \<open>slot_store\<close>,
    interpreted as \<open>cs\<close>.
  \<^item> \<open>SortKeys\<close> (\<open>sort.rs\<close>): the introsort and the key codecs; locales \<open>sorter\<close> and \<open>keyed_sorter\<close>,
    interpreted on the sort and each codec. The sort is the sorted list for every input.
  \<^item> \<open>CompactSlice\<close> (\<open>gc/compact.rs\<close>), \<open>Compaction\<close>: the slide of the live spans of an arena in bounded
    slices; locale \<open>span_store\<close>, interpreted for both arenas of \<open>ArrayHeap\<close> and the field arena of
    \<open>ObjectHeap\<close>.
  \<^item> \<open>ArrayHeap\<close> (\<open>array_heap.rs\<close>), \<open>ObjectHeap\<close> (\<open>object_heap/mod.rs\<close>): allocation, access, free and
    compaction, refined against the list of the live contents.
  \<^item> \<open>SideStores\<close> (\<open>list_store.rs\<close>, \<open>sb_store.rs\<close>, \<open>iter_store.rs\<close>, \<open>lambda.rs\<close>, \<open>boxed_cache.rs\<close>, the
    exception tables), \<open>MapStore\<close> (\<open>map_store.rs\<close>), \<open>NumFmt\<close> (\<open>num_fmt.rs\<close>): locales \<open>buffer_store\<close>,
    \<open>keyed_table\<close> and \<open>key_equality\<close>, interpreted on each store. A map buffer is a finite map under Java's
    key equality.
  \<^item> \<open>Literals\<close> (\<open>hash.rs\<close>, the literal rows of \<open>section.rs\<close>), \<open>Strings\<close> (\<open>heap.rs\<close>): the string table.
    No call on a reachable table reads a dangling pointer; interning is canonical.
  \<^item> \<open>Floats\<close>: the IEEE 754 arithmetic of the Rust language on bit patterns; \<open>Machine\<close>, \<open>OpsStack\<close>, \<open>OpsMath\<close>,
    \<open>OpsFlow\<close>: the opcode handlers (\<open>ops_stack.rs\<close>, \<open>ops_math.rs\<close>, \<open>ops_convert.rs\<close>, \<open>ops_constants.rs\<close>,
    \<open>ops_locals.rs\<close>, \<open>ops_wide.rs\<close>, \<open>ops_control.rs\<close>).
  \<^item> \<open>CheckCode\<close> (\<open>class-link/src/bytecode.rs\<close>), \<open>SwitchLaws\<close>: the bytecode check and the dispatch, what the check
    gives the interpreter, and where it falls short of its comments.
  \<^item> \<open>LinkTable\<close> (\<open>layout.rs\<close>), \<open>ClassFiles\<close> (\<open>class_file/\<close>), \<open>Hierarchy\<close> (\<open>interpreter/helpers.rs\<close>): what is
    read of a class, and the resolution of classes, methods, fields and instance tests.
  \<^item> \<open>Statics\<close> (\<open>static_fields.rs\<close>, \<open>class_objects.rs\<close>), \<open>Collector\<close> (\<open>gc/mod.rs\<close>) with \<open>CollectorLaws\<close> (marking),
    \<open>SweepLaws\<close> and \<open>CollectorSafety\<close> (a whole collection).
  \<^item> \<open>Unwind\<close>, \<open>RunLoop\<close> (\<open>interpreter/mod.rs\<close>, \<open>ops_monitor.rs\<close>): exceptions, class initialization, returns,
    synchronized methods, and one turn of the loop.
  \<^item> \<open>Monitors\<close> (\<open>monitor_store.rs\<close> over the recursive mutexes of \<open>hal/sim/rtos.rs\<close>): a step relation of
    interleaved tasks; locale \<open>monitor_contract\<close> is what the run loop needs of a monitor
    provider, interpreted on the store.
  \<^item> \<open>Heap4\<close> (\<open>crates/heap4\<close>): the allocator of the simulator, refined against a tiling of its arena.

  How state corresponds. A Rust struct is a record with the struct's fields (a field with a name that
  clashes is prefixed); an enum is a datatype; \<open>u16\<close>, \<open>u32\<close> and so on are words of that width, \<open>usize\<close> is
  \<open>nat\<close> where a bound of the code keeps it small, and a parameter \<open>w\<close> is its width where a sum may wrap. A
  method on \<open>&mut self\<close> is an action or returns the new record; a \<open>Result\<close> is a sum and a panic is the
  fault \<open>Panic\<close>, so that a theorem whose result is \<open>Inr\<close> excludes both.

  Bounds and ends. A loop that a corrupt state could keep running is a \<open>partial_function (option)\<close>, whose
  value \<open>None\<close> is no return; the theorems then show \<open>Some\<close>. The walks along superclasses return on class sets
  whose chains end, the marking and sweeping loops on every heap, the block lists of the allocator on
  every reachable arena. A run holds at most 256 frames, the cap of the code. The turns of the run loop
  are counted by a relation, because a Java program need not end.

  What is assumed. An allocation may be refused at any request: the allocator is an argument of every
  definition that allocates. The crate \<open>libm\<close> is an argument with its documented laws. Names are those of a
  build without a shrink map. The opcodes that are an argument of the run loop keep the frames below the top
  (\<open>opcodes_on_top\<close>). \<open>hierarchy_ok\<close> states what a class set promises to the exception walk, and each witness
  exhibits a class set with it. A monitor key is live while a task waits for it.

  Not modelled. The opcodes that resolve constant-pool entries and those on arrays, with the caches and fast
  paths around them, are an argument of the run loop; the operations they end in are modelled. The native
  methods of the Java classes format through the standard library of Rust and reach files, sockets and
  widgets. The float layouts of \<open>num_fmt.rs\<close> go through the same formatter. The census, integrity and
  poisoning code of the diagnostics builds changes no state of a release build. The container of a package,
  the installer, the debug bridge, the drivers, the framework services, the LVGL bindings, the build
  scripts, the host tools and the platform binary are outside the virtual machine; third-party code is
  never modelled.
\<close>

end
